(* ===== verification/Prelude.thy ===== *)
theory Prelude
  imports Main "HOL-Library.Word" "HOL-Library.AList"
begin

text \<open>
  What the component theories share: the types of the model (bytes, parameter maps, results
  that may be a thrown error), the pieces of the JavaScript library the code leans on
  (splitting and joining text, big-endian integers as a DataView writes them, a Map that keeps
  its insertion order as an association list), and the lemmas about them.

  Text is \<^typ>\<open>string\<close>: the code handles text one UTF-16 unit at a time, compares units with
  ASCII constants only and copies every other unit through, so a list of characters is enough.
\<close>

section \<open>Types and collections\<close>

type_synonym byte = "8 word"
type_synonym bytes = "byte list"
type_synonym params = "string \<rightharpoonup> string"

named_theorems wire_simps \<open>lengths and round trips of byte encodings\<close>
named_theorems step_defs \<open>definitions of the operations on a component's state\<close>

section \<open>Results\<close>

text \<open>
  A computation that may throw: \<open>Inl\<close> is the error, \<open>Inr\<close> the value. The language's own
  errors carry the text that names the offending value.
\<close>

datatype js_error = TypeError string | RangeError string

definition bind_result :: "'e + 'a \<Rightarrow> ('a \<Rightarrow> 'e + 'b) \<Rightarrow> 'e + 'b" where
  "bind_result r f = (case r of Inl e \<Rightarrow> Inl e | Inr x \<Rightarrow> f x)"

lemma bind_result_simps [simp]:
  "bind_result (Inl e) f = Inl e" "bind_result (Inr x) f = f x"
  by (simp_all add: bind_result_def)

lemma bind_result_Inr_iff:
  "bind_result r f = Inr y \<longleftrightarrow> (\<exists>x. r = Inr x \<and> f x = Inr y)"
  by (cases r) simp_all

lemma bind_result_Inl_iff:
  "bind_result r f = Inl e \<longleftrightarrow> r = Inl e \<or> (\<exists>x. r = Inr x \<and> f x = Inl e)"
  by (cases r) simp_all

fun map_result :: "('a \<Rightarrow> 'e + 'b) \<Rightarrow> 'a list \<Rightarrow> 'e + 'b list" where
  "map_result f [] = Inr []"
| "map_result f (x # xs) =
     bind_result (f x) (\<lambda>y. bind_result (map_result f xs) (\<lambda>ys. Inr (y # ys)))"

lemma map_result_Inr_iff:
  "map_result f xs = Inr ys \<longleftrightarrow> list_all2 (\<lambda>x y. f x = Inr y) xs ys"
  by (induction xs arbitrary: ys) (auto simp: bind_result_Inr_iff list_all2_Cons1)

lemma map_result_Inl:
  "map_result f xs = Inl e \<Longrightarrow> \<exists>x\<in>set xs. f x = Inl e"
  by (induction xs) (auto simp: bind_result_Inl_iff)

section \<open>Splitting and joining text\<close>

text \<open>\<open>s.split(c)\<close> for a one-character separator, and \<open>parts.join(sep)\<close>.\<close>

fun split_on :: "'a \<Rightarrow> 'a list \<Rightarrow> 'a list list" where
  "split_on c [] = [[]]"
| "split_on c (x # xs) =
     (if x = c then [] # split_on c xs
      else (case split_on c xs of [] \<Rightarrow> [[x]] | p # ps \<Rightarrow> (x # p) # ps))"

fun join_with :: "'a list \<Rightarrow> 'a list list \<Rightarrow> 'a list" where
  "join_with sep [] = []"
| "join_with sep [p] = p"
| "join_with sep (p # q # ps) = p @ sep @ join_with sep (q # ps)"

lemma split_on_not_Nil [simp]: "split_on c s \<noteq> []"
  by (induction s) (auto split: list.splits)

lemma split_on_no_sep: "p \<in> set (split_on c s) \<Longrightarrow> c \<notin> set p"
  by (induction s arbitrary: p) (auto split: if_splits list.splits)

lemma split_on_free: "c \<notin> set s \<Longrightarrow> split_on c s = [s]"
  by (induction s) auto

lemma split_on_append_sep: "c \<notin> set p \<Longrightarrow> split_on c (p @ c # s) = p # split_on c s"
  by (induction p) auto

lemma join_with_Cons: "ps \<noteq> [] \<Longrightarrow> join_with sep (p # ps) = p @ sep @ join_with sep ps"
  by (cases ps) auto

lemma join_with_Cons_Cons: "join_with sep ((x # p) # ps) = x # join_with sep (p # ps)"
  by (cases ps) auto

lemma split_on_join:
  "ps \<noteq> [] \<Longrightarrow> \<forall>p\<in>set ps. c \<notin> set p \<Longrightarrow> split_on c (join_with [c] ps) = ps"
proof (induction ps)
  case (Cons p ps)
  then show ?case
    by (cases "ps = []") (simp_all add: split_on_free split_on_append_sep join_with_Cons)
qed simp

lemma join_split_on: "join_with [c] (split_on c s) = s"
proof (induction s)
  case (Cons x s)
  then show ?case
    by (cases "split_on c s") (auto simp: join_with_Cons join_with_Cons_Cons)
qed simp

lemma length_split_on: "length (split_on c s) = Suc (count_list s c)"
  by (induction s) (auto split: list.splits)

text \<open>\<open>split\<close> then \<open>join\<close> replaces one character throughout.\<close>

lemma join_split_replace:
  "join_with t (split_on c s) = concat (map (\<lambda>x. if x = c then t else [x]) s)"
proof (induction s)
  case (Cons x s)
  then show ?case
    by (cases "split_on c s") (auto simp: join_with_Cons join_with_Cons_Cons)
qed simp

lemma set_join_with: "set (join_with sep ps) \<subseteq> set sep \<union> \<Union> (set ` set ps)"
proof (induction ps)
  case (Cons p ps)
  then show ?case by (cases "ps = []") (auto simp: join_with_Cons)
qed simp

section \<open>Characters and decimal numbers\<close>

text \<open>\<open>s.charCodeAt(i)\<close>, and the character classes the code's tests name.\<close>

abbreviation code_of :: "char \<Rightarrow> nat" where
  "code_of c \<equiv> of_char c"

definition is_digit :: "char \<Rightarrow> bool" where
  "is_digit c \<longleftrightarrow> 48 \<le> code_of c \<and> code_of c \<le> 57"

definition is_alnum :: "char \<Rightarrow> bool" where
  "is_alnum c \<longleftrightarrow> is_digit c \<or> (65 \<le> code_of c \<and> code_of c \<le> 90)
     \<or> (97 \<le> code_of c \<and> code_of c \<le> 122)"

definition is_printable :: "char \<Rightarrow> bool" where
  "is_printable c \<longleftrightarrow> 32 \<le> code_of c \<and> code_of c \<le> 126"

lemma is_alnum_printable: "is_alnum c \<Longrightarrow> is_printable c"
  by (auto simp: is_alnum_def is_digit_def is_printable_def)

text \<open>\<open>Number(s)\<close> for text of digits alone, and \<open>String(n)\<close> for an integer.\<close>

definition digit_val :: "char \<Rightarrow> nat" where
  "digit_val c = code_of c - 48"

definition nat_of_digits :: "string \<Rightarrow> nat" where
  "nat_of_digits s = foldl (\<lambda>n c. 10 * n + digit_val c) 0 s"

fun string_of_nat :: "nat \<Rightarrow> string" where
  "string_of_nat n =
     (if n < 10 then [char_of (48 + n)]
      else string_of_nat (n div 10) @ [char_of (48 + n mod 10)])"

declare string_of_nat.simps [simp del]

definition string_of_int :: "int \<Rightarrow> string" where
  "string_of_int i = (if i < 0 then CHR ''-'' # string_of_nat (nat (- i)) else string_of_nat (nat i))"

lemma code_of_digit [simp]: "d < 10 \<Longrightarrow> (of_char (char_of (48 + d)) :: nat) = 48 + d"
  by (simp add: of_char_of)

lemma string_of_nat_digits: "list_all is_digit (string_of_nat n)"
proof (induction n rule: string_of_nat.induct)
  case (1 n)
  then show ?case
    by (subst string_of_nat.simps) (auto simp: is_digit_def [of "char_of _"] of_char_of)
qed

lemma string_of_nat_not_Nil [simp]: "string_of_nat n \<noteq> []"
  by (subst string_of_nat.simps) simp

lemma nat_of_digits_snoc: "nat_of_digits (s @ [c]) = 10 * nat_of_digits s + digit_val c"
  by (simp add: nat_of_digits_def)

lemma nat_of_digits_string_of_nat [simp]: "nat_of_digits (string_of_nat n) = n"
proof (induction n rule: string_of_nat.induct)
  case (1 n)
  show ?case
  proof (cases "n < 10")
    case True
    then show ?thesis
      by (subst string_of_nat.simps) (simp add: nat_of_digits_def digit_val_def of_char_of)
  next
    case False
    with 1 show ?thesis
      by (subst string_of_nat.simps) (simp add: nat_of_digits_snoc digit_val_def of_char_of)
  qed
qed

lemma length_string_of_nat: "n < 10 ^ k \<Longrightarrow> 0 < k \<Longrightarrow> length (string_of_nat n) \<le> k"
proof (induction n arbitrary: k rule: string_of_nat.induct)
  case (1 n)
  show ?case
  proof (cases "n < 10")
    case True
    with 1 show ?thesis by (subst string_of_nat.simps) simp
  next
    case False
    with 1 obtain j where k: "k = Suc j" "0 < j"
      by (cases k; cases "k - 1") auto
    with 1 have "n div 10 < 10 ^ j" by (simp add: less_mult_imp_div_less)
    with 1 False k have "length (string_of_nat (n div 10)) \<le> j" by simp
    with False k show ?thesis by (subst string_of_nat.simps) simp
  qed
qed

lemma string_of_nat_inj: "string_of_nat m = string_of_nat n \<Longrightarrow> m = n"
  by (metis nat_of_digits_string_of_nat)

section \<open>Integers as big-endian bytes\<close>

text \<open>
  \<open>DataView.setUint16\<close>, \<open>setUint32\<close> and \<open>setBigUint64\<close> in network order, and the reads that
  invert them. A value too wide for the field keeps its low bytes, as the DataView does.
\<close>

fun be_bytes :: "nat \<Rightarrow> nat \<Rightarrow> bytes" where
  "be_bytes 0 v = []"
| "be_bytes (Suc n) v = be_bytes n (v div 256) @ [of_nat v]"

definition be_val :: "bytes \<Rightarrow> nat" where
  "be_val bs = foldl (\<lambda>n b. 256 * n + unat b) 0 bs"

lemma length_be_bytes [simp, wire_simps]: "length (be_bytes n v) = n"
  by (induction n arbitrary: v) auto

lemma be_val_snoc: "be_val (bs @ [b]) = 256 * be_val bs + unat b"
  by (simp add: be_val_def)

lemma be_val_Nil [simp]: "be_val [] = 0"
  by (simp add: be_val_def)

lemma unat_byte_less: "unat (b :: byte) < 256"
  using unsigned_less[of b] by simp

lemma unat_byte_of_nat: "unat (of_nat v :: byte) = v mod 256"
  by (simp add: unat_of_nat)

lemma be_val_be_bytes [wire_simps]: "be_val (be_bytes n v) = v mod 256 ^ n"
proof (induction n arbitrary: v)
  case (Suc n)
  have "256 * (v div 256 mod 256 ^ n) + v mod 256 = v mod (256 * 256 ^ n)"
    by (simp add: mod_mult2_eq add.commute)
  with Suc show ?case by (simp add: be_val_snoc unat_byte_of_nat)
qed simp

lemma be_val_less: "be_val bs < 256 ^ length bs"
proof (induction bs rule: rev_induct)
  case (snoc b bs)
  have "unat b < 256" using unsigned_less[of b] by simp
  with snoc show ?case by (simp add: be_val_snoc)
qed simp

lemma be_bytes_be_val [wire_simps]: "be_bytes (length bs) (be_val bs) = bs"
proof (induction bs rule: rev_induct)
  case (snoc b bs)
  have b: "unat b < 256" using unsigned_less[of b] by simp
  have "unat (of_nat (256 * be_val bs + unat b) :: byte) = unat b"
    unfolding unat_byte_of_nat using b by simp
  then have "of_nat (256 * be_val bs + unat b) = b" by (rule unsigned_word_eqI)
  with snoc b show ?case by (simp add: be_val_snoc del: of_nat_add of_nat_mult)
qed simp

text \<open>The little-endian read of \<open>b0 | b1 << 8 | b2 << 16 | b3 << 24\<close>.\<close>

definition le_val :: "bytes \<Rightarrow> nat" where
  "le_val bs = be_val (rev bs)"

lemma le_val_less: "le_val bs < 256 ^ length bs"
  using be_val_less[of "rev bs"] by (simp add: le_val_def)

unbundle bit_operations_syntax

text \<open>A byte shifted in from the right.\<close>

lemma push_bit_or_byte: "push_bit 8 r OR unat (b :: byte) = 256 * r + unat b"
proof -
  have "take_bit 8 (unat b) = unat b"
    using unat_byte_less[of b] by (simp add: take_bit_nat_eq_self_iff)
  moreover have "push_bit 8 r OR take_bit 8 (unat b) = push_bit 8 r + take_bit 8 (unat b)"
    by (rule disjunctive_add[symmetric]) (auto simp: bit_push_bit_iff bit_take_bit_iff)
  ultimately show ?thesis by (simp add: push_bit_eq_mult)
qed

section \<open>Insertion-ordered maps\<close>

text \<open>
  A JavaScript Map iterates in the order its keys were first set: an association list under
  \<^const>\<open>AList.update\<close>, which replaces a held key in place and appends a new one, and
  \<^const>\<open>AList.delete\<close>.
\<close>

type_synonym ('k, 'v) jsmap = "('k \<times> 'v) list"

definition js_keys_distinct :: "('k, 'v) jsmap \<Rightarrow> bool" where
  "js_keys_distinct m \<longleftrightarrow> distinct (map fst m)"

lemma js_keys_distinct_update [simp]:
  "js_keys_distinct m \<Longrightarrow> js_keys_distinct (AList.update k v m)"
  by (simp add: js_keys_distinct_def distinct_update)

lemma js_keys_distinct_delete [simp]:
  "js_keys_distinct m \<Longrightarrow> js_keys_distinct (AList.delete k m)"
  by (simp add: js_keys_distinct_def distinct_delete)

lemma js_keys_distinct_Nil [simp]: "js_keys_distinct []"
  by (simp add: js_keys_distinct_def)

lemma js_dom_delete [simp]: "fst ` set (AList.delete k m) = fst ` set m - {k}"
  by (metis delete_keys list.set_map set_removeAll)

lemma js_update_new: "map_of m k = None \<Longrightarrow> AList.update k v m = m @ [(k, v)]"
  by (induction m) (auto split: if_splits)

text \<open>A quantity summed over a map, such as the bytes a queue holds.\<close>

definition sum_over :: "('v \<Rightarrow> nat) \<Rightarrow> ('k, 'v) jsmap \<Rightarrow> nat" where
  "sum_over f m = sum_list (map (f \<circ> snd) m)"

lemma sum_over_Nil [simp]: "sum_over f [] = 0"
  by (simp add: sum_over_def)

lemma sum_over_delete:
  "js_keys_distinct m \<Longrightarrow>
     sum_over f m = sum_over f (AList.delete k m) + (case map_of m k of None \<Rightarrow> 0 | Some v \<Rightarrow> f v)"
proof (induction m)
  case (Cons p m)
  obtain k' v where p: "p = (k', v)" by fastforce
  show ?case
  proof (cases "k = k'")
    case True
    with Cons.prems p have "k \<notin> fst ` set m"
      by (auto simp: js_keys_distinct_def)
    then have "AList.delete k m = m" by simp
    with True p show ?thesis by (simp add: sum_over_def)
  next
    case False
    with Cons p show ?thesis by (simp add: sum_over_def js_keys_distinct_def)
  qed
qed simp

lemma sum_over_update_new:
  "map_of m k = None \<Longrightarrow> sum_over f (AList.update k v m) = sum_over f m + f v"
  by (induction m) (auto simp: sum_over_def split: if_splits)

end
