(* ===== verification/Generation_Window.thy ===== *)
theory Generation_Window
  imports Prelude
begin

text \<open>
  The receive and send windows of \<open>src/client/transport/generation-window.ts\<close>: packets are
  numbered without bound, a header carries the number modulo 65536, and the window recovers
  the generation (the multiple of the modulus) that the packet's key derives from.

  The specification is the unbounded number itself: \<open>position\<close> reads a window as the number of
  the packet it expects next, and every operation is shown to act on that number.
\<close>

section \<open>The window\<close>

record window =
  mappedBaseOffset :: nat
  generation :: nat
  win_mod :: nat
  receiveWindow :: nat

definition new_window :: "nat \<Rightarrow> nat \<Rightarrow> window" where
  "new_window md windowSize =
     \<lparr>mappedBaseOffset = 0, generation = 0, win_mod = md, receiveWindow = windowSize\<rparr>"

definition advance :: "window \<Rightarrow> int \<Rightarrow> window" where
  "advance w amount =
     (if amount \<le> 0 then w
      else let newBaseOffset = mappedBaseOffset w + nat amount;
               genStep = newBaseOffset div win_mod w
           in w\<lparr>generation := (if 0 < genStep then min (generation w + genStep) 0xffffffff
                               else generation w),
                mappedBaseOffset := newBaseOffset mod win_mod w\<rparr>)"

definition move_dist :: "window \<Rightarrow> nat \<Rightarrow> int" where
  "move_dist w mappedValue =
     (let moveDist = int mappedValue - int (mappedBaseOffset w)
      in if moveDist < 0 then moveDist + int (win_mod w) else moveDist)"

definition advanceToExcluded :: "window \<Rightarrow> nat \<Rightarrow> window" where
  "advanceToExcluded w mappedValue = advance w (move_dist w mappedValue + 1)"

definition syncTo :: "window \<Rightarrow> nat \<Rightarrow> window" where
  "syncTo w mappedValue = advance w (move_dist w mappedValue)"

definition isInWindow :: "window \<Rightarrow> nat \<Rightarrow> bool" where
  "isInWindow w mappedValue =
     (let maxOffset = mappedBaseOffset w + receiveWindow w
      in if maxOffset < win_mod w
         then mappedBaseOffset w \<le> mappedValue \<and> mappedValue < maxOffset
         else mappedBaseOffset w \<le> mappedValue \<or> int mappedValue < int maxOffset - int (win_mod w))"

definition isBehindAcrossWrap :: "window \<Rightarrow> int \<Rightarrow> bool" where
  "isBehindAcrossWrap w index \<longleftrightarrow>
     0 < generation w \<and> int (receiveWindow w) \<le> index \<and>
     int (win_mod w) - int (receiveWindow w) \<le> index"

definition isNextGen :: "window \<Rightarrow> nat \<Rightarrow> bool" where
  "isNextGen w mappedValue \<longleftrightarrow>
     int (mappedBaseOffset w) > int (win_mod w) - int (receiveWindow w) \<and>
     int mappedValue < int (mappedBaseOffset w) + int (receiveWindow w) - int (win_mod w)"

definition mappedToIndex :: "window \<Rightarrow> nat \<Rightarrow> int" where
  "mappedToIndex w mappedValue =
     (if isNextGen w mappedValue
      then int mappedValue + int (win_mod w) - int (mappedBaseOffset w)
      else let index = int mappedValue - int (mappedBaseOffset w)
           in if isBehindAcrossWrap w index then index - int (win_mod w) else index)"

definition isOldPacket :: "window \<Rightarrow> nat \<Rightarrow> bool" where
  "isOldPacket w mappedValue \<longleftrightarrow> mappedToIndex w mappedValue < 0"

definition isFuturePacket :: "window \<Rightarrow> nat \<Rightarrow> bool" where
  "isFuturePacket w mappedValue \<longleftrightarrow> int (receiveWindow w) \<le> mappedToIndex w mappedValue"

definition getGeneration :: "window \<Rightarrow> nat \<Rightarrow> nat" where
  "getGeneration w mappedValue =
     (if isNextGen w mappedValue then generation w + 1
      else if isBehindAcrossWrap w (int mappedValue - int (mappedBaseOffset w))
        then generation w - 1
      else generation w)"

definition advanceAfter :: "window \<Rightarrow> nat \<Rightarrow> window" where
  "advanceAfter w mappedValue =
     (let index = mappedToIndex w mappedValue
      in if index < 0 then w else advance w (index + 1))"

definition reset :: "window \<Rightarrow> window" where
  "reset w = w\<lparr>mappedBaseOffset := 0, generation := 0\<rparr>"

section \<open>The number a window stands at\<close>

definition position :: "window \<Rightarrow> nat" where
  "position w = generation w * win_mod w + mappedBaseOffset w"

text \<open>
  The windows the handler makes: the receive window spans at most half the ids. Generations
  saturate at \<open>2 ^ 32 - 1\<close>, so positions are meaningful below \<open>horizon\<close>.
\<close>

definition window_ok :: "window \<Rightarrow> bool" where
  "window_ok w \<longleftrightarrow> 0 < receiveWindow w \<and> 2 * receiveWindow w \<le> win_mod w
     \<and> mappedBaseOffset w < win_mod w"

definition horizon :: "window \<Rightarrow> nat" where
  "horizon w = 2 ^ 32 * win_mod w"

lemma window_ok_new: "0 < r \<Longrightarrow> 2 * r \<le> m \<Longrightarrow> window_ok (new_window m r)"
  by (simp add: window_ok_def new_window_def)

lemma position_new [simp]: "position (new_window m r) = 0"
  by (simp add: position_def new_window_def)

lemma advance_frame [simp]:
  "win_mod (advance w a) = win_mod w" "receiveWindow (advance w a) = receiveWindow w"
  by (simp_all add: advance_def Let_def)

lemma window_ok_advance [simp]: "window_ok w \<Longrightarrow> window_ok (advance w a)"
  by (auto simp: window_ok_def advance_def Let_def)

lemma horizon_advance [simp]: "horizon (advance w a) = horizon w"
  by (simp add: horizon_def)

lemma position_advance:
  assumes "window_ok w" "0 \<le> a" "position w + nat a < horizon w"
  shows "position (advance w a) = position w + nat a"
proof (cases "a = 0")
  case False
  let ?m = "win_mod w" and ?n = "mappedBaseOffset w + nat a"
  have m: "0 < ?m" using assms(1) by (simp add: window_ok_def)
  have p: "position w + nat a = generation w * ?m + ?n" by (simp add: position_def)
  then have "(generation w * ?m + ?n) div ?m < 2 ^ 32"
    using assms(3) by (intro less_mult_imp_div_less) (simp add: horizon_def)
  moreover have "(generation w * ?m + ?n) div ?m = generation w + ?n div ?m" using m by simp
  ultimately have "generation w + ?n div ?m < 2 ^ 32" by simp
  then have "min (generation w + ?n div ?m) 0xffffffff = generation w + ?n div ?m" by simp
  then have "position (advance w a) = (generation w + ?n div ?m) * ?m + ?n mod ?m"
    using False assms(2) by (simp add: advance_def position_def Let_def)
  also have "\<dots> = generation w * ?m + ?n" by (simp add: algebra_simps)
  finally show ?thesis using p by simp
qed (simp add: advance_def)

section \<open>Placing an id\<close>

text \<open>
  The heart of the component: the id of any packet less than a receive window away from the
  position, ahead of it or behind it, is placed exactly, whatever wraps lie between.
\<close>

lemma place_id:
  assumes "window_ok w"
    and "int n - int (position w) < int (receiveWindow w)"
    and "- int (receiveWindow w) \<le> int n - int (position w)"
  shows "getGeneration w (n mod win_mod w) = n div win_mod w \<and>
         mappedToIndex w (n mod win_mod w) = int n - int (position w)"
proof -
  let ?m = "win_mod w" and ?b = "mappedBaseOffset w" and ?r = "receiveWindow w" and ?g = "generation w"
  define d where "d = int n - int (position w)"
  have ok: "0 < ?r" "2 * ?r \<le> ?m" "?b < ?m" using assms(1) by (simp_all add: window_ok_def)
  have d: "d < int ?r" "- int ?r \<le> d" using assms(2,3) by (simp_all add: d_def)
  have n: "int n = int ?g * int ?m + (int ?b + d)" by (simp add: d_def position_def)
  note defs = getGeneration_def mappedToIndex_def isNextGen_def isBehindAcrossWrap_def Let_def
  consider (same) "0 \<le> int ?b + d" "int ?b + d < int ?m" | (next_gen) "int ?m \<le> int ?b + d"
    | (prev_gen) "int ?b + d < 0" by linarith
  then show ?thesis
  proof cases
    case same
    define e where "e = nat (int ?b + d)"
    have e: "int e = int ?b + d" using same by (simp add: e_def)
    then have "int n = int (?g * ?m + e)" using n by simp
    then have "n = ?g * ?m + e" by (simp only: of_nat_eq_iff)
    moreover have "e < ?m" using e same by linarith
    ultimately have "n div ?m = ?g" "n mod ?m = e" by simp_all
    then show ?thesis unfolding defs using d ok same e by (simp add: d_def[symmetric])
  next
    case next_gen
    define e where "e = nat (int ?b + d - int ?m)"
    have e: "int e = int ?b + d - int ?m" using next_gen by (simp add: e_def)
    then have "int n = int (Suc ?g * ?m + e)" using n by (simp add: algebra_simps)
    then have "n = Suc ?g * ?m + e" by (simp only: of_nat_eq_iff)
    moreover have "e < ?m" using e d ok by linarith
    ultimately have "n div ?m = Suc ?g" "n mod ?m = e" by (simp_all del: mult_Suc)
    then show ?thesis unfolding defs using d ok next_gen e by (simp add: d_def[symmetric])
  next
    case prev_gen
    have "0 < ?g"
    proof (rule ccontr)
      assume "\<not> 0 < ?g"
      with n prev_gen have "int n < 0" by simp
      then show False by simp
    qed
    then obtain h where h: "?g = Suc h" by (cases ?g) auto
    define e where "e = nat (int ?b + d + int ?m)"
    have e: "int e = int ?b + d + int ?m" using d ok by (simp add: e_def)
    then have "int n = int (h * ?m + e)" using n h by (simp add: algebra_simps)
    then have "n = h * ?m + e" by (simp only: of_nat_eq_iff)
    moreover have "e < ?m" using e prev_gen by linarith
    ultimately have "n div ?m = h" "n mod ?m = e" by simp_all
    then show ?thesis unfolding defs using d ok prev_gen h e by (simp add: d_def[symmetric])
  qed
qed

lemma isInWindow_iff:
  assumes "window_ok w" "v < win_mod w"
  shows "isInWindow w v \<longleftrightarrow> 0 \<le> mappedToIndex w v \<and> mappedToIndex w v < int (receiveWindow w)"
  using assms
  by (auto simp: isInWindow_def mappedToIndex_def isNextGen_def isBehindAcrossWrap_def window_ok_def Let_def)

lemma isInWindow_not_old:
  "window_ok w \<Longrightarrow> v < win_mod w \<Longrightarrow> isInWindow w v \<Longrightarrow> \<not> isOldPacket w v \<and> \<not> isFuturePacket w v"
  by (simp add: isInWindow_iff isOldPacket_def isFuturePacket_def)

lemma position_advanceAfter:
  assumes "window_ok w" "n < position w + receiveWindow w" "position w \<le> n + receiveWindow w"
    and "n + 1 < horizon w"
  shows "position (advanceAfter w (n mod win_mod w)) = max (position w) (n + 1)"
proof -
  have i: "mappedToIndex w (n mod win_mod w) = int n - int (position w)"
    using place_id[OF assms(1), of n] assms(2,3) by linarith
  show ?thesis
  proof (cases "n < position w")
    case True
    with i show ?thesis by (simp add: advanceAfter_def Let_def)
  next
    case False
    then have "position (advance w (int n - int (position w) + 1)) = n + 1"
      using assms(4) by (subst position_advance[OF assms(1)]) (simp_all add: nat_add_distrib nat_diff_distrib)
    with False i show ?thesis by (simp add: advanceAfter_def Let_def)
  qed
qed

lemma window_ok_advanceAfter [simp]: "window_ok w \<Longrightarrow> window_ok (advanceAfter w v)"
  by (simp add: advanceAfter_def Let_def)

lemma advanceAfter_frame [simp]:
  "win_mod (advanceAfter w v) = win_mod w" "receiveWindow (advanceAfter w v) = receiveWindow w"
  "horizon (advanceAfter w v) = horizon w"
  by (simp_all add: advanceAfter_def Let_def)

text \<open>
  Sending: the window follows the packet just numbered. The distance to an id is the least one
  forward, so following the sender's own next id moves the position by one.
\<close>

lemma move_dist_bounds:
  assumes "window_ok w" "v < win_mod w"
  shows "0 \<le> move_dist w v" "move_dist w v < int (win_mod w)"
    "(position w + nat (move_dist w v)) mod win_mod w = v"
proof -
  let ?m = "win_mod w" and ?b = "mappedBaseOffset w"
  have b: "?b < ?m" using assms(1) by (simp add: window_ok_def)
  show "0 \<le> move_dist w v" "move_dist w v < int ?m"
    using b assms(2) by (auto simp: move_dist_def Let_def)
  have "(?b + nat (move_dist w v)) mod ?m = v"
  proof (cases "?b \<le> v")
    case True
    then have "nat (move_dist w v) = v - ?b" by (simp add: move_dist_def Let_def)
    with True assms(2) show ?thesis by simp
  next
    case False
    then have "nat (move_dist w v) = v + ?m - ?b" by (simp add: move_dist_def Let_def)
    with False b assms(2) show ?thesis by simp
  qed
  then show "(position w + nat (move_dist w v)) mod ?m = v"
    by (simp add: position_def add.assoc)
qed

section \<open>Following a stream of packets\<close>

text \<open>
  What a receiver needs of a window to place every packet of a stream: while no packet is a
  window or more away from the position, each is given the generation of its true number.
\<close>

primrec stream_gens ::
  "('w \<Rightarrow> nat \<Rightarrow> nat) \<Rightarrow> ('w \<Rightarrow> nat \<Rightarrow> 'w) \<Rightarrow> 'w \<Rightarrow> nat list \<Rightarrow> nat list" where
  "stream_gens gen_of follow w [] = []"
| "stream_gens gen_of follow w (v # vs) = gen_of w v # stream_gens gen_of follow (follow w v) vs"

text \<open>A stream in which each packet is near the highest number seen before it.\<close>

primrec near_stream :: "nat \<Rightarrow> nat \<Rightarrow> nat \<Rightarrow> nat list \<Rightarrow> bool" where
  "near_stream r l p [] = True"
| "near_stream r l p (n # ns) =
     (n < p + r \<and> p \<le> n + r \<and> n + 1 < l \<and> near_stream r l (max p (n + 1)) ns)"

locale id_tracker =
  fixes ok :: "'w \<Rightarrow> bool"
    and pos :: "'w \<Rightarrow> nat"
    and reach :: "'w \<Rightarrow> nat"
    and modulus :: "'w \<Rightarrow> nat"
    and limit :: "'w \<Rightarrow> nat"
    and gen_of :: "'w \<Rightarrow> nat \<Rightarrow> nat"
    and follow :: "'w \<Rightarrow> nat \<Rightarrow> 'w"
  assumes gen_of_near: "ok w \<Longrightarrow> n < pos w + reach w \<Longrightarrow> pos w \<le> n + reach w \<Longrightarrow>
      gen_of w (n mod modulus w) = n div modulus w"
    and pos_follow: "ok w \<Longrightarrow> n < pos w + reach w \<Longrightarrow> pos w \<le> n + reach w \<Longrightarrow> n + 1 < limit w \<Longrightarrow>
      pos (follow w (n mod modulus w)) = max (pos w) (n + 1)"
    and ok_follow: "ok w \<Longrightarrow> ok (follow w v)"
    and frame_follow: "modulus (follow w v) = modulus w" "reach (follow w v) = reach w"
      "limit (follow w v) = limit w"
begin

lemma gens_near_stream:
  assumes "ok w" "near_stream (reach w) (limit w) (pos w) ns"
  shows "stream_gens gen_of follow w (map (\<lambda>n. n mod modulus w) ns) = map (\<lambda>n. n div modulus w) ns"
  using assms
proof (induction ns arbitrary: w)
  case (Cons n ns)
  let ?w = "follow w (n mod modulus w)"
  from Cons.prems have n: "n < pos w + reach w" "pos w \<le> n + reach w" "n + 1 < limit w" by simp_all
  then have "pos ?w = max (pos w) (n + 1)" using Cons.prems(1) by (simp add: pos_follow)
  with Cons.prems have "near_stream (reach ?w) (limit ?w) (pos ?w) ns" by (simp add: frame_follow)
  from Cons.IH[OF ok_follow[OF Cons.prems(1)] this] n Cons.prems(1) show ?case
    by (simp add: gen_of_near frame_follow)
qed simp

end

interpretation voice_window:
  id_tracker window_ok position receiveWindow win_mod horizon getGeneration advanceAfter
proof unfold_locales
  fix w :: window and n v :: nat
  show "window_ok w \<Longrightarrow> n < position w + receiveWindow w \<Longrightarrow> position w \<le> n + receiveWindow w \<Longrightarrow>
      getGeneration w (n mod win_mod w) = n div win_mod w"
    using place_id[of w n] by linarith
  show "window_ok w \<Longrightarrow> n < position w + receiveWindow w \<Longrightarrow> position w \<le> n + receiveWindow w \<Longrightarrow>
      n + 1 < horizon w \<Longrightarrow>
      position (advanceAfter w (n mod win_mod w)) = max (position w) (n + 1)"
    by (rule position_advanceAfter)
qed simp_all

end
