(* ===== verification/Packet_Header.thy ===== *)
theory Packet_Header
  imports Prelude Complex_Main
begin

unbundle bit_operations_syntax

text \<open>
  The packets of the voice protocol, \<open>src/client/transport/packet.ts\<close>: the type byte with its
  flags and the headers in both directions. Ids, generations and sizes are \<^typ>\<open>nat\<close>; a header
  field keeps the low 16 bits, as the DataView does. Times are the readings of the monotonic
  clock in milliseconds, \<^typ>\<open>real\<close>.
\<close>

section \<open>Packet types and flags\<close>

text \<open>The nibble of a type byte can also hold 9 to 15, which name no type.\<close>

datatype packet_type = Voice | VoiceWhisper | Command | CommandLow | Ping | Pong | Ack | AckLow
  | Init1 | Unnamed nat

fun type_code :: "packet_type \<Rightarrow> nat" where
  "type_code Voice = 0"
| "type_code VoiceWhisper = 1"
| "type_code Command = 2"
| "type_code CommandLow = 3"
| "type_code Ping = 4"
| "type_code Pong = 5"
| "type_code Ack = 6"
| "type_code AckLow = 7"
| "type_code Init1 = 8"
| "type_code (Unnamed n) = n"

definition named_types :: "packet_type list" where
  "named_types = [Voice, VoiceWhisper, Command, CommandLow, Ping, Pong, Ack, AckLow, Init1]"

definition Fragmented :: byte where "Fragmented = 0x10"
definition NewProtocol :: byte where "NewProtocol = 0x20"
definition Compressed :: byte where "Compressed = 0x40"
definition Unencrypted :: byte where "Unencrypted = 0x80"

lemmas flag_defs = Fragmented_def NewProtocol_def Compressed_def Unencrypted_def

record packet =
  typeFlagged :: byte
  pk_id :: nat
  clientID :: nat
  generationID :: nat
  pk_data :: bytes
  receivedAt :: real

definition packetTypeOfByte :: "byte \<Rightarrow> packet_type" where
  "packetTypeOfByte typeByte =
     (let n = unat (typeByte AND 0x0f)
      in if n < length named_types then named_types ! n else Unnamed n)"

definition packetType :: "packet \<Rightarrow> packet_type" where
  "packetType p = packetTypeOfByte (typeFlagged p)"

definition packetFlags :: "packet \<Rightarrow> byte" where
  "packetFlags p = typeFlagged p AND 0xf0"

definition has_flag :: "packet \<Rightarrow> byte \<Rightarrow> bool" where
  "has_flag p flag \<longleftrightarrow> packetFlags p AND flag \<noteq> 0"

definition isUnencrypted :: "packet \<Rightarrow> bool" where
  "isUnencrypted p \<longleftrightarrow> has_flag p Unencrypted"

text \<open>\<open>pType | flags\<close>, the type byte a sender builds.\<close>

definition type_byte :: "packet_type \<Rightarrow> byte \<Rightarrow> byte" where
  "type_byte pType flags = of_nat (type_code pType) OR flags"

section \<open>Headers\<close>

definition buildC2SHeader :: "packet \<Rightarrow> bytes" where
  "buildC2SHeader p = be_bytes 2 (pk_id p) @ be_bytes 2 (clientID p) @ [typeFlagged p]"

text \<open>The reads of a header; a DataView throws past its end, which is \<^const>\<open>None\<close> here.\<close>

definition parseS2CHeader :: "bytes \<Rightarrow> (nat \<times> byte) option" where
  "parseS2CHeader raw =
     (if length raw < 3 then None else Some (be_val (take 2 raw), raw ! 2))"

definition parseC2SHeader :: "bytes \<Rightarrow> (nat \<times> nat \<times> byte) option" where
  "parseC2SHeader raw =
     (if length raw < 5 then None
      else Some (be_val (take 2 raw), be_val (take 2 (drop 2 raw)), raw ! 4))"

lemma length_buildC2SHeader [simp, wire_simps]: "length (buildC2SHeader p) = 5"
  by (simp add: buildC2SHeader_def)

lemma parseC2S_buildC2S:
  "parseC2SHeader (buildC2SHeader p) =
     Some (pk_id p mod 65536, clientID p mod 65536, typeFlagged p)"
proof -
  let ?a = "be_bytes 2 (pk_id p)" and ?b = "be_bytes 2 (clientID p)"
  have "take 2 (buildC2SHeader p) = ?a" "take 2 (drop 2 (buildC2SHeader p)) = ?b"
    "buildC2SHeader p ! 4 = typeFlagged p"
    by (simp_all add: buildC2SHeader_def nth_append)
  then show ?thesis
    unfolding parseC2SHeader_def by (simp add: be_val_be_bytes)
qed

section \<open>Type bytes\<close>

lemma nibble_lt: "unat (b AND 0x0f :: byte) < 16"
proof -
  have "b AND 0x0f \<le> 0x0f" by (rule word_and_le1)
  then have "unat (b AND 0x0f) \<le> unat (0x0f :: byte)" by (simp only: word_le_nat_alt)
  then show ?thesis by simp
qed

definition high_nibble :: "byte \<Rightarrow> bool" where
  "high_nibble flags \<longleftrightarrow> flags AND 0x0f = 0"

lemma type_byte_nibbles:
  assumes "high_nibble flags" "pType \<in> set named_types"
  shows "type_byte pType flags AND 0x0f = of_nat (type_code pType)"
    "type_byte pType flags AND 0xf0 = flags"
proof -
  have "flags AND 0xf0 = flags"
  proof -
    have "0x0f OR 0xf0 = (-1 :: byte)" by simp
    then have "flags = flags AND (0x0f OR 0xf0)" by (simp only: bit.conj_one_right)
    also have "\<dots> = (flags AND 0x0f) OR (flags AND 0xf0)" by (simp only: bit.conj_disj_distrib)
    also have "\<dots> = flags AND 0xf0" using assms(1) by (simp add: high_nibble_def)
    finally show ?thesis by simp
  qed
  with assms show "type_byte pType flags AND 0x0f = of_nat (type_code pType)"
    "type_byte pType flags AND 0xf0 = flags"
    by (auto simp: type_byte_def named_types_def high_nibble_def bit.conj_disj_distrib2)
qed

lemma packetTypeOfByte_type_byte:
  assumes "high_nibble flags" "pType \<in> set named_types"
  shows "packetTypeOfByte (type_byte pType flags) = pType"
  using assms(2) unfolding packetTypeOfByte_def type_byte_nibbles(1)[OF assms] Let_def
  by (auto simp: named_types_def)

end
