(* ===== verification/QuickLZ.thy ===== *)
theory QuickLZ
  imports Prelude
begin

unbundle bit_operations_syntax

text \<open>
  QuickLZ level 1 decompression, \<open>src/client/transport/quicklz.ts\<close>, as the server compresses
  large commands. The input comes from the network: every read is checked in the code, and
  each \<open>throw new QuickLZError\<close> is an \<open>Inl\<close> here. The output buffer is a list of the declared
  dsize that is overwritten in place; the hash table is a function from hashes, all of which are
  below \<open>TABLE_SIZE\<close>, to positions.
\<close>

section \<open>Header\<close>

definition MAX_DECOMPRESSED_SIZE :: nat where "MAX_DECOMPRESSED_SIZE = 2 ^ 20"
definition MAX_EXPANSION :: nat where "MAX_EXPANSION = 128"

type_synonym qlz_error = string

text \<open>\<open>b0 | b1 << 8 | b2 << 16 | b3 << 24\<close>, unsigned, at a position.\<close>

definition read_le4 :: "bytes \<Rightarrow> nat \<Rightarrow> nat" where
  "read_le4 data pos = le_val (take 4 (drop pos data))"

record qlz_header =
  headerLen :: nat
  decompressedSize :: nat
  qlz_flags :: byte

definition parseQlzHeader :: "bytes \<Rightarrow> qlz_error + qlz_header" where
  "parseQlzHeader data =
     (if length data < 3 then Inl ''data too short''
      else let flags = data ! 0; level = drop_bit 2 flags AND 3
      in if level \<noteq> 1 then Inl ''only level 1 is supported''
      else let long = (flags AND 2 \<noteq> 0); hlen = (if long then 9 else 3)
      in if length data < hlen then Inl ''data too short for header''
      else let dsize = (if long then read_le4 data 5 else unat (data ! 2))
      in if dsize > MAX_DECOMPRESSED_SIZE then Inl ''declared size exceeds the maximum''
      else Inr \<lparr>headerLen = hlen, decompressedSize = dsize, qlz_flags = flags\<rparr>)"

section \<open>Decoder state and steps\<close>

record qlz_state =
  control :: nat
  sourcePos :: nat
  destPos :: nat
  nextHashed :: nat
  dest :: bytes
  hashtable :: "nat \<Rightarrow> nat"

abbreviation ends_early :: "qlz_error + 'a" where
  "ends_early \<equiv> Inl ''block ends early''"

definition ensureControl :: "bytes \<Rightarrow> qlz_state \<Rightarrow> qlz_error + qlz_state" where
  "ensureControl data st =
     (if control st \<noteq> 1 then Inr st
      else if sourcePos st + 4 > length data then ends_early
      else Inr (st\<lparr>control := read_le4 data (sourcePos st), sourcePos := sourcePos st + 4\<rparr>))"

definition hash3 :: "bytes \<Rightarrow> nat \<Rightarrow> nat" where
  "hash3 d i =
     (let v = unat (d ! i) OR push_bit 8 (unat (d ! (i + 1))) OR push_bit 16 (unat (d ! (i + 2)))
      in (drop_bit 12 v XOR v) AND 0xfff)"

function updateHashtable :: "bytes \<Rightarrow> nat \<Rightarrow> (nat \<Rightarrow> nat) \<Rightarrow> nat \<Rightarrow> (nat \<Rightarrow> nat) \<times> nat" where
  "updateHashtable d end tbl next =
     (if next < end \<and> next + 3 \<le> length d
      then updateHashtable d end (tbl(hash3 d next := next)) (next + 1)
      else (tbl, next))"
  by pat_completeness auto
termination by (relation "measure (\<lambda>(d, end, tbl, next). end - next)") auto

declare updateHashtable.simps [simp del]

text \<open>The copy loop of a back-reference; source and destination may overlap.\<close>

fun copy_match :: "bytes \<Rightarrow> nat \<Rightarrow> nat \<Rightarrow> nat \<Rightarrow> bytes" where
  "copy_match d src dst 0 = d"
| "copy_match d src dst (Suc n) = copy_match (d[dst := d ! src]) (src + 1) (dst + 1) n"

definition processReference :: "bytes \<Rightarrow> qlz_state \<Rightarrow> qlz_error + qlz_state" where
  "processReference data st0 =
     (let st = st0\<lparr>control := control st0 div 2\<rparr>
      in if sourcePos st + 2 > length data then ends_early
      else let b1 = data ! sourcePos st; b2 = data ! (sourcePos st + 1);
               pos = sourcePos st + 2;
               hash = drop_bit 4 (unat b1) OR push_bit 4 (unat b2);
               low = unat (b1 AND 0x0f)
      in if low = 0 \<and> pos \<ge> length data then ends_early
      else let matchlen = (if low \<noteq> 0 then low + 2 else unat (data ! pos));
               pos' = (if low \<noteq> 0 then pos else pos + 1);
               offset = hashtable st hash
      in if offset \<ge> destPos st then Inl ''back-reference points ahead of the output''
      else if destPos st + matchlen > length (dest st)
        then Inl ''back-reference overruns the declared size''
      else let d = copy_match (dest st) offset (destPos st) matchlen;
               dp = destPos st + matchlen;
               end = dp + 1 - matchlen;
               (tbl, next) = updateHashtable d end (hashtable st) (nextHashed st)
      in Inr (st\<lparr>sourcePos := pos', destPos := dp, nextHashed := dp, dest := d, hashtable := tbl\<rparr>))"

text \<open>The tail of a block: literals only, no hashing.\<close>

function literalTail :: "bytes \<Rightarrow> nat \<Rightarrow> qlz_state \<Rightarrow> qlz_error + qlz_state" where
  "literalTail data dsize st =
     (if destPos st < dsize
      then (case ensureControl data st of
              Inl e \<Rightarrow> Inl e
            | Inr st' \<Rightarrow>
                if sourcePos st' \<ge> length data then ends_early
                else literalTail data dsize
                  (st'\<lparr>dest := (dest st')[destPos st' := data ! sourcePos st'],
                      destPos := destPos st' + 1, sourcePos := sourcePos st' + 1,
                      control := control st' div 2\<rparr>))
      else Inr st)"
  by pat_completeness auto
termination
  by (relation "measure (\<lambda>(data, dsize, st). dsize - destPos st)")
     (auto simp: ensureControl_def split: if_splits)

declare literalTail.simps [simp del]

text \<open>\<open>processLiteral\<close>; the flag says that the tail has been copied.\<close>

definition processLiteral :: "bytes \<Rightarrow> nat \<Rightarrow> qlz_state \<Rightarrow> qlz_error + bool \<times> qlz_state" where
  "processLiteral data dsize st =
     (let threshold = max dsize 10 - 10
      in if destPos st \<ge> threshold
         then bind_result (literalTail data dsize st) (\<lambda>st'. Inr (True, st'))
      else if sourcePos st \<ge> length data then ends_early
      else let d = (dest st)[destPos st := data ! sourcePos st];
               dp = destPos st + 1;
               end = dp - 2;
               (tbl, next) = updateHashtable d end (hashtable st) (nextHashed st)
      in Inr (False, st\<lparr>control := control st div 2, sourcePos := sourcePos st + 1, destPos := dp,
                        nextHashed := max next end, dest := d, hashtable := tbl\<rparr>))"

definition qlz_step :: "bytes \<Rightarrow> nat \<Rightarrow> qlz_state \<Rightarrow> qlz_error + bool \<times> qlz_state" where
  "qlz_step data dsize st =
     bind_result (ensureControl data st) (\<lambda>st'.
       if odd (control st') then bind_result (processReference data st') (\<lambda>st''. Inr (False, st''))
       else processLiteral data dsize st')"

lemma ensureControl_Inr:
  assumes "ensureControl data st = Inr st'"
  shows "destPos st' = destPos st" "dest st' = dest st" "hashtable st' = hashtable st"
    "nextHashed st' = nextHashed st"
    "sourcePos st' = sourcePos st \<or> sourcePos st' = sourcePos st + 4 \<and> sourcePos st' \<le> length data"
  using assms by (auto simp: ensureControl_def split: if_splits)

lemma processReference_Inr:
  assumes "processReference data st = Inr st'"
  shows "sourcePos st < sourcePos st'" "sourcePos st' \<le> length data"
    "destPos st \<le> destPos st'" "destPos st' \<le> destPos st + 85 * (sourcePos st' - sourcePos st)"
    "length (dest st') = length (dest st)" "destPos st' \<le> length (dest st)"
proof -
  have copy: "length (copy_match d s t n) = length d" for d s t n
    by (induction d s t n rule: copy_match.induct) simp_all
  have b: "unat (b :: byte) \<le> 255" for b
    using unat_byte_less[of b] by simp
  have n: "unat (b AND 0x0f :: byte) \<le> 15" for b
    using word_and_le1[of b "0x0f"] by (simp add: word_le_nat_alt)
  show "sourcePos st < sourcePos st'" "sourcePos st' \<le> length data"
    "destPos st \<le> destPos st'" "length (dest st') = length (dest st)" "destPos st' \<le> length (dest st)"
    using assms by (auto simp: processReference_def Let_def copy split: if_splits prod.splits)
  show "destPos st' \<le> destPos st + 85 * (sourcePos st' - sourcePos st)"
    using assms b[of "data ! (sourcePos st + 2)"] n[of "data ! sourcePos st"]
    by (auto simp: processReference_def Let_def split: if_splits prod.splits)
qed

definition tail_post :: "bytes \<Rightarrow> nat \<Rightarrow> qlz_state \<Rightarrow> qlz_state \<Rightarrow> bool" where
  "tail_post data dsize st st' \<longleftrightarrow> destPos st' = dsize \<and> length (dest st') = length (dest st) \<and>
     sourcePos st + (dsize - destPos st) \<le> sourcePos st' \<and>
     (destPos st < dsize \<longrightarrow> sourcePos st' \<le> length data)"

lemma literalTail_Inr:
  assumes "literalTail data dsize st = Inr st'" "destPos st \<le> dsize"
  shows "tail_post data dsize st st'"
  using assms
proof (induction data dsize st rule: literalTail.induct)
  case (1 data dsize st)
  show ?case
  proof (cases "destPos st < dsize")
    case False
    with 1 show ?thesis by (simp add: literalTail.simps[of data dsize st] tail_post_def)
  next
    case True
    with "1.prems"(1) obtain s1 where s1: "ensureControl data st = Inr s1" "sourcePos s1 < length data"
      by (subst (asm) literalTail.simps) (auto split: sum.splits if_splits)
    let ?s2 = "s1\<lparr>dest := (dest s1)[destPos s1 := data ! sourcePos s1],
      destPos := destPos s1 + 1, sourcePos := sourcePos s1 + 1, control := control s1 div 2\<rparr>"
    note e = ensureControl_Inr[OF s1(1)]
    have r: "literalTail data dsize ?s2 = Inr st'"
      using "1.prems"(1) True s1 by (subst (asm) literalTail.simps) simp
    have le: "destPos ?s2 \<le> dsize" using True e(1) by simp
    have IH: "tail_post data dsize ?s2 st'"
      using "1.IH"[OF True s1(1) _ r le] s1(2) by simp
    have "sourcePos st' \<le> length data"
    proof (cases "destPos ?s2 < dsize")
      case True
      with IH show ?thesis by (simp add: tail_post_def)
    next
      case False
      then have "st' = ?s2" using r by (subst (asm) literalTail.simps) simp
      then show ?thesis using s1(2) by simp
    qed
    then show ?thesis using IH e True by (auto simp: tail_post_def)
  qed
qed

lemma processLiteral_Inr:
  assumes "processLiteral data dsize st = Inr (fin, st')" "destPos st < dsize"
  shows "sourcePos st < sourcePos st'" "sourcePos st' \<le> length data"
    "destPos st' \<le> dsize" "destPos st' \<le> destPos st + (sourcePos st' - sourcePos st)"
    "length (dest st') = length (dest st)" "fin \<Longrightarrow> destPos st' = dsize"
proof -
  consider (tail) "literalTail data dsize st = Inr st'" fin
    | (one) "\<not> fin" "sourcePos st < length data" "sourcePos st' = sourcePos st + 1"
        "destPos st' = destPos st + 1" "length (dest st') = length (dest st)"
    using assms(1) by (auto simp: processLiteral_def Let_def bind_result_Inr_iff split: if_splits prod.splits)
  note c = this
  show "sourcePos st < sourcePos st'" "sourcePos st' \<le> length data"
    "destPos st' \<le> dsize" "destPos st' \<le> destPos st + (sourcePos st' - sourcePos st)"
    "length (dest st') = length (dest st)" "fin \<Longrightarrow> destPos st' = dsize"
    using c assms(2) literalTail_Inr[of data dsize st st']
    by (cases; force simp: tail_post_def)+
qed

lemma qlz_step_Inr:
  assumes "qlz_step data dsize st = Inr (fin, st')" "destPos st < dsize"
  shows "sourcePos st < sourcePos st'" "sourcePos st' \<le> length data"
    "destPos st' \<le> destPos st + 85 * (sourcePos st' - sourcePos st)"
    "length (dest st') = length (dest st)" "length (dest st) = dsize \<Longrightarrow> destPos st' \<le> dsize"
proof -
  from assms(1) obtain s1 where s1: "ensureControl data st = Inr s1"
    and r: "odd (control s1) \<and> processReference data s1 = Inr st' \<and> \<not> fin \<or>
            even (control s1) \<and> processLiteral data dsize s1 = Inr (fin, st')"
    by (auto simp: qlz_step_def bind_result_Inr_iff split: if_splits)
  note e = ensureControl_Inr[OF s1]
  have l: "destPos s1 < dsize" "length (dest s1) = length (dest st)" "sourcePos st \<le> sourcePos s1"
    using e assms(2) by auto
  show "sourcePos st < sourcePos st'" "sourcePos st' \<le> length data"
    "destPos st' \<le> destPos st + 85 * (sourcePos st' - sourcePos st)"
    "length (dest st') = length (dest st)" "length (dest st) = dsize \<Longrightarrow> destPos st' \<le> dsize"
    using r processReference_Inr[of data s1 st'] processLiteral_Inr[of data dsize s1 fin st'] l e(1)
    by auto
qed

section \<open>Decompression\<close>

text \<open>
  The main loop ends because every step reads input: the position in it grows and never passes
  its end.
\<close>

function qlz_loop :: "bytes \<Rightarrow> nat \<Rightarrow> qlz_state \<Rightarrow> qlz_error + qlz_state" where
  "qlz_loop data dsize st =
     (if destPos st < dsize
      then (case qlz_step data dsize st of
              Inl e \<Rightarrow> Inl e
            | Inr (fin, st') \<Rightarrow> if fin then Inr st' else qlz_loop data dsize st')
      else Inr st)"
  by pat_completeness auto
termination
proof (relation "measure (\<lambda>(data, dsize, st). length data - sourcePos st)", goal_cases)
  case (2 data dsize st r fin st')
  then show ?case using qlz_step_Inr(1,2)[of data dsize st fin st'] by simp
qed simp

declare qlz_loop.simps [simp del]

definition init_qlz :: "qlz_header \<Rightarrow> qlz_state" where
  "init_qlz h = \<lparr>control = 1, sourcePos = headerLen h, destPos = 0, nextHashed = 0,
                dest = replicate (decompressedSize h) 0, hashtable = (\<lambda>_. 0)\<rparr>"

text \<open>A compressed block after the header and the expansion check.\<close>

definition decompress_block :: "bytes \<Rightarrow> qlz_header \<Rightarrow> qlz_error + bytes" where
  "decompress_block data h =
     bind_result (qlz_loop data (decompressedSize h) (init_qlz h)) (\<lambda>st.
       if destPos st \<noteq> decompressedSize h then ends_early else Inr (dest st))"

definition decompress :: "bytes \<Rightarrow> qlz_error + bytes" where
  "decompress data =
     bind_result (parseQlzHeader data) (\<lambda>h.
       if qlz_flags h AND 1 = 0
       then (if headerLen h + decompressedSize h > length data
             then Inl ''stored block is shorter than its declared size''
             else Inr (take (decompressedSize h) (drop (headerLen h) data)))
       else if decompressedSize h > (length data - headerLen h) * MAX_EXPANSION
         then Inl ''declared size is more than the bytes can expand to''
       else decompress_block data h)"

section \<open>Bounds\<close>

lemma qlz_loop_Inr:
  assumes "qlz_loop data dsize st = Inr st'" "length (dest st) = dsize" "destPos st \<le> dsize"
    "sourcePos st \<le> length data"
  shows "length (dest st') = dsize \<and> sourcePos st \<le> sourcePos st' \<and> sourcePos st' \<le> length data \<and>
    destPos st' \<le> dsize \<and> destPos st' \<le> destPos st + 85 * (sourcePos st' - sourcePos st)"
  using assms
proof (induction data dsize st rule: qlz_loop.induct)
  case (1 data dsize st)
  show ?case
  proof (cases "destPos st < dsize")
    case False
    with 1 show ?thesis by (simp add: qlz_loop.simps[of data dsize st])
  next
    case True
    with "1.prems"(1,2) obtain fin s1 where s1: "qlz_step data dsize st = Inr (fin, s1)"
      "(if fin then Inr s1 else qlz_loop data dsize s1) = Inr st'"
      by (subst (asm) qlz_loop.simps) (auto split: sum.splits prod.splits if_splits)
    note q = qlz_step_Inr[OF s1(1) True]
    show ?thesis
    proof (cases fin)
      case True
      with s1 q "1.prems"(2) show ?thesis by simp
    next
      case False
      with s1(2) have r: "qlz_loop data dsize s1 = Inr st'" by simp
      have "length (dest st') = dsize \<and> sourcePos s1 \<le> sourcePos st' \<and> sourcePos st' \<le> length data \<and>
        destPos st' \<le> dsize \<and> destPos st' \<le> destPos s1 + 85 * (sourcePos st' - sourcePos s1)"
        using "1.IH"[OF True s1(1) refl False r] q "1.prems"(2) by simp
      with q(1,2,3) show ?thesis by auto
    qed
  qed
qed

lemma parseQlzHeader_Inr:
  assumes "parseQlzHeader data = Inr h"
  shows "headerLen h \<le> length data" "decompressedSize h \<le> MAX_DECOMPRESSED_SIZE"
    "headerLen h = 3 \<or> headerLen h = 9" "qlz_flags h = data ! 0"
  using assms by (auto simp: parseQlzHeader_def Let_def split: if_splits)

lemma decompress_block_Inr:
  assumes "decompress_block data h = Inr out" "headerLen h \<le> length data"
  shows "length out = decompressedSize h"
    "decompressedSize h \<le> 85 * (length data - headerLen h)"
proof -
  from assms(1) obtain st where st: "qlz_loop data (decompressedSize h) (init_qlz h) = Inr st"
    "destPos st = decompressedSize h" "out = dest st"
    by (auto simp: decompress_block_def bind_result_Inr_iff split: if_splits)
  have "length (dest st) = decompressedSize h \<and> sourcePos st \<le> length data \<and>
    destPos st \<le> 85 * (sourcePos st - headerLen h)"
    using qlz_loop_Inr[OF st(1)] assms(2) by (simp add: init_qlz_def)
  with st(2,3) show "length out = decompressedSize h"
    "decompressedSize h \<le> 85 * (length data - headerLen h)"
    by auto
qed

text \<open>Without the expansion check: the reference the check is measured against.\<close>

definition decompress_unchecked :: "bytes \<Rightarrow> qlz_error + bytes" where
  "decompress_unchecked data =
     bind_result (parseQlzHeader data) (\<lambda>h.
       if qlz_flags h AND 1 = 0
       then (if headerLen h + decompressedSize h > length data
             then Inl ''stored block is shorter than its declared size''
             else Inr (take (decompressedSize h) (drop (headerLen h) data)))
       else decompress_block data h)"

lemma decompress_check_only_refuses:
  "decompress data = Inr out \<longleftrightarrow> decompress_unchecked data = Inr out"
proof (cases "parseQlzHeader data")
  case (Inr h)
  note h = parseQlzHeader_Inr[OF Inr]
  have "decompressedSize h \<le> (length data - headerLen h) * MAX_EXPANSION"
    if "decompress_block data h = Inr out"
    using decompress_block_Inr(2)[OF that h(1)] by (simp add: MAX_EXPANSION_def)
  with Inr show ?thesis
    by (auto simp: decompress_def decompress_unchecked_def)
qed (simp add: decompress_def decompress_unchecked_def)

lemma decompress_length:
  assumes "decompress data = Inr out"
  shows "\<exists>h. parseQlzHeader data = Inr h \<and> length out = decompressedSize h"
    "length out \<le> 2 ^ 20"
proof -
  from assms obtain h where h: "parseQlzHeader data = Inr h"
    and out: "qlz_flags h AND 1 = 0 \<and> headerLen h + decompressedSize h \<le> length data \<and>
        out = take (decompressedSize h) (drop (headerLen h) data) \<or> decompress_block data h = Inr out"
    by (auto simp: decompress_def bind_result_Inr_iff split: if_splits)
  from out have l: "length out = decompressedSize h"
    using decompress_block_Inr(1)[of data h out] parseQlzHeader_Inr(1)[OF h] by auto
  with h show "\<exists>h. parseQlzHeader data = Inr h \<and> length out = decompressedSize h" by blast
  show "length out \<le> 2 ^ 20"
    using l parseQlzHeader_Inr(2)[OF h] by (simp add: MAX_DECOMPRESSED_SIZE_def)
qed

end
