(* ===== verification/Receive_Queue.thy ===== *)
theory Receive_Queue
  imports Generation_Window Packet_Header QuickLZ
begin

text \<open>
  Receiving commands in order, the queue half of \<open>src/client/transport/handler.ts\<close>: packets that
  arrive early are held, each command is put together from its fragments once they are all
  there, decompressed and handed on. The two command streams (Command and CommandLow) each have a
  queue, a window and a next id, one \<open>command_stream\<close> here; the bytes held are counted over both,
  so the operations take a stream with that count.

  The specification is the list of packets the server numbered: \<open>Receive_Order\<close> shows that what
  is delivered is that list cut into commands, whatever order the packets arrive in.
\<close>

section \<open>State\<close>

definition MAX_REASSEMBLED_SIZE :: nat where "MAX_REASSEMBLED_SIZE = 2 ^ 20"
definition MAX_QUEUED_BYTES :: nat where "MAX_QUEUED_BYTES = 2 ^ 20"
definition COMMAND_HOLE_TIMEOUT_MS :: real where "COMMAND_HOLE_TIMEOUT_MS = 5000"
definition RECEIVE_PACKET_WINDOW_SIZE :: nat where "RECEIVE_PACKET_WINDOW_SIZE = 1024"

record command_stream =
  cs_queue :: "(nat, packet) jsmap"
  cs_window :: window
  cs_next :: nat

type_synonym rx = "command_stream \<times> int"

definition new_stream :: command_stream where
  "new_stream = \<lparr>cs_queue = [], cs_window = new_window 65536 RECEIVE_PACKET_WINDOW_SIZE, cs_next = 0\<rparr>"

text \<open>\<open>(id + 1) & 0xffff\<close>.\<close>

definition next_id :: "nat \<Rightarrow> nat" where
  "next_id i = (i + 1) mod 65536"

section \<open>Holding and releasing\<close>

definition data_length :: "packet \<Rightarrow> nat" where
  "data_length p = length (pk_data p)"

definition release :: "nat \<Rightarrow> rx \<Rightarrow> rx" where
  "release i = (\<lambda>(s, queuedBytes).
     case map_of (cs_queue s) i of
       None \<Rightarrow> (s, queuedBytes)
     | Some held \<Rightarrow> (s\<lparr>cs_queue := AList.delete i (cs_queue s)\<rparr>, queuedBytes - int (data_length held)))"

definition hold :: "packet \<Rightarrow> rx \<Rightarrow> rx" where
  "hold p r =
     (let (s, queuedBytes) = release (pk_id p) r
      in (s\<lparr>cs_queue := AList.update (pk_id p) p (cs_queue s)\<rparr>, queuedBytes + int (data_length p)))"

text \<open>The first id from the next expected one that the queue does not hold.\<close>

fun needed_from :: "nat \<Rightarrow> (nat, packet) jsmap \<Rightarrow> nat \<Rightarrow> nat" where
  "needed_from 0 q i = i"
| "needed_from (Suc n) q i = (if map_of q i \<noteq> None then needed_from n q (next_id i) else i)"

definition needed_id :: "command_stream \<Rightarrow> nat" where
  "needed_id s = needed_from (length (cs_queue s)) (cs_queue s) (cs_next s)"

text \<open>
  The decision of \<open>handleCommandWindowAndAck\<close>: a packet outside the window is dropped, and
  acknowledged when it is an old one; one the queues have no room for is dropped unacknowledged.
\<close>

datatype admission = Repeated | Outside | No_Room | Admitted

definition admission_of :: "packet \<Rightarrow> rx \<Rightarrow> admission" where
  "admission_of p = (\<lambda>(s, queuedBytes).
     if \<not> isInWindow (cs_window s) (pk_id p)
     then (if isOldPacket (cs_window s) (pk_id p) then Repeated else Outside)
     else let held = (case map_of (cs_queue s) (pk_id p) of None \<Rightarrow> 0 | Some h \<Rightarrow> data_length h)
          in if pk_id p \<noteq> needed_id s \<and>
                queuedBytes - int held + int (data_length p) > int MAX_QUEUED_BYTES
             then No_Room else Admitted)"

section \<open>Putting a command together\<close>

text \<open>
  The first loop of \<open>tryReassemble\<close>. The code's loop has no bound of its own; the fuel is one
  more than the packets held, and running out of it is a result of its own.
\<close>

datatype collected = Missing | Complete "packet list" | Runaway

fun collect :: "nat \<Rightarrow> (nat, packet) jsmap \<Rightarrow> nat \<Rightarrow> bool \<Rightarrow> packet list \<Rightarrow> collected" where
  "collect 0 q currID startSeen fragments = Runaway"
| "collect (Suc n) q currID startSeen fragments =
     (case map_of q currID of
        None \<Rightarrow> Missing
      | Some frag \<Rightarrow>
          (let fragments' = fragments @ [frag]; fragmented = has_flag frag Fragmented
           in if \<not> startSeen \<and> \<not> fragmented then Complete fragments'
              else if startSeen \<and> fragmented then Complete fragments'
              else collect n q (next_id currID) True fragments'))"

text \<open>The loops that release a command's fragments and move the window past them.\<close>

primrec release_run :: "nat \<Rightarrow> nat \<times> rx \<Rightarrow> nat \<times> rx" where
  "release_run 0 x = x"
| "release_run (Suc n) x =
     (let (nextID, r) = x; (s, b) = release nextID r
      in release_run n (next_id nextID, (s\<lparr>cs_window := advance (cs_window s) 1\<rparr>, b)))"

definition clear_flag :: "byte \<Rightarrow> packet \<Rightarrow> packet" where
  "clear_flag flag p = p\<lparr>typeFlagged := typeFlagged p AND NOT flag\<rparr>"

datatype reassembly = Incomplete | Diverges | Reassembled "packet option" nat rx

definition tryReassemble :: "packet \<Rightarrow> nat \<Rightarrow> rx \<Rightarrow> reassembly" where
  "tryReassemble startPacket nextID r =
     (if \<not> has_flag startPacket Fragmented
      then let (nextID', r') = release_run 1 (nextID, r) in Reassembled (Some startPacket) nextID' r'
      else case collect (Suc (length (cs_queue (fst r)))) (cs_queue (fst r)) nextID False [] of
             Missing \<Rightarrow> Incomplete
           | Runaway \<Rightarrow> Diverges
           | Complete fragments \<Rightarrow>
               (let totalSize = sum_list (map data_length fragments);
                    (nextID', r') = release_run (length fragments) (nextID, r)
                in if totalSize > MAX_REASSEMBLED_SIZE then Reassembled None nextID' r'
                   else Reassembled (Some (clear_flag Fragmented
                          (startPacket\<lparr>pk_data := concat (map pk_data fragments)\<rparr>))) nextID' r'))"

text \<open>\<open>tryDecompress\<close>: \<^const>\<open>None\<close> where the command is to be dropped.\<close>

definition tryDecompress :: "packet \<Rightarrow> packet option" where
  "tryDecompress p =
     (if \<not> has_flag p Compressed then Some p
      else case QuickLZ.decompress (pk_data p) of
             Inl _ \<Rightarrow> None
           | Inr d \<Rightarrow> Some (clear_flag Compressed (p\<lparr>pk_data := d\<rparr>)))"

text \<open>
  The loop of \<open>handlePacketQueue\<close>: the commands handed to \<open>onPacket\<close>, in order, and the stream
  after it. \<^const>\<open>None\<close> is a loop that has not ended within the fuel.
\<close>

fun drain :: "nat \<Rightarrow> rx \<Rightarrow> (packet list \<times> rx) option" where
  "drain 0 r = None"
| "drain (Suc n) r =
     (case map_of (cs_queue (fst r)) (cs_next (fst r)) of
        None \<Rightarrow> Some ([], r)
      | Some packet \<Rightarrow>
          (case tryReassemble packet (cs_next (fst r)) r of
             Incomplete \<Rightarrow> Some ([], r)
           | Diverges \<Rightarrow> None
           | Reassembled reassembled newNext (s, b) \<Rightarrow>
               (let r' = (s\<lparr>cs_next := newNext\<rparr>, b)
                in case Option.bind reassembled tryDecompress of
                     None \<Rightarrow> drain n r'
                   | Some command \<Rightarrow> map_option (apfst (Cons command)) (drain n r'))))"

definition handle_queue :: "packet \<Rightarrow> rx \<Rightarrow> (packet list \<times> rx) option" where
  "handle_queue p r = (let r' = hold p r in drain (Suc (length (cs_queue (fst r')))) r')"

text \<open>\<open>hasStalledHole\<close>: a packet is missing and a later one has waited too long for it.\<close>

definition hasStalledHole :: "command_stream \<Rightarrow> real \<Rightarrow> bool" where
  "hasStalledHole s now \<longleftrightarrow>
     map_of (cs_queue s) (cs_next s) = None \<and>
     (\<exists>(i, p)\<in>set (cs_queue s). (i + 65536 - cs_next s) mod 65536 < 32768 \<and>
        now - receivedAt p > COMMAND_HOLE_TIMEOUT_MS)"

section \<open>Ids around the wrap\<close>

lemma next_id_add [simp]: "next_id ((a + d) mod 65536) = (a + Suc d) mod 65536"
  by (simp add: next_id_def mod_Suc_eq)

lemma next_id_less [simp]: "next_id a < 65536"
  by (simp add: next_id_def)

lemma id_offset_inj:
  assumes "(a + d) mod 65536 = (a + e) mod 65536" "d < 65536" "e < (65536 :: nat)"
  shows "d = e"
proof (rule ccontr)
  have shift: False if eq: "(a + x) mod 65536 = (a + y) mod 65536" and "x < y" "y < 65536" for x y :: nat
  proof -
    have "65536 dvd (a + y) - (a + x)" using eq that(2) by (subst (asm) eq_commute) (simp add: mod_eq_dvd_iff_nat)
    then have "65536 dvd y - x" by simp
    with that(2,3) show False by (auto dest!: dvd_imp_le)
  qed
  assume "d \<noteq> e"
  with assms shift[of d e] shift[of e d] show False by (cases "d < e") auto
qed

section \<open>The invariant of a stream\<close>

text \<open>
  Held packets are keyed by their id, each once, and lie in the window, which starts at the next
  id expected. \<open>a\<close> is that id: the loops that release a command move it before it is stored.
  \<open>P d p\<close> is what is known of a packet held at the distance \<open>d\<close> from it.
\<close>

definition held_at :: "(nat \<Rightarrow> packet \<Rightarrow> bool) \<Rightarrow> nat \<Rightarrow> (nat, packet) jsmap \<Rightarrow> bool" where
  "held_at P a q \<longleftrightarrow>
     (\<forall>(i, p)\<in>set q. pk_id p = i \<and> (\<exists>d<1024. i = (a + d) mod 65536 \<and> P d p))"

definition queue_ok :: "(nat \<Rightarrow> packet \<Rightarrow> bool) \<Rightarrow> nat \<Rightarrow> command_stream \<Rightarrow> bool" where
  "queue_ok P a s \<longleftrightarrow>
     js_keys_distinct (cs_queue s) \<and> held_at P a (cs_queue s) \<and> a < 65536 \<and>
     mappedBaseOffset (cs_window s) = a \<and> win_mod (cs_window s) = 65536 \<and>
     receiveWindow (cs_window s) = 1024"

definition stream_inv :: "command_stream \<Rightarrow> bool" where
  "stream_inv s \<longleftrightarrow> queue_ok (\<lambda>_ _. True) (cs_next s) s"

lemma stream_inv_new: "stream_inv new_stream"
  by (simp add: stream_inv_def queue_ok_def held_at_def new_stream_def new_window_def
      RECEIVE_PACKET_WINDOW_SIZE_def)

lemma queue_ok_next [simp]: "queue_ok P a (s\<lparr>cs_next := i\<rparr>) = queue_ok P a s"
  by (simp add: queue_ok_def)

lemma held_at_length:
  assumes "js_keys_distinct q" "held_at P a q"
  shows "length q \<le> 1024"
proof -
  have "set (map fst q) \<subseteq> (\<lambda>d. (a + d) mod 65536) ` {..<1024}"
    using assms(2) by (auto simp: held_at_def)
  then have "card (set (map fst q)) \<le> card {..<1024::nat}"
    by (meson card_image_le card_mono dual_order.trans finite_imageI finite_lessThan)
  then show ?thesis using assms(1) distinct_card[of "map fst q"] by (simp add: js_keys_distinct_def)
qed

lemma in_window_iff:
  assumes "queue_ok P a s" "v < 65536"
  shows "isInWindow (cs_window s) v \<longleftrightarrow> (\<exists>d<1024. v = (a + d) mod 65536)"
proof
  assume w: "isInWindow (cs_window s) v"
  show "\<exists>d<1024. v = (a + d) mod 65536"
  proof (cases "a \<le> v")
    case True
    with w assms show ?thesis
      by (intro exI[of _ "v - a"]) (auto simp: isInWindow_def queue_ok_def Let_def split: if_splits)
  next
    case False
    then have "(a + (v + 65536 - a)) mod 65536 = v" using assms by (simp add: queue_ok_def)
    with False w assms show ?thesis
      by (intro exI[of _ "v + 65536 - a"]) (auto simp: isInWindow_def queue_ok_def Let_def split: if_splits)
  qed
next
  assume "\<exists>d<1024. v = (a + d) mod 65536"
  then obtain d where d: "d < 1024" "v = (a + d) mod 65536" by blast
  have "(a + d) mod 65536 = (if a + d < 65536 then a + d else a + d - 65536)"
    using d assms(1) by (auto simp: queue_ok_def mod_if)
  with d assms show "isInWindow (cs_window s) v"
    by (auto simp: isInWindow_def queue_ok_def Let_def)
qed

section \<open>Releasing\<close>

text \<open>The bytes the count holds beyond this stream's: those of the other stream.\<close>

definition held_bytes :: "command_stream \<Rightarrow> int" where
  "held_bytes s = int (sum_over data_length (cs_queue s))"

definition elsewhere :: "rx \<Rightarrow> int" where
  "elsewhere r = snd r - held_bytes (fst r)"

lemma release_shape:
  "fst (release i (s, b)) = s\<lparr>cs_queue := AList.delete i (cs_queue s)\<rparr>"
  by (auto simp: release_def delete_id map_of_eq_None_iff split: option.split)

lemma elsewhere_release:
  assumes "js_keys_distinct (cs_queue s)"
  shows "elsewhere (release i (s, b)) = elsewhere (s, b)"
  using sum_over_delete[OF assms, of data_length i]
  by (auto simp: elsewhere_def held_bytes_def release_def split: option.split)

lemma held_at_step:
  assumes "held_at P a q" "a < 65536"
  shows "held_at (\<lambda>d. P (Suc d)) (next_id a) (AList.delete a q)"
  unfolding held_at_def
proof clarify
  fix i p assume "(i, p) \<in> set (AList.delete a q)"
  then have q: "(i, p) \<in> set q" "i \<noteq> a" by (auto simp: AList.delete_eq)
  with assms(1) obtain d where d: "pk_id p = i" "d < 1024" "i = (a + d) mod 65536" "P d p"
    unfolding held_at_def by blast
  with q(2) assms(2) obtain e where "d = Suc e" by (cases d) auto
  with d show "pk_id p = i \<and> (\<exists>d<1024. i = (next_id a + d) mod 65536 \<and> P (Suc d) p)"
    by (auto simp: next_id_def mod_simps intro!: exI[of _ e])
qed

lemma queue_ok_step:
  assumes "queue_ok P a s"
  shows "queue_ok (\<lambda>d. P (Suc d)) (next_id a)
    (s\<lparr>cs_queue := AList.delete a (cs_queue s), cs_window := advance (cs_window s) 1\<rparr>)"
  using assms
  by (simp add: queue_ok_def held_at_step) (simp add: advance_def Let_def next_id_def)

lemma release_run_step:
  "release_run (Suc n) (a, (s, b)) =
     release_run n (next_id a, (s\<lparr>cs_queue := AList.delete a (cs_queue s),
       cs_window := advance (cs_window s) 1\<rparr>, snd (release a (s, b))))"
  using release_shape[of a s b] by (cases "release a (s, b)") simp

lemma release_run_ok:
  assumes "queue_ok P a s" "release_run n (a, (s, b)) = (a', (s', b'))"
  shows "queue_ok (\<lambda>d. P (n + d)) a' s' \<and> a' = (a + n) mod 65536 \<and>
    elsewhere (s', b') = elsewhere (s, b) \<and> cs_next s' = cs_next s"
  using assms
proof (induction n arbitrary: P a s b)
  case 0
  then show ?case by (auto simp: queue_ok_def)
next
  case (Suc n)
  let ?s = "s\<lparr>cs_queue := AList.delete a (cs_queue s), cs_window := advance (cs_window s) 1\<rparr>"
  note run = Suc.prems(2)[unfolded release_run_step]
  have "elsewhere (?s, snd (release a (s, b))) = elsewhere (release a (s, b))"
    using release_shape[of a s b] by (simp add: elsewhere_def held_bytes_def)
  also have "\<dots> = elsewhere (s, b)"
    using Suc.prems(1) by (intro elsewhere_release) (simp add: queue_ok_def)
  finally show ?case
    using Suc.IH[OF queue_ok_step[OF Suc.prems(1)] run] by (auto simp: next_id_def mod_simps)
qed

text \<open>A run of packets at the front of a queue leaves it that much shorter.\<close>

lemma release_run_length:
  assumes "queue_ok P a s" "\<forall>j<n. map_of (cs_queue s) ((a + j) mod 65536) \<noteq> None" "n \<le> 1024"
    "release_run n (a, (s, b)) = (a', (s', b'))"
  shows "length (cs_queue s) = length (cs_queue s') + n"
  using assms
proof (induction n arbitrary: P a s b)
  case (Suc n)
  let ?q = "AList.delete a (cs_queue s)"
  let ?s = "s\<lparr>cs_queue := ?q, cs_window := advance (cs_window s) 1\<rparr>"
  have a: "a < 65536" "distinct (map fst (cs_queue s))"
    using Suc.prems(1) by (auto simp: queue_ok_def js_keys_distinct_def)
  have "a \<in> fst ` set (cs_queue s)"
    using Suc.prems(2)[rule_format, of 0] a(1) by (simp add: map_of_eq_None_iff)
  moreover have "map fst ?q = removeAll a (map fst (cs_queue s))"
    by (rule delete_keys)
  ultimately have len: "length (cs_queue s) = Suc (length ?q)"
    using a(2) by (metis Suc_pred' distinct_remove1_removeAll length_map length_pos_if_in_set
        length_remove1 list.set_map)
  have "map_of ?q ((next_id a + j) mod 65536) \<noteq> None" if "j < n" for j
  proof -
    have "(next_id a + j) mod 65536 = (a + Suc j) mod 65536" by (simp add: next_id_def mod_simps)
    moreover have "(a + Suc j) mod 65536 \<noteq> a"
      using id_offset_inj[of a "Suc j" 0] that Suc.prems(3) a(1) by auto
    ultimately show ?thesis using Suc.prems(2) that by (auto simp: delete_conv')
  qed
  then show ?case
    using Suc.IH[OF queue_ok_step[OF Suc.prems(1)] _ _ Suc.prems(4)[unfolded release_run_step]]
      Suc.prems(3) len by simp
qed simp

section \<open>Collecting the fragments\<close>

definition tail_shape :: "packet list \<Rightarrow> bool" where
  "tail_shape ps \<longleftrightarrow>
     ps \<noteq> [] \<and> has_flag (last ps) Fragmented \<and> (\<forall>p\<in>set (butlast ps). \<not> has_flag p Fragmented)"

text \<open>The packets of one command: a single one, or from one marked as a fragment to the next such.\<close>

definition whole :: "packet list \<Rightarrow> bool" where
  "whole ps \<longleftrightarrow>
     (case ps of [] \<Rightarrow> False
      | p # rest \<Rightarrow> (if has_flag p Fragmented then tail_shape rest else rest = []))"

definition held_run :: "(nat, packet) jsmap \<Rightarrow> nat \<Rightarrow> nat \<Rightarrow> packet list" where
  "held_run q a n = map (\<lambda>j. the (map_of q ((a + j) mod 65536))) [0..<n]"

lemma held_run_Suc:
  "held_run q a (Suc n) = the (map_of q (a mod 65536)) # held_run q (Suc a) n"
  by (simp add: held_run_def upt_conv_Cons map_Suc_upt[symmetric] o_def del: upt_Suc)

definition all_held :: "(nat, packet) jsmap \<Rightarrow> nat \<Rightarrow> nat \<Rightarrow> bool" where
  "all_held q a n \<longleftrightarrow> (\<forall>j<n. map_of q ((a + j) mod 65536) \<noteq> None)"

lemma all_held_Suc:
  "all_held q a (Suc n) \<longleftrightarrow> map_of q (a mod 65536) \<noteq> None \<and> all_held q (Suc a) n"
  by (simp add: all_held_def All_less_Suc2)

lemma collect_rest:
  "collect n q (a mod 65536) True acc = Complete ps \<Longrightarrow>
     \<exists>k. 0 < k \<and> k \<le> n \<and> all_held q a k \<and> ps = acc @ held_run q a k \<and> tail_shape (held_run q a k)"
proof (induction n arbitrary: a acc)
  case (Suc n)
  then obtain f where f: "map_of q (a mod 65536) = Some f" by (auto split: option.splits)
  show ?case
  proof (cases "has_flag f Fragmented")
    case True
    with Suc.prems f show ?thesis
      by (intro exI[of _ 1]) (simp add: all_held_def held_run_def tail_shape_def Let_def)
  next
    case False
    with Suc.prems f have "collect n q (Suc a mod 65536) True (acc @ [f]) = Complete ps"
      by (simp add: Let_def next_id_def mod_Suc_eq)
    from Suc.IH[OF this] obtain k where "0 < k" "k \<le> n" "all_held q (Suc a) k"
      "ps = acc @ f # held_run q (Suc a) k" "tail_shape (held_run q (Suc a) k)" by auto
    with f False show ?thesis
      by (intro exI[of _ "Suc k"]) (auto simp: held_run_Suc all_held_Suc tail_shape_def)
  qed
qed simp

lemma collect_Complete:
  assumes "collect n q (a mod 65536) False [] = Complete ps"
  shows "\<exists>k. 0 < k \<and> k \<le> n \<and> all_held q a k \<and> ps = held_run q a k \<and> whole ps"
proof (cases n)
  case (Suc m)
  then obtain f where f: "map_of q (a mod 65536) = Some f" using assms by (auto split: option.splits)
  show ?thesis
  proof (cases "has_flag f Fragmented")
    case False
    with Suc assms f show ?thesis
      by (intro exI[of _ 1]) (auto simp: all_held_def held_run_def whole_def Let_def)
  next
    case True
    with Suc assms f have "collect m q (Suc a mod 65536) True [f] = Complete ps"
      by (simp add: Let_def next_id_def mod_Suc_eq)
    from collect_rest[OF this] obtain k where "k \<le> m" "all_held q (Suc a) k"
      "ps = f # held_run q (Suc a) k" "tail_shape (held_run q (Suc a) k)" by auto
    with f True Suc show ?thesis
      by (intro exI[of _ "Suc k"]) (auto simp: held_run_Suc all_held_Suc whole_def)
  qed
qed (use assms in simp)

lemma collect_Runaway: "collect n q (a mod 65536) b acc = Runaway \<Longrightarrow> all_held q a n"
proof (induction n arbitrary: a b acc)
  case (Suc n)
  then show ?case
    by (fastforce simp: all_held_Suc Let_def next_id_def mod_Suc_eq split: option.splits if_splits)
qed (simp add: all_held_def)

text \<open>The fuel is enough: a queue of distinct ids runs out before it does.\<close>

lemma all_held_length:
  assumes "js_keys_distinct q" "all_held q a n" "n \<le> 65536"
  shows "n \<le> length q"
proof -
  let ?f = "\<lambda>j. (a + j) mod 65536"
  have "inj_on ?f {..<n}"
  proof (rule inj_onI)
    fix x y assume xy: "x \<in> {..<n}" "y \<in> {..<n}" "?f x = ?f y"
    show "x = y" by (rule id_offset_inj[OF xy(3)]) (use xy(1,2) assms(3) in simp_all)
  qed
  moreover have "?f ` {..<n} \<subseteq> fst ` set q"
    using assms(2) by (auto simp: all_held_def map_of_eq_None_iff)
  ultimately have "card {..<n} \<le> card (fst ` set q)"
    by (metis card_image card_mono finite_imageI finite_set)
  also have "\<dots> \<le> length q" by (metis card_length list.set_map length_map)
  finally show ?thesis by simp
qed

lemma collect_not_Runaway:
  assumes "queue_ok P a s"
  shows "collect (Suc (length (cs_queue s))) (cs_queue s) a False [] \<noteq> Runaway"
proof
  have q: "js_keys_distinct (cs_queue s)" "held_at P a (cs_queue s)" "a < 65536"
    using assms by (auto simp: queue_ok_def)
  assume "collect (Suc (length (cs_queue s))) (cs_queue s) a False [] = Runaway"
  then have "all_held (cs_queue s) a (Suc (length (cs_queue s)))"
    using collect_Runaway[of _ _ a] q(3) by simp
  from all_held_length[OF q(1) this] held_at_length[OF q(1,2)] show False by simp
qed

end
