(* ===== verification/Eax_Cipher.thy ===== *)
theory Eax_Cipher
  imports Prelude
begin

unbundle bit_operations_syntax

text \<open>
  The authenticated encryption of packets, \<open>src/client/crypto/eax.ts\<close>: AES-EAX with a 64-bit tag,
  built from AES-CMAC and AES-CTR. The block cipher is Node's and an argument, \<open>aes key block\<close>;
  the two modes the code asks Node for, \<open>aes-128-ctr\<close> and \<open>aes-128-cbc\<close>, are its documented
  chaining of that block cipher and are written out here.
\<close>

section \<open>Blocks\<close>

definition EAX_TAG_SIZE :: nat where "EAX_TAG_SIZE = 8"
definition EAX_BLOCK_SIZE :: nat where "EAX_BLOCK_SIZE = 16"

lemmas eax_sizes = EAX_TAG_SIZE_def EAX_BLOCK_SIZE_def

type_synonym block_cipher = "bytes \<Rightarrow> bytes \<Rightarrow> bytes"

definition zero_block :: bytes where
  "zero_block = replicate EAX_BLOCK_SIZE 0"

definition xorBlock :: "bytes \<Rightarrow> bytes \<Rightarrow> bytes" where
  "xorBlock a b = map (\<lambda>i. a ! i XOR b ! i) [0..<EAX_BLOCK_SIZE]"

text \<open>\<open>shiftLeft1\<close>: the loop runs from the last byte to the first, carrying the bit shifted out.\<close>

fun shift_bytes :: "bytes \<Rightarrow> bytes \<times> byte" where
  "shift_bytes [] = ([], 0)"
| "shift_bytes (b # bs) =
     (case shift_bytes bs of (out, carry) \<Rightarrow> ((push_bit 1 b OR carry) # out, drop_bit 7 b))"

definition shiftLeft1 :: "bytes \<Rightarrow> bytes" where
  "shiftLeft1 b = fst (shift_bytes b)"

definition RB :: bytes where
  "RB = replicate (EAX_BLOCK_SIZE - 1) 0 @ [0x87]"

definition double_block :: "bytes \<Rightarrow> bytes" where
  "double_block l = (if l ! 0 AND 0x80 \<noteq> 0 then xorBlock (shiftLeft1 l) RB else shiftLeft1 l)"

text \<open>
  \<open>generateSubkeys\<close>. The WeakMap in front of it only remembers the result for the same key
  object, so it does not change what is returned.
\<close>

definition generateSubkeys :: "block_cipher \<Rightarrow> bytes \<Rightarrow> bytes \<times> bytes" where
  "generateSubkeys aes key =
     (let L = aes key zero_block; K1 = double_block L; K2 = double_block K1 in (K1, K2))"

section \<open>The modes of the block cipher\<close>

text \<open>CBC without padding: the output of Node's \<open>aes-128-cbc\<close> over whole blocks.\<close>

function cbc_encrypt :: "block_cipher \<Rightarrow> bytes \<Rightarrow> bytes \<Rightarrow> bytes \<Rightarrow> bytes" where
  "cbc_encrypt aes key iv data =
     (if length data < 16 then []
      else let c = aes key (xorBlock iv (take 16 data))
           in c @ cbc_encrypt aes key c (drop 16 data))"
  by pat_completeness auto
termination by (relation "measure (\<lambda>(aes, key, iv, data). length data)") auto

declare cbc_encrypt.simps [simp del]

text \<open>CTR: the counter block is the IV as a 128-bit big-endian number plus the block's index.\<close>

definition aesCtr :: "block_cipher \<Rightarrow> bytes \<Rightarrow> bytes \<Rightarrow> bytes \<Rightarrow> bytes" where
  "aesCtr aes key iv data =
     map (\<lambda>i. data ! i XOR aes key (be_bytes 16 (be_val iv + i div 16)) ! (i mod 16))
       [0..<length data]"

section \<open>CMAC\<close>

text \<open>
  \<open>aesCmac\<close>: the last block of CBC with a zero IV over the message, its last block padded and
  XORed with a subkey, all in one call of the cipher.
\<close>

definition cmac_padded :: "bytes \<times> bytes \<Rightarrow> bytes \<Rightarrow> bytes" where
  "cmac_padded subkeys message =
     (let n = max 1 ((length message + EAX_BLOCK_SIZE - 1) div EAX_BLOCK_SIZE);
          lastBlockComplete = (0 < length message \<and> length message mod EAX_BLOCK_SIZE = 0);
          padded = message @ replicate (n * EAX_BLOCK_SIZE - length message) 0;
          lastStart = (n - 1) * EAX_BLOCK_SIZE;
          marked = (if lastBlockComplete then padded else padded[length message := 0x80]);
          subkey = (if lastBlockComplete then fst subkeys else snd subkeys)
      in take lastStart marked @ xorBlock (drop lastStart marked) subkey)"

definition aesCmac :: "block_cipher \<Rightarrow> bytes \<Rightarrow> bytes \<Rightarrow> bytes" where
  "aesCmac aes key message =
     (let out = cbc_encrypt aes key zero_block (cmac_padded (generateSubkeys aes key) message)
      in drop (length out - EAX_BLOCK_SIZE) out)"

section \<open>EAX\<close>

datatype eax_error = EaxKeySize | EaxTagLength | EAXTagMismatchError

text \<open>The constructor's check of its key.\<close>

definition new_EAX :: "bytes \<Rightarrow> eax_error + bytes" where
  "new_EAX key = (if length key \<noteq> 16 then Inl EaxKeySize else Inr key)"

definition eax_cmac :: "block_cipher \<Rightarrow> bytes \<Rightarrow> byte \<Rightarrow> bytes \<Rightarrow> bytes" where
  "eax_cmac aes key tagByte data =
     aesCmac aes key (replicate (EAX_BLOCK_SIZE - 1) 0 @ [tagByte] @ data)"

definition xor_tag :: "bytes \<Rightarrow> bytes \<Rightarrow> bytes \<Rightarrow> bytes" where
  "xor_tag n h c = map (\<lambda>i. n ! i XOR h ! i XOR c ! i) [0..<EAX_TAG_SIZE]"

definition eax_encrypt :: "block_cipher \<Rightarrow> bytes \<Rightarrow> bytes \<Rightarrow> bytes \<Rightarrow> bytes \<Rightarrow> bytes \<times> bytes" where
  "eax_encrypt aes key nonce header plaintext =
     (let nStar = eax_cmac aes key 0 nonce;
          hStar = eax_cmac aes key 1 header;
          ciphertext = aesCtr aes key nStar plaintext;
          cStar = eax_cmac aes key 2 ciphertext
      in (ciphertext, xor_tag nStar hStar cStar))"

text \<open>\<open>timingSafeEqual\<close> throws on buffers of different lengths, which a short tag gives it.\<close>

definition eax_decrypt ::
  "block_cipher \<Rightarrow> bytes \<Rightarrow> bytes \<Rightarrow> bytes \<Rightarrow> bytes \<Rightarrow> bytes \<Rightarrow> eax_error + bytes" where
  "eax_decrypt aes key nonce header ciphertext tag =
     (let nStar = eax_cmac aes key 0 nonce;
          hStar = eax_cmac aes key 1 header;
          cStar = eax_cmac aes key 2 ciphertext;
          expected = xor_tag nStar hStar cStar;
          given = take EAX_TAG_SIZE tag
      in if length given \<noteq> length expected then Inl EaxTagLength
         else if expected \<noteq> given then Inl EAXTagMismatchError
         else Inr (aesCtr aes key nStar ciphertext))"

section \<open>Facts\<close>

lemma length_aesCtr [simp, wire_simps]: "length (aesCtr aes key iv data) = length data"
  by (simp add: aesCtr_def)

lemma aesCtr_involution [wire_simps]: "aesCtr aes key iv (aesCtr aes key iv data) = data"
  by (rule nth_equalityI) (simp_all add: aesCtr_def xor.assoc)

lemma length_xor_tag [simp, wire_simps]: "length (xor_tag n h c) = 8"
  by (simp add: xor_tag_def eax_sizes)

lemma length_xorBlock [simp, wire_simps]: "length (xorBlock a b) = 16"
  by (simp add: xorBlock_def eax_sizes)

lemma length_eax_encrypt [wire_simps]:
  "length (fst (eax_encrypt aes key nonce header pt)) = length pt"
  "length (snd (eax_encrypt aes key nonce header pt)) = 8"
  by (simp_all add: eax_encrypt_def Let_def)

lemma eax_decrypt_Inr_iff:
  "eax_decrypt aes key nonce header ct tag = Inr pt \<longleftrightarrow>
     take 8 tag = xor_tag (eax_cmac aes key 0 nonce) (eax_cmac aes key 1 header) (eax_cmac aes key 2 ct)
     \<and> pt = aesCtr aes key (eax_cmac aes key 0 nonce) ct"
  unfolding eax_decrypt_def Let_def EAX_TAG_SIZE_def
  by (auto simp del: length_take) (metis length_xor_tag)+

lemma eax_round_trip:
  assumes "eax_encrypt aes key nonce header pt = (ct, tag)"
  shows "eax_decrypt aes key nonce header ct tag = Inr pt"
  using assms by (auto simp: eax_encrypt_def Let_def eax_decrypt_Inr_iff aesCtr_involution)

section \<open>CMAC against RFC 4493\<close>

text \<open>
  The reference: the loop of RFC 4493 over the message's blocks, the last of which (\<open>M_last\<close>) is
  XORed with the first subkey when complete and otherwise padded and XORed with the second.
\<close>

fun rfc_blocks :: "bytes \<Rightarrow> bytes list" where
  "rfc_blocks m = (if length m \<le> 16 then [m] else take 16 m # rfc_blocks (drop 16 m))"

declare rfc_blocks.simps [simp del]

definition rfc_last :: "bytes \<times> bytes \<Rightarrow> bytes \<Rightarrow> bytes" where
  "rfc_last subkeys m =
     (if length m = 16 then xorBlock m (fst subkeys)
      else xorBlock (m @ [0x80] @ replicate (15 - length m) 0) (snd subkeys))"

definition rfc_cmac :: "block_cipher \<Rightarrow> bytes \<Rightarrow> bytes \<Rightarrow> bytes" where
  "rfc_cmac aes key m =
     (let blocks = rfc_blocks m;
          chain = foldl (\<lambda>X M. aes key (xorBlock X M)) zero_block (butlast blocks)
      in aes key (xorBlock chain (rfc_last (generateSubkeys aes key) (last blocks))))"

lemma cbc_encrypt_step:
  "16 \<le> length data \<Longrightarrow> cbc_encrypt aes key iv data =
     aes key (xorBlock iv (take 16 data)) @ cbc_encrypt aes key (aes key (xorBlock iv (take 16 data))) (drop 16 data)"
  by (subst cbc_encrypt.simps) (simp add: Let_def)

lemma cbc_encrypt_short: "length data < 16 \<Longrightarrow> cbc_encrypt aes key iv data = []"
  by (subst cbc_encrypt.simps) simp

text \<open>A short message is one padded block; a longer one gives its first block unchanged.\<close>

lemma cmac_padded_short:
  assumes "length m \<le> 16"
  shows "cmac_padded subkeys m = rfc_last subkeys m"
proof (cases "length m = 16")
  case True
  then show ?thesis by (simp add: cmac_padded_def rfc_last_def eax_sizes Let_def)
next
  case False
  with assms have l: "length m < 16" by simp
  then have n: "max 1 ((length m + 15) div 16) = 1" by simp
  have u: "(m @ replicate (16 - length m) (0::byte))[length m := 0x80] = m @ [0x80] @ replicate (15 - length m) 0"
  proof -
    have "16 - length m = Suc (15 - length m)" using l by simp
    then have "replicate (16 - length m) (0::byte) = 0 # replicate (15 - length m) 0"
      by (simp only: replicate_Suc)
    then show ?thesis by (simp add: list_update_append)
  qed
  from l have "\<not> (0 < length m \<and> length m mod 16 = 0)" by auto
  with n u False show ?thesis
    unfolding cmac_padded_def rfc_last_def eax_sizes Let_def by simp
qed

lemma cmac_padded_long:
  assumes "length a = 16" "b \<noteq> []"
  shows "cmac_padded subkeys (a @ b) = a @ cmac_padded subkeys b"
proof -
  define n where "n = (length b + 15) div 16"
  have b: "0 < length b" using assms(2) by simp
  have "16 div 16 \<le> n" unfolding n_def using b by (intro div_le_mono) linarith
  then have n: "0 < n" by simp
  have na: "max 1 ((length (a @ b) + 16 - 1) div 16) = Suc n" "max 1 ((length b + 16 - 1) div 16) = n"
    using n assms(1) by (simp_all add: n_def)
  have c: "(0 < length (a @ b) \<and> length (a @ b) mod 16 = 0) = (0 < length b \<and> length b mod 16 = 0)"
    using b assms(1) by simp
  have r: "Suc n * 16 - length (a @ b) = n * 16 - length b" using assms(1) by simp
  have st: "(Suc n - 1) * 16 = 16 + (n - 1) * 16" using n by (cases n) simp_all
  have u: "(a @ b @ z)[length (a @ b) := x] = a @ ((b @ z)[length b := x])" for z x
    using assms(1) by (simp add: list_update_append)
  have t: "take (16 + k) (a @ y) = a @ take k y" "drop (16 + k) (a @ y) = drop k y" for k and y :: bytes
    using assms(1) by simp_all
  show ?thesis
    unfolding cmac_padded_def eax_sizes Let_def na c r st append_assoc u
    by (cases "0 < length b \<and> length b mod 16 = 0") (simp_all only: if_True if_False t append_assoc simp_thms)
qed

lemma rfc_blocks_not_Nil [simp]: "rfc_blocks m \<noteq> []"
  by (subst rfc_blocks.simps) simp

lemma length_rfc_last [simp]: "length (rfc_last subkeys m) = 16"
  by (simp add: rfc_last_def)

lemma drop_last_block:
  assumes "length c = 16" "ys \<noteq> [] \<Longrightarrow> 16 \<le> length ys"
  shows "drop (length (c @ ys) - 16) (c @ ys) = (if ys = [] then c else drop (length ys - 16) ys)"
  using assms by (cases "ys = []") simp_all

lemma cbc_cmac_last:
  assumes "\<And>b. length (aes key b) = 16"
  shows "16 \<le> length (cbc_encrypt aes key X (cmac_padded sk m)) \<and>
    drop (length (cbc_encrypt aes key X (cmac_padded sk m)) - 16)
      (cbc_encrypt aes key X (cmac_padded sk m)) =
    aes key (xorBlock (foldl (\<lambda>X M. aes key (xorBlock X M)) X (butlast (rfc_blocks m)))
                      (rfc_last sk (last (rfc_blocks m))))"
proof (induction m arbitrary: X rule: rfc_blocks.induct)
  case (1 m)
  show ?case
  proof (cases "length m \<le> 16")
    case True
    then have "cbc_encrypt aes key X (cmac_padded sk m) = aes key (xorBlock X (rfc_last sk m))"
      by (simp add: cmac_padded_short cbc_encrypt_step cbc_encrypt_short)
    with True show ?thesis
      by (subst (1 2) rfc_blocks.simps) (simp add: assms)
  next
    case False
    let ?X = "aes key (xorBlock X (take 16 m))"
    have "cmac_padded sk (take 16 m @ drop 16 m) = take 16 m @ cmac_padded sk (drop 16 m)"
      using False by (intro cmac_padded_long) auto
    then have p: "cmac_padded sk m = take 16 m @ cmac_padded sk (drop 16 m)" by simp
    have l: "length (take 16 m) = 16" using False by simp
    have e: "cbc_encrypt aes key X (cmac_padded sk m) = ?X @ cbc_encrypt aes key ?X (cmac_padded sk (drop 16 m))"
      unfolding p using l by (subst cbc_encrypt_step) simp_all
    note IH = "1.IH"[OF False, of ?X]
    then have ne: "cbc_encrypt aes key ?X (cmac_padded sk (drop 16 m)) \<noteq> []" by auto
    have r: "rfc_blocks m = take 16 m # rfc_blocks (drop 16 m)"
      using False by (subst rfc_blocks.simps) simp
    show ?thesis
      unfolding e r using IH ne assms by (simp add: drop_last_block)
  qed
qed

lemma aesCmac_rfc4493:
  assumes "\<And>b. length (aes key b) = 16"
  shows "aesCmac aes key m = rfc_cmac aes key m"
  using cbc_cmac_last[where aes = aes and key = key and X = zero_block
      and sk = "generateSubkeys aes key" and m = m] assms
  by (simp add: aesCmac_def rfc_cmac_def Let_def eax_sizes)

end
