(* ===== verification/Session_Crypt.thy ===== *)
theory Session_Crypt
  imports Eax_Cipher
begin

text \<open>
  A connection's encryption state, the class \<open>Crypt\<close> of \<open>src/client/crypto/crypt.ts\<close>: the IV the
  keys derive from, the derivation of each packet's key and nonce with its cache, sealing and
  opening packets, and the answer to the Init1 puzzle. The hashes are Node's and arguments.
\<close>

section \<open>State\<close>

definition FAKE_SIGNATURE_SIZE :: nat where "FAKE_SIGNATURE_SIZE = 8"
definition IV_ALPHA_SIZE :: nat where "IV_ALPHA_SIZE = 10"
definition INIT1_PACKET_TYPE :: nat where "INIT1_PACKET_TYPE = 8"

definition ascii :: "string \<Rightarrow> bytes" where
  "ascii s = map of_char s"

definition INIT1_MAC :: bytes where "INIT1_MAC = ascii ''TS3INIT1''"

definition DUMMY_KEY :: bytes where
  "DUMMY_KEY = ascii (''c:'' @ [CHR 0x5C] @ ''windows'' @ [CHR 0x5C] @ ''syste'')"

definition DUMMY_NONCE :: bytes where
  "DUMMY_NONCE = ascii (''m'' @ [CHR 0x5C] @ ''firewall32.cpl'')"

record key_nonce =
  kn_key :: bytes
  kn_nonce :: bytes
  kn_gen :: nat

record crypt_state =
  ivStruct :: bytes
  fakeSignature :: bytes
  alpha :: bytes
  cryptoInitComplete :: bool
  cachedKeys :: "(nat, key_nonce) jsmap"

definition new_crypt :: crypt_state where
  "new_crypt = \<lparr>ivStruct = [], fakeSignature = replicate FAKE_SIGNATURE_SIZE 0, alpha = [],
                cryptoInitComplete = False, cachedKeys = []\<rparr>"

datatype crypt_error = HandshakeError string | PuzzleTooHardError nat | FakeSignatureMismatchError
  | EaxError eax_error | AbortError

text \<open>\<open>newAlpha\<close>; the random bytes are an argument.\<close>

definition newAlpha :: "bytes \<Rightarrow> crypt_state \<Rightarrow> crypt_state" where
  "newAlpha random c = c\<lparr>alpha := random\<rparr>"

text \<open>\<open>setSharedSecret\<close>: a length that does not fit is refused; the cached keys are dropped.\<close>

definition setSharedSecret ::
  "(bytes \<Rightarrow> bytes) \<Rightarrow> bytes \<Rightarrow> bytes \<Rightarrow> bytes \<Rightarrow> crypt_state \<Rightarrow> crypt_error + crypt_state" where
  "setSharedSecret sha1 al beta sharedKey c =
     (if length al \<noteq> IV_ALPHA_SIZE \<or> length beta = 0 \<or> IV_ALPHA_SIZE + length beta > length sharedKey
      then Inl (HandshakeError ''alpha, beta and the shared secret do not fit together'')
      else let iv = map (\<lambda>i. sharedKey ! i XOR al ! i) [0..<IV_ALPHA_SIZE]
                    @ map (\<lambda>i. sharedKey ! (IV_ALPHA_SIZE + i) XOR beta ! i) [0..<length beta]
           in Inr (c\<lparr>ivStruct := iv, cachedKeys := [],
                     fakeSignature := take FAKE_SIGNATURE_SIZE (sha1 iv),
                     cryptoInitComplete := True\<rparr>))"

text \<open>
  \<open>initCrypto\<close>, the P-256 path: \<open>unbase64\<close> is Node's decoder and \<open>ecdh\<close> the shared secret with
  the server's key, \<^const>\<open>None\<close> where importing that key throws.
\<close>

definition initCrypto ::
  "(bytes \<Rightarrow> bytes) \<Rightarrow> (string \<Rightarrow> bytes) \<Rightarrow> (bytes \<Rightarrow> bytes option) \<Rightarrow> string \<Rightarrow> string \<Rightarrow> string
     \<Rightarrow> crypt_state \<Rightarrow> crypt_error + crypt_state" where
  "initCrypto sha1 unbase64 ecdh al beta omega c =
     (case ecdh (unbase64 omega) of
        None \<Rightarrow> Inl (HandshakeError ''the server's public key is invalid'')
      | Some sharedSecret \<Rightarrow> setSharedSecret sha1 (unbase64 al) (unbase64 beta) sharedSecret c)"

section \<open>Keys and nonces\<close>

definition makeCacheKey :: "bool \<Rightarrow> nat \<Rightarrow> nat \<Rightarrow> nat" where
  "makeCacheKey fromServer pType gen =
     ((if fromServer then push_bit 40 1 else 0) OR push_bit 32 (pType AND 0x0f)) OR gen"

text \<open>What is hashed for a direction, type and generation.\<close>

definition key_material :: "bytes \<Rightarrow> bool \<Rightarrow> nat \<Rightarrow> nat \<Rightarrow> bytes" where
  "key_material iv fromServer pType gen =
     [if fromServer then 0x30 else 0x31, of_nat (pType AND 0x0f)] @ be_bytes 4 gen @ iv"

definition derive_key_nonce ::
  "(bytes \<Rightarrow> bytes) \<Rightarrow> bytes \<Rightarrow> bool \<Rightarrow> nat \<Rightarrow> nat \<Rightarrow> key_nonce" where
  "derive_key_nonce sha256 iv fromServer pType gen =
     (let hash = sha256 (key_material iv fromServer pType gen)
      in \<lparr>kn_key = take 16 hash, kn_nonce = take 16 (drop 16 hash), kn_gen = gen\<rparr>)"

text \<open>The packet id is XORed into the first two bytes of the key.\<close>

definition mix_packet_id :: "bytes \<Rightarrow> nat \<Rightarrow> bytes" where
  "mix_packet_id key packetID =
     (key[0 := (key ! 0) XOR of_nat (drop_bit 8 packetID AND 0xff)])
         [1 := (key ! 1) XOR of_nat (packetID AND 0xff)]"

definition getKeyNonce ::
  "(bytes \<Rightarrow> bytes) \<Rightarrow> bool \<Rightarrow> nat \<Rightarrow> nat \<Rightarrow> nat \<Rightarrow> bool \<Rightarrow> crypt_state
     \<Rightarrow> crypt_error + (bytes \<times> bytes) \<times> crypt_state" where
  "getKeyNonce sha256 fromServer packetID gen pType dummy c =
     (if dummy then Inr ((DUMMY_KEY, DUMMY_NONCE), c)
      else if \<not> cryptoInitComplete c
        then Inl (HandshakeError ''no session key before crypto init completes'')
      else let cacheKey = makeCacheKey fromServer pType gen;
               (kn, c') = (case map_of (cachedKeys c) cacheKey of
                   Some kn \<Rightarrow> (kn, c)
                 | None \<Rightarrow> (let kn = derive_key_nonce sha256 (ivStruct c) fromServer pType gen
                            in (kn, c\<lparr>cachedKeys := AList.update cacheKey kn (cachedKeys c)\<rparr>)))
           in Inr ((mix_packet_id (kn_key kn) packetID, kn_nonce kn), c'))"

section \<open>Sealing and opening packets\<close>

definition crypt_encrypt ::
  "block_cipher \<Rightarrow> (bytes \<Rightarrow> bytes) \<Rightarrow> nat \<Rightarrow> nat \<Rightarrow> nat \<Rightarrow> bytes \<Rightarrow> bytes \<Rightarrow> bool \<Rightarrow> bool
     \<Rightarrow> crypt_state \<Rightarrow> crypt_error + (bytes \<times> bytes) \<times> crypt_state" where
  "crypt_encrypt aes sha256 pType packetID gen header plaintext dummy unencrypted c =
     (if pType = INIT1_PACKET_TYPE then Inr ((plaintext, INIT1_MAC), c)
      else if unencrypted then Inr ((plaintext, fakeSignature c), c)
      else bind_result (getKeyNonce sha256 False packetID gen pType dummy c) (\<lambda>((key, nonce), c').
             case new_EAX key of
               Inl e \<Rightarrow> Inl (EaxError e)
             | Inr k \<Rightarrow> Inr (eax_encrypt aes k nonce header plaintext, c')))"

definition crypt_decrypt ::
  "block_cipher \<Rightarrow> (bytes \<Rightarrow> bytes) \<Rightarrow> nat \<Rightarrow> nat \<Rightarrow> nat \<Rightarrow> bytes \<Rightarrow> bytes \<Rightarrow> bytes \<Rightarrow> bool \<Rightarrow> bool
     \<Rightarrow> crypt_state \<Rightarrow> (crypt_error + bytes) \<times> crypt_state" where
  "crypt_decrypt aes sha256 pType packetID gen header ciphertext tag dummy unencrypted c =
     (if pType = INIT1_PACKET_TYPE then (Inr ciphertext, c)
      else if unencrypted
        then (if take FAKE_SIGNATURE_SIZE tag \<noteq> fakeSignature c then (Inl FakeSignatureMismatchError, c)
              else (Inr ciphertext, c))
      else (case getKeyNonce sha256 True packetID gen pType dummy c of
              Inl e \<Rightarrow> (Inl e, c)
            | Inr ((key, nonce), c') \<Rightarrow>
                (case new_EAX key of
                   Inl e \<Rightarrow> (Inl (EaxError e), c')
                 | Inr k \<Rightarrow> (case eax_decrypt aes k nonce header ciphertext tag of
                                Inl e \<Rightarrow> (Inl (EaxError e), c')
                              | Inr p \<Rightarrow> (Inr p, c')))))"

section \<open>The cache is transparent\<close>

lemma bit_small: "g < 2 ^ k \<Longrightarrow> bit (g :: nat) n \<Longrightarrow> n < k"
  by (metis bit_take_bit_iff take_bit_nat_eq_self_iff)

lemma bit_fields:
  "bit (((if f then push_bit j 1 else 0) OR push_bit k a) OR g :: nat) n \<longleftrightarrow>
     f \<and> n = j \<or> k \<le> n \<and> bit a (n - k) \<or> bit g n"
  by (auto simp: bit_or_iff bit_push_bit_iff bit_exp_iff)

lemma nibble_bit: "bit (pType AND 0x0f :: nat) k \<Longrightarrow> k < 4"
proof -
  assume b: "bit (pType AND 0x0f :: nat) k"
  have "(0x0f :: nat) = mask 4" by (simp add: mask_eq_exp_minus_1)
  with b show "k < 4" by (simp only: bit_and_iff bit_mask_iff)
qed

lemma bit_makeCacheKey:
  assumes "gen < 2 ^ 32"
  shows "bit (makeCacheKey fromServer pType gen) n \<longleftrightarrow>
    fromServer \<and> n = 40 \<or> 32 \<le> n \<and> bit (pType AND 0x0f) (n - 32) \<or> n < 32 \<and> bit gen n"
  unfolding makeCacheKey_def bit_fields using bit_small[OF assms, of n] by blast

lemma makeCacheKey_inj:
  assumes "makeCacheKey f t g = makeCacheKey f' t' g'" "g < 2 ^ 32" "g' < 2 ^ 32"
  shows "f = f'" "t AND 0x0f = t' AND 0x0f" "g = g'"
proof -
  have b: "bit (makeCacheKey f t g) n = bit (makeCacheKey f' t' g') n" for n
    using assms(1) by simp
  note b = b[unfolded bit_makeCacheKey[OF assms(2)] bit_makeCacheKey[OF assms(3)]]
  show "f = f'" using b[of 40] nibble_bit[of t 8] nibble_bit[of t' 8] by auto
  show "g = g'"
  proof (rule bit_eqI)
    fix n show "bit g n = bit g' n"
      using b[of n] bit_small[OF assms(2), of n] bit_small[OF assms(3), of n] by auto
  qed
  show "t AND 0x0f = t' AND 0x0f"
  proof (rule bit_eqI)
    fix n show "bit (t AND 0x0f) n = bit (t' AND 0x0f) n"
      using b[of "32 + n"] nibble_bit[of t n] nibble_bit[of t' n] by (cases "n = 8") auto
  qed
qed

text \<open>Every cached key is the one its inputs derive from the current IV.\<close>

definition cache_ok :: "(bytes \<Rightarrow> bytes) \<Rightarrow> crypt_state \<Rightarrow> bool" where
  "cache_ok sha256 c \<longleftrightarrow>
     (\<forall>k kn. map_of (cachedKeys c) k = Some kn \<longrightarrow>
        (\<exists>f t g. g < 2 ^ 32 \<and> k = makeCacheKey f t g \<and> kn = derive_key_nonce sha256 (ivStruct c) f t g))"

lemma cache_ok_new: "cache_ok sha256 new_crypt"
  by (simp add: cache_ok_def new_crypt_def)

lemma cache_ok_setSharedSecret:
  "setSharedSecret sha1 al beta key c = Inr c' \<Longrightarrow> cache_ok sha256 c'"
  by (auto simp: setSharedSecret_def cache_ok_def Let_def split: if_splits)

lemma cache_ok_newAlpha: "cache_ok sha256 c \<Longrightarrow> cache_ok sha256 (newAlpha r c)"
  by (simp add: cache_ok_def newAlpha_def)

text \<open>The derivation with no cache: the reference.\<close>

definition key_nonce_of ::
  "(bytes \<Rightarrow> bytes) \<Rightarrow> bool \<Rightarrow> nat \<Rightarrow> nat \<Rightarrow> nat \<Rightarrow> bool \<Rightarrow> crypt_state \<Rightarrow> crypt_error + bytes \<times> bytes" where
  "key_nonce_of sha256 fromServer packetID gen pType dummy c =
     (if dummy then Inr (DUMMY_KEY, DUMMY_NONCE)
      else if \<not> cryptoInitComplete c
        then Inl (HandshakeError ''no session key before crypto init completes'')
      else let kn = derive_key_nonce sha256 (ivStruct c) fromServer pType gen
           in Inr (mix_packet_id (kn_key kn) packetID, kn_nonce kn))"

lemma derive_key_nonce_nibble:
  "t AND 0x0f = t' AND 0x0f \<Longrightarrow> derive_key_nonce h iv f t g = derive_key_nonce h iv f t' g"
  by (simp add: derive_key_nonce_def key_material_def)

lemma getKeyNonce_transparent:
  assumes "cache_ok sha256 c" "gen < 2 ^ 32"
  shows "map_sum id fst (getKeyNonce sha256 f packetID gen t dummy c) =
           key_nonce_of sha256 f packetID gen t dummy c"
proof (cases "map_of (cachedKeys c) (makeCacheKey f t gen)")
  case None
  then show ?thesis by (simp add: getKeyNonce_def key_nonce_of_def Let_def)
next
  case (Some kn)
  with assms(1) obtain f' t' g' where k: "g' < 2 ^ 32" "makeCacheKey f t gen = makeCacheKey f' t' g'"
    "kn = derive_key_nonce sha256 (ivStruct c) f' t' g'"
    unfolding cache_ok_def by blast
  note inj = makeCacheKey_inj[OF k(2) assms(2) k(1)]
  have "kn = derive_key_nonce sha256 (ivStruct c) f t gen"
    unfolding k(3) inj(1) inj(3) by (rule derive_key_nonce_nibble[OF inj(2)[symmetric]])
  with Some show ?thesis by (simp add: getKeyNonce_def key_nonce_of_def Let_def)
qed

lemma getKeyNonce_keeps:
  assumes "getKeyNonce sha256 f packetID gen t dummy c = Inr (kn, c')" "cache_ok sha256 c" "gen < 2 ^ 32"
  shows "cache_ok sha256 c'" "ivStruct c' = ivStruct c" "cryptoInitComplete c' = cryptoInitComplete c"
    "fakeSignature c' = fakeSignature c" "alpha c' = alpha c"
proof -
  consider "c' = c" | "c' = c\<lparr>cachedKeys := AList.update (makeCacheKey f t gen)
      (derive_key_nonce sha256 (ivStruct c) f t gen) (cachedKeys c)\<rparr>"
    using assms(1) by (auto simp: getKeyNonce_def Let_def split: if_splits option.splits prod.splits)
  note c = this
  show "ivStruct c' = ivStruct c" "cryptoInitComplete c' = cryptoInitComplete c"
    "fakeSignature c' = fakeSignature c" "alpha c' = alpha c"
    using c by (cases; simp)+
  show "cache_ok sha256 c'"
    using c
  proof cases
    case 2
    then show ?thesis using assms(2,3) unfolding cache_ok_def by (auto simp: update_conv')
  qed (use assms(2) in simp)
qed

section \<open>Distinct packets, distinct keys\<close>

lemma bit_byte_or_hi:
  assumes "p < 65536" "n < 16"
  shows "bit p n = (if n < 8 then bit (of_nat (p AND 0xff) :: byte) n
                    else bit (of_nat (drop_bit 8 p AND 0xff) :: byte) (n - 8))"
proof -
  have m: "(255::nat) = mask 8" by (simp add: mask_eq_exp_minus_1)
  show ?thesis
    using assms(2) unfolding m
    by (auto simp: bit_of_nat_iff_bit bit_of_nat_iff bit_and_iff bit_mask_iff bit_drop_bit_eq possible_bit_word)
qed

lemma mix_packet_id_inj:
  assumes "2 \<le> length key" "p < 65536" "q < 65536" "mix_packet_id key p = mix_packet_id key q"
  shows "p = q"
proof -
  have l: "key \<noteq> []" "Suc 0 < length key" using assms(1) by auto
  have n: "mix_packet_id key r ! 0 = (key ! 0) XOR of_nat (drop_bit 8 r AND 0xff)"
    "mix_packet_id key r ! 1 = (key ! 1) XOR of_nat (r AND 0xff)" for r
    using l by (simp_all add: mix_packet_id_def)
  have c: "a = b" if "x XOR a = x XOR b" for a b x :: byte
  proof -
    have "x XOR (x XOR a) = x XOR (x XOR b)" using that by (rule arg_cong)
    then show ?thesis by (simp only: xor.assoc[symmetric] xor_self_eq xor.left_neutral)
  qed
  have "of_nat (drop_bit 8 p AND 0xff) = (of_nat (drop_bit 8 q AND 0xff) :: byte)"
    by (rule c[of "key ! 0"]) (simp only: n(1)[symmetric] assms(4))
  moreover have "of_nat (p AND 0xff) = (of_nat (q AND 0xff) :: byte)"
    by (rule c[of "key ! 1"]) (simp only: n(2)[symmetric] assms(4))
  ultimately have "bit p k = bit q k" if "k < 16" for k
    using bit_byte_or_hi[OF assms(2) that] bit_byte_or_hi[OF assms(3) that] by auto
  moreover have "\<not> bit p k" "\<not> bit q k" if "\<not> k < 16" for k
    using bit_small[of p 16 k] bit_small[of q 16 k] assms(2,3) that by auto
  ultimately show ?thesis by (intro bit_eqI) metis
qed

section \<open>Opening what the peer sealed\<close>

lemma length_mix_packet_id [simp]: "length (mix_packet_id key p) = length key"
  by (simp add: mix_packet_id_def)

lemma key_nonce_of_length:
  assumes "\<And>m. length (sha256 m) = 32" "key_nonce_of sha256 f p g t dummy c = Inr (key, nonce)"
  shows "length key = 16"
  using assms(2)
  by (auto simp: key_nonce_of_def Let_def derive_key_nonce_def assms(1) DUMMY_KEY_def ascii_def
      split: if_splits)

lemma crypt_decrypt_sealed:
  assumes "cache_ok sha256 c" "gen < 2 ^ 32" "\<And>m. length (sha256 m) = 32" "t \<noteq> INIT1_PACKET_TYPE"
    and "key_nonce_of sha256 True p gen t dummy c = Inr (key, nonce)"
    and "eax_encrypt aes key nonce header pt = (ct, tag)"
  shows "fst (crypt_decrypt aes sha256 t p gen header ct tag dummy False c) = Inr pt"
proof -
  have "map_sum id fst (getKeyNonce sha256 True p gen t dummy c) = Inr (key, nonce)"
    using getKeyNonce_transparent[OF assms(1,2)] assms(5) by simp
  then obtain c' where "getKeyNonce sha256 True p gen t dummy c = Inr ((key, nonce), c')"
    by (cases "getKeyNonce sha256 True p gen t dummy c") auto
  moreover have "new_EAX key = Inr key"
    using key_nonce_of_length[OF assms(3,5)] by (simp add: new_EAX_def)
  ultimately show ?thesis
    using assms(4) eax_round_trip[OF assms(6)] by (simp add: crypt_decrypt_def)
qed

lemma crypt_decrypt_before_init:
  assumes "\<not> cryptoInitComplete c" "t \<noteq> INIT1_PACKET_TYPE"
  shows "crypt_decrypt aes sha256 t p gen header ct tag False False c =
    (Inl (HandshakeError ''no session key before crypto init completes''), c)"
  using assms by (simp add: crypt_decrypt_def getKeyNonce_def)

text \<open>Opening leaves everything but the cache alone.\<close>

lemma crypt_decrypt_keeps:
  assumes "crypt_decrypt aes sha256 t p gen header ct tag dummy un c = (r, c')"
    "cache_ok sha256 c" "gen < 2 ^ 32"
  shows "cache_ok sha256 c'" "ivStruct c' = ivStruct c" "cryptoInitComplete c' = cryptoInitComplete c"
    "fakeSignature c' = fakeSignature c" "alpha c' = alpha c"
proof -
  consider "c' = c" | kn where "getKeyNonce sha256 True p gen t dummy c = Inr (kn, c')"
    using assms(1)
    by (fastforce simp: crypt_decrypt_def split: if_splits sum.splits prod.splits)
  note c = this
  show "cache_ok sha256 c'" "ivStruct c' = ivStruct c" "cryptoInitComplete c' = cryptoInitComplete c"
    "fakeSignature c' = fakeSignature c" "alpha c' = alpha c"
    using c getKeyNonce_keeps[OF _ assms(2,3)] assms(2) by (cases; simp; blast)+
qed

section \<open>The Init1 puzzle\<close>

definition MAX_RSA_CHALLENGE_LEVEL :: int where "MAX_RSA_CHALLENGE_LEVEL = 4000000"
definition SQUARINGS_PER_SLICE :: nat where "SQUARINGS_PER_SLICE = 50000"

definition bytesToBigInt :: "bytes \<Rightarrow> nat" where
  "bytesToBigInt bs = foldl (\<lambda>result b. push_bit 8 result OR unat b) 0 bs"

definition bigIntToBytes :: "nat \<Rightarrow> nat \<Rightarrow> bytes" where
  "bigIntToBytes v n = rev (map (\<lambda>i. of_nat (drop_bit (8 * i) v AND 0xff)) [0..<n])"

primrec squarings :: "nat \<Rightarrow> nat \<Rightarrow> nat \<Rightarrow> nat" where
  "squarings 0 n y = y"
| "squarings (Suc k) n y = squarings k n ((y * y) mod n)"

text \<open>
  The loop over slices: \<open>aborted i\<close> is the state of the caller's signal at its \<open>i\<close>th check, which
  comes before each slice and once at the end.
\<close>

function solve_slices ::
  "(nat \<Rightarrow> bool) \<Rightarrow> nat \<Rightarrow> nat \<Rightarrow> nat \<Rightarrow> nat \<Rightarrow> nat \<Rightarrow> crypt_error + nat" where
  "solve_slices aborted i n level y done =
     (if aborted i then Inl AbortError
      else if done < level
        then let slice = (if level - done < SQUARINGS_PER_SLICE then level - done else SQUARINGS_PER_SLICE)
             in solve_slices aborted (i + 1) n level (squarings slice n y) (done + slice)
      else Inr y)"
  by pat_completeness auto
termination
  by (relation "measure (\<lambda>(aborted, i, n, level, y, done). level - done)")
     (auto simp: SQUARINGS_PER_SLICE_def)

declare solve_slices.simps [simp del]

definition solveRsaChallenge ::
  "(nat \<Rightarrow> bool) \<Rightarrow> bytes \<Rightarrow> nat \<Rightarrow> int \<Rightarrow> crypt_error + bytes" where
  "solveRsaChallenge aborted data offset level =
     (if level < 0 then Inl (HandshakeError ''RSA challenge level out of range'')
      else if level > MAX_RSA_CHALLENGE_LEVEL then Inl (PuzzleTooHardError (nat level))
      else let y = bytesToBigInt (take 64 (drop offset data));
               n = bytesToBigInt (take 64 (drop (offset + 64) data))
           in if n = 0 then Inl (HandshakeError ''RSA challenge modulus is zero'')
              else bind_result (solve_slices aborted 0 n (nat level) y 0)
                     (\<lambda>y'. Inr (bigIntToBytes y' 64)))"

lemma bytesToBigInt_be_val: "bytesToBigInt bs = be_val bs"
  unfolding bytesToBigInt_def be_val_def push_bit_or_byte by simp

lemma of_nat_low_byte: "of_nat (v AND 0xff) = (of_nat v :: byte)"
proof -
  have "(0xff :: nat) = mask 8" by (simp add: mask_eq_exp_minus_1)
  then have "v AND 0xff = v mod 256" by (simp only: take_bit_eq_mask[symmetric]) (simp add: take_bit_eq_mod)
  then have "unat (of_nat (v AND 0xff) :: byte) = unat (of_nat v :: byte)"
    by (simp only: unat_byte_of_nat mod_mod_trivial)
  then show ?thesis by (rule unsigned_word_eqI)
qed

lemma bigIntToBytes_be_bytes: "bigIntToBytes v n = be_bytes n v"
proof (induction n arbitrary: v)
  case (Suc n)
  have "map (\<lambda>i. of_nat (drop_bit (8 * i) v AND 0xff)) [0..<Suc n] =
    (of_nat v :: byte) # map (\<lambda>i. of_nat (drop_bit (8 * i) (v div 256) AND 0xff)) [0..<n]"
    by (simp add: upt_conv_Cons map_Suc_upt[symmetric] of_nat_low_byte drop_bit_eq_div
        div_mult2_eq[symmetric] power_add del: upt_Suc)
  with Suc[of "v div 256"] show ?case by (simp add: bigIntToBytes_def)
qed (simp add: bigIntToBytes_def)

lemma squarings_power: "0 < k \<Longrightarrow> squarings k n y = y ^ (2 ^ k) mod n"
proof (induction k arbitrary: y)
  case (Suc k)
  show ?case
  proof (cases k)
    case 0
    then show ?thesis by (simp add: power2_eq_square)
  next
    case (Suc j)
    then have "squarings (Suc k) n y = ((y * y) mod n) ^ (2 ^ k) mod n" using Suc.IH by simp
    also have "\<dots> = (y ^ 2) ^ (2 ^ k) mod n" by (simp add: power_mod power2_eq_square)
    also have "\<dots> = y ^ (2 ^ Suc k) mod n" by (simp add: power_mult[symmetric])
    finally show ?thesis .
  qed
qed simp

lemma squarings_add: "squarings (a + b) n y = squarings b n (squarings a n y)"
  by (induction a arbitrary: y) simp_all

lemma solve_slices_value:
  assumes "\<And>j. \<not> aborted j" "done \<le> level"
  shows "solve_slices aborted i n level y done = Inr (squarings (level - done) n y)"
  using assms(2)
proof (induction "level - done" arbitrary: i y "done" rule: less_induct)
  case less
  show ?case
  proof (cases "done < level")
    case False
    with less.prems show ?thesis by (subst solve_slices.simps) (simp add: assms(1))
  next
    case True
    define slice where
      "slice = (if level - done < SQUARINGS_PER_SLICE then level - done else SQUARINGS_PER_SLICE)"
    have s: "0 < slice" "done + slice \<le> level"
      using True by (auto simp: slice_def SQUARINGS_PER_SLICE_def)
    have "solve_slices aborted i n level y done =
        solve_slices aborted (i + 1) n level (squarings slice n y) (done + slice)"
      by (subst solve_slices.simps)
        (simp only: assms(1) True slice_def[symmetric] Let_def if_False if_True)
    also have "\<dots> = Inr (squarings (level - (done + slice)) n (squarings slice n y))"
      using s by (intro less.hyps) auto
    also have "\<dots> = Inr (squarings (level - done) n y)"
      using s by (simp add: squarings_add[symmetric])
    finally show ?thesis .
  qed
qed

lemma solve_slices_abort:
  "solve_slices aborted i n level y done = Inl e \<Longrightarrow> e = AbortError \<and> (\<exists>j\<ge>i. aborted j)"
proof (induction aborted i n level y "done" rule: solve_slices.induct)
  case (1 aborted i n level y "done")
  then show ?case
    by (subst (asm) (2) solve_slices.simps) (auto simp: Let_def split: if_splits dest: Suc_leD)
qed

lemma solveRsaChallenge_value:
  assumes "\<And>j. \<not> aborted j" "0 \<le> level" "level \<le> MAX_RSA_CHALLENGE_LEVEL"
    and "x = be_val (take 64 (drop offset data))" "n = be_val (take 64 (drop (offset + 64) data))"
    and "n \<noteq> 0"
  shows "solveRsaChallenge aborted data offset level =
    Inr (be_bytes 64 (if level = 0 then x else x ^ (2 ^ nat level) mod n))"
proof -
  have "squarings (nat level) n x = (if level = 0 then x else x ^ (2 ^ nat level) mod n)"
    using assms(2) by (auto simp: squarings_power)
  then show ?thesis
    using assms(2-6)
    by (simp add: solveRsaChallenge_def Let_def bytesToBigInt_be_val solve_slices_value[OF assms(1)]
        bigIntToBytes_be_bytes)
qed

text \<open>An answer is that value, whatever was seen of the signal meanwhile.\<close>

lemma solve_slices_Inr:
  "solve_slices aborted i n level y done = Inr v \<Longrightarrow> done \<le> level \<Longrightarrow>
    solve_slices aborted i n level y done = solve_slices (\<lambda>_. False) i n level y done"
proof (induction aborted i n level y "done" rule: solve_slices.induct)
  case (1 aborted i n level y "done")
  then show ?case
    by (subst solve_slices.simps, subst (asm) (3) solve_slices.simps, subst (2) solve_slices.simps)
      (auto simp: Let_def split: if_splits)
qed

lemma solveRsaChallenge_Inr:
  assumes "solveRsaChallenge aborted data offset level = Inr y"
  shows "0 \<le> level" "level \<le> MAX_RSA_CHALLENGE_LEVEL" "be_val (take 64 (drop (offset + 64) data)) \<noteq> 0"
    "solveRsaChallenge (\<lambda>_. False) data offset level = Inr y"
proof -
  note s = assms[unfolded solveRsaChallenge_def Let_def bytesToBigInt_be_val]
  show "0 \<le> level" "level \<le> MAX_RSA_CHALLENGE_LEVEL" "be_val (take 64 (drop (offset + 64) data)) \<noteq> 0"
    using s by (auto split: if_splits)
  then show "solveRsaChallenge (\<lambda>_. False) data offset level = Inr y"
    using s solve_slices_Inr[of aborted 0] by (auto simp: solveRsaChallenge_def Let_def bytesToBigInt_be_val
        bind_result_Inr_iff)
qed

end
