(* ===== verification/Traffic_Meter.thy ===== *)
theory Traffic_Meter
  imports Packet_Header
begin

text \<open>
  The traffic counters of \<open>src/client/transport/traffic.ts\<close>: per direction and class, totals and
  a ring of one-second buckets, and the round-trip estimator. The specification of a counter is
  the list of what was recorded, each with its second; the ring is shown to hold the sums of
  the last sixty seconds of it. Byte counts are exact, as a Float64 keeps them below \<open>2 ^ 53\<close>.
\<close>

section \<open>Counters\<close>

datatype traffic_class = speech | keepalive | traffic_control

definition trafficClassOf :: "packet_type \<Rightarrow> traffic_class" where
  "trafficClassOf pType =
     (if pType = Voice \<or> pType = VoiceWhisper then speech
      else if pType = Ping \<or> pType = Pong then keepalive
      else traffic_control)"

definition WINDOW_SECONDS :: nat where "WINDOW_SECONDS = 60"

record counter =
  ct_packets :: nat
  ct_bytes :: nat
  ct_buckets :: "nat list"
  ct_second :: nat

definition new_counter :: counter where
  "new_counter = \<lparr>ct_packets = 0, ct_bytes = 0, ct_buckets = replicate WINDOW_SECONDS 0, ct_second = 0\<rparr>"

text \<open>The loop of \<open>advance\<close>: the buckets of the next \<open>gap\<close> seconds are cleared.\<close>

primrec clear_buckets :: "nat \<Rightarrow> nat \<Rightarrow> nat list \<Rightarrow> nat list" where
  "clear_buckets s 0 bs = bs"
| "clear_buckets s (Suc i) bs = (clear_buckets s i bs)[(s + Suc i) mod WINDOW_SECONDS := 0]"

definition counter_advance :: "nat \<Rightarrow> counter \<Rightarrow> counter" where
  "counter_advance s c =
     (if s \<le> ct_second c then c
      else let gap = min (s - ct_second c) WINDOW_SECONDS
           in c\<lparr>ct_buckets := clear_buckets (ct_second c) gap (ct_buckets c), ct_second := s\<rparr>)"

text \<open>\<open>Math.floor(nowMs / 1000)\<close> of the monotonic clock, which starts at 0.\<close>

definition second_of :: "real \<Rightarrow> nat" where
  "second_of nowMs = nat \<lfloor>nowMs / 1000\<rfloor>"

definition counter_add :: "nat \<Rightarrow> real \<Rightarrow> counter \<Rightarrow> counter" where
  "counter_add n nowMs c =
     (let c' = counter_advance (second_of nowMs) c; i = ct_second c' mod WINDOW_SECONDS
      in c'\<lparr>ct_packets := ct_packets c' + 1, ct_bytes := ct_bytes c' + n,
            ct_buckets := (ct_buckets c')[i := ct_buckets c' ! i + n]\<rparr>)"

record traffic_figures =
  tf_packets :: nat
  tf_bytes :: nat
  tf_bytesLastSecond :: nat
  tf_minute :: nat  \<comment> \<open>the sum that \<open>bytesPerSecondLastMinute\<close> divides by 60\<close>

text \<open>What \<open>snapshot\<close> reads of one counter, which it advances first.\<close>

definition counter_read :: "real \<Rightarrow> counter \<Rightarrow> traffic_figures \<times> counter" where
  "counter_read nowMs c =
     (let c' = counter_advance (second_of nowMs) c;
          previous = nat ((int (ct_second c') - 1 + 60) mod 60)
      in (\<lparr>tf_packets = ct_packets c', tf_bytes = ct_bytes c',
           tf_bytesLastSecond = ct_buckets c' ! previous,
           tf_minute = sum_list (map (\<lambda>i. ct_buckets c' !
              nat ((int (ct_second c') - int i + 60 * 2) mod 60)) [1..<61])\<rparr>, c'))"

section \<open>The meter\<close>

record traffic_meter =
  tm_sent :: "traffic_class \<Rightarrow> counter"
  tm_received :: "traffic_class \<Rightarrow> counter"

definition new_meter :: traffic_meter where
  "new_meter = \<lparr>tm_sent = (\<lambda>_. new_counter), tm_received = (\<lambda>_. new_counter)\<rparr>"

definition recordSent :: "packet_type \<Rightarrow> nat \<Rightarrow> real \<Rightarrow> traffic_meter \<Rightarrow> traffic_meter" where
  "recordSent pType n nowMs m =
     (let k = trafficClassOf pType in m\<lparr>tm_sent := (tm_sent m)(k := counter_add n nowMs (tm_sent m k))\<rparr>)"

definition recordReceived :: "packet_type \<Rightarrow> nat \<Rightarrow> real \<Rightarrow> traffic_meter \<Rightarrow> traffic_meter" where
  "recordReceived pType n nowMs m =
     (let k = trafficClassOf pType
      in m\<lparr>tm_received := (tm_received m)(k := counter_add n nowMs (tm_received m k))\<rparr>)"

text \<open>\<open>RoundTripEstimator\<close>: at most ten samples; the mean and the squared deviation.\<close>

definition rtt_add :: "real \<Rightarrow> real list \<Rightarrow> real list" where
  "rtt_add ms samples =
     (let s = samples @ [ms] in if length s > 10 then tl s else s)"

definition rtt_get :: "real list \<Rightarrow> (real \<times> real) option" where
  "rtt_get samples =
     (if samples = [] then None
      else let n = of_nat (length samples); mean = sum_list samples / n;
               variance = sum_list (map (\<lambda>b. (b - mean) ^ 2) samples) / n
           in Some (mean, sqrt variance))"

section \<open>The ring against the record\<close>

text \<open>A history of what was added: the second and the bytes of each. \<open>bytes_in\<close> sums one second.\<close>

type_synonym history = "(nat \<times> nat) list"

definition bytes_in :: "history \<Rightarrow> nat \<Rightarrow> nat" where
  "bytes_in h s = sum_list (map snd (filter (\<lambda>(t, n). t = s) h))"

definition counter_models :: "counter \<Rightarrow> history \<Rightarrow> bool" where
  "counter_models c h \<longleftrightarrow>
     length (ct_buckets c) = 60 \<and> ct_packets c = length h \<and> ct_bytes c = sum_list (map snd h) \<and>
     (\<forall>(t, n)\<in>set h. t \<le> ct_second c) \<and>
     (\<forall>s. s \<le> ct_second c \<and> ct_second c < s + 60 \<longrightarrow> ct_buckets c ! (s mod 60) = bytes_in h s)"

lemma counter_models_new: "counter_models new_counter []"
  by (simp add: counter_models_def new_counter_def bytes_in_def WINDOW_SECONDS_def)

lemma length_clear_buckets [simp]: "length (clear_buckets s g bs) = length bs"
  by (induction g) simp_all

lemma clear_buckets_nth:
  assumes "length bs = 60" "k < 60"
  shows "clear_buckets s g bs ! k = (if \<exists>i\<in>{1..g}. (s + i) mod 60 = k then 0 else bs ! k)"
proof (induction g)
  case (Suc g)
  have "{1..Suc g} = insert (Suc g) {1..g}" by auto
  with Suc assms show ?case
    by (auto simp: WINDOW_SECONDS_def nth_list_update)
qed simp

lemma bytes_in_future: "\<forall>(t, n)\<in>set h. t \<le> s \<Longrightarrow> s < u \<Longrightarrow> bytes_in h u = 0"
  by (auto simp: bytes_in_def filter_empty_conv intro!: sum_list_0 dest!: bspec)

lemma mod60_eq_near:
  assumes "a mod 60 = b mod 60" "a < b + 60" "b < a + (60 :: nat)"
  shows "a = b"
proof -
  obtain q r m where "a = q * 60 + m" "b = r * 60 + m"
    using div_mult_mod_eq[of a 60] div_mult_mod_eq[of b 60] assms(1) by metis
  with assms(2,3) show ?thesis by simp
qed

lemma counter_models_advance:
  assumes "counter_models c h"
  shows "counter_models (counter_advance s c) h" "s \<le> ct_second (counter_advance s c)"
    "ct_second c \<le> s \<Longrightarrow> ct_second (counter_advance s c) = s"
proof -
  show "s \<le> ct_second (counter_advance s c)" by (simp add: counter_advance_def Let_def)
  show "ct_second c \<le> s \<Longrightarrow> ct_second (counter_advance s c) = s"
    by (auto simp: counter_advance_def Let_def)
  show "counter_models (counter_advance s c) h"
  proof (cases "s \<le> ct_second c")
    case True
    with assms show ?thesis by (simp add: counter_advance_def)
  next
    case False
    let ?o = "ct_second c" and ?g = "min (s - ct_second c) 60"
    have len: "length (ct_buckets c) = 60" and old: "\<forall>(t, n)\<in>set h. t \<le> ?o"
      and ring: "\<And>u. u \<le> ?o \<Longrightarrow> ?o < u + 60 \<Longrightarrow> ct_buckets c ! (u mod 60) = bytes_in h u"
      using assms by (auto simp: counter_models_def)
    have "clear_buckets ?o ?g (ct_buckets c) ! (u mod 60) = bytes_in h u"
      if u: "u \<le> s" "s < u + 60" for u
    proof (cases "u \<le> ?o")
      case True
      have "\<not> (\<exists>i\<in>{1..?g}. (?o + i) mod 60 = u mod 60)"
      proof clarsimp
        fix i assume i: "Suc 0 \<le> i" "i \<le> s - ?o" "i \<le> 60" "(?o + i) mod 60 = u mod 60"
        have "?o + i = u"
          by (rule mod60_eq_near[OF i(4)]) (use i(1-3) True u False in linarith)+
        with i(1) True show False by linarith
      qed
      with True u False show ?thesis
        by (simp add: clear_buckets_nth[OF len] ring)
    next
      case later: False
      have "\<exists>i\<in>{1..?g}. (?o + i) mod 60 = u mod 60"
      proof (cases "s - ?o \<le> 60")
        case True
        with later u show ?thesis by (intro bexI[of _ "u - ?o"]) auto
      next
        case False
        define i where "i = Suc ((u - ?o - 1) mod 60)"
        have "(?o + i) mod 60 = (?o + 1 + (u - ?o - 1) mod 60) mod 60" by (simp add: i_def)
        also have "\<dots> = (?o + 1 + (u - ?o - 1)) mod 60" by (simp only: mod_add_right_eq)
        finally have "(?o + i) mod 60 = u mod 60" using later by simp
        moreover have "i \<in> {1..?g}" using False by (auto simp: i_def Suc_le_eq)
        ultimately show ?thesis by blast
      qed
      then show ?thesis
        using later bytes_in_future[OF old, of u] by (simp add: clear_buckets_nth[OF len])
    qed
    with assms False old show ?thesis
      by (auto simp: counter_models_def counter_advance_def Let_def WINDOW_SECONDS_def)
  qed
qed

lemma bytes_in_append: "bytes_in (h @ [(t, n)]) u = bytes_in h u + (if t = u then n else 0)"
  by (simp add: bytes_in_def)

lemma counter_models_add:
  assumes "counter_models c h" "ct_second c \<le> second_of nowMs"
  shows "counter_models (counter_add n nowMs c) (h @ [(second_of nowMs, n)])"
proof -
  define s where "s = second_of nowMs"
  define c' where "c' = counter_advance s c"
  have m: "counter_models c' h" and s: "ct_second c' = s"
    using counter_models_advance[OF assms(1)] assms(2) by (simp_all add: c'_def s_def)
  have len: "length (ct_buckets c') = 60" using m by (simp add: counter_models_def)
  have "ct_second c' mod WINDOW_SECONDS \<noteq> u mod 60" if "u \<le> s" "s < u + 60" "u \<noteq> s" for u
    using mod60_eq_near[of s u] that s by (auto simp: WINDOW_SECONDS_def)
  with m s len show ?thesis
    unfolding counter_add_def Let_def c'_def [symmetric] s_def [symmetric]
    by (auto simp: counter_models_def bytes_in_append nth_list_update WINDOW_SECONDS_def)
qed

lemma ring_index:
  assumes "i \<le> s"
  shows "nat ((int s - int i + 60 * int k) mod 60) = (s - i) mod 60"
proof -
  have "(int s - int i + 60 * int k) mod 60 = int ((s - i) mod 60)"
    using assms by (simp add: of_nat_diff zmod_int)
  then show ?thesis by (metis nat_int)
qed

lemma counter_read_second:
  assumes "counter_models c h" "ct_second c \<le> second_of nowMs" "60 \<le> second_of nowMs"
  shows "fst (counter_read nowMs c) =
    \<lparr>tf_packets = length h, tf_bytes = sum_list (map snd h),
     tf_bytesLastSecond = bytes_in h (second_of nowMs - 1),
     tf_minute = sum_list (map (bytes_in h) [second_of nowMs - 59..<second_of nowMs + 1])\<rparr>"
proof -
  define s where "s = second_of nowMs"
  define c' where "c' = counter_advance s c"
  have m: "counter_models c' h" and s: "ct_second c' = s"
    using counter_models_advance[OF assms(1)] assms(2) by (simp_all add: c'_def s_def)
  have ring: "ct_buckets c' ! (u mod 60) = bytes_in h u" if "u \<le> s" "s < u + 60" for u
    using m s that by (simp add: counter_models_def)
  have prev: "nat ((int s - 1 + 60) mod 60) = (s - 1) mod 60"
    using ring_index[of 1 s 1] assms(3) by (simp add: s_def)
  have slot: "ct_buckets c' ! nat ((int s - int i + 60 * 2) mod 60) =
      bytes_in h (if i = 60 then s else s - i)" if "1 \<le> i" "i \<le> 60" for i
  proof -
    have "nat ((int s - int i + 60 * 2) mod 60) = (s - i) mod 60"
      using ring_index[of i s 2] that assms(3) by (simp add: s_def)
    also have "\<dots> = (if i = 60 then s else s - i) mod 60"
      using assms(3) by (auto simp: s_def mod_if[of "second_of nowMs"])
    finally show ?thesis using ring[of "if i = 60 then s else s - i"] that assms(3)
      by (auto simp: s_def split: if_splits)
  qed
  have "sum_list (map (\<lambda>i. ct_buckets c' ! nat ((int s - int i + 60 * 2) mod 60)) [1..<61]) =
      sum_list (map (\<lambda>i. bytes_in h (if i = 60 then s else s - i)) [1..<61])"
    using slot by (intro arg_cong[where f = sum_list] map_cong) auto
  also have "\<dots> = (\<Sum>i\<in>{1..<61}. bytes_in h (if i = 60 then s else s - i))"
    by (simp add: interv_sum_list_conv_sum_set_nat)
  also have "\<dots> = (\<Sum>u\<in>{s - 59..<s + 1}. bytes_in h u)"
    using assms(3) by (intro sum.reindex_bij_witness[of _ "\<lambda>u. if u = s then 60 else s - u"
        "\<lambda>i. if i = 60 then s else s - i"]) (auto simp: s_def split: if_splits)
  finally have sum: "sum_list (map (\<lambda>i. ct_buckets c' ! nat ((int s - int i + 60 * 2) mod 60)) [1..<61]) =
      sum_list (map (bytes_in h) [s - 59..<s + 1])"
    by (simp only: interv_sum_list_conv_sum_set_nat set_upt)
  have "ct_buckets c' ! ((s - 1) mod 60) = bytes_in h (s - 1)" using ring[of "s - 1"] assms(3) by (simp add: s_def)
  with m show ?thesis
    unfolding counter_read_def Let_def c'_def [symmetric] s_def [symmetric] s prev sum
    by (simp only: counter_models_def fst_conv)
qed

text \<open>A record of datagrams, each with its time and size, added to a fresh counter in order.\<close>

definition added :: "(real \<times> nat) list \<Rightarrow> counter" where
  "added ds = foldl (\<lambda>c (t, n). counter_add n t c) new_counter ds"

lemma second_of_mono: "t \<le> u \<Longrightarrow> second_of t \<le> second_of u"
  unfolding second_of_def by (intro nat_mono floor_mono) simp

lemma counter_add_second:
  "ct_second c \<le> second_of t \<Longrightarrow> ct_second (counter_add n t c) = second_of t"
  by (simp add: counter_add_def counter_advance_def Let_def)

lemma added_models:
  assumes "sorted (map fst ds)" "\<forall>(t, n)\<in>set ds. t \<le> u"
  shows "counter_models (added ds) (map (\<lambda>(t, n). (second_of t, n)) ds) \<and> ct_second (added ds) \<le> second_of u"
  using assms
proof (induction ds arbitrary: u rule: rev_induct)
  case Nil
  show ?case using counter_models_new by (simp add: added_def) (simp add: new_counter_def)
next
  case (snoc d ds)
  obtain t n where d: "d = (t, n)" by fastforce
  have "sorted (map fst ds)" "\<forall>(v, m)\<in>set ds. v \<le> t"
    using snoc.prems(1) d by (auto simp: sorted_append)
  note IH = snoc.IH[OF this]
  have "added (ds @ [d]) = counter_add n t (added ds)" by (simp add: added_def d)
  with IH snoc.prems(2) d show ?case
    by (simp add: counter_models_add counter_add_second second_of_mono)
qed

end
