(* ===== verification/Handler_State.thy ===== *)
theory Handler_State
  imports Receive_Queue Session_Crypt Traffic_Meter
begin

text \<open>
  The state of a connection's packet handler, \<open>src/client/transport/handler.ts\<close>, and its sending
  half: numbering, sealing and writing packets, the resend timers and closing.

  Node's cipher, hash and socket are the environment. A clock reading is an argument, one per
  operation. What the handler tells the outside is a list of events: datagrams handed to the
  socket, packets handed to \<open>onPacket\<close>, the socket closed, \<open>onClosed\<close> called. An operation that can
  throw returns the error beside the state it leaves.
\<close>

section \<open>State\<close>

definition MAX_OUT_PACKET_SIZE :: nat where "MAX_OUT_PACKET_SIZE = 500"
definition UNACKED_RECEIVE_WINDOW_SIZE :: nat where "UNACKED_RECEIVE_WINDOW_SIZE = 2 ^ 15"
definition PACKET_TIMEOUT_MS :: real where "PACKET_TIMEOUT_MS = 60000"
definition MAX_RETRY_INTERVAL_MS :: real where "MAX_RETRY_INTERVAL_MS = 1000"
definition HEADER_SIZE :: nat where "HEADER_SIZE = 5"
definition TAG_SIZE :: nat where "TAG_SIZE = 8"
definition RESEND_BASE_INTERVAL_MS :: real where "RESEND_BASE_INTERVAL_MS = 500"

datatype close_reason = No_Error | Socket_Error | Send_Failed | Connection_Timeout | Connection_Stalled

datatype handler_event = Datagram bytes | Delivered packet | Socket_Closed | Closed close_reason

text \<open>What an operation can throw. \<open>Hangs\<close> is no error of the code: it is a loop that never ends.\<close>

datatype handler_error = Thrown crypt_error | Invalid_Argument string | Hangs

type_synonym 'a outcome = "handler_error + 'a"

record environment =
  env_aes :: block_cipher
  env_sha256 :: "bytes \<Rightarrow> bytes"
  env_send_throws :: "bytes \<Rightarrow> bool"

record resend_packet =
  rp_packet :: packet
  firstSend :: real
  lastSend :: real
  retryCount :: nat
  nextInterval :: real
  rp_dummy :: bool

record handler =
  h_crypt :: crypt_state
  h_conn :: bool
  h_clientID :: nat
  h_closed :: bool
  h_timers :: bool
  lastMessageReceived :: real
  h_traffic :: traffic_meter
  roundTrip :: "real list"
  pingsSent :: "(nat, real) jsmap"
  packetCounter :: "packet_type \<Rightarrow> nat"
  generationCounter :: "packet_type \<Rightarrow> nat"
  commandStream :: command_stream
  commandLowStream :: command_stream
  queuedBytes :: int
  recvWindowVoice :: window
  recvWindowVoiceWhisper :: window
  recvWindowPing :: window
  recvWindowPong :: window
  sendWindowCommand :: window
  sendWindowCommandLow :: window
  ackManager :: "(nat, resend_packet) jsmap"
  initPacketCheck :: "resend_packet option"
  dummyCommandIDs :: "nat list"
  resends :: nat
  events :: "handler_event list"

definition new_handler :: "crypt_state \<Rightarrow> real \<Rightarrow> handler" where
  "new_handler c now =
     \<lparr>h_crypt = c, h_conn = False, h_clientID = 0, h_closed = False, h_timers = False,
      lastMessageReceived = now, h_traffic = new_meter, roundTrip = [], pingsSent = [],
      packetCounter = (\<lambda>_. 0), generationCounter = (\<lambda>_. 0),
      commandStream = new_stream, commandLowStream = new_stream, queuedBytes = 0,
      recvWindowVoice = new_window 65536 UNACKED_RECEIVE_WINDOW_SIZE,
      recvWindowVoiceWhisper = new_window 65536 UNACKED_RECEIVE_WINDOW_SIZE,
      recvWindowPing = new_window 65536 UNACKED_RECEIVE_WINDOW_SIZE,
      recvWindowPong = new_window 65536 UNACKED_RECEIVE_WINDOW_SIZE,
      sendWindowCommand = new_window 65536 RECEIVE_PACKET_WINDOW_SIZE,
      sendWindowCommandLow = new_window 65536 RECEIVE_PACKET_WINDOW_SIZE,
      ackManager = [], initPacketCheck = None, dummyCommandIDs = [], resends = 0, events = []\<rparr>"

definition setClientID :: "nat \<Rightarrow> handler \<Rightarrow> handler" where
  "setClientID i h = h\<lparr>h_clientID := i\<rparr>"

definition emit :: "handler_event \<Rightarrow> handler \<Rightarrow> handler" where
  "emit e h = h\<lparr>events := events h @ [e]\<rparr>"

text \<open>Sequencing of operations that may throw.\<close>

definition then_do ::
  "'a outcome \<times> 's \<Rightarrow> ('a \<Rightarrow> 's \<Rightarrow> 'b outcome \<times> 's) \<Rightarrow> 'b outcome \<times> 's" where
  "then_do r f = (case r of (Inl e, s) \<Rightarrow> (Inl e, s) | (Inr x, s) \<Rightarrow> f x s)"

lemma then_do_simps [simp]:
  "then_do (Inl e, s) f = (Inl e, s)" "then_do (Inr x, s) f = f x s"
  by (simp_all add: then_do_def)

section \<open>Closing\<close>

definition isOpen :: "handler \<Rightarrow> bool" where
  "isOpen h \<longleftrightarrow> h_conn h \<and> \<not> h_closed h"

definition close :: "handler \<Rightarrow> handler" where
  "close h =
     (if h_closed h then h
      else let h1 = h\<lparr>h_closed := True, h_timers := False\<rparr>
           in if h_conn h then emit Socket_Closed (h1\<lparr>h_conn := False\<rparr>) else h1)"

definition triggerClose :: "close_reason \<Rightarrow> handler \<Rightarrow> handler" where
  "triggerClose err h = (if h_closed h then h else emit (Closed err) (close h))"

section \<open>Sending\<close>

definition applyProtocolFlags :: "packet_type \<Rightarrow> byte \<Rightarrow> byte" where
  "applyProtocolFlags pType flags =
     (if pType = Command \<or> pType = CommandLow then flags OR NewProtocol else flags)"

text \<open>The packets of one type are numbered \<open>generation * 65536 + id\<close>; Init1 keeps its id.\<close>

definition bump_counter :: "packet_type \<Rightarrow> handler \<Rightarrow> handler" where
  "bump_counter pType h =
     (let pID = packetCounter h pType; nextID = (pID + 1) mod 65536
      in h\<lparr>packetCounter := (packetCounter h)(pType := nextID),
           generationCounter := (if nextID = 0
             then (generationCounter h)(pType := (generationCounter h pType + 1) mod 2 ^ 32)
             else generationCounter h)\<rparr>)"

definition nextPacketIdentity :: "packet_type \<Rightarrow> handler \<Rightarrow> (nat \<times> nat) \<times> handler" where
  "nextPacketIdentity pType h =
     (let pID = packetCounter h pType; pGen = generationCounter h pType
      in if pType = Init1 then ((pID, pGen), h)
         else let h1 = bump_counter pType h
              in ((pID, pGen),
                  if pType = Command
                  then h1\<lparr>sendWindowCommand := advanceToExcluded (sendWindowCommand h1) pID\<rparr>
                  else if pType = CommandLow
                  then h1\<lparr>sendWindowCommandLow := advanceToExcluded (sendWindowCommandLow h1) pID\<rparr>
                  else h1))"

definition write_datagram :: "environment \<Rightarrow> bytes \<Rightarrow> real \<Rightarrow> handler \<Rightarrow> handler" where
  "write_datagram env data now h =
     (if \<not> h_conn h then h
      else let h1 = (if length data > TAG_SIZE + HEADER_SIZE - 1
                     then h\<lparr>h_traffic := recordSent (packetTypeOfByte (data ! (TAG_SIZE + HEADER_SIZE - 1)))
                              (length data) now (h_traffic h)\<rparr>
                     else h)
           in if env_send_throws env data then triggerClose Send_Failed h1
              else emit (Datagram data) h1)"

text \<open>A datagram: the first eight bytes of the tag, the header, the ciphertext.\<close>

definition datagram :: "bytes \<Rightarrow> bytes \<Rightarrow> bytes \<Rightarrow> bytes" where
  "datagram tag header ciphertext = take TAG_SIZE (tag @ replicate TAG_SIZE 0) @ header @ ciphertext"

text \<open>The key of \<open>ackManager\<close>, \<open>(pType << 16) | id\<close>, for an id below 65536.\<close>

definition ack_key :: "packet_type \<Rightarrow> nat \<Rightarrow> nat" where
  "ack_key pType i = type_code pType * 65536 + i"

definition trackResend :: "packet_type \<Rightarrow> packet \<Rightarrow> resend_packet \<Rightarrow> handler \<Rightarrow> handler" where
  "trackResend pType p rp h =
     (if pType = Init1 then h\<lparr>initPacketCheck := Some rp\<rparr>
      else if pType = Command \<or> pType = CommandLow
      then h\<lparr>ackManager := AList.update (ack_key pType (pk_id p)) rp (ackManager h)\<rparr>
      else h)"

definition sendPacketRaw ::
  "environment \<Rightarrow> packet_type \<Rightarrow> bytes \<Rightarrow> byte \<Rightarrow> bool \<Rightarrow> real \<Rightarrow> handler \<Rightarrow> unit outcome \<times> handler" where
  "sendPacketRaw env pType data flags0 dummy now h =
     (let flags = applyProtocolFlags pType flags0;
          ((pID, pGen), h1) = nextPacketIdentity pType h;
          p = \<lparr>typeFlagged = type_byte pType flags, pk_id = pID, clientID = h_clientID h1,
               generationID = pGen, pk_data = data, receivedAt = 0\<rparr>;
          unencrypted = (flags AND Unencrypted \<noteq> 0);
          header = buildC2SHeader p
      in case crypt_encrypt (env_aes env) (env_sha256 env) (type_code pType) pID pGen header data
                dummy unencrypted (h_crypt h1) of
           Inl e \<Rightarrow> (Inl (Thrown e), h1)
         | Inr ((ciphertext, tag), c) \<Rightarrow>
             (let h2 = write_datagram env (datagram tag header ciphertext) now (h1\<lparr>h_crypt := c\<rparr>);
                  h3 = (if dummy \<and> pType = Command
                        then h2\<lparr>dummyCommandIDs := List.insert pID (dummyCommandIDs h2)\<rparr> else h2);
                  rp = \<lparr>rp_packet = p, firstSend = now, lastSend = now, retryCount = 0,
                        nextInterval = RESEND_BASE_INTERVAL_MS, rp_dummy = dummy\<rparr>
              in (Inr (), trackResend pType p rp h3)))"

text \<open>
  \<open>sendSplitPacket\<close>: the blocks of at most 487 bytes, the first and the last of several marked as
  fragments, then each sent in turn.
\<close>

definition max_block :: nat where
  "max_block = MAX_OUT_PACKET_SIZE - HEADER_SIZE - TAG_SIZE"

fun split_blocks :: "byte \<Rightarrow> bool \<Rightarrow> bytes \<Rightarrow> (bytes \<times> byte) list" where
  "split_blocks flags first data =
     (if data = [] then []
      else let blockSize = min (length data) 487; last = (blockSize = length data);
               pFlags = (if first \<noteq> last then flags OR Fragmented else flags)
           in (take blockSize data, pFlags) # split_blocks flags False (drop blockSize data))"

declare split_blocks.simps [simp del]

primrec send_blocks ::
  "environment \<Rightarrow> packet_type \<Rightarrow> (bytes \<times> byte) list \<Rightarrow> bool \<Rightarrow> real \<Rightarrow> handler \<Rightarrow> unit outcome \<times> handler"
where
  "send_blocks env pType [] dummy now h = (Inr (), h)"
| "send_blocks env pType (b # bs) dummy now h =
     then_do (sendPacketRaw env pType (fst b) (snd b) dummy now h)
       (\<lambda>_. send_blocks env pType bs dummy now)"

definition sendPacket ::
  "environment \<Rightarrow> packet_type \<Rightarrow> bytes \<Rightarrow> byte \<Rightarrow> real \<Rightarrow> handler \<Rightarrow> unit outcome \<times> handler" where
  "sendPacket env pType data flags now h =
     (let dummy = \<not> cryptoInitComplete (h_crypt h)
      in if length data > 487 \<and> pType \<noteq> Voice \<and> pType \<noteq> VoiceWhisper
         then send_blocks env pType (split_blocks flags True data) dummy now h
         else sendPacketRaw env pType data flags dummy now h)"

section \<open>Voice\<close>

text \<open>Voice is numbered and written as it is, under the fake signature.\<close>

definition voice_datagram :: "packet_type \<Rightarrow> byte \<Rightarrow> nat \<Rightarrow> nat \<Rightarrow> bytes \<Rightarrow> handler \<Rightarrow> bytes" where
  "voice_datagram pType flags pID pGen payload h =
     (let p = \<lparr>typeFlagged = type_byte pType (Unencrypted OR flags), pk_id = pID,
               clientID = h_clientID h, generationID = pGen, pk_data = payload, receivedAt = 0\<rparr>
      in fakeSignature (h_crypt h) @ buildC2SHeader p @ payload)"

definition sendVoicePacket :: "environment \<Rightarrow> bytes \<Rightarrow> nat \<Rightarrow> real \<Rightarrow> handler \<Rightarrow> handler" where
  "sendVoicePacket env data codec now h =
     (let pID = packetCounter h Voice; pGen = generationCounter h Voice; h1 = bump_counter Voice h;
          payload = be_bytes 2 pID @ [of_nat codec] @ data
      in write_datagram env (voice_datagram Voice 0 pID pGen payload h1) now h1)"

text \<open>\<open>sendWhisperPayload\<close>, given what follows the voice id of the payload.\<close>

definition sendWhisperPayload :: "environment \<Rightarrow> bytes \<Rightarrow> byte \<Rightarrow> real \<Rightarrow> handler \<Rightarrow> handler" where
  "sendWhisperPayload env rest flags now h =
     (let pID = packetCounter h VoiceWhisper; pGen = generationCounter h VoiceWhisper;
          h1 = bump_counter VoiceWhisper h; payload = be_bytes 2 pID @ rest
      in write_datagram env (voice_datagram VoiceWhisper flags pID pGen payload h1) now h1)"

definition sendWhisperPacket ::
  "environment \<Rightarrow> bytes \<Rightarrow> int list \<Rightarrow> nat \<Rightarrow> int list \<Rightarrow> real \<Rightarrow> handler \<Rightarrow> unit outcome \<times> handler" where
  "sendWhisperPacket env data targetClientIds codec targetChannelIds now h =
     (if targetClientIds = [] \<and> targetChannelIds = []
      then (Inl (Invalid_Argument ''a whisper needs at least one target''), h)
      else if length targetClientIds > 32
      then (Inl (Invalid_Argument ''a whisper has at most 32 client targets''), h)
      else if length targetChannelIds > 255
      then (Inl (Invalid_Argument ''a whisper has at most 255 channel targets''), h)
      else if \<exists>i\<in>set targetClientIds. i < 0 \<or> i > 0xffff
      then (Inl (Invalid_Argument ''invalid whisper target''), h)
      else if \<exists>i\<in>set targetChannelIds. i < 0 \<or> i > 0xffffffffffffffff
      then (Inl (Invalid_Argument ''invalid whisper channel target''), h)
      else (Inr (), sendWhisperPayload env
             ([of_nat codec, of_nat (length targetChannelIds), of_nat (length targetClientIds)]
              @ concat (map (be_bytes 8 \<circ> nat) targetChannelIds)
              @ concat (map (be_bytes 2 \<circ> nat) targetClientIds) @ data) 0 now h))"

definition sendGroupWhisperPacket ::
  "environment \<Rightarrow> bytes \<Rightarrow> int \<Rightarrow> int \<Rightarrow> int \<Rightarrow> nat \<Rightarrow> real \<Rightarrow> handler \<Rightarrow> unit outcome \<times> handler" where
  "sendGroupWhisperPacket env data groupType scope target codec now h =
     (if groupType < 0 \<or> groupType > 0xff
      then (Inl (Invalid_Argument ''invalid group whisper type''), h)
      else if scope < 0 \<or> scope > 0xff
      then (Inl (Invalid_Argument ''invalid group whisper scope''), h)
      else if target < 0 \<or> target > 0xffffffffffffffff
      then (Inl (Invalid_Argument ''invalid group whisper id''), h)
      else (Inr (), sendWhisperPayload env
             ([of_nat codec, of_int groupType, of_int scope] @ be_bytes 8 (nat target) @ data)
             NewProtocol now h))"

end
