(* ===== verification/Receive_Order.thy ===== *)
theory Receive_Order
  imports Receive_Queue
begin

text \<open>
  What the receive queue delivers: the packets the server numbered, cut into commands, each once
  and in order. The server's side is a function from packet numbers to contents; the network may
  delay, repeat and reorder packets, which the step relation \<open>arrives\<close> lets it do freely.
\<close>

section \<open>One command\<close>

definition assemble :: "packet list \<Rightarrow> packet option" where
  "assemble ps =
     (case ps of [] \<Rightarrow> None
      | p # rest \<Rightarrow>
          (if \<not> has_flag p Fragmented then Some p
           else if sum_list (map data_length ps) > MAX_REASSEMBLED_SIZE then None
           else Some (clear_flag Fragmented (p\<lparr>pk_data := concat (map pk_data ps)\<rparr>))))"

lemma assemble_fragments:
  assumes "ps = p # rest" "has_flag p Fragmented" "sum_list (map data_length ps) \<le> MAX_REASSEMBLED_SIZE"
  shows "map_option pk_data (assemble ps) = Some (concat (map pk_data ps))"
  using assms by (simp add: assemble_def clear_flag_def)

definition finish :: "packet list \<Rightarrow> packet option" where
  "finish ps = Option.bind (assemble ps) tryDecompress"

lemma tryReassemble_Reassembled:
  assumes "queue_ok P a s" "map_of (cs_queue s) a = Some p"
    and "tryReassemble p a (s, b) = Reassembled r a' (s', b')"
  shows "\<exists>k. 0 < k \<and> k \<le> Suc (length (cs_queue s)) \<and> all_held (cs_queue s) a k \<and>
    whole (held_run (cs_queue s) a k) \<and> release_run k (a, (s, b)) = (a', (s', b')) \<and>
    r = assemble (held_run (cs_queue s) a k)"
proof -
  have a: "a mod 65536 = a" using assms(1) by (simp add: queue_ok_def)
  show ?thesis
  proof (cases "has_flag p Fragmented")
    case False
    with assms(3) have "release_run 1 (a, (s, b)) = (a', (s', b'))" "r = Some p"
      unfolding tryReassemble_def Let_def by (auto simp del: One_nat_def release_run.simps split: prod.splits)
    with False assms(2) a show ?thesis
      by (intro exI[of _ 1])
        (simp add: all_held_def held_run_def whole_def assemble_def del: release_run.simps)
  next
    case True
    then obtain ps where ps: "collect (Suc (length (cs_queue s))) (cs_queue s) (a mod 65536) False [] = Complete ps"
      using assms(3) a by (auto simp: tryReassemble_def Let_def split: collected.splits)
    from collect_Complete[OF this] obtain k where k: "0 < k" "k \<le> Suc (length (cs_queue s))"
      "all_held (cs_queue s) a k" "ps = held_run (cs_queue s) a k" "whole ps" by blast
    have hd: "\<exists>rest. ps = p # rest"
      using k(1,4) assms(2) a by (cases k) (auto simp: held_run_Suc)
    have len: "length ps = k" using k(4) by (simp add: held_run_def)
    have "release_run k (a, (s, b)) = (a', (s', b')) \<and> r = assemble ps"
      using assms(3) True ps hd a unfolding tryReassemble_def
      by (auto simp: Let_def len assemble_def split: prod.splits if_splits)
    with k show ?thesis by (intro exI[of _ k]) simp
  qed
qed

lemma tryReassemble_not_Diverges:
  assumes "queue_ok P a s"
  shows "tryReassemble p a (s, b) \<noteq> Diverges"
  using collect_not_Runaway[OF assms]
  by (auto simp: tryReassemble_def Let_def split: collected.splits prod.splits if_splits)

section \<open>What is known of the packets released\<close>

definition along :: "(nat \<Rightarrow> packet \<Rightarrow> bool) \<Rightarrow> packet list \<Rightarrow> bool" where
  "along P ps \<longleftrightarrow> (\<forall>j<length ps. P j (ps ! j))"

lemma along_Nil [simp]: "along P []"
  by (simp add: along_def)

lemma all_less_add: "(\<forall>j < m + n. Q j) \<longleftrightarrow> (\<forall>j < m. Q j) \<and> (\<forall>j < (n :: nat). Q (m + j))"
  by (induction n) (auto simp: less_Suc_eq)

lemma along_append:
  "along P (ps @ qs) \<longleftrightarrow> along P ps \<and> along (\<lambda>d. P (length ps + d)) qs"
  by (simp add: along_def all_less_add nth_append)

lemma held_run_along:
  assumes "queue_ok P a s" "all_held (cs_queue s) a k"
  shows "along P (held_run (cs_queue s) a k) \<and> k \<le> 1024"
proof
  have q: "js_keys_distinct (cs_queue s)" "held_at P a (cs_queue s)"
    using assms(1) by (auto simp: queue_ok_def)
  show k: "k \<le> 1024"
  proof (rule ccontr)
    assume "\<not> k \<le> 1024"
    with assms(2) have "all_held (cs_queue s) a 1025" by (auto simp: all_held_def)
    from all_held_length[OF q(1) this] held_at_length[OF q] show False by simp
  qed
  have "P j (the (map_of (cs_queue s) ((a + j) mod 65536)))" if j: "j < k" for j
  proof -
    obtain p where p: "map_of (cs_queue s) ((a + j) mod 65536) = Some p"
      using assms(2) j by (auto simp: all_held_def)
    with q(2) obtain d where "d < 1024" "(a + j) mod 65536 = (a + d) mod 65536" "P d p"
      unfolding held_at_def by (blast dest: map_of_SomeD)
    with id_offset_inj[of a j d] j k p show ?thesis by simp
  qed
  then show "along P (held_run (cs_queue s) a k)" by (simp add: along_def held_run_def)
qed

lemma length_held_run [simp]: "length (held_run q a k) = k"
  by (simp add: held_run_def)

text \<open>Numbers: the position of the window is the number of the next packet expected.\<close>

lemma queue_ok_window: "queue_ok P a s \<Longrightarrow> window_ok (cs_window s) \<and> a = position (cs_window s) mod 65536"
  by (auto simp: queue_ok_def window_ok_def position_def)

lemma release_run_position:
  assumes "queue_ok P a s" "release_run n (a, (s, b)) = (a', (s', b'))"
    "position (cs_window s) + n < 2 ^ 48"
  shows "position (cs_window s') = position (cs_window s) + n"
  using assms
proof (induction n arbitrary: P a s b)
  case (Suc n)
  let ?s = "s\<lparr>cs_queue := AList.delete a (cs_queue s), cs_window := advance (cs_window s) 1\<rparr>"
  have "position (advance (cs_window s) 1) = position (cs_window s) + nat 1"
    using queue_ok_window[OF Suc.prems(1)] Suc.prems(1,3)
    by (intro position_advance) (auto simp: horizon_def queue_ok_def)
  then show ?case
    using Suc.IH[OF queue_ok_step[OF Suc.prems(1)] Suc.prems(2)[unfolded release_run_step]] Suc.prems(3)
    by simp
qed simp

section \<open>The loop of the queue\<close>

lemma queue_ok_cong: "(\<And>d p. P d p = Q d p) \<Longrightarrow> queue_ok P a s = queue_ok Q a s"
  by (simp add: queue_ok_def held_at_def)

lemma drain_commands:
  assumes "queue_ok P (cs_next s) s" "length (cs_queue s) < n"
  shows "\<exists>out s' b' groups. drain n (s, b) = Some (out, (s', b')) \<and>
    queue_ok (\<lambda>d. P (length (concat groups) + d)) (cs_next s') s' \<and>
    elsewhere (s', b') = elsewhere (s, b) \<and>
    along P (concat groups) \<and> (\<forall>g\<in>set groups. whole g) \<and> out = List.map_filter finish groups \<and>
    (position (cs_window s) + length (concat groups) < 2 ^ 48 \<longrightarrow>
       position (cs_window s') = position (cs_window s) + length (concat groups))"
  using assms
proof (induction n arbitrary: P s b)
  case (Suc n)
  let ?a = "cs_next s"
  have stop: ?case if "drain (Suc n) (s, b) = Some ([], (s, b))"
    using that Suc.prems(1)
    by (intro exI[of _ "[]"] exI[of _ s] exI[of _ b]) (simp add: List.map_filter_simps)
  show ?case
  proof (cases "map_of (cs_queue s) ?a")
    case None
    then show ?thesis by (intro stop) simp
  next
    case (Some p)
    show ?thesis
    proof (cases "tryReassemble p ?a (s, b)")
      case Incomplete
      with Some show ?thesis by (intro stop) simp
    next
      case Diverges
      with tryReassemble_not_Diverges[OF Suc.prems(1)] show ?thesis by simp
    next
      case (Reassembled r a' x)
      obtain s1 b1 where x: "x = (s1, b1)" by fastforce
      let ?s1 = "s1\<lparr>cs_next := a'\<rparr>"
      from tryReassemble_Reassembled[OF Suc.prems(1) Some Reassembled[unfolded x]]
      obtain k where k: "0 < k" "all_held (cs_queue s) ?a k" "whole (held_run (cs_queue s) ?a k)"
        "release_run k (?a, (s, b)) = (a', (s1, b1))" "r = assemble (held_run (cs_queue s) ?a k)"
        by blast
      let ?g = "held_run (cs_queue s) ?a k"
      note along = held_run_along[OF Suc.prems(1) k(2)]
      note run = release_run_ok[OF Suc.prems(1) k(4)]
      have "length (cs_queue s) = length (cs_queue s1) + k"
        using k(2) along by (intro release_run_length[OF Suc.prems(1) _ _ k(4)]) (auto simp: all_held_def)
      then have len: "length (cs_queue ?s1) < n" using Suc.prems(2) k(1) by simp
      have ok: "queue_ok (\<lambda>d. P (k + d)) (cs_next ?s1) ?s1" using run by auto
      from Suc.IH[OF ok len, of b1] obtain out s' b' groups where ih:
        "drain n (?s1, b1) = Some (out, (s', b'))"
        "queue_ok (\<lambda>d. P (k + (length (concat groups) + d))) (cs_next s') s'"
        "elsewhere (s', b') = elsewhere (?s1, b1)"
        "along (\<lambda>d. P (k + d)) (concat groups)" "\<forall>g\<in>set groups. whole g"
        "out = List.map_filter finish groups"
        "position (cs_window ?s1) + length (concat groups) < 2 ^ 48 \<longrightarrow>
           position (cs_window s') = position (cs_window ?s1) + length (concat groups)" by blast
      have else1: "elsewhere (?s1, b1) = elsewhere (s, b)"
        using run by (simp add: elsewhere_def held_bytes_def)
      have pos: "position (cs_window s) + k < 2 ^ 48 \<longrightarrow>
          position (cs_window ?s1) = position (cs_window s) + k"
        using release_run_position[OF Suc.prems(1) k(4)] by simp
      have fin: "Option.bind r tryDecompress = finish ?g" by (simp add: k(5) finish_def)
      have "drain (Suc n) (s, b) = (case finish ?g of None \<Rightarrow> drain n (?s1, b1)
          | Some c \<Rightarrow> map_option (apfst (Cons c)) (drain n (?s1, b1)))"
        using Some Reassembled x fin by (simp add: Let_def)
      with ih along k(3) else1 pos show ?thesis
        by (intro exI[of _ "List.map_filter finish (?g # groups)"] exI[of _ s'] exI[of _ b']
              exI[of _ "?g # groups"])
          (auto simp: along_append add.assoc List.map_filter_simps split: option.splits)
    qed
  qed
qed simp

section \<open>Arrivals\<close>

text \<open>
  One packet of a command stream: taken or dropped (\<open>handleCommandWindowAndAck\<close>), then queued and
  the queue drained (\<open>handlePacketQueue\<close>). The acknowledgement is the handler's.
\<close>

definition receive_command :: "packet \<Rightarrow> rx \<Rightarrow> (packet list \<times> rx) option" where
  "receive_command p r =
     (if admission_of p r = Admitted then handle_queue p r else Some ([], r))"

lemma hold_queue:
  "fst (hold p (s, b)) = s\<lparr>cs_queue := AList.update (pk_id p) p (AList.delete (pk_id p) (cs_queue s))\<rparr>"
  using release_shape[of "pk_id p" s b]
  by (auto simp: hold_def Let_def split: prod.splits)

lemma elsewhere_hold:
  assumes "js_keys_distinct (cs_queue s)"
  shows "elsewhere (hold p (s, b)) = elsewhere (s, b)"
proof -
  obtain s' b' where r: "release (pk_id p) (s, b) = (s', b')" by fastforce
  have q: "cs_queue s' = AList.delete (pk_id p) (cs_queue s)"
    using release_shape[of "pk_id p" s b] r by simp
  have "elsewhere (hold p (s, b)) = elsewhere (s', b')"
    using q by (simp add: hold_def r Let_def elsewhere_def held_bytes_def sum_over_update_new delete_conv')
  then show ?thesis using elsewhere_release[OF assms, of "pk_id p" b] r by simp
qed

lemma queue_ok_hold:
  assumes "queue_ok P a s" "d < 1024" "pk_id p = (a + d) mod 65536" "P d p"
  shows "queue_ok P a (fst (hold p (s, b)))"
proof -
  let ?q = "AList.delete (pk_id p) (cs_queue s)"
  have "map_of ?q (pk_id p) = None" by (simp add: delete_conv')
  then have "set (AList.update (pk_id p) p ?q) \<subseteq> insert (pk_id p, p) (set (cs_queue s))"
    by (simp only: js_update_new set_append) (auto simp: AList.delete_eq)
  with assms show ?thesis
    unfolding hold_queue queue_ok_def held_at_def by auto
qed

text \<open>
  The steps of a stream: \<open>S\<close> gives the content of each packet the server numbered. A packet may
  arrive when its number is not most of the id space away (its key names its generation, so one
  that is does not decrypt); the other stream may change the count of held bytes.
\<close>

type_synonym content = "byte \<times> bytes"

definition content_of :: "packet \<Rightarrow> content" where
  "content_of p = (typeFlagged p, pk_data p)"

definition arriving :: "(nat \<Rightarrow> content) \<Rightarrow> command_stream \<Rightarrow> nat \<Rightarrow> packet \<Rightarrow> bool" where
  "arriving S s n p \<longleftrightarrow>
     pk_id p = n mod 65536 \<and> content_of p = S n \<and> n + 1 < 2 ^ 48 \<and>
     position (cs_window s) \<le> n + 64512 \<and> n < position (cs_window s) + 65536"

inductive arrives :: "(nat \<Rightarrow> content) \<Rightarrow> rx \<Rightarrow> packet list \<Rightarrow> bool" for S where
  start: "arrives S (new_stream, b) []"
| other: "arrives S (s, b) out \<Longrightarrow> arrives S (s, b') out"
| packet: "arrives S (s, b) out \<Longrightarrow> arriving S s n p \<Longrightarrow>
    receive_command p (s, b) = Some (ds, r') \<Longrightarrow> arrives S r' (out @ ds)"

text \<open>What a stream at number \<open>N\<close> holds of the server's packets.\<close>

definition holds_of :: "(nat \<Rightarrow> content) \<Rightarrow> nat \<Rightarrow> nat \<Rightarrow> packet \<Rightarrow> bool" where
  "holds_of S N d p \<longleftrightarrow> content_of p = S (N + d) \<and> N + d + 1 < 2 ^ 48"

definition at_number :: "(nat \<Rightarrow> content) \<Rightarrow> nat \<Rightarrow> command_stream \<Rightarrow> bool" where
  "at_number S N s \<longleftrightarrow>
     queue_ok (holds_of S N) (cs_next s) s \<and> position (cs_window s) = N"

lemma at_number_new: "at_number S 0 new_stream"
  by (simp add: at_number_def queue_ok_def held_at_def new_stream_def new_window_def position_def
      RECEIVE_PACKET_WINDOW_SIZE_def)

lemma admitted_distance:
  assumes "queue_ok P (cs_next s) s" "arriving S s n p" "admission_of p (s, b) = Admitted"
  shows "position (cs_window s) \<le> n \<and> n < position (cs_window s) + 1024 \<and>
    pk_id p = (cs_next s + (n - position (cs_window s))) mod 65536"
proof -
  let ?N = "position (cs_window s)"
  have a: "cs_next s = ?N mod 65536" using queue_ok_window[OF assms(1)] by simp
  have n: "pk_id p = n mod 65536" "?N \<le> n + 64512" "n < ?N + 65536"
    using assms(2) by (auto simp: arriving_def)
  have "isInWindow (cs_window s) (pk_id p)"
    using assms(3) by (auto simp: admission_of_def split: if_splits)
  then obtain d where d: "d < 1024" "pk_id p = (cs_next s + d) mod 65536"
    using in_window_iff[OF assms(1)] n(1) by auto
  have eq: "n mod 65536 = (?N + d) mod 65536" using d(2) n(1) a by (simp add: mod_simps)
  have "n = ?N + d"
  proof (cases "?N \<le> n")
    case True
    then obtain e where e: "n = ?N + e" using le_Suc_ex by blast
    have "e = d" by (rule id_offset_inj[of ?N]) (use eq e n(3) d(1) in simp_all)
    with e show ?thesis by simp
  next
    case False
    then obtain e where e: "?N = n + e" "e \<le> 64512" using n(2) by (metis le_add_diff_inverse nat_le_linear add_le_cancel_left)
    have "0 = e + d" by (rule id_offset_inj[of n]) (use eq e d(1) in \<open>simp_all add: add.assoc\<close>)
    with e show ?thesis by simp
  qed
  with d a show ?thesis by auto
qed

lemma at_number_handle_queue:
  assumes "at_number S N s" "arriving S s n p" "admission_of p (s, b) = Admitted"
  shows "\<exists>out s' b' groups. handle_queue p (s, b) = Some (out, (s', b')) \<and>
    at_number S (N + length (concat groups)) s' \<and> elsewhere (s', b') = elsewhere (s, b) \<and>
    map content_of (concat groups) = map S [N..<N + length (concat groups)] \<and>
    (\<forall>g\<in>set groups. whole g) \<and> out = List.map_filter finish groups"
proof -
  obtain s1 b1 where h: "hold p (s, b) = (s1, b1)" by fastforce
  have ok: "queue_ok (holds_of S N) (cs_next s) s" and N: "position (cs_window s) = N"
    using assms(1) by (auto simp: at_number_def)
  note dist = admitted_distance[OF ok assms(2,3), unfolded N]
  have "holds_of S N (n - N) p" using assms(2) dist by (simp add: holds_of_def arriving_def)
  then have ok1: "queue_ok (holds_of S N) (cs_next s) s1"
    using queue_ok_hold[OF ok, of "n - N" p b] dist h by (simp add: less_diff_conv2)
  have s1: "cs_next s1 = cs_next s" "cs_window s1 = cs_window s"
    using hold_queue[of p s b] h by simp_all
  from drain_commands[of "holds_of S N" s1 "Suc (length (cs_queue s1))" b1] ok1 s1
  obtain out s' b' groups where d: "drain (Suc (length (cs_queue s1))) (s1, b1) = Some (out, (s', b'))"
    "queue_ok (\<lambda>d. holds_of S N (length (concat groups) + d)) (cs_next s') s'"
    "elsewhere (s', b') = elsewhere (s1, b1)" "along (holds_of S N) (concat groups)"
    "\<forall>g\<in>set groups. whole g" "out = List.map_filter finish groups"
    "N + length (concat groups) < 2 ^ 48 \<Longrightarrow> position (cs_window s') = N + length (concat groups)"
    unfolding N[symmetric] s1(2)[symmetric] by auto
  have "elsewhere (s1, b1) = elsewhere (s, b)"
    using elsewhere_hold[of s p b] ok h by (simp add: queue_ok_def)
  moreover have "map content_of (concat groups) = map S [N..<N + length (concat groups)]"
    using d(4) by (intro nth_equalityI) (auto simp: along_def holds_of_def)
  moreover have "N + length (concat groups) < 2 ^ 48"
  proof (cases "length (concat groups)")
    case 0
    show ?thesis unfolding 0 using dist assms(2) by (simp add: arriving_def)
  next
    case (Suc m)
    then have "holds_of S N m (concat groups ! m)" using d(4) by (simp add: along_def)
    with Suc show ?thesis by (simp add: holds_of_def)
  qed
  moreover have "holds_of S N (k + e) = holds_of S (N + k) e" for k e
    by (simp add: holds_of_def fun_eq_iff add.assoc)
  ultimately show ?thesis
    using d h by (intro exI[of _ out] exI[of _ s'] exI[of _ b'] exI[of _ groups])
      (simp add: handle_queue_def at_number_def Let_def del: drain.simps)
qed

text \<open>
  The refinement: at every moment the stream has taken some prefix of the server's packets, and
  what it has delivered is that prefix cut into commands, each put together and decompressed.
\<close>

definition delivers_prefix :: "(nat \<Rightarrow> content) \<Rightarrow> nat \<Rightarrow> packet list \<Rightarrow> bool" where
  "delivers_prefix S N out \<longleftrightarrow>
     (\<exists>groups. map content_of (concat groups) = map S [0..<N] \<and>
        (\<forall>g\<in>set groups. whole g) \<and> out = List.map_filter finish groups)"

lemma map_filter_append: "List.map_filter f (xs @ ys) = List.map_filter f xs @ List.map_filter f ys"
  by (induction xs) (auto simp: List.map_filter_simps split: option.splits)

lemma arrives_in_order:
  assumes "arrives S r out"
  shows "at_number S (position (cs_window (fst r))) (fst r) \<and>
    delivers_prefix S (position (cs_window (fst r))) out"
  using assms
proof induction
  case (start b)
  have "position (cs_window new_stream) = 0" by (simp add: new_stream_def)
  then show ?case
    using at_number_new[of S]
    by (auto simp: delivers_prefix_def List.map_filter_simps intro!: exI[of _ "[]"])
next
  case (packet s b out n p ds r')
  let ?N = "position (cs_window s)"
  have at: "at_number S ?N s" using packet.IH by simp
  from packet.IH obtain old where old: "map content_of (concat old) = map S [0..<?N]"
    "\<forall>g\<in>set old. whole g" "out = List.map_filter finish old"
    by (auto simp: delivers_prefix_def)
  show ?case
  proof (cases "admission_of p (s, b) = Admitted")
    case True
    from at_number_handle_queue[OF at packet.hyps(2) True] packet.hyps(3) True
    obtain s' b' groups where new: "r' = (s', b')" "at_number S (?N + length (concat groups)) s'"
      "map content_of (concat groups) = map S [?N..<?N + length (concat groups)]"
      "\<forall>g\<in>set groups. whole g" "ds = List.map_filter finish groups"
      by (auto simp: receive_command_def)
    have pos: "position (cs_window s') = ?N + length (concat groups)"
      using new(2) by (simp add: at_number_def)
    have "map content_of (concat (old @ groups)) = map S [0..<?N + length (concat groups)]"
      using old(1) new(3) by (simp only: concat_append map_append upt_add_eq_append[OF le0])
    with old(2,3) new(2,4,5) show ?thesis
      by (auto simp: new(1) pos delivers_prefix_def map_filter_append intro!: exI[of _ "old @ groups"])
  next
    case False
    with packet show ?thesis by (simp add: receive_command_def)
  qed
qed simp

section \<open>Every packet is handled\<close>

lemma stream_inv_map_of:
  "stream_inv s \<Longrightarrow> map_of (cs_queue s) i = Some p \<Longrightarrow> pk_id p = i \<and> i < 65536"
  by (auto simp: stream_inv_def queue_ok_def held_at_def dest!: map_of_SomeD)

lemma admitted_in_window:
  assumes "stream_inv s" "pk_id p < 65536" "admission_of p (s, b) = Admitted"
  shows "\<exists>d<1024. pk_id p = (cs_next s + d) mod 65536"
  using assms(3) in_window_iff[OF assms(1)[unfolded stream_inv_def] assms(2)]
  by (auto simp: admission_of_def split: if_splits)

lemma receive_command_total:
  assumes "stream_inv s" "pk_id p < 65536"
  shows "\<exists>ds s' b'. receive_command p (s, b) = Some (ds, (s', b')) \<and> stream_inv s' \<and>
    elsewhere (s', b') = elsewhere (s, b)"
proof (cases "admission_of p (s, b) = Admitted")
  case True
  obtain s1 b1 where h: "hold p (s, b) = (s1, b1)" by fastforce
  from admitted_in_window[OF assms True] obtain d
    where d: "d < 1024" "pk_id p = (cs_next s + d) mod 65536" by blast
  have s1: "cs_next s1 = cs_next s" using hold_queue[of p s b] h by simp
  have "queue_ok (\<lambda>_ _. True) (cs_next s1) s1"
    using queue_ok_hold[OF assms(1)[unfolded stream_inv_def] d TrueI, of b] h s1 by simp
  from drain_commands[OF this lessI, of b1] obtain out s' b' where
    "drain (Suc (length (cs_queue s1))) (s1, b1) = Some (out, (s', b'))"
    "queue_ok (\<lambda>_ _. True) (cs_next s') s'" "elsewhere (s', b') = elsewhere (s1, b1)" by blast
  moreover have "elsewhere (s1, b1) = elsewhere (s, b)"
    using elsewhere_hold[of s p b] assms(1) h by (simp add: stream_inv_def queue_ok_def)
  ultimately show ?thesis
    using True h
    by (intro exI[of _ out] exI[of _ s'] exI[of _ b'])
      (simp add: receive_command_def handle_queue_def stream_inv_def Let_def del: drain.simps)
qed (use assms in \<open>simp add: receive_command_def\<close>)

section \<open>The packet the queue waits for\<close>

lemma needed_from_spec:
  "\<exists>k\<le>n. needed_from n q (a mod 65536) = (a + k) mod 65536 \<and> all_held q a k \<and>
     (k < n \<longrightarrow> map_of q ((a + k) mod 65536) = None)"
proof (induction n arbitrary: a)
  case (Suc n)
  show ?case
  proof (cases "map_of q (a mod 65536)")
    case None
    then show ?thesis by (intro exI[of _ 0]) (simp add: all_held_def)
  next
    case (Some p)
    from Suc.IH[of "Suc a"] obtain k where k: "k \<le> n"
      "needed_from n q (Suc a mod 65536) = (Suc a + k) mod 65536" "all_held q (Suc a) k"
      "k < n \<longrightarrow> map_of q ((Suc a + k) mod 65536) = None" by blast
    have "needed_from (Suc n) q (a mod 65536) = needed_from n q (Suc a mod 65536)"
      using Some by (simp add: next_id_def mod_Suc_eq)
    with k Some show ?thesis by (intro exI[of _ "Suc k"]) (auto simp: all_held_Suc)
  qed
qed (auto simp: all_held_def)

text \<open>It is the first missing one: every packet before it is held, and it is not.\<close>

lemma needed_id_first_missing:
  assumes "stream_inv s"
  shows "\<exists>k\<le>1024. needed_id s = (cs_next s + k) mod 65536 \<and>
    (\<forall>j<k. map_of (cs_queue s) ((cs_next s + j) mod 65536) \<noteq> None) \<and>
    map_of (cs_queue s) (needed_id s) = None"
proof -
  have q: "js_keys_distinct (cs_queue s)" "held_at (\<lambda>_ _. True) (cs_next s) (cs_queue s)"
    "cs_next s < 65536"
    using assms by (auto simp: stream_inv_def queue_ok_def)
  note len = held_at_length[OF q(1,2)]
  from needed_from_spec[of "length (cs_queue s)" "cs_queue s" "cs_next s"] q(3)
  obtain k where k: "k \<le> length (cs_queue s)" "needed_id s = (cs_next s + k) mod 65536"
    "all_held (cs_queue s) (cs_next s) k"
    "k < length (cs_queue s) \<Longrightarrow> map_of (cs_queue s) ((cs_next s + k) mod 65536) = None"
    by (auto simp: needed_id_def)
  have "map_of (cs_queue s) ((cs_next s + k) mod 65536) = None"
  proof (rule ccontr)
    assume c: "map_of (cs_queue s) ((cs_next s + k) mod 65536) \<noteq> None"
    with k(3) have "all_held (cs_queue s) (cs_next s) (Suc k)"
      by (auto simp: all_held_def less_Suc_eq)
    from all_held_length[OF q(1) this] len k(1,4) c show False by fastforce
  qed
  with k len show ?thesis by (intro exI[of _ k]) (simp add: all_held_def)
qed

lemma needed_packet_admitted:
  assumes "isInWindow (cs_window s) (pk_id p)" "pk_id p = needed_id s"
  shows "admission_of p (s, b) = Admitted"
  using assms by (simp add: admission_of_def)

end
