(* ===== verification/Packet_Handler.thy ===== *)
theory Packet_Handler
  imports Handler_State Receive_Order
begin

text \<open>
  The receiving half of \<open>src/client/transport/handler.ts\<close> and its timers: what the handler does
  with a datagram, the keepalive and the resend loop, and starting on a socket. The state and the
  sending half are \<open>Handler_State\<close>, the command queues \<open>Receive_Queue\<close>.
\<close>

section \<open>Receiving\<close>

definition MAX_DATAGRAM_SIZE :: nat where "MAX_DATAGRAM_SIZE = 4096"

definition UNENCRYPTED_TYPES :: "packet_type list" where
  "UNENCRYPTED_TYPES = [Voice, VoiceWhisper, Ping, Pong, Ack, AckLow, Init1]"

definition resolveGeneration :: "handler \<Rightarrow> nat \<Rightarrow> packet_type \<Rightarrow> nat" where
  "resolveGeneration h i pType =
     (case pType of
        Command \<Rightarrow> getGeneration (cs_window (commandStream h)) i
      | CommandLow \<Rightarrow> getGeneration (cs_window (commandLowStream h)) i
      | Ack \<Rightarrow> getGeneration (sendWindowCommand h) i
      | AckLow \<Rightarrow> getGeneration (sendWindowCommandLow h) i
      | Voice \<Rightarrow> getGeneration (recvWindowVoice h) i
      | VoiceWhisper \<Rightarrow> getGeneration (recvWindowVoiceWhisper h) i
      | Ping \<Rightarrow> getGeneration (recvWindowPing h) i
      | Pong \<Rightarrow> getGeneration (recvWindowPong h) i
      | _ \<Rightarrow> 0)"

definition advanceReceiveGeneration :: "packet_type \<Rightarrow> nat \<Rightarrow> handler \<Rightarrow> handler" where
  "advanceReceiveGeneration pType i h =
     (case pType of
        Voice \<Rightarrow> h\<lparr>recvWindowVoice := advanceAfter (recvWindowVoice h) i\<rparr>
      | VoiceWhisper \<Rightarrow> h\<lparr>recvWindowVoiceWhisper := advanceAfter (recvWindowVoiceWhisper h) i\<rparr>
      | Ping \<Rightarrow> h\<lparr>recvWindowPing := advanceAfter (recvWindowPing h) i\<rparr>
      | Pong \<Rightarrow> h\<lparr>recvWindowPong := advanceAfter (recvWindowPong h) i\<rparr>
      | _ \<Rightarrow> h)"

text \<open>
  \<open>decryptPacketData\<close>: the plaintext and whether the dummy key opened it, or \<^const>\<open>None\<close> for a
  packet that is dropped.
\<close>

definition decryptPacketData ::
  "environment \<Rightarrow> packet \<Rightarrow> bytes \<Rightarrow> bytes \<Rightarrow> bytes \<Rightarrow> handler \<Rightarrow> (bytes \<times> bool) option \<times> handler" where
  "decryptPacketData env p header ciphertext tag h =
     (let unencrypted = isUnencrypted p; dummy = \<not> cryptoInitComplete (h_crypt h);
          pType = packetType p;
          open_with = (\<lambda>dmy unenc. crypt_decrypt (env_aes env) (env_sha256 env) (type_code pType) (pk_id p)
                         (generationID p) header ciphertext tag dmy unenc)
      in if unencrypted \<and> pType \<notin> set UNENCRYPTED_TYPES then (None, h)
         else case open_with dummy unencrypted (h_crypt h) of
                (Inr plaintext, c) \<Rightarrow> (Some (plaintext, dummy), h\<lparr>h_crypt := c\<rparr>)
              | (Inl _, c) \<Rightarrow>
                  (let h1 = h\<lparr>h_crypt := c\<rparr>
                   in if dummy then (None, h1)
                      else if pType = Ack \<and> \<not> unencrypted
                      then (case open_with True False c of
                              (Inl _, c') \<Rightarrow> (None, h1\<lparr>h_crypt := c'\<rparr>)
                            | (Inr plaintext, c') \<Rightarrow>
                                (let acked = be_val (take 2 plaintext)
                                 in if length plaintext \<ge> 2 \<and> acked \<in> set (dummyCommandIDs h1)
                                    then (Some (plaintext, True),
                                          h1\<lparr>h_crypt := c', dummyCommandIDs := removeAll acked (dummyCommandIDs h1)\<rparr>)
                                    else (None, h1\<lparr>h_crypt := c'\<rparr>)))
                      else (None, h1)))"

definition sendAck ::
  "environment \<Rightarrow> nat \<Rightarrow> packet_type \<Rightarrow> bool \<Rightarrow> real \<Rightarrow> handler \<Rightarrow> unit outcome \<times> handler" where
  "sendAck env packetID ackType dummyUsed now h =
     sendPacketRaw env ackType (be_bytes 2 packetID) 0 dummyUsed now h"

definition sendPong :: "environment \<Rightarrow> nat \<Rightarrow> bool \<Rightarrow> real \<Rightarrow> handler \<Rightarrow> unit outcome \<times> handler" where
  "sendPong env pID dummyUsed now h =
     sendPacketRaw env Pong (be_bytes 2 pID) Unencrypted dummyUsed now h"

text \<open>The stream a command packet belongs to, with the count of held bytes.\<close>

definition stream_of :: "packet_type \<Rightarrow> handler \<Rightarrow> rx" where
  "stream_of pType h = (if pType = Command then commandStream h else commandLowStream h, queuedBytes h)"

definition put_stream :: "packet_type \<Rightarrow> rx \<Rightarrow> handler \<Rightarrow> handler" where
  "put_stream pType r h =
     (if pType = Command then h\<lparr>commandStream := fst r, queuedBytes := snd r\<rparr>
      else h\<lparr>commandLowStream := fst r, queuedBytes := snd r\<rparr>)"

definition is_command_type :: "packet_type \<Rightarrow> bool" where
  "is_command_type pType \<longleftrightarrow> pType = Command \<or> pType = CommandLow"

definition handleCommandWindowAndAck ::
  "environment \<Rightarrow> packet \<Rightarrow> bool \<Rightarrow> real \<Rightarrow> handler \<Rightarrow> bool outcome \<times> handler" where
  "handleCommandWindowAndAck env p dummyUsed now h =
     (let pType = packetType p; ackType = (if pType = Command then Ack else AckLow)
      in if \<not> is_command_type pType then (Inr True, h)
         else case admission_of p (stream_of pType h) of
                Repeated \<Rightarrow> then_do (sendAck env (pk_id p) ackType dummyUsed now h) (\<lambda>_ h1. (Inr False, h1))
              | Outside \<Rightarrow> (Inr False, h)
              | No_Room \<Rightarrow> (Inr False, h)
              | Admitted \<Rightarrow> then_do (sendAck env (pk_id p) ackType dummyUsed now h) (\<lambda>_ h1. (Inr True, h1)))"

definition deliver :: "packet list \<Rightarrow> handler \<Rightarrow> handler" where
  "deliver ps h = h\<lparr>events := events h @ map Delivered ps\<rparr>"

definition handlePacketQueue :: "packet \<Rightarrow> handler \<Rightarrow> unit outcome \<times> handler" where
  "handlePacketQueue p h =
     (let pType = packetType p
      in if \<not> is_command_type pType then (Inr (), deliver [p] h)
         else case handle_queue p (stream_of pType h) of
                None \<Rightarrow> (Inl Hangs, h)
              | Some (commands, r) \<Rightarrow> (Inr (), deliver commands (put_stream pType r h)))"

definition updatePostReceiveState :: "packet \<Rightarrow> handler \<Rightarrow> handler" where
  "updatePostReceiveState p h =
     (let pType = packetType p
      in if (pType = Ack \<or> pType = AckLow) \<and> length (pk_data p) \<ge> 2
         then h\<lparr>ackManager := AList.delete
                  (ack_key (if pType = Ack then Command else CommandLow) (be_val (take 2 (pk_data p))))
                  (ackManager h)\<rparr>
         else h)"

text \<open>The round trip of a keepalive: a pong names the ping it answers.\<close>

definition note_pong :: "packet \<Rightarrow> handler \<Rightarrow> handler" where
  "note_pong p h =
     (if packetType p = Pong \<and> length (pk_data p) \<ge> 2
      then let acked = be_val (take 2 (pk_data p))
           in case map_of (pingsSent h) acked of
                None \<Rightarrow> h
              | Some sentAt \<Rightarrow> h\<lparr>pingsSent := AList.delete acked (pingsSent h),
                                 roundTrip := rtt_add (receivedAt p - sentAt) (roundTrip h)\<rparr>
      else h)"

text \<open>What \<open>handleRawPacket\<close> does with a packet that decrypted.\<close>

definition handle_decrypted ::
  "environment \<Rightarrow> nat \<Rightarrow> packet \<Rightarrow> bool \<Rightarrow> real \<Rightarrow> handler \<Rightarrow> unit outcome \<times> handler" where
  "handle_decrypted env rawLength p dummyUsed now h =
     (let pType = packetType p;
          h1 = advanceReceiveGeneration pType (pk_id p) h;
          h2 = h1\<lparr>lastMessageReceived := now,
                  h_traffic := recordReceived pType rawLength (receivedAt p) (h_traffic h1)\<rparr>;
          h3 = note_pong p h2
      in if pType = Ping then sendPong env (pk_id p) dummyUsed now h3
         else then_do (handleCommandWindowAndAck env p dummyUsed now h3) (\<lambda>taken h4.
           if \<not> taken then (Inr (), h4)
           else then_do (handlePacketQueue p h4) (\<lambda>_ h5. (Inr (), updatePostReceiveState p h5))))"

text \<open>The packet a datagram carries, before it is opened; \<^const>\<open>None\<close> for one dropped unread.\<close>

definition raw_header :: "bytes \<Rightarrow> bytes" where
  "raw_header raw = take 3 (drop TAG_SIZE raw)"

definition raw_packet :: "bytes \<Rightarrow> real \<Rightarrow> handler \<Rightarrow> packet option" where
  "raw_packet raw received h =
     (if length raw < 11 \<or> length raw > MAX_DATAGRAM_SIZE then None
      else case parseS2CHeader (raw_header raw) of
             None \<Rightarrow> None
           | Some (i, typeByte) \<Rightarrow>
               (let parsedType = packetTypeOfByte typeByte
                in if parsedType = Init1 \<and> cryptoInitComplete (h_crypt h) then None
                   else Some \<lparr>typeFlagged = typeByte, pk_id = i, clientID = 0,
                              generationID = resolveGeneration h i parsedType,
                              pk_data = [], receivedAt = received\<rparr>))"

definition handleRawPacket ::
  "environment \<Rightarrow> bytes \<Rightarrow> real \<Rightarrow> real \<Rightarrow> handler \<Rightarrow> unit outcome \<times> handler" where
  "handleRawPacket env raw received now h =
     (case raw_packet raw received h of
        None \<Rightarrow> (Inr (), h)
      | Some p \<Rightarrow>
          (case decryptPacketData env p (raw_header raw) (drop (TAG_SIZE + 3) raw) (take TAG_SIZE raw) h of
             (None, h1) \<Rightarrow> (Inr (), h1)
           | (Some (plaintext, dummyUsed), h1) \<Rightarrow>
               handle_decrypted env (length raw) (p\<lparr>pk_data := plaintext\<rparr>) dummyUsed now h1))"

text \<open>The socket's \<open>message\<close>, \<open>error\<close> and \<open>close\<close> callbacks. What handling throws is caught.\<close>

definition on_message :: "environment \<Rightarrow> bytes \<Rightarrow> real \<Rightarrow> real \<Rightarrow> handler \<Rightarrow> handler" where
  "on_message env raw received now h =
     (if h_closed h then h else snd (handleRawPacket env raw received now h))"

definition on_socket_error :: "handler \<Rightarrow> handler" where
  "on_socket_error h = triggerClose Socket_Error h"

definition on_socket_close :: "handler \<Rightarrow> handler" where
  "on_socket_close h = triggerClose No_Error h"

section \<open>Timers\<close>

definition ping_tick :: "environment \<Rightarrow> real \<Rightarrow> handler \<Rightarrow> unit outcome \<times> handler" where
  "ping_tick env now h =
     (if \<not> cryptoInitComplete (h_crypt h) then (Inr (), h)
      else let pings = AList.update (packetCounter h Ping) now (pingsSent h);
               kept = (if length pings > 16 then tl pings else pings)
           in sendPacket env Ping [] Unencrypted now (h\<lparr>pingsSent := kept\<rparr>))"

definition receivedFinalInitAck :: "handler \<Rightarrow> handler" where
  "receivedFinalInitAck h = h\<lparr>initPacketCheck := None\<rparr>"

text \<open>\<open>doResend\<close>: the packet as it is now tracked, and the outcome.\<close>

definition doResend ::
  "environment \<Rightarrow> resend_packet \<Rightarrow> real \<Rightarrow> handler \<Rightarrow> resend_packet \<times> unit outcome \<times> handler" where
  "doResend env rp now h =
     (if now - lastSend rp < nextInterval rp then (rp, Inr (), h)
      else let rp' = rp\<lparr>lastSend := now, retryCount := retryCount rp + 1,
                        nextInterval := min (nextInterval rp * 2) MAX_RETRY_INTERVAL_MS\<rparr>;
               h1 = h\<lparr>resends := resends h + 1\<rparr>; p = rp_packet rp; header = buildC2SHeader p
           in case crypt_encrypt (env_aes env) (env_sha256 env) (type_code (packetType p)) (pk_id p)
                     (generationID p) header (pk_data p) (rp_dummy rp) (isUnencrypted p) (h_crypt h1) of
                Inl e \<Rightarrow> (rp', Inl (Thrown e), h1)
              | Inr ((ciphertext, tag), c) \<Rightarrow>
                  (rp', Inr (), write_datagram env (datagram tag header ciphertext) now (h1\<lparr>h_crypt := c\<rparr>)))"

primrec resend_each ::
  "environment \<Rightarrow> real \<Rightarrow> (nat \<times> resend_packet) list \<Rightarrow> handler \<Rightarrow> unit outcome \<times> handler" where
  "resend_each env now [] h = (Inr (), h)"
| "resend_each env now (entry # rest) h =
     (if now - firstSend (snd entry) > PACKET_TIMEOUT_MS
      then (Inr (), triggerClose Connection_Timeout
              (h\<lparr>ackManager := AList.delete (fst entry) (ackManager h)\<rparr>))
      else let (rp', r, h1) = doResend env (snd entry) now h
           in then_do (r, h1\<lparr>ackManager := AList.update (fst entry) rp' (ackManager h1)\<rparr>)
                (\<lambda>_. resend_each env now rest))"

definition checkResends :: "environment \<Rightarrow> real \<Rightarrow> handler \<Rightarrow> unit outcome \<times> handler" where
  "checkResends env now h =
     (if now - lastMessageReceived h > PACKET_TIMEOUT_MS
      then (Inr (), triggerClose Connection_Timeout h)
      else if hasStalledHole (commandStream h) now \<or> hasStalledHole (commandLowStream h) now
      then (Inr (), triggerClose Connection_Stalled h)
      else then_do
             (case initPacketCheck h of
                None \<Rightarrow> (Inr (), h)
              | Some rp \<Rightarrow> (let (rp', r, h1) = doResend env rp now h
                           in (r, h1\<lparr>initPacketCheck := Some rp'\<rparr>)))
             (\<lambda>_ h2. resend_each env now (ackManager h2) h2))"

section \<open>Starting\<close>

text \<open>\<open>start\<close>, with what \<open>processInit1\<close> makes of no input. A closed handler closes the socket.\<close>

definition start ::
  "environment \<Rightarrow> bytes option \<Rightarrow> real \<Rightarrow> handler \<Rightarrow> unit outcome \<times> handler" where
  "start env init1Data now h =
     (if h_closed h then (Inr (), emit Socket_Closed h)
      else let h1 = h\<lparr>h_conn := True, lastMessageReceived := now,
                      packetCounter := (packetCounter h)(Command := 1, Init1 := 101)\<rparr>;
               started = (case init1Data of
                   None \<Rightarrow> (Inr (), h1)
                 | Some d \<Rightarrow> sendPacketRaw env Init1 d 0 (\<not> cryptoInitComplete (h_crypt h1)) now h1)
           in then_do started (\<lambda>_ h2. (Inr (), h2\<lparr>h_timers := True\<rparr>)))"

end
