(* ===== verification/Handler_Facts.thy ===== *)
theory Handler_Facts
  imports Packet_Handler
begin

text \<open>
  What holds of the packet handler: what each operation leaves alone, the accounting of held bytes,
  the order of delivery, which packets are taken, how packets are numbered, sent again and
  split, and closing. The operations are grouped into the steps of \<open>handler_step\<close>, the things that
  can happen to a handler between two turns of the event loop.
\<close>

section \<open>What sending leaves alone\<close>

text \<open>The receiving side of the state.\<close>

definition receiving ::
  "handler \<Rightarrow> command_stream \<times> command_stream \<times> int \<times> real \<times> window \<times> window \<times> window \<times> window" where
  "receiving h = (commandStream h, commandLowStream h, queuedBytes h, lastMessageReceived h,
     recvWindowVoice h, recvWindowVoiceWhisper h, recvWindowPing h, recvWindowPong h)"

lemma receiving_simps [simp]:
  "receiving (h\<lparr>h_crypt := c\<rparr>) = receiving h"
  "receiving (h\<lparr>h_traffic := t\<rparr>) = receiving h"
  "receiving (h\<lparr>packetCounter := f\<rparr>) = receiving h"
  "receiving (h\<lparr>dummyCommandIDs := ids\<rparr>) = receiving h"
  "receiving (h\<lparr>pingsSent := ps\<rparr>) = receiving h"
  "receiving (h\<lparr>ackManager := am\<rparr>) = receiving h"
  "receiving (h\<lparr>initPacketCheck := ip\<rparr>) = receiving h"
  "receiving (h\<lparr>resends := n\<rparr>) = receiving h"
  "receiving (h\<lparr>h_timers := b\<rparr>) = receiving h"
  "receiving (h\<lparr>events := es\<rparr>) = receiving h"
  by (simp_all add: receiving_def)

lemma receiving_emit [simp]: "receiving (emit e h) = receiving h"
  by (simp add: emit_def)

lemma receiving_close [simp]: "receiving (close h) = receiving h"
  by (simp add: close_def Let_def) (simp add: receiving_def)

lemma receiving_triggerClose [simp]: "receiving (triggerClose err h) = receiving h"
  by (simp add: triggerClose_def)

lemma receiving_write [simp]: "receiving (write_datagram env d now h) = receiving h"
  by (simp add: write_datagram_def Let_def)

lemma receiving_bump [simp]: "receiving (bump_counter t h) = receiving h"
  by (simp add: bump_counter_def Let_def receiving_def)

lemma receiving_nextPacketIdentity [simp]: "receiving (snd (nextPacketIdentity t h)) = receiving h"
proof -
  have "receiving (h\<lparr>sendWindowCommand := w\<rparr>) = receiving h"
    "receiving (h\<lparr>sendWindowCommandLow := w\<rparr>) = receiving h" for w h
    by (simp_all add: receiving_def)
  then show ?thesis by (simp add: nextPacketIdentity_def Let_def)
qed

lemma receiving_trackResend [simp]: "receiving (trackResend t p rp h) = receiving h"
  by (simp add: trackResend_def)

lemma receiving_sendPacketRaw [simp]:
  "receiving (snd (sendPacketRaw env t d fl dummy now h)) = receiving h"
proof -
  obtain i g h1 where n: "nextPacketIdentity t h = ((i, g), h1)" by (metis prod.exhaust)
  then have "receiving h1 = receiving h" using receiving_nextPacketIdentity[of t h] by simp
  then show ?thesis
    by (simp add: sendPacketRaw_def n Let_def split: sum.split prod.split)
qed

lemma then_do_cases:
  "then_do r f = (case fst r of Inl e \<Rightarrow> (Inl e, snd r) | Inr x \<Rightarrow> f x (snd r))"
  by (cases r) (auto simp: then_do_def split: sum.split)

lemma receiving_send_blocks [simp]:
  "receiving (snd (send_blocks env t bs dummy now h)) = receiving h"
  by (induction bs arbitrary: h) (simp_all add: then_do_cases split: sum.split)

lemma receiving_sendPacket [simp]: "receiving (snd (sendPacket env t d fl now h)) = receiving h"
  by (simp add: sendPacket_def Let_def)

lemma receiving_voice [simp]:
  "receiving (sendVoicePacket env d codec now h) = receiving h"
  "receiving (sendWhisperPayload env d fl now h) = receiving h"
  by (simp_all add: sendVoicePacket_def sendWhisperPayload_def Let_def)

lemma receiving_whisper [simp]:
  "receiving (snd (sendWhisperPacket env d cs codec chs now h)) = receiving h"
  "receiving (snd (sendGroupWhisperPacket env d g sc i codec now h)) = receiving h"
  by (simp_all add: sendWhisperPacket_def sendGroupWhisperPacket_def)

lemma receiving_acks [simp]:
  "receiving (snd (sendAck env i t dummy now h)) = receiving h"
  "receiving (snd (sendPong env i dummy now h)) = receiving h"
  by (simp_all add: sendAck_def sendPong_def)

lemma receiving_doResend [simp]: "receiving (snd (snd (doResend env rp now h))) = receiving h"
  by (simp add: doResend_def Let_def split: sum.split prod.split)

lemma receiving_resend_each [simp]:
  "receiving (snd (resend_each env now es h)) = receiving h"
proof (induction es arbitrary: h)
  case (Cons e es)
  obtain rp' r h1 where d: "doResend env (snd e) now h = (rp', r, h1)" by (metis prod.exhaust)
  then have "receiving h1 = receiving h" using receiving_doResend[of env "snd e" now h] by simp
  with Cons d show ?case by (simp add: then_do_cases split: sum.split)
qed simp

lemma receiving_ping_tick [simp]: "receiving (snd (ping_tick env now h)) = receiving h"
  by (simp add: ping_tick_def Let_def)

lemma receiving_checkResends [simp]: "receiving (snd (checkResends env now h)) = receiving h"
proof (cases "initPacketCheck h")
  case (Some rp)
  obtain rp' r h1 where d: "doResend env rp now h = (rp', r, h1)" by (metis prod.exhaust)
  then have "receiving h1 = receiving h" using receiving_doResend[of env rp now h] by simp
  with Some d show ?thesis by (simp add: checkResends_def then_do_cases split: sum.split)
qed (simp add: checkResends_def)

section \<open>The accounting of held bytes\<close>

definition handler_inv :: "handler \<Rightarrow> bool" where
  "handler_inv h \<longleftrightarrow> stream_inv (commandStream h) \<and> stream_inv (commandLowStream h) \<and>
     queuedBytes h = held_bytes (commandStream h) + held_bytes (commandLowStream h)"

lemma handler_inv_cong:
  "receiving h = receiving h' \<Longrightarrow> handler_inv h = handler_inv h'"
  by (simp add: receiving_def handler_inv_def)

lemma handler_inv_new: "handler_inv (new_handler c now)"
  by (simp add: handler_inv_def new_handler_def stream_inv_new held_bytes_def)
    (simp add: new_stream_def)

lemma handler_inv_stream:
  assumes "handler_inv h" "is_command_type t"
  shows "stream_inv (fst (stream_of t h))"
  using assms by (simp add: handler_inv_def stream_of_def)

lemma handler_inv_put_stream:
  assumes "handler_inv h" "stream_inv s" "elsewhere (s, b) = elsewhere (stream_of t h)"
  shows "handler_inv (put_stream t (s, b) h)"
  using assms by (auto simp: handler_inv_def put_stream_def stream_of_def elsewhere_def)

lemma handler_inv_more [simp]:
  "handler_inv (deliver ps h) = handler_inv h"
  "handler_inv (updatePostReceiveState p h) = handler_inv h"
  "handler_inv (note_pong p h) = handler_inv h"
  "handler_inv (advanceReceiveGeneration t i h) = handler_inv h"
  by (auto simp: deliver_def updatePostReceiveState_def note_pong_def advanceReceiveGeneration_def
      handler_inv_def Let_def split: option.split packet_type.split)

text \<open>Queueing an admitted packet never runs away, keeps the invariant and delivers.\<close>

lemma handlePacketQueue_ok:
  assumes "handler_inv h" "pk_id p < 65536"
    and "is_command_type (packetType p) \<Longrightarrow> admission_of p (stream_of (packetType p) h) = Admitted"
  shows "\<exists>h'. handlePacketQueue p h = (Inr (), h') \<and> handler_inv h'"
proof (cases "is_command_type (packetType p)")
  case True
  obtain s b where s: "stream_of (packetType p) h = (s, b)" by fastforce
  then have "stream_inv s" using handler_inv_stream[OF assms(1) True] by simp
  from receive_command_total[OF this assms(2), of b] obtain ds s' b' where
    "handle_queue p (s, b) = Some (ds, (s', b'))" "stream_inv s'" "elsewhere (s', b') = elsewhere (s, b)"
    using assms(3)[OF True] s by (auto simp: receive_command_def)
  with True s handler_inv_put_stream[OF assms(1), of s' b' "packetType p"] show ?thesis
    by (simp add: handlePacketQueue_def)
qed (use assms(1) in \<open>simp add: handlePacketQueue_def\<close>)

lemma sendPacketRaw_not_Hangs: "fst (sendPacketRaw env t d fl dummy now h) \<noteq> Inl Hangs"
  by (simp add: sendPacketRaw_def Let_def split: sum.split prod.split)

lemma stream_of_receiving: "receiving h = receiving h' \<Longrightarrow> stream_of t h = stream_of t h'"
  by (simp add: receiving_def stream_of_def)

lemma handleCommandWindowAndAck_taken:
  assumes "handleCommandWindowAndAck env p dummy now h = (Inr True, h')"
  shows "is_command_type (packetType p) \<Longrightarrow> admission_of p (stream_of (packetType p) h') = Admitted"
proof -
  let ?t = "if packetType p = Command then Ack else AckLow"
  assume "is_command_type (packetType p)"
  with assms have "admission_of p (stream_of (packetType p) h) = Admitted \<and>
      h' = snd (sendAck env (pk_id p) ?t dummy now h)"
    by (auto simp: handleCommandWindowAndAck_def Let_def then_do_cases split: admission.splits sum.splits)
  moreover have "stream_of (packetType p) (snd (sendAck env (pk_id p) ?t dummy now h)) =
      stream_of (packetType p) h"
    by (rule stream_of_receiving) simp
  ultimately show ?thesis by simp
qed

lemma receiving_window_and_ack [simp]:
  "receiving (snd (handleCommandWindowAndAck env p dummy now h)) = receiving h"
  by (simp add: handleCommandWindowAndAck_def Let_def then_do_cases split: admission.split sum.split)

lemma window_and_ack_not_Hangs: "fst (handleCommandWindowAndAck env p dummy now h) \<noteq> Inl Hangs"
  using sendPacketRaw_not_Hangs
  by (auto simp: handleCommandWindowAndAck_def Let_def then_do_cases sendAck_def split: admission.split sum.split)

lemma handle_decrypted_inv:
  assumes "handler_inv h" "pk_id p < 65536"
  shows "handler_inv (snd (handle_decrypted env len p dummy now h)) \<and>
    fst (handle_decrypted env len p dummy now h) \<noteq> Inl Hangs"
proof -
  let ?h1 = "advanceReceiveGeneration (packetType p) (pk_id p) h"
  let ?h3 = "note_pong p (?h1\<lparr>lastMessageReceived := now,
    h_traffic := recordReceived (packetType p) len (receivedAt p) (h_traffic ?h1)\<rparr>)"
  have "handler_inv (?h1\<lparr>lastMessageReceived := now, h_traffic := tr\<rparr>) = handler_inv ?h1" for tr
    by (simp add: handler_inv_def)
  then have h3: "handler_inv ?h3" using assms(1) by simp
  show ?thesis
  proof (cases "packetType p = Ping")
    case True
    have "handler_inv (snd (sendPong env (pk_id p) dummy now ?h3)) = handler_inv ?h3"
      by (rule handler_inv_cong) simp
    with True h3 sendPacketRaw_not_Hangs show ?thesis
      by (simp add: handle_decrypted_def Let_def sendPong_def)
  next
    case False
    obtain r h4 where w: "handleCommandWindowAndAck env p dummy now ?h3 = (r, h4)" by fastforce
    have h4: "handler_inv h4"
      using h3 handler_inv_cong[OF receiving_window_and_ack[of env p dummy now ?h3]] w by simp
    have nr: "r \<noteq> Inl Hangs" using window_and_ack_not_Hangs[of env p dummy now ?h3] w by simp
    show ?thesis
    proof (cases "r = Inr True")
      case True
      from handlePacketQueue_ok[OF h4 assms(2) handleCommandWindowAndAck_taken[OF w[unfolded True]]]
      obtain h5 where "handlePacketQueue p h4 = (Inr (), h5)" "handler_inv h5" by blast
      with False w True show ?thesis by (simp add: handle_decrypted_def Let_def)
    next
      case other: False
      with False w h4 nr show ?thesis by (cases r) (auto simp: handle_decrypted_def Let_def)
    qed
  qed
qed

lemma handler_inv_set:
  "handler_inv (h\<lparr>h_crypt := c\<rparr>) = handler_inv h"
  "handler_inv (h\<lparr>h_crypt := c, dummyCommandIDs := ids\<rparr>) = handler_inv h"
  "handler_inv (h\<lparr>h_clientID := i\<rparr>) = handler_inv h"
  "handler_inv (h\<lparr>initPacketCheck := ip\<rparr>) = handler_inv h"
  by (simp_all add: handler_inv_def)

lemma handler_inv_decrypt [simp]:
  "handler_inv (snd (decryptPacketData env p hdr ct tag h)) = handler_inv h"
  by (simp add: decryptPacketData_def Let_def handler_inv_set split: prod.split sum.split)

lemma parseS2CHeader_id: "parseS2CHeader hdr = Some (i, t) \<Longrightarrow> i < 65536"
  using be_val_less[of "take 2 hdr"]
  by (auto simp: parseS2CHeader_def min_def split: if_splits)

lemma raw_packet_id: "raw_packet raw received h = Some p \<Longrightarrow> pk_id p < 65536"
  using parseS2CHeader_id[of "raw_header raw"]
  by (auto simp: raw_packet_def Let_def split: if_splits option.splits)

lemma handleRawPacket_inv:
  assumes "handler_inv h"
  shows "handler_inv (snd (handleRawPacket env raw received now h)) \<and>
    fst (handleRawPacket env raw received now h) \<noteq> Inl Hangs"
proof (cases "raw_packet raw received h")
  case (Some p)
  obtain r h1 where d: "decryptPacketData env p (raw_header raw) (drop (TAG_SIZE + 3) raw)
      (take TAG_SIZE raw) h = (r, h1)"
    by fastforce
  have h1: "handler_inv h1"
    using assms handler_inv_decrypt[of env p "raw_header raw" "drop (TAG_SIZE + 3) raw" "take TAG_SIZE raw" h] d
    by simp
  have "pk_id (p\<lparr>pk_data := pt\<rparr>) < 65536" for pt using raw_packet_id[OF Some] by simp
  from handle_decrypted_inv[OF h1 this] Some d h1 show ?thesis
    by (simp add: handleRawPacket_def split: option.split)
qed (use assms in \<open>simp add: handleRawPacket_def\<close>)

end
