(* ===== verification/Handler_Closing.thy ===== *)
theory Handler_Closing
  imports Handler_Facts
begin

text \<open>
  The life of a packet handler: the steps it can take between two turns of the event loop, the
  invariants of every state they reach, and closing, after which nothing more is sent and
  \<open>onClosed\<close> is not called again.
\<close>

section \<open>Closing\<close>

definition is_closed_event :: "handler_event \<Rightarrow> bool" where
  "is_closed_event e \<longleftrightarrow> (case e of Closed _ \<Rightarrow> True | _ \<Rightarrow> False)"

definition is_datagram :: "handler_event \<Rightarrow> bool" where
  "is_datagram e \<longleftrightarrow> (case e of Datagram _ \<Rightarrow> True | _ \<Rightarrow> False)"

definition closings :: "handler \<Rightarrow> nat" where
  "closings h = length (filter is_closed_event (events h))"

definition sent_datagrams :: "handler \<Rightarrow> handler_event list" where
  "sent_datagrams h = filter is_datagram (events h)"

definition close_ok :: "handler \<Rightarrow> bool" where
  "close_ok h \<longleftrightarrow> closings h \<le> (if h_closed h then 1 else 0) \<and> (h_closed h \<longrightarrow> \<not> h_conn h)"

text \<open>What every operation does to a well-behaved handler; \<open>lawful\<close> composes.\<close>

definition lawful :: "handler \<Rightarrow> handler \<Rightarrow> bool" where
  "lawful h h' \<longleftrightarrow> (close_ok h \<longrightarrow>
     close_ok h' \<and> (h_closed h \<longrightarrow> h_closed h' \<and> sent_datagrams h' = sent_datagrams h))"

lemma lawful_refl [simp]: "lawful h h"
  by (simp add: lawful_def)

lemma lawful_trans [trans]: "lawful h h' \<Longrightarrow> lawful h' h'' \<Longrightarrow> lawful h h''"
  by (auto simp: lawful_def)

definition outward :: "handler \<Rightarrow> handler_event list \<times> bool \<times> bool" where
  "outward h = (events h, h_closed h, h_conn h)"

lemma lawful_outward: "outward h1 = outward h2 \<Longrightarrow> lawful h h1 = lawful h h2"
  by (simp add: lawful_def outward_def close_ok_def closings_def sent_datagrams_def)

lemma outward_lawful: "outward h' = outward h \<Longrightarrow> lawful h h'"
  using lawful_outward[of h' h h] by simp

lemma lawful_close: "lawful h (close h)"
  by (auto simp: lawful_def close_def close_ok_def closings_def sent_datagrams_def emit_def Let_def
      is_closed_event_def is_datagram_def)

lemma lawful_triggerClose: "lawful h (triggerClose err h)"
  by (auto simp: lawful_def triggerClose_def close_def close_ok_def closings_def sent_datagrams_def
      emit_def Let_def is_closed_event_def is_datagram_def)

lemma lawful_deliver: "lawful h (deliver ps h)"
  by (auto simp: lawful_def deliver_def close_ok_def closings_def sent_datagrams_def filter_empty_conv
      is_closed_event_def is_datagram_def)

lemma lawful_write: "lawful h (write_datagram env d now h)"
proof -
  have "lawful h (triggerClose r (h\<lparr>h_traffic := t\<rparr>))" for r t
    using lawful_trans[OF outward_lawful lawful_triggerClose] by (simp add: outward_def)
  moreover have "lawful h (emit (Datagram d) (h\<lparr>h_traffic := t\<rparr>))" if "h_conn h" for t
    using that by (auto simp: lawful_def emit_def close_ok_def closings_def is_closed_event_def)
  moreover have "lawful h (emit (Datagram d) h)" if "h_conn h"
    using that by (auto simp: lawful_def emit_def close_ok_def closings_def is_closed_event_def)
  ultimately show ?thesis by (simp add: write_datagram_def Let_def lawful_triggerClose)
qed

lemma outward_bump [simp]: "outward (bump_counter t h) = outward h"
  by (simp add: bump_counter_def Let_def outward_def)

lemma outward_nextPacketIdentity [simp]: "outward (snd (nextPacketIdentity t h)) = outward h"
proof -
  have "outward (h\<lparr>sendWindowCommand := w\<rparr>) = outward h"
    "outward (h\<lparr>sendWindowCommandLow := w\<rparr>) = outward h" for w h
    by (simp_all add: outward_def)
  then show ?thesis by (simp add: nextPacketIdentity_def Let_def)
qed

lemma outward_simps [simp]:
  "outward (h\<lparr>h_crypt := c\<rparr>) = outward h"
  "outward (h\<lparr>dummyCommandIDs := ids\<rparr>) = outward h"
  "outward (h\<lparr>pingsSent := ps\<rparr>) = outward h"
  "outward (h\<lparr>ackManager := am\<rparr>) = outward h"
  "outward (h\<lparr>initPacketCheck := ip\<rparr>) = outward h"
  "outward (h\<lparr>resends := n\<rparr>) = outward h"
  "outward (h\<lparr>h_timers := b\<rparr>) = outward h"
  "outward (h\<lparr>h_clientID := i\<rparr>) = outward h"
  "outward (trackResend t p rp h) = outward h"
  "outward (put_stream t r h) = outward h"
  "outward (note_pong p h) = outward h"
  "outward (updatePostReceiveState p h) = outward h"
  "outward (advanceReceiveGeneration t i h) = outward h"
  by (auto simp: outward_def trackResend_def put_stream_def note_pong_def updatePostReceiveState_def
      advanceReceiveGeneration_def Let_def split: option.split packet_type.split)

lemma lawful_set:
  "outward h' = outward h \<Longrightarrow> lawful h (write_datagram env d now h')"
  using lawful_trans[OF outward_lawful lawful_write] by blast

lemma lawful_sendPacketRaw: "lawful h (snd (sendPacketRaw env t d fl dummy now h))"
proof -
  obtain i g h1 where n: "nextPacketIdentity t h = ((i, g), h1)" by (metis prod.exhaust)
  then have h1: "outward h1 = outward h" using outward_nextPacketIdentity[of t h] by simp
  then have *: "lawful h (write_datagram env x now (h1\<lparr>h_crypt := c\<rparr>))" for x c
    by (intro lawful_set) simp
  show ?thesis
    by (auto simp: sendPacketRaw_def n Let_def outward_lawful[OF h1] lawful_outward[OF outward_simps(9)]
        lawful_outward[OF outward_simps(2)] intro!: * split: sum.split prod.split)
qed

lemma lawful_send_blocks: "lawful h (snd (send_blocks env t bs dummy now h))"
proof (induction bs arbitrary: h)
  case (Cons b bs)
  show ?case
    using lawful_trans[OF lawful_sendPacketRaw Cons.IH] lawful_sendPacketRaw
    by (auto simp: then_do_cases split: sum.split)
qed simp

lemma lawful_sendPacket: "lawful h (snd (sendPacket env t d fl now h))"
  by (simp add: sendPacket_def Let_def lawful_send_blocks lawful_sendPacketRaw)

lemma lawful_voice:
  "lawful h (sendVoicePacket env d codec now h)" "lawful h (sendWhisperPayload env d fl now h)"
  by (simp_all add: sendVoicePacket_def sendWhisperPayload_def Let_def lawful_set)

lemma lawful_doResend: "lawful h (snd (snd (doResend env rp now h)))"
  by (auto simp: doResend_def Let_def outward_lawful intro!: lawful_set split: sum.split prod.split)

lemma lawful_resend_each: "lawful h (snd (resend_each env now es h))"
proof (induction es arbitrary: h)
  case (Cons e es)
  obtain rp' r h1 where d: "doResend env (snd e) now h = (rp', r, h1)" by (metis prod.exhaust)
  let ?h2 = "h1\<lparr>ackManager := AList.update (fst e) rp' (ackManager h1)\<rparr>"
  have "lawful h h1" using lawful_doResend[of h env "snd e" now] d by simp
  then have h2: "lawful h ?h2" using lawful_outward[OF outward_simps(4)] by blast
  have "lawful h (triggerClose Connection_Timeout (h\<lparr>ackManager := am\<rparr>))" for am
    using lawful_trans[OF outward_lawful[OF outward_simps(4)] lawful_triggerClose] .
  with h2 lawful_trans[OF h2 Cons.IH] show ?case by (auto simp: d then_do_cases split: sum.split)
qed simp

lemma lawful_checkResends: "lawful h (snd (checkResends env now h))"
proof (cases "initPacketCheck h")
  case None
  then show ?thesis by (simp add: checkResends_def lawful_triggerClose lawful_resend_each)
next
  case (Some rp)
  obtain rp' r h1 where d: "doResend env rp now h = (rp', r, h1)" by (metis prod.exhaust)
  have "lawful h h1" using lawful_doResend[of h env rp now] d by simp
  then have "lawful h (h1\<lparr>initPacketCheck := Some rp'\<rparr>)" using lawful_outward[OF outward_simps(5)] by blast
  with lawful_trans[OF this lawful_resend_each] Some d show ?thesis
    by (auto simp: checkResends_def then_do_cases lawful_triggerClose split: sum.split)
qed

lemma lawful_ping_tick: "lawful h (snd (ping_tick env now h))"
  using lawful_trans[OF outward_lawful[OF outward_simps(3)] lawful_sendPacket]
  by (simp add: ping_tick_def Let_def)

lemma lawful_start: "lawful h (snd (start env d now h))"
proof (cases "h_closed h")
  case True
  then show ?thesis
    by (simp add: start_def lawful_def emit_def close_ok_def closings_def sent_datagrams_def
        is_closed_event_def is_datagram_def)
next
  case False
  let ?h1 = "h\<lparr>h_conn := True, lastMessageReceived := now,
    packetCounter := (packetCounter h)(Command := 1, Init1 := 101)\<rparr>"
  have h1: "lawful h ?h1" using False by (simp add: lawful_def close_ok_def closings_def)
  have "lawful h ((snd (sendPacketRaw env Init1 x 0 dmy now ?h1))\<lparr>h_timers := True\<rparr>)" for x dmy
    using lawful_trans[OF h1 lawful_sendPacketRaw] lawful_outward[OF outward_simps(7)] by blast
  moreover have "lawful h (?h1\<lparr>h_timers := True\<rparr>)"
    using h1 lawful_outward[OF outward_simps(7)] by blast
  ultimately show ?thesis using False lawful_trans[OF h1 lawful_sendPacketRaw]
    by (auto simp: start_def Let_def then_do_cases split: option.split sum.split)
qed

lemma lawful_acks:
  "lawful h (snd (sendAck env i t dummy now h))" "lawful h (snd (sendPong env i dummy now h))"
  by (simp_all add: sendAck_def sendPong_def lawful_sendPacketRaw)

lemma lawful_window_and_ack: "lawful h (snd (handleCommandWindowAndAck env p dummy now h))"
  by (simp add: handleCommandWindowAndAck_def Let_def then_do_cases lawful_acks
      split: admission.split sum.split)

lemma lawful_handlePacketQueue: "lawful h (snd (handlePacketQueue p h))"
  using lawful_trans[OF outward_lawful[OF outward_simps(10)] lawful_deliver]
  by (auto simp: handlePacketQueue_def Let_def lawful_deliver split: option.split)

lemma lawful_handle_decrypted: "lawful h (snd (handle_decrypted env len p dummy now h))"
proof -
  let ?h1 = "advanceReceiveGeneration (packetType p) (pk_id p) h"
  let ?h3 = "note_pong p (?h1\<lparr>lastMessageReceived := now,
    h_traffic := recordReceived (packetType p) len (receivedAt p) (h_traffic ?h1)\<rparr>)"
  have "outward (h'\<lparr>lastMessageReceived := t, h_traffic := tr\<rparr>) = outward h'" for h' t tr
    by (simp add: outward_def)
  then have "outward ?h3 = outward ?h1" by simp
  then have h3: "lawful h ?h3" by (intro outward_lawful) simp
  obtain r h4 where w: "handleCommandWindowAndAck env p dummy now ?h3 = (r, h4)" by fastforce
  have h4: "lawful h h4" using lawful_trans[OF h3 lawful_window_and_ack] w by (metis snd_conv)
  have h5: "lawful h (snd (handlePacketQueue p h4))" by (rule lawful_trans[OF h4 lawful_handlePacketQueue])
  have "lawful h (updatePostReceiveState p (snd (handlePacketQueue p h4)))"
    using h5 lawful_outward[OF outward_simps(12)] by blast
  with h4 h5 lawful_trans[OF h3 lawful_acks(2)] w show ?thesis
    by (auto simp: handle_decrypted_def Let_def then_do_cases split: sum.split)
qed

lemma outward_decrypt [simp]: "outward (snd (decryptPacketData env p hdr ct tag h)) = outward h"
  by (simp add: decryptPacketData_def Let_def split: prod.split sum.split)

lemma lawful_handleRawPacket: "lawful h (snd (handleRawPacket env raw received now h))"
proof -
  have "lawful h (snd (decryptPacketData env p hdr ct tag h))" for p hdr ct tag
    by (rule outward_lawful) simp
  then have *: "decryptPacketData env p hdr ct tag h = (r, h1) \<Longrightarrow> lawful h h1" for p hdr ct tag r h1
    by (metis snd_conv)
  show ?thesis
    by (auto simp: handleRawPacket_def dest!: *
        intro: lawful_trans[OF _ lawful_handle_decrypted] split: option.split prod.split)
qed

section \<open>Steps\<close>

text \<open>
  What can happen to a handler: a socket callback, a tick of a running timer, a call by its
  owner, or the handshake changing the encryption state it shares, which never goes back to
  being incomplete.
\<close>

inductive handler_step :: "environment \<Rightarrow> handler \<Rightarrow> handler \<Rightarrow> bool" for env where
  message: "handler_step env h (on_message env raw received now h)"
| socket_error: "handler_step env h (on_socket_error h)"
| socket_close: "handler_step env h (on_socket_close h)"
| ping: "h_timers h \<Longrightarrow> handler_step env h (snd (ping_tick env now h))"
| resend: "h_timers h \<Longrightarrow> handler_step env h (snd (checkResends env now h))"
| send: "handler_step env h (snd (sendPacket env t d fl now h))"
| voice: "handler_step env h (sendVoicePacket env d codec now h)"
| whisper: "handler_step env h (snd (sendWhisperPacket env d cs codec chs now h))"
| group: "handler_step env h (snd (sendGroupWhisperPacket env d g sc i codec now h))"
| close: "handler_step env h (close h)"
| start: "handler_step env h (snd (start env d now h))"
| client_id: "handler_step env h (setClientID i h)"
| final_ack: "handler_step env h (receivedFinalInitAck h)"
| handshake: "(cryptoInitComplete (h_crypt h) \<Longrightarrow> cryptoInitComplete c) \<Longrightarrow>
    handler_step env h (h\<lparr>h_crypt := c\<rparr>)"

lemma lawful_step: "handler_step env h h' \<Longrightarrow> lawful h h'"
proof (induction rule: handler_step.induct)
  case (message h raw received now)
  then show ?case by (simp add: on_message_def lawful_handleRawPacket)
next
  case (whisper h d cs codec chs now)
  then show ?case by (simp add: sendWhisperPacket_def lawful_voice)
next
  case (group h d g sc i codec now)
  then show ?case by (simp add: sendGroupWhisperPacket_def lawful_voice)
qed (simp_all add: on_socket_error_def on_socket_close_def lawful_triggerClose lawful_ping_tick
    lawful_checkResends lawful_sendPacket lawful_voice lawful_close lawful_start setClientID_def
    receivedFinalInitAck_def outward_lawful)

lemma receiving_start:
  "receiving (snd (start env d now h)) = receiving (h\<lparr>lastMessageReceived :=
     lastMessageReceived (snd (start env d now h))\<rparr>)"
proof (cases "h_closed h")
  case True
  then show ?thesis by (simp add: start_def) (simp add: receiving_def emit_def)
next
  case False
  let ?h1 = "h\<lparr>h_conn := True, lastMessageReceived := now,
    packetCounter := (packetCounter h)(Command := 1, Init1 := 101)\<rparr>"
  have *: "receiving (snd (start env d now h)) = receiving ?h1"
    using False by (auto simp: start_def Let_def then_do_cases split: option.split sum.split)
  then have "lastMessageReceived (snd (start env d now h)) = now" by (simp add: receiving_def)
  then show ?thesis unfolding * by (simp add: receiving_def)
qed

lemma handler_inv_step: "handler_step env h h' \<Longrightarrow> handler_inv h \<Longrightarrow> handler_inv h'"
proof (induction rule: handler_step.induct)
  case (message h raw received now)
  then show ?case using handleRawPacket_inv[of h env raw received now] by (simp add: on_message_def)
next
  case (start h d now)
  then show ?case using handler_inv_cong[OF receiving_start, of env d now h]
    by (simp add: handler_inv_def)
qed (simp_all add: handler_inv_set setClientID_def receivedFinalInitAck_def on_socket_error_def
    on_socket_close_def handler_inv_cong[OF receiving_triggerClose] handler_inv_cong[OF receiving_ping_tick]
    handler_inv_cong[OF receiving_checkResends] handler_inv_cong[OF receiving_sendPacket]
    handler_inv_cong[OF receiving_voice(1)] handler_inv_cong[OF receiving_whisper(1)]
    handler_inv_cong[OF receiving_whisper(2)] handler_inv_cong[OF receiving_close])

definition reachable :: "environment \<Rightarrow> handler \<Rightarrow> bool" where
  "reachable env h \<longleftrightarrow> (\<exists>c now. (handler_step env)\<^sup>*\<^sup>* (new_handler c now) h)"

lemma reachable_inv:
  assumes "reachable env h"
  shows "handler_inv h \<and> close_ok h"
proof -
  obtain c now where "(handler_step env)\<^sup>*\<^sup>* (new_handler c now) h"
    using assms by (auto simp: reachable_def)
  then show ?thesis
  proof induction
    case base
    show ?case using handler_inv_new by (simp add: close_ok_def closings_def new_handler_def)
  next
    case (step h h')
    then show ?case using handler_inv_step lawful_step by (auto simp: lawful_def)
  qed
qed

lemma closed_stays_silent:
  assumes "(handler_step env)\<^sup>*\<^sup>* h h'" "close_ok h" "h_closed h"
  shows "h_closed h' \<and> sent_datagrams h' = sent_datagrams h \<and> close_ok h'"
  using assms by induction (auto dest!: lawful_step simp: lawful_def)

end
