(* ===== verification/Handler_Packets.thy ===== *)
theory Handler_Packets
  imports Packet_Handler
begin

text \<open>
  Facts about the packets the handler sends: their numbers, their blocks, their resends, and what
  is left running when the first send fails.
\<close>

section \<open>Numbers\<close>

text \<open>The number of the next packet of a type, of which id and generation are the two halves.\<close>

definition sent_number :: "handler \<Rightarrow> packet_type \<Rightarrow> nat" where
  "sent_number h t = generationCounter h t * 65536 + packetCounter h t"

definition counters_ok :: "handler \<Rightarrow> bool" where
  "counters_ok h \<longleftrightarrow> (\<forall>t. packetCounter h t < 65536 \<and> generationCounter h t < 2 ^ 32)"

lemma counters_ok_new: "counters_ok (new_handler c now)"
  by (simp add: counters_ok_def new_handler_def)

lemma counters_ok_bump: "counters_ok h \<Longrightarrow> counters_ok (bump_counter t h)"
  by (auto simp: counters_ok_def bump_counter_def Let_def)

lemma bump_counter_number:
  assumes "counters_ok h" "sent_number h t + 1 < 2 ^ 48"
  shows "sent_number (bump_counter t h) u = sent_number h u + (if u = t then 1 else 0)"
proof (cases "(packetCounter h t + 1) mod 65536 = 0")
  case True
  have p: "packetCounter h t < 65536" using assms(1) by (simp add: counters_ok_def)
  with True have "packetCounter h t = 65535" by (auto simp: mod_Suc split: if_splits)
  moreover from this assms(2) have "generationCounter h t + 1 < 2 ^ 32" by (simp add: sent_number_def)
  ultimately show ?thesis by (simp add: sent_number_def bump_counter_def Let_def)
next
  case False
  have "packetCounter h t < 65536" using assms(1) by (simp add: counters_ok_def)
  with False have "(packetCounter h t + 1) mod 65536 = packetCounter h t + 1"
    by (cases "packetCounter h t = 65535") auto
  with False show ?thesis by (simp add: sent_number_def bump_counter_def Let_def)
qed

definition number_of :: "nat \<times> nat \<Rightarrow> nat" where
  "number_of ident = snd ident * 65536 + fst ident"

lemma nextPacketIdentity_counters:
  "t \<noteq> Init1 \<Longrightarrow> packetCounter (snd (nextPacketIdentity t h)) = packetCounter (bump_counter t h) \<and>
     generationCounter (snd (nextPacketIdentity t h)) = generationCounter (bump_counter t h)"
  by (simp add: nextPacketIdentity_def Let_def)

lemma nextPacketIdentity_number:
  assumes "counters_ok h" "sent_number h t + 1 < 2 ^ 48" "t \<noteq> Init1"
  shows "number_of (fst (nextPacketIdentity t h)) = sent_number h t \<and>
    fst (fst (nextPacketIdentity t h)) = sent_number h t mod 65536 \<and>
    snd (fst (nextPacketIdentity t h)) = sent_number h t div 65536 \<and>
    sent_number (snd (nextPacketIdentity t h)) u = sent_number h u + (if u = t then 1 else 0) \<and>
    counters_ok (snd (nextPacketIdentity t h))"
proof -
  have "packetCounter h t < 65536" using assms(1) by (simp add: counters_ok_def)
  moreover have "fst (nextPacketIdentity t h) = (packetCounter h t, generationCounter h t)"
    by (simp add: nextPacketIdentity_def Let_def)
  ultimately show ?thesis
    using bump_counter_number[OF assms(1,2), of u] counters_ok_bump[OF assms(1), of t]
      nextPacketIdentity_counters[OF assms(3), of h]
    by (simp add: number_of_def sent_number_def counters_ok_def)
qed

text \<open>The type, id and generation of every packet of a sequence of sends.\<close>

primrec identities :: "packet_type list \<Rightarrow> handler \<Rightarrow> (packet_type \<times> nat \<times> nat) list" where
  "identities [] h = []"
| "identities (t # ts) h = (t, fst (nextPacketIdentity t h)) # identities ts (snd (nextPacketIdentity t h))"

lemma identities_later:
  assumes "counters_ok h" "Init1 \<notin> set ts" "\<forall>t. sent_number h t + length ts < 2 ^ 48"
    "(t, ident) \<in> set (identities ts h)"
  shows "sent_number h t \<le> number_of ident"
  using assms
proof (induction ts arbitrary: h)
  case (Cons u ts)
  have u: "u \<noteq> Init1" "sent_number h u + 1 < 2 ^ 48" using Cons.prems(2,3)
    by (auto dest!: spec[of _ u])
  note n = nextPacketIdentity_number[OF Cons.prems(1) u(2,1)]
  let ?h = "snd (nextPacketIdentity u h)"
  show ?case
  proof (cases "(t, ident) = (u, fst (nextPacketIdentity u h))")
    case True
    with n show ?thesis by simp
  next
    case False
    have "sent_number ?h v + length ts < 2 ^ 48" for v
      using n[of v] Cons.prems(3) by (auto dest!: spec[of _ v] split: if_splits)
    with Cons.IH[of ?h] n Cons.prems(2,4) False have "sent_number ?h t \<le> number_of ident" by auto
    with n[of t] show ?thesis by (auto split: if_splits)
  qed
qed simp

lemma identities_distinct:
  assumes "counters_ok h" "Init1 \<notin> set ts" "\<forall>t. sent_number h t + length ts < 2 ^ 48"
  shows "distinct (identities ts h)"
  using assms
proof (induction ts arbitrary: h)
  case (Cons u ts)
  have u: "u \<noteq> Init1" "sent_number h u + 1 < 2 ^ 48" using Cons.prems(2,3)
    by (auto dest!: spec[of _ u])
  note n = nextPacketIdentity_number[OF Cons.prems(1) u(2,1)]
  let ?h = "snd (nextPacketIdentity u h)"
  have b: "\<forall>v. sent_number ?h v + length ts < 2 ^ 48"
  proof
    fix v show "sent_number ?h v + length ts < 2 ^ 48"
      using n[of v] Cons.prems(3)[rule_format, of v] by (auto split: if_splits)
  qed
  have "(u, fst (nextPacketIdentity u h)) \<notin> set (identities ts ?h)"
    using identities_later[of ?h ts u "fst (nextPacketIdentity u h)"] b n[of u] Cons.prems(2) by auto
  with Cons.IH[of ?h] b n Cons.prems(2) show ?case by simp
qed simp

section \<open>The window acknowledgements are placed by\<close>

lemma position_advanceToExcluded:
  assumes "window_ok w" "position w \<le> n" "n < position w + win_mod w" "n + 1 < horizon w"
  shows "position (advanceToExcluded w (n mod win_mod w)) = n + 1"
proof -
  have m: "n mod win_mod w < win_mod w" using assms(1) by (simp add: window_ok_def)
  note d = move_dist_bounds[OF assms(1) m]
  obtain e where e: "n = position w + e" "e < win_mod w" using assms(2,3) by (metis add_less_cancel_left le_Suc_ex)
  define k where "k = nat (move_dist w (n mod win_mod w))"
  have k: "(position w + k) mod win_mod w = (position w + e) mod win_mod w" "k < win_mod w"
    using d e by (auto simp: k_def)
  have "k = e"
  proof (cases "k \<le> e")
    case True
    then have "win_mod w dvd (e - k)" using k(1) by (metis add_diff_cancel_left mod_eq_dvd_iff_nat nat_add_left_cancel_le)
    with e(2) True show ?thesis by (metis dvd_imp_le le_antisym less_imp_diff_less not_le zero_less_diff)
  next
    case False
    then have "win_mod w dvd (k - e)" using k(1) by (metis add_diff_cancel_left mod_eq_dvd_iff_nat nat_add_left_cancel_le nat_le_linear)
    with k(2) False show ?thesis by (metis dvd_imp_le less_imp_diff_less not_le zero_less_diff)
  qed
  then have "move_dist w (n mod win_mod w) + 1 = int (Suc e)" using d(1) by (simp add: k_def)
  then have "advanceToExcluded w (n mod win_mod w) = advance w (int (Suc e))"
    unfolding advanceToExcluded_def by (rule arg_cong)
  then show ?thesis using position_advance[OF assms(1), of "int (Suc e)"] e assms(4) by (simp del: of_nat_Suc)
qed

text \<open>
  The send window stands at the number of the next command. It starts at 0 where the commands
  start at 1, so before the first command it may be one behind.
\<close>

definition send_synced :: "handler \<Rightarrow> bool" where
  "send_synced h \<longleftrightarrow>
     (let w = sendWindowCommand h; n = sent_number h Command
      in window_ok w \<and> win_mod w = 65536 \<and> receiveWindow w = 1024 \<and>
         (position w = n \<or> position w = 0 \<and> n \<le> 1))"

lemma send_synced_new: "send_synced (new_handler c now)"
  by (simp add: send_synced_def new_handler_def sent_number_def window_ok_new new_window_def
      RECEIVE_PACKET_WINDOW_SIZE_def position_def window_ok_def Let_def)

lemma send_synced_next:
  assumes "send_synced h" "counters_ok h" "sent_number h Command + 1 < 2 ^ 48"
  shows "send_synced (snd (nextPacketIdentity Command h)) \<and>
    position (sendWindowCommand (snd (nextPacketIdentity Command h))) = sent_number h Command + 1"
proof -
  let ?w = "sendWindowCommand h" and ?n = "sent_number h Command"
  have w: "window_ok ?w" "win_mod ?w = 65536" "receiveWindow ?w = 1024" "position ?w \<le> ?n"
    "?n < position ?w + 65536"
    using assms(1) by (auto simp: send_synced_def Let_def)
  have id: "packetCounter h Command = ?n mod 65536"
    using assms(2) by (simp add: sent_number_def counters_ok_def)
  have "position (advanceToExcluded ?w (?n mod 65536)) = ?n + 1"
    using position_advanceToExcluded[OF w(1,4)] w assms(3) by (simp add: horizon_def)
  moreover have "sendWindowCommand (snd (nextPacketIdentity Command h)) = advanceToExcluded ?w (?n mod 65536)"
    by (simp add: nextPacketIdentity_def Let_def id bump_counter_def)
  ultimately show ?thesis
    using nextPacketIdentity_number[OF assms(2,3), of Command] w
    by (simp add: send_synced_def Let_def advanceToExcluded_def)
qed

text \<open>So the acknowledgement of a recent command names its generation.\<close>

lemma ack_generation:
  assumes "send_synced h" "n < sent_number h Command" "sent_number h Command \<le> n + 1024"
    "position (sendWindowCommand h) = sent_number h Command"
  shows "resolveGeneration h (n mod 65536) Ack = n div 65536"
  using place_id[of "sendWindowCommand h" n] assms
  by (simp add: send_synced_def Let_def resolveGeneration_def)

section \<open>Type bytes and flags\<close>

lemma flag_of_type_byte:
  assumes "t \<in> set named_types" "flag \<in> {Fragmented, NewProtocol, Compressed, Unencrypted}"
  shows "has_flag (p\<lparr>typeFlagged := type_byte t fl\<rparr>) flag \<longleftrightarrow> fl AND flag \<noteq> 0"
proof -
  have "type_byte t fl AND 0xf0 AND flag = (of_nat (type_code t) AND 0xf0 AND flag) OR (fl AND 0xf0 AND flag)"
    by (simp add: type_byte_def bit.conj_disj_distrib2)
  moreover have "of_nat (type_code t) AND 0xf0 AND flag = 0"
    using assms by (auto simp: named_types_def flag_defs)
  moreover have "(0xf0 :: byte) AND flag = flag" using assms(2) by (auto simp: flag_defs)
  ultimately show ?thesis by (simp add: has_flag_def packetFlags_def and.assoc)
qed

section \<open>Splitting\<close>

text \<open>The blocks of a split command, as the packets they are sent in.\<close>

definition block_packet :: "packet_type \<Rightarrow> packet \<Rightarrow> bytes \<times> byte \<Rightarrow> packet" where
  "block_packet t p b = p\<lparr>typeFlagged := type_byte t (snd b), pk_data := fst b\<rparr>"

lemma block_flag:
  assumes "t \<in> set named_types"
  shows "has_flag (block_packet t p (b, f)) Fragmented \<longleftrightarrow> f AND Fragmented \<noteq> 0"
  using flag_of_type_byte[OF assms, of Fragmented f p]
  by (simp add: block_packet_def has_flag_def packetFlags_def)

lemma split_blocks_Nil [simp]: "split_blocks fl first [] = []"
  by (subst split_blocks.simps) simp

lemma split_blocks_short:
  "d \<noteq> [] \<Longrightarrow> length d \<le> 487 \<Longrightarrow>
     split_blocks fl first d = [(d, if first then fl else fl OR Fragmented)]"
  by (subst split_blocks.simps) (simp add: Let_def)

lemma split_blocks_long:
  "487 < length d \<Longrightarrow>
     split_blocks fl first d =
       (take 487 d, if first then fl OR Fragmented else fl) # split_blocks fl False (drop 487 d)"
  by (subst split_blocks.simps) (auto simp: Let_def)

lemma split_blocks_data: "concat (map fst (split_blocks fl first d)) = d"
proof (induction fl first d rule: split_blocks.induct)
  case (1 fl first d)
  then show ?case by (subst split_blocks.simps) (auto simp: Let_def)
qed

lemma split_blocks_sizes: "b \<in> set (split_blocks fl first d) \<Longrightarrow> fst b \<noteq> [] \<and> length (fst b) \<le> 487"
proof (induction fl first d rule: split_blocks.induct)
  case (1 fl first d)
  from "1.prems" show ?case
    by (subst (asm) split_blocks.simps) (use 1 in \<open>auto simp: Let_def split: if_splits\<close>)
qed

lemma split_blocks_tail:
  assumes "d \<noteq> []" "fl AND Fragmented = 0" "t \<in> set named_types"
  shows "tail_shape (map (block_packet t p) (split_blocks fl False d))"
  using assms(1)
proof (induction "length d" arbitrary: d rule: less_induct)
  case less
  note flag = block_flag[OF assms(3)]
  have or: "(fl OR Fragmented) AND Fragmented \<noteq> 0"
    using assms(2) by (simp add: bit.conj_disj_distrib2 flag_defs)
  show ?case
  proof (cases "length d \<le> 487")
    case True
    with less.prems or flag show ?thesis by (simp add: split_blocks_short tail_shape_def)
  next
    case False
    then have "tail_shape (map (block_packet t p) (split_blocks fl False (drop 487 d)))"
      by (intro less.hyps) auto
    with False assms(2) flag show ?thesis by (auto simp: split_blocks_long tail_shape_def)
  qed
qed

text \<open>The receiver's rules put the blocks together to the data that was split.\<close>

lemma split_blocks_assemble:
  assumes "487 < length d" "length d \<le> MAX_REASSEMBLED_SIZE" "fl AND Fragmented = 0" "t \<in> set named_types"
  shows "whole (map (block_packet t p) (split_blocks fl True d)) \<and>
    map_option pk_data (assemble (map (block_packet t p) (split_blocks fl True d))) = Some d"
proof -
  let ?ps = "map (block_packet t p) (split_blocks fl True d)"
  have or: "(fl OR Fragmented) AND Fragmented \<noteq> 0"
    using assms(3) by (simp add: bit.conj_disj_distrib2 flag_defs)
  note flag = block_flag[OF assms(4)]
  have ps: "?ps = block_packet t p (take 487 d, fl OR Fragmented) #
      map (block_packet t p) (split_blocks fl False (drop 487 d))"
    using assms(1) by (simp add: split_blocks_long)
  have "tail_shape (map (block_packet t p) (split_blocks fl False (drop 487 d)))"
    using assms by (intro split_blocks_tail) auto
  then have whole: "whole ?ps" unfolding ps whole_def using flag or by simp
  have cat: "concat (map pk_data ?ps) = d"
    using split_blocks_data[of fl True d] by (simp add: block_packet_def o_def)
  have "sum_list (map data_length ?ps) = length (concat (map pk_data ?ps))"
    by (simp add: length_concat data_length_def o_def)
  then have "sum_list (map data_length ?ps) \<le> MAX_REASSEMBLED_SIZE" unfolding cat using assms(2) by simp
  from assemble_fragments[OF ps _ this] flag or cat whole show ?thesis by simp
qed

section \<open>Sending again\<close>

text \<open>The datagram of a packet under a key, as the first send and every resend build it.\<close>

definition sealed ::
  "environment \<Rightarrow> bool \<Rightarrow> packet \<Rightarrow> crypt_state \<Rightarrow> crypt_error + bytes" where
  "sealed env dummy p c =
     map_sum id (\<lambda>((ciphertext, tag), _). datagram tag (buildC2SHeader p) ciphertext)
       (crypt_encrypt (env_aes env) (env_sha256 env) (type_code (packetType p)) (pk_id p) (generationID p)
          (buildC2SHeader p) (pk_data p) dummy (isUnencrypted p) c)"

text \<open>Two states of the encryption that seal alike: the same IV and signature.\<close>

definition same_keys :: "crypt_state \<Rightarrow> crypt_state \<Rightarrow> bool" where
  "same_keys c c' \<longleftrightarrow> ivStruct c = ivStruct c' \<and> fakeSignature c = fakeSignature c' \<and>
     cryptoInitComplete c = cryptoInitComplete c'"

lemma sealed_key_nonce:
  assumes "cache_ok (env_sha256 env) c" "generationID p < 2 ^ 32"
    "packetType p \<noteq> Init1" "type_code (packetType p) \<noteq> INIT1_PACKET_TYPE" "\<not> isUnencrypted p"
  shows "sealed env dummy p c =
    bind_result (key_nonce_of (env_sha256 env) False (pk_id p) (generationID p)
        (type_code (packetType p)) dummy c)
      (\<lambda>(key, nonce). case new_EAX key of Inl e \<Rightarrow> Inl (EaxError e)
         | Inr k \<Rightarrow> Inr (let (ct, tag) = eax_encrypt (env_aes env) k nonce (buildC2SHeader p) (pk_data p)
                         in datagram tag (buildC2SHeader p) ct))"
  unfolding getKeyNonce_transparent[OF assms(1,2), symmetric]
  using assms(4,5)
  by (cases "getKeyNonce (env_sha256 env) False (pk_id p) (generationID p) (type_code (packetType p)) dummy c")
    (auto simp: sealed_def crypt_encrypt_def split: sum.splits prod.splits)

text \<open>
  A packet sealed under the dummy key is sealed the same whatever the encryption has become; one
  under the session key, while the IV is the same.
\<close>

lemma sealed_stable:
  assumes "cache_ok (env_sha256 env) c" "cache_ok (env_sha256 env) c'" "generationID p < 2 ^ 32"
    and "dummy \<and> \<not> isUnencrypted p \<or> same_keys c c'"
  shows "sealed env dummy p c' = sealed env dummy p c"
proof (cases "type_code (packetType p) = INIT1_PACKET_TYPE \<or> isUnencrypted p")
  case True
  with assms(4) show ?thesis by (auto simp: sealed_def crypt_encrypt_def same_keys_def)
next
  case False
  then have t: "packetType p \<noteq> Init1" by (auto simp: INIT1_PACKET_TYPE_def)
  have "key_nonce_of (env_sha256 env) False (pk_id p) (generationID p) (type_code (packetType p)) dummy c' =
      key_nonce_of (env_sha256 env) False (pk_id p) (generationID p) (type_code (packetType p)) dummy c"
    using assms(4) by (auto simp: key_nonce_of_def same_keys_def)
  with False t assms(1-3) show ?thesis by (simp add: sealed_key_nonce)
qed

text \<open>What the first send writes and what it tracks.\<close>

lemma sendPacketRaw_tracks:
  assumes "t = Command \<or> t = CommandLow" "fl AND 0x0f = 0"
    and "sendPacketRaw env t d fl dummy now h = (Inr (), h')"
  shows "\<exists>rp h1. map_of (ackManager h') (ack_key t (packetCounter h t)) = Some rp \<and>
    pk_id (rp_packet rp) = packetCounter h t \<and> pk_data (rp_packet rp) = d \<and> rp_dummy rp = dummy \<and>
    generationID (rp_packet rp) = generationCounter h t \<and>
    lastSend rp = now \<and> nextInterval rp = 500 \<and> retryCount rp = 0 \<and>
    (\<exists>bytes. sealed env dummy (rp_packet rp) (h_crypt h) = Inr bytes \<and>
       ackManager h1 = ackManager h \<and> h_conn h1 = h_conn h \<and> events h1 = events h \<and>
       events h' = events (write_datagram env bytes now h1))"
proof -
  obtain i g h0 where n: "nextPacketIdentity t h = ((i, g), h0)" by (metis prod.exhaust)
  have i: "i = packetCounter h t" "g = generationCounter h t"
    using n assms(1) by (auto simp: nextPacketIdentity_def Let_def)
  have h0: "h_crypt h0 = h_crypt h" "ackManager h0 = ackManager h" "h_conn h0 = h_conn h" "events h0 = events h"
    using n assms(1) by (auto simp: nextPacketIdentity_def Let_def bump_counter_def)
  let ?fl = "applyProtocolFlags t fl"
  define p where "p = \<lparr>typeFlagged = type_byte t ?fl, pk_id = i, clientID = h_clientID h0,
    generationID = g, pk_data = d, receivedAt = 0\<rparr>"
  have hn: "high_nibble ?fl" using assms(1,2)
    by (auto simp: high_nibble_def applyProtocolFlags_def bit.conj_disj_distrib2 flag_defs)
  have t: "t \<in> set named_types" using assms(1) by (auto simp: named_types_def)
  have pt: "packetType p = t" using packetTypeOfByte_type_byte[OF hn t] by (simp add: p_def packetType_def)
  have un: "isUnencrypted p = (?fl AND Unencrypted \<noteq> 0)"
    using flag_of_type_byte[OF t, of Unencrypted ?fl p]
    by (simp add: isUnencrypted_def p_def)
  let ?enc = "crypt_encrypt (env_aes env) (env_sha256 env) (type_code t) i g (buildC2SHeader p) d dummy
      (?fl AND Unencrypted \<noteq> 0) (h_crypt h)"
  obtain ct tag c where e: "?enc = Inr ((ct, tag), c)"
    using assms(3) by (cases ?enc) (auto simp: sendPacketRaw_def n Let_def p_def[symmetric] h0)
  define rp where "rp = \<lparr>rp_packet = p, firstSend = now, lastSend = now, retryCount = 0,
    nextInterval = RESEND_BASE_INTERVAL_MS, rp_dummy = dummy\<rparr>"
  let ?h1 = "h0\<lparr>h_crypt := c\<rparr>"
  let ?w = "write_datagram env (datagram tag (buildC2SHeader p) ct) now ?h1"
  have h': "h' = trackResend t p rp (if dummy \<and> t = Command
      then ?w\<lparr>dummyCommandIDs := List.insert i (dummyCommandIDs ?w)\<rparr> else ?w)"
    using assms(3) e by (simp add: sendPacketRaw_def n Let_def p_def[symmetric] h0 rp_def)
  have s: "sealed env dummy p (h_crypt h) = Inr (datagram tag (buildC2SHeader p) ct)"
    using e pt un by (simp add: sealed_def) (simp add: p_def)
  have "map_of (ackManager h') (ack_key t (packetCounter h t)) = Some rp"
    using assms(1) by (auto simp: h' trackResend_def update_conv' p_def i)
  moreover have "events h' = events ?w"
    using assms(1) by (auto simp: h' trackResend_def)
  ultimately show ?thesis
    using s h0 by (intro exI[of _ rp] exI[of _ ?h1])
      (simp add: rp_def p_def[symmetric], simp add: p_def i RESEND_BASE_INTERVAL_MS_def)
qed

lemma doResend_writes:
  assumes "nextInterval rp \<le> now - lastSend rp" "sealed env (rp_dummy rp) (rp_packet rp) (h_crypt h) = Inr bytes"
  shows "\<exists>h1. doResend env rp now h =
      (rp\<lparr>lastSend := now, retryCount := retryCount rp + 1,
          nextInterval := min (nextInterval rp * 2) MAX_RETRY_INTERVAL_MS\<rparr>, Inr (),
       write_datagram env bytes now h1) \<and>
    h_conn h1 = h_conn h \<and> events h1 = events h \<and> resends h1 = resends h + 1"
  using assms
  by (auto simp: doResend_def sealed_def Let_def split: sum.splits prod.splits)

section \<open>Starting on a socket that throws\<close>

text \<open>
  A send that throws closes the handler at once. In \<open>start\<close> the timers are made after the first
  send, whatever became of it, and a closed handler's \<open>close\<close> does nothing.
\<close>

lemma start_timers_survive:
  assumes "\<not> h_closed h" "env_send_throws env = (\<lambda>_. True)"
  shows "h_closed (snd (start env (Some d) now h)) \<and> h_timers (snd (start env (Some d) now h)) \<and>
    close (snd (start env (Some d) now h)) = snd (start env (Some d) now h)"
proof -
  let ?h1 = "h\<lparr>h_conn := True, lastMessageReceived := now,
    packetCounter := (packetCounter h)(Command := 1, Init1 := 101)\<rparr>"
  let ?h2 = "snd (start env (Some d) now h)"
  have "h_closed ?h2 \<and> h_timers ?h2"
    using assms
    by (simp add: start_def Let_def sendPacketRaw_def nextPacketIdentity_def crypt_encrypt_def
        INIT1_PACKET_TYPE_def write_datagram_def triggerClose_def close_def emit_def trackResend_def
        applyProtocolFlags_def)
  then show ?thesis by (simp add: close_def)
qed

end
