(* ===== verification/Handler_Receipt.thy ===== *)
theory Handler_Receipt
  imports Packet_Handler
begin

text \<open>
  Which datagrams the packet handler takes: nothing that did not open changes the session, no
  command is taken in the clear, and after the key exchange the public dummy key opens only the
  acknowledgement it is still owed.
\<close>

lemma raw_header_type:
  assumes "11 \<le> length raw"
  shows "\<exists>i. parseS2CHeader (raw_header raw) = Some (i, raw ! 10)"
  using assms by (simp add: parseS2CHeader_def raw_header_def TAG_SIZE_def)

lemma isUnencrypted_type_byte:
  "isUnencrypted p \<longleftrightarrow> typeFlagged p AND Unencrypted \<noteq> 0"
  by (simp add: isUnencrypted_def has_flag_def packetFlags_def and.assoc flag_defs)

lemma decrypt_refuses_plain:
  assumes "isUnencrypted p" "packetType p \<notin> set UNENCRYPTED_TYPES"
  shows "decryptPacketData env p hdr ct tag h = (None, h)"
  using assms by (simp add: decryptPacketData_def)

lemma plain_command_ignored:
  assumes "raw ! 10 AND Unencrypted \<noteq> 0" "packetTypeOfByte (raw ! 10) \<notin> set UNENCRYPTED_TYPES"
  shows "handleRawPacket env raw received now h = (Inr (), h)"
proof (cases "raw_packet raw received h")
  case (Some p)
  then have len: "11 \<le> length raw" by (auto simp: raw_packet_def split: if_splits)
  with Some raw_header_type[OF len] have "typeFlagged p = raw ! 10"
    by (auto simp: raw_packet_def Let_def split: if_splits)
  with assms have "decryptPacketData env p hdr ct tag h = (None, h)" for hdr ct tag
    by (intro decrypt_refuses_plain) (simp_all add: isUnencrypted_type_byte packetType_def)
  with Some show ?thesis by (simp add: handleRawPacket_def)
qed (simp add: handleRawPacket_def)

text \<open>A packet that does not open leaves everything but the cache of derived keys.\<close>

lemma same_crypt: "\<exists>c. h = h\<lparr>h_crypt := c\<rparr>"
  by (rule exI[of _ "h_crypt h"]) simp

lemma decrypt_None:
  assumes "fst (decryptPacketData env p hdr ct tag h) = None"
  shows "\<exists>c. snd (decryptPacketData env p hdr ct tag h) = h\<lparr>h_crypt := c\<rparr>"
  using assms same_crypt
  by (auto simp: decryptPacketData_def Let_def split: prod.splits sum.splits if_splits)

lemma undecryptable_ignored:
  assumes "raw_packet raw received h = Some p"
    and "fst (decryptPacketData env p (raw_header raw) (drop (TAG_SIZE + 3) raw) (take TAG_SIZE raw) h) = None"
  shows "\<exists>c. handleRawPacket env raw received now h = (Inr (), h\<lparr>h_crypt := c\<rparr>)"
  using decrypt_None[OF assms(2)] assms
  by (cases "decryptPacketData env p (raw_header raw) (drop (TAG_SIZE + 3) raw) (take TAG_SIZE raw) h")
    (auto simp: handleRawPacket_def)

lemma dummy_key_after_init:
  assumes "cryptoInitComplete (h_crypt h)"
    and "decryptPacketData env p hdr ct tag h = (Some (pt, True), h')"
  shows "packetType p = Ack \<and> \<not> isUnencrypted p \<and> 2 \<le> length pt \<and>
    be_val (take 2 pt) \<in> set (dummyCommandIDs h) \<and>
    dummyCommandIDs h' = removeAll (be_val (take 2 pt)) (dummyCommandIDs h) \<and>
    be_val (take 2 pt) \<notin> set (dummyCommandIDs h')"
  using assms
  by (auto simp: decryptPacketData_def Let_def split: prod.splits sum.splits if_splits)

text \<open>Before the key exchange nothing is sent or opened under a session key.\<close>

lemma dummy_key_before_init:
  assumes "\<not> cryptoInitComplete (h_crypt h)"
    and "decryptPacketData env p hdr ct tag h = (Some (pt, d), h')"
  shows "d"
  using assms
  by (auto simp: decryptPacketData_def Let_def split: prod.splits sum.splits if_splits)

section \<open>The idle timeout\<close>

lemma idle_timeout_closes:
  assumes "\<not> h_closed h" "PACKET_TIMEOUT_MS < now - lastMessageReceived h"
  shows "fst (checkResends env now h) = Inr () \<and> h_closed (snd (checkResends env now h)) \<and>
    last (events (snd (checkResends env now h))) = Closed Connection_Timeout"
  using assms by (simp add: checkResends_def triggerClose_def close_def emit_def Let_def)

end
