(* ===== verification/License_Chain.thy ===== *)
theory License_Chain
  imports Prelude
begin

text \<open>
  The server's license and the keys derived from it: \<^verbatim>\<open>src/client/handshake/license.ts\<close> and
  \<^verbatim>\<open>src/client/crypto/primitives.ts\<close>. The Ed25519 library (\<^verbatim>\<open>@noble/curves\<close>) is the argument
  \<open>cv\<close>, a record of the operations the code calls; SHA-512 and the platform's UTF-8 decoder are
  arguments too. What the library throws is \<open>None\<close>.
\<close>

unbundle bit_operations_syntax

section \<open>Scalars and points\<close>

definition CURVE25519_KEY_SIZE :: nat where "CURVE25519_KEY_SIZE = 32"
definition CLAMP_MASK_LOW :: byte where "CLAMP_MASK_LOW = 248"
definition CLAMP_MASK_HIGH :: byte where "CLAMP_MASK_HIGH = 127"
definition CLAMP_HIGH_BIT :: byte where "CLAMP_HIGH_BIT = 64"
definition SHARED_SIGN_BIT :: byte where "SHARED_SIGN_BIT = 0x80"
definition PRIVATE_KEY_TOP_MASK :: byte where "PRIVATE_KEY_TOP_MASK = 0x7f"

record 'p curve =
  cv_order :: nat
  cv_zero :: 'p
  cv_base :: 'p
  cv_add :: "'p \<Rightarrow> 'p \<Rightarrow> 'p"
  cv_negate :: "'p \<Rightarrow> 'p"
  cv_multiply :: "'p \<Rightarrow> nat \<Rightarrow> 'p option"
  cv_fromBytes :: "bytes \<Rightarrow> 'p option"
  cv_toBytes :: "'p \<Rightarrow> bytes"

definition clampScalar :: "bytes \<Rightarrow> bytes" where
  "clampScalar key =
     (if length key < CURVE25519_KEY_SIZE then key
      else (let k = key[0 := key ! 0 AND CLAMP_MASK_LOW]
            in k[CURVE25519_KEY_SIZE - 1 :=
                   (k ! (CURVE25519_KEY_SIZE - 1) AND CLAMP_MASK_HIGH) OR CLAMP_HIGH_BIT]))"

definition bytesToBigIntLE :: "bytes \<Rightarrow> nat" where
  "bytesToBigIntLE bs = fold (\<lambda>b r. push_bit 8 r OR unat b) (rev bs) 0"

definition scalarMultFull :: "'p curve \<Rightarrow> 'p \<Rightarrow> nat \<Rightarrow> 'p option" where
  "scalarMultFull cv point scalar =
     (let n = cv_order cv
      in if scalar < n
         then (if scalar = 0 then Some (cv_zero cv) else cv_multiply cv point scalar)
         else (let remainder = scalar mod n; quotient = scalar div n
               in case (if remainder = 0 then Some (cv_zero cv) else cv_multiply cv point remainder) of
                    None \<Rightarrow> None
                  | Some mainPart \<Rightarrow>
                      (case cv_multiply cv point (n - 1) of
                         None \<Rightarrow> None
                       | Some almost \<Rightarrow>
                           (case cv_multiply cv (cv_add cv almost point) quotient of
                              None \<Rightarrow> None
                            | Some cofactorPart \<Rightarrow> Some (cv_add cv mainPart cofactorPart)))))"

text \<open>The sign bit of a 32-byte point, flipped.\<close>

definition flip_sign :: "bytes \<Rightarrow> bytes" where
  "flip_sign bs = bs[CURVE25519_KEY_SIZE - 1 := bs ! (CURVE25519_KEY_SIZE - 1) XOR SHARED_SIGN_BIT]"

text \<open>\<open>random\<close> is what the generator gave. The result is the public and the private key.\<close>

definition generateTemporaryKey :: "'p curve \<Rightarrow> bytes \<Rightarrow> (bytes \<times> bytes) option" where
  "generateTemporaryKey cv random =
     (let privateKey = clampScalar random;
          scalar = bytesToBigIntLE privateKey mod cv_order cv
      in map_option (\<lambda>p. (cv_toBytes cv p, privateKey)) (cv_multiply cv (cv_base cv) scalar))"

definition getSharedSecret2 :: "'p curve \<Rightarrow> (bytes \<Rightarrow> bytes) \<Rightarrow> bytes \<Rightarrow> bytes \<Rightarrow> bytes option" where
  "getSharedSecret2 cv sha512 publicKeyBytes privateKeyBytes =
     (if length publicKeyBytes \<noteq> CURVE25519_KEY_SIZE \<or> length privateKeyBytes \<noteq> CURVE25519_KEY_SIZE then None
      else (let privCopy = privateKeyBytes[CURVE25519_KEY_SIZE - 1 :=
                  privateKeyBytes ! (CURVE25519_KEY_SIZE - 1) AND PRIVATE_KEY_TOP_MASK];
                rawScalar = bytesToBigIntLE privCopy
            in case cv_fromBytes cv publicKeyBytes of
                 None \<Rightarrow> None
               | Some pub \<Rightarrow>
                   map_option (\<lambda>p. sha512 (flip_sign (cv_toBytes cv p)))
                     (scalarMultFull cv (cv_negate cv pub) rawScalar)))"

section \<open>License blocks\<close>

definition LICENSE_ROOT_KEY :: bytes where
  "LICENSE_ROOT_KEY =
     [0xcd, 0x0d, 0xe2, 0xae, 0xd4, 0x63, 0x45, 0x50, 0x9a, 0x7e, 0x3c, 0xfd, 0x8f, 0x68, 0xb3, 0xdc,
      0x75, 0x55, 0xb2, 0x9d, 0xcc, 0xec, 0x73, 0xcd, 0x18, 0x75, 0x0f, 0x99, 0x38, 0x12, 0x40, 0x8a]"

definition MAX_LICENSE_BLOCKS :: nat where "MAX_LICENSE_BLOCKS = 8"
definition MIN_BLOCK_LEN :: nat where "MIN_BLOCK_LEN = 42"
definition UNIX_OFFSET :: nat where "UNIX_OFFSET = 0x50e22700"

datatype license_error = License_Too_Short | Unsupported_Version | Chain_Too_Long
  | Wrong_Key_Kind byte | Times_Invalid | Block_Too_Long | Issuer_Unterminated | Invalid_Block_Type byte

datatype block_type = Intermediate | Server | Ts5Server | Ephemeral

definition block_type_of :: "byte \<Rightarrow> block_type option" where
  "block_type_of b = (if b = 0 then Some Intermediate else if b = 2 then Some Server
     else if b = 8 then Some Ts5Server else if b = 32 then Some Ephemeral else None)"

text \<open>Times are in milliseconds since 1970.\<close>

record license_block =
  lb_key :: bytes
  lb_hash :: bytes
  lb_properties :: "bytes list"
  lb_issuer :: string
  lb_notValidBefore :: nat
  lb_notValidAfter :: nat
  lb_blockType :: block_type
  lb_serverType :: nat

record block_payload =
  bp_issuer :: string
  bp_serverType :: nat
  bp_properties :: "bytes list"
  bp_read :: nat

definition readNullString :: "(bytes \<Rightarrow> string) \<Rightarrow> bytes \<Rightarrow> license_error + string \<times> nat" where
  "readNullString decode data =
     (if 0 \<in> set data
      then (let s = takeWhile (\<lambda>b. b \<noteq> 0) data in Inr (decode s, length s))
      else Inl Issuer_Unterminated)"

text \<open>\<^verbatim>\<open>data[i] ?? 0\<close>.\<close>

definition byte_or_zero :: "bytes \<Rightarrow> nat \<Rightarrow> nat" where
  "byte_or_zero data i = (if i < length data then unat (data ! i) else 0)"

primrec read_properties :: "bytes \<Rightarrow> nat \<Rightarrow> nat \<Rightarrow> bytes list \<Rightarrow> license_error + bytes list \<times> nat" where
  "read_properties data 0 pos ps = Inr (ps, pos)"
| "read_properties data (Suc k) pos ps =
     (if length data \<le> pos then Inl License_Too_Short
      else (let propLen = unat (data ! pos); start = pos + 1
            in if length data < start + propLen then Inl License_Too_Short
               else read_properties data k (start + propLen) (ps @ [take propLen (drop start data)])))"

definition parseBlockPayload ::
    "(bytes \<Rightarrow> string) \<Rightarrow> byte \<Rightarrow> bytes \<Rightarrow> nat \<Rightarrow> license_error + block_type \<times> block_payload" where
  "parseBlockPayload decode blockType data minBlockLen =
     (case block_type_of blockType of
        Some Intermediate \<Rightarrow>
          bind_result (readNullString decode (drop 46 data)) (\<lambda>(str, read).
            Inr (Intermediate, \<lparr>bp_issuer = str, bp_serverType = 0, bp_properties = [], bp_read = 5 + read\<rparr>))
      | Some Server \<Rightarrow>
          bind_result (readNullString decode (drop 47 data)) (\<lambda>(str, read).
            Inr (Server, \<lparr>bp_issuer = str, bp_serverType = byte_or_zero data 42, bp_properties = [],
                          bp_read = 6 + read\<rparr>))
      | Some Ts5Server \<Rightarrow>
          bind_result (read_properties data (byte_or_zero data 43) 44 []) (\<lambda>(properties, pos).
            Inr (Ts5Server, \<lparr>bp_issuer = [], bp_serverType = byte_or_zero data 42,
                             bp_properties = properties, bp_read = pos - minBlockLen\<rparr>))
      | Some Ephemeral \<Rightarrow>
          Inr (Ephemeral, \<lparr>bp_issuer = [], bp_serverType = 0, bp_properties = [], bp_read = 0\<rparr>)
      | None \<Rightarrow> Inl (Invalid_Block_Type blockType))"

definition license_time :: "bytes \<Rightarrow> nat \<Rightarrow> nat" where
  "license_time data at = (be_val (take 4 (drop at data)) + UNIX_OFFSET) * 1000"

definition parseLicenseBlock ::
    "(bytes \<Rightarrow> string) \<Rightarrow> (bytes \<Rightarrow> bytes) \<Rightarrow> bytes \<Rightarrow> license_error + license_block \<times> nat" where
  "parseLicenseBlock decode sha512 data =
     (if length data < MIN_BLOCK_LEN then Inl License_Too_Short
      else if data ! 0 \<noteq> 0 then Inl (Wrong_Key_Kind (data ! 0))
      else if license_time data 38 < license_time data 34 then Inl Times_Invalid
      else bind_result (parseBlockPayload decode (data ! 33) data MIN_BLOCK_LEN) (\<lambda>(blockType, payload).
        let allLen = MIN_BLOCK_LEN + bp_read payload
        in if length data < allLen then Inl Block_Too_Long
           else Inr (\<lparr>lb_key = take 32 (drop 1 data),
                      lb_hash = take 32 (sha512 (take (allLen - 1) (drop 1 data))),
                      lb_properties = bp_properties payload, lb_issuer = bp_issuer payload,
                      lb_notValidBefore = license_time data 34, lb_notValidAfter = license_time data 38,
                      lb_blockType = blockType, lb_serverType = bp_serverType payload\<rparr>, allLen)))"

lemma parseLicenseBlock_consumes:
  assumes "parseLicenseBlock decode sha512 data = Inr (b, consumed)"
  shows "42 \<le> consumed \<and> consumed \<le> length data"
  using assms
  by (auto simp: parseLicenseBlock_def MIN_BLOCK_LEN_def bind_result_Inr_iff Let_def split: if_splits)

function parse_blocks ::
    "(bytes \<Rightarrow> string) \<Rightarrow> (bytes \<Rightarrow> bytes) \<Rightarrow> bytes \<Rightarrow> license_block list \<Rightarrow> license_error + license_block list" where
  "parse_blocks decode sha512 remaining blocks =
     (if remaining = [] then Inr blocks
      else if length blocks = MAX_LICENSE_BLOCKS then Inl Chain_Too_Long
      else (case parseLicenseBlock decode sha512 remaining of
              Inl e \<Rightarrow> Inl e
            | Inr (block, consumed) \<Rightarrow> parse_blocks decode sha512 (drop consumed remaining) (blocks @ [block])))"
  by pat_completeness auto

termination
  by (relation "measure (\<lambda>(d, s, remaining, bs). length remaining)")
    (auto dest!: parseLicenseBlock_consumes split: sum.splits)

declare parse_blocks.simps [simp del]

definition parseLicenses ::
    "(bytes \<Rightarrow> string) \<Rightarrow> (bytes \<Rightarrow> bytes) \<Rightarrow> bytes \<Rightarrow> license_error + license_block list" where
  "parseLicenses decode sha512 data =
     (if length data < 1 then Inl License_Too_Short
      else if data ! 0 \<noteq> 1 then Inl Unsupported_Version
      else parse_blocks decode sha512 (drop 1 data) [])"

section \<open>Deriving the key\<close>

definition deriveKeyFromBlock :: "'p curve \<Rightarrow> license_block \<Rightarrow> bytes \<Rightarrow> bytes option" where
  "deriveKeyFromBlock cv block parent =
     (let scalar = bytesToBigIntLE (clampScalar (lb_hash block))
      in case cv_fromBytes cv (lb_key block) of
           None \<Rightarrow> None
         | Some pub \<Rightarrow>
             (case cv_fromBytes cv parent of
                None \<Rightarrow> None
              | Some par \<Rightarrow>
                  map_option (\<lambda>p. flip_sign (cv_toBytes cv (cv_add cv p (cv_negate cv par))))
                    (scalarMultFull cv (cv_negate cv pub) scalar)))"

fun derive_round :: "'p curve \<Rightarrow> license_block list \<Rightarrow> bytes \<Rightarrow> bytes option" where
  "derive_round cv [] round = Some round"
| "derive_round cv (block # blocks) round =
     (case deriveKeyFromBlock cv block round of None \<Rightarrow> None | Some r \<Rightarrow> derive_round cv blocks r)"

definition deriveKey :: "'p curve \<Rightarrow> license_block list \<Rightarrow> bytes option" where
  "deriveKey cv blocks = derive_round cv blocks LICENSE_ROOT_KEY"

section \<open>The chain covers its bytes\<close>

text \<open>A block and the bytes it was read from: its key, its hash over everything behind the kind byte,
  and its times.\<close>

definition block_of_bytes :: "(bytes \<Rightarrow> bytes) \<Rightarrow> bytes \<Rightarrow> license_block \<Rightarrow> bool" where
  "block_of_bytes sha512 part b \<longleftrightarrow> 42 \<le> length part \<and> part ! 0 = 0 \<and>
     lb_key b = take 32 (drop 1 part) \<and> lb_hash b = take 32 (sha512 (drop 1 part)) \<and>
     lb_notValidBefore b = license_time part 34 \<and> lb_notValidAfter b = license_time part 38 \<and>
     lb_notValidBefore b \<le> lb_notValidAfter b \<and> block_type_of (part ! 33) = Some (lb_blockType b)"

lemma payload_type:
  "parseBlockPayload decode bt data m = Inr (t, payload) \<Longrightarrow> block_type_of bt = Some t"
  by (auto simp: parseBlockPayload_def bind_result_Inr_iff split: option.splits block_type.splits)

lemma parseLicenseBlock_covers:
  assumes "parseLicenseBlock decode sha512 data = Inr (b, consumed)"
  shows "block_of_bytes sha512 (take consumed data) b"
proof -
  note c = parseLicenseBlock_consumes[OF assms]
  have t: "license_time (take consumed data) at = license_time data at" if "at + 4 \<le> 42" for at
  proof -
    have "4 \<le> consumed - at" using c that by linarith
    then show ?thesis by (simp add: license_time_def drop_take min_absorb1)
  qed
  have k: "take 32 (drop 1 (take consumed data)) = take 32 (drop 1 data)"
  proof -
    have "32 \<le> consumed - 1" using c by linarith
    then show ?thesis by (simp add: drop_take)
  qed
  show ?thesis using assms c t[of 34] t[of 38] k
    by (auto simp: parseLicenseBlock_def block_of_bytes_def MIN_BLOCK_LEN_def bind_result_Inr_iff Let_def
        drop_take not_less dest: payload_type split: if_splits)
qed

lemma parse_blocks_covers:
  assumes "parse_blocks decode sha512 remaining blocks = Inr result" "length blocks \<le> 8"
  shows "\<exists>parts news. remaining = concat parts \<and> result = blocks @ news \<and> length result \<le> 8 \<and>
    list_all2 (block_of_bytes sha512) parts news"
  using assms
proof (induction decode sha512 remaining blocks rule: parse_blocks.induct)
  case (1 decode sha512 remaining blocks)
  show ?case
  proof (cases "remaining = []")
    case True
    then show ?thesis using "1.prems" by (intro exI[of _ "[]"]) (simp add: parse_blocks.simps)
  next
    case False
    from "1.prems"(1) False have n: "length blocks \<noteq> MAX_LICENSE_BLOCKS"
      by (subst (asm) parse_blocks.simps) (simp split: if_splits)
    with "1.prems"(1) False obtain b k where b: "parseLicenseBlock decode sha512 remaining = Inr (b, k)"
        "parse_blocks decode sha512 (drop k remaining) (blocks @ [b]) = Inr result"
      by (subst (asm) parse_blocks.simps) (auto split: sum.splits)
    from n "1.prems"(2) have "length (blocks @ [b]) \<le> 8" by (simp add: MAX_LICENSE_BLOCKS_def)
    from "1.IH"[OF False n b(1) refl b(2) this] obtain parts news where
      IH: "drop k remaining = concat parts" "result = (blocks @ [b]) @ news" "length result \<le> 8"
        "list_all2 (block_of_bytes sha512) parts news" by blast
    have "remaining = concat (take k remaining # parts)"
      using IH(1) append_take_drop_id[of k remaining] by simp
    moreover have "list_all2 (block_of_bytes sha512) (take k remaining # parts) (b # news)"
      using IH(4) parseLicenseBlock_covers[OF b(1)] by simp
    ultimately show ?thesis using IH(2,3) by (metis append.assoc append_Cons append_Nil)
  qed
qed

lemma parseLicenses_covers:
  assumes "parseLicenses decode sha512 data = Inr blocks"
  shows "\<exists>parts. data = 1 # concat parts \<and> length blocks \<le> 8 \<and> list_all2 (block_of_bytes sha512) parts blocks"
proof -
  have d: "data \<noteq> []" "data ! 0 = 1" "parse_blocks decode sha512 (drop 1 data) [] = Inr blocks"
    using assms by (auto simp: parseLicenses_def split: if_splits)
  from parse_blocks_covers[OF d(3)] obtain parts where
    "drop 1 data = concat parts" "length blocks \<le> 8" "list_all2 (block_of_bytes sha512) parts blocks" by auto
  with d(1,2) show ?thesis by (cases data) auto
qed

section \<open>Scalar multiplication past the order\<close>

lemma bytesToBigIntLE_le_val: "bytesToBigIntLE bs = le_val bs"
proof (induction bs)
  case Nil
  show ?case by (simp add: bytesToBigIntLE_def le_val_def be_val_def)
next
  case (Cons b bs)
  have "bytesToBigIntLE (b # bs) = push_bit 8 (bytesToBigIntLE bs) OR unat b"
    by (simp add: bytesToBigIntLE_def)
  also have "\<dots> = 256 * bytesToBigIntLE bs + unat b"
    by (rule push_bit_or_byte)
  finally show ?case using Cons.IH by (simp add: le_val_def be_val_snoc)
qed

lemma be_val_Cons: "be_val (b # bs) = unat b * 256 ^ length bs + be_val bs"
proof (induction bs rule: rev_induct)
  case Nil
  show ?case by (simp add: be_val_def)
next
  case (snoc c bs)
  then show ?case using be_val_snoc[of "b # bs" c] be_val_snoc[of bs c] by simp
qed

text \<open>A clamped scalar has bit 255 clear, so its quotient by an order over \<open>2 ^ 252\<close> is at most 7.\<close>

lemma clamped_less:
  assumes "length bs = 32"
  shows "bytesToBigIntLE (clampScalar bs) < 2 ^ 255"
proof -
  define k where "k = clampScalar bs"
  have len: "length k = 32" using assms by (simp add: k_def clampScalar_def CURVE25519_KEY_SIZE_def Let_def)
  then obtain xs b where k: "k = xs @ [b]" "length xs = 31"
    by (cases k rule: rev_cases) auto
  have "b = k ! 31" using k by (simp add: nth_append)
  then have b: "b = (bs[0 := bs ! 0 AND CLAMP_MASK_LOW] ! 31 AND 127) OR 64"
    using assms by (simp add: k_def clampScalar_def CURVE25519_KEY_SIZE_def Let_def CLAMP_MASK_HIGH_def CLAMP_HIGH_BIT_def)
  have "b AND 127 = b" unfolding b by (simp add: bit.conj_disj_distrib2 and.assoc)
  then have "b = take_bit 7 b" by (simp add: take_bit_eq_mask mask_eq_exp_minus_1)
  then have "unat b < 2 ^ 7" by (metis take_bit_nat_less_exp unsigned_take_bit_eq)
  then have "unat b \<le> 127" by simp
  then have "unat b * 256 ^ 31 \<le> 127 * 256 ^ 31" by (rule mult_right_mono) simp
  moreover have "be_val (rev xs) < 256 ^ 31" using be_val_less[of "rev xs"] k(2) by simp
  moreover have "bytesToBigIntLE k = unat b * 256 ^ 31 + be_val (rev xs)"
    using k by (simp add: bytesToBigIntLE_le_val le_val_def be_val_Cons)
  ultimately have "bytesToBigIntLE k < 128 * 256 ^ 31" by linarith
  then show ?thesis by (simp add: k_def)
qed

lemma clamped_quotient:
  assumes "length bs = 32" "2 ^ 252 < n"
  shows "bytesToBigIntLE (clampScalar bs) div n \<le> 7"
proof -
  have "bytesToBigIntLE (clampScalar bs) < 8 * n" using clamped_less[OF assms(1)] assms(2) by simp
  then have "bytesToBigIntLE (clampScalar bs) div n < 8" by (simp add: less_mult_imp_div_less)
  then show ?thesis by simp
qed

primrec times :: "'p curve \<Rightarrow> 'p \<Rightarrow> nat \<Rightarrow> 'p" where
  "times cv P 0 = cv_zero cv"
| "times cv P (Suc k) = cv_add cv P (times cv P k)"

text \<open>What the code relies on in its curve library: the points form a commutative group,
  \<^verbatim>\<open>multiply\<close> is repeated addition for the scalars from 1 to below the order, and a point of 32 bytes
  decodes to the point it was written from. Not relied on is that the order kills every point: the
  points that come over the wire may lie outside the prime-order subgroup.\<close>

definition curve_laws :: "'p curve \<Rightarrow> bool" where
  "curve_laws cv \<longleftrightarrow> 1 < cv_order cv \<and>
     (\<forall>a b c. cv_add cv (cv_add cv a b) c = cv_add cv a (cv_add cv b c)) \<and>
     (\<forall>a b. cv_add cv a b = cv_add cv b a) \<and> (\<forall>a. cv_add cv (cv_zero cv) a = a) \<and>
     (\<forall>a. cv_add cv a (cv_negate cv a) = cv_zero cv) \<and>
     (\<forall>P k. 0 < k \<and> k < cv_order cv \<longrightarrow> cv_multiply cv P k = Some (times cv P k)) \<and>
     (\<forall>P. length (cv_toBytes cv P) = CURVE25519_KEY_SIZE \<and> cv_fromBytes cv (cv_toBytes cv P) = Some P)"

lemma curve_lawsD:
  assumes "curve_laws cv"
  shows curve_order: "1 < cv_order cv"
    and curve_assoc: "cv_add cv (cv_add cv a b) c = cv_add cv a (cv_add cv b c)"
    and curve_comm: "cv_add cv a b = cv_add cv b a"
    and curve_zero: "cv_add cv (cv_zero cv) a = a"
    and curve_inverse: "cv_add cv a (cv_negate cv a) = cv_zero cv"
    and curve_multiply: "0 < k \<Longrightarrow> k < cv_order cv \<Longrightarrow> cv_multiply cv P k = Some (times cv P k)"
    and curve_length: "length (cv_toBytes cv P) = CURVE25519_KEY_SIZE"
    and curve_decode: "cv_fromBytes cv (cv_toBytes cv P) = Some P"
  by (use assms in \<open>unfold curve_laws_def, blast\<close>)+

lemma curve_zero_right: "curve_laws cv \<Longrightarrow> cv_add cv a (cv_zero cv) = a"
  by (simp only: curve_comm[of cv a] curve_zero)

lemma times_add:
  assumes "curve_laws cv"
  shows "times cv P (a + b) = cv_add cv (times cv P a) (times cv P b)"
  by (induction a) (simp_all add: curve_zero[OF assms] curve_assoc[OF assms])

lemma times_mult:
  assumes "curve_laws cv"
  shows "times cv (times cv P a) b = times cv P (a * b)"
  by (induction b) (simp_all add: times_add[OF assms])

lemma scalarMultFull_times:
  assumes laws: "curve_laws cv" and "s div cv_order cv < cv_order cv"
  shows "scalarMultFull cv P s = Some (times cv P s)"
proof (cases "s < cv_order cv")
  case True
  then show ?thesis by (simp add: scalarMultFull_def curve_multiply[OF laws])
next
  case False
  note order = curve_order[OF laws] and multiply = curve_multiply[OF laws]
  let ?n = "cv_order cv" let ?q = "s div ?n" and ?r = "s mod ?n"
  have n: "0 < ?n - 1" "?n - 1 < ?n" using order by simp_all
  have q: "0 < ?q" "?q < ?n" using False order assms by (auto simp: div_greater_zero_iff)
  have r: "?r < ?n" using order by simp
  have pn: "cv_add cv (times cv P (?n - 1)) P = times cv P ?n"
    using times_add[OF laws, of P "?n - 1" 1] order by (simp add: curve_zero_right[OF laws])
  have s: "times cv P s = cv_add cv (times cv P ?r) (times cv P (?n * ?q))"
    using times_add[OF laws, of P ?r "?n * ?q"] by simp
  have main: "(if ?r = 0 then Some (cv_zero cv) else cv_multiply cv P ?r) = Some (times cv P ?r)"
    using multiply[of ?r P] r by simp
  have "scalarMultFull cv P s = Some (cv_add cv (times cv P ?r) (times cv P (?n * ?q)))"
    using False unfolding scalarMultFull_def Let_def main multiply[OF n]
    by (simp add: pn[unfolded One_nat_def] multiply[OF q] times_mult[OF laws])
  then show ?thesis by (simp only: s)
qed

lemma negate_unique:
  assumes "curve_laws cv" "cv_add cv a b = cv_zero cv"
  shows "b = cv_negate cv a"
  by (metis assms(2) curve_assoc[OF assms(1)] curve_comm[OF assms(1)] curve_zero[OF assms(1)] curve_inverse[OF assms(1)])

lemma negate_add:
  assumes laws: "curve_laws cv"
  shows "cv_negate cv (cv_add cv a b) = cv_add cv (cv_negate cv a) (cv_negate cv b)"
proof -
  have "cv_add cv (cv_add cv a b) (cv_add cv (cv_negate cv a) (cv_negate cv b)) =
      cv_add cv (cv_add cv a (cv_negate cv a)) (cv_add cv b (cv_negate cv b))"
    by (metis curve_assoc[OF laws] curve_comm[OF laws])
  then show ?thesis
    by (intro negate_unique[OF laws, symmetric]) (simp add: curve_zero[OF laws] curve_inverse[OF laws])
qed

lemma times_negate:
  assumes laws: "curve_laws cv"
  shows "times cv (cv_negate cv P) k = cv_negate cv (times cv P k)"
proof (induction k)
  case 0
  show ?case using negate_unique[OF laws, of "cv_zero cv" "cv_zero cv"] by (simp add: curve_zero[OF laws] curve_inverse[OF laws])
qed (simp add: negate_add[OF laws])

section \<open>What the rounds compute\<close>

text \<open>The code multiplies the negated point, subtracts the parent and flips the sign of what comes out.
  That is the sum \<open>hash \<cdot> key + parent\<close>, wherever negating a point flips the sign bit of its encoding,
  which it does for every point but the one or two with \<open>x = 0\<close>.\<close>

definition sign_encodes :: "'p curve \<Rightarrow> 'p \<Rightarrow> bool" where
  "sign_encodes cv R \<longleftrightarrow> cv_toBytes cv (cv_negate cv R) = flip_sign (cv_toBytes cv R)"

definition round_sum :: "'p curve \<Rightarrow> license_block \<Rightarrow> 'p \<Rightarrow> 'p \<Rightarrow> 'p" where
  "round_sum cv b pub R = cv_add cv (times cv pub (bytesToBigIntLE (clampScalar (lb_hash b)))) R"

fun chain_sums :: "'p curve \<Rightarrow> (license_block \<times> 'p) list \<Rightarrow> 'p \<Rightarrow> 'p list" where
  "chain_sums cv [] R = []"
| "chain_sums cv ((b, pub) # ps) R = round_sum cv b pub R # chain_sums cv ps (round_sum cv b pub R)"

lemma flip_sign_twice: "31 < length bs \<Longrightarrow> flip_sign (flip_sign bs) = bs"
  by (simp add: flip_sign_def CURVE25519_KEY_SIZE_def xor.assoc)

lemma deriveKeyFromBlock_value:
  assumes laws: "curve_laws cv" and "2 ^ 252 < cv_order cv" "length (lb_hash b) = 32"
    and "cv_fromBytes cv (lb_key b) = Some pub" "cv_fromBytes cv parent = Some par"
    and "sign_encodes cv (round_sum cv b pub par)"
  shows "deriveKeyFromBlock cv b parent = Some (cv_toBytes cv (round_sum cv b pub par))"
proof -
  let ?s = "bytesToBigIntLE (clampScalar (lb_hash b))" let ?R = "round_sum cv b pub par"
  have "?s div cv_order cv < cv_order cv"
    using clamped_quotient[OF assms(3,2)] assms(2) by (simp add: le_less_trans)
  note mult = scalarMultFull_times[OF laws this]
  have "cv_add cv (times cv (cv_negate cv pub) ?s) (cv_negate cv par) = cv_negate cv ?R"
    unfolding round_sum_def negate_add[OF laws] times_negate[OF laws] ..
  moreover have "31 < length (cv_toBytes cv ?R)" by (simp add: curve_length[OF laws] CURVE25519_KEY_SIZE_def)
  ultimately show ?thesis
    using assms(4,5,6) mult by (simp add: deriveKeyFromBlock_def sign_encodes_def flip_sign_twice)
qed

lemma derive_round_value:
  assumes laws: "curve_laws cv" and big: "2 ^ 252 < cv_order cv"
  shows "cv_fromBytes cv parent = Some par \<Longrightarrow>
    list_all (\<lambda>(b, pub). length (lb_hash b) = 32 \<and> cv_fromBytes cv (lb_key b) = Some pub) ps \<Longrightarrow>
    list_all (sign_encodes cv) (chain_sums cv ps par) \<Longrightarrow> ps \<noteq> [] \<Longrightarrow>
    derive_round cv (map fst ps) parent = Some (cv_toBytes cv (last (chain_sums cv ps par)))"
proof (induction ps arbitrary: parent par)
  case (Cons p ps)
  obtain b pub where p: "p = (b, pub)" by (cases p)
  let ?R = "round_sum cv b pub par"
  have d: "deriveKeyFromBlock cv b parent = Some (cv_toBytes cv ?R)"
    using Cons.prems by (intro deriveKeyFromBlock_value[OF laws big]) (simp_all add: p)
  show ?case
  proof (cases "ps = []")
    case False
    then have "chain_sums cv ps ?R \<noteq> []" by (cases ps) auto
    then show ?thesis
      using Cons.IH[of "cv_toBytes cv ?R" ?R] Cons.prems d False by (simp add: p curve_decode[OF laws])
  qed (simp add: p d)
qed simp

section \<open>The secret both sides compute\<close>

lemma clamped_last:
  assumes "length bs = 32"
  shows "clampScalar bs ! 31 AND PRIVATE_KEY_TOP_MASK = clampScalar bs ! 31" "length (clampScalar bs) = 32"
    "clampScalar bs ! 0 AND 7 = 0" "clampScalar bs ! 31 \<noteq> 0"
proof -
  have l: "clampScalar bs ! 31 = (bs[0 := bs ! 0 AND CLAMP_MASK_LOW] ! 31 AND 127) OR 64"
    and f: "clampScalar bs ! 0 = bs ! 0 AND 248" and n: "length (clampScalar bs) = 32"
    using assms by (simp_all add: clampScalar_def CURVE25519_KEY_SIZE_def Let_def CLAMP_MASK_HIGH_def
        CLAMP_HIGH_BIT_def CLAMP_MASK_LOW_def)
  show "clampScalar bs ! 31 AND PRIVATE_KEY_TOP_MASK = clampScalar bs ! 31"
    unfolding l PRIVATE_KEY_TOP_MASK_def by (simp add: bit.conj_disj_distrib2 and.assoc)
  show "length (clampScalar bs) = 32" by (rule n)
  show "clampScalar bs ! 0 AND 7 = 0" unfolding f by (simp add: and.assoc)
  have "bit (clampScalar bs ! 31) 6" unfolding l by (simp add: bit_simps)
  then show "clampScalar bs ! 31 \<noteq> 0" by (metis bit_0_eq bot_apply bot_bool_def)
qed

text \<open>A clamped scalar is a multiple of 8 and not 0, so no odd order over \<open>2 ^ 252\<close> divides it.\<close>

lemma clamped_scalar:
  assumes "length bs = 32"
  shows "8 dvd bytesToBigIntLE (clampScalar bs)" "0 < bytesToBigIntLE (clampScalar bs)"
proof -
  note c = clamped_last[OF assms]
  obtain b xs where k: "clampScalar bs = b # xs" "length xs = 31" using c(2) by (cases "clampScalar bs") auto
  have v: "bytesToBigIntLE (clampScalar bs) = 256 * be_val (rev xs) + unat b"
    by (simp add: bytesToBigIntLE_le_val le_val_def k be_val_snoc)
  have "b AND 7 = 0" using c(3) k by simp
  then have "take_bit 3 b = 0" by (simp add: take_bit_eq_mask mask_eq_exp_minus_1)
  then have "take_bit 3 (unat b) = 0" by (metis unsigned_take_bit_eq unsigned_0)
  then have "8 dvd unat b" by (simp add: take_bit_eq_mod mod_eq_0_iff_dvd)
  moreover have "8 dvd 256 * be_val (rev xs)" by (rule dvd_mult2) simp
  ultimately show "8 dvd bytesToBigIntLE (clampScalar bs)" unfolding v by simp
  obtain ys z where k': "clampScalar bs = ys @ [z]" "length ys = 31" using c(2) by (cases "clampScalar bs" rule: rev_cases) auto
  then have "z \<noteq> 0" using c(4) by (simp add: nth_append)
  then have "0 < unat z" by (simp add: unat_gt_0)
  then show "0 < bytesToBigIntLE (clampScalar bs)"
    by (simp add: bytesToBigIntLE_le_val le_val_def k' be_val_Cons)
qed

lemma clamped_not_multiple:
  assumes "length bs = 32" "2 ^ 252 < n" "odd n"
  shows "bytesToBigIntLE (clampScalar bs) mod n \<noteq> 0"
proof
  let ?s = "bytesToBigIntLE (clampScalar bs)"
  assume "?s mod n = 0"
  then have s: "?s = n * (?s div n)" by (metis add.right_neutral mult_div_mod_eq)
  have "coprime (2 ^ 3) n" using assms(3) by (simp only: coprime_power_left_iff coprime_left_2_iff_odd simp_thms)
  then have "coprime 8 n" by simp
  then have "8 dvd ?s div n" using clamped_scalar(1)[OF assms(1)] s by (metis coprime_dvd_mult_right_iff)
  moreover have "?s div n \<le> 7" by (rule clamped_quotient[OF assms(1,2)])
  ultimately have "?s div n = 0" by (auto dest: dvd_imp_le)
  with s clamped_scalar(2)[OF assms(1)] show False by simp
qed

lemma times_zero: "curve_laws cv \<Longrightarrow> times cv (cv_zero cv) k = cv_zero cv"
  by (induction k) (simp_all add: curve_zero)

lemma times_mod:
  assumes "curve_laws cv" "times cv P n = cv_zero cv"
  shows "times cv P (s mod n) = times cv P s"
proof -
  have "times cv P s = times cv P (n * (s div n) + s mod n)" by simp
  also have "\<dots> = cv_add cv (times cv (times cv P n) (s div n)) (times cv P (s mod n))"
    by (simp only: times_add[OF assms(1)] times_mult[OF assms(1)])
  finally show ?thesis by (simp add: assms(2) times_zero[OF assms(1)] curve_zero[OF assms(1)])
qed

text \<open>The other side has the scalar \<open>k\<close> of its point and multiplies the public key it was sent.\<close>

lemma secrets_agree:
  assumes laws: "curve_laws cv" and order: "2 ^ 252 < cv_order cv" "odd (cv_order cv)"
    and base: "times cv (cv_base cv) (cv_order cv) = cv_zero cv"
    and random: "length random = 32" "generateTemporaryKey cv random = Some (public, private)"
    and server: "cv_fromBytes cv serverKey = Some (times cv (cv_base cv) k)" "length serverKey = 32"
    and sign: "sign_encodes cv (times cv (times cv (cv_base cv) k) (bytesToBigIntLE private))"
  shows "\<exists>P. cv_fromBytes cv public = Some P \<and>
    getSharedSecret2 cv sha512 serverKey private = Some (sha512 (cv_toBytes cv (times cv P k)))"
proof -
  define s where "s = bytesToBigIntLE (clampScalar random)"
  let ?n = "cv_order cv" and ?B = "cv_base cv"
  have "0 < s mod ?n" "s mod ?n < ?n" "s div ?n < ?n"
    using clamped_not_multiple[OF random(1) order] clamped_quotient[OF random(1) order(1)] order(1)
    by (simp_all add: s_def le_less_trans)
  note mult = curve_multiply[OF laws this(1,2)] and full = scalarMultFull_times[OF laws this(3)]
  have key: "private = clampScalar random" "public = cv_toBytes cv (times cv ?B s)"
    using random(2) mult times_mod[OF laws base] by (auto simp: generateTemporaryKey_def s_def Let_def)
  have copy: "private[31 := private ! 31 AND PRIVATE_KEY_TOP_MASK] = private"
    using clamped_last(1)[OF random(1)] key(1) by simp
  let ?K = "times cv ?B k"
  have "times cv ?K s = times cv (times cv ?B s) k" by (simp add: times_mult[OF laws] mult.commute)
  moreover have "sign_encodes cv (times cv ?K s)" using sign key(1) by (simp add: s_def)
  moreover have "31 < length (cv_toBytes cv (times cv ?K s))" by (simp add: curve_length[OF laws] CURVE25519_KEY_SIZE_def)
  ultimately have "getSharedSecret2 cv sha512 serverKey private = Some (sha512 (cv_toBytes cv (times cv (times cv ?B s) k)))"
    using server clamped_last(2)[OF random(1)] copy full[of "cv_negate cv ?K"]
    by (simp add: getSharedSecret2_def CURVE25519_KEY_SIZE_def key(1) s_def times_negate[OF laws] sign_encodes_def
        flip_sign_twice)
  then show ?thesis by (simp add: key(2) curve_decode[OF laws])
qed

end
