(* ===== verification/Command_Codec.thy ===== *)
theory Command_Codec
  imports Prelude
begin

text \<open>
  The command language of \<open>src/core/command\<close>: escaping and unescaping of values
  (\<open>command.ts\<close>), building a command line from ordered parameters, and parsing a line or a row
  of one (\<open>parser.ts\<close>). The locale \<open>value_codec\<close> states what building and parsing need of
  an escaping; \<^term>\<open>escape\<close> and \<^term>\<open>unescape\<close> below provide it.
\<close>

section \<open>Escaping\<close>

text \<open>The table of \<open>command.ts\<close>, in its order: the backslash is replaced first.\<close>

definition ESCAPE_MAP :: "(char \<times> string) list" where
  "ESCAPE_MAP =
    [(CHR 0x5C, [CHR 0x5C, CHR 0x5C]),
     (CHR ''/'', [CHR 0x5C, CHR ''/'']),
     (CHR '' '', [CHR 0x5C, CHR ''s'']),
     (CHR ''|'', [CHR 0x5C, CHR ''p'']),
     (CHR 0x07, [CHR 0x5C, CHR ''a'']),
     (CHR 0x08, [CHR 0x5C, CHR ''b'']),
     (CHR 0x0C, [CHR 0x5C, CHR ''f'']),
     (CHR 0x0A, [CHR 0x5C, CHR ''n'']),
     (CHR 0x0D, [CHR 0x5C, CHR ''r'']),
     (CHR 0x09, [CHR 0x5C, CHR ''t'']),
     (CHR 0x0B, [CHR 0x5C, CHR ''v''])]"

text \<open>\<open>escape\<close>: one \<open>split(from).join(to)\<close> after the other over the whole text.\<close>

definition escape :: "string \<Rightarrow> string" where
  "escape s = foldl (\<lambda>result (from, to). join_with to (split_on from result)) s ESCAPE_MAP"

text \<open>The \<open>switch\<close> of \<open>unescape\<close>: what the character after a backslash stands for.\<close>

definition unescape_char :: "char \<Rightarrow> char option" where
  "unescape_char c =
    (if c = CHR 0x5C then Some (CHR 0x5C)
     else if c = CHR ''/'' then Some (CHR ''/'')
     else if c = CHR ''s'' then Some (CHR '' '')
     else if c = CHR ''p'' then Some (CHR ''|'')
     else if c = CHR ''a'' then Some (CHR 0x07)
     else if c = CHR ''b'' then Some (CHR 0x08)
     else if c = CHR ''f'' then Some (CHR 0x0C)
     else if c = CHR ''n'' then Some (CHR 0x0A)
     else if c = CHR ''r'' then Some (CHR 0x0D)
     else if c = CHR ''t'' then Some (CHR 0x09)
     else if c = CHR ''v'' then Some (CHR 0x0B)
     else None)"

text \<open>The single pass of \<open>unescape\<close>; an unknown escape keeps its backslash.\<close>

fun unescape :: "string \<Rightarrow> string" where
  "unescape [] = []"
| "unescape [c] = [c]"
| "unescape (c # d # s) =
     (if c = CHR 0x5C
      then (case unescape_char d of
              Some x \<Rightarrow> x # unescape s
            | None \<Rightarrow> c # unescape (d # s))
      else c # unescape (d # s))"

text \<open>What the sequence of replacements does to one character: the reference for \<open>escape\<close>.\<close>

definition escape_char :: "char \<Rightarrow> string" where
  "escape_char c = (case map_of ESCAPE_MAP c of Some t \<Rightarrow> t | None \<Rightarrow> [c])"

lemma foldl_replace_hom:
  "foldl (\<lambda>r (f, t). join_with t (split_on f r)) (s @ s') M =
     foldl (\<lambda>r (f, t). join_with t (split_on f r)) s M
     @ foldl (\<lambda>r (f, t). join_with t (split_on f r)) s' M"
  by (induction M arbitrary: s s') (auto simp: join_split_replace)

lemma escape_append: "escape (s @ s') = escape s @ escape s'"
  unfolding escape_def by (rule foldl_replace_hom)

lemma escape_Nil [simp]: "escape [] = []"
  by (simp add: escape_def ESCAPE_MAP_def)

lemma escape_singleton: "escape [c] = escape_char c"
  by (simp add: escape_def escape_char_def ESCAPE_MAP_def join_split_replace)

lemma escape_Cons: "escape (c # s) = escape_char c @ escape s"
  using escape_append[of "[c]" s] by (simp add: escape_singleton)

lemma escape_concat_map: "escape s = concat (map escape_char s)"
  by (induction s) (simp_all add: escape_Cons)

lemma escape_char_cases:
  obtains (plain) "escape_char c = [c]" "c \<noteq> CHR 0x5C" "c \<notin> fst ` set ESCAPE_MAP"
  | (escaped) d where "escape_char c = [CHR 0x5C, d]" "unescape_char d = Some c" "is_alnum d \<or> d = c"
      "d \<notin> fst ` set ESCAPE_MAP - {CHR 0x5C, CHR ''/''}" "d \<noteq> CHR ''=''"
proof (cases "c \<in> fst ` set ESCAPE_MAP")
  case True
  then show ?thesis
    by (intro escaped[of "escape_char c ! 1"])
      (auto simp: ESCAPE_MAP_def escape_char_def unescape_char_def is_alnum_def)
next
  case False
  then have "map_of ESCAPE_MAP c = None" by (simp add: map_of_eq_None_iff)
  with False show ?thesis
    by (intro plain) (auto simp: escape_char_def ESCAPE_MAP_def)
qed

lemma unescape_plain: "c \<noteq> CHR 0x5C \<Longrightarrow> unescape (c # s) = c # unescape s"
  by (cases s) auto

lemma unescape_escape: "unescape (escape s) = s"
proof (induction s)
  case (Cons c s)
  show ?case
    by (rule escape_char_cases[of c]) (simp_all add: escape_Cons unescape_plain Cons)
qed simp

text \<open>
  The characters that delimit lines, rows and parameters never survive escaping; the
  equals sign, which the table does not name, is copied through.
\<close>

definition delimiters :: "char set" where
  "delimiters = {CHR '' '', CHR ''|'', CHR 0x07, CHR 0x08, CHR 0x0C, CHR 0x0A, CHR 0x0D,
                 CHR 0x09, CHR 0x0B}"

lemma escape_char_no_delimiter: "set (escape_char c) \<inter> delimiters = {}"
  by (rule escape_char_cases[of c]) (auto simp: delimiters_def ESCAPE_MAP_def)

lemma escape_no_delimiter: "set (escape s) \<inter> delimiters = {}"
proof (induction s)
  case (Cons c s)
  then show ?case using escape_char_no_delimiter[of c] by (auto simp: escape_Cons)
qed simp

lemma escape_keeps_eq: "CHR ''='' \<in> set (escape s) \<longleftrightarrow> CHR ''='' \<in> set s"
proof (induction s)
  case (Cons c s)
  have "CHR ''='' \<in> set (escape_char c) \<longleftrightarrow> c = CHR ''=''"
    by (auto simp: escape_char_def ESCAPE_MAP_def)
  with Cons show ?case by (auto simp: escape_Cons)
qed simp

lemma escape_not_Nil [simp]: "escape s = [] \<longleftrightarrow> s = []"
proof (cases s)
  case (Cons c s')
  then show ?thesis by (cases c rule: escape_char_cases) (simp_all add: escape_Cons)
qed simp

lemma escape_ident: "list_all (\<lambda>c. c \<notin> fst ` set ESCAPE_MAP) s \<Longrightarrow> escape s = s"
proof (induction s)
  case (Cons c s)
  then have "map_of ESCAPE_MAP c = None" by (simp add: map_of_eq_None_iff)
  then have "escape_char c = [c]" by (simp add: escape_char_def)
  with Cons show ?case by (simp add: escape_Cons)
qed simp

section \<open>Building a command line\<close>

text \<open>
  One parameter on the line, for an escaping \<open>esc\<close>: a flag such as \<open>-uid\<close> is a bare switch,
  anything else is \<open>key=value\<close>.
\<close>

definition render_part :: "(string \<Rightarrow> string) \<Rightarrow> string \<times> string \<Rightarrow> string" where
  "render_part esc = (\<lambda>(k, v).
     if take 1 k = ''-'' \<and> v = [] then esc k else esc k @ ''='' @ esc v)"

definition buildCommandOrdered :: "string \<Rightarrow> (string \<times> string) list \<Rightarrow> string" where
  "buildCommandOrdered cmd ps = join_with '' '' (escape cmd # map (render_part escape) ps)"

text \<open>\<open>buildCommand\<close> takes the entries of a record; a flag gets no special form there.\<close>

definition buildCommand :: "string \<Rightarrow> (string \<times> string) list \<Rightarrow> string" where
  "buildCommand cmd ps =
     join_with '' '' (escape cmd # map (\<lambda>(k, v). escape k @ ''='' @ escape v) ps)"

section \<open>Parsing a command line\<close>

record command =
  cmd_name :: string
  cmd_params :: params

text \<open>\<open>isCommandName\<close>: the pattern \<open>^[A-Za-z0-9]+$\<close>.\<close>

definition isCommandName :: "string \<Rightarrow> bool" where
  "isCommandName token \<longleftrightarrow> token \<noteq> [] \<and> list_all is_alnum token"

text \<open>One part of a line: split at its first equals sign, both sides unescaped.\<close>

definition parse_part :: "(string \<Rightarrow> string) \<Rightarrow> string \<Rightarrow> string \<times> string" where
  "parse_part unesc p =
     (if CHR ''='' \<in> set p
      then (unesc (takeWhile (\<lambda>c. c \<noteq> CHR ''='') p), unesc (tl (dropWhile (\<lambda>c. c \<noteq> CHR ''='') p)))
      else (unesc p, []))"

text \<open>The loop over the parts: an empty part is skipped, a repeated key takes the later value.\<close>

definition parse_params :: "string list \<Rightarrow> params" where
  "parse_params parts =
     foldl (\<lambda>m p. if p = [] then m else (case parse_part unescape p of (k, v) \<Rightarrow> m(k \<mapsto> v)))
       Map.empty parts"

text \<open>Leading characters outside 0x20 to 0x7E are skipped, unless the text holds no other.\<close>

definition skip_unprintable :: "string \<Rightarrow> string" where
  "skip_unprintable s =
     (if list_ex is_printable s then dropWhile (\<lambda>c. \<not> is_printable c) s else s)"

definition parseCommand :: "string \<Rightarrow> command option" where
  "parseCommand s =
     (if s = [] then None
      else let parts = split_on CHR '' '' (skip_unprintable s); first = hd parts
           in if first = [] then None
              else if isCommandName first
                then Some \<lparr>cmd_name = first, cmd_params = parse_params (tl parts)\<rparr>
                else Some \<lparr>cmd_name = [], cmd_params = parse_params parts\<rparr>)"

section \<open>What building and parsing need of an escaping\<close>

locale value_codec =
  fixes esc :: "string \<Rightarrow> string"
    and unesc :: "string \<Rightarrow> string"
  assumes unesc_esc: "unesc (esc s) = s"
    and esc_no_space: "CHR '' '' \<notin> set (esc s)"
    and esc_no_pipe: "CHR ''|'' \<notin> set (esc s)"
    and esc_eq_iff: "CHR ''='' \<in> set (esc s) \<longleftrightarrow> CHR ''='' \<in> set s"
    and esc_Nil_iff: "esc s = [] \<longleftrightarrow> s = []"
begin

lemma esc_inj: "esc s = esc t \<longleftrightarrow> s = t"
  by (metis unesc_esc)

lemma parse_render_part:
  assumes "CHR ''='' \<notin> set k"
  shows "parse_part unesc (render_part esc (k, v)) = (k, v)"
proof -
  have k: "CHR ''='' \<notin> set (esc k)" using assms by (simp add: esc_eq_iff)
  then have "takeWhile (\<lambda>c. c \<noteq> CHR ''='') (esc k @ ''='' @ esc v) = esc k"
    and "dropWhile (\<lambda>c. c \<noteq> CHR ''='') (esc k @ ''='' @ esc v) = ''='' @ esc v"
    by (auto simp: takeWhile_append dropWhile_append)
  with k show ?thesis by (auto simp: render_part_def parse_part_def unesc_esc)
qed

lemma render_part_not_Nil: "render_part esc (k, v) \<noteq> []"
  by (auto simp: render_part_def esc_Nil_iff)

lemma render_part_no_space: "CHR '' '' \<notin> set (render_part esc p)"
  by (cases p) (auto simp: render_part_def esc_no_space)

lemma render_part_no_pipe: "CHR ''|'' \<notin> set (render_part esc p)"
  by (cases p) (auto simp: render_part_def esc_no_pipe)

lemma split_rendered:
  assumes "CHR '' '' \<notin> set hdr"
  shows "split_on CHR '' '' (join_with '' '' (hdr # map (render_part esc) ps)) =
           hdr # map (render_part esc) ps"
  using assms by (intro split_on_join) (auto simp: render_part_no_space)

lemma rendered_no_pipe:
  assumes "CHR ''|'' \<notin> set hdr"
  shows "CHR ''|'' \<notin> set (join_with '' '' (hdr # map (render_part esc) ps))"
proof -
  have "CHR ''|'' \<notin> \<Union> (set ` set (hdr # map (render_part esc) ps))"
    using assms by (auto simp: render_part_no_pipe)
  then show ?thesis using set_join_with[of "'' ''" "hdr # map (render_part esc) ps"] by auto
qed

end

interpretation escaping: value_codec escape unescape
proof unfold_locales
  fix s
  show "unescape (escape s) = s" by (rule unescape_escape)
  show "CHR '' '' \<notin> set (escape s)" "CHR ''|'' \<notin> set (escape s)"
    using escape_no_delimiter[of s] by (auto simp: delimiters_def)
  show "CHR ''='' \<in> set (escape s) \<longleftrightarrow> CHR ''='' \<in> set s" by (rule escape_keeps_eq)
  show "escape s = [] \<longleftrightarrow> s = []" by simp
qed

section \<open>Parsing what was built\<close>

lemma parse_params_rendered_acc:
  assumes "\<forall>(k, v)\<in>set ps. CHR ''='' \<notin> set k"
  shows "foldl (\<lambda>m p. if p = [] then m else (case parse_part unescape p of (k, v) \<Rightarrow> m(k \<mapsto> v)))
           m (map (render_part escape) ps) = m ++ map_of (rev ps)"
  using assms
proof (induction ps arbitrary: m)
  case (Cons p ps)
  then show ?case
    by (cases p) (simp add: escaping.parse_render_part escaping.render_part_not_Nil)
qed simp

lemma parse_params_rendered:
  "\<forall>(k, v)\<in>set ps. CHR ''='' \<notin> set k \<Longrightarrow>
     parse_params (map (render_part escape) ps) = map_of (rev ps)"
  unfolding parse_params_def by (simp add: parse_params_rendered_acc)

lemma skip_unprintable_printable: "s \<noteq> [] \<Longrightarrow> is_printable (hd s) \<Longrightarrow> skip_unprintable s = s"
  by (cases s) (auto simp: skip_unprintable_def)

lemma parseCommand_parts:
  assumes "p \<noteq> []" "is_printable (hd p)" "\<forall>q\<in>set (p # ps). CHR '' '' \<notin> set q"
  shows "parseCommand (join_with '' '' (p # ps)) =
    Some (if isCommandName p then \<lparr>cmd_name = p, cmd_params = parse_params ps\<rparr>
          else \<lparr>cmd_name = [], cmd_params = parse_params (p # ps)\<rparr>)"
proof -
  let ?s = "join_with '' '' (p # ps)"
  have s: "?s \<noteq> []" "hd ?s = hd p"
    using assms(1) by (cases "ps = []"; simp add: join_with_Cons)+
  then have "skip_unprintable ?s = ?s" using assms(2) by (simp add: skip_unprintable_printable)
  moreover have "split_on CHR '' '' ?s = p # ps" using assms(3) by (intro split_on_join) auto
  ultimately show ?thesis using s assms(1) by (simp add: parseCommand_def)
qed

lemma isCommandName_facts:
  assumes "isCommandName cmd"
  shows "escape cmd = cmd" "cmd \<noteq> []" "is_printable (hd cmd)" "CHR '' '' \<notin> set cmd"
proof -
  have a: "\<forall>c\<in>set cmd. is_alnum c" and n: "cmd \<noteq> []"
    using assms by (auto simp: isCommandName_def list_all_iff)
  have x: "c \<notin> fst ` set ESCAPE_MAP" if "is_alnum c" for c
    using that by (auto simp: ESCAPE_MAP_def is_alnum_def is_digit_def)
  show "escape cmd = cmd" using a x by (intro escape_ident) (auto simp: list_all_iff)
  show "cmd \<noteq> []" by (rule n)
  show "is_printable (hd cmd)" using a n by (simp add: is_alnum_printable)
  show "CHR '' '' \<notin> set cmd" using a by (auto simp: is_alnum_def is_digit_def)
qed

lemma parse_buildCommandOrdered:
  assumes "isCommandName cmd" "\<forall>(k, v)\<in>set ps. CHR ''='' \<notin> set k"
  shows "parseCommand (buildCommandOrdered cmd ps) = Some \<lparr>cmd_name = cmd, cmd_params = map_of (rev ps)\<rparr>"
proof -
  note c = isCommandName_facts[OF assms(1)]
  have "\<forall>q\<in>set (cmd # map (render_part escape) ps). CHR '' '' \<notin> set q"
    using c(4) by (auto simp: escaping.render_part_no_space)
  from parseCommand_parts[OF c(2,3) this] show ?thesis
    using assms by (simp add: buildCommandOrdered_def c(1) parse_params_rendered)
qed

end
