(* ===== verification/Init_Handshake.thy ===== *)
theory Init_Handshake
  imports Session_Crypt License_Chain Command_Codec
begin

text \<open>
  The handshake before the session has keys: \<^verbatim>\<open>src/client/handshake/crypt-handshake.ts\<close> (the Init1
  steps and the RSA puzzle), what \<^verbatim>\<open>#handlePacket\<close> of \<^verbatim>\<open>src/client/client.ts\<close> does with an Init1
  packet, and \<^verbatim>\<open>src/client/handshake/crypt-init2.ts\<close> with the client's half of
  \<^verbatim>\<open>src/client/handshake.ts\<close>.

  Init1 is not authenticated, so anyone can send any of it. Solving the puzzle is asynchronous: a step
  that starts it and a step that ends it, with anything in between. The state is that of one
  connection attempt, which has a \<^verbatim>\<open>Crypt\<close> of its own: the two \<^verbatim>\<open>WeakMap\<close>s of the code are the fields
  \<open>in_solving\<close> and \<open>in_answered\<close>, and the promises still running are \<open>in_solves\<close>. Base64, UTF-8, random bytes and the identity's key are arguments.
\<close>

section \<open>The steps\<close>

definition INIT_VERSION :: nat where "INIT_VERSION = 1566914096"
definition INIT_VERSION_LEN :: nat where "INIT_VERSION_LEN = 4"
definition INIT_TYPE_LEN :: nat where "INIT_TYPE_LEN = 1"
definition INIT_STEP_LEN :: nat where "INIT_STEP_LEN = 21"

record answered =
  an_challenge :: bytes
  an_answer :: bytes
  an_level :: nat

record init_attempt =
  in_crypt :: crypt_state
  in_solving :: "bytes option"
  in_solves :: "bytes list"
  in_answered :: "answered option"
  in_aborted :: bool
  in_sent :: "bytes list"
  in_failed :: "crypt_error option"

definition new_attempt :: "crypt_state \<Rightarrow> init_attempt" where
  "new_attempt c = \<lparr>in_crypt = c, in_solving = None, in_solves = [], in_answered = None, in_aborted = False,
     in_sent = [], in_failed = None\<rparr>"

text \<open>\<open>clock\<close> is the wall clock in seconds, \<open>rng\<close> four random bytes.\<close>

definition buildInit1StartPacket :: "int \<Rightarrow> bytes \<Rightarrow> bytes" where
  "buildInit1StartPacket clock rng =
     be_bytes 4 INIT_VERSION @ [0x00] @ be_bytes 4 (nat (max 0 (min clock 0xffffffff))) @ rng @ replicate 8 0"

definition buildInit1Step1Packet :: "bytes \<Rightarrow> bytes option" where
  "buildInit1Step1Packet data =
     (if length data \<noteq> INIT_STEP_LEN then None
      else (let tsRandOffset = INIT_VERSION_LEN + INIT_TYPE_LEN + 4;
                tsRand = le_val (take 4 (drop tsRandOffset data))
            in Some ([0x01] @ replicate 16 0 @ be_bytes 4 tsRand)))"

definition buildInit1Step2Packet :: "bytes \<Rightarrow> bytes option" where
  "buildInit1Step2Packet data =
     (if length data \<noteq> INIT_STEP_LEN then None
      else Some (be_bytes 4 INIT_VERSION @ [0x02] @ take 20 (drop 1 data)))"

definition buildInit1Step3Packet :: "bytes \<Rightarrow> bytes option" where
  "buildInit1Step3Packet data =
     (if length data \<noteq> INIT_VERSION_LEN + INIT_TYPE_LEN + 16 + 4 then None
      else Some ([0x03] @ replicate 63 0 @ [1] @ replicate 63 0 @ [1] @ be_bytes 4 1 @ replicate 100 0))"

text \<open>What a step comes to: nothing to send, a packet, or a puzzle to solve.\<close>

datatype init_reply = Ignored | Reply bytes | Solving

definition reply_of :: "bytes option \<Rightarrow> init_reply" where
  "reply_of r = (case r of None \<Rightarrow> Ignored | Some bytes \<Rightarrow> Reply bytes)"

definition buildInit1Step4Packet :: "bytes \<Rightarrow> init_attempt \<Rightarrow> (crypt_error + init_reply) \<times> init_attempt" where
  "buildInit1Step4Packet data a =
     (if length data \<noteq> INIT_TYPE_LEN + 64 + 64 + 4 + 100 then (Inr Ignored, a)
      else case in_answered a of
             Some an \<Rightarrow> (Inr (if an_challenge an = data then Reply (an_answer an) else Ignored), a)
           | None \<Rightarrow>
               if in_solving a \<noteq> None then (Inr Ignored, a)
               else (let level = be_val (take 4 (drop (1 + 128) data))
                     in if int level > MAX_RSA_CHALLENGE_LEVEL then (Inl (PuzzleTooHardError level), a)
                        else (Inr Solving, a\<lparr>in_solving := Some data, in_solves := in_solves a @ [data]\<rparr>)))"

definition processInit1 ::
    "int \<Rightarrow> bytes \<Rightarrow> bytes option \<Rightarrow> init_attempt \<Rightarrow> (crypt_error + init_reply) \<times> init_attempt" where
  "processInit1 clock rng packet a =
     (case packet of
        None \<Rightarrow> (Inr (Reply (buildInit1StartPacket clock rng)), a)
      | Some data \<Rightarrow>
          if 1 \<le> length data \<and> data ! 0 = 0x7f then (Inr (Reply (buildInit1StartPacket clock rng)), a)
          else if length data = 0 then (Inr Ignored, a)
          else if data ! 0 = 0 then (Inr (reply_of (buildInit1Step1Packet data)), a)
          else if data ! 0 = 1 then (Inr (reply_of (buildInit1Step2Packet data)), a)
          else if data ! 0 = 2 then (Inr (reply_of (buildInit1Step3Packet data)), a)
          else if data ! 0 = 3 then buildInit1Step4Packet data a
          else (Inr Ignored, a))"

section \<open>Solving\<close>

text \<open>What the client's own side is: the identity's public key, Node's base64 and UTF-8.\<close>

record init_env =
  ie_omega :: string
  ie_base64 :: "bytes \<Rightarrow> string"
  ie_utf8 :: "string \<Rightarrow> bytes"

definition clientinitiv :: "init_env \<Rightarrow> bytes \<Rightarrow> bytes" where
  "clientinitiv env al = ie_utf8 env (buildCommandOrdered ''clientinitiv''
     [(''alpha'', ie_base64 env al), (''omega'', ie_omega env), (''ot'', ''1''), (''ip'', '''')])"

definition puzzle_packet :: "init_env \<Rightarrow> bytes \<Rightarrow> bytes \<Rightarrow> bytes \<Rightarrow> bytes" where
  "puzzle_packet env data y al =
     be_bytes 4 INIT_VERSION @ [0x04] @ take 232 (drop 1 data) @ take 64 y @ clientinitiv env al"

text \<open>A solve ends; \<open>aborted\<close> is what it saw of the signal between its slices,
  \<open>random\<close> the new alpha.\<close>

definition solveInit1Challenge ::
    "init_env \<Rightarrow> (nat \<Rightarrow> bool) \<Rightarrow> bytes \<Rightarrow> bytes \<Rightarrow> nat \<Rightarrow> init_attempt \<Rightarrow> (crypt_error + bytes) \<times> init_attempt" where
  "solveInit1Challenge env aborted random data level a =
     (case solveRsaChallenge aborted data 1 (int level) of
        Inl e \<Rightarrow> (Inl e, a)
      | Inr y \<Rightarrow>
          (let crypt = newAlpha random (in_crypt a);
               sendData = puzzle_packet env data y (alpha crypt)
           in (Inr sendData,
               a\<lparr>in_crypt := crypt,
                 in_answered := Some \<lparr>an_challenge = data, an_answer = sendData, an_level = level\<rparr>\<rparr>)))"

section \<open>The client's side\<close>

definition sends :: "bytes \<Rightarrow> init_attempt \<Rightarrow> init_attempt" where
  "sends p a = a\<lparr>in_sent := in_sent a @ [p]\<rparr>"

text \<open>An Init1 packet arrives.\<close>

definition handleInit1 :: "int \<Rightarrow> bytes \<Rightarrow> bytes \<Rightarrow> init_attempt \<Rightarrow> init_attempt" where
  "handleInit1 clock rng data a =
     (if cryptoInitComplete (in_crypt a) then a
      else case processInit1 clock rng (Some data) a of
             (Inl e, a') \<Rightarrow> a'\<lparr>in_failed := Some e\<rparr>
           | (Inr (Reply p), a') \<Rightarrow> sends p a'
           | (Inr _, a') \<Rightarrow> a')"

text \<open>The promise of the puzzle settles: the answer is sent unless the attempt has ended meanwhile.\<close>

definition solve_ends :: "init_env \<Rightarrow> (nat \<Rightarrow> bool) \<Rightarrow> bytes \<Rightarrow> bytes \<Rightarrow> init_attempt \<Rightarrow> init_attempt" where
  "solve_ends env aborted random data a =
     (if data \<notin> set (in_solves a) then a
      else case solveInit1Challenge env aborted random data (be_val (take 4 (drop 129 data))) a of
             (Inl e, a') \<Rightarrow>
               (let a'' = a'\<lparr>in_solving := None, in_solves := remove1 data (in_solves a)\<rparr>
                in if in_aborted a'' then a'' else a''\<lparr>in_failed := Some e\<rparr>)
           | (Inr answer, a') \<Rightarrow>
               (let a'' = a'\<lparr>in_solving := None, in_solves := remove1 data (in_solves a)\<rparr>
                in if in_aborted a'' then a'' else sends answer a''))"

definition attempt_ends :: "init_attempt \<Rightarrow> init_attempt" where
  "attempt_ends a = a\<lparr>in_aborted := True\<rparr>"

section \<open>The second stage\<close>

text \<open>\<^verbatim>\<open>cryptoInit2\<close>: \<open>verified\<close> is the platform's check of the license's signature under the key
  decoded from \<open>omega\<close>, \<open>None\<close> where that is no key.\<close>

definition cryptoInit2 ::
    "'p curve \<Rightarrow> (bytes \<Rightarrow> bytes) \<Rightarrow> (bytes \<Rightarrow> bytes) \<Rightarrow> (bytes \<Rightarrow> string) \<Rightarrow> (bytes \<Rightarrow> bytes \<Rightarrow> bytes \<Rightarrow> bool option) \<Rightarrow>
     bytes \<Rightarrow> bytes \<Rightarrow> bytes \<Rightarrow> bytes \<Rightarrow> bytes \<Rightarrow> crypt_state \<Rightarrow> crypt_error + crypt_state" where
  "cryptoInit2 cv sha1 sha512 decode verified license omega proof_bytes beta privateKey c =
     (if length (alpha c) = 0
      then Inl (HandshakeError ''initivexpand2 arrived before clientinitiv was sent'')
      else case verified omega license proof_bytes of
             None \<Rightarrow> Inl (HandshakeError ''the server's public key is invalid'')
           | Some False \<Rightarrow> Inl (HandshakeError ''the server's license proof is not valid'')
           | Some True \<Rightarrow>
               (case parseLicenses decode sha512 license of
                  Inl _ \<Rightarrow> Inl (HandshakeError ''the server's license is invalid'')
                | Inr blocks \<Rightarrow>
                    (case Option.bind (deriveKey cv blocks) (\<lambda>key. getSharedSecret2 cv sha512 key privateKey) of
                       None \<Rightarrow> Inl (HandshakeError ''the server's license is invalid'')
                     | Some sharedSecret \<Rightarrow> setSharedSecret sha1 (alpha c) beta sharedSecret c)))"

text \<open>What \<^verbatim>\<open>clientek\<close> signs: the temporary public key and up to 54 bytes of \<open>beta\<close>, in 86 bytes.\<close>

definition buildClientEkProof :: "bytes \<Rightarrow> bytes \<Rightarrow> bytes" where
  "buildClientEkProof publicKey beta =
     (let b = take (min 54 (length beta)) beta
      in take 32 publicKey @ b @ replicate (54 - length b) 0)"

definition clientek :: "(bytes \<Rightarrow> string) \<Rightarrow> (bytes \<Rightarrow> bytes) \<Rightarrow> bytes \<Rightarrow> bytes \<Rightarrow> string" where
  "clientek base64 sign publicKey beta = buildCommandOrdered ''clientek''
     [(''ek'', base64 publicKey), (''proof'', base64 (sign (buildClientEkProof publicKey beta)))]"

section \<open>One answer per attempt\<close>

inductive init_step :: "init_env \<Rightarrow> init_attempt \<Rightarrow> init_attempt \<Rightarrow> bool" for env where
  packet: "init_step env a (handleInit1 clock rng data a)"
| solved: "init_step env a (solve_ends env aborted random data a)"
| ends: "init_step env a (attempt_ends a)"
| keys: "in_answered a \<noteq> None \<Longrightarrow> alpha c = alpha (in_crypt a) \<Longrightarrow> init_step env a (a\<lparr>in_crypt := c\<rparr>)"

text \<open>The packets that answer a puzzle are those with a 4 behind the version.\<close>

definition answers_puzzle :: "bytes \<Rightarrow> bool" where
  "answers_puzzle p \<longleftrightarrow> p ! 4 = 4"

definition solves :: "nat \<Rightarrow> bytes \<Rightarrow> bytes \<Rightarrow> bool" where
  "solves level data y \<longleftrightarrow>
     (let x = be_val (take 64 (drop 1 data)); n = be_val (take 64 (drop 65 data))
      in n \<noteq> 0 \<and> int level \<le> MAX_RSA_CHALLENGE_LEVEL \<and> y = be_bytes 64 (if level = 0 then x else x ^ (2 ^ level) mod n))"

definition answer_ok :: "init_env \<Rightarrow> init_attempt \<Rightarrow> answered \<Rightarrow> bool" where
  "answer_ok env a an \<longleftrightarrow> an_level an = be_val (take 4 (drop 129 (an_challenge an))) \<and> length (an_challenge an) = 233 \<and>
     (\<exists>y. solves (an_level an) (an_challenge an) y \<and>
        an_answer an = puzzle_packet env (an_challenge an) y (alpha (in_crypt a)))"

definition init_ok :: "init_env \<Rightarrow> init_attempt \<Rightarrow> bool" where
  "init_ok env a \<longleftrightarrow>
     (case in_answered a of
        None \<Rightarrow> (\<forall>p\<in>set (in_sent a). \<not> answers_puzzle p) \<and>
          (case in_solving a of None \<Rightarrow> in_solves a = [] | Some d \<Rightarrow> in_solves a = [d] \<and> length d = 233)
      | Some an \<Rightarrow> in_solving a = None \<and> in_solves a = [] \<and> answer_ok env a an \<and>
          (\<forall>p\<in>set (in_sent a). answers_puzzle p \<longrightarrow> p = an_answer an))"


lemma built_no_answer:
  "\<not> answers_puzzle (buildInit1StartPacket clock rng)"
  "buildInit1Step1Packet data = Some p \<Longrightarrow> \<not> answers_puzzle p"
  "buildInit1Step2Packet data = Some p \<Longrightarrow> \<not> answers_puzzle p"
  "buildInit1Step3Packet data = Some p \<Longrightarrow> \<not> answers_puzzle p"
  by (auto simp: answers_puzzle_def buildInit1StartPacket_def buildInit1Step1Packet_def buildInit1Step2Packet_def
      buildInit1Step3Packet_def nth_append nth_Cons' Let_def split: if_splits)

lemma step4_cases:
  assumes "buildInit1Step4Packet data a = (r, a')"
  shows "(r = Inr Solving \<and> in_answered a = None \<and> in_solving a = None \<and> length data = 233 \<and>
      a' = a\<lparr>in_solving := Some data, in_solves := in_solves a @ [data]\<rparr>) \<or>
    a' = a \<and> r \<noteq> Inr Solving \<and> (\<forall>p. r = Inr (Reply p) \<longrightarrow> (\<exists>an. in_answered a = Some an \<and> p = an_answer an))"
  using assms by (auto simp: buildInit1Step4Packet_def Let_def INIT_TYPE_LEN_def split: if_splits option.splits)

lemma processInit1_cases:
  assumes "processInit1 clock rng (Some data) a = (r, a')"
  shows "(r = Inr Solving \<and> in_answered a = None \<and> in_solving a = None \<and> length data = 233 \<and>
      a' = a\<lparr>in_solving := Some data, in_solves := in_solves a @ [data]\<rparr>) \<or>
    a' = a \<and> r \<noteq> Inr Solving \<and>
      (\<forall>p. r = Inr (Reply p) \<longrightarrow> \<not> answers_puzzle p \<or> (\<exists>an. in_answered a = Some an \<and> p = an_answer an))"
proof (cases "data \<noteq> [] \<and> data ! 0 = 3")
  case True
  then have "buildInit1Step4Packet data a = (r, a')" using assms by (simp add: processInit1_def split: if_splits)
  from step4_cases[OF this] show ?thesis by blast
next
  case False
  then show ?thesis using assms built_no_answer
    by (auto simp: processInit1_def reply_of_def split: if_splits option.splits)
qed

lemma init_ok_new: "init_ok env (new_attempt c)"
  by (simp add: init_ok_def new_attempt_def)

lemma init_ok_handle:
  assumes "init_ok env a"
  shows "init_ok env (handleInit1 clock rng data a)"
proof (cases "cryptoInitComplete (in_crypt a)")
  case False
  obtain r a' where p: "processInit1 clock rng (Some data) a = (r, a')" by fastforce
  note c = processInit1_cases[OF p]
  show ?thesis
  proof (cases "r = Inr Solving")
    case True
    with c assms show ?thesis by (auto simp: handleInit1_def False p init_ok_def)
  next
    case r: False
    with c have a': "a' = a" by blast
    show ?thesis
    proof (cases "\<exists>q. r = Inr (Reply q)")
      case True
      then obtain q where q: "r = Inr (Reply q)" by blast
      with c r have "\<not> answers_puzzle q \<or> (\<exists>an. in_answered a = Some an \<and> q = an_answer an)" by blast
      then show ?thesis using assms q
        by (auto simp: handleInit1_def False p a' init_ok_def sends_def answer_ok_def split: option.splits)
    next
      case no: False
      have "init_ok env (a\<lparr>in_failed := f\<rparr>)" for f
        using assms by (auto simp: init_ok_def answer_ok_def split: option.splits)
      then show ?thesis using no assms
        by (auto simp: handleInit1_def False p a' split: sum.splits init_reply.splits)
    qed
  qed
qed (use assms in \<open>simp add: handleInit1_def\<close>)

lemma puzzle_packet_answers: "answers_puzzle (puzzle_packet env data y al)"
  by (simp add: answers_puzzle_def puzzle_packet_def nth_append)

lemma init_ok_solve:
  assumes "init_ok env a"
  shows "init_ok env (solve_ends env aborted random d a)"
proof (cases "d \<in> set (in_solves a)")
  case True
  then have none: "in_answered a = None" using assms by (auto simp: init_ok_def split: option.splits)
  with True assms have d: "length d = 233" "\<forall>p\<in>set (in_sent a). \<not> answers_puzzle p" "in_solves a = [d]"
    by (auto simp: init_ok_def split: option.splits)
  let ?l = "be_val (take 4 (drop 129 d))"
  show ?thesis
  proof (cases "solveRsaChallenge aborted d 1 (int ?l)")
    case (Inl e)
    then show ?thesis using none d
      by (simp add: solve_ends_def solveInit1Challenge_def init_ok_def Let_def)
  next
    case (Inr y)
    note s = solveRsaChallenge_Inr[OF Inr]
    define x where "x = be_val (take 64 (drop 1 d))"
    have "y = be_bytes 64 (if ?l = 0 then x else x ^ (2 ^ ?l) mod be_val (take 64 (drop 65 d)))"
      using solveRsaChallenge_value[of "\<lambda>_. False" "int ?l" x 1 d, OF _ s(1,2) _ refl s(3)] s(4)
      by (auto simp: x_def)
    then have "solves ?l d y" using s by (simp add: solves_def Let_def x_def)
    then show ?thesis using Inr d
      by (auto simp: solve_ends_def solveInit1Challenge_def init_ok_def Let_def sends_def answer_ok_def newAlpha_def)
  qed
qed (use assms in \<open>simp add: solve_ends_def\<close>)

lemma init_ok_step: "init_step env a a' \<Longrightarrow> init_ok env a \<Longrightarrow> init_ok env a'"
proof (induction rule: init_step.induct)
  case (keys a c)
  then have "answer_ok env (a\<lparr>in_crypt := c\<rparr>) an = answer_ok env a an" for an by (simp add: answer_ok_def)
  with keys show ?case by (auto simp: init_ok_def)
next
  case (ends a)
  have "answer_ok env (attempt_ends a) an = answer_ok env a an" for an by (simp add: answer_ok_def attempt_ends_def)
  with ends show ?case by (simp add: init_ok_def attempt_ends_def split: option.splits)
qed (simp_all add: init_ok_handle init_ok_solve)

lemma init_runs:
  assumes "(init_step env)\<^sup>*\<^sup>* (new_attempt c) a"
  shows "init_ok env a"
  using assms by induction (auto simp: init_ok_new intro: init_ok_step)

text \<open>What was answered stays answered, and the alpha in the answer the attempt's alpha.\<close>

lemma handle_keeps:
  "in_answered a = Some an \<Longrightarrow>
    in_answered (handleInit1 clock rng data a) = Some an \<and> in_crypt (handleInit1 clock rng data a) = in_crypt a"
  using processInit1_cases[of clock rng data a]
  by (auto simp: handleInit1_def sends_def split: prod.splits sum.splits init_reply.splits)

lemma answered_stays:
  "init_step env a a' \<Longrightarrow> init_ok env a \<Longrightarrow> in_answered a = Some an \<Longrightarrow>
     in_answered a' = Some an \<and> alpha (in_crypt a') = alpha (in_crypt a)"
proof (induction rule: init_step.induct)
  case (packet a clock rng data)
  then show ?case using handle_keeps by simp
next
  case (solved a aborted random data)
  then have "in_solves a = []" by (simp add: init_ok_def)
  then show ?case using solved by (simp add: solve_ends_def)
qed (auto simp: attempt_ends_def)

end
