(* ===== verification/Samples.thy ===== *)
theory Samples
  imports Handler_Closing Handler_Packets Handler_Receipt Init_Handshake
begin

text \<open>
  Small concrete inputs: a packet and what a fresh stream does with it; an environment whose
  block cipher tells the dummy key from any other, so that an acknowledgement sealed under the dummy
  key opens under it alone; and a group of three points in the place of the curve.
\<close>

definition sample_packet :: packet where
  "sample_packet = \<lparr>typeFlagged = 0x22, pk_id = 0, clientID = 0, generationID = 0,
     pk_data = [65], receivedAt = 0\<rparr>"

lemma sample_received:
  "\<exists>r. receive_command sample_packet (new_stream, 0) = Some ([sample_packet], r)"
  by (simp add: receive_command_def admission_of_def isInWindow_def needed_id_def new_stream_def
      new_window_def handle_queue_def hold_def release_def tryReassemble_def tryDecompress_def
      has_flag_def packetFlags_def sample_packet_def data_length_def next_id_def flag_defs
      RECEIVE_PACKET_WINDOW_SIZE_def Let_def)

definition toy_env :: environment where
  "toy_env = \<lparr>env_aes = \<lambda>k b. if k = DUMMY_KEY then replicate 16 0 else replicate 16 1,
     env_sha256 = \<lambda>m. replicate 32 0, env_send_throws = \<lambda>_. False\<rparr>"
definition toy_handler :: handler where
  "toy_handler = (new_handler (new_crypt\<lparr>cryptoInitComplete := True\<rparr>) 0)\<lparr>dummyCommandIDs := [5]\<rparr>"
definition toy_ack :: packet where
  "toy_ack = \<lparr>typeFlagged = 6, pk_id = 0, clientID = 0, generationID = 0, pk_data = [], receivedAt = 0\<rparr>"

lemma toy_cmac: "aesCmac (env_aes toy_env) k m = replicate 16 (if k = DUMMY_KEY then 0 else 1)"
  by (subst aesCmac_rfc4493) (simp_all add: toy_env_def rfc_cmac_def Let_def)

lemma toy_eax:
  "eax_decrypt (env_aes toy_env) k n h ct (replicate 8 0) =
     (if k = DUMMY_KEY then Inr ct else Inl EAXTagMismatchError)"
proof -
  define c :: byte where "c = (if k = DUMMY_KEY then 0 else 1)"
  have cmac: "aesCmac (env_aes toy_env) k m = replicate 16 c" for m by (simp add: toy_cmac c_def)
  have tag: "xor_tag (replicate 16 c) (replicate 16 c) (replicate 16 c) = replicate 8 c"
    by (rule nth_equalityI) (simp_all add: xor_tag_def EAX_TAG_SIZE_def)
  have ctr: "aesCtr (env_aes toy_env) k iv ct = ct" if "k = DUMMY_KEY" for iv
    using that by (intro nth_equalityI) (simp_all add: aesCtr_def toy_env_def)
  have "eax_decrypt (env_aes toy_env) k n h ct (replicate 8 0) =
      (if c \<noteq> 0 then Inl EAXTagMismatchError else Inr (aesCtr (env_aes toy_env) k (replicate 16 c) ct))"
    by (simp add: eax_decrypt_def eax_cmac_def cmac tag EAX_TAG_SIZE_def Let_def)
  then show ?thesis using ctr by (simp add: c_def)
qed

lemma zero_neq_99: "(0 :: byte) \<noteq> 99"
  by simp

lemma toy_opens: "fst (decryptPacketData toy_env toy_ack [0,0,6] [0,5] (replicate 8 0) toy_handler) = Some ([0,5], True)"
proof -
  have key: "mix_packet_id (replicate 16 0) 0 = replicate 16 0"
    by (simp add: mix_packet_id_def numeral_eq_Suc)
  have dk: "length DUMMY_KEY = 16" "DUMMY_KEY ! 0 = 99" by (simp_all add: DUMMY_KEY_def ascii_def)
  have "(replicate 16 0 :: bytes) ! 0 = 0" by simp
  with dk(2) have dn: "replicate 16 0 \<noteq> DUMMY_KEY" by (metis zero_neq_99)
  have t: "packetType toy_ack = Ack" "\<not> isUnencrypted toy_ack" "pk_id toy_ack = 0" "generationID toy_ack = 0"
    by (simp_all add: toy_ack_def packetType_def packetTypeOfByte_def named_types_def isUnencrypted_def has_flag_def packetFlags_def flag_defs)
  have s: "env_sha256 toy_env = (\<lambda>m. replicate 32 0)" by (simp add: toy_env_def)
  show ?thesis
    by (simp add: decryptPacketData_def t toy_handler_def new_handler_def new_crypt_def crypt_decrypt_def Let_def
        getKeyNonce_def derive_key_nonce_def key s dk dn new_EAX_def toy_eax INIT1_PACKET_TYPE_def be_val_def)
qed

section \<open>A group of three points\<close>

datatype z3 = Zero_Point | Plus_Point | Minus_Point

fun z3_add :: "z3 \<Rightarrow> z3 \<Rightarrow> z3" where
  "z3_add Zero_Point q = q"
| "z3_add p Zero_Point = p"
| "z3_add Plus_Point Plus_Point = Minus_Point"
| "z3_add Minus_Point Minus_Point = Plus_Point"
| "z3_add p q = Zero_Point"

fun z3_negate :: "z3 \<Rightarrow> z3" where
  "z3_negate Plus_Point = Minus_Point"
| "z3_negate Minus_Point = Plus_Point"
| "z3_negate Zero_Point = Zero_Point"

fun z3_toBytes :: "z3 \<Rightarrow> bytes" where
  "z3_toBytes Zero_Point = 1 # replicate 31 0"
| "z3_toBytes Plus_Point = replicate 31 0 @ [0]"
| "z3_toBytes Minus_Point = replicate 31 0 @ [0x80]"

definition z3_fromBytes :: "bytes \<Rightarrow> z3 option" where
  "z3_fromBytes bs = Some (if hd bs = 1 then Zero_Point else if last bs = 0x80 then Minus_Point else Plus_Point)"

definition z3_curve :: "z3 curve" where
  "z3_curve = \<lparr>cv_order = 2 ^ 252 + 5, cv_zero = Zero_Point, cv_base = Plus_Point, cv_add = z3_add,
     cv_negate = z3_negate, cv_multiply = (\<lambda>p k. Some ((z3_add p ^^ k) Zero_Point)),
     cv_fromBytes = z3_fromBytes, cv_toBytes = z3_toBytes\<rparr>"

lemma z3_times: "times z3_curve p k = (z3_add p ^^ k) Zero_Point"
  by (induction k) (simp_all add: z3_curve_def)

lemma z3_laws: "curve_laws z3_curve"
proof -
  have "z3_add (z3_add a b) c = z3_add a (z3_add b c)" for a b c by (cases a; cases b; cases c; simp)
  moreover have "z3_add a b = z3_add b a" for a b by (cases a; cases b; simp)
  moreover have "z3_add a (z3_negate a) = Zero_Point" "z3_add Zero_Point a = a" for a by (cases a; simp)+
  moreover have "length (z3_toBytes a) = 32 \<and> z3_fromBytes (z3_toBytes a) = Some a" for a
    by (cases a) (simp_all add: z3_fromBytes_def hd_append)
  ultimately show ?thesis
    unfolding curve_laws_def z3_times by (auto simp: z3_curve_def CURVE25519_KEY_SIZE_def)
qed

definition z3_block :: license_block where
  "z3_block = \<lparr>lb_key = replicate 32 0, lb_hash = replicate 32 0, lb_properties = [], lb_issuer = [],
     lb_notValidBefore = 0, lb_notValidAfter = 0, lb_blockType = Ephemeral, lb_serverType = 0\<rparr>"

lemma be_val_zeros: "be_val (replicate n 0) = 0"
  by (induction n) (simp add: be_val_def, simp add: be_val_Cons)

lemma z3_clamped: "bytesToBigIntLE (clampScalar (replicate 32 0)) = 2 ^ 254"
proof -
  have c: "clampScalar (replicate 32 0) = replicate 31 0 @ [64]"
    by (rule nth_equalityI) (auto simp: clampScalar_def CURVE25519_KEY_SIZE_def Let_def nth_append nth_list_update
        CLAMP_MASK_LOW_def CLAMP_MASK_HIGH_def CLAMP_HIGH_BIT_def)
  show ?thesis unfolding c by (simp add: bytesToBigIntLE_le_val le_val_def be_val_Cons be_val_zeros)
qed

lemma z3_power: "(z3_add Plus_Point ^^ (k mod 3)) Zero_Point = (z3_add Plus_Point ^^ k) Zero_Point"
  by (rule funpow_mod_eq) (simp add: numeral_eq_Suc)

lemma z3_round: "round_sum z3_curve z3_block Plus_Point Plus_Point = Minus_Point"
  using z3_power[of "2 ^ 254"] z3_clamped unfolding round_sum_def z3_times
  by (simp add: z3_block_def z3_curve_def)

lemma z3_base_order: "times z3_curve (cv_base z3_curve) (cv_order z3_curve) = cv_zero z3_curve"
  using z3_power[of "2 ^ 252 + 5"] unfolding z3_times by (simp add: z3_curve_def)

lemma z3_sign: "sign_encodes z3_curve (times z3_curve (times z3_curve (cv_base z3_curve) 1)
    (bytesToBigIntLE (clampScalar (replicate 32 0))))"
proof -
  have "times z3_curve (times z3_curve (cv_base z3_curve) 1) (2 ^ 254) = Plus_Point"
    using z3_power[of "2 ^ 254"] unfolding z3_times by (simp add: z3_curve_def)
  then show ?thesis unfolding z3_clamped
    by (simp add: sign_encodes_def z3_curve_def flip_sign_def CURVE25519_KEY_SIZE_def list_update_append nth_append
        SHARED_SIGN_BIT_def)
qed

section \<open>A puzzle\<close>

text \<open>The base 3, the modulus 7, level 1.\<close>

definition sample_challenge :: bytes where
  "sample_challenge = [3] @ be_bytes 64 3 @ be_bytes 64 7 @ be_bytes 4 1 @ replicate 100 0"

definition sample_init :: init_env where
  "sample_init = \<lparr>ie_omega = ''key'', ie_base64 = \<lambda>_. ''alpha'', ie_utf8 = \<lambda>_. [1, 2, 3]\<rparr>"

lemma sample_challenge_fields:
  "be_val (take 4 (drop 129 sample_challenge)) = 1" "be_val (take 64 (drop 1 sample_challenge)) = 3"
  "be_val (take 64 (drop 65 sample_challenge)) = 7" "length sample_challenge = 233" "sample_challenge ! 0 = 3"
  by (simp_all add: sample_challenge_def be_val_be_bytes)

lemma sample_handled:
  "handleInit1 0 [] sample_challenge (new_attempt new_crypt) =
     (new_attempt new_crypt)\<lparr>in_solving := Some sample_challenge, in_solves := [sample_challenge]\<rparr>"
  using sample_challenge_fields
  by (simp add: handleInit1_def processInit1_def buildInit1Step4Packet_def new_attempt_def new_crypt_def
      INIT_TYPE_LEN_def MAX_RSA_CHALLENGE_LEVEL_def Let_def)

lemma sample_solved: "\<exists>y. solveRsaChallenge (\<lambda>_. False) sample_challenge 1 (int 1) = Inr y"
  using solveRsaChallenge_value[of "\<lambda>_. False" "int 1" 3 1 sample_challenge 7] sample_challenge_fields
  by (simp add: MAX_RSA_CHALLENGE_LEVEL_def)

end
