(* ===== verification/Command_Request.thy ===== *)
theory Command_Request
  imports Command_Codec
begin

text \<open>
  Rendering a typed command as a line, \<open>src/core/command/request.ts\<close>: the encoding of values,
  the check of parameter names, password parameters, and the rows of a command that takes a
  list. What \<open>encodePassword\<close> does is the transport's rule and is an argument here.
\<close>

section \<open>Requests\<close>

text \<open>
  A parameter value. A \<open>number\<close> here is an integral one below \<open>1e21\<close> in magnitude, whose
  \<open>String\<close> form is decimal; the typed commands send no other.
\<close>

datatype param_value = PString string | PNumber int | PBigint int | PBoolean bool | PUndefined

type_synonym raw_params = "(string \<times> param_value) list"

text \<open>An absent \<open>params\<close>, \<open>rows\<close> or \<open>passwords\<close> is the empty list, as the code's defaults make it.\<close>

record command_request =
  rq_command :: string
  rq_params :: raw_params
  rq_rows :: "raw_params list"
  rq_passwords :: "string list"

fun encodeValue :: "param_value \<Rightarrow> string option" where
  "encodeValue PUndefined = None"
| "encodeValue (PBoolean b) = Some (if b then ''1'' else ''0'')"
| "encodeValue (PString s) = Some s"
| "encodeValue (PNumber n) = Some (string_of_int n)"
| "encodeValue (PBigint n) = Some (string_of_int n)"

text \<open>\<open>VALID_KEY\<close>: the pattern \<open>^-?[A-Za-z0-9_]+$\<close>.\<close>

definition VALID_KEY :: "string \<Rightarrow> bool" where
  "VALID_KEY key \<longleftrightarrow>
     (let t = (if take 1 key = ''-'' then tl key else key)
      in t \<noteq> [] \<and> list_all (\<lambda>c. is_alnum c \<or> c = CHR ''_'') t)"

fun encodeParams ::
  "raw_params \<Rightarrow> string list \<Rightarrow> (string \<Rightarrow> string) \<Rightarrow> js_error + (string \<times> string) list" where
  "encodeParams [] passwords encodePassword = Inr []"
| "encodeParams ((key, value) # ps) passwords encodePassword =
     (if \<not> VALID_KEY key then Inl (TypeError key)
      else bind_result (encodeParams ps passwords encodePassword) (\<lambda>out. Inr (
        if take 1 key = ''-'' then (if value = PBoolean True then (key, []) # out else out)
        else (case value of
            PString s \<Rightarrow>
              if key \<in> set passwords \<and> s \<noteq> [] then (key, encodePassword s) # out
              else (key, s) # out
          | _ \<Rightarrow> (case encodeValue value of None \<Rightarrow> out | Some e \<Rightarrow> (key, e) # out)))))"

text \<open>A row is the parameters alone, with no command name before them.\<close>

definition row_text :: "(string \<times> string) list \<Rightarrow> string" where
  "row_text r = drop 1 (buildCommandOrdered [] r)"

definition encodeRequest :: "command_request \<Rightarrow> (string \<Rightarrow> string) \<Rightarrow> js_error + string" where
  "encodeRequest request encodePassword =
     (let encode = (\<lambda>ps. encodeParams ps (rq_passwords request) encodePassword);
          first = (case rq_rows request of [] \<Rightarrow> [] | r # _ \<Rightarrow> r);
          rest = tl (rq_rows request)
      in bind_result (encode (rq_params request)) (\<lambda>a.
         bind_result (encode first) (\<lambda>b.
         bind_result (map_result (\<lambda>row. bind_result (encode row)
                        (\<lambda>r. Inr (row_text r))) rest) (\<lambda>rows.
         Inr (join_with ''|'' (buildCommandOrdered (rq_command request) (a @ b) # rows))))))"

section \<open>What a request means\<close>

text \<open>
  The reference: the parameters a caller's list stands for, one at a time. A flag is sent when
  true, an unset value is left out, a non-empty password is encoded.
\<close>

definition sent_param ::
  "string list \<Rightarrow> (string \<Rightarrow> string) \<Rightarrow> string \<times> param_value \<Rightarrow> (string \<times> string) option" where
  "sent_param passwords enc = (\<lambda>(key, value).
     if take 1 key = ''-'' then (if value = PBoolean True then Some (key, []) else None)
     else if key \<in> set passwords \<and> value \<notin> {PString [], PUndefined}
       then (case value of PString s \<Rightarrow> Some (key, enc s) | _ \<Rightarrow> map_option (Pair key) (encodeValue value))
     else map_option (Pair key) (encodeValue value))"

definition sent_params ::
  "string list \<Rightarrow> (string \<Rightarrow> string) \<Rightarrow> raw_params \<Rightarrow> (string \<times> string) list" where
  "sent_params passwords enc ps = List.map_filter (sent_param passwords enc) ps"

lemma encodeParams_sent:
  "encodeParams ps passwords enc =
     (case find (\<lambda>(k, _). \<not> VALID_KEY k) ps of
        Some (k, _) \<Rightarrow> Inl (TypeError k)
      | None \<Rightarrow> Inr (sent_params passwords enc ps))"
proof (induction ps)
  case Nil
  then show ?case by (simp add: sent_params_def List.map_filter_def)
next
  case (Cons p ps)
  obtain k v where p: "p = (k, v)" by fastforce
  show ?case
  proof (cases "VALID_KEY k")
    case False
    then show ?thesis by (simp add: p)
  next
    case True
    with Cons show ?thesis
      by (cases v)
        (auto simp: p sent_params_def sent_param_def List.map_filter_simps split: option.splits)
  qed
qed

lemma encodeParams_Inr_iff:
  "encodeParams ps passwords enc = Inr out \<longleftrightarrow>
     (\<forall>(k, v)\<in>set ps. VALID_KEY k) \<and> out = sent_params passwords enc ps"
  by (auto simp: encodeParams_sent find_None_iff find_Some_iff split: option.splits)
     (metis nth_mem case_prodD)

lemma encodeParams_Inl:
  "encodeParams ps passwords enc = Inl e \<Longrightarrow> \<exists>(k, v)\<in>set ps. \<not> VALID_KEY k \<and> e = TypeError k"
  by (auto simp: encodeParams_sent find_Some_iff split: option.splits intro!: bexI[OF _ nth_mem])

lemma sent_params_keys:
  assumes "\<forall>(k, v)\<in>set ps. VALID_KEY k"
  shows "\<forall>(k, s)\<in>set (sent_params passwords enc ps). VALID_KEY k"
proof safe
  fix k s assume "(k, s) \<in> set (sent_params passwords enc ps)"
  then obtain v where "(k, v) \<in> set ps"
    by (auto simp: sent_params_def sent_param_def List.map_filter_def
        split: if_splits param_value.splits)
  with assms show "VALID_KEY k" by auto
qed

lemma VALID_KEY_facts:
  assumes "VALID_KEY k"
  shows "CHR ''='' \<notin> set k" "CHR '' '' \<notin> set k" "k \<noteq> []" "is_printable (hd k)" "escape k = k"
proof -
  have k: "\<forall>c\<in>set k. is_alnum c \<or> c = CHR ''_'' \<or> c = CHR ''-''"
    using assms by (cases k) (auto simp: VALID_KEY_def list_all_iff Let_def split: if_splits)
  show n: "k \<noteq> []" using assms by (auto simp: VALID_KEY_def)
  show "CHR ''='' \<notin> set k" "CHR '' '' \<notin> set k"
    using k by (force simp: is_alnum_def is_digit_def)+
  have "is_printable c" if "is_alnum c \<or> c = CHR ''_'' \<or> c = CHR ''-''" for c
    using that by (auto simp: is_alnum_printable) (simp_all add: is_printable_def)
  with k n show "is_printable (hd k)" by simp
  have "c \<notin> fst ` set ESCAPE_MAP" if "is_alnum c \<or> c = CHR ''_'' \<or> c = CHR ''-''" for c
    using that by (auto simp: ESCAPE_MAP_def is_alnum_def is_digit_def)
  with k show "escape k = k" by (intro escape_ident) (auto simp: list_all_iff)
qed

section \<open>Reading a rendered request back\<close>

definition read_row :: "(string \<times> string) list \<Rightarrow> command option" where
  "read_row r = (if r = [] then None else Some \<lparr>cmd_name = [], cmd_params = map_of (rev r)\<rparr>)"

lemma render_part_valid_key:
  assumes "VALID_KEY k"
  shows "hd (render_part escape (k, v)) = hd k" "\<not> isCommandName (render_part escape (k, v))"
proof -
  note k = VALID_KEY_facts[OF assms]
  show "hd (render_part escape (k, v)) = hd k"
    using k(3) by (auto simp: render_part_def k(5))
  have e: "\<not> is_alnum (CHR ''='')" "\<not> is_alnum (CHR ''-'')"
    by (simp_all add: is_alnum_def is_digit_def)
  show "\<not> isCommandName (render_part escape (k, v))"
  proof (cases "take 1 k = ''-'' \<and> v = []")
    case True
    then have "CHR ''-'' \<in> set k" by (cases k) auto
    with True e show ?thesis by (auto simp: render_part_def isCommandName_def list_all_iff k(5))
  next
    case False
    with e show ?thesis by (auto simp: render_part_def isCommandName_def list_all_iff)
  qed
qed

lemma row_text_cases:
  "row_text r =
     (case r of [] \<Rightarrow> [] | p # ps \<Rightarrow> join_with '' '' (render_part escape p # map (render_part escape) ps))"
  by (cases r) (simp_all add: row_text_def buildCommandOrdered_def)

lemma parse_row:
  assumes "\<forall>(k, v)\<in>set r. VALID_KEY k"
  shows "parseCommand (row_text r) = read_row r"
proof (cases r)
  case Nil
  then show ?thesis by (simp add: row_text_cases read_row_def parseCommand_def)
next
  case (Cons p ps)
  obtain k v where p: "p = (k, v)" by fastforce
  with Cons assms have k: "VALID_KEY k" by simp
  have eq: "\<forall>(k, v)\<in>set r. CHR ''='' \<notin> set k" using assms VALID_KEY_facts(1) by auto
  have "parseCommand (join_with '' '' (render_part escape p # map (render_part escape) ps)) =
    Some \<lparr>cmd_name = [], cmd_params = parse_params (map (render_part escape) r)\<rparr>"
    using render_part_valid_key[OF k] VALID_KEY_facts[OF k]
    by (subst parseCommand_parts)
      (auto simp: p Cons escaping.render_part_not_Nil escaping.render_part_no_space)
  then show ?thesis
    unfolding parse_params_rendered[OF eq] row_text_cases
    by (simp add: Cons read_row_def)
qed

lemma row_no_pipe: "CHR ''|'' \<notin> set (row_text r)"
proof -
  have "CHR ''|'' \<notin> set (join_with '' '' ([] # map (render_part escape) r))"
    by (intro escaping.rendered_no_pipe) simp
  then show ?thesis by (auto simp: row_text_def buildCommandOrdered_def dest: in_set_dropD)
qed

text \<open>The encoded parameters of the first row and of the rows after it.\<close>

definition first_row :: "command_request \<Rightarrow> (string \<Rightarrow> string) \<Rightarrow> (string \<times> string) list" where
  "first_row rq enc = sent_params (rq_passwords rq) enc (rq_params rq)
     @ (case rq_rows rq of [] \<Rightarrow> [] | r # _ \<Rightarrow> sent_params (rq_passwords rq) enc r)"

definition other_rows :: "command_request \<Rightarrow> (string \<Rightarrow> string) \<Rightarrow> (string \<times> string) list list" where
  "other_rows rq enc = map (sent_params (rq_passwords rq) enc) (tl (rq_rows rq))"

definition valid_keys :: "command_request \<Rightarrow> bool" where
  "valid_keys rq \<longleftrightarrow> (\<forall>ps\<in>set (rq_params rq # rq_rows rq). \<forall>(k, v)\<in>set ps. VALID_KEY k)"

lemma encodeRequest_Inr_iff:
  "encodeRequest rq enc = Inr line \<longleftrightarrow> valid_keys rq \<and>
     line = join_with ''|'' (buildCommandOrdered (rq_command rq) (first_row rq enc)
              # map row_text (other_rows rq enc))"
proof -
  have rows: "map_result (\<lambda>row. bind_result (encodeParams row pw enc)
      (\<lambda>r. Inr (row_text r))) rs = Inr out \<longleftrightarrow>
    (\<forall>ps\<in>set rs. \<forall>(k, v)\<in>set ps. VALID_KEY k) \<and>
    out = map row_text (map (sent_params pw enc) rs)" for pw rs out
    by (induction rs arbitrary: out) (auto simp: bind_result_Inr_iff encodeParams_Inr_iff)
  show ?thesis
    by (cases "rq_rows rq")
      (auto simp: encodeRequest_def Let_def bind_result_Inr_iff encodeParams_Inr_iff rows
        first_row_def other_rows_def valid_keys_def)
qed

lemma encodeRequest_Inl_iff: "(\<exists>e. encodeRequest rq enc = Inl e) \<longleftrightarrow> \<not> valid_keys rq"
  by (cases "encodeRequest rq enc")
     (metis Inl_Inr_False encodeRequest_Inr_iff, metis Inl_Inr_False encodeRequest_Inr_iff)

lemma first_row_keys: "valid_keys rq \<Longrightarrow> \<forall>(k, v)\<in>set (first_row rq enc). VALID_KEY k"
  using sent_params_keys[of "rq_params rq"] sent_params_keys[of "hd (rq_rows rq)"]
  by (cases "rq_rows rq") (simp_all add: first_row_def valid_keys_def ball_Un)

lemma other_rows_keys:
  "valid_keys rq \<Longrightarrow> r \<in> set (other_rows rq enc) \<Longrightarrow> \<forall>(k, v)\<in>set r. VALID_KEY k"
  by (cases "rq_rows rq") (auto simp: other_rows_def valid_keys_def dest!: sent_params_keys[rotated])

lemma encoded_rows_split:
  assumes "isCommandName (rq_command rq)" "encodeRequest rq enc = Inr line"
  shows "split_on CHR ''|'' line = buildCommandOrdered (rq_command rq) (first_row rq enc)
           # map row_text (other_rows rq enc)"
proof -
  have "CHR ''|'' \<notin> set (escape (rq_command rq))" by (rule escaping.esc_no_pipe)
  then have "CHR ''|'' \<notin> set (buildCommandOrdered (rq_command rq) (first_row rq enc))"
    unfolding buildCommandOrdered_def by (rule escaping.rendered_no_pipe)
  with assms(2) show ?thesis
    unfolding encodeRequest_Inr_iff using row_no_pipe by (auto intro!: split_on_join)
qed

lemma encoded_request_reads_back:
  assumes "isCommandName (rq_command rq)" "encodeRequest rq enc = Inr line"
  shows "map parseCommand (split_on CHR ''|'' line) =
    Some \<lparr>cmd_name = rq_command rq, cmd_params = map_of (rev (first_row rq enc))\<rparr>
    # map read_row (other_rows rq enc)"
proof -
  from assms(2) have v: "valid_keys rq" by (simp add: encodeRequest_Inr_iff)
  have "\<forall>(k, v)\<in>set (first_row rq enc). CHR ''='' \<notin> set k"
    using first_row_keys[OF v] VALID_KEY_facts(1) by fastforce
  with assms(1) other_rows_keys[OF v] show ?thesis
    unfolding encoded_rows_split[OF assms]
    by (auto simp: parse_buildCommandOrdered parse_row)
qed

end
