(* ===== verification/Ids.thy ===== *)
theory Ids
  imports Prelude
begin

text \<open>
  The branded identifiers of \<open>src/core/command/ids.ts\<close>: the range checks of their
  constructors and the three forms in which a server sends an icon's CRC32. The readers of
  unsigned decimals in \<open>src/core/helpers.ts\<close> are here as well.
\<close>

section \<open>Constructors\<close>

text \<open>
  What a caller may pass where the types say \<open>bigint | number\<close>: an integral number, a bigint,
  or anything else (a fraction, NaN, an infinity, a value of another type).
\<close>

datatype id_arg = IntegralNumber int | BigInt int | OtherValue

definition MAX_UINT16 :: int where "MAX_UINT16 = 0xffff"
definition MAX_UINT32 :: int where "MAX_UINT32 = 0xffffffff"
definition MAX_UINT64 :: int where "MAX_UINT64 = 2 ^ 64 - 1"

fun uintInRange :: "id_arg \<Rightarrow> int \<Rightarrow> string \<Rightarrow> js_error + int" where
  "uintInRange (IntegralNumber v) mx what =
     (if v < 0 \<or> v > mx then Inl (RangeError what) else Inr v)"
| "uintInRange _ mx what = Inl (RangeError what)"

fun uint64 :: "id_arg \<Rightarrow> string \<Rightarrow> js_error + int" where
  "uint64 v what =
     (let value = (case v of IntegralNumber n \<Rightarrow> n | BigInt n \<Rightarrow> n | OtherValue \<Rightarrow> -1)
      in if value < 0 \<or> value > MAX_UINT64 then Inl (RangeError what) else Inr value)"

text \<open>The constructors, by the width of the id they brand.\<close>

definition asChannelID :: "id_arg \<Rightarrow> js_error + int" where
  "asChannelID v = uint64 v ''a channel id''"

definition asClientID :: "id_arg \<Rightarrow> js_error + int" where
  "asClientID v = uintInRange v MAX_UINT16 ''a client id''"

definition asPermissionID :: "id_arg \<Rightarrow> js_error + int" where
  "asPermissionID v = uintInRange v MAX_UINT32 ''a permission id''"

text \<open>\<open>v >>> 0\<close> of an integral number is its residue modulo \<open>2 ^ 32\<close>.\<close>

fun asIconID :: "id_arg \<Rightarrow> js_error + int" where
  "asIconID (IntegralNumber v) =
     (if v < - (2 ^ 31) \<or> v > MAX_UINT32 then Inl (RangeError ''an icon id'') else Inr (v mod 2 ^ 32))"
| "asIconID _ = Inl (RangeError ''an icon id'')"

lemma uintInRange_Inr_iff:
  "uintInRange v mx what = Inr n \<longleftrightarrow> v = IntegralNumber n \<and> 0 \<le> n \<and> n \<le> mx"
  by (cases v) auto

lemma uint64_Inr_iff:
  "uint64 v what = Inr n \<longleftrightarrow> v \<in> {IntegralNumber n, BigInt n} \<and> 0 \<le> n \<and> n < 2 ^ 64"
  by (cases v) (auto simp: MAX_UINT64_def Let_def)

section \<open>Icon ids off the wire\<close>

definition is_js_space :: "char \<Rightarrow> bool" where
  "is_js_space c \<longleftrightarrow> code_of c \<in> {9, 10, 11, 12, 13, 32, 160}"

text \<open>\<open>s.trim()\<close>.\<close>

definition trim :: "string \<Rightarrow> string" where
  "trim s = rev (dropWhile is_js_space (rev (dropWhile is_js_space s)))"

definition SIGN_EXTENDED_MIN :: int where
  "SIGN_EXTENDED_MIN = 2 ^ 64 - 2 ^ 31"

text \<open>The pattern \<open>^-?\d{1,20}$\<close>, and \<open>BigInt\<close> of a text that matches it.\<close>

definition matches_signed_digits :: "string \<Rightarrow> bool" where
  "matches_signed_digits s \<longleftrightarrow>
     (let d = (if take 1 s = ''-'' then tl s else s)
      in d \<noteq> [] \<and> length d \<le> 20 \<and> list_all is_digit d)"

definition bigint_of :: "string \<Rightarrow> int" where
  "bigint_of s =
     (if take 1 s = ''-'' then - int (nat_of_digits (tl s)) else int (nat_of_digits s))"

text \<open>A negative 32-bit number sign-extended to 64 bits and sent unsigned is made negative again.\<close>

definition fold_sign_extended :: "int \<Rightarrow> int" where
  "fold_sign_extended v = (if SIGN_EXTENDED_MIN \<le> v \<and> v < 2 ^ 64 then v - 2 ^ 64 else v)"

definition parseIconID :: "string option \<Rightarrow> int option" where
  "parseIconID raw =
     (let text = trim (case raw of None \<Rightarrow> [] | Some r \<Rightarrow> r)
      in if \<not> matches_signed_digits text then None
         else let value = fold_sign_extended (bigint_of text)
              in if value < - (2 ^ 31) \<or> 2 ^ 32 \<le> value \<or> value = 0 then None
                 else (case asIconID (IntegralNumber value) of Inl _ \<Rightarrow> None | Inr i \<Rightarrow> Some i))"

lemma trim_digits:
  assumes "list_all is_digit s" "s \<noteq> []"
  shows "trim s = s" "trim (CHR ''-'' # s) = CHR ''-'' # s"
proof -
  have sp: "\<not> is_js_space c" if "is_digit c" for c
    using that by (auto simp: is_js_space_def is_digit_def)
  have all: "\<forall>c\<in>set s. \<not> is_js_space c" using assms sp by (auto simp: list_all_iff)
  have "dropWhile is_js_space t = t" if "t \<noteq> []" "\<not> is_js_space (hd t)" for t
    using that by (cases t) auto
  moreover have "\<not> is_js_space (hd s)" "\<not> is_js_space (hd (rev s))"
    using assms(2) all by (auto simp: hd_rev)
  moreover have "\<not> is_js_space (CHR ''-'')" by (simp add: is_js_space_def)
  ultimately show "trim s = s" "trim (CHR ''-'' # s) = CHR ''-'' # s"
    using assms(2) by (auto simp: trim_def)
qed

lemma digit_not_minus: "list_all is_digit s \<Longrightarrow> take 1 s \<noteq> ''-''"
  by (cases s) (auto simp: is_digit_def)

lemma parseIconID_nat:
  assumes "n < 10 ^ 20"
  shows "matches_signed_digits (string_of_nat n)" "bigint_of (string_of_nat n) = int n"
  using assms string_of_nat_digits[of n] length_string_of_nat[of n 20]
    digit_not_minus[OF string_of_nat_digits]
  by (auto simp: matches_signed_digits_def bigint_of_def Let_def)

lemma parseIconID_minus:
  assumes "n < 10 ^ 20"
  shows "matches_signed_digits (CHR ''-'' # string_of_nat n)"
    "bigint_of (CHR ''-'' # string_of_nat n) = - int n"
  using assms string_of_nat_digits[of n] length_string_of_nat[of n 20]
  by (auto simp: matches_signed_digits_def bigint_of_def Let_def)

lemma parseIconID_unsigned:
  assumes "0 < n" "n < 2 ^ 32"
  shows "parseIconID (Some (string_of_nat n)) = Some (int n)"
proof -
  have s: "n < 10 ^ 20" using assms(2) by simp
  have "int n < 2 ^ 32" using assms(2) by simp
  then show ?thesis
    using assms(1) parseIconID_nat[OF s] trim_digits(1)[OF string_of_nat_digits string_of_nat_not_Nil]
    by (simp add: parseIconID_def Let_def fold_sign_extended_def SIGN_EXTENDED_MIN_def MAX_UINT32_def)
qed

lemma parseIconID_signed:
  assumes "0 < k" "k \<le> 2 ^ 31"
  shows "parseIconID (Some (CHR ''-'' # string_of_nat k)) = Some (2 ^ 32 - int k)"
proof -
  have s: "k < 10 ^ 20" and k: "int k \<le> 2 ^ 31" using assms(2) by simp_all
  have "(- int k) mod 2 ^ 32 = 2 ^ 32 - int k"
    using assms(1) k by (simp add: zmod_zminus1_eq_if)
  then show ?thesis
    using k assms(1) parseIconID_minus[OF s] trim_digits(2)[OF string_of_nat_digits string_of_nat_not_Nil]
    by (simp add: parseIconID_def Let_def fold_sign_extended_def SIGN_EXTENDED_MIN_def MAX_UINT32_def)
qed

lemma parseIconID_extended:
  assumes "0 < k" "k \<le> 2 ^ 31"
  shows "parseIconID (Some (string_of_nat (2 ^ 64 - k))) = Some (2 ^ 32 - int k)"
proof -
  have s: "2 ^ 64 - k < 10 ^ 20" and k: "int k \<le> 2 ^ 31" using assms(2) by simp_all
  have e: "int (2 ^ 64 - k) = 2 ^ 64 - int k" using assms(2) by (simp add: of_nat_diff)
  have "(- int k) mod 2 ^ 32 = 2 ^ 32 - int k"
    using assms(1) k by (simp add: zmod_zminus1_eq_if)
  then show ?thesis
    using k assms(1) e parseIconID_nat[OF s] trim_digits(1)[OF string_of_nat_digits string_of_nat_not_Nil]
    by (simp add: parseIconID_def Let_def fold_sign_extended_def SIGN_EXTENDED_MIN_def MAX_UINT32_def)
qed

lemma parseIconID_range:
  assumes "parseIconID raw = Some i"
  shows "0 < i" "i < 2 ^ 32"
proof -
  let ?v = "fold_sign_extended (bigint_of (trim (case raw of None \<Rightarrow> [] | Some r \<Rightarrow> r)))"
  from assms have v: "- (2 ^ 31) \<le> ?v" "?v < 2 ^ 32" "?v \<noteq> 0" "i = ?v mod 2 ^ 32"
    by (auto simp: parseIconID_def Let_def MAX_UINT32_def split: if_splits sum.splits)
  show "i < 2 ^ 32" using v(4) by simp
  show "0 < i"
  proof (cases "?v < 0")
    case True
    with v(1) have "(?v + 2 ^ 32) mod 2 ^ 32 = ?v + 2 ^ 32"
      by (intro mod_pos_pos_trivial) simp_all
    then have "?v mod 2 ^ 32 = ?v + 2 ^ 32" by (simp only: mod_add_self2)
    with v(1,4) True show ?thesis by simp
  next
    case False
    with v show ?thesis by simp
  qed
qed

section \<open>Unsigned decimals\<close>

text \<open>
  \<open>parseUint64\<close>: digits only, leading zeros dropped while another digit follows, at most as
  many digits as \<open>2 ^ 64 - 1\<close> has; anything else reads as 0.
\<close>

fun drop_leading_zeros :: "string \<Rightarrow> string" where
  "drop_leading_zeros (c # d # s) =
     (if c = CHR ''0'' then drop_leading_zeros (d # s) else c # d # s)"
| "drop_leading_zeros s = s"

definition parseUint64 :: "string \<Rightarrow> nat" where
  "parseUint64 s =
     (if s = [] \<or> \<not> list_all is_digit s then 0
      else let digits = drop_leading_zeros s
           in if 20 < length digits then 0
              else let value = nat_of_digits digits in if 2 ^ 64 - 1 < value then 0 else value)"

lemma foldl_digits:
  "foldl (\<lambda>n c. 10 * n + digit_val c) a s =
     a * 10 ^ length s + foldl (\<lambda>n c. 10 * n + digit_val c) 0 s"
proof (induction s arbitrary: a)
  case (Cons c s)
  show ?case
    using Cons[of "10 * a + digit_val c"] Cons[of "digit_val c"] by (simp add: algebra_simps)
qed simp

lemma nat_of_digits_Cons:
  "nat_of_digits (c # s) = digit_val c * 10 ^ length s + nat_of_digits s"
  by (simp add: nat_of_digits_def foldl_digits[of "digit_val c"])

lemma nat_of_digits_drop_zeros: "nat_of_digits (drop_leading_zeros s) = nat_of_digits s"
  by (induction s rule: drop_leading_zeros.induct)
     (simp_all add: nat_of_digits_Cons[of "CHR ''0''"] digit_val_def)

lemma drop_leading_zeros_large:
  assumes "list_all is_digit s" "20 < length (drop_leading_zeros s)"
  shows "2 ^ 64 \<le> nat_of_digits s"
proof -
  have "\<exists>c t. drop_leading_zeros s = c # t \<and> is_digit c \<and> c \<noteq> CHR ''0''"
    using assms by (induction s rule: drop_leading_zeros.induct) (auto split: if_splits)
  then obtain c t where t: "drop_leading_zeros s = c # t" "is_digit c" "c \<noteq> CHR ''0''" by blast
  have "digit_val c \<noteq> 0"
  proof
    assume "digit_val c = 0"
    with t(2) have "code_of c = code_of (CHR ''0'')"
      by (simp add: is_digit_def digit_val_def)
    then have "c = CHR ''0''" by (simp only: of_char_eq_iff)
    with t(3) show False ..
  qed
  moreover have "(10::nat) ^ 20 \<le> 10 ^ length t" using assms(2) t(1) by (intro power_increasing) auto
  ultimately have "10 ^ 20 \<le> nat_of_digits (drop_leading_zeros s)"
    unfolding t(1) nat_of_digits_Cons
    by (cases "digit_val c") (simp_all add: trans_le_add1)
  then show ?thesis by (simp add: nat_of_digits_drop_zeros)
qed

lemma parseUint64_spec:
  "parseUint64 s =
     (if s \<noteq> [] \<and> list_all is_digit s \<and> nat_of_digits s < 2 ^ 64 then nat_of_digits s else 0)"
  using drop_leading_zeros_large[of s]
  by (auto simp: parseUint64_def Let_def nat_of_digits_drop_zeros)

end
