(* ===== verification/Server_Errors.thy ===== *)
theory Server_Errors
  imports Ids
begin

text \<open>
  The \<open>error\<close> line that closes an answer, as \<open>src/core/errors.ts\<close> reads it: the error code, the
  server's refusal and the return code that names the command, and the wait a flooding
  refusal asks for.
\<close>

section \<open>Error codes\<close>

definition ErrorCode_OK :: nat where "ErrorCode_OK = 0"
definition ErrorCode_Undefined :: nat where "ErrorCode_Undefined = 1"
definition ErrorCode_ClientIsFlooding :: nat where "ErrorCode_ClientIsFlooding = 0x020c"

record server_error =
  se_code :: nat
  se_serverMessage :: string
  se_extraMessage :: "string option"
  se_failedPermissionID :: "nat option"
  se_failedPermission :: "string option"

definition parseUint32 :: "string option \<Rightarrow> nat option" where
  "parseUint32 raw =
     (case raw of
        None \<Rightarrow> None
      | Some s \<Rightarrow>
          if s = [] \<or> \<not> list_all is_digit s then None
          else if nat_of_digits s \<le> 0xffffffff then Some (nat_of_digits s) else None)"

definition parseErrorCode :: "string option \<Rightarrow> nat" where
  "parseErrorCode raw = (case parseUint32 raw of Some c \<Rightarrow> c | None \<Rightarrow> ErrorCode_Undefined)"

text \<open>\<open>value || undefined\<close>: an empty text is no text.\<close>

definition or_undefined :: "string option \<Rightarrow> string option" where
  "or_undefined s = (if s = Some [] then None else s)"

definition parseServerError :: "params \<Rightarrow> server_error option \<times> nat option" where
  "parseServerError ps =
     (let code = parseErrorCode (ps ''id'');
          err = (if code \<noteq> ErrorCode_OK
                 then Some \<lparr>se_code = code,
                            se_serverMessage = (case ps ''msg'' of Some m \<Rightarrow> m | None \<Rightarrow> []),
                            se_extraMessage = or_undefined (ps ''extra_msg''),
                            se_failedPermissionID = parseUint32 (ps ''failed_permid''),
                            se_failedPermission = or_undefined (ps ''failed_permission'')\<rparr>
                 else None)
      in (err, parseUint32 (ps ''return_code'')))"

section \<open>Flood waits\<close>

text \<open>The number in a text of the form \<open>pre(\d{1,9})suf\<close>.\<close>

definition match_number :: "string \<Rightarrow> string \<Rightarrow> string \<Rightarrow> nat option" where
  "match_number pre suf s =
     (let mid = take (length s - length pre - length suf) (drop (length pre) s)
      in if s = pre @ mid @ suf \<and> mid \<noteq> [] \<and> length mid \<le> 9 \<and> list_all is_digit mid
         then Some (nat_of_digits mid) else None)"

definition floodWaitMs :: "server_error option \<Rightarrow> nat option" where
  "floodWaitMs error =
     (case error of
        None \<Rightarrow> None
      | Some e \<Rightarrow>
          if se_code e \<noteq> ErrorCode_ClientIsFlooding then None
          else let extra = (case se_extraMessage e of Some x \<Rightarrow> x | None \<Rightarrow> [])
               in (case match_number ''retry in '' ''ms'' extra of
                     Some millis \<Rightarrow> Some millis
                   | None \<Rightarrow> map_option (\<lambda>s. s * 1000) (match_number ''please wait '' '' seconds'' extra)))"

section \<open>Facts\<close>

lemma parseUint32_Some_iff:
  "parseUint32 raw = Some n \<longleftrightarrow>
     (\<exists>s. raw = Some s \<and> s \<noteq> [] \<and> list_all is_digit s \<and> nat_of_digits s = n \<and> n \<le> 0xffffffff)"
  by (auto simp: parseUint32_def split: option.splits)

lemma parseUint32_string_of_nat:
  "n \<le> 0xffffffff \<Longrightarrow> parseUint32 (Some (string_of_nat n)) = Some n"
  by (simp add: parseUint32_def string_of_nat_digits)

lemma parseServerError_ok_iff:
  "fst (parseServerError ps) = None \<longleftrightarrow>
     (\<exists>s. ps ''id'' = Some s \<and> s \<noteq> [] \<and> list_all is_digit s \<and> nat_of_digits s = 0)"
  by (auto simp: parseServerError_def Let_def parseErrorCode_def ErrorCode_OK_def
      ErrorCode_Undefined_def parseUint32_def split: option.splits)

lemma match_number_format:
  assumes "n < 10 ^ 9"
  shows "match_number pre suf (pre @ string_of_nat n @ suf) = Some n"
  using assms length_string_of_nat[of n 9] string_of_nat_digits[of n]
  by (simp add: match_number_def Let_def)

lemma match_number_Some:
  "match_number pre suf s = Some n \<Longrightarrow> \<exists>d. s = pre @ d @ suf \<and> list_all is_digit d \<and> n = nat_of_digits d"
  by (auto simp: match_number_def Let_def split: if_splits)

end
