(* ===== verification/Row_Splitter.thy ===== *)
theory Row_Splitter
  imports Command_Codec
begin

text \<open>
  Expanding a pipe-separated line into rows, \<open>splitCommandRows\<close> of \<open>src/core/helpers.ts\<close>: each
  row inherits the fields of the row before that it does not name, within the two limits that
  keep hostile input from growing quadratically.
\<close>

section \<open>Fields and limits\<close>

text \<open>The name of a token's field: what stands before an equals sign that is not its first character.\<close>

definition fieldName :: "string \<Rightarrow> string" where
  "fieldName token =
     (let key = takeWhile (\<lambda>c. c \<noteq> CHR ''='') token
      in if CHR ''='' \<in> set token \<and> key \<noteq> [] then key else token)"

definition resolveRow :: "string list \<Rightarrow> string list \<Rightarrow> string list" where
  "resolveRow previous tokens =
     filter (\<lambda>token. fieldName token \<notin> fieldName ` set tokens) previous @ tokens"

text \<open>
  \<open>lastPerField\<close>: the Map from field to position makes a later token replace an earlier one of
  its field in place, which is updating an association list by field.
\<close>

definition lastPerField :: "string list \<Rightarrow> string list" where
  "lastPerField tokens =
     map snd (foldl (\<lambda>kept token. AList.update (fieldName token) token kept) [] tokens)"

definition MIN_ROW_BUDGET :: nat where "MIN_ROW_BUDGET = 64 * 1024"
definition ROW_GROWTH :: nat where "ROW_GROWTH = 4"
definition MAX_ROW_AMPLIFICATION :: nat where "MAX_ROW_AMPLIFICATION = 64"

definition rowLimits :: "nat \<Rightarrow> nat \<times> nat" where
  "rowLimits n =
     (let inherit = max (ROW_GROWTH * n) MIN_ROW_BUDGET;
          drp = min (2 * inherit) (MAX_ROW_AMPLIFICATION * n)
      in (min inherit drp, drp))"

section \<open>The loop over the parts\<close>

record split_state =
  sp_rows :: "string list"
  sp_used :: nat
  sp_previous :: "string list"
  sp_inheriting :: bool

text \<open>
  One non-empty part: the row it makes and the state that carries on, or \<^const>\<open>None\<close> where the
  loop breaks.
\<close>

definition add_row :: "string \<Rightarrow> nat \<times> nat \<Rightarrow> string \<Rightarrow> split_state \<Rightarrow> split_state option" where
  "add_row prefix limits part st =
     (let tokens = filter (\<lambda>t. t \<noteq> []) (split_on CHR '' '' part);
          resolved = resolveRow (sp_previous st) tokens;
          inherited = prefix @ join_with '' '' resolved;
          inherits = sp_inheriting st \<and> sp_used st + length inherited \<le> fst limits;
          row = (if inherits then inherited else prefix @ join_with '' '' tokens)
      in if sp_used st + length row > snd limits then None
         else Some \<lparr>sp_rows = sp_rows st @ [row], sp_used = sp_used st + length row,
                    sp_previous = (if inherits then lastPerField resolved
                                   else if sp_inheriting st then [] else sp_previous st),
                    sp_inheriting = inherits\<rparr>)"

fun add_rows :: "string \<Rightarrow> nat \<times> nat \<Rightarrow> string list \<Rightarrow> split_state \<Rightarrow> split_state" where
  "add_rows prefix limits [] st = st"
| "add_rows prefix limits (part # parts) st =
     (if part = [] then add_rows prefix limits parts st
      else (case add_row prefix limits part st of
              None \<Rightarrow> st
            | Some st' \<Rightarrow> add_rows prefix limits parts st'))"

definition init_split :: split_state where
  "init_split = \<lparr>sp_rows = [], sp_used = 0, sp_previous = [], sp_inheriting = True\<rparr>"

text \<open>The name a line carries on every row, and what follows it.\<close>

definition line_head :: "string \<Rightarrow> string \<times> string" where
  "line_head line =
     (let head = takeWhile (\<lambda>c. c \<noteq> CHR '' '') line;
          nam = (if isCommandName head then head else [])
      in (nam, if nam = [] then line else tl (dropWhile (\<lambda>c. c \<noteq> CHR '' '') line)))"

definition splitCommandRows :: "string \<Rightarrow> string list" where
  "splitCommandRows line =
     (case line_head line of (nam, rest) \<Rightarrow>
        if CHR ''|'' \<notin> set rest then [line]
        else let prefix = (if nam = [] then [] else nam @ '' '');
                 st = add_rows prefix (rowLimits (length line)) (split_on CHR ''|'' rest) init_split
             in if sp_rows st = [] then [line] else sp_rows st)"

section \<open>Inheritance\<close>

text \<open>The fields a row of tokens gives, the last token of each field.\<close>

definition fields_of :: "string list \<Rightarrow> string \<rightharpoonup> string" where
  "fields_of tokens = map_of (rev (map (\<lambda>t. (fieldName t, t)) tokens))"

lemma dom_fields_of: "dom (fields_of tokens) = fieldName ` set tokens"
  by (auto simp: fields_of_def dom_map_of_conv_image_fst image_image)

lemma fields_of_append: "fields_of (xs @ ys) = fields_of xs ++ fields_of ys"
  by (simp add: fields_of_def)

lemma map_of_filter_keys:
  "map_of (filter (\<lambda>(k, v). P k) ps) k = (if P k then map_of ps k else None)"
  by (induction ps) auto

lemma fields_of_filter:
  "fields_of (filter (\<lambda>t. fieldName t \<notin> A) xs) = fields_of xs |` (- A)"
proof
  fix k
  have "rev (map (\<lambda>t. (fieldName t, t)) (filter (\<lambda>t. fieldName t \<notin> A) xs)) =
    filter (\<lambda>(k, v). k \<notin> A) (rev (map (\<lambda>t. (fieldName t, t)) xs))"
    by (induction xs) auto
  then show "fields_of (filter (\<lambda>t. fieldName t \<notin> A) xs) k = (fields_of xs |` (- A)) k"
    by (simp add: fields_of_def map_of_filter_keys restrict_map_def)
qed

lemma fields_of_resolveRow:
  "fields_of (resolveRow previous tokens) = fields_of previous ++ fields_of tokens"
proof
  fix k
  have "k \<in> fieldName ` set tokens \<longleftrightarrow> fields_of tokens k \<noteq> None"
    by (simp only: dom_fields_of[symmetric] domIff)
  then show "fields_of (resolveRow previous tokens) k = (fields_of previous ++ fields_of tokens) k"
    unfolding resolveRow_def fields_of_append fields_of_filter
    by (cases "fields_of tokens k") (simp_all add: map_add_def restrict_map_def)
qed

text \<open>The association list behind \<open>lastPerField\<close> pairs each field with a token of that field.\<close>

abbreviation kept_from :: "(string \<times> string) list \<Rightarrow> string list \<Rightarrow> (string \<times> string) list" where
  "kept_from \<equiv> foldl (\<lambda>kept token. AList.update (fieldName token) token kept)"

lemma fields_of_Cons: "fields_of (t # tokens) = [fieldName t \<mapsto> t] ++ fields_of tokens"
  using fields_of_append[of "[t]" tokens] by (simp add: fields_of_def)

lemma kept_distinct: "distinct (map fst m) \<Longrightarrow> distinct (map fst (kept_from m tokens))"
  by (induction tokens arbitrary: m) (simp_all add: distinct_update)

lemma kept_keys:
  "\<forall>(k, t)\<in>set m. k = fieldName t \<Longrightarrow> \<forall>(k, t)\<in>set (kept_from m tokens). k = fieldName t"
proof (induction tokens arbitrary: m)
  case (Cons t tokens)
  have "set (AList.update (fieldName t) t m) \<subseteq> insert (fieldName t, t) (set m)"
    by (induction m) auto
  with Cons.prems have "\<forall>(k, t)\<in>set (AList.update (fieldName t) t m). k = fieldName t" by auto
  then show ?case by (simp add: Cons.IH)
qed simp

lemma kept_map: "map_of (kept_from m tokens) = map_of m ++ fields_of tokens"
proof (induction tokens arbitrary: m)
  case (Cons t tokens)
  then show ?case
    by (auto simp: fields_of_Cons update_conv' map_add_def fun_eq_iff split: option.splits)
qed (simp add: fields_of_def)

lemma map_of_rev_distinct: "distinct (map fst xs) \<Longrightarrow> map_of (rev xs) = map_of xs"
  by (intro map_of_eqI) (auto simp: map_of_eq_Some_iff rev_map[symmetric])

lemma lastPerField_spec:
  "fields_of (lastPerField tokens) = fields_of tokens"
  "distinct (map fieldName (lastPerField tokens))"
proof -
  define kept where "kept = kept_from [] tokens"
  have k: "distinct (map fst kept)" "\<forall>(k, t)\<in>set kept. k = fieldName t" "map_of kept = fields_of tokens"
    using kept_distinct[of "[]" tokens] kept_keys[of "[]" tokens] kept_map[of "[]" tokens]
    by (simp_all add: kept_def)
  have m: "map (\<lambda>t. (fieldName t, t)) (map snd kept) = kept"
    using k(2) by (induction kept) auto
  have n: "map fieldName (map snd kept) = map fst kept"
    using k(2) by (induction kept) auto
  have l: "lastPerField tokens = map snd kept" by (simp add: lastPerField_def kept_def)
  show "distinct (map fieldName (lastPerField tokens))" using k(1) by (simp only: l n)
  have "map_of (rev kept) = map_of kept" using k(1) by (simp add: map_of_rev_distinct)
  then show "fields_of (lastPerField tokens) = fields_of tokens"
    using k(3) m by (simp only: fields_of_def l)
qed

section \<open>Bounds\<close>

definition split_inv :: "nat \<times> nat \<Rightarrow> split_state \<Rightarrow> bool" where
  "split_inv limits st \<longleftrightarrow>
     sp_used st = sum_list (map length (sp_rows st)) \<and> sp_used st \<le> snd limits"

lemma split_inv_init: "split_inv limits init_split"
  by (simp add: split_inv_def init_split_def)

lemma add_row_inv: "split_inv limits st \<Longrightarrow> add_row prefix limits part st = Some st' \<Longrightarrow> split_inv limits st'"
  by (auto simp: add_row_def split_inv_def Let_def split: if_splits)

lemma add_rows_inv: "split_inv limits st \<Longrightarrow> split_inv limits (add_rows prefix limits parts st)"
  by (induction prefix limits parts st rule: add_rows.induct)
     (auto split: option.splits dest: add_row_inv)

lemma rowLimits_le: "snd (rowLimits n) \<le> 64 * n" "fst (rowLimits n) \<le> snd (rowLimits n)"
  unfolding rowLimits_def Let_def MAX_ROW_AMPLIFICATION_def fst_conv snd_conv
  by (rule min.cobounded2)+

lemma splitCommandRows_total:
  "sum_list (map length (splitCommandRows line)) \<le> 64 * length line"
proof -
  have "sum_list (map length (sp_rows (add_rows p (rowLimits (length line)) ps init_split)))
      \<le> 64 * length line" for p ps
    using add_rows_inv[OF split_inv_init, of "rowLimits (length line)" p ps]
      rowLimits_le(1)[of "length line"]
    by (simp add: split_inv_def)
  then show ?thesis by (simp add: splitCommandRows_def Let_def split: prod.splits)
qed

end
