(* ===== verification/Js_Number.thy ===== *)
theory Js_Number
  imports Ids Complex_Main
begin

text \<open>
  The numbers of the language as far as the code reads them off the wire: a double is an exact
  rational, NaN or an infinity, and reading text rounds to the nearest double, ties to even. A
  negative zero is zero here: nothing that reads these numbers tells the two apart.
  \<open>Number(s)\<close>, \<open>parseInt(s, 10)\<close>, \<open>Number.isInteger\<close> and \<open>new Date\<close> are the library's, and
  \<open>parseInt10\<close> and \<open>parseUint16\<close> are those of \<open>src/core/helpers.ts\<close>.
\<close>

section \<open>Doubles\<close>

datatype js_number = NaN | Infinite bool | Finite rat

text \<open>Rounding to an integer, ties to even.\<close>

definition round_even :: "rat \<Rightarrow> int" where
  "round_even x =
     (let f = \<lfloor>x\<rfloor>; d = x - of_int f
      in if d < 1 / 2 then f else if d > 1 / 2 then f + 1 else if even f then f else f + 1)"

text \<open>
  A positive rational as a significand below \<open>2 ^ 53\<close> and the exponent it is scaled by: halved
  while it is too large, doubled while it is below \<open>2 ^ 52\<close> and the exponent is above that of
  the smallest double.
\<close>

function scale_down :: "rat \<Rightarrow> int \<Rightarrow> rat \<times> int" where
  "scale_down x e = (if x < 2 ^ 53 then (x, e) else scale_down (x / 2) (e + 1))"
  by pat_completeness auto
termination
proof (relation "measure (\<lambda>(x, e). nat \<lfloor>x\<rfloor>)")
  fix x :: rat and e :: int
  assume "\<not> x < 2 ^ 53"
  then have two: "2 \<le> x" by simp
  then have "x / 2 \<le> x - 1" by simp
  then have "\<lfloor>x / 2\<rfloor> \<le> \<lfloor>x - 1\<rfloor>" by (rule floor_mono)
  then have "\<lfloor>x / 2\<rfloor> < \<lfloor>x\<rfloor>" by simp
  moreover have "0 \<le> \<lfloor>x / 2\<rfloor>" "1 \<le> x" using two by simp_all
  ultimately show "((x / 2, e + 1), x, e) \<in> measure (\<lambda>(x, e). nat \<lfloor>x\<rfloor>)"
    by simp
qed simp

declare scale_down.simps [simp del]

fun scale_up :: "nat \<Rightarrow> rat \<Rightarrow> int \<Rightarrow> rat \<times> int" where
  "scale_up 0 x e = (x, e)"
| "scale_up (Suc n) x e = (if x < 2 ^ 52 then scale_up n (2 * x) (e - 1) else (x, e))"

definition round_double :: "rat \<Rightarrow> js_number" where
  "round_double x =
     (if x = 0 then Finite 0
      else let (m, e) = (if \<bar>x\<bar> < 2 ^ 52 then scale_up 1074 \<bar>x\<bar> 0 else scale_down \<bar>x\<bar> 0);
               v = of_int (round_even m) * 2 powi e
           in if v \<ge> 2 ^ 1024 then Infinite (x < 0) else Finite (if x < 0 then - v else v))"

text \<open>\<open>Number.isInteger\<close>, and the integer a number is.\<close>

fun js_isInteger :: "js_number \<Rightarrow> bool" where
  "js_isInteger (Finite q) = (of_int \<lfloor>q\<rfloor> = q)"
| "js_isInteger _ = False"

section \<open>Text to number\<close>

text \<open>A decimal literal without its sign: digits, a fraction, an exponent.\<close>

definition signed_digits :: "string \<Rightarrow> int option" where
  "signed_digits s =
     (let d = (if take 1 s \<in> {''-'', ''+''} then tl s else s)
      in if d = [] \<or> \<not> list_all is_digit d then None
         else Some (if take 1 s = ''-'' then - int (nat_of_digits d) else int (nat_of_digits d)))"

definition exponent_part :: "string \<Rightarrow> int option" where
  "exponent_part s = (if s = [] then Some 0 else if take 1 s \<in> {''e'', ''E''} then signed_digits (tl s) else None)"

definition decimal_literal :: "string \<Rightarrow> rat option" where
  "decimal_literal s =
     (let ip = takeWhile is_digit s; r = dropWhile is_digit s;
          fp = (if take 1 r = ''.'' then takeWhile is_digit (tl r) else []);
          rest = (if take 1 r = ''.'' then dropWhile is_digit (tl r) else r)
      in if ip = [] \<and> fp = [] then None
         else case exponent_part rest of
                None \<Rightarrow> None
              | Some e \<Rightarrow> Some (of_nat (nat_of_digits (ip @ fp)) * 10 powi (e - int (length fp))))"

text \<open>Hexadecimal, octal and binary literals, which take no sign.\<close>

definition digit_of_radix :: "nat \<Rightarrow> char \<Rightarrow> nat option" where
  "digit_of_radix radix c =
     (let n = code_of c;
          d = (if is_digit c then n - 48 else if 97 \<le> n \<and> n \<le> 102 then n - 87
               else if 65 \<le> n \<and> n \<le> 70 then n - 55 else radix)
      in if d < radix then Some d else None)"

definition radix_literal :: "nat \<Rightarrow> string \<Rightarrow> rat option" where
  "radix_literal radix s =
     (if s = [] \<or> (\<exists>c\<in>set s. digit_of_radix radix c = None) then None
      else Some (of_nat (foldl (\<lambda>n c. radix * n + the (digit_of_radix radix c)) 0 s)))"

definition radix_prefix :: "string \<Rightarrow> nat option" where
  "radix_prefix s =
     (let p = take 2 s
      in if p \<in> {''0x'', ''0X''} then Some 16 else if p \<in> {''0o'', ''0O''} then Some 8
         else if p \<in> {''0b'', ''0B''} then Some 2 else None)"

text \<open>\<open>Number(s)\<close>.\<close>

definition js_Number :: "string \<Rightarrow> js_number" where
  "js_Number raw =
     (let s = trim raw; neg = (take 1 s = ''-'');
          u = (if take 1 s \<in> {''-'', ''+''} then tl s else s)
      in if s = [] then Finite 0
         else case radix_prefix s of
           Some radix \<Rightarrow>
             (case radix_literal radix (drop 2 s) of None \<Rightarrow> NaN | Some q \<Rightarrow> round_double q)
         | None \<Rightarrow>
             if u = ''Infinity'' then Infinite neg
             else (case decimal_literal u of
                     None \<Rightarrow> NaN
                   | Some q \<Rightarrow> round_double (if neg then - q else q)))"

text \<open>\<open>parseInt(s, 10)\<close>: leading space, a sign, and as many digits as follow.\<close>

definition js_parseInt :: "string \<Rightarrow> js_number" where
  "js_parseInt raw =
     (let s = dropWhile is_js_space raw;
          u = (if take 1 s \<in> {''-'', ''+''} then tl s else s);
          d = takeWhile is_digit u; n = of_nat (nat_of_digits d)
      in if d = [] then NaN else round_double (if take 1 s = ''-'' then - n else n))"

definition parseInt10 :: "string \<Rightarrow> js_number" where
  "parseInt10 s = (if js_parseInt s = NaN then Finite 0 else js_parseInt s)"

definition parseUint16 :: "string \<Rightarrow> int" where
  "parseUint16 s =
     (case js_parseInt s of
        Finite v \<Rightarrow> if v < 0 \<or> v > 65535 then 0 else \<lfloor>v\<rfloor>
      | _ \<Rightarrow> 0)"

section \<open>Integers are read exactly\<close>

lemma round_even_int [simp]: "round_even (of_int k) = k"
  by (simp add: round_even_def)

lemma round_even_of_nat [simp]: "round_even (of_nat k) = int k"
  using round_even_int[of "int k"] by simp

lemma scale_up_int:
  "\<exists>k. fst (scale_up n (of_nat m) e) = of_nat (m * 2 ^ k) \<and> snd (scale_up n (of_nat m) e) = e - int k"
proof (induction n arbitrary: m e)
  case 0
  show ?case by (rule exI[of _ 0]) simp
next
  case (Suc n)
  show ?case
  proof (cases "(of_nat m :: rat) < 2 ^ 52")
    case True
    obtain k where k: "fst (scale_up n (of_nat (2 * m)) (e - 1)) = of_nat (2 * m * 2 ^ k)"
      "snd (scale_up n (of_nat (2 * m)) (e - 1)) = e - 1 - int k"
      using Suc.IH[of "2 * m" "e - 1"] by blast
    from True k show ?thesis by (intro exI[of _ "Suc k"]) (simp add: mult.assoc)
  next
    case False
    then show ?thesis by (intro exI[of _ 0]) simp
  qed
qed

lemma rescale: "(of_nat (m * 2 ^ k) :: rat) * 2 powi (- int k) = of_nat m"
  by (simp add: power_int_minus field_simps)

lemma round_double_nat:
  assumes "m < 2 ^ 53"
  shows "round_double (of_nat m) = Finite (of_nat m)"
proof (cases "m = 0")
  case False
  have big: "(of_nat m :: rat) < 2 ^ 1024"
  proof -
    have "(of_nat m :: rat) < of_nat (2 ^ 53)" using assms by (simp only: of_nat_less_iff)
    also have "\<dots> \<le> of_nat (2 ^ 1024)" by (simp only: of_nat_le_iff) simp
    finally show ?thesis by simp
  qed
  show ?thesis
  proof (cases "(of_nat m :: rat) < 2 ^ 52")
    case True
    obtain k where "scale_up 1074 (of_nat m) 0 = (of_nat (m * 2 ^ k), - int k)"
      using scale_up_int[of 1074 m 0] by (auto simp: prod_eq_iff)
    moreover have "of_int (round_even (of_nat (m * 2 ^ k))) * 2 powi (- int k) = (of_nat m :: rat)"
      using rescale[of m k] by (simp only: round_even_of_nat of_int_of_nat_eq)
    ultimately show ?thesis using True False big by (simp add: round_double_def Let_def)
  next
    case nf: False
    have "(of_nat m :: rat) < of_nat (2 ^ 53)" using assms by (simp only: of_nat_less_iff)
    then have "scale_down (of_nat m) 0 = (of_nat m, 0)" by (subst scale_down.simps) simp
    with nf False big show ?thesis by (simp add: round_double_def Let_def)
  qed
qed (simp add: round_double_def)

lemma round_double_neg: "round_double (- x) = (case round_double x of
    NaN \<Rightarrow> NaN | Infinite s \<Rightarrow> Infinite (\<not> s) | Finite q \<Rightarrow> Finite (- q))"
  by (cases "x = 0"; cases "x < 0") (auto simp: round_double_def Let_def split: prod.splits)

text \<open>What does not fit a double's significand is at least \<open>2 ^ 52\<close> however it rounds.\<close>

lemma scale_down_large:
  "2 ^ 52 \<le> x \<Longrightarrow> 2 ^ 52 \<le> fst (scale_down x e) \<and> e \<le> snd (scale_down x e)"
proof (induction x e rule: scale_down.induct)
  case (1 x e)
  show ?case
  proof (cases "x < 2 ^ 53")
    case False
    then have "2 ^ 52 \<le> x / 2" by simp
    with 1 False show ?thesis by (subst (1 2) scale_down.simps) auto
  qed (use 1 in \<open>simp add: scale_down.simps\<close>)
qed

lemma round_even_ge: "of_int k \<le> x \<Longrightarrow> k \<le> round_even x"
  using le_floor_iff[of k x] by (simp add: round_even_def Let_def)

lemma round_double_large:
  assumes "2 ^ 52 \<le> x" "round_double x = Finite v"
  shows "2 ^ 52 \<le> v"
proof -
  obtain m e where s: "scale_down x 0 = (m, e)" by force
  have x: "\<not> \<bar>x\<bar> < 2 ^ 52" "x \<noteq> 0" "\<not> x < 0" "\<bar>x\<bar> = x" using assms(1) by auto
  have m: "2 ^ 52 \<le> m" "0 \<le> e" using scale_down_large[OF assms(1), of 0] s by simp_all
  have "2 ^ 52 \<le> round_even m" using m(1) by (intro round_even_ge) simp
  then have r: "(2 ^ 52 :: rat) \<le> of_int (round_even m)"
    by (metis of_int_le_iff of_int_numeral of_int_power)
  have "(1 :: rat) \<le> 2 powi e" using m(2) by (simp add: power_int_def)
  with r have "2 ^ 52 * 1 \<le> of_int (round_even m) * (2 :: rat) powi e"
    by (intro mult_mono) auto
  moreover have "v = of_int (round_even m) * 2 powi e"
    using assms(2) x s by (auto simp: round_double_def Let_def split: if_splits)
  ultimately show ?thesis by simp
qed

text \<open>
  The reference for \<open>parseUint16\<close>: the digits after leading space and one sign, taken as an
  unbounded integer, if it is at most 65535 and not negative, and 0 otherwise.
\<close>

definition uint16_text :: "string \<Rightarrow> int" where
  "uint16_text raw =
     (let s = dropWhile is_js_space raw;
          n = nat_of_digits (takeWhile is_digit (if take 1 s \<in> {''-'', ''+''} then tl s else s))
      in if take 1 s = ''-'' \<or> 65535 < n then 0 else int n)"

lemma nat_of_digits_Nil [simp]: "nat_of_digits [] = 0"
  by (simp add: nat_of_digits_def)

lemma parseUint16_exact: "parseUint16 s = uint16_text s"
proof -
  define t where "t = dropWhile is_js_space s"
  define d where "d = takeWhile is_digit (if take 1 t \<in> {''-'', ''+''} then tl t else t)"
  define n where "n = nat_of_digits d"
  have j: "js_parseInt s = (if d = [] then NaN
      else round_double (if take 1 t = ''-'' then - of_nat n else of_nat n))"
    by (simp add: js_parseInt_def Let_def t_def d_def n_def)
  have u: "uint16_text s = (if take 1 t = ''-'' \<or> 65535 < n then 0 else int n)"
    by (simp add: uint16_text_def Let_def t_def d_def n_def)
  have small: "round_double (of_nat n) = Finite (of_nat n)" if "n < 2 ^ 53"
    using that by (rule round_double_nat)
  have large: "(2 ^ 52 :: rat) \<le> of_nat n" if "\<not> n < 2 ^ 53"
  proof -
    have "2 ^ 52 \<le> n" using that by simp
    then have "(of_nat (2 ^ 52) :: rat) \<le> of_nat n" by (simp only: of_nat_le_iff)
    then show ?thesis by simp
  qed
  show ?thesis
  proof (cases "n < 2 ^ 53")
    case True
    have c: "(of_nat n :: rat) > 65535 \<longleftrightarrow> 65535 < n"
      by (metis of_nat_less_iff of_nat_numeral)
    have dn: "d = [] \<Longrightarrow> n = 0" by (simp add: n_def)
    show ?thesis unfolding u
      by (auto simp: parseUint16_def j small[OF True] round_double_neg c dn)
  next
    case False
    have n: "65535 < n" using False by simp
    have "v > 65535" if "round_double (of_nat n) = Finite v" for v
      using round_double_large[OF large[OF False] that] by simp
    then show ?thesis unfolding u
      using n by (force simp: parseUint16_def j round_double_neg split: js_number.splits)
  qed
qed

lemma parseUint16_range: "0 \<le> parseUint16 s \<and> parseUint16 s \<le> 65535"
  by (auto simp: parseUint16_exact uint16_text_def Let_def)

lemma parseUint16_accepted [simp]: "asClientID (IntegralNumber (parseUint16 s)) = Inr (parseUint16 s)"
  using parseUint16_range[of s] by (simp add: asClientID_def MAX_UINT16_def)

text \<open>An integer below \<open>2 ^ 53\<close> written in decimal is the number it says.\<close>

lemma takeWhile_digits [simp]:
  "takeWhile is_digit (string_of_nat n) = string_of_nat n"
  "dropWhile is_digit (string_of_nat n) = []"
  using string_of_nat_digits[of n] by (simp_all add: list_all_iff)

lemma first_digit:
  assumes "list_all is_digit s"
  shows "take 1 s \<noteq> ''-''" "take 1 s \<noteq> ''+''" "take 1 s \<noteq> ''I''"
  using assms by (cases s; auto simp: is_digit_def)+

lemma digits_no_radix:
  assumes "list_all is_digit s"
  shows "radix_prefix s = None"
proof -
  have "\<not> is_digit CHR ''x''" "\<not> is_digit CHR ''X''" "\<not> is_digit CHR ''o''" "\<not> is_digit CHR ''O''"
    "\<not> is_digit CHR ''b''" "\<not> is_digit CHR ''B''"
    by (simp_all add: is_digit_def)
  moreover have "\<forall>c\<in>set (take 2 s). is_digit c"
    using assms by (auto simp: list_all_iff dest: in_set_takeD)
  ultimately have "take 2 s \<noteq> [a, b]" if "b \<in> set ''xXoObB''" for a b
    using that by auto
  then show ?thesis by (simp add: radix_prefix_def Let_def)
qed

lemma js_Number_of_nat:
  assumes "n < 2 ^ 53"
  shows "js_Number (string_of_nat n) = Finite (of_nat n)"
proof -
  let ?s = "string_of_nat n"
  have d: "list_all is_digit ?s" by (rule string_of_nat_digits)
  have i: "?s \<noteq> ''Infinity''" using first_digit(3)[OF d] by auto
  have l: "decimal_literal ?s = Some (of_nat n)"
    by (simp add: decimal_literal_def exponent_part_def)
  show ?thesis
    using trim_digits(1)[OF d] digits_no_radix[OF d] first_digit(1,2)[OF d] i l
      round_double_nat[OF assms]
    by (simp add: js_Number_def Let_def)
qed

end
