(* ===== verification/Command_Tracker.thy ===== *)
theory Command_Tracker
  imports Command_Codec Server_Errors Js_Number
begin

text \<open>
  Matching the server's answers to the commands that asked for them: the table of
  \<open>src/core/command/responses.ts\<close> and the class \<open>CommandTracker\<close> of \<open>src/client/commands.ts\<close>.
  A command's promise is an entry of \<open>ct_resolved\<close>, in the order the promises were resolved.
\<close>

section \<open>How commands are answered\<close>

record correlated_spec =
  cs_notifications :: "string list"
  cs_key :: string
  cs_failure :: "string option"

record response_spec =
  rs_notifications :: "string list"
  rs_ownRowsOnly :: bool
  rs_echoKey :: "string option"
  rs_correlated :: "correlated_spec option"

definition inline :: "string \<Rightarrow> response_spec" where
  "inline n = \<lparr>rs_notifications = [n], rs_ownRowsOnly = False, rs_echoKey = None, rs_correlated = None\<rparr>"

definition echoing :: "string \<Rightarrow> string \<Rightarrow> response_spec" where
  "echoing n key = (inline n)\<lparr>rs_echoKey := Some key\<rparr>"

definition correlating :: "string list \<Rightarrow> string \<Rightarrow> string option \<Rightarrow> response_spec" where
  "correlating ns key failure =
     \<lparr>rs_notifications = [], rs_ownRowsOnly = False, rs_echoKey = None,
      rs_correlated = Some \<lparr>cs_notifications = ns, cs_key = key, cs_failure = failure\<rparr>\<rparr>"

definition fileTransfer :: "string \<Rightarrow> response_spec" where
  "fileTransfer answer =
     correlating [answer, ''notifystatusfiletransfer''] ''clientftfid'' (Some ''notifystatusfiletransfer'')"

definition RESPONSES :: "(string \<times> response_spec) list" where
  "RESPONSES = [
    (''apikeyadd'', inline ''notifyapikeyadd''),
    (''apikeylist'', inline ''notifyapikeylist''),
    (''banfind'', inline ''notifybanfind''),
    (''banlist'', inline ''notifybanlist''),
    (''channelclientpermlist'', inline ''notifychannelclientpermlist''),
    (''channelcreate'', (inline ''notifychannelcreated'')\<lparr>rs_ownRowsOnly := True\<rparr>),
    (''channelgetdescription'', echoing ''notifychanneledited'' ''cid''),
    (''channelgroupadd'', inline ''notifychannelgrouplist''),
    (''channelgroupclientlist'', inline ''notifychannelgroupclientlist''),
    (''channelgroupcopy'', inline ''notifychannelgrouplist''),
    (''channelgrouplist'', inline ''notifychannelgrouplist''),
    (''channelgrouppermlist'', inline ''notifychannelgrouppermlist''),
    (''channelpermlist'', inline ''notifychannelpermlist''),
    (''clientdbfind'', inline ''notifyclientdbfind''),
    (''clientdblist'', inline ''notifyclientdblist''),
    (''clientgetdbidfromuid'', inline ''notifyclientdbidfromuid''),
    (''clientgetids'', inline ''notifyclientids''),
    (''clientgetnamefromdbid'', inline ''notifyclientnamefromdbid''),
    (''clientgetnamefromuid'', inline ''notifyclientnamefromuid''),
    (''clientgetuidfromclid'', inline ''notifyclientuidfromclid''),
    (''clientgetvariables'', correlating [''notifyclientupdated''] ''clid'' None),
    (''clientsetserverquerylogin'', inline ''notifyclientserverqueryloginpassword''),
    (''clientpermlist'', inline ''notifyclientpermlist''),
    (''complainlist'', inline ''notifycomplainlist''),
    (''getconnectioninfo'', correlating [''notifyconnectioninfo''] ''clid'' None),
    (''ftgetfileinfo'', inline ''notifyfileinfo''),
    (''ftgetfilelist'', inline ''notifyfilelist''),
    (''ftinitdownload'', fileTransfer ''notifystartdownload''),
    (''ftinitupload'', fileTransfer ''notifystartupload''),
    (''ftlist'', inline ''notifyfiletransferlist''),
    (''logview'', inline ''notifyserverlog''),
    (''messageget'', inline ''notifymessage''),
    (''messagelist'', inline ''notifymessagelist''),
    (''permfind'', inline ''notifypermfind''),
    (''permget'', inline ''notifypermget''),
    (''permissionlist'', inline ''notifypermissionlist''),
    (''permoverview'', inline ''notifypermoverview''),
    (''privilegekeyadd'', inline ''notifytokenadd''),
    (''privilegekeylist'', inline ''notifytokenlist''),
    (''servergetvariables'', inline ''notifyserverupdated''),
    (''servergroupadd'', inline ''notifyservergrouplist''),
    (''servergroupclientlist'', inline ''notifyservergroupclientlist''),
    (''servergroupcopy'', inline ''notifyservergrouplist''),
    (''servergrouplist'', inline ''notifyservergrouplist''),
    (''servergrouppermlist'', inline ''notifyservergrouppermlist''),
    (''servergroupsbyclientid'', inline ''notifyservergroupsbyclientid''),
    (''serverrequestconnectioninfo'', inline ''notifyserverconnectioninfo''),
    (''servertemppasswordlist'', inline ''notifyservertemppasswordlist''),
    (''setupstream'', correlating [''notifystreamstarted''] ''return_code'' None),
    (''tokenadd'', inline ''notifytokenadd''),
    (''tokenlist'', inline ''notifytokenlist'')]"

definition responseSpec :: "string \<Rightarrow> response_spec option" where
  "responseSpec = map_of RESPONSES"

section \<open>The tracker\<close>

text \<open>
  The errors a connection ends with, and what a command fails with: the server's refusal, the
  \<open>NotConnectedError\<close> with the error that is its \<open>cause\<close>, if it has one, or another reason the client gave up.
\<close>

datatype client_error = ServerRefused server_error | RemovedFromServer js_number string string
  | HandshakeFailed string | ConnectionLost string | NotConnectedAnyMore

datatype command_error = Refused server_error | NotConnectedError "client_error option" | Abandoned string

record command_result =
  cr_err :: "command_error option"
  cr_data :: "params list"

record buffered_row =
  br_source :: string
  br_params :: params

record pending_command =
  pc_spec :: "response_spec option"
  pc_correlation :: "string option"
  pc_echo :: "string option"
  pc_correlated :: "params list"
  pc_settled :: "command_result option"

record tracker =
  ct_pending :: "(nat, pending_command) jsmap"
  ct_nextRC :: nat
  ct_buffer :: "buffered_row list"
  ct_welcomeComplete :: bool
  ct_resolved :: "(nat \<times> command_result) list"

definition new_tracker :: tracker where
  "new_tracker = \<lparr>ct_pending = [], ct_nextRC = 0, ct_buffer = [], ct_welcomeComplete = False, ct_resolved = []\<rparr>"

definition spec_correlated :: "pending_command \<Rightarrow> correlated_spec option" where
  "spec_correlated p = Option.bind (pc_spec p) rs_correlated"

definition register ::
  "response_spec option \<Rightarrow> string option \<Rightarrow> string option \<Rightarrow> tracker \<Rightarrow> nat \<times> tracker" where
  "register spec correlation echo t =
     (let rc = ct_nextRC t + 1;
          own = (\<exists>s c. spec = Some s \<and> rs_correlated s = Some c \<and> cs_key c = ''return_code'');
          p = \<lparr>pc_spec = spec, pc_correlation = (if own then Some (string_of_nat rc) else correlation),
               pc_echo = echo, pc_correlated = [], pc_settled = None\<rparr>
      in (rc, t\<lparr>ct_nextRC := rc, ct_pending := AList.update rc p (ct_pending t)\<rparr>))"

definition unregister :: "nat \<Rightarrow> tracker \<Rightarrow> tracker" where
  "unregister rc t = t\<lparr>ct_pending := AList.delete rc (ct_pending t)\<rparr>"

definition signalWelcomeComplete :: "tracker \<Rightarrow> tracker" where
  "signalWelcomeComplete t = t\<lparr>ct_welcomeComplete := True, ct_buffer := []\<rparr>"

definition expects :: "string \<Rightarrow> tracker \<Rightarrow> bool" where
  "expects name t \<longleftrightarrow>
     (\<exists>(rc, p)\<in>set (ct_pending t).
        (case pc_spec p of None \<Rightarrow> False | Some s \<Rightarrow> name \<in> set (rs_notifications s)) \<or>
        (case spec_correlated p of None \<Rightarrow> False | Some c \<Rightarrow> name \<in> set (cs_notifications c)))"

definition buffer :: "params \<Rightarrow> string \<Rightarrow> tracker \<Rightarrow> tracker" where
  "buffer ps source t =
     (if \<not> ct_welcomeComplete t then t
      else if ct_pending t = [] then t
      else t\<lparr>ct_buffer := ct_buffer t @ [\<lparr>br_source = source, br_params = ps\<rparr>]\<rparr>)"

definition settle_command :: "nat \<Rightarrow> command_result \<Rightarrow> tracker \<Rightarrow> tracker" where
  "settle_command rc result t =
     t\<lparr>ct_pending := AList.delete rc (ct_pending t), ct_resolved := ct_resolved t @ [(rc, result)]\<rparr>"

text \<open>The test of the loop in \<open>offerCorrelated\<close>, and what it does with the first command that passes.\<close>

definition offered_to :: "string \<Rightarrow> params \<Rightarrow> pending_command \<Rightarrow> bool" where
  "offered_to name ps p \<longleftrightarrow>
     (case (spec_correlated p, pc_correlation p) of
        (Some c, Some v) \<Rightarrow> name \<in> set (cs_notifications c) \<and> ps (cs_key c) = Some v
      | _ \<Rightarrow> False)"

definition reports_failure :: "string \<Rightarrow> params \<Rightarrow> pending_command \<Rightarrow> bool" where
  "reports_failure name ps p \<longleftrightarrow>
     (case spec_correlated p of None \<Rightarrow> False
      | Some c \<Rightarrow> cs_failure c = Some name \<and>
          (case ps ''status'' of None \<Rightarrow> ''0'' | Some s \<Rightarrow> s) \<noteq> ''0'')"

definition status_error :: "params \<Rightarrow> server_error" where
  "status_error ps =
     \<lparr>se_code = parseErrorCode (ps ''status''),
      se_serverMessage = (case ps ''msg'' of Some m \<Rightarrow> m | None \<Rightarrow> []),
      se_extraMessage = or_undefined (ps ''extra_msg''),
      se_failedPermissionID = None, se_failedPermission = None\<rparr>"

definition offerCorrelated :: "string \<Rightarrow> params \<Rightarrow> tracker \<Rightarrow> tracker" where
  "offerCorrelated name ps t =
     (case List.find (\<lambda>(rc, p). offered_to name ps p) (ct_pending t) of
        None \<Rightarrow> t
      | Some (rc, p) \<Rightarrow>
          if reports_failure name ps p
          then settle_command rc \<lparr>cr_err = Some (Refused (status_error ps)), cr_data = []\<rparr> t
          else let p' = p\<lparr>pc_correlated := pc_correlated p @ [ps]\<rparr>;
                   t' = t\<lparr>ct_pending := AList.update rc p' (ct_pending t)\<rparr>
               in case pc_settled p of
                    None \<Rightarrow> t'
                  | Some r \<Rightarrow> settle_command rc \<lparr>cr_err = None, cr_data = cr_data r @ pc_correlated p'\<rparr> t')"

text \<open>\<open>answers\<close>, for the client's own id \<open>clid\<close>.\<close>

definition answers :: "nat \<Rightarrow> pending_command \<Rightarrow> buffered_row \<Rightarrow> bool" where
  "answers clid p row =
     (if br_source row = [] then True
      else case pc_spec p of
             None \<Rightarrow> False
           | Some s \<Rightarrow>
               if br_source row \<notin> set (rs_notifications s) then False
               else if rs_ownRowsOnly s \<and> br_params row ''invokerid'' \<noteq> Some (string_of_nat clid) then False
               else case (rs_echoKey s, pc_echo p) of
                      (Some key, Some e) \<Rightarrow>
                        (case br_params row key of None \<Rightarrow> True | Some v \<Rightarrow> v = e)
                    | _ \<Rightarrow> True)"

definition resolve :: "nat \<Rightarrow> nat \<Rightarrow> command_error option \<Rightarrow> tracker \<Rightarrow> tracker" where
  "resolve clid rc err t =
     (let rows = ct_buffer t; t1 = t\<lparr>ct_buffer := []\<rparr>
      in case map_of (ct_pending t1) rc of
           None \<Rightarrow> t1
         | Some p \<Rightarrow>
             (let data = map br_params (filter (answers clid p) rows)
              in if err \<noteq> None then settle_command rc \<lparr>cr_err = err, cr_data = data\<rparr> t1
                 else if spec_correlated p \<noteq> None \<and> pc_correlation p \<noteq> None \<and> pc_correlated p = []
                 then t1\<lparr>ct_pending := AList.update rc
                        (p\<lparr>pc_settled := Some \<lparr>cr_err = None, cr_data = data\<rparr>\<rparr>) (ct_pending t1)\<rparr>
                 else settle_command rc \<lparr>cr_err = None, cr_data = data @ pc_correlated p\<rparr> t1))"

definition discardBuffer :: "tracker \<Rightarrow> tracker" where
  "discardBuffer t = t\<lparr>ct_buffer := []\<rparr>"

definition reset_tracker :: "command_error \<Rightarrow> tracker \<Rightarrow> tracker" where
  "reset_tracker err t =
     t\<lparr>ct_pending := [],
       ct_resolved := ct_resolved t @ map (\<lambda>(rc, p). (rc, \<lparr>cr_err = Some err, cr_data = []\<rparr>)) (ct_pending t),
       ct_buffer := [], ct_welcomeComplete := False\<rparr>"

definition appendReturnCode :: "string \<Rightarrow> nat \<Rightarrow> js_error + string" where
  "appendReturnCode cmd rc =
     (let ps = (case parseCommand cmd of Some c \<Rightarrow> cmd_params c | None \<Rightarrow> Map.empty)
      in if ps ''return_code'' \<noteq> None
         then Inl (TypeError ''commands must not carry their own return_code; the client assigns it'')
         else Inr (cmd @ '' return_code='' @ string_of_nat rc))"

section \<open>Every command is answered at most once\<close>

definition resolved_codes :: "tracker \<Rightarrow> nat list" where
  "resolved_codes t = map fst (ct_resolved t)"

definition tracker_inv :: "tracker \<Rightarrow> bool" where
  "tracker_inv t \<longleftrightarrow> js_keys_distinct (ct_pending t) \<and> distinct (resolved_codes t) \<and>
     (\<forall>rc\<in>fst ` set (ct_pending t). rc \<le> ct_nextRC t \<and> rc \<notin> set (resolved_codes t)) \<and>
     (\<forall>rc\<in>set (resolved_codes t). rc \<le> ct_nextRC t)"

lemma tracker_inv_new: "tracker_inv new_tracker"
  by (simp add: tracker_inv_def new_tracker_def resolved_codes_def)

lemma tracker_inv_settle:
  assumes "tracker_inv t" "rc \<in> fst ` set (ct_pending t)"
  shows "tracker_inv (settle_command rc r t)"
  using assms by (auto simp: tracker_inv_def settle_command_def resolved_codes_def)

lemma tracker_inv_update:
  assumes "tracker_inv t" "rc \<in> fst ` set (ct_pending t)"
  shows "tracker_inv (t\<lparr>ct_pending := AList.update rc p (ct_pending t)\<rparr>)"
  using assms by (auto simp: tracker_inv_def resolved_codes_def dom_update)

lemma pending_update_settle:
  assumes "rc \<in> fst ` set (ct_pending t)"
  shows "rc \<in> fst ` set (ct_pending (t\<lparr>ct_pending := AList.update rc p (ct_pending t)\<rparr>))"
  by (simp add: dom_update)

text \<open>What can happen to a tracker.\<close>

inductive tracker_step :: "nat \<Rightarrow> tracker \<Rightarrow> tracker \<Rightarrow> bool" for clid where
  register: "tracker_step clid t (snd (register spec cor echo t))"
| unregister: "tracker_step clid t (unregister rc t)"
| welcomed: "tracker_step clid t (signalWelcomeComplete t)"
| row: "tracker_step clid t (buffer ps source t)"
| offer: "tracker_step clid t (offerCorrelated name ps t)"
| resolve: "tracker_step clid t (resolve clid rc err t)"
| discard: "tracker_step clid t (discardBuffer t)"
| reset: "tracker_step clid t (reset_tracker err t)"

lemma find_Some_pending:
  "List.find (\<lambda>(rc, p). Q rc p) m = Some (rc, p) \<Longrightarrow> rc \<in> fst ` set m"
  by (auto simp: find_Some_iff) (metis fst_conv imageI nth_mem)

lemma tracker_inv_step: "tracker_step clid t t' \<Longrightarrow> tracker_inv t \<Longrightarrow> tracker_inv t'"
proof (induction rule: tracker_step.induct)
  case (register t spec cor echo)
  then show ?case
    by (fastforce simp: register_def tracker_inv_def resolved_codes_def dom_update Let_def)
next
  case (unregister t rc)
  then show ?case by (auto simp: unregister_def tracker_inv_def resolved_codes_def)
next
  case (offer t name ps)
  then show ?case
    by (auto simp: offerCorrelated_def Let_def dest!: find_Some_pending
        intro!: tracker_inv_settle tracker_inv_update pending_update_settle split: option.split)
next
  case (resolve t rc err)
  let ?t = "t\<lparr>ct_buffer := []\<rparr>"
  have t: "tracker_inv ?t" using resolve by (simp add: tracker_inv_def resolved_codes_def)
  have "rc \<in> fst ` set (ct_pending ?t)" if "map_of (ct_pending t) rc = Some p" for p
    using that by (force dest: map_of_SomeD)
  note pend = tracker_inv_settle[OF t this] tracker_inv_update[OF t this]
  show ?case using t pend by (auto simp: resolve_def Let_def split: option.split)
next
  case (reset t err)
  have codes: "resolved_codes (reset_tracker err t) = resolved_codes t @ map fst (ct_pending t)"
    by (simp add: reset_tracker_def resolved_codes_def o_def case_prod_beta)
  have "set (map fst (ct_pending t)) \<inter> set (resolved_codes t) = {}"
    using reset unfolding tracker_inv_def by auto
  then show ?case
    using reset unfolding tracker_inv_def codes
    by (auto simp: js_keys_distinct_def reset_tracker_def)
qed (simp_all add: signalWelcomeComplete_def buffer_def discardBuffer_def tracker_inv_def resolved_codes_def)

lemma tracker_runs:
  assumes "(tracker_step clid)\<^sup>*\<^sup>* new_tracker t"
  shows "tracker_inv t"
  using assms by induction (auto simp: tracker_inv_new intro: tracker_inv_step)

text \<open>The codes handed out are fresh: above every one pending or resolved.\<close>

lemma register_fresh:
  assumes "tracker_inv t"
  shows "fst (register spec cor echo t) \<notin> fst ` set (ct_pending t) \<union> set (resolved_codes t)"
proof -
  have "\<not> Suc (ct_nextRC t) \<le> ct_nextRC t" by simp
  with assms show ?thesis by (fastforce simp: register_def tracker_inv_def Let_def)
qed

text \<open>The counter of the codes never goes back.\<close>

lemma nextRC_step: "tracker_step clid t t' \<Longrightarrow> ct_nextRC t \<le> ct_nextRC t'"
  by (induction rule: tracker_step.induct)
    (auto simp: register_def unregister_def signalWelcomeComplete_def buffer_def offerCorrelated_def settle_command_def
      resolve_def discardBuffer_def reset_tracker_def Let_def split: option.split)

lemma nextRC_run: "(tracker_step clid)\<^sup>*\<^sup>* t t' \<Longrightarrow> ct_nextRC t \<le> ct_nextRC t'"
  by (induction rule: rtranclp_induct) (auto dest: nextRC_step)

lemma register_never_again:
  assumes "(tracker_step clid)\<^sup>*\<^sup>* (snd (register spec cor echo t)) t'"
  shows "fst (register spec' cor' echo' t') \<noteq> fst (register spec cor echo t)"
  using nextRC_run[OF assms] by (simp add: register_def Let_def)

text \<open>A command stays pending until it is resolved or unregistered.\<close>

definition awaited :: "nat \<Rightarrow> tracker \<Rightarrow> bool" where
  "awaited rc t \<longleftrightarrow> rc \<in> fst ` set (ct_pending t) \<or> rc \<in> set (resolved_codes t)"

lemma awaited_settle: "awaited rc (settle_command i r t) = (awaited rc t \<or> rc = i)"
  by (auto simp: awaited_def settle_command_def resolved_codes_def)

lemma awaited_pending:
  "awaited rc (t\<lparr>ct_pending := AList.update i p (ct_pending t)\<rparr>) = (awaited rc t \<or> rc = i)"
  by (auto simp: awaited_def resolved_codes_def dom_update)

lemma awaited_step:
  assumes "tracker_step clid t t'" "awaited rc t" "t' \<noteq> unregister rc t"
  shows "awaited rc t'"
  using assms
proof (induction rule: tracker_step.induct)
  case (register t spec cor echo)
  then show ?case by (auto simp: awaited_def register_def resolved_codes_def dom_update Let_def)
next
  case (unregister t i)
  then show ?case by (cases "i = rc") (auto simp: awaited_def unregister_def resolved_codes_def)
next
  case (offer t name ps)
  then show ?case
    by (auto simp: offerCorrelated_def Let_def awaited_settle awaited_pending split: option.split)
next
  case (resolve t i err)
  have "awaited rc (t\<lparr>ct_buffer := []\<rparr>)" using resolve by (simp add: awaited_def resolved_codes_def)
  then show ?case
    using awaited_pending[where t = "t\<lparr>ct_buffer := []\<rparr>"]
    by (auto simp: resolve_def Let_def awaited_settle split: option.split)
next
  case (reset t err)
  then show ?case by (auto simp: awaited_def reset_tracker_def resolved_codes_def o_def case_prod_beta)
qed (auto simp: signalWelcomeComplete_def buffer_def discardBuffer_def awaited_def resolved_codes_def)

section \<open>Whose a row is\<close>

lemma update_members:
  assumes "(i, q) \<in> set (AList.update k v m)"
  shows "(i, q) \<in> set m \<or> (i, q) = (k, v)"
  using assms by (induction m) (auto split: if_splits)

lemma delete_members: "set (AList.delete k m) \<subseteq> set m"
  by (induction m) auto

lemma resolve_clears: "ct_buffer (resolve clid rc err t) = []"
  by (auto simp: resolve_def Let_def settle_command_def split: option.split)

text \<open>
  An \<open>error\<close> line: of a command, or of none. Between two of them rows arrive, answers are offered to
  the commands that match them, and commands are sent and given up.
\<close>

definition error_line :: "nat \<Rightarrow> (nat \<times> command_error option) option \<Rightarrow> tracker \<Rightarrow> tracker" where
  "error_line clid l t = (case l of Some (rc, err) \<Rightarrow> resolve clid rc err t | None \<Rightarrow> discardBuffer t)"

datatype between = Row_Came buffered_row | Answer_Offered string params
  | Command_Sent "response_spec option" "string option" "string option" | Command_Given_Up nat

fun between_lines :: "between list \<Rightarrow> tracker \<Rightarrow> tracker" where
  "between_lines [] t = t"
| "between_lines (Row_Came r # es) t = between_lines es (buffer (br_params r) (br_source r) t)"
| "between_lines (Answer_Offered name ps # es) t = between_lines es (offerCorrelated name ps t)"
| "between_lines (Command_Sent spec cor echo # es) t = between_lines es (snd (register spec cor echo t))"
| "between_lines (Command_Given_Up rc # es) t = between_lines es (unregister rc t)"

definition rows_between :: "between list \<Rightarrow> buffered_row list" where
  "rows_between es = concat (map (\<lambda>e. case e of Row_Came r \<Rightarrow> [r] | _ \<Rightarrow> []) es)"

lemma rows_between_simps [simp]:
  "rows_between [] = []" "rows_between (Row_Came r # es) = r # rows_between es"
  "rows_between (Answer_Offered name ps # es) = rows_between es"
  "rows_between (Command_Sent spec cor echo # es) = rows_between es" "rows_between (Command_Given_Up rc # es) = rows_between es"
  by (simp_all add: rows_between_def)

lemma error_line_clears: "ct_buffer (error_line clid l t) = []"
  by (auto simp: error_line_def discardBuffer_def resolve_clears split: option.split)

lemma offer_keeps_frame:
  "ct_nextRC (offerCorrelated name ps t) = ct_nextRC t" "ct_buffer (offerCorrelated name ps t) = ct_buffer t"
  "ct_welcomeComplete (offerCorrelated name ps t) = ct_welcomeComplete t"
  by (auto simp: offerCorrelated_def settle_command_def Let_def split: option.split)

lemma error_line_keeps_frame:
  "ct_nextRC (error_line clid l t) = ct_nextRC t" "ct_welcomeComplete (error_line clid l t) = ct_welcomeComplete t"
  by (auto simp: error_line_def discardBuffer_def resolve_def settle_command_def Let_def split: option.split)

text \<open>A command answered in line is not touched by what comes between.\<close>

lemma offer_keeps_inline:
  assumes "map_of (ct_pending t) rc = Some p" "spec_correlated p = None" "js_keys_distinct (ct_pending t)"
  shows "map_of (ct_pending (offerCorrelated name ps t)) rc = Some p"
proof (cases "List.find (\<lambda>(i, q). offered_to name ps q) (ct_pending t)")
  case (Some e)
  obtain i q where e: "e = (i, q)" by fastforce
  with Some have "offered_to name ps q" "(i, q) \<in> set (ct_pending t)" by (auto simp: find_Some_iff in_set_conv_nth)
  moreover from this have "map_of (ct_pending t) i = Some q" using assms(3) by (simp add: js_keys_distinct_def)
  ultimately have "i \<noteq> rc" using assms(1,2) by (auto simp: offered_to_def)
  then show ?thesis
    using Some e assms(1)
    by (auto simp: offerCorrelated_def settle_command_def Let_def update_conv' delete_conv' split: option.split)
qed (simp add: offerCorrelated_def assms)

lemma between_keeps_inline:
  assumes "tracker_inv t" "map_of (ct_pending t) rc = Some p" "spec_correlated p = None"
    "ct_welcomeComplete t" "Command_Given_Up rc \<notin> set es"
  shows "map_of (ct_pending (between_lines es t)) rc = Some p \<and>
    ct_buffer (between_lines es t) = ct_buffer t @ rows_between es"
  using assms
proof (induction es t rule: between_lines.induct)
  case (2 r es t)
  have "tracker_inv (buffer (br_params r) (br_source r) t)" using tracker_inv_step[OF tracker_step.row 2(2)] .
  moreover have "ct_pending t \<noteq> []" using 2(3) by auto
  ultimately show ?case using 2 by (simp add: buffer_def)
next
  case (3 name ps es t)
  have "js_keys_distinct (ct_pending t)" using 3(2) by (simp add: tracker_inv_def)
  then show ?case
    using 3 tracker_inv_step[OF tracker_step.offer 3(2)] by (simp add: offer_keeps_inline offer_keeps_frame)
next
  case (4 spec cor echo es t)
  have "rc \<in> fst ` set (ct_pending t)" using 4(3) by (force dest: map_of_SomeD)
  then have "rc \<le> ct_nextRC t" using 4(2) by (auto simp: tracker_inv_def)
  then have "map_of (ct_pending (snd (register spec cor echo t))) rc = Some p"
    using 4(3) by (simp add: register_def Let_def update_conv')
  then show ?case
    using 4 tracker_inv_step[OF tracker_step.register 4(2)] by (simp add: register_def Let_def)
next
  case (5 i es t)
  then show ?case
    using tracker_inv_step[OF tracker_step.unregister 5(2)] by (simp add: unregister_def delete_conv')
qed simp

text \<open>On a run, only a command that is answered by a match has matched answers.\<close>

definition inline_unmatched :: "tracker \<Rightarrow> bool" where
  "inline_unmatched t \<longleftrightarrow> (\<forall>(rc, p)\<in>set (ct_pending t). spec_correlated p = None \<longrightarrow> pc_correlated p = [])"

lemma inline_unmatched_settle:
  "inline_unmatched t \<Longrightarrow> inline_unmatched (settle_command rc r t)"
  using delete_members[of rc "ct_pending t"] by (auto simp: inline_unmatched_def settle_command_def)

lemma inline_unmatched_update:
  assumes "inline_unmatched t" "spec_correlated p = None \<Longrightarrow> pc_correlated p = []"
  shows "inline_unmatched (t\<lparr>ct_pending := AList.update rc p (ct_pending t)\<rparr>)"
  using assms by (auto simp: inline_unmatched_def dest!: update_members)

lemma inline_unmatched_step: "tracker_step clid t t' \<Longrightarrow> inline_unmatched t \<Longrightarrow> inline_unmatched t'"
proof (induction rule: tracker_step.induct)
  case (register t spec cor echo)
  let ?p = "\<lambda>c. \<lparr>pc_spec = spec, pc_correlation = c, pc_echo = echo, pc_correlated = [], pc_settled = None\<rparr>"
  have "\<And>rc c. inline_unmatched (t\<lparr>ct_pending := AList.update rc (?p c) (ct_pending t)\<rparr>)"
    by (rule inline_unmatched_update[OF register]) simp
  then show ?case by (simp add: register_def inline_unmatched_def Let_def)
next
  case (unregister t rc)
  then show ?case using delete_members[of rc "ct_pending t"] by (auto simp: inline_unmatched_def unregister_def)
next
  case (offer t name ps)
  show ?case
  proof (cases "List.find (\<lambda>(i, q). offered_to name ps q) (ct_pending t)")
    case (Some e)
    obtain i q where e: "e = (i, q)" by fastforce
    with Some have "offered_to name ps q" by (auto simp: find_Some_iff)
    then have "\<And>c. spec_correlated (q\<lparr>pc_correlated := c\<rparr>) \<noteq> None"
      by (auto simp: offered_to_def spec_correlated_def split: option.splits)
    then have "\<And>c. inline_unmatched (t\<lparr>ct_pending := AList.update i (q\<lparr>pc_correlated := c\<rparr>) (ct_pending t)\<rparr>)"
      by (intro inline_unmatched_update[OF offer]) blast
    then show ?thesis using Some e offer
      by (auto simp: offerCorrelated_def Let_def inline_unmatched_settle split: option.split)
  qed (simp add: offerCorrelated_def offer)
next
  case (resolve t rc err)
  let ?t = "t\<lparr>ct_buffer := []\<rparr>"
  have t: "inline_unmatched ?t" using resolve by (simp add: inline_unmatched_def)
  have "inline_unmatched (?t\<lparr>ct_pending := AList.update rc (p\<lparr>pc_settled := r\<rparr>) (ct_pending ?t)\<rparr>)"
    if p: "map_of (ct_pending t) rc = Some p" for p r
  proof (rule inline_unmatched_update[OF t])
    show "pc_correlated (p\<lparr>pc_settled := r\<rparr>) = []" if "spec_correlated (p\<lparr>pc_settled := r\<rparr>) = None"
      using map_of_SomeD[OF p] resolve that by (auto simp: inline_unmatched_def spec_correlated_def)
  qed
  then show ?case using t inline_unmatched_settle[OF t]
    by (auto simp: resolve_def Let_def split: option.split)
qed (simp_all add: signalWelcomeComplete_def buffer_def discardBuffer_def reset_tracker_def inline_unmatched_def)

lemma inline_unmatched_runs: "(tracker_step clid)\<^sup>*\<^sup>* new_tracker t \<Longrightarrow> inline_unmatched t"
proof (induction rule: rtranclp_induct)
  case base
  show ?case by (simp add: inline_unmatched_def new_tracker_def)
qed (rule inline_unmatched_step)

lemma error_line_step: "tracker_step clid t (error_line clid l t)"
  by (auto simp: error_line_def split: option.split intro: tracker_step.intros)

lemma inline_gets_its_rows:
  assumes "(tracker_step clid)\<^sup>*\<^sup>* new_tracker t" "ct_welcomeComplete t"
    "map_of (ct_pending (error_line clid l t)) rc = Some p" "spec_correlated p = None"
    "Command_Given_Up rc \<notin> set es"
  shows "ct_resolved (resolve clid rc err (between_lines es (error_line clid l t))) =
    ct_resolved (between_lines es (error_line clid l t)) @
      [(rc, \<lparr>cr_err = err, cr_data = map br_params (filter (answers clid p) (rows_between es))\<rparr>)]"
proof -
  let ?t = "error_line clid l t"
  have run: "(tracker_step clid)\<^sup>*\<^sup>* new_tracker ?t" using assms(1) error_line_step by (rule rtranclp.rtrancl_into_rtrancl)
  have "(rc, p) \<in> set (ct_pending ?t)" using assms(3) by (rule map_of_SomeD)
  then have c: "pc_correlated p = []" using inline_unmatched_runs[OF run] assms(4) by (auto simp: inline_unmatched_def)
  have "ct_welcomeComplete ?t" using assms(2) by (simp add: error_line_keeps_frame)
  from between_keeps_inline[OF tracker_runs[OF run] assms(3,4) this assms(5)]
  have "map_of (ct_pending (between_lines es ?t)) rc = Some p" "ct_buffer (between_lines es ?t) = rows_between es"
    by (simp_all add: error_line_clears)
  then show ?thesis
    using assms(4) c by (cases err) (auto simp: resolve_def settle_command_def Let_def)
qed

text \<open>
  An answer matched on a request field and the command's own \<open>error id=0\<close> settle the command the
  same way in either order.
\<close>

lemma find_only:
  assumes "js_keys_distinct m" "map_of m rc = Some p" "Q (rc, p)"
    "\<forall>(i, q)\<in>set m. i \<noteq> rc \<longrightarrow> \<not> Q (i, q)"
  shows "List.find Q m = Some (rc, p)"
  using assms
proof (induction m)
  case (Cons e m)
  then show ?case by (cases e) (auto simp: js_keys_distinct_def split: if_splits)
qed simp

definition only_taker :: "string \<Rightarrow> params \<Rightarrow> nat \<Rightarrow> pending_command \<Rightarrow> tracker \<Rightarrow> bool" where
  "only_taker name ps rc p t \<longleftrightarrow>
     js_keys_distinct (ct_pending t) \<and> map_of (ct_pending t) rc = Some p \<and> offered_to name ps p \<and>
     (\<forall>(i, q)\<in>set (ct_pending t). i \<noteq> rc \<longrightarrow> \<not> offered_to name ps q)"

lemma pending_selects:
  "pc_spec (p\<lparr>pc_settled := r\<rparr>) = pc_spec p" "pc_spec (p\<lparr>pc_correlated := c\<rparr>) = pc_spec p"
  "pc_echo (p\<lparr>pc_correlated := c\<rparr>) = pc_echo p"
  "pc_correlation (p\<lparr>pc_settled := r\<rparr>) = pc_correlation p"
  by simp_all

lemma offered_to_update [simp]:
  "offered_to name ps (p\<lparr>pc_settled := r\<rparr>) = offered_to name ps p"
  "reports_failure name ps (p\<lparr>pc_settled := r\<rparr>) = reports_failure name ps p"
  "spec_correlated (p\<lparr>pc_correlated := c\<rparr>) = spec_correlated p"
  "answers clid (p\<lparr>pc_correlated := c\<rparr>) = answers clid p"
  unfolding offered_to_def reports_failure_def spec_correlated_def answers_def fun_eq_iff
    pending_selects by (rule refl allI)+

lemma only_taker_find:
  "only_taker name ps rc p t \<Longrightarrow>
     List.find (\<lambda>(i, q). offered_to name ps q) (ct_pending t) = Some (rc, p)"
  by (rule find_only) (auto simp: only_taker_def)

lemma only_taker_update:
  assumes "only_taker name ps rc p t" "offered_to name ps p'"
  shows "only_taker name ps rc p' (t\<lparr>ct_pending := AList.update rc p' (ct_pending t), ct_buffer := b\<rparr>)"
  using assms by (auto simp: only_taker_def update_conv' dest!: update_members)

lemma correlated_order:
  assumes "only_taker name ps rc p t" "\<not> reports_failure name ps p" "pc_correlated p = []" "pc_settled p = None"
  shows "ct_resolved (resolve clid rc None (offerCorrelated name ps t)) =
      ct_resolved (offerCorrelated name ps (resolve clid rc None t)) \<and>
    ct_pending (resolve clid rc None (offerCorrelated name ps t)) =
      ct_pending (offerCorrelated name ps (resolve clid rc None t)) \<and>
    ct_resolved (resolve clid rc None (offerCorrelated name ps t)) =
      ct_resolved t @ [(rc, \<lparr>cr_err = None,
        cr_data = map br_params (filter (answers clid p) (ct_buffer t)) @ [ps]\<rparr>)]"
proof -
  have p: "map_of (ct_pending t) rc = Some p" "offered_to name ps p" using assms(1) by (auto simp: only_taker_def)
  then have c: "spec_correlated p \<noteq> None" "pc_correlation p \<noteq> None"
    by (auto simp: offered_to_def split: option.splits)
  let ?p1 = "p\<lparr>pc_correlated := [ps]\<rparr>"
  let ?d = "map br_params (filter (answers clid p) (ct_buffer t))"
  let ?p2 = "p\<lparr>pc_settled := Some \<lparr>cr_err = None, cr_data = ?d\<rparr>\<rparr>"
  have offer: "offerCorrelated name ps t = t\<lparr>ct_pending := AList.update rc ?p1 (ct_pending t)\<rparr>"
    using only_taker_find[OF assms(1)] assms(2-4) by (simp add: offerCorrelated_def Let_def)
  have res: "resolve clid rc None t =
      t\<lparr>ct_pending := AList.update rc ?p2 (ct_pending t), ct_buffer := []\<rparr>"
    using p c assms(3) by (simp add: resolve_def Let_def)
  have "only_taker name ps rc ?p2 (resolve clid rc None t)"
    unfolding res by (rule only_taker_update[OF assms(1)]) (simp add: p(2))
  note f = only_taker_find[OF this]
  show ?thesis
    unfolding offer using f assms(2,3) c unfolding res
    by (auto simp: resolve_def offerCorrelated_def Let_def settle_command_def update_conv' delete_update_same)
qed

section \<open>The return code on the line\<close>

lemma join_with_snoc: "ps \<noteq> [] \<Longrightarrow> join_with sep (ps @ [p]) = join_with sep ps @ sep @ p"
proof (induction ps)
  case (Cons q ps)
  then show ?case by (cases "ps = []") (simp_all add: join_with_Cons)
qed simp

lemma escape_digits: "escape (string_of_nat n) = string_of_nat n"
proof (rule escape_ident)
  have "c \<notin> fst ` set ESCAPE_MAP" if "is_digit c" for c
    using that by (auto simp: ESCAPE_MAP_def is_digit_def)
  then show "list_all (\<lambda>c. c \<notin> fst ` set ESCAPE_MAP) (string_of_nat n)"
    using string_of_nat_digits[of n] by (auto simp: list_all_iff)
qed

lemma append_built:
  "buildCommandOrdered cmd ps @ '' return_code='' @ string_of_nat rc =
     buildCommandOrdered cmd (ps @ [(''return_code'', string_of_nat rc)])"
proof -
  have "escape ''return_code'' = ''return_code''"
    by (rule escape_ident) (simp add: ESCAPE_MAP_def)
  then have "render_part escape (''return_code'', string_of_nat rc) = ''return_code='' @ string_of_nat rc"
    by (simp add: render_part_def escape_digits)
  then show ?thesis
    using join_with_snoc[of "escape cmd # map (render_part escape) ps" "'' ''"]
    by (simp add: buildCommandOrdered_def)
qed

lemma appendReturnCode_built:
  assumes "isCommandName cmd" "\<forall>(k, v)\<in>set ps. CHR ''='' \<notin> set k" "''return_code'' \<notin> fst ` set ps"
  shows "\<exists>line. appendReturnCode (buildCommandOrdered cmd ps) rc = Inr line \<and>
    parseCommand line = Some \<lparr>cmd_name = cmd,
      cmd_params = (map_of (rev ps))(''return_code'' \<mapsto> string_of_nat rc)\<rparr>"
proof -
  have "map_of (rev ps) ''return_code'' = None" using assms(3) by (simp add: map_of_eq_None_iff)
  then have "appendReturnCode (buildCommandOrdered cmd ps) rc =
      Inr (buildCommandOrdered cmd (ps @ [(''return_code'', string_of_nat rc)]))"
    using parse_buildCommandOrdered[OF assms(1,2)]
    by (simp add: appendReturnCode_def append_built[symmetric])
  moreover have "\<forall>(k, v)\<in>set (ps @ [(''return_code'', string_of_nat rc)]). CHR ''='' \<notin> set k"
    using assms(2) by auto
  ultimately show ?thesis using parse_buildCommandOrdered[OF assms(1)] by simp
qed

end
