(* ===== verification/Channel_Tree.thy ===== *)
theory Channel_Tree
  imports Prelude
begin

text \<open>
  The channels of a server as a tree with exact sibling order, \<open>src/core/channel-tree.ts\<close>: the
  operations that follow the four channel events. Building a tree from a listing is in
  \<open>Channel_Listing\<close>. A channel is its id, parent and order, which the tree
  keeps, and its other properties, a map the tree only copies; what \<open>parseChannel\<close> reads of the
  default row of a created channel is an argument for that reason.

  A \<open>draft\<close> is the contents of a tree while an operation builds the next one; a tree is never
  changed, so an operation here is a function from drafts to drafts.
\<close>

section \<open>Data\<close>

type_synonym 'v fields = "string \<rightharpoonup> 'v"

record 'v channel =
  ch_id :: nat
  ch_parent :: nat
  ch_order :: nat
  ch_fields :: "'v fields"

text \<open>
  \<open>ChannelChanges\<close>: an order if the notification carried one, and the other properties it
  carried, \<^term>\<open>Some None\<close> being one it cleared.
\<close>

record 'v changes =
  cg_order :: "nat option"
  cg_fields :: "string \<rightharpoonup> 'v option"

record 'v draft =
  dr_channels :: "(nat, 'v channel) jsmap"
  dr_kids :: "(nat, nat list) jsmap"
  dr_consistent :: bool

definition TOP :: nat where "TOP = 0"

definition empty_tree :: "'v draft" where
  "empty_tree = \<lparr>dr_channels = [], dr_kids = [], dr_consistent = True\<rparr>"

abbreviation chan :: "'v draft \<Rightarrow> nat \<rightharpoonup> 'v channel" where
  "chan d \<equiv> map_of (dr_channels d)"

definition kid :: "'v draft \<Rightarrow> nat \<Rightarrow> nat list" where
  "kid d p = (case map_of (dr_kids d) p of None \<Rightarrow> [] | Some l \<Rightarrow> l)"

definition flawed :: "'v draft \<Rightarrow> 'v draft" where
  "flawed d = d\<lparr>dr_consistent := False\<rparr>"

text \<open>\<open>draft.channels.set\<close> and \<open>draft.kids.set\<close>.\<close>

definition put_channel :: "'v channel \<Rightarrow> 'v draft \<Rightarrow> 'v draft" where
  "put_channel c d = d\<lparr>dr_channels := AList.update (ch_id c) c (dr_channels d)\<rparr>"

definition put_kids :: "nat \<Rightarrow> nat list \<Rightarrow> 'v draft \<Rightarrow> 'v draft" where
  "put_kids p l d = d\<lparr>dr_kids := AList.update p l (dr_kids d)\<rparr>"

definition drop_kids :: "nat \<Rightarrow> 'v draft \<Rightarrow> 'v draft" where
  "drop_kids p d = d\<lparr>dr_kids := AList.delete p (dr_kids d)\<rparr>"

section \<open>Operations\<close>

definition applyChannelChanges :: "'v channel \<Rightarrow> 'v changes \<Rightarrow> 'v channel" where
  "applyChannelChanges c cg =
     c\<lparr>ch_order := (case cg_order cg of None \<Rightarrow> ch_order c | Some r \<Rightarrow> r),
       ch_fields := (\<lambda>k. case cg_fields cg k of None \<Rightarrow> ch_fields c k | Some v \<Rightarrow> v)\<rparr>"

text \<open>
  \<open>settle\<close> gives each channel of a list the order its position implies. The ids of a list are
  always held (\<open>tree_inv\<close>), which the code asserts; one that is not is passed over here.
\<close>

definition set_order :: "nat \<Rightarrow> nat \<Rightarrow> 'v draft \<Rightarrow> 'v draft" where
  "set_order i order d =
     (case chan d i of
        None \<Rightarrow> d
      | Some c \<Rightarrow> if ch_order c \<noteq> order
                  then d\<lparr>dr_channels := AList.update i (c\<lparr>ch_order := order\<rparr>) (dr_channels d)\<rparr> else d)"

primrec settle_from :: "nat \<Rightarrow> nat list \<Rightarrow> 'v draft \<Rightarrow> 'v draft" where
  "settle_from prev [] d = d"
| "settle_from prev (i # is) d = settle_from i is (set_order i prev d)"

definition settle :: "nat list \<Rightarrow> 'v draft \<Rightarrow> 'v draft" where
  "settle l d = settle_from TOP l d"

text \<open>\<open>insert\<close>: where the id goes in the list, and whether that is where it was meant to go.\<close>

definition place_after :: "nat option \<Rightarrow> nat list \<Rightarrow> nat \<times> bool" where
  "place_after after l =
     (if after = Some TOP then (0, True)
      else case after of
             None \<Rightarrow> (length l, False)
           | Some a \<Rightarrow> if a \<in> set l then (length (takeWhile (\<lambda>x. x \<noteq> a) l) + 1, True)
                       else (length l, False))"

definition insert_at :: "nat \<Rightarrow> nat \<Rightarrow> nat list \<Rightarrow> nat list" where
  "insert_at at i l = take at l @ i # drop at l"

definition insert_channel :: "nat \<Rightarrow> nat \<Rightarrow> nat option \<Rightarrow> 'v draft \<Rightarrow> 'v draft" where
  "insert_channel parent i after d =
     (let (at, placed) = place_after after (kid d parent); nxt = insert_at at i (kid d parent);
          d1 = (if placed then d else flawed d)
      in settle nxt (put_kids parent nxt d1))"

definition detach :: "nat \<Rightarrow> 'v draft \<Rightarrow> 'v draft" where
  "detach i d =
     (case chan d i of
        None \<Rightarrow> d
      | Some c \<Rightarrow>
          (case map_of (dr_kids d) (ch_parent c) of
             None \<Rightarrow> d
           | Some l \<Rightarrow> (let nxt = filter (\<lambda>s. s \<noteq> i) l
                        in if nxt = [] then drop_kids (ch_parent c) d
                           else settle nxt (put_kids (ch_parent c) nxt d))))"

text \<open>\<open>isWithin\<close> climbs the parents; \<^const>\<open>None\<close> is a climb that never ends.\<close>

partial_function (option) isWithin :: "'v draft \<Rightarrow> nat \<Rightarrow> nat \<Rightarrow> bool option" where
  [code]: "isWithin d i ancestor =
     (case chan d i of
        None \<Rightarrow> Some False
      | Some c \<Rightarrow> if ch_id c = ancestor then Some True else isWithin d (ch_parent c) ancestor)"

definition parentOf :: "nat \<Rightarrow> 'v draft \<Rightarrow> nat \<times> 'v draft" where
  "parentOf parent d = (if parent = TOP \<or> chan d parent \<noteq> None then (parent, d) else (TOP, flawed d))"

text \<open>
  \<open>remove\<close> takes the subchannels too. The depth of the recursion is the fuel, one more than the
  channels held; running out of it is \<^const>\<open>None\<close>.
\<close>

definition drop_channel :: "nat \<Rightarrow> 'v draft \<Rightarrow> 'v draft" where
  "drop_channel i d = (drop_kids i d)\<lparr>dr_channels := AList.delete i (dr_channels d)\<rparr>"

fun remove :: "nat \<Rightarrow> nat \<Rightarrow> 'v draft \<Rightarrow> 'v draft option"
and remove_each :: "nat \<Rightarrow> nat list \<Rightarrow> 'v draft \<Rightarrow> 'v draft option" where
  "remove 0 i d = None"
| "remove (Suc n) i d =
     (if chan d i = None then Some (flawed d)
      else let d1 = detach i d
           in case map_of (dr_kids d1) i of
                None \<Rightarrow> Some (drop_channel i d1)
              | Some below \<Rightarrow> map_option (drop_channel i) (remove_each n below (flawed d1)))"
| "remove_each n [] d = Some d"
| "remove_each n (i # is) d = Option.bind (remove n i d) (remove_each n is)"

definition remove_channel :: "nat \<Rightarrow> 'v draft \<Rightarrow> 'v draft option" where
  "remove_channel i d = remove (Suc (length (dr_channels d))) i d"

text \<open>
  The four events. \<open>base\<close> is what a created channel holds where the notification says nothing.
\<close>

definition create :: "'v fields \<Rightarrow> nat \<Rightarrow> nat \<Rightarrow> 'v changes \<Rightarrow> 'v draft \<Rightarrow> 'v draft option" where
  "create base channelID parent cg d =
     Option.bind (if chan d channelID \<noteq> None then remove_channel channelID (flawed d) else Some d)
       (\<lambda>d1. let (parentID, d2) = parentOf parent d1;
                 c = \<lparr>ch_id = channelID, ch_parent = TOP, ch_order = TOP, ch_fields = base\<rparr>;
                 c' = (applyChannelChanges c cg)\<lparr>ch_parent := parentID\<rparr>
             in Some (insert_channel parentID channelID (cg_order cg) (put_channel c' d2)))"

definition edit :: "nat \<Rightarrow> 'v changes \<Rightarrow> 'v draft \<Rightarrow> 'v draft option" where
  "edit channelID cg d =
     (case chan d channelID of
        None \<Rightarrow> Some (flawed d)
      | Some c \<Rightarrow>
          (let d1 = put_channel (applyChannelChanges c (cg\<lparr>cg_order := None\<rparr>)) d
           in case cg_order cg of
                None \<Rightarrow> Some d1
              | Some order \<Rightarrow>
                  Some (insert_channel (ch_parent c) channelID (Some order) (detach channelID d1))))"

definition move :: "nat \<Rightarrow> nat \<Rightarrow> nat \<Rightarrow> 'v draft \<Rightarrow> 'v draft option" where
  "move channelID parent order d =
     (case chan d channelID of
        None \<Rightarrow> Some (flawed d)
      | Some c \<Rightarrow>
          (let (parentID, d1) = parentOf parent d
           in Option.bind (isWithin d1 parentID channelID) (\<lambda>within.
                let (parentID', d2) = (if within then (ch_parent c, flawed d1) else (parentID, d1));
                    d3 = put_channel (c\<lparr>ch_parent := parentID'\<rparr>) (detach channelID d2)
                in Some (insert_channel parentID' channelID (Some order) d3))))"

text \<open>\<open>change\<close>: no channel has id 0, the name of the top level.\<close>

datatype 'v channel_event = Created nat nat "'v changes" | Edited nat "'v changes"
  | Moved nat nat nat | Deleted nat

definition apply_event :: "'v fields \<Rightarrow> 'v channel_event \<Rightarrow> 'v draft \<Rightarrow> 'v draft option" where
  "apply_event base e d =
     (case e of
        Created i p cg \<Rightarrow> if i = TOP then Some (flawed d) else create base i p cg d
      | Edited i cg \<Rightarrow> if i = TOP then Some (flawed d) else edit i cg d
      | Moved i p r \<Rightarrow> if i = TOP then Some (flawed d) else move i p r d
      | Deleted i \<Rightarrow> if i = TOP then Some (flawed d) else remove_channel i d)"

section \<open>Reading a tree\<close>

definition children :: "nat \<Rightarrow> 'v draft \<Rightarrow> 'v channel list" where
  "children parent d = map (\<lambda>i. the (chan d i)) (kid d parent)"

text \<open>The loop of \<open>path\<close>, which stops by itself once it holds more channels than the tree.\<close>

fun path_from :: "nat \<Rightarrow> nat \<Rightarrow> 'v draft \<Rightarrow> 'v channel list \<Rightarrow> 'v channel list" where
  "path_from 0 i d out = out"
| "path_from (Suc n) i d out =
     (case chan d i of None \<Rightarrow> out | Some c \<Rightarrow> path_from n (ch_parent c) d (c # out))"

definition path :: "nat \<Rightarrow> 'v draft \<Rightarrow> 'v channel list" where
  "path i d = path_from (Suc (length (dr_channels d))) i d []"

end
