(* ===== verification/Channel_Tree_Facts.thy ===== *)
theory Channel_Tree_Facts
  imports Channel_Tree
begin

text \<open>
  The channel tree's invariant and its preservation by every event: each channel is listed exactly
  once, under its parent; each channel's order is the sibling before it; the parents
  lead up to the top level. While an operation works, some channels are detached: \<open>X\<close> below.
\<close>

section \<open>Views\<close>

lemma kid_put [simp]: "kid (put_kids p l d) q = (if q = p then l else kid d q)"
  by (auto simp: kid_def put_kids_def update_conv')

lemma kid_drop [simp]: "kid (drop_kids p d) q = (if q = p then [] else kid d q)"
  by (auto simp: kid_def drop_kids_def delete_conv')

lemma kid_more [simp]:
  "kid (flawed d) = kid d" "kid (put_channel c d) = kid d"
  by (simp_all add: kid_def flawed_def put_channel_def fun_eq_iff)

lemma chan_simps [simp]:
  "dr_channels (put_kids p l d) = dr_channels d" "dr_channels (drop_kids p d) = dr_channels d"
  "dr_channels (flawed d) = dr_channels d"
  by (simp_all add: put_kids_def drop_kids_def flawed_def)

lemma chan_put [simp]: "chan (put_channel c d) = (chan d)(ch_id c \<mapsto> c)"
  by (simp add: put_channel_def update_conv')

lemma set_order_kids [simp]: "dr_kids (set_order i r d) = dr_kids d"
  by (simp add: set_order_def split: option.split)

lemma chan_set_order:
  "chan (set_order i r d) j = (if j = i then map_option (\<lambda>c. c\<lparr>ch_order := r\<rparr>) (chan d j) else chan d j)"
proof -
  have "c = c\<lparr>ch_order := ch_order c\<rparr>" for c :: "'a channel" by simp
  then show ?thesis by (auto simp: set_order_def update_conv' split: option.split)
qed

text \<open>The sibling before one in a list, \<open>prev\<close> for the first.\<close>

fun before :: "nat \<Rightarrow> nat list \<Rightarrow> nat \<Rightarrow> nat" where
  "before prev [] i = prev"
| "before prev (x # xs) i = (if x = i then prev else before x xs i)"

lemma settle_from_kids [simp]: "dr_kids (settle_from prev l d) = dr_kids d"
  by (induction l arbitrary: prev d) simp_all

lemma chan_settle_from:
  "distinct l \<Longrightarrow> chan (settle_from prev l d) i =
     map_option (\<lambda>c. if i \<in> set l then c\<lparr>ch_order := before prev l i\<rparr> else c) (chan d i)"
proof (induction l arbitrary: prev d)
  case Nil
  then show ?case by (cases "chan d i") auto
next
  case (Cons x l)
  then show ?case by (cases "chan d i") (auto simp: chan_set_order)
qed

lemma kid_settle [simp]: "kid (settle l d) = kid d"
  by (simp add: settle_def kid_def fun_eq_iff)

lemma chan_settle:
  "distinct l \<Longrightarrow> chan (settle l d) i =
     map_option (\<lambda>c. if i \<in> set l then c\<lparr>ch_order := before TOP l i\<rparr> else c) (chan d i)"
  by (simp add: settle_def chan_settle_from)

section \<open>The invariant\<close>

text \<open>A rank that falls from every channel to its parent: the parents make no loop.\<close>

definition ranked :: "(nat \<Rightarrow> nat) \<Rightarrow> 'v draft \<Rightarrow> bool" where
  "ranked rk d \<longleftrightarrow>
     (\<forall>i c. chan d i = Some c \<longrightarrow> ch_parent c = TOP \<or> rk (ch_parent c) < rk i)"

definition listed_ok :: "nat set \<Rightarrow> 'v draft \<Rightarrow> bool" where
  "listed_ok X d \<longleftrightarrow>
     (\<forall>p. distinct (kid d p) \<and>
        (\<forall>i\<in>set (kid d p). i \<notin> X \<and>
           (\<exists>c. chan d i = Some c \<and> ch_parent c = p \<and> ch_order c = before TOP (kid d p) i)))"

definition channels_ok :: "nat set \<Rightarrow> 'v draft \<Rightarrow> bool" where
  "channels_ok X d \<longleftrightarrow>
     (\<forall>i c. chan d i = Some c \<longrightarrow> ch_id c = i \<and> i \<noteq> TOP \<and>
        (ch_parent c = TOP \<or> chan d (ch_parent c) \<noteq> None) \<and>
        (i \<in> X \<or> i \<in> set (kid d (ch_parent c))))"

definition tree_inv :: "nat set \<Rightarrow> 'v draft \<Rightarrow> bool" where
  "tree_inv X d \<longleftrightarrow> listed_ok X d \<and> channels_ok X d \<and> (\<exists>rk. ranked rk d) \<and>
     (\<forall>x\<in>X. chan d x \<noteq> None)"

lemma tree_inv_empty: "tree_inv {} empty_tree"
  by (simp add: tree_inv_def listed_ok_def channels_ok_def ranked_def empty_tree_def kid_def)

lemma tree_inv_flawed [simp]: "tree_inv X (flawed d) = tree_inv X d"
  by (simp add: tree_inv_def listed_ok_def channels_ok_def ranked_def)

text \<open>Only parents and ids matter to the shape; the orders are those of the lists.\<close>

lemma before_in:
  "i \<in> set l \<Longrightarrow> before prev l i = prev \<or> before prev l i \<in> set l"
  by (induction l arbitrary: prev) auto

lemma tree_inv_channel:
  assumes "tree_inv X d" "chan d i = Some c"
  shows "ch_id c = i" "i \<noteq> TOP" "ch_parent c = TOP \<or> chan d (ch_parent c) \<noteq> None"
    "i \<in> X \<or> i \<in> set (kid d (ch_parent c))" "ch_parent c \<noteq> i"
proof -
  show "ch_id c = i" "i \<noteq> TOP" "ch_parent c = TOP \<or> chan d (ch_parent c) \<noteq> None"
    "i \<in> X \<or> i \<in> set (kid d (ch_parent c))"
    using assms by (auto simp: tree_inv_def channels_ok_def)
  from assms obtain rk where "ranked rk d" by (auto simp: tree_inv_def)
  with assms(2) \<open>i \<noteq> TOP\<close> show "ch_parent c \<noteq> i" unfolding ranked_def by fastforce
qed

lemma tree_inv_listed:
  assumes "tree_inv X d" "i \<in> set (kid d p)"
  shows "i \<notin> X" "\<exists>c. chan d i = Some c \<and> ch_parent c = p \<and> ch_order c = before TOP (kid d p) i"
  using assms by (auto simp: tree_inv_def listed_ok_def)

lemma tree_inv_listed_parent:
  assumes "tree_inv X d" "i \<in> set (kid d p)"
  shows "\<exists>c. chan d i = Some c \<and> ch_parent c = p"
  using tree_inv_listed(2)[OF assms] by blast

lemma kid_of_missing:
  assumes "tree_inv X d" "p \<noteq> TOP" "chan d p = None"
  shows "kid d p = []"
proof (rule ccontr)
  assume "kid d p \<noteq> []"
  then obtain i where "i \<in> set (kid d p)" by (cases "kid d p") auto
  from tree_inv_listed(2)[OF assms(1) this] obtain c where c: "chan d i = Some c" "ch_parent c = p" by blast
  from tree_inv_channel(3)[OF assms(1) c(1)] c(2) assms(2,3) show False by simp
qed

section \<open>Taking a channel out and putting it in\<close>

text \<open>What both do to a parent's list, with the orders settled.\<close>

definition relist :: "nat \<Rightarrow> nat list \<Rightarrow> 'v draft \<Rightarrow> 'v draft" where
  "relist p l d = settle l (put_kids p l d)"

lemma kid_relist [simp]: "kid (relist p l d) q = (if q = p then l else kid d q)"
  by (simp add: relist_def)

lemma chan_relist:
  "distinct l \<Longrightarrow> chan (relist p l d) i =
     map_option (\<lambda>c. if i \<in> set l then c\<lparr>ch_order := before TOP l i\<rparr> else c) (chan d i)"
  by (simp add: relist_def chan_settle)

lemma chan_relist_parent:
  assumes "distinct l" "chan (relist p l d) i = Some c"
  shows "\<exists>c0. chan d i = Some c0 \<and> ch_parent c0 = ch_parent c \<and> ch_id c0 = ch_id c \<and> ch_fields c0 = ch_fields c"
  using assms by (auto simp: chan_relist split: if_splits)

lemma chan_relist_None: "distinct l \<Longrightarrow> chan (relist p l d) i = None \<longleftrightarrow> chan d i = None"
  by (simp add: chan_relist)

lemma tree_inv_relist:
  assumes "tree_inv X d" "distinct l"
    and "\<And>i. i \<in> set l \<Longrightarrow> i \<notin> Y \<and> (\<exists>c. chan d i = Some c \<and> ch_parent c = p)"
    and "set (kid d p) \<subseteq> set l \<union> Y" "X \<subseteq> Y \<union> set l" "\<And>y. y \<in> Y \<Longrightarrow> y \<in> X \<or> y \<in> set (kid d p)"
  shows "tree_inv Y (relist p l d)"
proof -
  have in_l: "i \<in> set l \<Longrightarrow> chan d i = Some c \<Longrightarrow> ch_parent c = p" for i c
    using assms(3)[of i] by auto
  have chan: "chan (relist p l d) i = Some c \<Longrightarrow>
      \<exists>c0. chan d i = Some c0 \<and> ch_parent c0 = ch_parent c \<and> ch_id c0 = ch_id c" for i c
    using chan_relist_parent[OF assms(2)] by blast
  have "listed_ok Y (relist p l d)"
    unfolding listed_ok_def
  proof (intro allI conjI ballI)
    fix q show "distinct (kid (relist p l d) q)"
      using assms(1,2) by (auto simp: tree_inv_def listed_ok_def)
    fix i assume i: "i \<in> set (kid (relist p l d) q)"
    show "i \<notin> Y"
    proof (cases "q = p")
      case True
      with i assms(3) show ?thesis by simp
    next
      case False
      with i have q: "i \<in> set (kid d q)" by simp
      from tree_inv_listed[OF assms(1) q] obtain c where "i \<notin> X" "chan d i = Some c" "ch_parent c = q" by blast
      moreover have "i \<notin> set (kid d p)"
        using tree_inv_listed(2)[OF assms(1), of i p] calculation(2,3) False by auto
      ultimately show ?thesis using assms(6) by blast
    qed
    show "\<exists>c. chan (relist p l d) i = Some c \<and> ch_parent c = q \<and>
        ch_order c = before TOP (kid (relist p l d) q) i"
    proof (cases "q = p")
      case True
      with i have l: "i \<in> set l" by simp
      with assms(3) obtain c where "chan d i = Some c" "ch_parent c = p" by blast
      with True l assms(2) show ?thesis by (simp add: chan_relist)
    next
      case False
      with i have q: "i \<in> set (kid d q)" by simp
      from tree_inv_listed(2)[OF assms(1) q] obtain c where c: "chan d i = Some c" "ch_parent c = q"
        "ch_order c = before TOP (kid d q) i" by blast
      then have "i \<notin> set l" using in_l False by auto
      with c False assms(2) show ?thesis by (simp add: chan_relist)
    qed
  qed
  moreover have "channels_ok Y (relist p l d)"
    unfolding channels_ok_def
  proof (intro allI impI)
    fix i c assume "chan (relist p l d) i = Some c"
    then obtain c0 where c0: "chan d i = Some c0" "ch_parent c0 = ch_parent c" "ch_id c0 = ch_id c"
      using chan by blast
    note t = tree_inv_channel[OF assms(1) c0(1)]
    have "i \<in> Y \<or> i \<in> set (kid (relist p l d) (ch_parent c))"
    proof (cases "ch_parent c = p")
      case True
      with t(4) c0 assms(4,5) show ?thesis by auto
    next
      case False
      have "i \<notin> set l" using in_l c0 False by auto
      with t(4) c0 assms(5) False show ?thesis by auto
    qed
    moreover have "ch_parent c = TOP \<or> chan (relist p l d) (ch_parent c) \<noteq> None"
      using t(3) c0 chan_relist_None[OF assms(2), of p d "ch_parent c"] by auto
    ultimately show "ch_id c = i \<and> i \<noteq> TOP \<and>
        (ch_parent c = TOP \<or> chan (relist p l d) (ch_parent c) \<noteq> None) \<and>
        (i \<in> Y \<or> i \<in> set (kid (relist p l d) (ch_parent c)))"
      using t(1,2) c0 by simp
  qed
  moreover have "\<exists>rk. ranked rk (relist p l d)"
    using assms(1) chan unfolding tree_inv_def ranked_def by metis
  moreover have "\<forall>y\<in>Y. chan (relist p l d) y \<noteq> None"
  proof
    fix y assume "y \<in> Y"
    with assms(6) consider "y \<in> X" | "y \<in> set (kid d p)" by blast
    then have "chan d y \<noteq> None"
      using tree_inv_listed_parent[OF assms(1), of y p] assms(1) by cases (auto simp: tree_inv_def)
    then show "chan (relist p l d) y \<noteq> None"
      unfolding chan_relist_None[OF assms(2)] .
  qed
  ultimately show ?thesis by (simp add: tree_inv_def)
qed

text \<open>\<open>detach\<close> and \<open>insert\<close> are relistings.\<close>

lemma detach_relist:
  assumes "tree_inv X d" "i \<notin> X" "chan d i = Some c"
  shows "tree_inv (insert i X) (detach i d)" "kid (detach i d) q =
      (if q = ch_parent c then filter (\<lambda>s. s \<noteq> i) (kid d q) else kid d q)"
    "chan (detach i d) j = None \<longleftrightarrow> chan d j = None"
    "chan (detach i d) j = Some c' \<Longrightarrow> \<exists>c0. chan d j = Some c0 \<and> ch_parent c0 = ch_parent c' \<and>
       ch_id c0 = ch_id c' \<and> ch_fields c0 = ch_fields c'"
    "dr_consistent (detach i d) = dr_consistent d"
proof -
  let ?p = "ch_parent c" and ?l = "filter (\<lambda>s. s \<noteq> i) (kid d (ch_parent c))"
  have i: "i \<in> set (kid d ?p)" using tree_inv_channel(4)[OF assms(1,3)] assms(2) by simp
  then obtain l where l: "map_of (dr_kids d) ?p = Some l" "kid d ?p = l"
    by (cases "map_of (dr_kids d) ?p") (auto simp: kid_def)
  have dis: "distinct ?l" using assms(1) by (simp add: tree_inv_def listed_ok_def)
  have "j \<notin> insert i X \<and> (\<exists>c. chan d j = Some c \<and> ch_parent c = ?p)" if "j \<in> set ?l" for j
    using tree_inv_listed(1)[OF assms(1), of j ?p] tree_inv_listed_parent[OF assms(1), of j ?p] that
    by simp
  then have inv: "tree_inv (insert i X) (relist ?p ?l d)"
    using i by (intro tree_inv_relist[OF assms(1) dis]) auto
  have eq: "detach i d = (if ?l = [] then drop_kids ?p d else relist ?p ?l d)"
    using assms(3) l by (simp add: detach_def relist_def Let_def)
  have views: "kid (detach i d) = kid (relist ?p ?l d)" "chan (detach i d) = chan (relist ?p ?l d)"
  proof -
    show "kid (detach i d) = kid (relist ?p ?l d)" unfolding eq by (auto simp: fun_eq_iff)
    show "chan (detach i d) = chan (relist ?p ?l d)"
    proof (cases "?l = []")
      case True
      show ?thesis unfolding eq relist_def settle_def True by simp
    qed (simp add: eq)
  qed
  show "tree_inv (insert i X) (detach i d)"
    using inv unfolding tree_inv_def listed_ok_def channels_ok_def ranked_def views .
  show "kid (detach i d) q = (if q = ?p then filter (\<lambda>s. s \<noteq> i) (kid d q) else kid d q)"
    unfolding views by simp
  show "chan (detach i d) j = None \<longleftrightarrow> chan d j = None"
    unfolding views by (rule chan_relist_None[OF dis])
  show "chan (detach i d) j = Some c' \<Longrightarrow> \<exists>c0. chan d j = Some c0 \<and> ch_parent c0 = ch_parent c' \<and>
       ch_id c0 = ch_id c' \<and> ch_fields c0 = ch_fields c'"
    unfolding views by (rule chan_relist_parent[OF dis])
  show "dr_consistent (detach i d) = dr_consistent d"
  proof -
    have "dr_consistent (set_order j r e) = dr_consistent e" for j r and e :: "'a draft"
      by (simp add: set_order_def split: option.split)
    then have "dr_consistent (settle_from prev l e) = dr_consistent e" for prev l and e :: "'a draft"
      by (induction l arbitrary: prev e) simp_all
    then show ?thesis by (simp add: eq relist_def settle_def put_kids_def drop_kids_def)
  qed
qed

lemma insert_at_members: "set (insert_at at i l) = insert i (set l)"
  by (metis Un_insert_right append_take_drop_id insert_at_def list.simps(15) set_append)

lemma distinct_insert_at: "distinct l \<Longrightarrow> i \<notin> set l \<Longrightarrow> distinct (insert_at at i l)"
  by (auto simp: insert_at_def dest: in_set_takeD in_set_dropD)
    (metis append_take_drop_id disjoint_iff distinct_append)

lemma tree_inv_insert:
  assumes "tree_inv (insert i X) d" "i \<notin> X" "chan d i = Some c" "ch_parent c = p"
  shows "tree_inv X (insert_channel p i after d)"
    "kid (insert_channel p i after d) q =
       (if q = p then insert_at (fst (place_after after (kid d p))) i (kid d p) else kid d q)"
proof -
  let ?l = "insert_at (fst (place_after after (kid d p))) i (kid d p)"
  let ?d = "if snd (place_after after (kid d p)) then d else flawed d"
  have eq: "insert_channel p i after d = relist p ?l ?d"
    by (simp add: insert_channel_def relist_def Let_def case_prod_beta)
  have d: "tree_inv (insert i X) ?d" "chan ?d = chan d" "kid ?d = kid d"
    using assms(1) by simp_all
  have i: "i \<notin> set (kid d p)" using tree_inv_listed(1)[OF assms(1)] by auto
  then have dis: "distinct ?l"
    using assms(1) by (intro distinct_insert_at) (auto simp: tree_inv_def listed_ok_def)
  have "j \<notin> X \<and> (\<exists>c. chan ?d j = Some c \<and> ch_parent c = p)" if "j \<in> set ?l" for j
  proof (cases "j = i")
    case True
    with assms(2-4) d(2) show ?thesis by simp
  next
    case False
    with that have "j \<in> set (kid d p)" by (simp add: insert_at_members)
    from tree_inv_listed[OF assms(1) this] d(2) show ?thesis by auto
  qed
  then show "tree_inv X (insert_channel p i after d)"
    unfolding eq by (intro tree_inv_relist[OF d(1) dis]) (auto simp: insert_at_members d(3))
  show "kid (insert_channel p i after d) q = (if q = p then ?l else kid d q)"
    unfolding eq using d(3) by simp
qed

text \<open>An edit of properties, and a new parent for a detached channel.\<close>

definition shape :: "'v draft \<Rightarrow> nat \<Rightarrow> (nat \<times> nat \<times> nat) option" where
  "shape d i = map_option (\<lambda>c. (ch_id c, ch_parent c, ch_order c)) (chan d i)"

lemma shape_chan:
  assumes "shape d = shape e" "chan d i = Some c"
  shows "\<exists>c'. chan e i = Some c' \<and> ch_id c' = ch_id c \<and> ch_parent c' = ch_parent c \<and> ch_order c' = ch_order c"
  using fun_cong[OF assms(1), of i] assms(2) by (cases "chan e i") (auto simp: shape_def)

lemma shape_None:
  assumes "shape d = shape e"
  shows "chan d i = None \<longleftrightarrow> chan e i = None"
  using fun_cong[OF assms, of i] by (auto simp: shape_def)

lemma tree_inv_shape:
  assumes "shape d = shape e" "kid d = kid e" "tree_inv X d"
  shows "tree_inv X e"
  unfolding tree_inv_def
proof (intro conjI)
  show "listed_ok X e"
    unfolding listed_ok_def assms(2)[symmetric]
  proof (intro allI conjI ballI)
    fix p show "distinct (kid d p)" using assms(3) by (auto simp: tree_inv_def listed_ok_def)
    fix i assume i: "i \<in> set (kid d p)"
    show "i \<notin> X" by (rule tree_inv_listed(1)[OF assms(3) i])
    show "\<exists>c. chan e i = Some c \<and> ch_parent c = p \<and> ch_order c = before TOP (kid d p) i"
      using tree_inv_listed(2)[OF assms(3) i] shape_chan[OF assms(1)] by metis
  qed
  show "channels_ok X e"
    unfolding channels_ok_def
  proof (intro allI impI)
    fix i c assume "chan e i = Some c"
    from shape_chan[OF assms(1)[symmetric] this] obtain c' where c': "chan d i = Some c'"
      "ch_id c' = ch_id c" "ch_parent c' = ch_parent c" by blast
    from tree_inv_channel(1-4)[OF assms(3) c'(1)] c'(2,3)
    show "ch_id c = i \<and> i \<noteq> TOP \<and> (ch_parent c = TOP \<or> chan e (ch_parent c) \<noteq> None) \<and>
        (i \<in> X \<or> i \<in> set (kid e (ch_parent c)))"
      using shape_None[OF assms(1)] assms(2) by simp
  qed
  from assms(3) obtain rk where rk: "ranked rk d" by (auto simp: tree_inv_def)
  show "\<exists>rk. ranked rk e"
    using rk shape_chan[OF assms(1)[symmetric]] unfolding ranked_def by metis
  show "\<forall>x\<in>X. chan e x \<noteq> None" using assms(3) shape_None[OF assms(1)] by (simp add: tree_inv_def)
qed

lemma tree_inv_fields:
  assumes "tree_inv X d" "chan d i = Some c" "ch_parent c' = ch_parent c" "ch_id c' = i" "ch_order c' = ch_order c"
  shows "tree_inv X (put_channel c' d)"
proof -
  have "shape (put_channel c' d) = shape d"
    using assms(2-5) tree_inv_channel(1)[OF assms(1,2)] by (auto simp: shape_def fun_eq_iff)
  then show ?thesis using tree_inv_shape[of d "put_channel c' d"] assms(1) by simp
qed

section \<open>Climbing the parents\<close>

inductive below :: "'v draft \<Rightarrow> nat \<Rightarrow> nat \<Rightarrow> bool" for d where
  here: "chan d i \<noteq> None \<Longrightarrow> below d i i"
| up: "chan d i = Some c \<Longrightarrow> below d (ch_parent c) a \<Longrightarrow> below d i a"

lemma below_iff:
  "below d i a \<longleftrightarrow> (\<exists>c. chan d i = Some c \<and> (i = a \<or> below d (ch_parent c) a))"
  by (subst below.simps) auto

lemma isWithin_below:
  assumes "tree_inv X d"
  shows "isWithin d i a = Some (below d i a)"
proof -
  obtain rk where rk: "ranked rk d" using assms by (auto simp: tree_inv_def)
  have top: "chan d TOP = None" using tree_inv_channel(2)[OF assms, of TOP] by (cases "chan d TOP") auto
  show ?thesis
  proof (induction "rk i" arbitrary: i rule: less_induct)
    case less
    show ?case
    proof (cases "chan d i")
      case None
      then show ?thesis by (subst isWithin.simps, subst below_iff) simp
    next
      case (Some c)
      have "isWithin d (ch_parent c) a = Some (below d (ch_parent c) a)"
      proof (cases "ch_parent c = TOP")
        case True
        then show ?thesis using top by (subst isWithin.simps, subst below_iff) simp
      next
        case False
        with rk Some show ?thesis by (intro less) (auto simp: ranked_def)
      qed
      with Some tree_inv_channel(1)[OF assms Some] show ?thesis
        by (subst isWithin.simps, subst below_iff) simp
    qed
  qed
qed

section \<open>New channels and new parents\<close>

lemma tree_inv_new:
  assumes "tree_inv X d" "chan d i = None" "i \<noteq> TOP" "ch_id c = i"
    "ch_parent c = TOP \<or> chan d (ch_parent c) \<noteq> None"
  shows "tree_inv (insert i X) (put_channel c d)"
proof -
  have other: "j \<noteq> i" if "j \<in> set (kid d q)" for j q
    using tree_inv_listed_parent[OF assms(1) that] assms(2) by auto
  have no_child: "ch_parent c' \<noteq> i" if "chan d j = Some c'" for j c'
    using tree_inv_channel(3)[OF assms(1) that] assms(2,3) by auto
  have "listed_ok (insert i X) (put_channel c d)"
    unfolding listed_ok_def using assms(1,4) other
    by (auto simp: tree_inv_def listed_ok_def)
  moreover have "channels_ok (insert i X) (put_channel c d)"
    unfolding channels_ok_def
  proof (intro allI impI)
    fix j c' assume j: "chan (put_channel c d) j = Some c'"
    show "ch_id c' = j \<and> j \<noteq> TOP \<and>
        (ch_parent c' = TOP \<or> chan (put_channel c d) (ch_parent c') \<noteq> None) \<and>
        (j \<in> insert i X \<or> j \<in> set (kid (put_channel c d) (ch_parent c')))"
    proof (cases "j = i")
      case True
      with j assms(3-5) show ?thesis by auto
    next
      case False
      with j assms(4) have d: "chan d j = Some c'" by simp
      from tree_inv_channel(1-4)[OF assms(1) this] show ?thesis by auto
    qed
  qed
  moreover have "\<exists>rk. ranked rk (put_channel c d)"
  proof -
    obtain rk where rk: "ranked rk d" using assms(1) by (auto simp: tree_inv_def)
    have "ch_parent c \<noteq> i" using assms(2,3,5) by auto
    then have "ranked (rk(i := Suc (rk (ch_parent c)))) (put_channel c d)"
      using rk no_child assms(4) by (auto simp: ranked_def)
    then show ?thesis by blast
  qed
  ultimately show ?thesis using assms(1,4) by (auto simp: tree_inv_def)
qed

lemma tree_inv_reparent:
  assumes "tree_inv (insert i X) d" "chan d i = Some c" "p = TOP \<or> chan d p \<noteq> None" "\<not> below d p i"
    "ch_id c1 = i" "ch_parent c1 = p"
  shows "tree_inv (insert i X) (put_channel c1 d)"
proof -
  let ?d = "put_channel c1 d"
  have id: "ch_id c1 = i" "ch_parent c1 = p" "i \<noteq> TOP"
    using tree_inv_channel[OF assms(1,2)] assms(5,6) by simp_all
  have other: "j \<noteq> i" if "j \<in> set (kid d q)" for j q
    using tree_inv_listed(1)[OF assms(1) that] by auto
  have "listed_ok (insert i X) ?d"
    unfolding listed_ok_def using assms(1) other id by (auto simp: tree_inv_def listed_ok_def)
  moreover have "channels_ok (insert i X) ?d"
    unfolding channels_ok_def
  proof (intro allI impI)
    fix j c' assume j: "chan ?d j = Some c'"
    show "ch_id c' = j \<and> j \<noteq> TOP \<and> (ch_parent c' = TOP \<or> chan ?d (ch_parent c') \<noteq> None) \<and>
        (j \<in> insert i X \<or> j \<in> set (kid ?d (ch_parent c')))"
    proof (cases "j = i")
      case True
      with j id assms(3) show ?thesis by auto
    next
      case False
      with j id have d: "chan d j = Some c'" by simp
      from tree_inv_channel(1-4)[OF assms(1) this] show ?thesis by auto
    qed
  qed
  moreover have "\<exists>rk. ranked rk ?d"
  proof -
    obtain rk where rk: "ranked rk d" using assms(1) by (auto simp: tree_inv_def)
    define rk' where "rk' x = rk x + (if below d x i then Suc (rk p) else 0)" for x
    have "below d i i" using assms(2) by (intro below.here) simp
    then have "ch_parent c' = TOP \<or> rk' (ch_parent c') < rk' j" if "chan ?d j = Some c'" for j c'
    proof (cases "j = i")
      case True
      with that id assms(4) \<open>below d i i\<close> show ?thesis by (auto simp: rk'_def)
    next
      case False
      with that id have d: "chan d j = Some c'" by simp
      then have "below d j i \<longleftrightarrow> below d (ch_parent c') i" using False by (subst below_iff) simp
      with d rk show ?thesis by (auto simp: rk'_def ranked_def)
    qed
    then show ?thesis unfolding ranked_def by blast
  qed
  ultimately show ?thesis using assms(1) id by (auto simp: tree_inv_def)
qed

section \<open>Removing a channel\<close>

lemma drop_views [simp]:
  "chan (drop_channel i d) = (chan d)(i := None)"
  "kid (drop_channel i d) q = (if q = i then [] else kid d q)"
  "dr_consistent (drop_channel i d) = dr_consistent d"
  by (auto simp: drop_channel_def drop_kids_def kid_def delete_conv' fun_eq_iff)

lemma flawed_inconsistent [simp]: "\<not> dr_consistent (flawed d)"
  by (simp add: flawed_def)

lemma ranked_flawed [simp]: "ranked rk (flawed d) = ranked rk d"
  by (simp add: ranked_def)

lemma tree_inv_drop:
  assumes "tree_inv (insert i X) d" "i \<notin> X" "kid d i = []" "ranked rk d" "\<forall>x\<in>X. rk x < rk i"
  shows "tree_inv X (drop_channel i d)"
proof -
  have other: "j \<noteq> i" if "j \<in> set (kid d q)" for j q
    using tree_inv_listed(1)[OF assms(1) that] by auto
  have "listed_ok X (drop_channel i d)"
    unfolding listed_ok_def using assms(1) other by (auto simp: tree_inv_def listed_ok_def)
  moreover have "channels_ok X (drop_channel i d)"
    unfolding channels_ok_def
  proof (intro allI impI)
    fix j c assume "chan (drop_channel i d) j = Some c"
    then have j: "j \<noteq> i" "chan d j = Some c" by (auto split: if_splits)
    note t = tree_inv_channel[OF assms(1) j(2)]
    have "ch_parent c \<noteq> i"
    proof
      assume p: "ch_parent c = i"
      with t(4) j(1) assms(3) have "j \<in> X" by auto
      then have "rk j < rk i" using assms(5) by blast
      moreover obtain ci where "chan d i = Some ci" using assms(1) by (auto simp: tree_inv_def)
      then have "i \<noteq> TOP" by (rule tree_inv_channel(2)[OF assms(1)])
      then have "rk i < rk j" using assms(4) j(2) p unfolding ranked_def by blast
      ultimately show False by simp
    qed
    with t j show "ch_id c = j \<and> j \<noteq> TOP \<and>
        (ch_parent c = TOP \<or> chan (drop_channel i d) (ch_parent c) \<noteq> None) \<and>
        (j \<in> X \<or> j \<in> set (kid (drop_channel i d) (ch_parent c)))"
      by auto
  qed
  moreover have "\<exists>rk. ranked rk (drop_channel i d)"
    using assms(4) by (auto simp: ranked_def)
  ultimately show ?thesis using assms(1,2) by (auto simp: tree_inv_def)
qed

text \<open>What removing some channels leaves.\<close>

definition removed :: "(nat \<Rightarrow> nat) \<Rightarrow> nat set \<Rightarrow> nat set \<Rightarrow> 'v draft \<Rightarrow> 'v draft \<Rightarrow> bool" where
  "removed rk X I d d' \<longleftrightarrow> tree_inv X d' \<and> ranked rk d' \<and> (\<forall>i\<in>I. chan d' i = None) \<and>
     dom (chan d') \<subseteq> dom (chan d) \<and> (\<forall>p. set (kid d' p) \<subseteq> set (kid d p)) \<and>
     (dr_consistent d' \<longrightarrow> dr_consistent d)"

lemma removed_missing:
  "tree_inv X d \<Longrightarrow> ranked rk d \<Longrightarrow> chan d i = None \<Longrightarrow> removed rk X {i} d (flawed d)"
  by (simp add: removed_def)

lemma removed_trans:
  "removed rk X I d d' \<Longrightarrow> removed rk X J d' d'' \<Longrightarrow> removed rk X (I \<union> J) d d''"
proof -
  assume a: "removed rk X I d d'" and b: "removed rk X J d' d''"
  have "chan d'' i = None" if "i \<in> I" for i
  proof -
    have "i \<notin> dom (chan d')" using a that by (auto simp: removed_def)
    then have "i \<notin> dom (chan d'')" using b unfolding removed_def by blast
    then show ?thesis by (simp add: domIff)
  qed
  with a b show ?thesis unfolding removed_def by blast
qed

lemma remove_total:
  "(\<forall>X. tree_inv X d \<and> ranked rk d \<and> i \<notin> X \<and> (\<forall>x\<in>X. rk x < rk i) \<and> card (dom (chan d) - X) < n
      \<longrightarrow> (\<exists>d'. remove n i d = Some d' \<and> removed rk X {i} d d'))"
  "(\<forall>X. tree_inv X d \<and> ranked rk d \<and> (\<forall>j\<in>set is. j \<notin> X \<and> (\<forall>x\<in>X. rk x < rk j)) \<and>
        card (dom (chan d) - X) < n
      \<longrightarrow> (\<exists>d'. remove_each n is d = Some d' \<and> removed rk X (set is) d d'))"
proof (induction n i d and n "is" d rule: remove_remove_each.induct)
  case (2 n i d)
  show ?case
  proof (intro allI impI)
    fix X assume a: "tree_inv X d \<and> ranked rk d \<and> i \<notin> X \<and> (\<forall>x\<in>X. rk x < rk i) \<and>
        card (dom (chan d) - X) < Suc n"
    show "\<exists>d'. remove (Suc n) i d = Some d' \<and> removed rk X {i} d d'"
    proof (cases "chan d i")
      case None
      with a removed_missing show ?thesis by auto
    next
      case (Some c)
      let ?d1 = "detach i d"
      note det = detach_relist[OF conjunct1[OF a] _ Some]
      have ni: "i \<notin> X" using a by simp
      have d1: "tree_inv (insert i X) ?d1" by (rule det(1)[OF ni])
      have rk1: "ranked rk ?d1"
        unfolding ranked_def
      proof (intro allI impI)
        fix j c' assume "chan ?d1 j = Some c'"
        with det(4)[OF ni] a show "ch_parent c' = TOP \<or> rk (ch_parent c') < rk j"
          unfolding ranked_def by metis
      qed
      have dom1: "dom (chan ?d1) = dom (chan d)" using det(3)[OF ni] by (auto simp: dom_def)
      have kid1: "set (kid ?d1 q) \<subseteq> set (kid d q)" for q using det(2)[OF ni] by auto
      have con1: "dr_consistent ?d1 = dr_consistent d" by (rule det(5)[OF ni])
      have fin: "removed rk X {i} d (drop_channel i e)"
        if "tree_inv (insert i X) e" "ranked rk e" "kid e i = []" "dom (chan e) \<subseteq> dom (chan d)"
          "\<forall>p. set (kid e p) \<subseteq> set (kid d p)" "dr_consistent e \<longrightarrow> dr_consistent d" for e
        using tree_inv_drop[OF that(1) ni that(3,2)] a that
        by (auto simp: removed_def ranked_def)
      show ?thesis
      proof (cases "map_of (dr_kids ?d1) i")
        case None
        then have "kid ?d1 i = []" by (simp add: kid_def)
        with fin[OF d1 rk1] dom1 kid1 con1 Some None show ?thesis by simp
      next
        case (Some l)
        have ne: "chan d i \<noteq> None" using \<open>chan d i = Some c\<close> by simp
        have l: "kid ?d1 i = l" using Some by (simp add: kid_def)
        have "j \<notin> insert i X \<and> (\<forall>x\<in>insert i X. rk x < rk j)" if "j \<in> set l" for j
        proof -
          have j: "j \<in> set (kid ?d1 i)" using that l by simp
          from tree_inv_listed_parent[OF d1 j] obtain cj where "chan ?d1 j = Some cj" "ch_parent cj = i" by blast
          moreover have "i \<noteq> TOP" using tree_inv_channel(2)[OF _ \<open>chan d i = Some c\<close>] a by blast
          ultimately have "rk i < rk j" using rk1 unfolding ranked_def by metis
          with a tree_inv_listed(1)[OF d1 j] show ?thesis by fastforce
        qed
        moreover have "card (dom (chan (flawed ?d1)) - insert i X) < n"
        proof -
          have "card (dom (chan d) - insert i X) < card (dom (chan d) - X)"
            using \<open>chan d i = Some c\<close> ni by (intro psubset_card_mono) (auto simp: finite_dom_map_of)
          with a dom1 show ?thesis by simp
        qed
        moreover have "tree_inv (insert i X) (flawed ?d1)" "ranked rk (flawed ?d1)"
          using d1 rk1 by (simp_all add: ranked_def)
        ultimately obtain e where e: "remove_each n l (flawed ?d1) = Some e"
          "removed rk (insert i X) (set l) (flawed ?d1) e"
          using "2.IH"[OF ne refl Some, THEN spec, of "insert i X"] by auto
        have "kid e i = []"
        proof (rule ccontr)
          assume "kid e i \<noteq> []"
          then obtain j where j: "j \<in> set (kid e i)" by (cases "kid e i") auto
          then have "j \<in> set l" using e(2) l by (auto simp: removed_def)
          moreover have "chan e j \<noteq> None"
            using tree_inv_listed_parent[of "insert i X" e j i] e(2) j by (auto simp: removed_def)
          ultimately show False using e(2) by (auto simp: removed_def)
        qed
        moreover have "tree_inv (insert i X) e" "ranked rk e" "dom (chan e) \<subseteq> dom (chan d)"
          "\<not> dr_consistent e" "set (kid e q) \<subseteq> set (kid ?d1 q)" for q
          using e(2) dom1 by (simp_all add: removed_def)
        ultimately have "removed rk X {i} d (drop_channel i e)"
          using kid1 by (intro fin) blast+
        with e(1) Some \<open>chan d i = Some c\<close> show ?thesis by simp
      qed
    qed
  qed
next
  case (4 n i "is" d)
  show ?case
  proof (intro allI impI)
    fix X assume a: "tree_inv X d \<and> ranked rk d \<and> (\<forall>j\<in>set (i # is). j \<notin> X \<and> (\<forall>x\<in>X. rk x < rk j)) \<and>
        card (dom (chan d) - X) < n"
    with "4.IH"(1) obtain d1 where d1: "remove n i d = Some d1" "removed rk X {i} d d1" by auto
    have "card (dom (chan d1) - X) \<le> card (dom (chan d) - X)"
      using d1(2) by (intro card_mono) (auto simp: removed_def finite_dom_map_of)
    with a d1(2) have "card (dom (chan d1) - X) < n" by linarith
    with a d1 "4.IH"(2) obtain d2 where "remove_each n is d1 = Some d2" "removed rk X (set is) d1 d2"
      by (auto simp: removed_def)
    with d1 removed_trans[OF d1(2)] show "\<exists>d'. remove_each n (i # is) d = Some d' \<and> removed rk X (set (i # is)) d d'"
      by auto
  qed
qed (auto simp: removed_def)

lemma remove_channel_total:
  assumes "tree_inv {} d"
  shows "\<exists>d'. remove_channel i d = Some d' \<and> tree_inv {} d' \<and> chan d' i = None \<and>
    (dr_consistent d' \<longrightarrow> dr_consistent d) \<and> (\<forall>p. set (kid d' p) \<subseteq> set (kid d p)) \<and>
    dom (chan d') \<subseteq> dom (chan d)"
proof -
  obtain rk where rk: "ranked rk d" using assms by (auto simp: tree_inv_def)
  have "card (dom (chan d)) \<le> length (dr_channels d)"
    by (metis card_length dom_map_of_conv_image_fst length_map list.set_map)
  with assms rk remove_total(1)[of d rk i "Suc (length (dr_channels d))", THEN spec, of "{}"]
  show ?thesis by (auto simp: remove_channel_def removed_def)
qed

section \<open>The events\<close>

lemma consistent_settle: "dr_consistent (settle l d) = dr_consistent d"
proof -
  have "dr_consistent (set_order j r e) = dr_consistent e" for j r and e :: "'a draft"
    by (simp add: set_order_def split: option.split)
  then have "dr_consistent (settle_from prev l e) = dr_consistent e" for prev l and e :: "'a draft"
    by (induction l arbitrary: prev e) simp_all
  then show ?thesis by (simp add: settle_def)
qed

lemma consistent_insert:
  "dr_consistent (insert_channel p i after d) \<longleftrightarrow>
     dr_consistent d \<and> snd (place_after after (kid d p))"
  by (simp add: insert_channel_def consistent_settle put_kids_def flawed_def Let_def case_prod_beta)

lemma consistent_put [simp]: "dr_consistent (put_channel c d) = dr_consistent d"
  by (simp add: put_channel_def)

lemma parentOf_ok:
  assumes "tree_inv X d" "parentOf p d = (q, d')"
  shows "tree_inv X d'" "q = TOP \<or> chan d' q \<noteq> None" "chan d' = chan d" "kid d' = kid d"
    "dr_consistent d' \<longrightarrow> dr_consistent d"
  using assms by (auto simp: parentOf_def split: if_splits)

lemma applyChannelChanges_id [simp]:
  "ch_id (applyChannelChanges c cg) = ch_id c" "ch_parent (applyChannelChanges c cg) = ch_parent c"
  by (simp_all add: applyChannelChanges_def)

lemma create_total:
  assumes "tree_inv {} d" "i \<noteq> TOP"
  shows "\<exists>d'. create base i p cg d = Some d' \<and> tree_inv {} d' \<and> (dr_consistent d' \<longrightarrow> dr_consistent d)"
proof -
  obtain d1 where d1: "(if chan d i \<noteq> None then remove_channel i (flawed d) else Some d) = Some d1"
    "tree_inv {} d1" "chan d1 i = None" "dr_consistent d1 \<longrightarrow> dr_consistent d"
    using remove_channel_total[of "flawed d" i] assms(1) by (cases "chan d i") auto
  obtain q d2 where q: "parentOf p d1 = (q, d2)" by fastforce
  note p = parentOf_ok[OF d1(2) q]
  define c where "c = (applyChannelChanges
    \<lparr>ch_id = i, ch_parent = TOP, ch_order = TOP, ch_fields = base\<rparr> cg)\<lparr>ch_parent := q\<rparr>"
  have c: "ch_id c = i" "ch_parent c = q" by (simp_all add: c_def)
  have "tree_inv (insert i {}) (put_channel c d2)"
    using p c d1(3) assms(2) by (intro tree_inv_new) auto
  then have "tree_inv {} (insert_channel q i (cg_order cg) (put_channel c d2))"
    using c by (intro tree_inv_insert(1)) auto
  moreover have "create base i p cg d = Some (insert_channel q i (cg_order cg) (put_channel c d2))"
    using d1(1) q by (simp add: create_def c_def Let_def)
  ultimately show ?thesis using p(5) d1(4) by (auto simp: consistent_insert)
qed

lemma edit_total:
  assumes "tree_inv {} d"
  shows "\<exists>d'. edit i cg d = Some d' \<and> tree_inv {} d' \<and> (dr_consistent d' \<longrightarrow> dr_consistent d)"
proof (cases "chan d i")
  case None
  with assms show ?thesis by (simp add: edit_def)
next
  case (Some c)
  let ?c = "applyChannelChanges c (cg\<lparr>cg_order := None\<rparr>)"
  let ?d = "put_channel ?c d"
  have id: "ch_id c = i" by (rule tree_inv_channel(1)[OF assms Some])
  have c: "ch_order ?c = ch_order c" by (simp add: applyChannelChanges_def)
  have d: "tree_inv {} ?d" using assms Some id c by (intro tree_inv_fields) auto
  show ?thesis
  proof (cases "cg_order cg")
    case None
    with Some d show ?thesis by (simp add: edit_def)
  next
    case (Some r)
    have ci: "chan ?d i = Some ?c" using id by simp
    note det = detach_relist[OF d _ ci, simplified]
    obtain c2 where c2: "chan (detach i ?d) i = Some c2" using det(3)[of i] ci by auto
    then have "ch_parent c2 = ch_parent c" using det(4)[OF c2] id by auto
    with det(1) have "tree_inv {} (insert_channel (ch_parent c) i (Some r) (detach i ?d))"
      by (intro tree_inv_insert(1)[OF _ _ c2]) auto
    with Some \<open>chan d i = Some c\<close> det(5) show ?thesis by (simp add: edit_def consistent_insert Let_def)
  qed
qed

lemma below_mono:
  assumes "below e p i" "\<And>j c. chan e j = Some c \<Longrightarrow> \<exists>c0. chan d j = Some c0 \<and> ch_parent c0 = ch_parent c"
  shows "below d p i"
  using assms(1)
proof induction
  case (here j)
  with assms(2) show ?case by (metis below.here not_None_eq)
next
  case (up j c a)
  with assms(2) show ?case by (metis below.up)
qed

lemma move_total:
  assumes "tree_inv {} d"
  shows "\<exists>d'. move i p r d = Some d' \<and> tree_inv {} d' \<and> (dr_consistent d' \<longrightarrow> dr_consistent d)"
proof (cases "chan d i")
  case None
  with assms show ?thesis by (simp add: move_def)
next
  case (Some c)
  obtain q d1 where q: "parentOf p d = (q, d1)" by fastforce
  note par = parentOf_ok[OF assms q]
  define q' where "q' = (if below d1 q i then ch_parent c else q)"
  define d2 where "d2 = (if below d1 q i then flawed d1 else d1)"
  have d2: "tree_inv {} d2" "chan d2 = chan d" "kid d2 = kid d" "dr_consistent d2 \<longrightarrow> dr_consistent d"
    using par by (auto simp: d2_def)
  have ci: "chan d2 i = Some c" using Some d2(2) by simp
  note det = detach_relist[OF d2(1) _ ci, simplified]
  obtain c2 where c2: "chan (detach i d2) i = Some c2" using det(3)[of i] ci by auto
  have not_below: "\<not> below d2 q' i"
  proof
    assume b: "below d2 q' i"
    have eq: "below d2 x i = below d1 x i" for x
      by (rule iffI; erule below_mono) (auto simp: d2_def split: if_splits)
    obtain rk where rk: "ranked rk d2" using d2(1) by (auto simp: tree_inv_def)
    have up: "x = i \<or> rk i < rk x" if "below d2 x i" for x
      using that
    proof induction
      case (up j c' a)
      then have "ch_parent c' \<noteq> TOP"
        using tree_inv_channel(2)[OF d2(1)] by (metis below_iff)
      with up rk show ?case unfolding ranked_def by (metis less_trans)
    qed simp
    show False
    proof (cases "below d1 q i")
      case True
      then have "below d2 (ch_parent c) i" using b by (simp add: q'_def)
      with up[OF this] rk ci tree_inv_channel[OF d2(1) ci] show False
        unfolding ranked_def by (metis below_iff less_asym tree_inv_channel(2)[OF d2(1)])
    next
      case False
      with b eq show False by (simp add: q'_def)
    qed
  qed
  have q'_held: "q' = TOP \<or> chan (detach i d2) q' \<noteq> None"
    using par(2,3) d2(2) tree_inv_channel(3)[OF d2(1) ci] det(3)[of q'] by (auto simp: q'_def)
  let ?c = "c\<lparr>ch_parent := q'\<rparr>"
  have id: "ch_id c = i" by (rule tree_inv_channel(1)[OF assms Some])
  have "\<not> below (detach i d2) q' i"
    using not_below below_mono det(4) by metis
  then have "tree_inv {i} (put_channel ?c (detach i d2))"
    using det(1) c2 q'_held id by (intro tree_inv_reparent) auto
  then have "tree_inv {} (insert_channel q' i (Some r) (put_channel ?c (detach i d2)))"
    using id by (intro tree_inv_insert(1)) auto
  moreover have "move i p r d = Some (insert_channel q' i (Some r) (put_channel ?c (detach i d2)))"
    using Some q isWithin_below[OF par(1), of q i]
    by (simp add: move_def q'_def d2_def)
  ultimately show ?thesis using d2(4) det(5) by (simp add: consistent_insert)
qed

text \<open>Every event succeeds, keeps the invariant, and never makes a flawed tree consistent again.\<close>

lemma apply_event_total:
  assumes "tree_inv {} d"
  shows "\<exists>d'. apply_event base e d = Some d' \<and> tree_inv {} d' \<and> (dr_consistent d' \<longrightarrow> dr_consistent d)"
proof (cases e)
  case (Created i p cg)
  then show ?thesis using create_total[OF assms, of i base p cg] assms
    by (cases "i = TOP") (auto simp: apply_event_def)
next
  case (Edited i cg)
  then show ?thesis using edit_total[OF assms, of i cg] assms
    by (cases "i = TOP") (auto simp: apply_event_def)
next
  case (Moved i p r)
  then show ?thesis using move_total[OF assms, of i p r] assms
    by (cases "i = TOP") (auto simp: apply_event_def)
next
  case (Deleted i)
  then show ?thesis using remove_channel_total[OF assms, of i] assms
    by (cases "i = TOP") (auto simp: apply_event_def)
qed

primrec apply_events :: "'v fields \<Rightarrow> 'v channel_event list \<Rightarrow> 'v draft \<Rightarrow> 'v draft option" where
  "apply_events base [] d = Some d"
| "apply_events base (e # es) d = Option.bind (apply_event base e d) (apply_events base es)"

lemma apply_events_total:
  assumes "tree_inv {} d"
  shows "\<exists>d'. apply_events base es d = Some d' \<and> tree_inv {} d' \<and> (dr_consistent d' \<longrightarrow> dr_consistent d)"
  using assms
proof (induction es arbitrary: d)
  case (Cons e es)
  from apply_event_total[OF Cons.prems, of base e] obtain d1 where
    d1: "apply_event base e d = Some d1" "tree_inv {} d1" "dr_consistent d1 \<longrightarrow> dr_consistent d" by blast
  from Cons.IH[OF d1(2)] d1 show ?case by auto
qed simp

section \<open>Where a channel goes\<close>

definition last_of :: "nat list \<Rightarrow> nat" where
  "last_of xs = (if xs = [] then TOP else last xs)"

lemma place_after_split:
  assumes "distinct (xs @ ys)" "TOP \<notin> set (xs @ ys)"
  shows "place_after (Some (last_of xs)) (xs @ ys) = (length xs, True)"
proof (cases xs rule: rev_cases)
  case Nil
  then show ?thesis by (simp add: place_after_def last_of_def)
next
  case (snoc zs z)
  have "takeWhile (\<lambda>x. x \<noteq> z) (zs @ z # ys) = zs"
    using assms(1) snoc by (subst takeWhile_append2) auto
  moreover have "z \<noteq> TOP" using assms(2) snoc by auto
  ultimately show ?thesis using snoc by (simp add: place_after_def last_of_def)
qed

lemma insert_after_last:
  assumes "tree_inv X d" "kid d p = xs @ ys"
  shows "place_after (Some (last_of xs)) (kid d p) = (length xs, True)"
    "insert_at (length xs) i (kid d p) = xs @ i # ys"
proof -
  have "distinct (kid d p)" using assms(1) by (auto simp: tree_inv_def listed_ok_def)
  moreover have "TOP \<notin> set (kid d p)"
    using tree_inv_listed_parent[OF assms(1), of TOP p] tree_inv_channel(2)[OF assms(1), of TOP] by auto
  ultimately show "place_after (Some (last_of xs)) (kid d p) = (length xs, True)"
    unfolding assms(2) by (rule place_after_split)
  show "insert_at (length xs) i (kid d p) = xs @ i # ys" by (simp add: insert_at_def assms(2))
qed

lemma create_placed:
  assumes "tree_inv {} d" "i \<noteq> TOP" "chan d i = None" "p = TOP \<or> chan d p \<noteq> None"
    "kid d p = xs @ ys" "cg_order cg = Some (last_of xs)"
  shows "\<exists>d'. create base i p cg d = Some d' \<and> kid d' = (kid d)(p := xs @ i # ys) \<and>
    dr_consistent d' = dr_consistent d"
proof -
  define c where "c = (applyChannelChanges
    \<lparr>ch_id = i, ch_parent = TOP, ch_order = TOP, ch_fields = base\<rparr> cg)\<lparr>ch_parent := p\<rparr>"
  have c: "ch_id c = i" "ch_parent c = p" by (simp_all add: c_def)
  let ?d = "put_channel c d"
  have inv: "tree_inv (insert i {}) ?d" using assms c by (intro tree_inv_new) auto
  have "parentOf p d = (p, d)" using assms(4) by (auto simp: parentOf_def)
  then have eq: "create base i p cg d = Some (insert_channel p i (Some (last_of xs)) ?d)"
    using assms(3,6) by (simp add: create_def c_def)
  have "kid ?d p = xs @ ys" using assms(5) by simp
  note place = insert_after_last[OF inv this]
  have "kid (insert_channel p i (Some (last_of xs)) ?d) q = ((kid d)(p := xs @ i # ys)) q" for q
    using tree_inv_insert(2)[OF inv _ _ c(2), of "Some (last_of xs)" q] place c(1) by simp
  then have "kid (insert_channel p i (Some (last_of xs)) ?d) = (kid d)(p := xs @ i # ys)" by blast
  moreover have "dr_consistent (insert_channel p i (Some (last_of xs)) ?d) = dr_consistent d"
    using place(1) by (simp add: consistent_insert)
  ultimately show ?thesis using eq by blast
qed

lemma move_placed:
  assumes "tree_inv {} d" "chan d i = Some c" "p = TOP \<or> chan d p \<noteq> None" "\<not> below d p i"
    "filter (\<lambda>s. s \<noteq> i) (kid d p) = xs @ ys"
  shows "\<exists>d'. move i p (last_of xs) d = Some d' \<and> kid d' p = xs @ i # ys \<and>
    (\<forall>q. q \<noteq> p \<longrightarrow> kid d' q = filter (\<lambda>s. s \<noteq> i) (kid d q)) \<and> dr_consistent d' = dr_consistent d"
proof -
  note det = detach_relist[OF assms(1) _ assms(2), simplified]
  have id: "ch_id c = i" by (rule tree_inv_channel(1)[OF assms(1,2)])
  have others: "filter (\<lambda>s. s \<noteq> i) (kid d q) = kid d q" if "q \<noteq> ch_parent c" for q
  proof -
    have "i \<notin> set (kid d q)" using tree_inv_listed_parent[OF assms(1), of i q] assms(2) that by auto
    then show ?thesis by (intro filter_True) auto
  qed
  have kd: "kid (detach i d) q = filter (\<lambda>s. s \<noteq> i) (kid d q)" for q
    using det(2)[of q] others[of q] by auto
  obtain c2 where c2: "chan (detach i d) i = Some c2" using det(3)[of i] assms(2) by auto
  let ?d = "put_channel (c\<lparr>ch_parent := p\<rparr>) (detach i d)"
  have "\<not> below (detach i d) p i" using assms(4) below_mono det(4) by metis
  then have inv: "tree_inv {i} ?d"
    using det(1) c2 assms(3) det(3)[of p] id by (intro tree_inv_reparent) auto
  have "parentOf p d = (p, d)" using assms(3) by (auto simp: parentOf_def)
  then have eq: "move i p (last_of xs) d = Some (insert_channel p i (Some (last_of xs)) ?d)"
    using assms(2,4) isWithin_below[OF assms(1), of p i] by (simp add: move_def)
  have "kid ?d p = xs @ ys" using assms(5) kd by simp
  note place = insert_after_last[OF inv this]
  have "kid (insert_channel p i (Some (last_of xs)) ?d) q =
      (if q = p then xs @ i # ys else filter (\<lambda>s. s \<noteq> i) (kid d q))" for q
    using tree_inv_insert(2)[of i "{}" ?d "c\<lparr>ch_parent := p\<rparr>" p "Some (last_of xs)" q] inv place id kd
    by simp
  moreover have "dr_consistent (insert_channel p i (Some (last_of xs)) ?d) = dr_consistent d"
    using place(1) det(5) by (simp add: consistent_insert)
  ultimately show ?thesis using eq by auto
qed

section \<open>Reading\<close>

lemma children_orders:
  assumes "tree_inv {} d"
  shows "map ch_order (children p d) = (case kid d p of [] \<Rightarrow> [] | _ \<Rightarrow> TOP # butlast (kid d p))"
proof -
  have "before prev l (l ! k) = (prev # l) ! k" if "distinct l" "k < length l" for prev l k
    using that
  proof (induction l arbitrary: prev k)
    case (Cons x l)
    then show ?case by (cases k) auto
  qed simp
  note bef = this
  have dis: "distinct (kid d p)" using assms by (auto simp: tree_inv_def listed_ok_def)
  show ?thesis
  proof (rule nth_equalityI)
    show "length (map ch_order (children p d)) =
        length (case kid d p of [] \<Rightarrow> [] | _ \<Rightarrow> TOP # butlast (kid d p))"
      by (simp add: children_def split: list.split)
    fix k assume "k < length (map ch_order (children p d))"
    then have k: "k < length (kid d p)" by (simp add: children_def)
    then have "kid d p ! k \<in> set (kid d p)" by simp
    from tree_inv_listed(2)[OF assms this] obtain c where
      "chan d (kid d p ! k) = Some c" "ch_order c = before TOP (kid d p) (kid d p ! k)" by blast
    then have "map ch_order (children p d) ! k = (TOP # kid d p) ! k"
      using k bef[OF dis k] by (simp add: children_def)
    moreover have "(TOP # kid d p) ! k = (TOP # butlast (kid d p)) ! k"
      using k by (cases k) (simp_all add: nth_butlast)
    moreover have "(case kid d p of [] \<Rightarrow> [] | _ \<Rightarrow> TOP # butlast (kid d p)) = TOP # butlast (kid d p)"
      using k by (cases "kid d p") simp_all
    ultimately show "map ch_order (children p d) ! k =
        (case kid d p of [] \<Rightarrow> [] | _ \<Rightarrow> TOP # butlast (kid d p)) ! k"
      by simp
  qed
qed

end
