(* ===== verification/Channel_Listing.thy ===== *)
theory Channel_Listing
  imports Channel_Tree_Facts
begin

text \<open>
  Building a channel tree from a listing, \<^verbatim>\<open>ChannelTree.from\<close> and \<^verbatim>\<open>sortSiblings\<close> of
  \<^verbatim>\<open>src/core/channel-tree.ts\<close>. The channels come in any order and may be no tree at all; what is
  built is one, and is the server's when the listing is. The two recursive walks of the code, over
  siblings and over subchannels, are walks over a list of what is left to visit.
\<close>

section \<open>Reading the rows\<close>

definition replace_row :: "'v channel \<Rightarrow> 'v channel list \<Rightarrow> 'v channel list" where
  "replace_row c rows = rows[length (takeWhile (\<lambda>r. ch_id r \<noteq> ch_id c) rows) := c]"

fun gather_row :: "'v channel \<Rightarrow> 'v channel list \<times> 'v draft \<Rightarrow> 'v channel list \<times> 'v draft" where
  "gather_row c (rows, d) =
     (if ch_id c = TOP then (rows, flawed d)
      else if chan d (ch_id c) \<noteq> None then (replace_row c rows, put_channel c (flawed d))
      else (rows @ [c], put_channel c d))"

text \<open>A map from keys to the channels of each, in their order.\<close>

type_synonym 'v groups = "(nat, 'v channel list) jsmap"

definition group :: "'v groups \<Rightarrow> nat \<Rightarrow> 'v channel list" where
  "group m k = (case map_of m k of None \<Rightarrow> [] | Some l \<Rightarrow> l)"

definition add_to :: "nat \<Rightarrow> 'v channel \<Rightarrow> 'v groups \<Rightarrow> 'v groups" where
  "add_to k c m = AList.update k (group m k @ [c]) m"

fun place_row :: "'v channel \<Rightarrow> 'v groups \<times> 'v draft \<Rightarrow> 'v groups \<times> 'v draft" where
  "place_row c (byParent, d) =
     (let parent = ch_parent c
      in if parent \<noteq> TOP \<and> (parent = ch_id c \<or> chan d parent = None)
         then (add_to TOP c byParent, put_channel (c\<lparr>ch_parent := TOP\<rparr>) (flawed d))
         else (add_to parent c byParent, d))"

section \<open>Sorting siblings\<close>

text \<open>\<open>ok\<close> is the draft's \<^verbatim>\<open>consistent\<close>. What has been seen is what is in the output.\<close>

fun name_predecessor :: "nat set \<Rightarrow> 'v channel \<Rightarrow> 'v groups \<times> bool \<Rightarrow> 'v groups \<times> bool" where
  "name_predecessor ids c (after, ok) =
     (let named = ch_order c \<noteq> TOP \<and> ch_order c \<in> ids
      in (add_to (if named then ch_order c else TOP) c after, ok \<and> (ch_order c = TOP \<or> named)))"

function follow :: "'v groups \<Rightarrow> 'v channel list list \<Rightarrow> nat list \<times> bool \<Rightarrow> nat list \<times> bool" where
  "follow after [] st = st"
| "follow after ([] # stack) st = follow after stack st"
| "follow after ((c # cs) # stack) (out, ok) =
     (if ch_id c \<in> set out then follow after (cs # stack) (out, ok)
      else (let l = group after (ch_id c)
            in follow after (l # cs # stack) (out @ [ch_id c], ok \<and> length l \<le> 1)))"
  by pat_completeness auto

termination
proof (relation "measures [\<lambda>(after, stack, (out, ok)). card (fst ` set after - set out),
    \<lambda>(after, stack, st). sum_list (map (\<lambda>l. 1 + 2 * length l) stack)]", goal_cases)
  case (4 after c cs stack out ok l)
  show ?case
  proof (cases "ch_id c \<in> fst ` set after")
    case True
    have "card (fst ` set after - insert (ch_id c) (set out)) < card (fst ` set after - set out)"
      using True 4 by (intro psubset_card_mono) auto
    then show ?thesis by simp
  next
    case False
    then have "map_of after (ch_id c) = None" by (simp add: map_of_eq_None_iff)
    moreover from False have "fst ` set after - insert (ch_id c) (set out) = fst ` set after - set out" by blast
    ultimately show ?thesis using 4 by (simp add: group_def)
  qed
qed auto

definition follow_from :: "'v groups \<Rightarrow> nat \<Rightarrow> nat list \<times> bool \<Rightarrow> nat list \<times> bool" where
  "follow_from after start = (\<lambda>(out, ok).
     follow after [group after start] (out, ok \<and> length (group after start) \<le> 1))"

definition follow_missed :: "'v groups \<Rightarrow> 'v channel \<Rightarrow> nat list \<times> bool \<Rightarrow> nat list \<times> bool" where
  "follow_missed after c = (\<lambda>(out, ok).
     if ch_id c \<in> set out then (out, ok) else follow_from after (ch_id c) (out @ [ch_id c], False))"

definition sortSiblings :: "'v channel list \<Rightarrow> bool \<Rightarrow> nat list \<times> bool" where
  "sortSiblings siblings ok =
     (let (after, ok1) = fold (name_predecessor (ch_id ` set siblings)) siblings ([], ok)
      in fold (follow_missed after) siblings (follow_from after TOP ([], ok1)))"

definition list_kids :: "nat \<times> 'v channel list \<Rightarrow> 'v draft \<Rightarrow> 'v draft" where
  "list_kids = (\<lambda>(parent, siblings) d.
     let (l, ok) = sortSiblings siblings (dr_consistent d) in (put_kids parent l d)\<lparr>dr_consistent := ok\<rparr>)"

section \<open>Reaching every channel\<close>

function mark :: "'v draft \<Rightarrow> nat list \<Rightarrow> nat set \<Rightarrow> nat set" where
  "mark d [] reachable = reachable"
| "mark d (i # is) reachable =
     (if i \<in> reachable then mark d is reachable else mark d (kid d i @ is) (insert i reachable))"
  by pat_completeness auto

termination
proof (relation "measures [\<lambda>(d, is, r). card (fst ` set (dr_kids d) - r), \<lambda>(d, is, r). length is]", goal_cases)
  case (3 d i "is" r)
  show ?case
  proof (cases "i \<in> fst ` set (dr_kids d)")
    case True
    have "card (fst ` set (dr_kids d) - insert i r) < card (fst ` set (dr_kids d) - r)"
      using True 3 by (intro psubset_card_mono) auto
    then show ?thesis by simp
  next
    case False
    then have "map_of (dr_kids d) i = None" by (simp add: map_of_eq_None_iff)
    moreover from False have "fst ` set (dr_kids d) - insert i r = fst ` set (dr_kids d) - r" by blast
    ultimately show ?thesis by (simp add: kid_def)
  qed
qed auto

fun rehang :: "'v channel \<Rightarrow> nat set \<times> 'v draft \<Rightarrow> nat set \<times> 'v draft" where
  "rehang row (reachable, d) =
     (if ch_id row \<in> reachable then (reachable, d)
      else case chan d (ch_id row) of
             None \<Rightarrow> (reachable, d)
           | Some c \<Rightarrow>
               (let d1 = flawed d;
                    d2 = put_kids (ch_parent c) (filter (\<lambda>i. i \<noteq> ch_id c) (kid d1 (ch_parent c))) d1;
                    d3 = put_kids TOP (kid d2 TOP @ [ch_id c]) d2;
                    d4 = put_channel (c\<lparr>ch_parent := TOP\<rparr>) d3
                in (mark d4 (kid d4 (ch_id c)) (insert (ch_id c) reachable), d4)))"

definition settle_list :: "nat \<times> nat list \<Rightarrow> 'v draft \<Rightarrow> 'v draft" where
  "settle_list = (\<lambda>(parent, l) d. if l = [] then drop_kids parent d else settle l d)"

definition from_channels :: "'v channel list \<Rightarrow> 'v draft" where
  "from_channels channels =
     (let (rows, d1) = fold gather_row channels ([], empty_tree);
          (byParent, d2) = fold place_row rows ([], d1);
          d3 = fold list_kids byParent d2;
          (reachable, d4) = fold rehang rows (mark d3 (kid d3 TOP) {}, d3)
      in fold settle_list (dr_kids d4) d4)"


section \<open>What the rows hold\<close>

lemma kids_simps [simp]:
  "dr_kids (put_channel c d) = dr_kids d" "dr_kids (flawed d) = dr_kids d"
  by (simp_all add: put_channel_def flawed_def)

lemma drop_consistent: "dr_consistent (drop_kids p d) = dr_consistent d"
  by (simp add: drop_kids_def)

lemma put_kids_keys [simp]: "js_keys_distinct (dr_kids d) \<Longrightarrow> js_keys_distinct (dr_kids (put_kids p l d))"
  by (simp add: put_kids_def)

definition rows_ok :: "'v channel list \<Rightarrow> 'v draft \<Rightarrow> bool" where
  "rows_ok rows d \<longleftrightarrow> distinct (map ch_id rows) \<and> TOP \<notin> ch_id ` set rows \<and> dr_kids d = [] \<and>
     (\<forall>c\<in>set rows. chan d (ch_id c) = Some c) \<and> (\<forall>i. chan d i \<noteq> None \<longrightarrow> i \<in> ch_id ` set rows)"

lemma replace_row_split:
  assumes "ch_id c \<in> ch_id ` set rows"
  shows "\<exists>xs r ys. rows = xs @ r # ys \<and> ch_id r = ch_id c \<and> replace_row c rows = xs @ c # ys"
proof -
  obtain xs r ys where s: "rows = xs @ r # ys" "ch_id r = ch_id c" "\<forall>x\<in>set xs. ch_id x \<noteq> ch_id c"
    using split_list_first_prop[of rows "\<lambda>r. ch_id r = ch_id c"] assms by (metis (no_types, lifting) imageE)
  then have "takeWhile (\<lambda>r. ch_id r \<noteq> ch_id c) rows = xs" by (simp add: takeWhile_tail)
  with s show ?thesis by (intro exI[of _ xs] exI[of _ r] exI[of _ ys]) (simp add: replace_row_def)
qed

lemma gather_row_ok:
  assumes "rows_ok rows d" "gather_row c (rows, d) = (rows', d')"
  shows "rows_ok rows' d'"
proof (cases "ch_id c = TOP \<or> chan d (ch_id c) = None")
  case True
  then show ?thesis using assms
    by (auto simp: rows_ok_def split: if_splits) (metis imageI option.distinct(1))
next
  case False
  then have "ch_id c \<in> ch_id ` set rows" using assms(1) by (auto simp: rows_ok_def)
  from replace_row_split[OF this] obtain xs r ys where s: "rows = xs @ r # ys" "ch_id r = ch_id c"
      "replace_row c rows = xs @ c # ys" by blast
  show ?thesis using assms False s
    by (auto simp: rows_ok_def split: if_splits) (metis imageI)+
qed

lemma gather_rows_ok:
  "rows_ok rows d \<Longrightarrow> fold gather_row cs (rows, d) = (rows', d') \<Longrightarrow> rows_ok rows' d'"
proof (induction cs arbitrary: rows d)
  case (Cons c cs)
  then show ?case using gather_row_ok by (cases "gather_row c (rows, d)") fastforce
qed simp

text \<open>Rows without a repetition come out as they went in.\<close>

lemma gather_rows_fresh:
  assumes "distinct (map ch_id (rows @ cs))" "TOP \<notin> ch_id ` set cs" "rows_ok rows d"
  shows "\<exists>d'. fold gather_row cs (rows, d) = (rows @ cs, d') \<and> dr_consistent d' = dr_consistent d"
  using assms
proof (induction cs arbitrary: rows d)
  case (Cons c cs)
  have "chan d (ch_id c) = None" using Cons.prems by (auto simp: rows_ok_def)
  then have g: "gather_row c (rows, d) = (rows @ [c], put_channel c d)" using Cons.prems(2) by simp
  have "rows_ok (rows @ [c]) (put_channel c d)" by (rule gather_row_ok[OF Cons.prems(3) g])
  from Cons.IH[OF _ _ this] Cons.prems have
      "\<exists>d'. fold gather_row cs (rows @ [c], put_channel c d) = (rows @ c # cs, d') \<and> dr_consistent d' = dr_consistent d"
    by simp
  then show ?case by (simp only: fold_simps o_def g)
qed simp

section \<open>The parents of the rows\<close>

text \<open>The parent a row is hung under, \<open>I\<close> being the ids of the listing.\<close>

definition hung_under :: "nat set \<Rightarrow> 'v channel \<Rightarrow> nat" where
  "hung_under I c = (if ch_parent c \<noteq> TOP \<and> (ch_parent c = ch_id c \<or> ch_parent c \<notin> I) then TOP else ch_parent c)"

lemma group_add_to [simp]: "group (add_to k c m) j = (if j = k then group m k @ [c] else group m j)"
  by (simp add: group_def add_to_def update_conv')

lemma add_to_keys [simp]: "js_keys_distinct m \<Longrightarrow> js_keys_distinct (add_to k c m)"
  by (simp add: add_to_def)

lemma place_rows:
  assumes "distinct (map ch_id rows)" "\<forall>c\<in>set rows. chan d (ch_id c) = Some c" "js_keys_distinct m"
    "fold place_row rows (m, d) = (m', d')"
  defines "I \<equiv> {i. chan d i \<noteq> None}"
  shows "(\<forall>p. group m' p = group m p @ filter (\<lambda>c. hung_under I c = p) rows) \<and> js_keys_distinct m' \<and>
    (\<forall>c\<in>set rows. chan d' (ch_id c) = Some (c\<lparr>ch_parent := hung_under I c\<rparr>)) \<and>
    (\<forall>i. i \<notin> ch_id ` set rows \<longrightarrow> chan d' i = chan d i) \<and> dr_kids d' = dr_kids d \<and>
    ((\<forall>c\<in>set rows. hung_under I c = ch_parent c) \<longrightarrow> d' = d)"
  using assms(1-4) unfolding I_def
proof (induction rows arbitrary: m d)
  case (Cons c rows)
  obtain m1 d1 where 1: "place_row c (m, d) = (m1, d1)" by fastforce
  let ?I = "{i. chan d i \<noteq> None}"
  have I: "{i. chan d1 i \<noteq> None} = ?I" using 1 Cons.prems(2) by (auto simp: Let_def split: if_splits)
  have "\<forall>c\<in>set rows. chan d1 (ch_id c) = Some c"
    using 1 Cons.prems(1,2) by (auto simp: Let_def split: if_splits) (metis imageI)+
  moreover have "js_keys_distinct m1" using 1 Cons.prems(3) by (auto simp: Let_def split: if_splits)
  moreover have "fold place_row rows (m1, d1) = (m', d')" using Cons.prems(4) 1 by simp
  ultimately have IH: "(\<forall>p. group m' p = group m1 p @ filter (\<lambda>c. hung_under ?I c = p) rows) \<and> js_keys_distinct m' \<and>
      (\<forall>c\<in>set rows. chan d' (ch_id c) = Some (c\<lparr>ch_parent := hung_under ?I c\<rparr>)) \<and>
      (\<forall>i. i \<notin> ch_id ` set rows \<longrightarrow> chan d' i = chan d1 i) \<and> dr_kids d' = dr_kids d1 \<and>
      ((\<forall>c\<in>set rows. hung_under ?I c = ch_parent c) \<longrightarrow> d' = d1)"
    using Cons.IH[of d1 m1] Cons.prems(1) I by simp
  have "(\<forall>p. group m1 p = group m p @ (if hung_under ?I c = p then [c] else [])) \<and>
      chan d1 (ch_id c) = Some (c\<lparr>ch_parent := hung_under ?I c\<rparr>) \<and> dr_kids d1 = dr_kids d \<and>
      (\<forall>i. i \<noteq> ch_id c \<longrightarrow> chan d1 i = chan d i) \<and> (hung_under ?I c = ch_parent c \<longrightarrow> d1 = d)"
    using 1 Cons.prems(2) by (auto simp: Let_def hung_under_def split: if_splits)
  then show ?case using IH Cons.prems(1) by auto
qed simp


section \<open>Siblings come out each once\<close>

lemma named_groups:
  assumes "fold (name_predecessor ids) cs (m, ok) = (m', ok')"
  defines "key \<equiv> \<lambda>c. if ch_order c \<noteq> TOP \<and> ch_order c \<in> ids then ch_order c else TOP"
  shows "(\<forall>k. group m' k = group m k @ filter (\<lambda>c. key c = k) cs) \<and>
    ((\<forall>c\<in>set cs. key c = ch_order c) \<longrightarrow> ok' = ok)"
  using assms(1) unfolding key_def
proof (induction cs arbitrary: m ok)
  case (Cons c cs)
  obtain m1 ok1 where 1: "name_predecessor ids c (m, ok) = (m1, ok1)" by fastforce
  with Cons.prems have "fold (name_predecessor ids) cs (m1, ok1) = (m', ok')" by simp
  from Cons.IH[OF this] 1 show ?case by (auto simp: Let_def split: if_splits)
qed simp

lemma follow_members:
  assumes "distinct out" "\<forall>k. set (group after k) \<subseteq> S" "\<forall>l\<in>set stack. set l \<subseteq> S"
  shows "distinct (fst (follow after stack (out, ok))) \<and> set out \<subseteq> set (fst (follow after stack (out, ok))) \<and>
    set (fst (follow after stack (out, ok))) \<subseteq> set out \<union> ch_id ` S"
  using assms
proof (induction after stack "(out, ok)" arbitrary: out ok rule: follow.induct)
  case (3 after c cs stack out ok)
  show ?case
  proof (cases "ch_id c \<in> set out")
    case False
    define l where "l = group after (ch_id c)"
    have "distinct (fst (follow after (l # cs # stack) (out @ [ch_id c], ok \<and> length l \<le> 1))) \<and>
        set (out @ [ch_id c]) \<subseteq> set (fst (follow after (l # cs # stack) (out @ [ch_id c], ok \<and> length l \<le> 1))) \<and>
        set (fst (follow after (l # cs # stack) (out @ [ch_id c], ok \<and> length l \<le> 1))) \<subseteq>
          set (out @ [ch_id c]) \<union> ch_id ` S"
      using "3.hyps"(2)[OF False l_def] "3.prems" False by (auto simp: l_def)
    then show ?thesis using False "3.prems" by (auto simp: Let_def l_def)
  qed (use 3 in simp)
qed simp_all

lemma follow_missed_members:
  assumes "distinct out" "\<forall>k. set (group after k) \<subseteq> S" "c \<in> S"
  shows "distinct (fst (follow_missed after c (out, ok))) \<and>
    insert (ch_id c) (set out) \<subseteq> set (fst (follow_missed after c (out, ok))) \<and>
    set (fst (follow_missed after c (out, ok))) \<subseteq> set out \<union> ch_id ` S"
proof (cases "ch_id c \<in> set out")
  case False
  let ?st = "(out @ [ch_id c], False)"
  have "distinct (out @ [ch_id c])" using assms False by simp
  from follow_members[OF this assms(2), of "[group after (ch_id c)]" "False \<and> length (group after (ch_id c)) \<le> 1"]
  show ?thesis using False assms by (auto simp: follow_missed_def follow_from_def)
qed (use assms in \<open>auto simp: follow_missed_def\<close>)

lemma follow_all_missed:
  assumes "distinct out" "\<forall>k. set (group after k) \<subseteq> S" "set cs \<subseteq> S"
  shows "distinct (fst (fold (follow_missed after) cs (out, ok))) \<and>
    ch_id ` set cs \<union> set out \<subseteq> set (fst (fold (follow_missed after) cs (out, ok))) \<and>
    set (fst (fold (follow_missed after) cs (out, ok))) \<subseteq> set out \<union> ch_id ` S"
  using assms
proof (induction cs arbitrary: out ok)
  case (Cons c cs)
  obtain out1 ok1 where 1: "follow_missed after c (out, ok) = (out1, ok1)" by fastforce
  have m: "distinct out1 \<and> insert (ch_id c) (set out) \<subseteq> set out1 \<and> set out1 \<subseteq> set out \<union> ch_id ` S"
    using follow_missed_members[OF Cons.prems(1,2), of c ok] Cons.prems(3) 1 by simp
  with Cons.IH[of out1 ok1] Cons.prems have
    "distinct (fst (fold (follow_missed after) cs (out1, ok1))) \<and>
      ch_id ` set cs \<union> set out1 \<subseteq> set (fst (fold (follow_missed after) cs (out1, ok1))) \<and>
      set (fst (fold (follow_missed after) cs (out1, ok1))) \<subseteq> set out1 \<union> ch_id ` S" by simp
  with m 1 show ?case by auto
qed simp

lemma sorted_members:
  "distinct (fst (sortSiblings cs ok)) \<and> set (fst (sortSiblings cs ok)) = ch_id ` set cs"
proof -
  obtain after ok1 where a: "fold (name_predecessor (ch_id ` set cs)) cs ([], ok) = (after, ok1)" by fastforce
  have "\<forall>k. set (group after k) \<subseteq> set cs" using named_groups[OF a] by (auto simp: group_def)
  moreover obtain out ok2 where f: "follow_from after TOP ([], ok1) = (out, ok2)" by fastforce
  ultimately have "distinct out \<and> set out \<subseteq> ch_id ` set cs"
    using follow_members[of "[]" after "set cs" "[group after TOP]" "ok1 \<and> length (group after TOP) \<le> 1"]
    by (simp add: follow_from_def)
  with \<open>\<forall>k. set (group after k) \<subseteq> set cs\<close> show ?thesis
    using follow_all_missed[of out after "set cs" cs ok2] by (auto simp: sortSiblings_def a f)
qed

section \<open>Siblings whose orders are those of a list come out as that list\<close>

lemma before_position:
  "distinct (prev # xs @ ys) \<Longrightarrow> z \<in> set (xs @ ys) \<Longrightarrow>
    before prev (xs @ ys) z = last (prev # xs) \<longleftrightarrow> ys \<noteq> [] \<and> z = hd ys"
proof (induction xs arbitrary: prev)
  case Nil
  then show ?case
  proof (cases ys)
    case (Cons y ys')
    have "before prev ys z \<noteq> prev" if "z \<noteq> y"
      using that Nil Cons before_in[of z ys' y] by auto
    then show ?thesis using Nil Cons by auto
  qed simp
next
  case (Cons x xs)
  show ?case
  proof (cases "z = x")
    case True
    then have "ys \<noteq> [] \<longrightarrow> z \<noteq> hd ys" using Cons.prems(1) by (cases ys) auto
    then show ?thesis using True Cons.prems(1) by auto
  next
    case False
    then show ?thesis using Cons.IH[of x] Cons.prems by simp
  qed
qed

lemma filter_one:
  "distinct (map f xs) \<Longrightarrow> x \<in> set xs \<Longrightarrow> filter (\<lambda>y. f y = f x) xs = [x]"
  by (induction xs) (auto simp: filter_empty_conv image_iff)

lemma sort_listed:
  assumes "distinct (map ch_id cs)" "ch_id ` set cs = set l" "distinct l" "TOP \<notin> set l"
    "\<forall>c\<in>set cs. ch_order c = before TOP l (ch_id c)"
  shows "sortSiblings cs ok = (l, ok)"
proof -
  obtain after ok1 where a: "fold (name_predecessor (ch_id ` set cs)) cs ([], ok) = (after, ok1)" by fastforce
  have key: "(if ch_order c \<noteq> TOP \<and> ch_order c \<in> set l then ch_order c else TOP) = ch_order c" if "c \<in> set cs" for c
  proof -
    have "ch_id c \<in> set l" using that assms(2) by blast
    then show ?thesis using that assms(5) before_in[of "ch_id c" l TOP] by auto
  qed
  have ok1: "ok1 = ok" and grp: "group after k = filter (\<lambda>c. ch_order c = k) cs" for k
    using named_groups[OF a] key by (auto simp: assms(2) group_def cong: filter_cong)
  have next_one: "map ch_id (group after (last (TOP # xs))) = (case ys of [] \<Rightarrow> [] | y # _ \<Rightarrow> [y])" if "l = xs @ ys" for xs ys
  proof -
    have o: "ch_order c = last (TOP # xs) \<longleftrightarrow> ys \<noteq> [] \<and> ch_id c = hd ys" if "c \<in> set cs" for c
    proof -
      have "ch_id c \<in> set (xs @ ys)" using that assms(2) \<open>l = xs @ ys\<close> by blast
      moreover have "distinct (TOP # xs @ ys)" using assms(3,4) \<open>l = xs @ ys\<close> by simp
      ultimately show ?thesis using before_position assms(5) that \<open>l = xs @ ys\<close> by metis
    qed
    show ?thesis
    proof (cases ys)
      case Nil
      then show ?thesis using o by (simp add: grp filter_empty_conv)
    next
      case (Cons y ys')
      then obtain c where c: "c \<in> set cs" "ch_id c = y" using assms(2) \<open>l = xs @ ys\<close> by (metis image_iff in_set_conv_decomp)
      have "filter (\<lambda>c. ch_order c = last (TOP # xs)) cs = filter (\<lambda>b. ch_id b = ch_id c) cs"
        using o Cons c(2) by (auto intro: filter_cong)
      then show ?thesis using filter_one[OF assms(1) c(1)] c(2) Cons by (simp add: grp)
    qed
  qed
  have empties: "follow after stack st = st" if "\<forall>s\<in>set stack. s = []" for stack st
    using that by (induction stack) auto
  have run: "follow after (group after (last (TOP # xs)) # stack) (xs, ok) = (xs @ ys, ok)"
    if "l = xs @ ys" "\<forall>s\<in>set stack. s = []" for xs ys stack
    using that
  proof (induction ys arbitrary: xs stack)
    case Nil
    then show ?case using next_one[of xs "[]"] empties by simp
  next
    case (Cons y ys)
    obtain c where c: "group after (last (TOP # xs)) = [c]" "ch_id c = y"
      using next_one[OF Cons.prems(1)] by auto
    have "y \<notin> set xs" using assms(3) Cons.prems(1) by auto
    moreover have "length (group after y) \<le> 1"
      using next_one[of "xs @ [y]" ys] Cons.prems(1) by (cases ys) (auto dest: arg_cong[of _ _ length])
    ultimately show ?case using Cons.IH[of "xs @ [y]" "[] # stack"] Cons.prems c by (simp add: Let_def)
  qed
  have "length (group after TOP) \<le> 1"
    using next_one[of "[]" l] by (cases l) (auto dest: arg_cong[of _ _ length])
  then have "follow_from after TOP ([], ok1) = (l, ok)" using run[of "[]" l "[]"] ok1 by (simp add: follow_from_def)
  moreover have "fold (follow_missed after) xs (l, ok) = (l, ok)" if "set xs \<subseteq> set cs" for xs
    using that assms(2) by (induction xs) (auto simp: follow_missed_def)
  ultimately show ?thesis by (simp add: sortSiblings_def a)
qed


section \<open>Every row hangs somewhere\<close>

lemma list_kids_one:
  assumes "list_kids (p, cs) d = d'"
  shows "dr_channels d' = dr_channels d" "kid d' q = (if q = p then fst (sortSiblings cs (dr_consistent d)) else kid d q)"
    "dr_consistent d' = snd (sortSiblings cs (dr_consistent d))" "js_keys_distinct (dr_kids d) \<Longrightarrow> js_keys_distinct (dr_kids d')"
  using assms by (auto simp: list_kids_def put_kids_def kid_def update_conv' split: prod.splits)

lemma kids_listed:
  assumes "js_keys_distinct m" "js_keys_distinct (dr_kids d)"
  shows "dr_channels (fold list_kids m d) = dr_channels d \<and> js_keys_distinct (dr_kids (fold list_kids m d)) \<and>
    (\<forall>p\<in>fst ` set m. distinct (kid (fold list_kids m d) p) \<and>
      set (kid (fold list_kids m d) p) = ch_id ` set (group m p)) \<and>
    (\<forall>p. p \<notin> fst ` set m \<longrightarrow> kid (fold list_kids m d) p = kid d p)"
  using assms
proof (induction m arbitrary: d)
  case (Cons x m)
  obtain p cs where x: "x = (p, cs)" by (cases x)
  define d1 where "d1 = list_kids (p, cs) d"
  note 1 = list_kids_one[OF d1_def[symmetric]]
  have p: "p \<notin> fst ` set m" and m: "js_keys_distinct m" using Cons.prems x by (auto simp: js_keys_distinct_def)
  have g: "group ((p, cs) # m) q = (if q = p then cs else group m q)" for q by (simp add: group_def)
  show ?case using Cons.IH[OF m 1(4)[OF Cons.prems(2)]] p sorted_members[of cs "dr_consistent d"]
    by (simp add: x d1_def[symmetric] 1 g) force
qed simp

lemma kids_listed_as:
  assumes "js_keys_distinct m" "\<And>p cs ok. (p, cs) \<in> set m \<Longrightarrow> sortSiblings cs ok = (l p, ok)"
  shows "dr_consistent (fold list_kids m d) = dr_consistent d \<and>
    (\<forall>p. kid (fold list_kids m d) p = (if p \<in> fst ` set m then l p else kid d p))"
  using assms
proof (induction m arbitrary: d)
  case (Cons x m)
  obtain p cs where x: "x = (p, cs)" by (cases x)
  define d1 where "d1 = list_kids (p, cs) d"
  note 1 = list_kids_one[OF d1_def[symmetric]]
  have p: "p \<notin> fst ` set m" and m: "js_keys_distinct m" using Cons.prems(1) x by (auto simp: js_keys_distinct_def)
  have s: "sortSiblings cs ok = (l p, ok)" for ok using Cons.prems(2) x by simp
  show ?case using Cons.IH[OF m, of d1] Cons.prems(2) p by (auto simp: x d1_def[symmetric] 1 s)
qed simp

text \<open>A tree but for its orders and, it may be, its loops.\<close>

definition hung :: "'v draft \<Rightarrow> bool" where
  "hung d \<longleftrightarrow> js_keys_distinct (dr_kids d) \<and>
     (\<forall>p. distinct (kid d p) \<and> (\<forall>i\<in>set (kid d p). \<exists>c. chan d i = Some c \<and> ch_parent c = p)) \<and>
     (\<forall>i c. chan d i = Some c \<longrightarrow> ch_id c = i \<and> i \<noteq> TOP \<and>
        (ch_parent c = TOP \<or> chan d (ch_parent c) \<noteq> None) \<and> i \<in> set (kid d (ch_parent c)))"

lemma hung_listed: "hung d \<Longrightarrow> j \<in> set (kid d p) \<Longrightarrow> \<exists>c. chan d j = Some c \<and> ch_parent c = p"
  by (simp add: hung_def)

lemma hung_chan:
  assumes "hung d" "chan d i = Some c"
  shows "ch_id c = i" "i \<noteq> TOP" "ch_parent c = TOP \<or> chan d (ch_parent c) \<noteq> None" "i \<in> set (kid d (ch_parent c))"
  using assms by (simp_all add: hung_def)

inductive rooted :: "'v draft \<Rightarrow> nat \<Rightarrow> nat \<Rightarrow> bool" for d where
  top: "chan d i = Some c \<Longrightarrow> ch_parent c = TOP \<Longrightarrow> rooted d 0 i"
| below: "chan d i = Some c \<Longrightarrow> ch_parent c \<noteq> TOP \<Longrightarrow> rooted d n (ch_parent c) \<Longrightarrow> rooted d (Suc n) i"

inductive_cases rootedE: "rooted d n i"

lemma rooted_below:
  assumes "rooted d n i" "chan d i = Some c" "ch_parent c \<noteq> TOP"
  shows "\<exists>m. n = Suc m \<and> rooted d m (ch_parent c)"
  using assms by (auto elim: rootedE)

lemma all_rooted_ranked:
  assumes "\<forall>i. chan d i \<noteq> None \<longrightarrow> (\<exists>n. rooted d n i)"
  shows "\<exists>rk. ranked rk d"
proof -
  have "(LEAST n. rooted d n (ch_parent c)) < (LEAST n. rooted d n i)"
    if c: "chan d i = Some c" "ch_parent c \<noteq> TOP" for i c
  proof -
    from c obtain n where "rooted d n i" using assms(1) by auto
    then have least: "rooted d (LEAST n. rooted d n i) i" by (rule LeastI)
    from rooted_below[OF least c] obtain m where m: "(LEAST n. rooted d n i) = Suc m" "rooted d m (ch_parent c)" by blast
    from Least_le[of "\<lambda>n. rooted d n (ch_parent c)", OF m(2)] m(1) show ?thesis by simp
  qed
  then show ?thesis by (intro exI[of _ "\<lambda>i. LEAST n. rooted d n i"]) (auto simp: ranked_def)
qed

section \<open>The walk from the top\<close>

lemma mark_rooted:
  assumes "hung d" "\<forall>i\<in>R \<union> set is. \<exists>n. rooted d n i"
  shows "R \<subseteq> mark d is R \<and> set is \<subseteq> mark d is R \<and> (\<forall>i\<in>mark d is R. \<exists>n. rooted d n i)"
  using assms
proof (induction d "is" R rule: mark.induct)
  case (2 d i "is" R)
  have "\<exists>n. rooted d n j" if j: "j \<in> set (kid d i)" for j
  proof -
    obtain c where c: "chan d j = Some c" "ch_parent c = i"
      using hung_listed[OF "2.prems"(1) j] by blast
    show ?thesis
    proof (cases "i = TOP")
      case False
      obtain n where "rooted d n i" using "2.prems"(2) by auto
      then show ?thesis using c False by (metis rooted.below)
    qed (use c in \<open>metis rooted.top\<close>)
  qed
  note kids = this
  show ?case
  proof (cases "i \<in> R")
    case True
    then show ?thesis using "2.IH"(1)[OF True "2.prems"(1)] "2.prems"(2) by auto
  next
    case False
    have "\<forall>j\<in>insert i R \<union> set (kid d i @ is). \<exists>n. rooted d n j"
      using "2.prems"(2) kids by (simp add: ball_Un)
    from "2.IH"(2)[OF False "2.prems"(1) this] False show ?thesis by simp
  qed
qed simp

text \<open>It reaches all that hangs below what it reaches.\<close>

lemma mark_closed:
  assumes "\<forall>i\<in>R. set (kid d i) \<subseteq> R \<union> set is"
  shows "\<forall>i\<in>mark d is R. set (kid d i) \<subseteq> mark d is R"
  using assms
proof (induction d "is" R rule: mark.induct)
  case (2 d i "is" R)
  then show ?case by (cases "i \<in> R") auto
qed simp

lemma hung_top_rooted: "hung d \<Longrightarrow> i \<in> set (kid d TOP) \<Longrightarrow> rooted d 0 i"
  by (drule (1) hung_listed) (auto intro: rooted.top)

section \<open>Hanging a loop at the top\<close>

definition hang_top :: "nat \<Rightarrow> 'v channel \<Rightarrow> 'v draft \<Rightarrow> 'v draft" where
  "hang_top i c d =
     (let d1 = flawed d; d2 = put_kids (ch_parent c) (filter (\<lambda>j. j \<noteq> i) (kid d1 (ch_parent c))) d1
      in put_channel (c\<lparr>ch_parent := TOP\<rparr>) (put_kids TOP (kid d2 TOP @ [i]) d2))"

lemma hang_top_views:
  assumes "hung d" "chan d i = Some c"
  shows "chan (hang_top i c d) = (chan d)(i \<mapsto> c\<lparr>ch_parent := TOP\<rparr>)"
    "kid (hang_top i c d) p = (if p = TOP then filter (\<lambda>j. j \<noteq> i) (kid d TOP) @ [i]
       else if p = ch_parent c then filter (\<lambda>j. j \<noteq> i) (kid d p) else kid d p)"
    "js_keys_distinct (dr_kids (hang_top i c d))"
proof -
  have "ch_id c = i" "js_keys_distinct (dr_kids d)" using assms by (simp_all add: hung_def)
  moreover have "i \<notin> set (kid d TOP)" if "ch_parent c \<noteq> TOP"
    using that assms(2) hung_listed[OF assms(1), of i TOP] by auto
  then have "ch_parent c \<noteq> TOP \<Longrightarrow> filter (\<lambda>j. j \<noteq> i) (kid d TOP) = kid d TOP" by (auto simp: filter_id_conv)
  ultimately show "chan (hang_top i c d) = (chan d)(i \<mapsto> c\<lparr>ch_parent := TOP\<rparr>)"
    "kid (hang_top i c d) p = (if p = TOP then filter (\<lambda>j. j \<noteq> i) (kid d TOP) @ [i]
       else if p = ch_parent c then filter (\<lambda>j. j \<noteq> i) (kid d p) else kid d p)"
    "js_keys_distinct (dr_kids (hang_top i c d))"
    by (auto simp: hang_top_def Let_def)
qed

lemma hung_hang_top:
  assumes "hung d" "chan d i = Some c"
  shows "hung (hang_top i c d)"
proof -
  note v = hang_top_views[OF assms]
  have c: "ch_id c = i" "i \<noteq> TOP" using assms by (auto simp: hung_def)
  have "\<exists>e. chan (hang_top i c d) j = Some e \<and> ch_parent e = p" if "j \<in> set (kid (hang_top i c d) p)" for j p
    using that assms(2) hung_listed[OF assms(1), of j p] unfolding v
    by (auto split: if_splits)
  moreover have "distinct (kid (hang_top i c d) p)" for p using assms by (simp add: v hung_def)
  moreover have "ch_id e = j \<and> j \<noteq> TOP \<and> (ch_parent e = TOP \<or> chan (hang_top i c d) (ch_parent e) \<noteq> None) \<and>
      j \<in> set (kid (hang_top i c d) (ch_parent e))" if "chan (hang_top i c d) j = Some e" for j e
    using that hung_chan[OF assms] hung_chan[OF assms(1), of j e] unfolding v
    by (auto split: if_splits)
  ultimately show ?thesis using v(3) by (simp add: hung_def)
qed

lemma rooted_hang_top:
  assumes "hung d" "chan d i = Some c" "rooted d n j"
  shows "\<exists>m. rooted (hang_top i c d) m j"
  using assms(3)
proof induction
  case (top j e)
  then show ?case using hang_top_views(1)[OF assms(1,2)] assms(2)
    by (cases "j = i") (auto intro!: exI[of _ 0] rooted.top)
next
  case (below j e n)
  then obtain m where m: "rooted (hang_top i c d) m (ch_parent e)" by blast
  show ?case
  proof (cases "j = i")
    case True
    then show ?thesis using hang_top_views(1)[OF assms(1,2)] by (auto intro!: exI[of _ 0] rooted.top)
  next
    case False
    then have "chan (hang_top i c d) j = Some e" using hang_top_views(1)[OF assms(1,2)] below(1) by simp
    from rooted.below[OF this below(2) m] show ?thesis by blast
  qed
qed


lemma rehang_hang_top:
  assumes "hung d"
  shows "rehang row (R, d) =
    (if ch_id row \<in> R then (R, d)
     else case chan d (ch_id row) of
            None \<Rightarrow> (R, d)
          | Some c \<Rightarrow> (let d' = hang_top (ch_id row) c d
                       in (mark d' (kid d' (ch_id row)) (insert (ch_id row) R), d')))"
  using hung_chan(1)[OF assms] by (auto simp: hang_top_def Let_def split: option.split)

lemma rehang_rooted:
  assumes "hung d" "\<forall>i\<in>R. \<exists>n. rooted d n i" "rehang row (R, d) = (R', d')"
  shows "hung d' \<and> (\<forall>i\<in>R'. \<exists>n. rooted d' n i) \<and> R \<subseteq> R' \<and>
    (chan d (ch_id row) \<noteq> None \<longrightarrow> ch_id row \<in> R') \<and> (\<forall>i. chan d' i = None \<longleftrightarrow> chan d i = None)"
proof (cases "ch_id row \<in> R \<or> chan d (ch_id row) = None")
  case True
  then have "rehang row (R, d) = (R, d)" by auto
  then show ?thesis using True assms by auto
next
  case False
  then obtain c where c: "chan d (ch_id row) = Some c" by auto
  define d1 where "d1 = hang_top (ch_id row) c d"
  have r: "d' = d1" "R' = mark d1 (kid d1 (ch_id row)) (insert (ch_id row) R)"
    using False c assms(3) unfolding rehang_hang_top[OF assms(1)] by (auto simp: d1_def Let_def)
  have h: "hung d1" unfolding d1_def by (rule hung_hang_top[OF assms(1) c])
  have chan: "chan d1 = (chan d)(ch_id row \<mapsto> c\<lparr>ch_parent := TOP\<rparr>)"
    unfolding d1_def by (rule hang_top_views(1)[OF assms(1) c])
  have top: "rooted d1 0 (ch_id row)" by (rule rooted.top[where c = "c\<lparr>ch_parent := TOP\<rparr>"]) (simp_all add: chan)
  have "\<exists>n. rooted d1 n j" if j: "j \<in> set (kid d1 (ch_id row))" for j
  proof -
    obtain e where e: "chan d1 j = Some e" "ch_parent e = ch_id row" using hung_listed[OF h j] by blast
    have "ch_id row \<noteq> TOP" using hung_chan(2)[OF assms(1) c] .
    with e top rooted.below[of d1 j e 0] show ?thesis by auto
  qed
  moreover have "\<exists>n. rooted d1 n i" if "i \<in> R" for i
    using that assms(2) rooted_hang_top[OF assms(1) c] unfolding d1_def by blast
  ultimately have "\<forall>i\<in>insert (ch_id row) R \<union> set (kid d1 (ch_id row)). \<exists>n. rooted d1 n i" using top by blast
  from mark_rooted[OF h this] show ?thesis unfolding r using h chan c by (simp add: fun_upd_def)
qed

lemma rehang_all:
  assumes "hung d" "\<forall>i\<in>R. \<exists>n. rooted d n i" "fold rehang rows (R, d) = (R', d')"
  shows "hung d' \<and> (\<forall>i\<in>R'. \<exists>n. rooted d' n i) \<and> R \<subseteq> R' \<and>
    (\<forall>row\<in>set rows. chan d (ch_id row) \<noteq> None \<longrightarrow> ch_id row \<in> R') \<and>
    (\<forall>i. chan d' i = None \<longleftrightarrow> chan d i = None)"
  using assms
proof (induction rows arbitrary: R d)
  case (Cons row rows)
  obtain R1 d1 where 1: "rehang row (R, d) = (R1, d1)" by fastforce
  note s = rehang_rooted[OF Cons.prems(1,2) 1]
  have "fold rehang rows (R1, d1) = (R', d')" using Cons.prems(3) 1 by simp
  from Cons.IH[OF _ _ this] s show ?case by auto
qed simp

lemma rehang_reached:
  assumes "ch_id ` set rows \<subseteq> R"
  shows "fold rehang rows (R, d) = (R, d)"
  using assms by (induction rows) auto

section \<open>The orders\<close>

lemma settle_list_views:
  assumes "distinct l" "kid d p = l"
  shows "kid (settle_list (p, l) d) = kid d" "dr_consistent (settle_list (p, l) d) = dr_consistent d"
    "chan (settle_list (p, l) d) i = map_option (\<lambda>c. if i \<in> set l then c\<lparr>ch_order := before TOP l i\<rparr> else c) (chan d i)"
  using assms by (auto simp: settle_list_def chan_settle consistent_settle fun_eq_iff option.map_ident
      drop_consistent)

text \<open>Each channel is in the list of its parent alone, which gives it its order.\<close>

lemma settle_lists:
  assumes "js_keys_distinct m" "\<forall>(p, l)\<in>set m. kid d p = l \<and> distinct l \<and>
      (\<forall>i\<in>set l. \<exists>c. chan d i = Some c \<and> ch_parent c = p)"
  shows "kid (fold settle_list m d) = kid d \<and> dr_consistent (fold settle_list m d) = dr_consistent d \<and>
    (\<forall>i. chan (fold settle_list m d) i = map_option (\<lambda>c.
       if ch_parent c \<in> fst ` set m \<and> i \<in> set (kid d (ch_parent c))
       then c\<lparr>ch_order := before TOP (kid d (ch_parent c)) i\<rparr> else c) (chan d i))"
  using assms
proof (induction m arbitrary: d)
  case Nil
  then show ?case by (simp add: option.map_ident)
next
  case (Cons x m)
  obtain p l where x: "x = (p, l)" by (cases x)
  define d1 where "d1 = settle_list (p, l) d"
  have l: "distinct l" "kid d p = l" "\<And>i. i \<in> set l \<Longrightarrow> \<exists>c. chan d i = Some c \<and> ch_parent c = p"
    using Cons.prems(2) x by auto
  note v = settle_list_views[OF l(1,2), folded d1_def]
  have m: "js_keys_distinct m" "p \<notin> fst ` set m" using Cons.prems(1) x by (auto simp: js_keys_distinct_def)
  have "\<forall>(q, k)\<in>set m. kid d1 q = k \<and> distinct k \<and> (\<forall>i\<in>set k. \<exists>c. chan d1 i = Some c \<and> ch_parent c = q)"
  proof clarify
    fix q k assume qk: "(q, k) \<in> set m"
    then have "kid d q = k \<and> distinct k \<and> (\<forall>i\<in>set k. \<exists>c. chan d i = Some c \<and> ch_parent c = q)"
      using Cons.prems(2) by auto
    then show "kid d1 q = k \<and> distinct k \<and> (\<forall>i\<in>set k. \<exists>c. chan d1 i = Some c \<and> ch_parent c = q)"
      unfolding v by fastforce
  qed
  note IH = Cons.IH[OF m(1) this]
  have "chan (fold settle_list m d1) i = map_option (\<lambda>c.
       if ch_parent c \<in> fst ` set ((p, l) # m) \<and> i \<in> set (kid d (ch_parent c))
       then c\<lparr>ch_order := before TOP (kid d (ch_parent c)) i\<rparr> else c) (chan d i)" for i
    using IH m(2) l(2) l(3)[of i] by (cases "chan d i") (auto simp: v)
  with IH show ?case by (simp add: x d1_def[symmetric] v)
qed


section \<open>What is built is a tree\<close>

lemma settled_tree:
  assumes "hung d" "\<forall>i. chan d i \<noteq> None \<longrightarrow> (\<exists>n. rooted d n i)"
  shows "tree_inv {} (fold settle_list (dr_kids d) d) \<and> kid (fold settle_list (dr_kids d) d) = kid d \<and>
    dr_consistent (fold settle_list (dr_kids d) d) = dr_consistent d \<and>
    (\<forall>i. chan (fold settle_list (dr_kids d) d) i =
      map_option (\<lambda>c. c\<lparr>ch_order := before TOP (kid d (ch_parent c)) i\<rparr>) (chan d i))"
proof -
  define d' where "d' = fold settle_list (dr_kids d) d"
  have keys: "js_keys_distinct (dr_kids d)" using assms(1) by (simp add: hung_def)
  have "kid d p = l" if "(p, l) \<in> set (dr_kids d)" for p l
    using that keys by (simp add: kid_def js_keys_distinct_def)
  moreover have "distinct (kid d p)" for p using assms(1) by (simp add: hung_def)
  ultimately have pre: "\<forall>(p, l)\<in>set (dr_kids d). kid d p = l \<and> distinct l \<and>
      (\<forall>i\<in>set l. \<exists>c. chan d i = Some c \<and> ch_parent c = p)"
    using hung_listed[OF assms(1)] by blast
  note s = settle_lists[OF keys pre, folded d'_def]
  have listed: "p \<in> fst ` set (dr_kids d)" if "kid d p \<noteq> []" for p
    using that by (auto simp: kid_def dest: map_of_SomeD intro: rev_image_eqI split: option.splits)
  have chan: "chan d' i = map_option (\<lambda>c. c\<lparr>ch_order := before TOP (kid d (ch_parent c)) i\<rparr>) (chan d i)" for i
  proof (cases "chan d i")
    case (Some c)
    then have "i \<in> set (kid d (ch_parent c))" by (rule hung_chan(4)[OF assms(1)])
    then show ?thesis using s Some listed[of "ch_parent c"] by force
  qed (use s in simp)
  have before_chan: "\<exists>c. chan d i = Some c \<and> c' = c\<lparr>ch_order := before TOP (kid d (ch_parent c)) i\<rparr>"
    if "chan d' i = Some c'" for i c'
    using that by (auto simp only: chan map_option_eq_Some)
  obtain rk where rk: "ranked rk d" using all_rooted_ranked[OF assms(2)] by blast
  have "ranked rk d'" unfolding ranked_def
  proof (intro allI impI)
    fix i c' assume "chan d' i = Some c'"
    from before_chan[OF this] rk show "ch_parent c' = TOP \<or> rk (ch_parent c') < rk i"
      unfolding ranked_def by fastforce
  qed
  moreover have "listed_ok {} d'" unfolding listed_ok_def
  proof (intro allI conjI ballI)
    fix q i :: nat
    have "kid d' = kid d" using s by blast
    then show "distinct (kid d' q)" using \<open>distinct (kid d q)\<close> by simp
    show "i \<notin> {}" by simp
    assume "i \<in> set (kid d' q)"
    then obtain c where "chan d i = Some c" "ch_parent c = q" using hung_listed[OF assms(1)] \<open>kid d' = kid d\<close> by metis
    then show "\<exists>c. chan d' i = Some c \<and> ch_parent c = q \<and> ch_order c = before TOP (kid d' q) i"
      using chan[of i] \<open>kid d' = kid d\<close> by simp
  qed
  moreover have "channels_ok {} d'" unfolding channels_ok_def
  proof (intro allI impI)
    fix i c' assume "chan d' i = Some c'"
    from before_chan[OF this] obtain c where c: "chan d i = Some c" "c' = c\<lparr>ch_order := before TOP (kid d (ch_parent c)) i\<rparr>"
      by blast
    have "chan d' (ch_parent c) = None \<longleftrightarrow> chan d (ch_parent c) = None" by (simp add: chan)
    with hung_chan[OF assms(1) c(1)] c(2) s show "ch_id c' = i \<and> i \<noteq> TOP \<and>
        (ch_parent c' = TOP \<or> chan d' (ch_parent c') \<noteq> None) \<and> (i \<in> {} \<or> i \<in> set (kid d' (ch_parent c')))"
      by simp
  qed
  ultimately have "tree_inv {} d'" by (auto simp: tree_inv_def)
  then show ?thesis unfolding d'_def[symmetric] using s chan by blast
qed

text \<open>The draft before the walk from the top.\<close>

lemma listed_hung:
  assumes "rows_ok rows d" "fold place_row rows ([], d) = (m, d2)"
  shows "hung (fold list_kids m d2)"
proof -
  let ?I = "{i. chan d i \<noteq> None}" and ?d = "fold list_kids m d2"
  note r = assms(1)[unfolded rows_ok_def]
  have p: "(\<forall>p. group m p = filter (\<lambda>c. hung_under ?I c = p) rows) \<and> js_keys_distinct m \<and>
      (\<forall>c\<in>set rows. chan d2 (ch_id c) = Some (c\<lparr>ch_parent := hung_under ?I c\<rparr>)) \<and>
      (\<forall>i. i \<notin> ch_id ` set rows \<longrightarrow> chan d2 i = chan d i) \<and> dr_kids d2 = []"
    using place_rows[of rows d "[]" m d2] r assms(2) by (simp add: group_def)
  then have l: "dr_channels ?d = dr_channels d2" "js_keys_distinct (dr_kids ?d)"
      "\<forall>p\<in>fst ` set m. distinct (kid ?d p) \<and> set (kid ?d p) = ch_id ` set (group m p)"
      "\<forall>p. p \<notin> fst ` set m \<longrightarrow> kid ?d p = kid d2 p"
    using kids_listed[of m d2] by simp_all
  have kids: "distinct (kid ?d q) \<and> set (kid ?d q) = ch_id ` set (group m q)" for q
  proof (cases "q \<in> fst ` set m")
    case False
    then have "group m q = []" by (simp add: group_def map_of_eq_None_iff[THEN iffD2])
    moreover have "kid d2 q = []" using p by (simp add: kid_def)
    ultimately show ?thesis using l(4) False by simp
  qed (use l(3) in blast)
  have row: "\<exists>c\<in>set rows. ch_id c = i \<and> e = c\<lparr>ch_parent := hung_under ?I c\<rparr>" if "chan d2 i = Some e" for i e
  proof (cases "i \<in> ch_id ` set rows")
    case True
    then obtain c where "c \<in> set rows" "ch_id c = i" by blast
    with that p show ?thesis by auto
  next
    case False
    with that p r show ?thesis by auto
  qed
  have under: "hung_under ?I c = TOP \<or> chan d2 (hung_under ?I c) \<noteq> None" for c
  proof -
    have "chan d2 i \<noteq> None" if "chan d i \<noteq> None" for i
    proof -
      have "i \<in> ch_id ` set rows" using that r by blast
      then obtain c where "c \<in> set rows" "ch_id c = i" by blast
      with p show ?thesis by auto
    qed
    then show ?thesis by (auto simp: hung_under_def)
  qed
  show ?thesis unfolding hung_def l(1)
  proof (intro conjI allI ballI impI)
    fix q i assume "i \<in> set (kid ?d q)"
    then show "\<exists>c. chan d2 i = Some c \<and> ch_parent c = q" using kids[of q] p by auto
  next
    fix i e assume e: "chan d2 i = Some e"
    then obtain c where c: "c \<in> set rows" "ch_id c = i" "e = c\<lparr>ch_parent := hung_under ?I c\<rparr>" using row by blast
    show "ch_id e = i" "i \<noteq> TOP" "ch_parent e = TOP \<or> chan d2 (ch_parent e) \<noteq> None"
      using c r under[of c] by auto
    show "i \<in> set (kid ?d (ch_parent e))" using kids[of "ch_parent e"] p c by auto
  qed (use kids l(2) in auto)
qed


lemma from_channels_total: "tree_inv {} (from_channels cs)"
proof -
  obtain rows d1 where 1: "fold gather_row cs ([], empty_tree) = (rows, d1)" by fastforce
  obtain m d2 where 2: "fold place_row rows ([], d1) = (m, d2)" by fastforce
  define d3 where "d3 = fold list_kids m d2"
  obtain R d4 where 4: "fold rehang rows (mark d3 (kid d3 TOP) {}, d3) = (R, d4)" by fastforce
  have ok: "rows_ok rows d1"
    by (rule gather_rows_ok[OF _ 1]) (simp add: rows_ok_def empty_tree_def)
  have h: "hung d3" unfolding d3_def by (rule listed_hung[OF ok 2])
  have "\<forall>i\<in>{} \<union> set (kid d3 TOP). \<exists>n. rooted d3 n i" using hung_top_rooted[OF h] by blast
  from mark_rooted[OF h this] have R: "\<forall>i\<in>mark d3 (kid d3 TOP) {}. \<exists>n. rooted d3 n i" by blast
  note f = rehang_all[OF h R 4]
  have "i \<in> R" if "chan d4 i \<noteq> None" for i
  proof -
    have 3: "chan d3 i \<noteq> None" using that f by auto
    have "dr_channels d3 = dr_channels d2"
      using kids_listed[of m d2] place_rows[OF _ _ _ 2] ok by (simp add: d3_def rows_ok_def)
    moreover have "\<forall>j. j \<notin> ch_id ` set rows \<longrightarrow> chan d2 j = chan d1 j"
      using place_rows[OF _ _ _ 2] ok by (simp add: rows_ok_def)
    ultimately have "i \<in> ch_id ` set rows" using 3 ok by (auto simp: rows_ok_def)
    then show ?thesis using f 3 by auto
  qed
  with f have "\<forall>i. chan d4 i \<noteq> None \<longrightarrow> (\<exists>n. rooted d4 n i)" by blast
  with f settled_tree[of d4] show ?thesis by (simp add: from_channels_def 1 2 d3_def[symmetric] 4)
qed

section \<open>A tree's own listing gives the tree back\<close>

text \<open>However its channels are listed.\<close>

definition listing_of :: "'v draft \<Rightarrow> 'v channel list \<Rightarrow> bool" where
  "listing_of d cs \<longleftrightarrow> distinct cs \<and> set cs = {c. \<exists>i. chan d i = Some c}"

lemma mark_includes: "set is \<subseteq> mark d is R \<and> R \<subseteq> mark d is R"
  by (induction d "is" R rule: mark.induct) auto

lemma below_top_reached:
  assumes "tree_inv {} d" "kid d' = kid d" "chan d i = Some c"
  shows "i \<in> mark d' (kid d' TOP) {}"
proof -
  obtain rk where rk: "ranked rk d" using assms(1) by (auto simp: tree_inv_def)
  let ?R = "mark d' (kid d' TOP) {}"
  have closed: "\<forall>i\<in>?R. set (kid d i) \<subseteq> ?R" using mark_closed[of "{}" d' "kid d' TOP"] assms(2) by simp
  have start: "set (kid d TOP) \<subseteq> ?R" using mark_includes[of "kid d' TOP" d' "{}"] assms(2) by simp
  show ?thesis using assms(3)
  proof (induction "rk i" arbitrary: i c rule: less_induct)
    case less
    note c = tree_inv_channel[OF assms(1) less.prems]
    show ?case
    proof (cases "ch_parent c = TOP")
      case True
      then show ?thesis using c(4) start by auto
    next
      case False
      then obtain e where e: "chan d (ch_parent c) = Some e" using c(3) by auto
      have "rk (ch_parent c) < rk i" using rk less.prems False by (auto simp: ranked_def)
      from less.hyps[OF this e] closed c(4) show ?thesis by auto
    qed
  qed
qed

lemma listing_ids:
  assumes "tree_inv {} d" "listing_of d cs"
  shows "c \<in> set cs \<Longrightarrow> chan d (ch_id c) = Some c" "distinct (map ch_id cs)" "TOP \<notin> ch_id ` set cs"
    "i \<in> ch_id ` set cs \<longleftrightarrow> chan d i \<noteq> None"
proof -
  have id: "chan d (ch_id c) = Some c \<and> ch_id c \<noteq> TOP" if c: "c \<in> set cs" for c
  proof -
    obtain i where i: "chan d i = Some c" using c assms(2) by (auto simp: listing_of_def)
    from tree_inv_channel(1,2)[OF assms(1) i] i show ?thesis by simp
  qed
  show "c \<in> set cs \<Longrightarrow> chan d (ch_id c) = Some c" using id by simp
  have "c = e" if "c \<in> set cs" "e \<in> set cs" "ch_id c = ch_id e" for c e
    using id[OF that(1)] id[OF that(2)] that(3) by (metis option.inject)
  then show "distinct (map ch_id cs)" using assms(2) by (auto simp: distinct_map inj_on_def listing_of_def)
  show "TOP \<notin> ch_id ` set cs" using id by (metis imageE)
  show "i \<in> ch_id ` set cs \<longleftrightarrow> chan d i \<noteq> None"
  proof
    assume "chan d i \<noteq> None"
    then obtain c where "chan d i = Some c" by auto
    moreover from this have "c \<in> set cs" using assms(2) by (auto simp: listing_of_def)
    ultimately show "i \<in> ch_id ` set cs" using tree_inv_channel(1)[OF assms(1)] by blast
  next
    assume "i \<in> ch_id ` set cs"
    then show "chan d i \<noteq> None" using id by (metis imageE option.distinct(1))
  qed
qed

lemma siblings_sorted:
  assumes t: "tree_inv {} d" and cs: "listing_of d cs"
  shows "sortSiblings (filter (\<lambda>c. ch_parent c = q) cs) ok = (kid d q, ok)"
proof (rule sort_listed)
  note id = listing_ids[OF t cs]
  show "distinct (map ch_id (filter (\<lambda>c. ch_parent c = q) cs))" using id(2) by (auto simp: distinct_map inj_on_def)
  have listed: "ch_id c \<in> set (kid d (ch_parent c))" if "c \<in> set cs" for c
    using tree_inv_channel(4)[OF t id(1)[OF that]] by simp
  show "ch_id ` set (filter (\<lambda>c. ch_parent c = q) cs) = set (kid d q)"
  proof
    show "set (kid d q) \<subseteq> ch_id ` set (filter (\<lambda>c. ch_parent c = q) cs)"
    proof
      fix i assume "i \<in> set (kid d q)"
      from tree_inv_listed_parent[OF t this] obtain c where c: "chan d i = Some c" "ch_parent c = q" by blast
      then have "c \<in> set cs" "ch_id c = i" using cs tree_inv_channel(1)[OF t] by (auto simp: listing_of_def)
      with c show "i \<in> ch_id ` set (filter (\<lambda>c. ch_parent c = q) cs)" by auto
    qed
  qed (use listed in auto)
  show "distinct (kid d q)" using t by (simp add: tree_inv_def listed_ok_def)
  show "TOP \<notin> set (kid d q)" using tree_inv_listed_parent[OF t, of TOP q] tree_inv_channel(2)[OF t, of TOP] by auto
  show "\<forall>c\<in>set (filter (\<lambda>c. ch_parent c = q) cs). ch_order c = before TOP (kid d q) (ch_id c)"
  proof
    fix c assume "c \<in> set (filter (\<lambda>c. ch_parent c = q) cs)"
    then have c: "c \<in> set cs" "ch_parent c = q" by auto
    with tree_inv_listed(2)[OF t, of "ch_id c" q] listed[of c] id(1) show "ch_order c = before TOP (kid d q) (ch_id c)"
      by auto
  qed
qed

text \<open>The draft before the walk, for such a listing.\<close>

lemma listing_placed:
  assumes t: "tree_inv {} d" and cs: "listing_of d cs"
  shows "\<exists>d1 m. fold gather_row cs ([], empty_tree) = (cs, d1) \<and> fold place_row cs ([], d1) = (m, d1) \<and>
    dr_consistent d1 \<and> rows_ok cs d1 \<and> chan d1 = chan d \<and> js_keys_distinct m \<and>
    (\<forall>q. group m q = filter (\<lambda>c. ch_parent c = q) cs)"
proof -
  note id = listing_ids[OF t cs]
  have "rows_ok [] (empty_tree :: 'a draft)" by (simp add: rows_ok_def empty_tree_def)
  then obtain d1 where 1: "fold gather_row cs ([], empty_tree) = (cs, d1)" "dr_consistent d1"
    using gather_rows_fresh[of "[]" cs "empty_tree :: 'a draft"] id(2,3) by (auto simp: empty_tree_def)
  have ok: "rows_ok cs d1" by (rule gather_rows_ok[OF _ 1(1)]) (simp add: rows_ok_def empty_tree_def)
  have "chan d1 i = chan d i" for i
  proof (cases "i \<in> ch_id ` set cs")
    case True
    then obtain c where "c \<in> set cs" "ch_id c = i" by blast
    then show ?thesis using ok id(1) by (auto simp: rows_ok_def)
  next
    case False
    then have "chan d1 i = None" using ok by (auto simp: rows_ok_def)
    then show ?thesis using False id(4)[of i] by simp
  qed
  then have c1: "chan d1 = chan d" by blast
  obtain m d2 where 2: "fold place_row cs ([], d1) = (m, d2)" by fastforce
  have under: "hung_under {i. chan d1 i \<noteq> None} c = ch_parent c" if "c \<in> set cs" for c
    using tree_inv_channel(3,5)[OF t id(1)[OF that]] by (auto simp: hung_under_def c1)
  have p: "group m q = filter (\<lambda>c. hung_under {i. chan d1 i \<noteq> None} c = q) cs" "js_keys_distinct m" "d2 = d1" for q
    using place_rows[OF _ _ _ 2] ok under by (auto simp: rows_ok_def group_def)
  then have "group m q = filter (\<lambda>c. ch_parent c = q) cs" for q
    using under by (auto intro: filter_cong)
  with 1 2 ok c1 p(2,3) show ?thesis by blast
qed

lemma listing_kids:
  assumes t: "tree_inv {} d" and cs: "listing_of d cs"
    and "js_keys_distinct m" "\<forall>q. group m q = filter (\<lambda>c. ch_parent c = q) cs" "rows_ok cs d1" "dr_consistent d1"
  shows "dr_consistent (fold list_kids m d1) \<and> kid (fold list_kids m d1) = kid d \<and>
    dr_channels (fold list_kids m d1) = dr_channels d1"
proof -
  have sorted: "sortSiblings ss b = (kid d q, b)" if "(q, ss) \<in> set m" for q ss b
  proof -
    have "ss = filter (\<lambda>c. ch_parent c = q) cs"
      using that assms(3,4) by (metis group_def js_keys_distinct_def map_of_is_SomeI option.simps(5))
    then show ?thesis by (simp only: siblings_sorted[OF t cs])
  qed
  note l = kids_listed_as[OF assms(3), of "kid d" d1, OF sorted]
  have "kid (fold list_kids m d1) q = kid d q" for q
  proof (cases "q \<in> fst ` set m")
    case False
    then have "filter (\<lambda>c. ch_parent c = q) cs = []"
      using assms(4) by (metis group_def map_of_eq_None_iff option.simps(4))
    then have "kid d q = []"
      using siblings_sorted[OF t cs, of q True] by (simp add: sortSiblings_def follow_from_def group_def)
    moreover have "kid d1 q = []" using assms(5) by (simp add: rows_ok_def kid_def)
    ultimately show ?thesis using l False by simp
  qed (use l in simp)
  then show ?thesis using l assms(6) kids_listed[OF assms(3), of d1] assms(5) by (auto simp: rows_ok_def)
qed

lemma from_channels_rebuilds:
  assumes t: "tree_inv {} d" and cs: "listing_of d cs"
  shows "kid (from_channels cs) = kid d \<and> chan (from_channels cs) = chan d \<and> dr_consistent (from_channels cs)"
proof -
  obtain d1 m where 1: "fold gather_row cs ([], empty_tree) = (cs, d1)" "fold place_row cs ([], d1) = (m, d1)"
      "dr_consistent d1" "rows_ok cs d1" "chan d1 = chan d" "js_keys_distinct m"
      "\<forall>q. group m q = filter (\<lambda>c. ch_parent c = q) cs"
    using listing_placed[OF t cs] by blast
  define d3 where "d3 = fold list_kids m d1"
  have 3: "dr_consistent d3" "kid d3 = kid d" "dr_channels d3 = dr_channels d1"
    using listing_kids[OF t cs 1(6,7,4,3)] by (simp_all add: d3_def)
  have h: "hung d3" unfolding d3_def by (rule listed_hung[OF 1(4,2)])
  have reached: "i \<in> mark d3 (kid d3 TOP) {}" if "chan d3 i \<noteq> None" for i
    using that below_top_reached[OF t 3(2), of i] 3(3) 1(5) by auto
  have "\<forall>i\<in>{} \<union> set (kid d3 TOP). \<exists>n. rooted d3 n i" using hung_top_rooted[OF h] by blast
  from mark_rooted[OF h this] reached have "\<forall>i. chan d3 i \<noteq> None \<longrightarrow> (\<exists>n. rooted d3 n i)" by blast
  note s = settled_tree[OF h this]
  have "ch_id ` set cs \<subseteq> mark d3 (kid d3 TOP) {}"
    using reached listing_ids(1)[OF t cs] 3(3) 1(5) by auto
  from rehang_reached[OF this, of d3] have f: "from_channels cs = fold settle_list (dr_kids d3) d3"
    using 1(1,2) by (simp add: from_channels_def d3_def Let_def)
  have "chan (from_channels cs) i = chan d i" for i
  proof (cases "chan d i")
    case (Some c)
    have "ch_order c = before TOP (kid d (ch_parent c)) i"
      using tree_inv_listed(2)[OF t, of i "ch_parent c"] tree_inv_channel(4)[OF t Some] Some by auto
    then show ?thesis using s Some by (simp add: f 3(2,3) 1(5))
  qed (use s in \<open>simp add: f 3(3) 1(5)\<close>)
  then show ?thesis using s 3 by (auto simp: f)
qed

end
