(* ===== verification/Query_Stream.thy ===== *)
theory Query_Stream
  imports Prelude
begin

text \<open>
  The line side of a ServerQuery connection: \<^verbatim>\<open>src/query/lines.ts\<close> (the reader that cuts a
  byte stream into lines), \<^verbatim>\<open>src/query/trim.ts\<close> and \<^verbatim>\<open>src/query/stream.ts\<close> (the transport over a
  socket or an SSH shell). The platform's UTF-8 decoder is the argument \<open>decode\<close>, its
  \<^verbatim>\<open>Buffer.byteLength\<close> the argument \<open>byteLength\<close>. The callbacks the transport makes and the calls
  it makes on its stream are recorded, in order, as events.
\<close>

section \<open>Trimming\<close>

definition trimTrailingSlashes :: "string \<Rightarrow> string" where
  "trimTrailingSlashes text = rev (dropWhile (\<lambda>c. c = CHR ''/'') (rev text))"

definition trimCarriageReturns :: "string \<Rightarrow> string" where
  "trimCarriageReturns text =
     (let from_start = dropWhile (\<lambda>c. c = CHR 0x0D) text
      in rev (dropWhile (\<lambda>c. c = CHR 0x0D) (rev from_start)))"

section \<open>The reader\<close>

definition MAX_LINE_BYTES :: nat where "MAX_LINE_BYTES = 256 * 1024 * 1024"

datatype query_error = Line_Too_Long nat | Stream_Error string | Connection_Closed

record line_reader =
  lr_parts :: "bytes list"
  lr_length :: nat
  lr_limit :: nat

definition new_reader :: "nat \<Rightarrow> line_reader" where
  "new_reader limit = \<lparr>lr_parts = [], lr_length = 0, lr_limit = limit\<rparr>"

definition clear_reader :: "line_reader \<Rightarrow> line_reader" where
  "clear_reader lr = lr\<lparr>lr_parts := [], lr_length := 0\<rparr>"

definition add_part :: "bytes \<Rightarrow> line_reader \<Rightarrow> (query_error + unit) \<times> line_reader" where
  "add_part part lr =
     (let lr' = lr\<lparr>lr_length := lr_length lr + length part\<rparr>
      in if lr_limit lr < lr_length lr' then (Inl (Line_Too_Long (lr_limit lr)), clear_reader lr')
         else (Inr (), if part \<noteq> [] then lr'\<lparr>lr_parts := lr_parts lr @ [part]\<rparr> else lr'))"

text \<open>\<^verbatim>\<open>Buffer.concat\<close> with a length: cut, or filled up with zeros, to it.\<close>

definition buffer_concat :: "bytes list \<Rightarrow> nat \<Rightarrow> bytes" where
  "buffer_concat parts n = take n (concat parts) @ replicate (n - length (concat parts)) 0"

function push_from ::
    "(bytes \<Rightarrow> string) \<Rightarrow> bytes \<Rightarrow> string list \<Rightarrow> line_reader \<Rightarrow>
     (query_error + string list) \<times> line_reader" where
  "push_from decode chunk lines lr =
     (if 0x0A \<in> set chunk then
        (let part = takeWhile (\<lambda>b. b \<noteq> 0x0A) chunk;
             rest = drop (length part + 1) chunk
         in case add_part part lr of
              (Inl e, lr') \<Rightarrow> (Inl e, lr')
            | (Inr _, lr') \<Rightarrow>
                push_from decode rest
                  (lines @ [trimCarriageReturns (decode (buffer_concat (lr_parts lr') (lr_length lr')))])
                  (clear_reader lr'))
      else case add_part chunk lr of
             (Inl e, lr') \<Rightarrow> (Inl e, lr')
           | (Inr _, lr') \<Rightarrow> (Inr lines, lr'))"
  by pat_completeness auto

termination
  by (relation "measure (\<lambda>(d, chunk, ls, lr). length chunk)")
    (auto, metis diff_less length_pos_if_in_set zero_less_Suc)

declare push_from.simps [simp del]

definition push :: "(bytes \<Rightarrow> string) \<Rightarrow> bytes \<Rightarrow> line_reader \<Rightarrow> (query_error + string list) \<times> line_reader" where
  "push decode chunk lr = push_from decode chunk [] lr"

section \<open>The transport\<close>

text \<open>What the transport does outwards: hand a line to its owner, write to the stream, end or drop
  the stream, run the hook that releases what the stream sits on, and report the close.\<close>

datatype stream_event = Line string | Wrote string | Stream_Ended | Stream_Destroyed | Released
  | Reported "query_error option"

record transport =
  qs_reader :: line_reader
  qs_can_destroy :: bool
  qs_banner :: nat
  qs_listening :: bool
  qs_closing :: bool
  qs_ended :: bool
  qs_error :: "query_error option"
  qs_sent :: nat
  qs_received :: nat
  qs_events :: "stream_event list"

definition new_transport :: "bool \<Rightarrow> transport" where
  "new_transport can_destroy = \<lparr>qs_reader = new_reader MAX_LINE_BYTES, qs_can_destroy = can_destroy,
     qs_banner = 2, qs_listening = False, qs_closing = False, qs_ended = False, qs_error = None,
     qs_sent = 0, qs_received = 0, qs_events = []\<rparr>"

definition happen :: "stream_event \<Rightarrow> transport \<Rightarrow> transport" where
  "happen e t = t\<lparr>qs_events := qs_events t @ [e]\<rparr>"

text \<open>The owner sets \<^verbatim>\<open>onLine\<close>.\<close>

definition listen :: "transport \<Rightarrow> transport" where
  "listen t = t\<lparr>qs_listening := True\<rparr>"

definition handleClose :: "transport \<Rightarrow> transport" where
  "handleClose t =
     (if qs_ended t then t
      else (let t' = happen Released (t\<lparr>qs_ended := True\<rparr>)
            in happen (Reported (if qs_closing t' then None else qs_error t')) t'))"

definition on_stream_error :: "string \<Rightarrow> transport \<Rightarrow> transport" where
  "on_stream_error e t = t\<lparr>qs_error := Some (Stream_Error e)\<rparr>"

definition hand_line :: "string \<Rightarrow> transport \<Rightarrow> transport" where
  "hand_line l t =
     (if 0 < qs_banner t then t\<lparr>qs_banner := qs_banner t - 1\<rparr>
      else if qs_listening t then happen (Line l) t else t)"

definition handleData :: "(bytes \<Rightarrow> string) \<Rightarrow> bytes \<Rightarrow> transport \<Rightarrow> transport" where
  "handleData decode chunk t =
     (if qs_ended t then t
      else (let t1 = t\<lparr>qs_received := qs_received t + length chunk\<rparr>
            in case push decode chunk (qs_reader t1) of
                 (Inl e, lr) \<Rightarrow>
                   (let t2 = t1\<lparr>qs_reader := lr, qs_error := Some e, qs_listening := False\<rparr>
                    in handleClose (happen (if qs_can_destroy t2 then Stream_Destroyed else Stream_Ended) t2))
               | (Inr lines, lr) \<Rightarrow> fold hand_line lines (t1\<lparr>qs_reader := lr\<rparr>)))"

text \<open>\<^verbatim>\<open>send\<close>: the write, and later its callback, which counts the bytes unless the write failed.\<close>

definition send_line :: "string \<Rightarrow> transport \<Rightarrow> (query_error + unit) \<times> transport" where
  "send_line l t = (if qs_ended t then (Inl Connection_Closed, t) else (Inr (), happen (Wrote l) t))"

definition on_flushed :: "(string \<Rightarrow> nat) \<Rightarrow> string \<Rightarrow> query_error option \<Rightarrow> transport \<Rightarrow> transport" where
  "on_flushed byteLength l err t =
     (case err of Some _ \<Rightarrow> t | None \<Rightarrow> t\<lparr>qs_sent := qs_sent t + byteLength l + 1\<rparr>)"

text \<open>\<^verbatim>\<open>close\<close> in its two halves: up to the wait for the server to end the session, and after it.\<close>

definition close_begin :: "transport \<Rightarrow> transport" where
  "close_begin t =
     (if qs_ended t then t else snd (send_line ''quit'' (t\<lparr>qs_closing := True, qs_listening := False\<rparr>)))"

definition close_finish :: "transport \<Rightarrow> transport" where
  "close_finish t = (if qs_ended t then t else handleClose (happen Stream_Ended t))"

section \<open>The reader cuts the stream at its newlines\<close>

definition pending :: "line_reader \<Rightarrow> bytes" where
  "pending lr = concat (lr_parts lr)"

definition reader_ok :: "line_reader \<Rightarrow> bool" where
  "reader_ok lr \<longleftrightarrow> lr_length lr = length (pending lr) \<and> 0x0A \<notin> set (pending lr) \<and>
     length (pending lr) \<le> lr_limit lr"

definition line_text :: "(bytes \<Rightarrow> string) \<Rightarrow> bytes \<Rightarrow> string" where
  "line_text decode piece = trimCarriageReturns (decode piece)"

lemma reader_ok_new: "reader_ok (new_reader n)" "pending (new_reader n) = []"
  by (simp_all add: reader_ok_def pending_def new_reader_def)

lemma reader_ok_clear: "reader_ok (clear_reader lr)" "pending (clear_reader lr) = []"
    "lr_limit (clear_reader lr) = lr_limit lr"
  by (simp_all add: reader_ok_def pending_def clear_reader_def)

lemma add_part_spec:
  assumes "reader_ok lr" "0x0A \<notin> set part"
  shows "length (pending lr @ part) \<le> lr_limit lr \<Longrightarrow>
      \<exists>lr'. add_part part lr = (Inr (), lr') \<and> reader_ok lr' \<and> pending lr' = pending lr @ part \<and>
        lr_limit lr' = lr_limit lr"
    and "lr_limit lr < length (pending lr @ part) \<Longrightarrow>
      \<exists>lr'. add_part part lr = (Inl (Line_Too_Long (lr_limit lr)), lr')"
  using assms by (auto simp: add_part_def reader_ok_def pending_def Let_def)

lemma whole_buffer: "reader_ok lr \<Longrightarrow> buffer_concat (lr_parts lr) (lr_length lr) = pending lr"
  by (simp add: buffer_concat_def reader_ok_def pending_def)

lemma split_at_newline:
  assumes "c \<in> set s" "c \<notin> set p"
  shows "split_on c (p @ s) =
    (p @ takeWhile (\<lambda>b. b \<noteq> c) s) # split_on c (drop (length (takeWhile (\<lambda>b. b \<noteq> c) s) + 1) s)"
proof -
  obtain a b where s: "s = a @ c # b" "c \<notin> set a" using split_list_first[OF assms(1)] by blast
  then have t: "takeWhile (\<lambda>b. b \<noteq> c) s = a" by (auto simp: takeWhile_tail)
  have "split_on c ((p @ a) @ c # b) = (p @ a) # split_on c b"
    using assms(2) s(2) by (intro split_on_append_sep) simp
  then show ?thesis using s(1) t by simp
qed

lemma push_from_lines:
  assumes "reader_ok lr" "\<forall>p\<in>set (split_on 0x0A (pending lr @ chunk)). length p \<le> lr_limit lr"
  shows "\<exists>lr'. push_from decode chunk ls lr =
      (Inr (ls @ map (line_text decode) (butlast (split_on 0x0A (pending lr @ chunk)))), lr') \<and>
    reader_ok lr' \<and> pending lr' = last (split_on 0x0A (pending lr @ chunk)) \<and> lr_limit lr' = lr_limit lr"
  using assms
proof (induction decode chunk ls lr rule: push_from.induct)
  case (1 decode chunk ls lr)
  have free: "0x0A \<notin> set (pending lr)" using "1.prems"(1) by (simp add: reader_ok_def)
  show ?case
  proof (cases "0x0A \<in> set chunk")
    case True
    define part where "part = takeWhile (\<lambda>b. b \<noteq> 0x0A) chunk"
    define rest where "rest = drop (length part + 1) chunk"
    have split: "split_on 0x0A (pending lr @ chunk) = (pending lr @ part) # split_on 0x0A rest"
      using split_at_newline[OF True free] by (simp add: part_def rest_def)
    have "0x0A \<notin> set part" by (auto simp: part_def dest: set_takeWhileD)
    then obtain l1 where l1: "add_part part lr = (Inr (), l1)" "reader_ok l1"
        "pending l1 = pending lr @ part" "lr_limit l1 = lr_limit lr"
      using add_part_spec(1)[OF "1.prems"(1)] "1.prems"(2) split by (metis list.set_intros(1))
    have prem: "\<forall>p\<in>set (split_on 0x0A (pending (clear_reader l1) @ rest)). length p \<le> lr_limit (clear_reader l1)"
      using "1.prems"(2) split l1(4) by (simp add: reader_ok_clear)
    from "1.IH"(1)[OF True part_def rest_def l1(1)[symmetric] refl reader_ok_clear(1) prem]
    show ?thesis using True l1(4) split
      by (subst push_from.simps)
        (auto simp: Let_def part_def[symmetric] rest_def[symmetric, simplified] l1(1) whole_buffer[OF l1(2)] l1(3)
          line_text_def[abs_def] reader_ok_clear)
  next
    case False
    then have split: "split_on 0x0A (pending lr @ chunk) = [pending lr @ chunk]"
      using free by (intro split_on_free) simp
    then obtain l1 where "add_part chunk lr = (Inr (), l1)" "reader_ok l1"
        "pending l1 = pending lr @ chunk" "lr_limit l1 = lr_limit lr"
      using add_part_spec(1)[OF "1.prems"(1) False] "1.prems"(2) by auto
    then show ?thesis using False split by (subst push_from.simps) simp
  qed
qed


lemma push_from_too_long:
  assumes "reader_ok lr" "\<exists>p\<in>set (split_on 0x0A (pending lr @ chunk)). lr_limit lr < length p"
  shows "\<exists>lr'. push_from decode chunk ls lr = (Inl (Line_Too_Long (lr_limit lr)), lr')"
  using assms
proof (induction decode chunk ls lr rule: push_from.induct)
  case (1 decode chunk ls lr)
  have free: "0x0A \<notin> set (pending lr)" using "1.prems"(1) by (simp add: reader_ok_def)
  show ?case
  proof (cases "0x0A \<in> set chunk")
    case True
    define part where "part = takeWhile (\<lambda>b. b \<noteq> 0x0A) chunk"
    define rest where "rest = drop (length part + 1) chunk"
    have split: "split_on 0x0A (pending lr @ chunk) = (pending lr @ part) # split_on 0x0A rest"
      using split_at_newline[OF True free] by (simp add: part_def rest_def)
    have np: "0x0A \<notin> set part" by (auto simp: part_def dest: set_takeWhileD)
    note parts = True part_def[symmetric] rest_def[symmetric, simplified] Let_def
    show ?thesis
    proof (cases "lr_limit lr < length (pending lr @ part)")
      case True
      then show ?thesis using add_part_spec(2)[OF "1.prems"(1) np]
        by (subst push_from.simps) (auto simp: parts)
    next
      case False
      then obtain l1 where l1: "add_part part lr = (Inr (), l1)" "reader_ok l1"
          "pending l1 = pending lr @ part" "lr_limit l1 = lr_limit lr"
        using add_part_spec(1)[OF "1.prems"(1) np] by fastforce
      have prem: "\<exists>p\<in>set (split_on 0x0A (pending (clear_reader l1) @ rest)). lr_limit (clear_reader l1) < length p"
        using "1.prems"(2) split l1(4) False by (auto simp: reader_ok_clear)
      from "1.IH"(1)[OF True part_def rest_def l1(1)[symmetric] refl reader_ok_clear(1) prem]
      show ?thesis using l1(4)
        by (subst push_from.simps) (auto simp: parts l1(1) reader_ok_clear)
    qed
  next
    case False
    then have split: "split_on 0x0A (pending lr @ chunk) = [pending lr @ chunk]"
      using free by (intro split_on_free) simp
    then show ?thesis using add_part_spec(2)[OF "1.prems"(1) False] "1.prems"(2) False
      by (subst push_from.simps) auto
  qed
qed

text \<open>Chunk after chunk: only the bytes matter, not where they were cut.\<close>

lemma split_on_append:
  "split_on c (a @ b) = butlast (split_on c a) @ split_on c (last (split_on c a) @ b)"
proof (induction a)
  case (Cons x a)
  show ?case
  proof (cases "x = c")
    case False
    then show ?thesis using Cons.IH
      by (cases "split_on c a"; cases "tl (split_on c a)") (auto split: list.splits)
  qed (use Cons.IH in simp)
qed simp

lemma split_on_free_append:
  "c \<notin> set a \<Longrightarrow> split_on c (a @ b) = (a @ hd (split_on c b)) # tl (split_on c b)"
  by (induction a) auto

section \<open>The lines a transport hands over\<close>

definition lines_of :: "stream_event list \<Rightarrow> string list" where
  "lines_of es = concat (map (\<lambda>e. case e of Line l \<Rightarrow> [l] | _ \<Rightarrow> []) es)"

lemma lines_of_simps [simp]:
  "lines_of [] = []" "lines_of (es @ fs) = lines_of es @ lines_of fs"
  "lines_of (Line l # es) = l # lines_of es" "lines_of (Wrote w # es) = lines_of es"
  "lines_of (Stream_Ended # es) = lines_of es" "lines_of (Stream_Destroyed # es) = lines_of es"
  "lines_of (Released # es) = lines_of es" "lines_of (Reported r # es) = lines_of es"
  by (simp_all add: lines_of_def)

lemma hand_lines:
  assumes "qs_listening t"
  shows "lines_of (qs_events (fold hand_line ls t)) = lines_of (qs_events t) @ drop (qs_banner t) ls \<and>
    qs_banner (fold hand_line ls t) = qs_banner t - length ls \<and> qs_listening (fold hand_line ls t) \<and>
    qs_reader (fold hand_line ls t) = qs_reader t \<and> qs_ended (fold hand_line ls t) = qs_ended t \<and>
    qs_received (fold hand_line ls t) = qs_received t"
  using assms
proof (induction ls arbitrary: t)
  case (Cons l ls)
  have "qs_listening (hand_line l t)" using Cons.prems by (simp add: hand_line_def happen_def)
  from Cons.IH[OF this] Cons.prems show ?case
    by (cases "qs_banner t") (auto simp: hand_line_def happen_def)
qed simp

definition feed :: "(bytes \<Rightarrow> string) \<Rightarrow> bytes list \<Rightarrow> transport \<Rightarrow> transport" where
  "feed decode chunks t = fold (handleData decode) chunks t"

lemma feed_lines:
  assumes "\<forall>p\<in>set (split_on 0x0A (concat chunks)). length p \<le> MAX_LINE_BYTES"
  shows "lines_of (qs_events (feed decode chunks (listen (new_transport d)))) =
      drop 2 (map (line_text decode) (butlast (split_on 0x0A (concat chunks)))) \<and>
    qs_received (feed decode chunks (listen (new_transport d))) = length (concat chunks)"
proof -
  define st where "st cs = feed decode cs (listen (new_transport d))" for cs
  have "lines_of (qs_events (st cs)) = drop 2 (map (line_text decode) (butlast (split_on 0x0A (concat cs)))) \<and>
      qs_banner (st cs) = 2 - (length (split_on 0x0A (concat cs)) - 1) \<and> qs_listening (st cs) \<and>
      \<not> qs_ended (st cs) \<and> reader_ok (qs_reader (st cs)) \<and> lr_limit (qs_reader (st cs)) = MAX_LINE_BYTES \<and>
      pending (qs_reader (st cs)) = last (split_on 0x0A (concat cs)) \<and> qs_received (st cs) = length (concat cs)"
    if "\<forall>p\<in>set (split_on 0x0A (concat cs)). length p \<le> MAX_LINE_BYTES" for cs
    using that
  proof (induction cs rule: rev_induct)
    case Nil
    show ?case by (simp add: st_def feed_def listen_def new_transport_def reader_ok_new)
      (simp add: new_reader_def)
  next
    case (snoc c cs)
    let ?a = "split_on 0x0A (concat cs)" and ?b = "split_on 0x0A (last (split_on 0x0A (concat cs)) @ c)"
    have split: "split_on 0x0A (concat (cs @ [c])) = butlast ?a @ ?b"
      using split_on_append[of "0x0A" "concat cs" c] by simp
    obtain p ps where c: "split_on 0x0A c = p # ps" by (cases "split_on 0x0A c") auto
    have b: "?b = (last ?a @ p) # ps"
      using split_on_free_append[of "0x0A" "last ?a" c] c split_on_no_sep[of "last ?a" "0x0A" "concat cs"] by simp
    have bound: "\<forall>q\<in>set ?b. length q \<le> MAX_LINE_BYTES" using snoc.prems split by auto
    have "\<forall>q\<in>set ?a. length q \<le> MAX_LINE_BYTES"
    proof
      fix q assume "q \<in> set ?a"
      then have "q \<in> set (butlast ?a) \<or> q = last ?a"
        by (metis append_butlast_last_id split_on_not_Nil in_set_conv_decomp rotate1.simps(2) set_ConsD set_rotate1)
      then show "length q \<le> MAX_LINE_BYTES"
        using bound b snoc.prems split by auto
    qed
    note IH = snoc.IH[OF this]
    have step: "st (cs @ [c]) = handleData decode c (st cs)" by (simp add: st_def feed_def)
    define t1 where "t1 = (st cs)\<lparr>qs_received := qs_received (st cs) + length c\<rparr>"
    obtain lr where lr: "push decode c (qs_reader t1) = (Inr (map (line_text decode) (butlast ?b)), lr)"
        "reader_ok lr" "pending lr = last ?b" "lr_limit lr = MAX_LINE_BYTES"
      using push_from_lines[of "qs_reader t1" c decode "[]"] IH bound by (auto simp: push_def t1_def)
    have "qs_listening (t1\<lparr>qs_reader := lr\<rparr>)" using IH by (simp add: t1_def)
    note hand = hand_lines[OF this, of "map (line_text decode) (butlast ?b)"]
    have len: "length (split_on 0x0A (concat (cs @ [c]))) - 1 = (length ?a - 1) + (length ?b - 1)"
      using split b by simp
    have lines: "map (line_text decode) (butlast (split_on 0x0A (concat (cs @ [c])))) =
        map (line_text decode) (butlast ?a) @ map (line_text decode) (butlast ?b)"
      using split b by (simp add: butlast_append)
    have "st (cs @ [c]) = fold hand_line (map (line_text decode) (butlast ?b)) (t1\<lparr>qs_reader := lr\<rparr>)"
      using IH lr(1) by (simp add: step handleData_def t1_def Let_def)
    moreover have "last (split_on 0x0A (concat (cs @ [c]))) = last ?b"
      using split b by simp
    ultimately show ?case
      using hand IH lr(2-4) len lines by (auto simp: t1_def)
  qed
  from this[OF assms] show ?thesis by (simp add: st_def)
qed

section \<open>Closing\<close>

definition reports :: "stream_event list \<Rightarrow> query_error option list" where
  "reports es = concat (map (\<lambda>e. case e of Reported r \<Rightarrow> [r] | _ \<Rightarrow> []) es)"

lemma reports_simps [simp]:
  "reports [] = []" "reports (es @ fs) = reports es @ reports fs"
  "reports (Line l # es) = reports es" "reports (Wrote w # es) = reports es"
  "reports (Stream_Ended # es) = reports es" "reports (Stream_Destroyed # es) = reports es"
  "reports (Released # es) = reports es" "reports (Reported r # es) = r # reports es"
  by (simp_all add: reports_def)

text \<open>Everything that can happen to a transport: its owner listens, writes and closes; the stream
  brings data, flushes, fails and closes. The second half of a close comes after its first.\<close>

inductive transport_step :: "(bytes \<Rightarrow> string) \<Rightarrow> (string \<Rightarrow> nat) \<Rightarrow> transport \<Rightarrow> transport \<Rightarrow> bool"
  for decode byteLength where
  listens: "\<not> qs_closing t \<Longrightarrow> transport_step decode byteLength t (listen t)"
| data: "transport_step decode byteLength t (handleData decode chunk t)"
| error: "transport_step decode byteLength t (on_stream_error e t)"
| close_event: "transport_step decode byteLength t (handleClose t)"
| send: "transport_step decode byteLength t (snd (send_line l t))"
| flushed: "transport_step decode byteLength t (on_flushed byteLength l err t)"
| close_begins: "transport_step decode byteLength t (close_begin t)"
| close_finishes: "qs_closing t \<Longrightarrow> transport_step decode byteLength t (close_finish t)"

definition transport_ok :: "transport \<Rightarrow> bool" where
  "transport_ok t \<longleftrightarrow> length (reports (qs_events t)) = (if qs_ended t then 1 else 0) \<and>
     (qs_closing t \<longrightarrow> \<not> qs_listening t)"

lemma transport_ok_new: "transport_ok (new_transport d)"
  by (simp add: transport_ok_def new_transport_def)

lemma fold_hand_line_frame:
  "qs_ended (fold hand_line ls t) = qs_ended t \<and> qs_closing (fold hand_line ls t) = qs_closing t \<and>
   qs_listening (fold hand_line ls t) = qs_listening t \<and> qs_error (fold hand_line ls t) = qs_error t \<and>
   reports (qs_events (fold hand_line ls t)) = reports (qs_events t) \<and>
   (\<not> qs_listening t \<longrightarrow> lines_of (qs_events (fold hand_line ls t)) = lines_of (qs_events t))"
  by (induction ls arbitrary: t) (auto simp: hand_line_def happen_def)

lemmas transport_defs = listen_def on_stream_error_def handleClose_def send_line_def on_flushed_def
  close_begin_def close_finish_def happen_def

lemma handleClose_report:
  "\<not> qs_ended t \<Longrightarrow> reports (qs_events (handleClose t)) =
     reports (qs_events t) @ [if qs_closing t then None else qs_error t]"
  by (simp add: handleClose_def happen_def)

lemma transport_ok_step: "transport_step decode byteLength t t' \<Longrightarrow> transport_ok t \<Longrightarrow> transport_ok t'"
proof (induction rule: transport_step.induct)
  case (data t chunk)
  show ?case
  proof (cases "push decode chunk (qs_reader t)")
    case (Pair r lr)
    then show ?thesis using data
      by (cases r) (auto simp: transport_ok_def handleData_def Let_def fold_hand_line_frame
          handleClose_def happen_def)
  qed
qed (auto simp: transport_ok_def transport_defs Let_def split: option.splits)

lemma transport_runs:
  assumes "(transport_step decode byteLength)\<^sup>*\<^sup>* (new_transport d) t"
  shows "transport_ok t"
  using assms by induction (auto simp: transport_ok_new intro: transport_ok_step)

text \<open>After its end a transport hands over nothing, writes nothing and reports nothing.\<close>

lemma ended_step:
  "transport_step decode byteLength t t' \<Longrightarrow> qs_ended t \<Longrightarrow> qs_ended t' \<and> qs_events t' = qs_events t"
  by (induction rule: transport_step.induct)
    (auto simp: handleData_def transport_defs split: option.splits)

lemma ended_runs:
  assumes "(transport_step decode byteLength)\<^sup>*\<^sup>* t t'" "qs_ended t"
  shows "qs_ended t' \<and> qs_events t' = qs_events t"
  using assms by induction (auto dest: ended_step)

text \<open>A transport that is closing hands over no line, whatever the server still says.\<close>

lemma closing_step:
  "transport_step decode byteLength t t' \<Longrightarrow> qs_closing t \<Longrightarrow> \<not> qs_listening t \<Longrightarrow>
     qs_closing t' \<and> \<not> qs_listening t' \<and> lines_of (qs_events t') = lines_of (qs_events t)"
proof (induction rule: transport_step.induct)
  case (data t chunk)
  show ?case
  proof (cases "push decode chunk (qs_reader t)")
    case (Pair r lr)
    then show ?thesis using data
      by (cases r) (auto simp: handleData_def Let_def fold_hand_line_frame handleClose_def happen_def)
  qed
qed (auto simp: transport_defs Let_def split: option.splits)

lemma closing_runs:
  assumes "(transport_step decode byteLength)\<^sup>*\<^sup>* t t'" "qs_closing t" "\<not> qs_listening t"
  shows "qs_closing t' \<and> \<not> qs_listening t' \<and> lines_of (qs_events t') = lines_of (qs_events t)"
  using assms by induction (auto dest: closing_step)

text \<open>A line over the limit ends the connection, with that as the reason unless it is closing.\<close>

lemma too_long_ends:
  assumes "\<not> qs_ended t" "reader_ok (qs_reader t)"
    "\<exists>p\<in>set (split_on 0x0A (pending (qs_reader t) @ chunk)). lr_limit (qs_reader t) < length p"
  shows "qs_ended (handleData decode chunk t) \<and>
    lines_of (qs_events (handleData decode chunk t)) = lines_of (qs_events t) \<and>
    reports (qs_events (handleData decode chunk t)) = reports (qs_events t) @
      [if qs_closing t then None else Some (Line_Too_Long (lr_limit (qs_reader t)))]"
  using assms(1) push_from_too_long[OF assms(2,3), of decode "[]"]
  by (auto simp: handleData_def push_def Let_def handleClose_def happen_def)

end
