(* ===== verification/Reconnect_Policy.thy ===== *)
theory Reconnect_Policy
  imports Prelude Complex_Main
begin

text \<open>
  \<^verbatim>\<open>src/core/reconnect.ts\<close>: the backoff policy, its checks and the delay before an attempt; and the
  two default rules for which failures are worth another attempt, \<^verbatim>\<open>src/client/reconnect.ts\<close> for the
  voice client and \<^verbatim>\<open>src/query/reconnect.ts\<close> for ServerQuery.

  Milliseconds and factors are reals, so the rounding of double arithmetic is not in the model;
  \<^verbatim>\<open>Math.round\<close> is: the nearest integer, halves up. A setting the caller gives is a finite number or
  any other value (a NaN, an infinity, a text), which the checks treat alike.
\<close>

section \<open>The policy\<close>

datatype setting = Number real | Other_Value

record policy =
  initialDelayMs :: real
  maxDelayMs :: real
  factor :: real
  jitter :: real
  maxAttempts :: nat

datatype backoff_error = Refused_Setting string | Ceiling_Below_Start

definition defaultBackoffPolicy :: "string \<Rightarrow> setting option" where
  "defaultBackoffPolicy = [''initialDelayMs'' \<mapsto> Number 1000, ''maxDelayMs'' \<mapsto> Number 60000,
     ''factor'' \<mapsto> Number 2, ''jitter'' \<mapsto> Number (1 / 5), ''maxAttempts'' \<mapsto> Number 0]"

definition requireNumber :: "string \<Rightarrow> setting option \<Rightarrow> (real \<Rightarrow> bool) \<Rightarrow> backoff_error + real" where
  "requireNumber name value ok =
     (case value of
        Some (Number v) \<Rightarrow> if ok v then Inr v else Inl (Refused_Setting name)
      | _ \<Rightarrow> Inl (Refused_Setting name))"

text \<open>The fields the caller gave, in their order, an explicit \<^verbatim>\<open>undefined\<close> being \<open>None\<close>.\<close>

type_synonym backoff_options = "(string \<times> setting option) list"

definition given :: "backoff_options \<Rightarrow> (string \<times> setting) list" where
  "given opts = concat (map (\<lambda>(k, v). case v of Some s \<Rightarrow> [(k, s)] | None \<Rightarrow> []) opts)"

definition settings :: "backoff_options \<Rightarrow> string \<Rightarrow> setting option" where
  "settings opts = fold (\<lambda>(k, s) p. p(k \<mapsto> s)) (given opts) defaultBackoffPolicy"

definition resolveBackoffPolicy :: "backoff_options \<Rightarrow> backoff_error + policy" where
  "resolveBackoffPolicy opts =
     (let s = settings opts
      in bind_result (requireNumber ''initialDelayMs'' (s ''initialDelayMs'') (\<lambda>v. 0 < v)) (\<lambda>first.
         bind_result (requireNumber ''maxDelayMs'' (s ''maxDelayMs'') (\<lambda>v. 0 < v)) (\<lambda>ceiling.
         bind_result (requireNumber ''factor'' (s ''factor'') (\<lambda>v. 1 \<le> v)) (\<lambda>fac.
         bind_result (requireNumber ''jitter'' (s ''jitter'') (\<lambda>v. v \<le> 1)) (\<lambda>jit.
         bind_result (requireNumber ''maxAttempts'' (s ''maxAttempts'')
             (\<lambda>v. of_int \<lfloor>v\<rfloor> = v \<and> 0 \<le> v)) (\<lambda>atts.
           let p = \<lparr>initialDelayMs = first, maxDelayMs = ceiling, factor = fac, jitter = jit,
                    maxAttempts = nat \<lfloor>atts\<rfloor>\<rparr>
           in if ceiling < first
              then (if \<exists>q\<in>set (given opts). fst q = ''maxDelayMs'' then Inl Ceiling_Below_Start
                    else Inr (p\<lparr>maxDelayMs := first\<rparr>))
              else Inr p))))))"

section \<open>The delay\<close>

definition round_half_up :: "real \<Rightarrow> int" where
  "round_half_up x = \<lfloor>x + 1 / 2\<rfloor>"

text \<open>\<open>random\<close> is one draw of the generator, from 0 up to but not including 1.\<close>

definition capped_delay :: "policy \<Rightarrow> nat \<Rightarrow> real" where
  "capped_delay p attempt = min (initialDelayMs p * factor p ^ (attempt - 1)) (maxDelayMs p)"

definition jitteredDelay :: "policy \<Rightarrow> nat \<Rightarrow> real \<Rightarrow> int" where
  "jitteredDelay p attempt random =
     (let capped = capped_delay p attempt
      in if jitter p \<le> 0 then round_half_up capped
         else (let spread = capped * min (jitter p) 1;
                   delay = capped + (random * 2 - 1) * spread
               in round_half_up (max 0 (min delay (maxDelayMs p)))))"

section \<open>Which failures are worth another attempt\<close>

text \<open>The error codes of \<^verbatim>\<open>src/core/errorcode.ts\<close> and the two reasons of \<^verbatim>\<open>src/core/reason.ts\<close> the
  rules name.\<close>

definition ConnectFailedBanned :: nat where "ConnectFailedBanned = 0x0d01"
definition BanFlooding :: nat where "BanFlooding = 0x0d03"
definition ServerInvalidPassword :: nat where "ServerInvalidPassword = 0x0404"
definition ChannelInvalidPassword :: nat where "ChannelInvalidPassword = 0x030d"
definition PermissionsClientInsufficient :: nat where "PermissionsClientInsufficient = 0x0a08"
definition ClientInvalidPassword :: nat where "ClientInvalidPassword = 0x0208"
definition ClientNotLoggedIn :: nat where "ClientNotLoggedIn = 0x0206"
definition ClientLoginNotPermitted :: nat where "ClientLoginNotPermitted = 0x020f"
definition ServerInvalidID :: nat where "ServerInvalidID = 0x0400"
definition ServerIsNotRunning :: nat where "ServerIsNotRunning = 0x0409"
definition ClientIsFlooding :: nat where "ClientIsFlooding = 0x020c"
definition KickServer :: nat where "KickServer = 5"
definition KickServerBan :: nat where "KickServerBan = 6"

datatype voice_failure = Already_Connected | Invalid_Address | Removed nat | Refused_By_Server nat
  | Other_Failure

definition VOICE_PERMANENT :: "nat list" where
  "VOICE_PERMANENT = [ConnectFailedBanned, BanFlooding, ServerInvalidPassword,
     ChannelInvalidPassword, PermissionsClientInsufficient]"

fun voiceShouldRetry :: "voice_failure option \<Rightarrow> bool" where
  "voiceShouldRetry (Some Already_Connected) = False"
| "voiceShouldRetry (Some Invalid_Address) = False"
| "voiceShouldRetry (Some (Removed reason)) = (reason \<noteq> KickServer \<and> reason \<noteq> KickServerBan)"
| "voiceShouldRetry (Some (Refused_By_Server code)) = (code \<notin> set VOICE_PERMANENT)"
| "voiceShouldRetry _ = True"

datatype query_kind = Q_Already_Connected | Q_Auth | Q_Host_Key | Q_Missing_Dependency
  | Q_Server nat | Q_Other

text \<open>An error object of the query client: which object it is, and its kind.\<close>

record query_failure =
  qf_object :: nat
  qf_kind :: query_kind

definition QUERY_PERMANENT :: "nat list" where
  "QUERY_PERMANENT = [ClientInvalidPassword, ClientNotLoggedIn, ClientLoginNotPermitted,
     ServerInvalidID, ServerIsNotRunning, ConnectFailedBanned, BanFlooding,
     PermissionsClientInsufficient]"

definition CONNECT_COMMANDS :: "string list" where
  "CONNECT_COMMANDS = [''login'', ''use'']"

definition TRANSIENT_SERVER_ERRORS :: "nat list" where
  "TRANSIENT_SERVER_ERRORS = [ClientIsFlooding]"

definition isPermanentCommandError :: "string \<Rightarrow> query_failure \<Rightarrow> bool" where
  "isPermanentCommandError command e =
     (if command \<notin> set CONNECT_COMMANDS then False
      else case qf_kind e of
             Q_Auth \<Rightarrow> True
           | Q_Server code \<Rightarrow> code \<notin> set TRANSIENT_SERVER_ERRORS
           | _ \<Rightarrow> False)"

text \<open>The marked objects: \<^verbatim>\<open>connectRefusals\<close>.\<close>

definition noteConnectFailure :: "string \<Rightarrow> query_failure \<Rightarrow> nat list \<Rightarrow> nat list" where
  "noteConnectFailure command e refusals =
     (if isPermanentCommandError command e then List.insert (qf_object e) refusals else refusals)"

definition queryShouldRetry :: "nat list \<Rightarrow> query_failure option \<Rightarrow> bool" where
  "queryShouldRetry refusals e =
     (case e of
        None \<Rightarrow> True
      | Some f \<Rightarrow>
          if qf_object f \<in> set refusals then False
          else (case qf_kind f of
                  Q_Already_Connected \<Rightarrow> False
                | Q_Auth \<Rightarrow> False
                | Q_Host_Key \<Rightarrow> False
                | Q_Missing_Dependency \<Rightarrow> False
                | Q_Server code \<Rightarrow> code \<notin> set QUERY_PERMANENT
                | Q_Other \<Rightarrow> True))"

section \<open>A resolved policy works\<close>

definition policy_ok :: "policy \<Rightarrow> bool" where
  "policy_ok p \<longleftrightarrow> 0 < initialDelayMs p \<and> initialDelayMs p \<le> maxDelayMs p \<and> 1 \<le> factor p \<and> jitter p \<le> 1"

lemma requireNumber_Inr:
  "requireNumber name value ok = Inr v \<longleftrightarrow> value = Some (Number v) \<and> ok v"
  by (auto simp: requireNumber_def split: option.splits setting.splits)

lemma resolved_policy:
  assumes "resolveBackoffPolicy opts = Inr p"
  shows "policy_ok p \<and> settings opts ''initialDelayMs'' = Some (Number (initialDelayMs p)) \<and>
    settings opts ''factor'' = Some (Number (factor p)) \<and> settings opts ''jitter'' = Some (Number (jitter p)) \<and>
    settings opts ''maxAttempts'' = Some (Number (real (maxAttempts p))) \<and>
    (settings opts ''maxDelayMs'' = Some (Number (maxDelayMs p)) \<or>
     ''maxDelayMs'' \<notin> fst ` set (given opts) \<and> maxDelayMs p = initialDelayMs p)"
  using assms
  by (auto simp: resolveBackoffPolicy_def Let_def bind_result_Inr_iff requireNumber_Inr policy_ok_def
      image_iff of_nat_nat split: if_splits) (force+)?

lemma round_half_up_mono: "x \<le> y \<Longrightarrow> round_half_up x \<le> round_half_up y"
  by (simp add: round_half_up_def floor_mono)

lemma round_half_up_near: "of_int (round_half_up x) - 1 / 2 \<le> x \<and> x < of_int (round_half_up x) + 1 / 2"
proof -
  have "of_int \<lfloor>x + 1 / 2\<rfloor> \<le> x + 1 / 2" "x + 1 / 2 < of_int \<lfloor>x + 1 / 2\<rfloor> + 1" by linarith+
  then show ?thesis unfolding round_half_up_def by linarith
qed

lemma round_half_up_int [simp]: "round_half_up (of_int n) = n"
  by (simp add: round_half_up_def floor_eq_iff)

lemma capped_delay_bounds:
  assumes "policy_ok p"
  shows "initialDelayMs p \<le> capped_delay p n" "capped_delay p n \<le> maxDelayMs p" "0 < capped_delay p n"
proof -
  have "1 \<le> factor p ^ (n - 1)" using assms by (simp add: policy_ok_def)
  then have "initialDelayMs p * 1 \<le> initialDelayMs p * factor p ^ (n - 1)"
    using assms by (intro mult_left_mono) (simp_all add: policy_ok_def)
  then show 1: "initialDelayMs p \<le> capped_delay p n"
    using assms by (simp add: capped_delay_def policy_ok_def)
  show "capped_delay p n \<le> maxDelayMs p" by (simp add: capped_delay_def)
  show "0 < capped_delay p n" using 1 assms by (simp add: policy_ok_def)
qed

lemma capped_delay_mono:
  assumes "policy_ok p" "m \<le> n"
  shows "capped_delay p m \<le> capped_delay p n"
proof -
  have "factor p ^ (m - 1) \<le> factor p ^ (n - 1)"
    using assms by (intro power_increasing) (auto simp: policy_ok_def)
  then have "initialDelayMs p * factor p ^ (m - 1) \<le> initialDelayMs p * factor p ^ (n - 1)"
    using assms by (intro mult_left_mono) (auto simp: policy_ok_def)
  then show ?thesis by (simp add: capped_delay_def)
qed

lemma jitteredDelay_bounds:
  assumes "policy_ok p" "0 \<le> r" "r < 1"
  shows "0 \<le> jitteredDelay p n r" "jitteredDelay p n r \<le> round_half_up (maxDelayMs p)"
    and "round_half_up (capped_delay p n * (1 - max 0 (jitter p))) \<le> jitteredDelay p n r"
    and "jitteredDelay p n r \<le> round_half_up (capped_delay p n * (1 + max 0 (jitter p)))"
proof -
  note c = capped_delay_bounds[OF assms(1), of n]
  define s where "s = capped_delay p n * min (jitter p) 1"
  define d where "d = capped_delay p n + (r * 2 - 1) * s"
  have j: "jitter p \<le> 1" using assms(1) by (simp add: policy_ok_def)
  have pos: "0 \<le> maxDelayMs p" using c by simp
  have d: "capped_delay p n * (1 - jitter p) \<le> d \<and> d \<le> capped_delay p n * (1 + jitter p)" if "0 < jitter p"
  proof -
    have s: "s = capped_delay p n * jitter p" "0 \<le> s" using j that c(3) by (simp_all add: s_def)
    have "(- 1) * s \<le> (r * 2 - 1) * s" "(r * 2 - 1) * s \<le> 1 * s"
      using assms(2,3) s(2) by (intro mult_right_mono; simp)+
    then show ?thesis by (simp add: d_def s(1) algebra_simps)
  qed
  have eq: "jitteredDelay p n r = round_half_up (if jitter p \<le> 0 then capped_delay p n else max 0 (min d (maxDelayMs p)))"
    by (simp add: jitteredDelay_def Let_def d_def s_def)
  have low: "0 \<le> capped_delay p n * (1 - max 0 (jitter p))"
    using c(3) j by (intro mult_nonneg_nonneg) auto
  have "0 \<le> round_half_up x" if "0 \<le> x" for x using round_half_up_mono[OF that] round_half_up_int[of 0] by simp
  then show "0 \<le> jitteredDelay p n r" unfolding eq using c(3) by simp
  show "jitteredDelay p n r \<le> round_half_up (maxDelayMs p)"
    unfolding eq using c pos by (intro round_half_up_mono) auto
  have "capped_delay p n * (1 - max 0 (jitter p)) \<le> maxDelayMs p"
    by (rule order_trans[OF mult_left_mono[of "1 - max 0 (jitter p)" 1 "capped_delay p n"]]) (use c j in auto)
  then show "round_half_up (capped_delay p n * (1 - max 0 (jitter p))) \<le> jitteredDelay p n r"
    unfolding eq using d low by (intro round_half_up_mono) auto
  show "jitteredDelay p n r \<le> round_half_up (capped_delay p n * (1 + max 0 (jitter p)))"
    unfolding eq using d c(3) by (intro round_half_up_mono) (auto intro: order_trans[OF _ mult_nonneg_nonneg])
qed

text \<open>A ceiling that is a whole number of milliseconds is never passed.\<close>

lemma jitteredDelay_ceiling:
  assumes "policy_ok p" "0 \<le> r" "r < 1" "maxDelayMs p = of_int m"
  shows "jitteredDelay p n r \<le> m"
  using jitteredDelay_bounds(2)[OF assms(1-3), of n] assms(4) by simp

end
