(* ===== verification/Reconnect_Loop.thy ===== *)
theory Reconnect_Loop
  imports Reconnect_Policy
begin

text \<open>
  The voice client's reconnect loop, \<^verbatim>\<open>#willReconnect\<close>, \<^verbatim>\<open>#scheduleReconnect\<close>,
  \<^verbatim>\<open>#handleConnectionClosed\<close>, \<^verbatim>\<open>#failConnection\<close>, and what \<^verbatim>\<open>#connect\<close> and \<^verbatim>\<open>disconnect\<close> of
  \<^verbatim>\<open>src/client/client.ts\<close> do to the fields it reads. The loop is an async function: it runs between
  its awaits, so it is cut there, at the wait before an attempt, at the attempt's own wait for an
  earlier goodbye, and at the attempt; the phase says which await it is at. Anything else the client
  does can happen in between.

  Errors are of the type \<open>'e\<close>, equality being the identity of the error object. The caller's
  \<open>shouldRetry\<close> may answer differently each time it is asked, so it takes the number of the call;
  \<open>None\<close> is a call that threw.
\<close>

section \<open>The state\<close>

datatype client_status = Disconnected | Connecting | Connected

record 'e retry_answer =
  ra_err :: 'e
  ra_attempt :: nat
  ra_retry :: bool
  ra_threw :: bool

record 'e reconnect_config =
  cf_policy :: policy
  cf_shouldRetry :: "nat \<Rightarrow> 'e \<Rightarrow> nat \<Rightarrow> bool option"

text \<open>Where the loop is: not running; waiting out the delay before an attempt; in the attempt, which
  still waits for an earlier goodbye (with the count of disconnects it saw); or in the attempt, whose
  outcome may be there already.\<close>

datatype 'e loop_phase = No_Loop | Waiting nat | Starting nat nat | Attempting nat "('e + unit) option"

datatype 'e loop_event = Announced "'e option" bool | Asked 'e nat | Scheduled nat int
  | Attempt_Made nat | Loop_Stopped nat "'e option"

record 'e client =
  cl_status :: client_status
  cl_stopped :: bool
  cl_disconnects :: nat
  cl_leaving :: bool
  cl_reconnecting :: bool
  cl_loopAttempt :: nat
  cl_retryAnswer :: "'e retry_answer option"
  cl_lastDrop :: "'e option"
  cl_asks :: nat
  cl_made :: nat
  cl_phase :: "'e loop_phase"
  cl_events :: "'e loop_event list"

definition new_client :: "'e client" where
  "new_client = \<lparr>cl_status = Disconnected, cl_stopped = False, cl_disconnects = 0, cl_leaving = False,
     cl_reconnecting = False, cl_loopAttempt = 0, cl_retryAnswer = None, cl_lastDrop = None,
     cl_asks = 0, cl_made = 0, cl_phase = No_Loop, cl_events = []\<rparr>"

definition tell :: "'e loop_event \<Rightarrow> 'e client \<Rightarrow> 'e client" where
  "tell e c = c\<lparr>cl_events := cl_events c @ [e]\<rparr>"

section \<open>The loop\<close>

definition willReconnect :: "'e reconnect_config option \<Rightarrow> 'e \<Rightarrow> nat \<Rightarrow> 'e client \<Rightarrow> bool \<times> 'e client" where
  "willReconnect options err attempt c =
     (case options of
        None \<Rightarrow> (False, c)
      | Some cf \<Rightarrow>
          if cl_stopped c then (False, c)
          else if maxAttempts (cf_policy cf) \<noteq> 0 \<and> maxAttempts (cf_policy cf) < attempt then (False, c)
          else if (case cl_retryAnswer c of Some a \<Rightarrow> ra_err a = err \<and> ra_attempt a = attempt | None \<Rightarrow> False)
          then (ra_retry (the (cl_retryAnswer c)), c)
          else (let answer = cf_shouldRetry cf (cl_asks c) err attempt;
                    retry = (answer = Some True)
                in (retry, tell (Asked err attempt)
                      (c\<lparr>cl_asks := cl_asks c + 1,
                         cl_retryAnswer := Some \<lparr>ra_err = err, ra_attempt = attempt, ra_retry = retry,
                           ra_threw = (answer = None)\<rparr>\<rparr>))))"

text \<open>The loop's \<^verbatim>\<open>finally\<close>: why it stopped, when it says so, and the fields reset.\<close>

definition loop_ends :: "'e option option \<Rightarrow> 'e client \<Rightarrow> 'e client" where
  "loop_ends stoppedBy c =
     (let c' = (case stoppedBy of Some cause \<Rightarrow> tell (Loop_Stopped (cl_made c) cause) c | None \<Rightarrow> c)
      in c'\<lparr>cl_reconnecting := False, cl_loopAttempt := 0, cl_phase := No_Loop\<rparr>)"

text \<open>The head of the loop, up to the wait: \<open>random\<close> is the draw for the delay.\<close>

definition loop_head :: "'e reconnect_config \<Rightarrow> real \<Rightarrow> nat \<Rightarrow> 'e \<Rightarrow> 'e client \<Rightarrow> 'e client" where
  "loop_head cf random attempt err c =
     (if maxAttempts (cf_policy cf) \<noteq> 0 \<and> maxAttempts (cf_policy cf) < attempt
      then loop_ends (Some (Some err)) c
      else if cl_stopped c then loop_ends (Some None) c
      else case willReconnect (Some cf) err attempt c of
             (False, c') \<Rightarrow> loop_ends (Some (Some err)) c'
           | (True, c') \<Rightarrow>
               tell (Scheduled attempt (jitteredDelay (cf_policy cf) attempt random))
                 (c'\<lparr>cl_phase := Waiting attempt\<rparr>))"

definition scheduleReconnect :: "'e reconnect_config option \<Rightarrow> real \<Rightarrow> 'e \<Rightarrow> 'e client \<Rightarrow> 'e client" where
  "scheduleReconnect options random err c =
     (case options of
        None \<Rightarrow> c
      | Some cf \<Rightarrow>
          if cl_stopped c \<or> cl_reconnecting c then c
          else loop_head cf random 1 err (c\<lparr>cl_reconnecting := True, cl_made := 0\<rparr>))"

text \<open>The wait is over, or was cut short.\<close>

definition wait_ends :: "'e client \<Rightarrow> 'e client" where
  "wait_ends c =
     (case cl_phase c of
        Waiting attempt \<Rightarrow>
          if cl_stopped c then loop_ends (Some None) c
          else if cl_status c \<noteq> Disconnected then loop_ends None c
          else tell (Attempt_Made attempt)
                 (c\<lparr>cl_made := cl_made c + 1, cl_loopAttempt := attempt,
                    cl_phase := Starting attempt (cl_disconnects c)\<rparr>)
      | _ \<Rightarrow> c)"

text \<open>\<^verbatim>\<open>#connect\<close> past its wait for an earlier session's end. The error \<open>e\<close> is the one it throws when a
  \<^verbatim>\<open>disconnect()\<close> was called meanwhile; \<open>bad_address\<close> the one for an address that cannot be one.\<close>

definition begin_attempt :: "'e client \<Rightarrow> 'e client" where
  "begin_attempt c = c\<lparr>cl_stopped := False, cl_status := Connecting\<rparr>"

definition attempt_starts :: "'e option \<Rightarrow> 'e \<Rightarrow> 'e client \<Rightarrow> 'e client" where
  "attempt_starts bad_address e c =
     (case cl_phase c of
        Starting attempt seen \<Rightarrow>
          if cl_leaving c then c
          else if cl_disconnects c \<noteq> seen then c\<lparr>cl_phase := Attempting attempt (Some (Inl e))\<rparr>
          else if cl_status c \<noteq> Disconnected then loop_ends None c
          else (case bad_address of
                  Some b \<Rightarrow> c\<lparr>cl_phase := Attempting attempt (Some (Inl b))\<rparr>
                | None \<Rightarrow> begin_attempt (c\<lparr>cl_phase := Attempting attempt None\<rparr>))
      | _ \<Rightarrow> c)"

text \<open>The attempt's signal fires while it still waits for an earlier goodbye.\<close>

definition start_abandoned :: "'e \<Rightarrow> 'e client \<Rightarrow> 'e client" where
  "start_abandoned e c =
     (case cl_phase c of Starting a _ \<Rightarrow> c\<lparr>cl_phase := Attempting a (Some (Inl e))\<rparr> | _ \<Rightarrow> c)"

text \<open>The attempt in flight settles: it is the loop's when the loop waits for one.\<close>

definition settle_attempt :: "'e + unit \<Rightarrow> 'e client \<Rightarrow> 'e client" where
  "settle_attempt r c =
     (case cl_phase c of Attempting a None \<Rightarrow> c\<lparr>cl_phase := Attempting a (Some r)\<rparr> | _ \<Rightarrow> c)"

text \<open>The loop resumes after its attempt; \<open>dropped\<close> stands for the error it makes up when the new
  session dropped and no drop was recorded.\<close>

definition loop_resumes :: "'e reconnect_config \<Rightarrow> real \<Rightarrow> 'e \<Rightarrow> 'e client \<Rightarrow> 'e client" where
  "loop_resumes cf random dropped c =
     (case cl_phase c of
        Attempting attempt (Some (Inr _)) \<Rightarrow>
          if cl_status c = Connected then loop_ends None c
          else loop_head cf random (attempt + 1)
                 (case cl_lastDrop c of Some e \<Rightarrow> e | None \<Rightarrow> dropped) c
      | Attempting attempt (Some (Inl e)) \<Rightarrow> loop_head cf random (attempt + 1) e c
      | _ \<Rightarrow> c)"

section \<open>The rest of the client\<close>

definition failConnection :: "'e reconnect_config option \<Rightarrow> 'e \<Rightarrow> 'e client \<Rightarrow> 'e client" where
  "failConnection options cause c =
     (if cl_status c = Connected then c
      else (let c1 = (if cl_status c = Connecting then settle_attempt (Inl cause) c else c)
            in if cl_status c1 = Disconnected then c1
               else (let c2 = c1\<lparr>cl_status := Disconnected\<rparr>
                     in if cl_reconnecting c2
                        then (let (will, c3) = willReconnect options cause (cl_loopAttempt c2 + 1) c2
                              in tell (Announced (Some cause) will) c3)
                        else tell (Announced (Some cause) False) c2)))"

definition handleConnectionClosed :: "'e reconnect_config option \<Rightarrow> real \<Rightarrow> 'e \<Rightarrow> 'e client \<Rightarrow> 'e client" where
  "handleConnectionClosed options random cause c =
     (if cl_status c = Disconnected then c
      else if cl_status c \<noteq> Connected then failConnection options cause c
      else (let c1 = c\<lparr>cl_status := Disconnected, cl_lastDrop := Some cause\<rparr>;
                (will, c2) = willReconnect options cause (cl_loopAttempt c1 + 1) c1
            in scheduleReconnect options random cause (tell (Announced (Some cause) will) c2)))"

definition markConnected :: "'e client \<Rightarrow> 'e client" where
  "markConnected c =
     (if cl_status c \<noteq> Connecting then c else settle_attempt (Inr ()) (c\<lparr>cl_status := Connected\<rparr>))"

text \<open>A \<^verbatim>\<open>connect()\<close> of the caller's own, once past its waits.\<close>

definition connect_by_hand :: "'e client \<Rightarrow> 'e client" where
  "connect_by_hand c =
     (if cl_leaving c \<or> cl_status c \<noteq> Disconnected then c else begin_attempt c)"

text \<open>\<^verbatim>\<open>disconnect()\<close>: what it does at once, and what follows the goodbye. The attempt it ends is
  rejected only then, with \<open>e\<close>.\<close>

definition disconnect_begins :: "'e client \<Rightarrow> 'e client" where
  "disconnect_begins c =
     (let c1 = c\<lparr>cl_stopped := True, cl_disconnects := cl_disconnects c + 1\<rparr>
      in if cl_leaving c1 \<or> cl_status c1 = Disconnected then c1
         else c1\<lparr>cl_status := Disconnected, cl_leaving := True\<rparr>)"

definition disconnect_ends :: "'e \<Rightarrow> 'e client \<Rightarrow> 'e client" where
  "disconnect_ends e c =
     (if cl_leaving c then settle_attempt (Inl e) (tell (Announced None False) (c\<lparr>cl_leaving := False\<rparr>)) else c)"

section \<open>Runs\<close>

text \<open>What happens to a client by itself, and what its caller's own \<^verbatim>\<open>connect()\<close> adds.\<close>

inductive own_step :: "'e reconnect_config option \<Rightarrow> 'e client \<Rightarrow> 'e client \<Rightarrow> bool" for options where
  wait_ends: "own_step options c (wait_ends c)"
| attempt_starts: "own_step options c (attempt_starts b e c)"
| start_abandoned: "own_step options c (start_abandoned e c)"
| resumes: "options = Some cf \<Longrightarrow> own_step options c (loop_resumes cf random dropped c)"
| fails: "own_step options c (failConnection options e c)"
| closed: "own_step options c (handleConnectionClosed options random e c)"
| connected: "own_step options c (markConnected c)"
| disconnect: "own_step options c (disconnect_begins c)"
| disconnected: "own_step options c (disconnect_ends e c)"

inductive client_step :: "'e reconnect_config option \<Rightarrow> 'e client \<Rightarrow> 'e client \<Rightarrow> bool" for options where
  own: "own_step options c c' \<Longrightarrow> client_step options c c'"
| by_hand: "client_step options c (connect_by_hand c)"

lemmas loop_defs = wait_ends_def attempt_starts_def start_abandoned_def loop_resumes_def loop_head_def
  loop_ends_def failConnection_def handleConnectionClosed_def scheduleReconnect_def markConnected_def
  disconnect_begins_def disconnect_ends_def connect_by_hand_def begin_attempt_def settle_attempt_def
  tell_def

text \<open>What asking keeps.\<close>

lemma willReconnect_frame:
  assumes "willReconnect options e n c = (r, c')"
  shows "cl_phase c' = cl_phase c \<and> cl_status c' = cl_status c \<and> cl_stopped c' = cl_stopped c \<and>
    cl_reconnecting c' = cl_reconnecting c \<and> cl_loopAttempt c' = cl_loopAttempt c \<and>
    cl_disconnects c' = cl_disconnects c \<and> cl_leaving c' = cl_leaving c \<and> cl_made c' = cl_made c \<and>
    cl_lastDrop c' = cl_lastDrop c \<and>
    (cl_events c' = cl_events c \<or> cl_events c' = cl_events c @ [Asked e n])"
  using assms by (auto simp: willReconnect_def tell_def Let_def split: option.splits if_splits)

lemma willReconnect_stopped: "cl_stopped c \<Longrightarrow> willReconnect options e n c = (False, c)"
  by (simp add: willReconnect_def split: option.splits)

text \<open>One failure asks once: the same question again gets the same answer and asks nobody.\<close>

lemma willReconnect_again:
  assumes "willReconnect options e n c = (r, c')"
  shows "willReconnect options e n c' = (r, c')"
proof (cases "c' = c")
  case True
  then show ?thesis using assms by simp
next
  case False
  then obtain cf where cf: "options = Some cf" "\<not> cl_stopped c"
      "\<not> (maxAttempts (cf_policy cf) \<noteq> 0 \<and> maxAttempts (cf_policy cf) < n)"
    using assms by (auto simp: willReconnect_def split: option.splits if_splits)
  with assms False have "c' = tell (Asked e n) (c\<lparr>cl_asks := cl_asks c + 1,
      cl_retryAnswer := Some \<lparr>ra_err = e, ra_attempt = n, ra_retry = r,
        ra_threw = (cf_shouldRetry cf (cl_asks c) e n = None)\<rparr>\<rparr>)"
    by (auto simp: willReconnect_def Let_def split: if_splits)
  with cf show ?thesis by (auto simp: willReconnect_def tell_def)
qed

section \<open>One loop, within its attempts\<close>

definition in_range :: "'e reconnect_config option \<Rightarrow> nat \<Rightarrow> bool" where
  "in_range options a \<longleftrightarrow> 0 < a \<and>
     (\<exists>cf. options = Some cf \<and> (maxAttempts (cf_policy cf) = 0 \<or> a \<le> maxAttempts (cf_policy cf)))"

fun loop_ok :: "'e reconnect_config option \<Rightarrow> 'e loop_phase \<Rightarrow> bool \<Rightarrow> nat \<Rightarrow> nat \<Rightarrow> bool" where
  "loop_ok options No_Loop running la made = (\<not> running \<and> la = 0)"
| "loop_ok options (Waiting a) running la made =
     (running \<and> in_range options a \<and> la = a - 1 \<and> made = a - 1)"
| "loop_ok options (Starting a d) running la made = (running \<and> in_range options a \<and> la = a \<and> made = a)"
| "loop_ok options (Attempting a r) running la made = (running \<and> in_range options a \<and> la = a \<and> made = a)"

definition client_ok :: "'e reconnect_config option \<Rightarrow> 'e client \<Rightarrow> bool" where
  "client_ok options c =
     loop_ok options (cl_phase c) (cl_reconnecting c) (cl_loopAttempt c) (cl_made c)"

lemma client_ok_new: "client_ok options new_client"
  by (simp add: client_ok_def new_client_def)

lemma client_ok_loop_head:
  assumes "cl_made c = n - 1" "0 < n" "cl_loopAttempt c = n - 1" "cl_reconnecting c"
  shows "client_ok (Some cf) (loop_head cf random n e c)"
proof (cases "willReconnect (Some cf) e n c")
  case (Pair r c')
  from willReconnect_frame[OF this] show ?thesis using Pair assms
    by (cases r) (auto simp: loop_head_def loop_ends_def tell_def client_ok_def in_range_def)
qed

lemma client_ok_tell [simp]: "client_ok options (tell e c) = client_ok options c"
  by (simp add: client_ok_def tell_def)

lemma client_ok_fields:
  assumes "client_ok options c" "cl_phase c' = cl_phase c" "cl_reconnecting c' = cl_reconnecting c"
    "cl_loopAttempt c' = cl_loopAttempt c" "cl_made c' = cl_made c"
  shows "client_ok options c'"
  using assms by (simp add: client_ok_def)

lemma client_ok_settle: "client_ok options c \<Longrightarrow> client_ok options (settle_attempt r c)"
  by (auto simp: settle_attempt_def client_ok_def split: loop_phase.splits option.splits)

lemma client_ok_will: "willReconnect o' e n c = (r, c') \<Longrightarrow> client_ok options c \<Longrightarrow> client_ok options c'"
  by (drule willReconnect_frame) (auto intro: client_ok_fields)

lemma client_ok_fail: "client_ok options c \<Longrightarrow> client_ok options (failConnection options e c)"
proof -
  assume ok: "client_ok options c"
  define c1 where "c1 = (if cl_status c = Connecting then settle_attempt (Inl e) c else c)"
  define c2 where "c2 = c1\<lparr>cl_status := Disconnected\<rparr>"
  have "client_ok options c1" using ok by (simp add: c1_def client_ok_settle)
  then have "client_ok options c2" by (rule client_ok_fields) (simp_all add: c2_def)
  with ok \<open>client_ok options c1\<close> show ?thesis
    by (auto simp: failConnection_def c1_def[symmetric] c2_def[symmetric] Let_def
        intro: client_ok_will split: prod.splits)
qed

lemma client_ok_closed:
  assumes ok: "client_ok options c"
  shows "client_ok options (handleConnectionClosed options random e c)"
proof -
  define c1 where "c1 = c\<lparr>cl_status := Disconnected, cl_lastDrop := Some e\<rparr>"
  obtain r c2 where w: "willReconnect options e (cl_loopAttempt c1 + 1) c1 = (r, c2)" by fastforce
  have "client_ok options c1" by (rule client_ok_fields[OF ok]) (simp_all add: c1_def)
  then have 2: "client_ok options (tell (Announced (Some e) r) c2)" using client_ok_will[OF w] by simp
  have "client_ok options (scheduleReconnect options random e (tell (Announced (Some e) r) c2))"
  proof (cases options)
    case (Some cf)
    then show ?thesis using 2
      by (cases "cl_phase c2")
        (auto simp: scheduleReconnect_def client_ok_def tell_def intro!: client_ok_loop_head[unfolded client_ok_def])
  qed (use 2 in \<open>simp add: scheduleReconnect_def\<close>)
  then show ?thesis using ok
    using w by (auto simp: handleConnectionClosed_def client_ok_fail c1_def[symmetric] Let_def)
qed

lemma client_ok_own: "own_step options c c' \<Longrightarrow> client_ok options c \<Longrightarrow> client_ok options c'"
proof (induction rule: own_step.induct)
  case (resumes cf c random dropped)
  then show ?case
    by (auto simp: loop_resumes_def loop_ends_def client_ok_def
        intro!: client_ok_loop_head[unfolded client_ok_def] split: loop_phase.splits option.splits sum.splits)
next
  case (fails c e)
  then show ?case by (simp add: client_ok_fail)
next
  case (closed c random e)
  then show ?case by (simp add: client_ok_closed)
next
  case (connected c)
  have "client_ok options (c\<lparr>cl_status := Connected\<rparr>)" by (rule client_ok_fields[OF connected]) simp_all
  with connected show ?case by (simp add: markConnected_def client_ok_settle)
next
  case (disconnected c e)
  have "client_ok options (c\<lparr>cl_leaving := False\<rparr>)" by (rule client_ok_fields[OF disconnected]) simp_all
  with disconnected show ?case by (simp add: disconnect_ends_def client_ok_settle)
qed (auto simp: wait_ends_def attempt_starts_def start_abandoned_def begin_attempt_def loop_ends_def
  disconnect_begins_def client_ok_def tell_def Let_def in_range_def
  split: loop_phase.splits option.splits)

lemma client_ok_step: "client_step options c c' \<Longrightarrow> client_ok options c \<Longrightarrow> client_ok options c'"
proof (induction rule: client_step.induct)
  case (own c c')
  then show ?case by (rule client_ok_own)
qed (simp add: connect_by_hand_def begin_attempt_def client_ok_def)

lemma client_runs:
  assumes "(client_step options)\<^sup>*\<^sup>* new_client c"
  shows "client_ok options c"
  using assms by induction (auto simp: client_ok_new intro: client_ok_step)

section \<open>A disconnect is final\<close>

definition attempts :: "'e client \<Rightarrow> nat list" where
  "attempts c = concat (map (\<lambda>e. case e of Attempt_Made n \<Rightarrow> [n] | Scheduled n d \<Rightarrow> [n] | _ \<Rightarrow> [])
     (cl_events c))"

lemma attempts_tell [simp]:
  "attempts (tell (Asked e n) c) = attempts c" "attempts (tell (Announced r w) c) = attempts c"
  "attempts (tell (Loop_Stopped m r) c) = attempts c"
  by (simp_all add: attempts_def tell_def)

lemma attempts_same: "cl_events c' = cl_events c \<Longrightarrow> attempts c' = attempts c"
  by (simp add: attempts_def)

text \<open>A stopped client is down, and a loop attempt that still waits has seen no disconnect since it
  began only if the client is not stopped.\<close>

definition stop_ok :: "'e client \<Rightarrow> bool" where
  "stop_ok c \<longleftrightarrow> (cl_stopped c \<longrightarrow> cl_status c = Disconnected) \<and> (cl_leaving c \<longrightarrow> cl_stopped c) \<and>
     (\<forall>a d. cl_phase c = Starting a d \<longrightarrow> d \<le> cl_disconnects c \<and> (d = cl_disconnects c \<longrightarrow> \<not> cl_stopped c))"

definition stays_down :: "'e client \<Rightarrow> 'e client \<Rightarrow> bool" where
  "stays_down c c' \<longleftrightarrow> stop_ok c' \<and>
     (cl_stopped c \<longrightarrow> cl_stopped c' \<and> cl_status c' = Disconnected \<and> attempts c' = attempts c)"

lemma stop_ok_new: "stop_ok new_client"
  by (simp add: stop_ok_def new_client_def)

lemma loop_head_stops:
  assumes "\<not> (\<exists>a d. cl_phase c = Starting a d)" "stop_ok c"
  shows "stays_down c (loop_head cf random n e c)"
proof (cases "cl_stopped c")
  case True
  then show ?thesis using assms
    by (auto simp: loop_head_def loop_ends_def stays_down_def stop_ok_def tell_def attempts_def)
next
  case False
  obtain r c' where w: "willReconnect (Some cf) e n c = (r, c')" by fastforce
  from willReconnect_frame[OF w] False w assms show ?thesis
    by (cases r) (auto simp: loop_head_def loop_ends_def stays_down_def stop_ok_def tell_def)
qed

lemma stop_ok_frame:
  assumes "stop_ok c" "cl_stopped c' = cl_stopped c" "cl_leaving c' = cl_leaving c"
    "cl_disconnects c' = cl_disconnects c" "cl_phase c' = cl_phase c"
    "cl_stopped c \<longrightarrow> cl_status c' = Disconnected"
  shows "stop_ok c'"
  using assms by (simp add: stop_ok_def)

lemma settle_frame [simp]:
  "cl_status (settle_attempt r c) = cl_status c" "cl_stopped (settle_attempt r c) = cl_stopped c"
  "cl_leaving (settle_attempt r c) = cl_leaving c" "cl_disconnects (settle_attempt r c) = cl_disconnects c"
  "cl_events (settle_attempt r c) = cl_events c" "cl_reconnecting (settle_attempt r c) = cl_reconnecting c"
  "cl_loopAttempt (settle_attempt r c) = cl_loopAttempt c"
  "cl_phase (settle_attempt r c) = Starting a d \<longleftrightarrow> cl_phase c = Starting a d"
  by (auto simp: settle_attempt_def split: loop_phase.splits option.splits)

lemma failConnection_stops:
  assumes "stop_ok c"
  shows "stays_down c (failConnection options e c)"
proof -
  define c1 where "c1 = (if cl_status c = Connecting then settle_attempt (Inl e) c else c)"
  define c2 where "c2 = c1\<lparr>cl_status := Disconnected\<rparr>"
  obtain r c3 where w: "willReconnect options e (cl_loopAttempt c2 + 1) c2 = (r, c3)" by fastforce
  note f = willReconnect_frame[OF w]
  have ok: "stop_ok c1" "stop_ok c2" using assms by (auto simp: c1_def c2_def stop_ok_def)
  have "cl_stopped c \<longrightarrow> cl_status c = Disconnected" using assms by (simp add: stop_ok_def)
  moreover have "stop_ok (tell (Announced (Some e) v) c3)" for v
    by (rule stop_ok_frame[OF ok(2)]) (use f in \<open>simp_all add: tell_def c2_def\<close>)
  moreover have "stop_ok (tell (Announced (Some e) v) c2)" for v
    by (rule stop_ok_frame[OF ok(2)]) (simp_all add: tell_def c2_def)
  ultimately show ?thesis using assms ok w
    by (auto simp: failConnection_def c1_def[symmetric] c2_def[symmetric] Let_def stays_down_def)
qed

lemma closed_stops:
  assumes "stop_ok c"
  shows "stays_down c (handleConnectionClosed options random e c)"
proof (cases "cl_status c = Connected")
  case True
  then have ns: "\<not> cl_stopped c" using assms by (auto simp: stop_ok_def)
  define c1 where "c1 = c\<lparr>cl_status := Disconnected, cl_lastDrop := Some e\<rparr>"
  obtain r c2 where w: "willReconnect options e (cl_loopAttempt c1 + 1) c1 = (r, c2)" by fastforce
  note f = willReconnect_frame[OF w]
  define c3 where "c3 = tell (Announced (Some e) r) c2"
  have c3: "stop_ok c3" using assms f by (auto simp: c3_def c1_def tell_def stop_ok_def)
  have "stop_ok (scheduleReconnect options random e c3)"
  proof (cases options)
    case (Some cf)
    define c4 where "c4 = c3\<lparr>cl_reconnecting := True, cl_made := 0\<rparr>"
    obtain r' c5 where w': "willReconnect (Some cf) e 1 c4 = (r', c5)" by fastforce
    note f' = willReconnect_frame[OF w']
    have "stop_ok (loop_head cf random 1 e c4)"
      using c3 f' w' by (cases r') (auto simp: loop_head_def loop_ends_def tell_def stop_ok_def c4_def)
    then show ?thesis using Some c3 by (simp add: scheduleReconnect_def c4_def)
  qed (use c3 in \<open>simp add: scheduleReconnect_def\<close>)
  then show ?thesis using True ns w
    by (simp add: handleConnectionClosed_def stays_down_def Let_def c1_def[symmetric] c3_def[symmetric])
next
  case False
  have "stays_down c c" using assms by (simp add: stays_down_def stop_ok_def)
  then show ?thesis using False failConnection_stops[OF assms]
    by (simp add: handleConnectionClosed_def)
qed

lemma own_step_stops: "own_step options c c' \<Longrightarrow> stop_ok c \<Longrightarrow> stays_down c c'"
proof (induction rule: own_step.induct)
  case (resumes cf c random dropped)
  have same: "stays_down c c" using resumes(2) by (simp add: stays_down_def stop_ok_def)
  show ?case
  proof (cases "\<exists>a r. cl_phase c = Attempting a (Some r)")
    case True
    then obtain a r where p: "cl_phase c = Attempting a (Some r)" by blast
    then have h: "stays_down c (loop_head cf random m e c)" for m e
      using loop_head_stops resumes(2) by (metis loop_phase.distinct(11))
    have "stays_down c (loop_ends None c)" if "cl_status c = Connected"
      using that resumes(2) by (auto simp: loop_ends_def stays_down_def stop_ok_def)
    with h p show ?thesis by (cases r) (auto simp: loop_resumes_def)
  next
    case False
    then show ?thesis using same by (auto simp: loop_resumes_def split: loop_phase.splits option.splits)
  qed
next
  case (fails c e)
  then show ?case by (simp add: failConnection_stops)
next
  case (closed c random e)
  then show ?case by (simp add: closed_stops)
qed (auto simp: wait_ends_def attempt_starts_def start_abandoned_def begin_attempt_def loop_ends_def
  disconnect_begins_def disconnect_ends_def markConnected_def stays_down_def stop_ok_def tell_def
  attempts_def Let_def split: loop_phase.splits option.splits)

lemma stop_ok_step: "client_step options c c' \<Longrightarrow> stop_ok c \<Longrightarrow> stop_ok c'"
proof (induction rule: client_step.induct)
  case (own c c')
  then show ?case using own_step_stops by (auto simp: stays_down_def)
qed (auto simp: connect_by_hand_def begin_attempt_def stop_ok_def)

lemma stop_runs:
  assumes "(client_step options)\<^sup>*\<^sup>* new_client c"
  shows "stop_ok c"
  using assms by induction (auto simp: stop_ok_new intro: stop_ok_step)

lemma stays_down_runs:
  assumes "(own_step options)\<^sup>*\<^sup>* c c'" "stop_ok c" "cl_stopped c"
  shows "stop_ok c' \<and> cl_stopped c' \<and> cl_status c' = Disconnected \<and> attempts c' = attempts c"
  using assms
proof induction
  case (step b d)
  then show ?case using own_step_stops[of options b d] by (auto simp: stays_down_def)
qed (simp add: stop_ok_def)

section \<open>What is announced is what the loop does\<close>

lemma loop_head_after_asking:
  assumes "willReconnect (Some cf) e n c = (r, c')" "willReconnect (Some cf) e n c1 = (r, c1)" "\<not> cl_stopped c1"
  shows "cl_phase (loop_head cf random n e c1) = (if r then Waiting n else No_Loop)"
proof -
  have "\<not> r" if "maxAttempts (cf_policy cf) \<noteq> 0 \<and> maxAttempts (cf_policy cf) < n"
    using assms(2) that by (auto simp: willReconnect_def split: if_splits)
  then show ?thesis using assms(2,3)
    by (auto simp: loop_head_def loop_ends_def tell_def split: bool.splits)
qed

text \<open>The loop only ever adds to what it has told.\<close>

lemma head_tells_more: "\<exists>evs. cl_events (loop_head cf random n e c) = cl_events c @ evs"
proof -
  obtain r c' where "willReconnect (Some cf) e n c = (r, c')" by fastforce
  with willReconnect_frame[OF this] show ?thesis
    by (cases r) (auto simp: loop_head_def loop_ends_def tell_def)
qed

lemma schedule_tells_more: "\<exists>evs. cl_events (scheduleReconnect options random e c) = cl_events c @ evs"
  using head_tells_more[of _ random 1 e "c\<lparr>cl_reconnecting := True, cl_made := 0\<rparr>"]
  by (auto simp: scheduleReconnect_def split: option.split)

lemma willReconnect_answer_frame:
  assumes "willReconnect options e n c = (r, c)" "cl_retryAnswer c1 = cl_retryAnswer c"
    "cl_stopped c1 = cl_stopped c" "cl_asks c1 = cl_asks c"
  shows "willReconnect options e n c1 = (r, c1)"
proof -
  have no: "\<not> (\<exists>x. c = tell (Asked e n) (c\<lparr>cl_asks := cl_asks c + 1, cl_retryAnswer := x\<rparr>))"
  proof
    assume "\<exists>x. c = tell (Asked e n) (c\<lparr>cl_asks := cl_asks c + 1, cl_retryAnswer := x\<rparr>)"
    then obtain x where "c = tell (Asked e n) (c\<lparr>cl_asks := cl_asks c + 1, cl_retryAnswer := x\<rparr>)" ..
    from arg_cong[OF this, of cl_asks] show False by (simp add: tell_def)
  qed
  show ?thesis
  proof (cases options)
    case None
    then show ?thesis using assms(1) by (simp add: willReconnect_def)
  next
    case (Some cf)
    have "fst (willReconnect options e n c1) = fst (willReconnect options e n c)"
      using assms(2-4) Some by (simp add: willReconnect_def Let_def)
    moreover have "snd (willReconnect options e n c1) = c1"
    proof (cases "snd (willReconnect options e n c1) = c1")
      case False
      then have "\<exists>x. snd (willReconnect options e n c) = tell (Asked e n) (c\<lparr>cl_asks := cl_asks c + 1, cl_retryAnswer := x\<rparr>)"
        using assms(2-4) Some by (auto simp: willReconnect_def Let_def split: if_splits)
      with no assms(1) show ?thesis by simp
    qed
    ultimately show ?thesis using assms(1) by (simp add: prod_eq_iff)
  qed
qed

text \<open>What a drop announces, and what it leaves for the loop.\<close>

lemma drop_announces:
  assumes "willReconnect options e (cl_loopAttempt c + 1) (c\<lparr>cl_status := Disconnected, cl_lastDrop := Some e\<rparr>) = (r, c2)"
    and "cl_status c = Connected"
  shows "handleConnectionClosed options random e c = scheduleReconnect options random e (tell (Announced (Some e) r) c2)"
    "Announced (Some e) r \<in> set (drop (length (cl_events c)) (cl_events (handleConnectionClosed options random e c)))"
proof -
  show run: "handleConnectionClosed options random e c = scheduleReconnect options random e (tell (Announced (Some e) r) c2)"
    using assms by (simp add: handleConnectionClosed_def Let_def)
  obtain evs where "cl_events (scheduleReconnect options random e (tell (Announced (Some e) r) c2)) =
      cl_events (tell (Announced (Some e) r) c2) @ evs"
    using schedule_tells_more by metis
  then show "Announced (Some e) r \<in> set (drop (length (cl_events c)) (cl_events (handleConnectionClosed options random e c)))"
    unfolding run using willReconnect_frame[OF assms(1)] by (auto simp: tell_def)
qed

lemma drop_starts_loop:
  assumes "willReconnect options e (cl_loopAttempt c + 1) (c\<lparr>cl_status := Disconnected, cl_lastDrop := Some e\<rparr>) = (r, c2)"
    and "client_ok options c" "cl_status c = Connected" "cl_phase c = No_Loop" "\<not> cl_stopped c"
  shows "cl_phase (handleConnectionClosed options random e c) = (if r then Waiting 1 else No_Loop)"
proof -
  define c3 where "c3 = tell (Announced (Some e) r) c2"
  have la: "cl_loopAttempt c = 0" "\<not> cl_reconnecting c" using assms(2,4) by (simp_all add: client_ok_def)
  note w = assms(1)[unfolded la(1), simplified]
  note f = willReconnect_frame[OF w] and run = drop_announces(1)[OF assms(1,3), of random, folded c3_def]
  show ?thesis
  proof (cases options)
    case None
    then show ?thesis using w f assms(4) unfolding run
      by (auto simp: scheduleReconnect_def willReconnect_def c3_def tell_def)
  next
    case (Some cf)
    define c4 where "c4 = c3\<lparr>cl_reconnecting := True, cl_made := 0\<rparr>"
    have c2: "willReconnect (Some cf) e 1 c2 = (r, c2)" using willReconnect_again[OF w] Some by simp
    have c4: "willReconnect (Some cf) e 1 c4 = (r, c4)"
      by (rule willReconnect_answer_frame[OF c2]) (simp_all add: c4_def c3_def tell_def)
    have ns: "\<not> cl_stopped c4" "\<not> cl_reconnecting c3" "\<not> cl_stopped c3"
      using f la assms(5) by (simp_all add: c4_def c3_def tell_def)
    have "scheduleReconnect options random e c3 = loop_head cf random 1 e c4"
      using Some ns by (simp add: scheduleReconnect_def c4_def)
    then show ?thesis unfolding run using loop_head_after_asking[OF c4 c4 ns(1), of random] by simp
  qed
qed

lemma drop_in_attempt:
  assumes "willReconnect options e (cl_loopAttempt c + 1) (c\<lparr>cl_status := Disconnected, cl_lastDrop := Some e\<rparr>) = (r, c2)"
    and "client_ok options c" "cl_status c = Connected" "cl_phase c = Attempting a (Some (Inr ()))" "\<not> cl_stopped c"
  shows "\<exists>cf. options = Some cf \<and>
    cl_phase (loop_resumes cf random' dropped (handleConnectionClosed options random e c)) =
      (if r then Waiting (a + 1) else No_Loop)"
proof -
  define c3 where "c3 = tell (Announced (Some e) r) c2"
  obtain cf where cf: "options = Some cf" using assms(2,4) by (auto simp: client_ok_def in_range_def)
  have la: "cl_loopAttempt c = a" "cl_reconnecting c" using assms(2,4) by (simp_all add: client_ok_def)
  note w = assms(1)[unfolded la(1) cf]
  note f = willReconnect_frame[OF w] and run = drop_announces(1)[OF assms(1,3), of random, folded c3_def]
  have run3: "handleConnectionClosed options random e c = c3"
    unfolding run using f la(2) by (auto simp: scheduleReconnect_def c3_def tell_def split: option.split)
  have c3: "willReconnect (Some cf) e (a + 1) c3 = (r, c3)"
    by (rule willReconnect_answer_frame[OF willReconnect_again[OF w]]) (simp_all add: c3_def tell_def)
  have p: "cl_phase c3 = Attempting a (Some (Inr ()))" "\<not> cl_stopped c3" "cl_status c3 = Disconnected" "cl_lastDrop c3 = Some e"
    using f assms(4,5) by (simp_all add: c3_def tell_def)
  show ?thesis
    unfolding run3 using loop_head_after_asking[OF c3 c3 p(2), of random'] p cf by (simp add: loop_resumes_def)
qed

lemma drop_acts_as_announced:
  assumes "client_ok options c" "stop_ok c" "cl_status c = Connected"
  shows "\<exists>will. Announced (Some e) will
        \<in> set (drop (length (cl_events c)) (cl_events (handleConnectionClosed options random e c))) \<and>
    (cl_phase c = No_Loop \<longrightarrow>
       cl_phase (handleConnectionClosed options random e c) = (if will then Waiting 1 else No_Loop)) \<and>
    (\<forall>a. cl_phase c = Attempting a (Some (Inr ())) \<longrightarrow>
       (\<exists>cf. options = Some cf \<and>
          cl_phase (loop_resumes cf random' dropped (handleConnectionClosed options random e c)) =
            (if will then Waiting (a + 1) else No_Loop)))"
proof -
  obtain r c2 where w: "willReconnect options e (cl_loopAttempt c + 1)
      (c\<lparr>cl_status := Disconnected, cl_lastDrop := Some e\<rparr>) = (r, c2)" by fastforce
  have "\<not> cl_stopped c" using assms(2,3) by (auto simp: stop_ok_def)
  then show ?thesis
    using drop_announces(2)[OF w assms(3)] drop_starts_loop[OF w assms(1,3)] drop_in_attempt[OF w assms(1,3)] by blast
qed

text \<open>
  Not so for a session the caller made by hand while the loop waited: its drop is announced by the
  answer to a question the waiting loop never acts on.
\<close>

definition refusing_second :: "nat reconnect_config" where
  "refusing_second = \<lparr>cf_policy = \<lparr>initialDelayMs = 1000, maxDelayMs = 60000, factor = 2, jitter = 0, maxAttempts = 0\<rparr>,
     cf_shouldRetry = (\<lambda>_ e _. Some (e = 1))\<rparr>"

definition dropped_once :: "nat client" where
  "dropped_once = handleConnectionClosed (Some refusing_second) 0 1 (markConnected (connect_by_hand new_client))"

definition made_by_hand :: "nat client" where
  "made_by_hand = markConnected (connect_by_hand dropped_once)"

definition dropped_again :: "nat client" where
  "dropped_again = handleConnectionClosed (Some refusing_second) 0 2 made_by_hand"

lemma hand_made_drop:
  "(client_step (Some refusing_second))\<^sup>*\<^sup>* new_client made_by_hand"
  "cl_status made_by_hand = Connected" "cl_phase made_by_hand = Waiting 1"
  "cl_events dropped_again = cl_events made_by_hand @ [Asked 2 1, Announced (Some 2) False]"
  "cl_events (wait_ends dropped_again) = cl_events dropped_again @ [Attempt_Made 1]"
proof -
  note run = client_step.own[OF own_step.closed] client_step.own[OF own_step.connected] client_step.by_hand
  show "(client_step (Some refusing_second))\<^sup>*\<^sup>* new_client made_by_hand"
    unfolding made_by_hand_def dropped_once_def by (meson run rtranclp.rtrancl_into_rtrancl rtranclp.rtrancl_refl)
  note defs = dropped_again_def made_by_hand_def dropped_once_def refusing_second_def new_client_def loop_defs willReconnect_def
  show "cl_status made_by_hand = Connected" "cl_phase made_by_hand = Waiting 1"
    "cl_events dropped_again = cl_events made_by_hand @ [Asked 2 1, Announced (Some 2) False]"
    "cl_events (wait_ends dropped_again) = cl_events dropped_again @ [Attempt_Made 1]"
    by (simp_all add: defs Let_def)
qed

lemma attempt_acts_as_announced:
  assumes "client_ok (Some cf) c" "cl_status c = Connecting" "cl_phase c = Attempting a None" "\<not> cl_stopped c"
  shows "\<exists>will. Announced (Some e) will \<in> set (cl_events (failConnection (Some cf) e c)) \<and>
    cl_phase (loop_resumes cf random d (failConnection (Some cf) e c)) =
      (if will then Waiting (a + 1) else No_Loop)"
proof -
  define c2 where "c2 = (settle_attempt (Inl e) c)\<lparr>cl_status := Disconnected\<rparr>"
  have c: "cl_reconnecting c" "cl_loopAttempt c = a" using assms(1,3) by (simp_all add: client_ok_def)
  obtain r c3 where w: "willReconnect (Some cf) e (a + 1) c2 = (r, c3)" by fastforce
  note f = willReconnect_frame[OF w]
  define c4 where "c4 = tell (Announced (Some e) r) c3"
  have run: "failConnection (Some cf) e c = c4"
    using assms(2) c w by (simp add: failConnection_def c2_def Let_def c4_def)
  have c3: "willReconnect (Some cf) e (a + 1) c3 = (r, c3)" using willReconnect_again[OF w] .
  have c4: "willReconnect (Some cf) e (a + 1) c4 = (r, c4)"
    by (rule willReconnect_answer_frame[OF c3]) (simp_all add: c4_def tell_def)
  have p: "cl_phase c4 = Attempting a (Some (Inl e))" "\<not> cl_stopped c4"
    using f assms(3,4) by (simp_all add: c4_def tell_def c2_def settle_attempt_def)
  have "cl_phase (loop_resumes cf random d c4) = (if r then Waiting (a + 1) else No_Loop)"
    using loop_head_after_asking[OF c4 c4 p(2), of random] p(1) by (simp add: loop_resumes_def)
  moreover have "Announced (Some e) r \<in> set (cl_events c4)" by (simp add: c4_def tell_def)
  ultimately show ?thesis unfolding run by blast
qed

text \<open>Except for a connect of the caller's own that fails while the loop waits: it is announced by
  the loop's answer, though the loop goes on with its attempt whatever that answer is.\<close>

lemma by_hand_contradicts_loop:
  assumes "cl_phase c = Waiting a" "cl_reconnecting c" "cl_status c = Disconnected" "\<not> cl_leaving c"
    and "\<forall>k n. cf_shouldRetry cf k e n = Some False"
    and "\<forall>x. cl_retryAnswer c = Some x \<longrightarrow> ra_err x \<noteq> e"
  shows "last (cl_events (failConnection (Some cf) e (connect_by_hand c))) = Announced (Some e) False \<and>
    last (cl_events (wait_ends (failConnection (Some cf) e (connect_by_hand c)))) = Attempt_Made a"
proof -
  define c1 where "c1 = c\<lparr>cl_stopped := False, cl_status := Connecting\<rparr>"
  have c1: "connect_by_hand c = c1" using assms(3,4) by (simp add: connect_by_hand_def begin_attempt_def c1_def)
  have settle: "settle_attempt (Inl e) c1 = c1" using assms(1) by (simp add: settle_attempt_def c1_def)
  define c2 where "c2 = c1\<lparr>cl_status := Disconnected\<rparr>"
  obtain r c3 where wr: "willReconnect (Some cf) e (cl_loopAttempt c2 + 1) c2 = (r, c3)" by fastforce
  have "\<not> (case cl_retryAnswer c2 of Some x \<Rightarrow> ra_err x = e \<and> ra_attempt x = m | None \<Rightarrow> False)" for m
    using assms(6) by (auto simp: c2_def c1_def split: option.splits)
  then have "fst (willReconnect (Some cf) e m c2) = False" for m
    using assms(5) by (simp add: willReconnect_def Let_def)
  then have w: "willReconnect (Some cf) e (cl_loopAttempt c2 + 1) c2 = (False, c3)"
    using wr by (metis fst_conv)
  note f = willReconnect_frame[OF w]
  have "failConnection (Some cf) e c1 = tell (Announced (Some e) False) c3"
    using assms(2) settle w by (simp add: failConnection_def c2_def Let_def c1_def)
  then show ?thesis using f assms(1) unfolding c1
    by (simp add: wait_ends_def tell_def c2_def c1_def)
qed

end
