(* ===== verification/Api_Fields.thy ===== *)
theory Api_Fields
  imports Js_Number
begin

text \<open>
  Reading rows into records: the field readers, \<open>readFields\<close> and the table of channel fields of
  \<open>src/core/api/command.ts\<close>, the table of client fields of \<open>src/core/api/parse.ts\<close>, and
  \<open>applyClientChanges\<close> of \<open>src/core/api/clients.ts\<close>. A row is the parameter map of a parsed
  line. A record is a map from field names to values, where \<^term>\<open>Some None\<close> is a key that
  holds \<open>undefined\<close> and \<^const>\<open>None\<close> a key the record lacks.
\<close>

section \<open>Values\<close>

text \<open>A date is its time value in milliseconds, and one out of the range of dates is invalid.\<close>

datatype js_date = ValidDate int | InvalidDate

datatype field_value = VText string | VId int | VNumber js_number | VBool bool
  | VGroups "int list" | VDate js_date

definition new_Date :: "int \<Rightarrow> js_date" where
  "new_Date ms = (if \<bar>ms\<bar> \<le> 8640000000000000 then ValidDate ms else InvalidDate)"

text \<open>Multiplication of a number by an integer constant, and the sign of a number.\<close>

fun js_scale :: "js_number \<Rightarrow> int \<Rightarrow> js_number" where
  "js_scale (Finite q) k = round_double (q * of_int k)"
| "js_scale (Infinite s) k = (if k = 0 then NaN else Infinite (if k < 0 then \<not> s else s))"
| "js_scale NaN k = NaN"

fun js_negative :: "js_number \<Rightarrow> bool" where
  "js_negative (Finite q) = (q < 0)"
| "js_negative (Infinite s) = s"
| "js_negative NaN = False"

section \<open>Field readers\<close>

definition str :: "params \<Rightarrow> string \<Rightarrow> string" where
  "str row key = (case row key of None \<Rightarrow> [] | Some v \<Rightarrow> v)"

definition big :: "params \<Rightarrow> string \<Rightarrow> int" where
  "big row key =
     (case row key of
        None \<Rightarrow> 0
      | Some raw \<Rightarrow>
          if raw = [] \<or> \<not> list_all is_digit raw then 0
          else let value = int (nat_of_digits raw) in if value > MAX_UINT64 then 0 else value)"

definition num :: "params \<Rightarrow> string \<Rightarrow> js_number" where
  "num row key =
     (case row key of
        None \<Rightarrow> Finite 0
      | Some raw \<Rightarrow> if raw = [] then Finite 0
                    else if js_Number raw = NaN then Finite 0 else js_Number raw)"

definition uint :: "params \<Rightarrow> string \<Rightarrow> int \<Rightarrow> int" where
  "uint row key mx =
     (case num row key of
        Finite q \<Rightarrow> if js_isInteger (Finite q) \<and> q \<ge> 0 \<and> q \<le> of_int mx then \<lfloor>q\<rfloor> else 0
      | _ \<Rightarrow> 0)"

definition U16 :: int where "U16 = 0xffff"
definition U32 :: int where "U32 = 0xffffffff"

definition optNum :: "params \<Rightarrow> string \<Rightarrow> js_number option" where
  "optNum row key = (if row key = None then None else Some (num row key))"

definition bool :: "params \<Rightarrow> string \<Rightarrow> bool" where
  "bool row key = (num row key \<noteq> Finite 0)"

definition icon :: "params \<Rightarrow> string \<Rightarrow> int option" where
  "icon row key = parseIconID (row key)"

definition MAX_UNIX_SECONDS :: int where "MAX_UNIX_SECONDS = 10 ^ 11"
definition MAX_UNIX_MILLIS :: int where "MAX_UNIX_MILLIS = 10 ^ 14"
definition MAX_UNIX_MICROS :: int where "MAX_UNIX_MICROS = 10 ^ 17"

text \<open>
  \<open>Number(value)\<close> of the integer keeps it exact up to the range of dates, beyond which the date
  is invalid however it rounds.
\<close>

definition date :: "params \<Rightarrow> string \<Rightarrow> js_date option" where
  "date row key =
     (case row key of
        None \<Rightarrow> None
      | Some raw \<Rightarrow>
          (let d = (if take 1 raw = ''-'' then tl raw else raw); value = bigint_of raw
           in if d = [] \<or> \<not> list_all is_digit d then None
              else if value \<le> 0 then None
              else if value < MAX_UNIX_SECONDS then Some (new_Date (value * 1000))
              else if value < MAX_UNIX_MILLIS then Some (new_Date value)
              else if value < MAX_UNIX_MICROS then Some (new_Date (value div 1000))
              else Some (new_Date (value div 1000000))))"

definition SECOND :: int where "SECOND = 1000"
definition MILLISECOND :: int where "MILLISECOND = 1"

definition durationMs :: "params \<Rightarrow> string \<Rightarrow> int \<Rightarrow> js_number" where
  "durationMs row key unitMs = js_scale (num row key) unitMs"

text \<open>\<open>parseServerGroups\<close>: what is not an id of at most 20 digits below \<open>2 ^ 64\<close> is skipped.\<close>

definition server_group_id :: "string \<Rightarrow> int option" where
  "server_group_id s =
     (if s \<noteq> [] \<and> length s \<le> 20 \<and> list_all is_digit s \<and> nat_of_digits s < 2 ^ 64
      then Some (int (nat_of_digits s)) else None)"

definition asServerGroupID :: "id_arg \<Rightarrow> js_error + int" where
  "asServerGroupID v = uint64 v ''a server group id''"

definition asChannelGroupID :: "id_arg \<Rightarrow> js_error + int" where
  "asChannelGroupID v = uint64 v ''a channel group id''"

definition asClientDBID :: "id_arg \<Rightarrow> js_error + int" where
  "asClientDBID v = uint64 v ''a client database id''"

definition parseServerGroups :: "string \<Rightarrow> js_error + int list" where
  "parseServerGroups raw =
     (if raw = [] then Inr []
      else map_result (\<lambda>i. asServerGroupID (BigInt i))
             (List.map_filter server_group_id (split_on CHR '','' raw)))"

section \<open>Field tables\<close>

text \<open>
  \<open>FieldSpec\<close>: the wire keys in the order they are tried, the reader, which may throw or read
  \<open>undefined\<close>, and whether a full record reads the field from a row without it.
\<close>

record field_spec =
  fs_keys :: "string list"
  fs_read :: "params \<Rightarrow> string \<Rightarrow> js_error + field_value option"
  fs_always :: bool

type_synonym field_table = "(string \<times> field_spec) list"
type_synonym field_map = "string \<rightharpoonup> field_value option"

text \<open>One turn of the loop of \<open>readFields\<close>: the value the field gets, if it gets one.\<close>

definition read_field ::
  "bool \<Rightarrow> params \<Rightarrow> field_spec \<Rightarrow> js_error + field_value option option" where
  "read_field onlyPresent row spec =
     (let full = (fs_always spec \<and> \<not> onlyPresent)
      in case find (\<lambda>k. row k \<noteq> None) (fs_keys spec) of
           None \<Rightarrow>
             if full then bind_result (fs_read spec row (hd (fs_keys spec))) (\<lambda>v. Inr (Some v))
             else Inr None
         | Some key \<Rightarrow>
             bind_result (fs_read spec row key)
               (\<lambda>v. Inr (if v \<noteq> None \<or> full \<or> onlyPresent then Some v else None)))"

fun readFields :: "field_table \<Rightarrow> params \<Rightarrow> bool \<Rightarrow> js_error + field_map" where
  "readFields [] row onlyPresent = Inr (\<lambda>_. None)"
| "readFields ((name, spec) # table) row onlyPresent =
     bind_result (read_field onlyPresent row spec) (\<lambda>v.
       bind_result (readFields table row onlyPresent) (\<lambda>rest. Inr (rest(name := v))))"

text \<open>The readers the tables use.\<close>

definition read_text :: "params \<Rightarrow> string \<Rightarrow> js_error + field_value option" where
  "read_text row key = Inr (Some (VText (str row key)))"

definition read_num :: "params \<Rightarrow> string \<Rightarrow> js_error + field_value option" where
  "read_num row key = Inr (Some (VNumber (num row key)))"

definition read_opt_num :: "params \<Rightarrow> string \<Rightarrow> js_error + field_value option" where
  "read_opt_num row key = Inr (map_option VNumber (optNum row key))"

definition read_bool :: "params \<Rightarrow> string \<Rightarrow> js_error + field_value option" where
  "read_bool row key = Inr (Some (VBool (bool row key)))"

definition read_icon :: "params \<Rightarrow> string \<Rightarrow> js_error + field_value option" where
  "read_icon row key = Inr (map_option VId (icon row key))"

definition read_date :: "params \<Rightarrow> string \<Rightarrow> js_error + field_value option" where
  "read_date row key = Inr (map_option VDate (date row key))"

definition read_duration :: "int \<Rightarrow> params \<Rightarrow> string \<Rightarrow> js_error + field_value option" where
  "read_duration unitMs row key = Inr (Some (VNumber (durationMs row key unitMs)))"

definition read_id ::
  "(id_arg \<Rightarrow> js_error + int) \<Rightarrow> params \<Rightarrow> string \<Rightarrow> js_error + field_value option" where
  "read_id as row key = bind_result (as (BigInt (big row key))) (\<lambda>i. Inr (Some (VId i)))"

definition read_groups :: "params \<Rightarrow> string \<Rightarrow> js_error + field_value option" where
  "read_groups row key = bind_result (parseServerGroups (str row key)) (\<lambda>l. Inr (Some (VGroups l)))"

definition read_parent :: "params \<Rightarrow> string \<Rightarrow> js_error + field_value option" where
  "read_parent row key =
     bind_result (asChannelID (BigInt (if big row ''pid'' \<noteq> 0 then big row ''pid'' else big row ''cpid'')))
       (\<lambda>i. Inr (Some (VId i)))"

definition read_empty_for :: "params \<Rightarrow> string \<Rightarrow> js_error + field_value option" where
  "read_empty_for row key =
     (if js_negative (num row key) then Inr None else read_duration SECOND row key)"

definition field ::
  "string list \<Rightarrow> (params \<Rightarrow> string \<Rightarrow> js_error + field_value option) \<Rightarrow> field_spec" where
  "field keys read = \<lparr>fs_keys = keys, fs_read = read, fs_always = False\<rparr>"

definition always ::
  "string list \<Rightarrow> (params \<Rightarrow> string \<Rightarrow> js_error + field_value option) \<Rightarrow> field_spec" where
  "always keys read = \<lparr>fs_keys = keys, fs_read = read, fs_always = True\<rparr>"

section \<open>The tables\<close>

definition clientFields :: field_table where
  "clientFields =
    [(''nickname'', always [''client_nickname''] read_text),
     (''channelID'', always [''cid'', ''ctid''] (read_id asChannelID)),
     (''type'', always [''client_type''] read_num),
     (''uid'', field [''client_unique_identifier''] read_text),
     (''serverGroups'', field [''client_servergroups''] read_groups),
     (''isAway'', field [''client_away''] read_bool),
     (''isRecording'', field [''client_is_recording''] read_bool),
     (''isTalker'', field [''client_is_talker''] read_bool),
     (''channelGroupID'', field [''client_channel_group_id''] (read_id asChannelGroupID)),
     (''createdAt'', field [''client_created''] read_date),
     (''lastConnectedAt'', field [''client_lastconnected''] read_date),
     (''idleTimeMs'', field [''client_idle_time''] (read_duration MILLISECOND)),
     (''databaseID'', always [''client_database_id''] (read_id asClientDBID)),
     (''awayMessage'', field [''client_away_message''] read_text),
     (''isInputMuted'', field [''client_input_muted''] read_bool),
     (''isOutputMuted'', field [''client_output_muted''] read_bool),
     (''isOutputOnlyMuted'', field [''client_outputonly_muted''] read_bool),
     (''hasInputHardware'', field [''client_input_hardware''] read_bool),
     (''hasOutputHardware'', field [''client_output_hardware''] read_bool),
     (''isChannelCommander'', field [''client_is_channel_commander''] read_bool),
     (''isPrioritySpeaker'', field [''client_is_priority_speaker''] read_bool),
     (''talkPower'', field [''client_talk_power''] read_num),
     (''isRequestingTalk'', field [''client_talk_request''] read_bool),
     (''talkRequestedAt'', field [''client_talk_request''] read_date),
     (''talkRequestMessage'', field [''client_talk_request_msg''] read_text),
     (''description'', field [''client_description''] read_text),
     (''metaData'', field [''client_meta_data''] read_text),
     (''avatar'', field [''client_flag_avatar''] read_text),
     (''iconID'', field [''client_icon_id''] read_icon),
     (''nicknamePhonetic'', field [''client_nickname_phonetic''] read_text),
     (''unreadMessages'', field [''client_unread_messages''] read_num),
     (''neededServerQueryViewPower'', field [''client_needed_serverquery_view_power''] read_num),
     (''channelGroupInheritedChannelID'',
        field [''client_channel_group_inherited_channel_id''] (read_id asChannelID)),
     (''country'', field [''client_country''] read_text),
     (''version'', field [''client_version''] read_text),
     (''platform'', field [''client_platform''] read_text),
     (''ip'', field [''connection_client_ip''] read_text),
     (''badges'', field [''client_badges''] read_text),
     (''signedBadges'', field [''client_signed_badges''] read_text),
     (''myTeamSpeakID'', field [''client_myteamspeak_id''] read_text),
     (''myTeamSpeakAvatar'', field [''client_myteamspeak_avatar''] read_text),
     (''integrations'', field [''client_integrations''] read_text),
     (''userTag'', field [''client_user_tag''] read_text),
     (''isStreaming'', field [''client_is_streaming''] read_bool)]"

definition channelFields :: field_table where
  "channelFields =
    [(''parentID'', always [''pid'', ''cpid''] read_parent),
     (''name'', always [''channel_name''] read_text),
     (''topic'', always [''channel_topic''] read_text),
     (''description'', field [''channel_description''] read_text),
     (''order'', always [''channel_order''] (read_id asChannelID)),
     (''hasPassword'', always [''channel_flag_password''] read_bool),
     (''isDefault'', always [''channel_flag_default''] read_bool),
     (''isPermanent'', always [''channel_flag_permanent''] read_bool),
     (''isSemiPermanent'', always [''channel_flag_semi_permanent''] read_bool),
     (''codec'', always [''channel_codec''] read_num),
     (''codecQuality'', always [''channel_codec_quality''] read_num),
     (''maxClients'', always [''channel_maxclients''] read_num),
     (''maxFamilyClients'', always [''channel_maxfamilyclients''] read_num),
     (''totalClients'', always [''total_clients''] read_opt_num),
     (''totalFamilyClients'', always [''total_clients_family''] read_opt_num),
     (''neededSubscribePower'', always [''channel_needed_subscribe_power''] read_opt_num),
     (''neededTalkPower'', always [''channel_needed_talk_power''] read_num),
     (''iconID'', always [''channel_icon_id''] read_icon),
     (''uid'', always [''channel_unique_identifier''] read_text),
     (''codecLatencyFactor'', field [''channel_codec_latency_factor''] read_num),
     (''isUnencrypted'', field [''channel_codec_is_unencrypted''] read_bool),
     (''isMaxClientsUnlimited'', field [''channel_flag_maxclients_unlimited''] read_bool),
     (''isMaxFamilyClientsUnlimited'', field [''channel_flag_maxfamilyclients_unlimited''] read_bool),
     (''isMaxFamilyClientsInherited'', field [''channel_flag_maxfamilyclients_inherited''] read_bool),
     (''deleteDelayMs'', field [''channel_delete_delay''] (read_duration SECOND)),
     (''namePhonetic'', field [''channel_name_phonetic''] read_text),
     (''isForcedSilence'', field [''channel_forced_silence''] read_bool),
     (''bannerURL'', field [''channel_banner_gfx_url''] read_text),
     (''bannerMode'', field [''channel_banner_mode''] read_num),
     (''emptyForMs'', field [''seconds_empty''] read_empty_for),
     (''storageQuota'', field [''channel_storage_quota''] read_num),
     (''filePath'', field [''channel_filepath''] read_text)]"

text \<open>A client record, and a channel record as the row gives it: an id and the other fields.\<close>

record entry =
  en_id :: int
  en_fields :: field_map

definition parseClient :: "params \<Rightarrow> js_error + entry" where
  "parseClient row =
     bind_result (asClientID (IntegralNumber (uint row ''clid'' U16))) (\<lambda>i.
       bind_result (readFields clientFields row False) (\<lambda>f. Inr \<lparr>en_id = i, en_fields = f\<rparr>))"

definition parseClientChanges :: "params \<Rightarrow> js_error + field_map" where
  "parseClientChanges row = readFields clientFields row True"

definition parseChannel :: "params \<Rightarrow> js_error + entry" where
  "parseChannel row =
     bind_result (asChannelID (BigInt (big row ''cid''))) (\<lambda>i.
       bind_result (readFields channelFields row False) (\<lambda>f. Inr \<lparr>en_id = i, en_fields = f\<rparr>))"

definition parseChannelChanges :: "params \<Rightarrow> js_error + field_map" where
  "parseChannelChanges row = readFields channelFields row True"

text \<open>A change whose value is \<open>undefined\<close> deletes the key; the id is not among the changes.\<close>

definition applyClientChanges :: "entry \<Rightarrow> field_map \<Rightarrow> entry" where
  "applyClientChanges e changes =
     e\<lparr>en_fields := (\<lambda>k. case changes k of
                          None \<Rightarrow> en_fields e k
                        | Some None \<Rightarrow> None
                        | Some (Some v) \<Rightarrow> Some (Some v))\<rparr>"

section \<open>Reading never throws\<close>

lemma MAX_UINT64_nonneg: "0 \<le> MAX_UINT64"
  by (simp add: MAX_UINT64_def)

lemma big_range: "0 \<le> big row key \<and> big row key \<le> MAX_UINT64"
  by (auto simp: big_def Let_def MAX_UINT64_nonneg split: option.splits)

lemma uint64_accepts: "0 \<le> i \<Longrightarrow> i \<le> MAX_UINT64 \<Longrightarrow> uint64 (BigInt i) what = Inr i"
  by simp

lemma uint_range: "0 \<le> mx \<Longrightarrow> 0 \<le> uint row key mx \<and> uint row key mx \<le> mx"
  by (auto simp: uint_def floor_le_iff le_floor_iff split: js_number.splits)

lemma parseServerGroups_total: "\<exists>l. parseServerGroups raw = Inr l \<and> (\<forall>i\<in>set l. 0 \<le> i \<and> i \<le> MAX_UINT64)"
proof -
  have "map_result (\<lambda>i. asServerGroupID (BigInt i)) l = Inr l"
    if "\<forall>i\<in>set l. 0 \<le> i \<and> i \<le> MAX_UINT64" for l
    using that by (auto simp: map_result_Inr_iff list_all2_same asServerGroupID_def not_less)
  moreover have "\<forall>i\<in>set (List.map_filter server_group_id ps). 0 \<le> i \<and> i \<le> MAX_UINT64" for ps
    by (auto simp: List.map_filter_def server_group_id_def MAX_UINT64_def split: if_splits)
  ultimately show ?thesis by (auto simp: parseServerGroups_def)
qed

text \<open>A reader that throws for no row, and what it reads, if it is an id, in the range of ids.\<close>

fun value_ok :: "field_value \<Rightarrow> bool" where
  "value_ok (VId i) = (0 \<le> i \<and> i \<le> MAX_UINT64)"
| "value_ok (VGroups l) = (\<forall>i\<in>set l. 0 \<le> i \<and> i \<le> MAX_UINT64)"
| "value_ok _ = True"

definition total_reader :: "(params \<Rightarrow> string \<Rightarrow> js_error + field_value option) \<Rightarrow> bool" where
  "total_reader read \<longleftrightarrow> (\<forall>row key. \<exists>v. read row key = Inr v \<and> (\<forall>x. v = Some x \<longrightarrow> value_ok x))"

named_theorems readers_total \<open>the readers that throw for no row\<close>

lemma plain_readers_total [readers_total]:
  "total_reader read_text" "total_reader read_num" "total_reader read_opt_num" "total_reader read_bool"
  "total_reader read_date" "total_reader (read_duration u)" "total_reader read_empty_for"
  by (auto simp: total_reader_def read_text_def read_num_def read_opt_num_def read_bool_def
      read_date_def read_duration_def read_empty_for_def)

lemma icon_reader_ok [readers_total]: "total_reader read_icon"
  using parseIconID_range
  by (fastforce simp: total_reader_def read_icon_def icon_def MAX_UINT64_def)

lemma id_reader_ok [readers_total]:
  "total_reader (read_id asChannelID)" "total_reader (read_id asChannelGroupID)" "total_reader (read_id asClientDBID)"
  using big_range
  by (auto simp: total_reader_def read_id_def asChannelID_def asChannelGroupID_def asClientDBID_def
      uint64_accepts simp del: uint64.simps)

lemma groups_reader_ok [readers_total]: "total_reader read_groups"
  unfolding total_reader_def read_groups_def
  by (metis bind_result_simps(2) option.inject parseServerGroups_total value_ok.simps(2))

lemma parent_reader_ok [readers_total]: "total_reader read_parent"
  using big_range
  by (auto simp: total_reader_def read_parent_def asChannelID_def uint64_accepts simp del: uint64.simps)

definition table_ok :: "field_table \<Rightarrow> bool" where
  "table_ok table \<longleftrightarrow> distinct (map fst table) \<and>
     (\<forall>(name, spec)\<in>set table. total_reader (fs_read spec) \<and> fs_keys spec \<noteq> [])"

lemma field_simps_spec [simp]:
  "fs_keys (field ks r) = ks" "fs_read (field ks r) = r" "\<not> fs_always (field ks r)"
  "fs_keys (always ks r) = ks" "fs_read (always ks r) = r" "fs_always (always ks r)"
  by (simp_all add: field_def always_def)

lemma client_names: "distinct (map fst clientFields)"
  unfolding clientFields_def list.map fst_conv by code_simp

lemma channel_names: "distinct (map fst channelFields)"
  unfolding channelFields_def list.map fst_conv by code_simp

lemma table_ok_iff:
  "table_ok table \<longleftrightarrow> distinct (map fst table) \<and>
     list_all (\<lambda>(_, spec). total_reader (fs_read spec) \<and> fs_keys spec \<noteq> []) table"
  by (simp add: table_ok_def list_all_iff)

lemma client_table_ok: "table_ok clientFields"
  unfolding table_ok_iff
  by (rule conjI[OF client_names]) (simp add: clientFields_def readers_total)

lemma channel_table_ok: "table_ok channelFields"
  unfolding table_ok_iff
  by (rule conjI[OF channel_names]) (simp add: channelFields_def readers_total)

definition fields_ok :: "field_map \<Rightarrow> bool" where
  "fields_ok f \<longleftrightarrow> (\<forall>k x. f k = Some (Some x) \<longrightarrow> value_ok x)"

lemma read_field_total:
  assumes "total_reader (fs_read spec)"
  shows "\<exists>v. read_field only row spec = Inr v \<and> (\<forall>x. v = Some (Some x) \<longrightarrow> value_ok x)"
proof (cases "find (\<lambda>k. row k \<noteq> None) (fs_keys spec)")
  case None
  obtain v where "fs_read spec row (hd (fs_keys spec)) = Inr v" "\<forall>x. v = Some x \<longrightarrow> value_ok x"
    using assms unfolding total_reader_def by blast
  with None show ?thesis by (simp add: read_field_def)
next
  case (Some key)
  obtain v where "fs_read spec row key = Inr v" "\<forall>x. v = Some x \<longrightarrow> value_ok x"
    using assms unfolding total_reader_def by blast
  with Some show ?thesis by (simp add: read_field_def)
qed

lemma readFields_total:
  assumes "table_ok table"
  shows "\<exists>f. readFields table row only = Inr f \<and> fields_ok f"
  using assms
proof (induction table)
  case Nil
  show ?case by (simp add: fields_ok_def)
next
  case (Cons e table)
  obtain name spec where e: "e = (name, spec)" by force
  with Cons.prems have "total_reader (fs_read spec)" "table_ok table" by (auto simp: table_ok_def)
  with Cons.IH read_field_total obtain v f where
    "read_field only row spec = Inr v" "\<forall>x. v = Some (Some x) \<longrightarrow> value_ok x"
    "readFields table row only = Inr f" "fields_ok f" by blast
  with e show ?case by (auto simp: fields_ok_def)
qed

lemma parseClient_total:
  "\<exists>e. parseClient row = Inr e \<and> 0 \<le> en_id e \<and> en_id e \<le> 65535 \<and> fields_ok (en_fields e)"
proof -
  obtain f where "readFields clientFields row False = Inr f" "fields_ok f"
    using readFields_total[OF client_table_ok] by blast
  then show ?thesis
    using uint_range[of U16 row "''clid''"]
    by (simp add: parseClient_def asClientID_def MAX_UINT16_def U16_def not_less)
qed

lemma parseChannel_total:
  "\<exists>e. parseChannel row = Inr e \<and> 0 \<le> en_id e \<and> en_id e \<le> MAX_UINT64 \<and> fields_ok (en_fields e)"
proof -
  obtain f where "readFields channelFields row False = Inr f" "fields_ok f"
    using readFields_total[OF channel_table_ok] by blast
  then show ?thesis
    using big_range[of row "''cid''"]
    by (simp add: parseChannel_def asChannelID_def uint64_accepts del: uint64.simps)
qed

section \<open>What a record and a change hold\<close>

text \<open>The field of a name, whatever its place in the table.\<close>

lemma readFields_at:
  assumes "distinct (map fst table)" "readFields table row only = Inr f" "(name, spec) \<in> set table"
  shows "read_field only row spec = Inr (f name)"
  using assms
proof (induction table arbitrary: f)
  case (Cons e table)
  then show ?case
    by (cases e) (force simp: bind_result_Inr_iff)
qed simp

lemma readFields_outside:
  assumes "readFields table row only = Inr f" "name \<notin> fst ` set table"
  shows "f name = None"
  using assms
proof (induction table arbitrary: f)
  case (Cons e table)
  then show ?case by (cases e) (auto simp: bind_result_Inr_iff)
qed simp

text \<open>A change holds exactly the fields one of whose keys the row has.\<close>

definition named_in :: "params \<Rightarrow> field_spec \<Rightarrow> bool" where
  "named_in row spec \<longleftrightarrow> (\<exists>k\<in>set (fs_keys spec). row k \<noteq> None)"

lemma find_named: "find (\<lambda>k. row k \<noteq> None) (fs_keys spec) = None \<longleftrightarrow> \<not> named_in row spec"
  by (auto simp: named_in_def find_None_iff)

lemma read_present:
  assumes "read_field True row spec = Inr v"
  shows "v \<noteq> None \<longleftrightarrow> named_in row spec"
proof (cases "find (\<lambda>k. row k \<noteq> None) (fs_keys spec)")
  case None
  then have "v = None" using assms by (simp add: read_field_def)
  moreover have "\<not> named_in row spec" using find_named[THEN iffD1, OF None] .
  ultimately show ?thesis by simp
next
  case (Some key)
  have "v \<noteq> None" using assms unfolding read_field_def Let_def Some option.case bind_result_Inr_iff
    by auto
  moreover have "named_in row spec" using Some find_named[of row spec] by (metis option.distinct(1))
  ultimately show ?thesis by simp
qed

lemma changes_exact:
  assumes "table_ok table" "readFields table row True = Inr f"
  shows "dom f = {name. \<exists>spec. (name, spec) \<in> set table \<and> named_in row spec}"
proof -
  have d: "distinct (map fst table)" using assms(1) by (simp add: table_ok_def)
  have at: "f name \<noteq> None \<longleftrightarrow> named_in row spec" if "(name, spec) \<in> set table" for name spec
    using readFields_at[OF d assms(2) that] by (rule read_present)
  have "\<exists>spec. (name, spec) \<in> set table" if "f name \<noteq> None" for name
    using readFields_outside[OF assms(2)] that by force
  with at show ?thesis unfolding dom_def by blast
qed

section \<open>A change applied is the changed row read again\<close>

text \<open>
  A reader that looks at its key alone, and one that never reads \<open>undefined\<close>: with these, reading
  a row changed by an update gives the record with the update's changes applied.
\<close>

definition local_reader :: "(params \<Rightarrow> string \<Rightarrow> js_error + field_value option) \<Rightarrow> bool" where
  "local_reader read \<longleftrightarrow> (\<forall>row row' key. row key = row' key \<longrightarrow> read row key = read row' key)"

definition definite :: "(params \<Rightarrow> string \<Rightarrow> js_error + field_value option) \<Rightarrow> bool" where
  "definite read \<longleftrightarrow> (\<forall>row key. read row key \<noteq> Inr None)"

definition mergeable :: "field_spec \<Rightarrow> bool" where
  "mergeable spec \<longleftrightarrow> local_reader (fs_read spec) \<and> (fs_always spec \<longrightarrow> definite (fs_read spec))"

text \<open>The update names the field by the key that the changed row would be read by.\<close>

definition same_key :: "params \<Rightarrow> params \<Rightarrow> field_spec \<Rightarrow> bool" where
  "same_key old upd spec \<longleftrightarrow>
     (named_in upd spec \<longrightarrow>
        find (\<lambda>k. (old ++ upd) k \<noteq> None) (fs_keys spec) = find (\<lambda>k. upd k \<noteq> None) (fs_keys spec))"

definition merged :: "field_value option option \<Rightarrow> field_value option option \<Rightarrow> field_value option option" where
  "merged old change = (case change of None \<Rightarrow> old | Some None \<Rightarrow> None | Some (Some v) \<Rightarrow> Some (Some v))"

lemma read_field_merged:
  assumes m: "mergeable spec" "same_key old upd spec" "fs_keys spec \<noteq> []"
    and r: "read_field False old spec = Inr v1" "read_field True upd spec = Inr c"
      "read_field False (old ++ upd) spec = Inr v"
  shows "v = merged v1 c"
proof (cases "named_in upd spec")
  case True
  then obtain key where key: "find (\<lambda>k. upd k \<noteq> None) (fs_keys spec) = Some key"
    using find_named[of upd spec] by (metis not_None_eq)
  then have "upd key \<noteq> None" by (auto simp: find_Some_iff)
  then have same: "(old ++ upd) key = upd key" by (auto simp: map_add_def)
  have key': "find (\<lambda>k. (old ++ upd) k \<noteq> None) (fs_keys spec) = Some key"
    using m(2) True key by (simp only: same_key_def simp_thms)
  obtain x where x: "fs_read spec upd key = Inr x" "c = Some x"
    using r(2) unfolding read_field_def Let_def key option.case bind_result_Inr_iff by auto
  have "fs_read spec (old ++ upd) key = Inr x"
    using m(1) same x(1) unfolding mergeable_def local_reader_def by metis
  then have v: "v = (if x \<noteq> None \<or> fs_always spec then Some x else None)"
    using r(3) unfolding read_field_def Let_def key' option.case bind_result_Inr_iff by auto
  have "fs_always spec \<Longrightarrow> x \<noteq> None"
    using m(1) x(1) unfolding mergeable_def definite_def by metis
  with v x(2) show ?thesis by (auto simp: merged_def split: option.splits)
next
  case False
  have c: "c = None"
    using read_present[OF r(2)] False by blast
  have same: "(old ++ upd) k = old k" if "k \<in> set (fs_keys spec)" for k
    using False that by (auto simp: named_in_def map_add_def)
  have f: "find (\<lambda>k. (old ++ upd) k \<noteq> None) (fs_keys spec) = find (\<lambda>k. old k \<noteq> None) (fs_keys spec)"
    by (rule find_cong) (simp_all only: same)
  have "fs_read spec (old ++ upd) k = fs_read spec old k" if "k \<in> set (fs_keys spec)" for k
    using m(1) same[OF that] unfolding mergeable_def local_reader_def by metis
  moreover have "k \<in> set (fs_keys spec)" if "find (\<lambda>k. old k \<noteq> None) (fs_keys spec) = Some k" for k
    using that by (auto simp: find_Some_iff)
  moreover have "hd (fs_keys spec) \<in> set (fs_keys spec)" using m(3) by simp
  ultimately have "read_field False (old ++ upd) spec = read_field False old spec"
    unfolding read_field_def Let_def f by (metis (no_types, lifting) option.case_eq_if option.collapse)
  with r c show ?thesis by (simp add: merged_def)
qed

lemma readFields_merged:
  assumes t: "distinct (map fst table)"
      "\<forall>(name, spec)\<in>set table. mergeable spec \<and> fs_keys spec \<noteq> [] \<and> same_key old upd spec"
    and r: "readFields table old False = Inr f1" "readFields table upd True = Inr c"
      "readFields table (old ++ upd) False = Inr f"
  shows "f = (\<lambda>name. merged (f1 name) (c name))"
proof
  fix name
  show "f name = merged (f1 name) (c name)"
  proof (cases "name \<in> fst ` set table")
    case True
    then obtain spec where s: "(name, spec) \<in> set table" by force
    with t(2) have "mergeable spec" "same_key old upd spec" "fs_keys spec \<noteq> []" by auto
    then show ?thesis
      by (rule read_field_merged[OF _ _ _ readFields_at[OF t(1) r(1) s] readFields_at[OF t(1) r(2) s]
            readFields_at[OF t(1) r(3) s]])
  next
    case False
    then have "f1 name = None" "c name = None" "f name = None"
      using r by (auto intro: readFields_outside)
    then show ?thesis by (simp add: merged_def)
  qed
qed

lemma local_readers:
  "local_reader read_text" "local_reader read_num" "local_reader read_bool" "local_reader read_date"
  "local_reader (read_duration u)" "local_reader read_icon" "local_reader (read_id as)"
  "local_reader read_groups"
  by (simp_all add: local_reader_def read_text_def read_num_def read_bool_def read_date_def
      read_duration_def read_icon_def read_id_def read_groups_def str_def num_def bool_def date_def
      durationMs_def icon_def big_def)

lemma definite_readers:
  "definite read_text" "definite read_num" "definite (read_id as)"
  by (simp_all add: definite_def read_text_def read_num_def read_id_def bind_result_Inr_iff)

lemma client_table_mergeable:
  "list_all (\<lambda>(name, spec). mergeable spec \<and> fs_keys spec \<noteq> []) clientFields"
  by (simp add: clientFields_def mergeable_def local_readers definite_readers)

lemma same_key_single: "fs_keys spec = [k] \<Longrightarrow> same_key old upd spec"
  by (auto simp: same_key_def named_in_def map_add_def split: option.splits)

lemma client_keys:
  "list_all (\<lambda>(name, spec). (\<exists>k. fs_keys spec = [k]) \<or> fs_keys spec = [''cid'', ''ctid'']) clientFields"
  by (simp add: clientFields_def)

text \<open>
  An update names its channel, if it does, by \<open>cid\<close>, or by \<open>ctid\<close> where the row it updates has no
  \<open>cid\<close>; then the record of the updated row is the record with the changes applied.
\<close>

definition channel_key_ok :: "params \<Rightarrow> params \<Rightarrow> bool" where
  "channel_key_ok old upd \<longleftrightarrow> upd ''ctid'' = None \<or> upd ''cid'' \<noteq> None \<or> old ''cid'' = None"

lemma client_change_reread:
  assumes "channel_key_ok old upd" "parseClient old = Inr e" "parseClientChanges upd = Inr c"
    and "parseClient (old ++ upd) = Inr e'"
  shows "en_fields e' = en_fields (applyClientChanges e c)"
proof -
  have f: "readFields clientFields old False = Inr (en_fields e)"
    "readFields clientFields (old ++ upd) False = Inr (en_fields e')"
    using assms(2,4) by (auto simp: parseClient_def bind_result_Inr_iff)
  have k: "same_key old upd spec" if "(name, spec) \<in> set clientFields" for name spec
  proof -
    have "(\<exists>k. fs_keys spec = [k]) \<or> fs_keys spec = [''cid'', ''ctid'']"
      using client_keys that by (auto simp: list_all_iff)
    then show ?thesis
      using assms(1) by (auto simp: same_key_single same_key_def channel_key_ok_def named_in_def map_add_def
          split: option.splits)
  qed
  have "\<forall>(name, spec)\<in>set clientFields. mergeable spec \<and> fs_keys spec \<noteq> [] \<and> same_key old upd spec"
    using client_table_mergeable k by (auto simp: list_all_iff)
  from readFields_merged[OF client_names this f(1) assms(3)[unfolded parseClientChanges_def] f(2)]
  show ?thesis by (simp add: applyClientChanges_def merged_def)
qed

end
