(* ===== verification/Notifications.thy ===== *)
theory Notifications
  imports Api_Fields Command_Codec
begin

text \<open>
  The notifications a server pushes, read as events, \<open>src/core/notifications.ts\<close>. The clients the
  caller knows are a Map it passes in: the voice client's Roster, which counts its changes, or a
  plain Map. So its operations are an argument here, and what the notifications do to it is
  proved from the laws of a map.
\<close>

section \<open>The clients, and the events\<close>

record 's client_map =
  cm_get :: "'s \<Rightarrow> int \<Rightarrow> entry option"
  cm_set :: "int \<Rightarrow> entry \<Rightarrow> 's \<Rightarrow> 's"
  cm_delete :: "int \<Rightarrow> 's \<Rightarrow> 's"

record invoked =
  iv_id :: int
  iv_name :: string
  iv_uid :: string

record leave_event =
  lv_client :: int
  lv_from :: "int option"
  lv_target :: "int option"
  lv_reason :: js_number
  lv_message :: string
  lv_by :: invoked

record move_event =
  mv_client :: int
  mv_target :: int
  mv_from :: "int option"
  mv_reason :: js_number
  mv_message :: string
  mv_by :: invoked

record text_event =
  tx_mode :: js_number
  tx_target :: int
  tx_by :: invoked
  tx_message :: string
  tx_groups :: "int list option"

record group_event =
  gm_group :: int
  gm_client :: int
  gm_nickname :: string
  gm_uid :: string
  gm_by :: invoked

datatype notification_result =
    ClientEnter entry "int option" "js_number option"
  | ClientLeave leave_event bool
  | ClientMoved move_event
  | TextMessage text_event
  | Poked invoked string
  | ClientUpdated int field_map invoked
  | ServerGroupMember bool group_event
  | ChannelGroupChanged int int int int invoked
  | ChannelCreated int int field_map invoked
  | ChannelEdited int js_number field_map invoked
  | ChannelMoved int int int js_number invoked
  | ChannelDeleted int invoked
  | ChannelDescriptionChanged int
  | ChannelPasswordChanged int
  | ServerEdited params invoked
  | ChannelSubscribed int
  | ChannelUnsubscribed int
  | PluginCommand string string invoked
  | ChatComposing int string
  | ChatClosed int string
  | UnknownNotification

definition Reason_KickChannel :: js_number where "Reason_KickChannel = Finite 4"
definition Reason_KickServer :: js_number where "Reason_KickServer = Finite 5"
definition Reason_KickServerBan :: js_number where "Reason_KickServerBan = Finite 6"
definition Reason_ChannelUpdate :: js_number where "Reason_ChannelUpdate = Finite 9"

section \<open>Reading parameters\<close>

definition client_of :: "params \<Rightarrow> string \<Rightarrow> js_error + int" where
  "client_of row key = asClientID (IntegralNumber (parseUint16 (str row key)))"

definition channelIDOf :: "params \<Rightarrow> string \<Rightarrow> js_error + int" where
  "channelIDOf row key = asChannelID (BigInt (int (parseUint64 (str row key))))"

definition channelOf :: "params \<Rightarrow> string \<Rightarrow> js_error + int option" where
  "channelOf row key =
     (if row key = None then Inr None
      else bind_result (channelIDOf row key) (\<lambda>i. Inr (Some i)))"

definition reason_of :: "params \<Rightarrow> js_number" where
  "reason_of row = parseInt10 (str row ''reasonid'')"

definition invoked :: "params \<Rightarrow> js_error + invoked" where
  "invoked row =
     bind_result (client_of row ''invokerid'') (\<lambda>i.
       Inr \<lparr>iv_id = i, iv_name = str row ''invokername'', iv_uid = str row ''invokeruid''\<rparr>)"

text \<open>Fields of a known client.\<close>

definition entry_channel :: "entry \<Rightarrow> int option" where
  "entry_channel e = (case en_fields e ''channelID'' of Some (Some (VId c)) \<Rightarrow> Some c | _ \<Rightarrow> None)"

definition entry_uid :: "entry \<Rightarrow> string option" where
  "entry_uid e = (case en_fields e ''uid'' of Some (Some (VText t)) \<Rightarrow> Some t | _ \<Rightarrow> None)"

definition entry_groups :: "entry \<Rightarrow> int list option" where
  "entry_groups e = (case en_fields e ''serverGroups'' of Some (Some (VGroups l)) \<Rightarrow> Some l | _ \<Rightarrow> None)"

definition put_field :: "string \<Rightarrow> field_value \<Rightarrow> entry \<Rightarrow> entry" where
  "put_field k v e = e\<lparr>en_fields := (en_fields e)(k \<mapsto> Some v)\<rparr>"

section \<open>The handlers\<close>

type_synonym 's handled = "js_error + notification_result \<times> 's"

definition handleClientEnterView :: "'s client_map \<Rightarrow> params \<Rightarrow> 's \<Rightarrow> 's handled" where
  "handleClientEnterView cm row s =
     bind_result (parseClient row) (\<lambda>info.
       if en_id info = 0 then Inr (UnknownNotification, s)
       else let s' = cm_set cm (en_id info) info s
            in bind_result (channelOf row ''cfid'') (\<lambda>from_id.
                 Inr (ClientEnter info from_id
                        (if row ''reasonid'' = None then None else Some (reason_of row)), s')))"

definition handleClientLeftView :: "'s client_map \<Rightarrow> params \<Rightarrow> int \<Rightarrow> 's \<Rightarrow> 's handled" where
  "handleClientLeftView cm row selfCLID s =
     bind_result (client_of row ''clid'') (\<lambda>clid.
       if clid = 0 then Inr (UnknownNotification, s)
       else let s' = cm_delete cm clid s
            in bind_result (channelOf row ''cfid'') (\<lambda>from_id.
               bind_result (channelOf row ''ctid'') (\<lambda>target.
               bind_result (invoked row) (\<lambda>by_whom.
                 Inr (ClientLeave \<lparr>lv_client = clid, lv_from = from_id, lv_target = target,
                        lv_reason = reason_of row, lv_message = str row ''reasonmsg'', lv_by = by_whom\<rparr>
                        (clid = selfCLID), s')))))"

definition handleClientMoved :: "'s client_map \<Rightarrow> params \<Rightarrow> 's \<Rightarrow> 's handled" where
  "handleClientMoved cm row s =
     bind_result (client_of row ''clid'') (\<lambda>clid.
     bind_result (channelIDOf row ''ctid'') (\<lambda>ctid.
       if clid = 0 then Inr (UnknownNotification, s)
       else let existing = cm_get cm s clid;
                s' = (case existing of
                        None \<Rightarrow> s
                      | Some e \<Rightarrow> cm_set cm clid (put_field ''channelID'' (VId ctid) e) s);
                held = (if row ''cfid'' = None then Option.bind existing entry_channel else None)
            in bind_result (channelOf row ''cfid'') (\<lambda>cfid.
               bind_result (invoked row) (\<lambda>by_whom.
                 Inr (ClientMoved \<lparr>mv_client = clid, mv_target = ctid,
                        mv_from = (if held = None then cfid else held), mv_reason = reason_of row,
                        mv_message = str row ''reasonmsg'', mv_by = by_whom\<rparr>, s')))))"

definition handleTextMessage :: "'s client_map \<Rightarrow> params \<Rightarrow> 's \<Rightarrow> 's handled" where
  "handleTextMessage cm row s =
     bind_result (client_of row ''invokerid'') (\<lambda>invokerID.
     bind_result (client_of row ''target'') (\<lambda>target.
       let info = cm_get cm s invokerID;
           uid = (case row ''invokeruid'' of
                    Some u \<Rightarrow> u
                  | None \<Rightarrow> (case Option.bind info entry_uid of Some u \<Rightarrow> u | None \<Rightarrow> []))
       in Inr (TextMessage \<lparr>tx_mode = parseInt10 (str row ''targetmode''), tx_target = target,
                 tx_by = \<lparr>iv_id = invokerID, iv_name = str row ''invokername'', iv_uid = uid\<rparr>,
                 tx_message = str row ''msg'', tx_groups = Option.bind info entry_groups\<rparr>, s)))"

definition handleClientPoked :: "params \<Rightarrow> 's \<Rightarrow> 's handled" where
  "handleClientPoked row s =
     bind_result (invoked row) (\<lambda>by_whom. Inr (Poked by_whom (str row ''msg''), s))"

definition handleClientUpdated :: "'s client_map \<Rightarrow> params \<Rightarrow> 's \<Rightarrow> 's handled" where
  "handleClientUpdated cm row s =
     bind_result (client_of row ''clid'') (\<lambda>clid.
       if clid = 0 then Inr (UnknownNotification, s)
       else bind_result (parseClientChanges row) (\<lambda>changes.
         let s' = (case cm_get cm s clid of
                     None \<Rightarrow> s
                   | Some e \<Rightarrow> cm_set cm clid (applyClientChanges e changes) s)
         in bind_result (invoked row) (\<lambda>by_whom. Inr (ClientUpdated clid changes by_whom, s'))))"

definition handleServerGroupMember :: "params \<Rightarrow> bool \<Rightarrow> 's \<Rightarrow> 's handled" where
  "handleServerGroupMember row added s =
     bind_result (client_of row ''clid'') (\<lambda>clid.
       if clid = 0 then Inr (UnknownNotification, s)
       else bind_result (asServerGroupID (BigInt (int (parseUint64 (str row ''sgid''))))) (\<lambda>sgid.
            bind_result (invoked row) (\<lambda>by_whom.
              Inr (ServerGroupMember added \<lparr>gm_group = sgid, gm_client = clid,
                     gm_nickname = str row ''name'', gm_uid = str row ''cluid'', gm_by = by_whom\<rparr>, s))))"

definition handleClientChannelGroupChanged :: "'s client_map \<Rightarrow> params \<Rightarrow> 's \<Rightarrow> 's handled" where
  "handleClientChannelGroupChanged cm row s =
     bind_result (client_of row ''clid'') (\<lambda>clid.
       if clid = 0 then Inr (UnknownNotification, s)
       else bind_result (channelIDOf row ''cid'') (\<lambda>channelID.
            bind_result (asChannelGroupID (BigInt (int (parseUint64 (str row ''cgid''))))) (\<lambda>cgid.
            bind_result (channelIDOf row ''cgi'') (\<lambda>inherited.
            let s' = (case cm_get cm s clid of
                        None \<Rightarrow> s
                      | Some e \<Rightarrow>
                          if entry_channel e = Some channelID
                          then cm_set cm clid
                                 (put_field ''channelGroupInheritedChannelID'' (VId inherited)
                                    (put_field ''channelGroupID'' (VId cgid) e)) s
                          else s)
            in bind_result (invoked row) (\<lambda>by_whom.
                 Inr (ChannelGroupChanged clid channelID cgid inherited by_whom, s'))))))"

text \<open>The notifications about channels and the server change no client.\<close>

definition channelNotification ::
  "params \<Rightarrow> (int \<Rightarrow> js_error + notification_result) \<Rightarrow> 's \<Rightarrow> 's handled" where
  "channelNotification row event s =
     bind_result (channelIDOf row ''cid'') (\<lambda>channelID.
       if channelID = 0 then Inr (UnknownNotification, s)
       else bind_result (event channelID) (\<lambda>r. Inr (r, s)))"

definition channel_created :: "params \<Rightarrow> int \<Rightarrow> js_error + notification_result" where
  "channel_created row channelID =
     bind_result (channelIDOf row ''cpid'') (\<lambda>parent.
     bind_result (parseChannelChanges row) (\<lambda>changes.
     bind_result (invoked row) (\<lambda>by_whom. Inr (ChannelCreated channelID parent changes by_whom))))"

definition channel_edited :: "params \<Rightarrow> int \<Rightarrow> js_error + notification_result" where
  "channel_edited row channelID =
     (if reason_of row = Reason_ChannelUpdate \<and> row ''invokerid'' = None then Inr UnknownNotification
      else bind_result (parseChannelChanges row) (\<lambda>changes.
           bind_result (invoked row) (\<lambda>by_whom.
             Inr (ChannelEdited channelID (reason_of row) changes by_whom))))"

definition channel_moved :: "params \<Rightarrow> int \<Rightarrow> js_error + notification_result" where
  "channel_moved row channelID =
     bind_result (channelIDOf row ''cpid'') (\<lambda>parent.
     bind_result (channelIDOf row ''order'') (\<lambda>order.
     bind_result (invoked row) (\<lambda>by_whom.
       Inr (ChannelMoved channelID parent order (reason_of row) by_whom))))"

definition channel_deleted :: "params \<Rightarrow> int \<Rightarrow> js_error + notification_result" where
  "channel_deleted row channelID =
     bind_result (invoked row) (\<lambda>by_whom. Inr (ChannelDeleted channelID by_whom))"

definition server_keys :: "params \<Rightarrow> params" where
  "server_keys row = (\<lambda>k. if take 14 k = ''virtualserver_'' then row k else None)"

definition handleServerEdited :: "params \<Rightarrow> 's \<Rightarrow> 's handled" where
  "handleServerEdited row s =
     bind_result (invoked row) (\<lambda>by_whom. Inr (ServerEdited (server_keys row) by_whom, s))"

definition handleChat :: "(int \<Rightarrow> string \<Rightarrow> notification_result) \<Rightarrow> params \<Rightarrow> 's \<Rightarrow> 's handled" where
  "handleChat event row s =
     bind_result (client_of row ''clid'') (\<lambda>clid.
       Inr (if clid = 0 then UnknownNotification else event clid (str row ''cluid''), s))"

definition plugin_command :: "params \<Rightarrow> 's \<Rightarrow> 's handled" where
  "plugin_command row s =
     bind_result (invoked row) (\<lambda>by_whom.
       Inr (PluginCommand (str row ''name'') (str row ''data'') by_whom, s))"

definition handleNotification :: "'s client_map \<Rightarrow> command \<Rightarrow> int \<Rightarrow> 's \<Rightarrow> 's handled" where
  "handleNotification cm cmd selfCLID s =
     (let row = cmd_params cmd; name = cmd_name cmd
      in if name = ''notifycliententerview'' then handleClientEnterView cm row s
         else if name = ''notifyclientleftview'' then handleClientLeftView cm row selfCLID s
         else if name = ''notifyclientmoved'' then handleClientMoved cm row s
         else if name = ''notifytextmessage'' then handleTextMessage cm row s
         else if name = ''notifyclientpoke'' then handleClientPoked row s
         else if name = ''notifyclientupdated'' then handleClientUpdated cm row s
         else if name = ''notifyservergroupclientadded'' then handleServerGroupMember row True s
         else if name = ''notifyservergroupclientdeleted'' then handleServerGroupMember row False s
         else if name = ''notifyclientchannelgroupchanged'' then handleClientChannelGroupChanged cm row s
         else if name = ''notifychannelcreated'' then channelNotification row (channel_created row) s
         else if name = ''notifychanneledited'' then channelNotification row (channel_edited row) s
         else if name = ''notifychannelmoved'' then channelNotification row (channel_moved row) s
         else if name = ''notifychanneldeleted'' then channelNotification row (channel_deleted row) s
         else if name = ''notifychanneldescriptionchanged''
           then channelNotification row (\<lambda>i. Inr (ChannelDescriptionChanged i)) s
         else if name = ''notifychannelpasswordchanged''
           then channelNotification row (\<lambda>i. Inr (ChannelPasswordChanged i)) s
         else if name = ''notifyserveredited'' then handleServerEdited row s
         else if name = ''notifychannelsubscribed''
           then channelNotification row (\<lambda>i. Inr (ChannelSubscribed i)) s
         else if name = ''notifychannelunsubscribed''
           then channelNotification row (\<lambda>i. Inr (ChannelUnsubscribed i)) s
         else if name = ''notifyplugincmd'' then plugin_command row s
         else if name = ''notifyclientchatcomposing'' then handleChat ChatComposing row s
         else if name = ''notifyclientchatclosed'' then handleChat ChatClosed row s
         else Inr (UnknownNotification, s))"

section \<open>What a notification does to the clients\<close>

text \<open>
  The specification: the clients as a partial function, and the one thing each of the five
  notifications that touch them does. Every other notification leaves them as they are.
\<close>

definition row_client :: "params \<Rightarrow> int" where
  "row_client row = parseUint16 (str row ''clid'')"

definition row_channel :: "params \<Rightarrow> string \<Rightarrow> int" where
  "row_channel row key = int (parseUint64 (str row key))"

definition notified :: "command \<Rightarrow> (int \<rightharpoonup> entry) \<Rightarrow> (int \<rightharpoonup> entry)" where
  "notified cmd known =
     (let row = cmd_params cmd; name = cmd_name cmd; c = row_client row;
          on_known = (\<lambda>f. if c = 0 then known else known(c := map_option f (known c)))
      in if name = ''notifycliententerview'' then
           (case parseClient row of
              Inr e \<Rightarrow> if en_id e = 0 then known else known(en_id e \<mapsto> e)
            | Inl _ \<Rightarrow> known)
         else if name = ''notifyclientleftview'' then (if c = 0 then known else known(c := None))
         else if name = ''notifyclientmoved'' then
           on_known (put_field ''channelID'' (VId (row_channel row ''ctid'')))
         else if name = ''notifyclientupdated'' then
           (case parseClientChanges row of
              Inr changes \<Rightarrow> on_known (\<lambda>e. applyClientChanges e changes)
            | Inl _ \<Rightarrow> known)
         else if name = ''notifyclientchannelgroupchanged'' then
           on_known (\<lambda>e.
             if entry_channel e = Some (row_channel row ''cid'')
             then put_field ''channelGroupInheritedChannelID'' (VId (row_channel row ''cgi''))
                    (put_field ''channelGroupID'' (VId (row_channel row ''cgid'')) e)
             else e)
         else known)"

text \<open>The ids a notification names are always in range, so none of its constructors throws.\<close>

lemma client_of_ok [simp]: "client_of row key = Inr (parseUint16 (str row key))"
  by (simp add: client_of_def)

lemma parseUint64_range: "int (parseUint64 s) \<le> MAX_UINT64"
  by (auto simp: parseUint64_def Let_def MAX_UINT64_def)

lemma channelIDOf_ok [simp]: "channelIDOf row key = Inr (row_channel row key)"
  using parseUint64_range
  by (simp add: channelIDOf_def asChannelID_def row_channel_def uint64_accepts del: uint64.simps)

lemma group_ids_ok [simp]:
  "asServerGroupID (BigInt (int (parseUint64 s))) = Inr (int (parseUint64 s))"
  "asChannelGroupID (BigInt (int (parseUint64 s))) = Inr (int (parseUint64 s))"
  using parseUint64_range
  by (simp_all add: asServerGroupID_def asChannelGroupID_def uint64_accepts del: uint64.simps)

lemma channelOf_ok [simp]: "channelOf row key = Inr (map_option (\<lambda>_. row_channel row key) (row key))"
  by (cases "row key") (simp_all add: channelOf_def)

lemma invoked_ok [simp]:
  "invoked row = Inr \<lparr>iv_id = parseUint16 (str row ''invokerid''), iv_name = str row ''invokername'',
     iv_uid = str row ''invokeruid''\<rparr>"
  by (simp add: invoked_def)

lemma changes_total:
  "\<exists>f. parseClientChanges row = Inr f \<and> fields_ok f" "\<exists>f. parseChannelChanges row = Inr f \<and> fields_ok f"
  using readFields_total[OF client_table_ok] readFields_total[OF channel_table_ok]
  by (simp_all add: parseClientChanges_def parseChannelChanges_def)

text \<open>A handler that changes no client.\<close>

definition inert :: "('s \<Rightarrow> 's handled) \<Rightarrow> bool" where
  "inert h \<longleftrightarrow> (\<forall>s. \<exists>r. h s = Inr (r, s))"

lemma inert_channel:
  assumes "\<exists>r. event (row_channel row ''cid'') = Inr r"
  shows "inert (channelNotification row event)"
  using assms by (auto simp: inert_def channelNotification_def)

lemma inert_handlers:
  "inert (handleTextMessage cm row)" "inert (handleClientPoked row)" "inert (handleServerGroupMember row b)"
  "inert (handleServerEdited row)" "inert (handleChat ev row)" "inert (plugin_command row)"
  by (simp_all add: inert_def handleTextMessage_def Let_def handleClientPoked_def
      handleServerGroupMember_def handleServerEdited_def handleChat_def plugin_command_def)

lemma inert_channels:
  "inert (channelNotification row (channel_created row))"
  "inert (channelNotification row (channel_edited row))"
  "inert (channelNotification row (channel_moved row))"
  "inert (channelNotification row (channel_deleted row))"
  "inert (channelNotification row (\<lambda>i. Inr (f i)))"
  using changes_total(2)[of row]
  by (auto intro!: inert_channel simp: channel_created_def channel_edited_def channel_moved_def
      channel_deleted_def)

section \<open>The laws of a map\<close>

text \<open>
  What the handlers rely on: reading after a change. From it, every notification succeeds and the
  clients it leaves are those of the specification, whatever holds them.
\<close>

locale known_clients =
  fixes cm :: "'s client_map"
  assumes get_set: "cm_get cm (cm_set cm i e s) = (cm_get cm s)(i \<mapsto> e)"
    and get_delete: "cm_get cm (cm_delete cm i s) = (cm_get cm s)(i := None)"
begin

lemma enter_view:
  "\<exists>r s'. handleClientEnterView cm row s = Inr (r, s') \<and>
     cm_get cm s' = (case parseClient row of
       Inr e \<Rightarrow> if en_id e = 0 then cm_get cm s else (cm_get cm s)(en_id e \<mapsto> e) | Inl _ \<Rightarrow> cm_get cm s)"
proof -
  obtain e where "parseClient row = Inr e" using parseClient_total by blast
  then show ?thesis by (simp add: handleClientEnterView_def Let_def get_set)
qed

lemma left_view:
  "\<exists>r s'. handleClientLeftView cm row self s = Inr (r, s') \<and>
     cm_get cm s' = (if row_client row = 0 then cm_get cm s else (cm_get cm s)(row_client row := None))"
  by (simp add: handleClientLeftView_def Let_def get_delete row_client_def)

lemma update_known:
  "cm_get cm (case cm_get cm s c of None \<Rightarrow> s | Some e \<Rightarrow> cm_set cm c (f e) s)
     = (cm_get cm s)(c := map_option f (cm_get cm s c))"
  by (cases "cm_get cm s c") (simp_all add: get_set fun_upd_idem)

lemma moved_view:
  "\<exists>r s'. handleClientMoved cm row s = Inr (r, s') \<and>
     cm_get cm s' = (if row_client row = 0 then cm_get cm s
       else (cm_get cm s)(row_client row := map_option (put_field ''channelID'' (VId (row_channel row ''ctid'')))
               (cm_get cm s (row_client row))))"
  by (simp add: handleClientMoved_def Let_def update_known row_client_def)

lemma updated_view:
  "\<exists>r s'. handleClientUpdated cm row s = Inr (r, s') \<and>
     cm_get cm s' = (case parseClientChanges row of
       Inr changes \<Rightarrow> if row_client row = 0 then cm_get cm s
         else (cm_get cm s)(row_client row := map_option (\<lambda>e. applyClientChanges e changes)
                 (cm_get cm s (row_client row)))
     | Inl _ \<Rightarrow> cm_get cm s)"
proof -
  obtain f where "parseClientChanges row = Inr f" using changes_total(1) by blast
  then show ?thesis by (simp add: handleClientUpdated_def Let_def update_known row_client_def)
qed

lemma group_changed_view:
  "\<exists>r s'. handleClientChannelGroupChanged cm row s = Inr (r, s') \<and>
     cm_get cm s' = (if row_client row = 0 then cm_get cm s
       else (cm_get cm s)(row_client row := map_option (\<lambda>e.
             if entry_channel e = Some (row_channel row ''cid'')
             then put_field ''channelGroupInheritedChannelID'' (VId (row_channel row ''cgi''))
                    (put_field ''channelGroupID'' (VId (row_channel row ''cgid'')) e)
             else e) (cm_get cm s (row_client row))))"
  by (cases "cm_get cm s (row_client row)")
    (simp_all add: handleClientChannelGroupChanged_def Let_def get_set row_client_def
      row_channel_def[of _ "''cgid''"] fun_upd_idem)

end

text \<open>The notifications that touch the clients, by name, and the others.\<close>

definition roster_names :: "string set" where
  "roster_names = {''notifycliententerview'', ''notifyclientleftview'', ''notifyclientmoved'',
     ''notifyclientupdated'', ''notifyclientchannelgroupchanged''}"

lemma notified_other: "cmd_name cmd \<notin> roster_names \<Longrightarrow> notified cmd known = known"
  by (simp add: notified_def Let_def roster_names_def)

lemma handled_other:
  assumes "cmd_name cmd \<notin> roster_names"
  shows "inert (handleNotification cm cmd self)"
proof -
  have i: "inert (\<lambda>s. Inr (UnknownNotification, s))" by (simp add: inert_def)
  have pick: "inert (\<lambda>s. if b then f s else g s)" if "b \<Longrightarrow> inert f" "\<not> b \<Longrightarrow> inert g"
    for b and f g :: "'s \<Rightarrow> 's handled"
    using that by (cases b) simp_all
  from assms show ?thesis
    unfolding roster_names_def handleNotification_def Let_def
    by (intro pick) (auto intro: inert_handlers inert_channels i)
qed

context known_clients
begin

lemma notification_refines:
  "\<exists>r s'. handleNotification cm cmd self s = Inr (r, s') \<and> cm_get cm s' = notified cmd (cm_get cm s)"
proof (cases "cmd_name cmd \<in> roster_names")
  case True
  then consider "cmd_name cmd = ''notifycliententerview''" | "cmd_name cmd = ''notifyclientleftview''"
    | "cmd_name cmd = ''notifyclientmoved''" | "cmd_name cmd = ''notifyclientupdated''"
    | "cmd_name cmd = ''notifyclientchannelgroupchanged''"
    by (auto simp: roster_names_def)
  then show ?thesis
  proof cases
    case 1
    then show ?thesis using enter_view[of "cmd_params cmd" s]
      by (simp add: handleNotification_def notified_def Let_def)
  next
    case 2
    then show ?thesis using left_view[of "cmd_params cmd" self s]
      by (simp add: handleNotification_def notified_def Let_def)
  next
    case 3
    then show ?thesis using moved_view[of "cmd_params cmd" s]
      by (simp add: handleNotification_def notified_def Let_def)
  next
    case 4
    then show ?thesis using updated_view[of "cmd_params cmd" s]
      by (simp add: handleNotification_def notified_def Let_def)
  next
    case 5
    then show ?thesis using group_changed_view[of "cmd_params cmd" s]
      by (simp add: handleNotification_def notified_def Let_def)
  qed
next
  case False
  with handled_other[OF False, of cm self] notified_other[OF False] show ?thesis
    unfolding inert_def by metis
qed

end

text \<open>
  Whatever changing one client keeps, every notification keeps: the handlers reach what holds the
  clients through the two changes alone.
\<close>

locale kept_clients = known_clients +
  fixes P :: "'a \<Rightarrow> bool"
  assumes P_set: "P s \<Longrightarrow> P (cm_set cm i e s)"
    and P_delete: "P s \<Longrightarrow> P (cm_delete cm i s)"
begin

lemma P_known: "P s \<Longrightarrow> P (case cm_get cm s c of None \<Rightarrow> s | Some e \<Rightarrow> cm_set cm c (f e) s)"
  by (simp add: P_set split: option.split)

lemma notification_keeps:
  assumes "P s" "handleNotification cm cmd self s = Inr (r, s')"
  shows "P s'"
proof (cases "cmd_name cmd \<in> roster_names")
  case True
  then consider "cmd_name cmd = ''notifycliententerview''" | "cmd_name cmd = ''notifyclientleftview''"
    | "cmd_name cmd = ''notifyclientmoved''" | "cmd_name cmd = ''notifyclientupdated''"
    | "cmd_name cmd = ''notifyclientchannelgroupchanged''"
    by (auto simp: roster_names_def)
  then show ?thesis
  proof cases
    case 1
    then show ?thesis using assms
      by (auto simp: handleNotification_def handleClientEnterView_def bind_result_Inr_iff Let_def P_set
          split: if_splits)
  next
    case 2
    then show ?thesis using assms
      by (auto simp: handleNotification_def handleClientLeftView_def Let_def P_delete split: if_splits)
  next
    case 3
    then show ?thesis using assms P_known[OF assms(1)]
      by (auto simp: handleNotification_def handleClientMoved_def Let_def split: if_splits)
  next
    case 4
    then show ?thesis using assms P_known[OF assms(1)]
      by (auto simp: handleNotification_def handleClientUpdated_def bind_result_Inr_iff Let_def
          split: if_splits)
  next
    case 5
    then show ?thesis using assms
      by (auto simp: handleNotification_def handleClientChannelGroupChanged_def Let_def P_set
          split: if_splits option.splits)
  qed
next
  case False
  with handled_other[OF False, of cm self] assms show ?thesis
    unfolding inert_def by (metis Inr_inject prod.inject)
qed

end

text \<open>A plain Map keeps the laws.\<close>

definition plain_clients :: "(int, entry) jsmap client_map" where
  "plain_clients = \<lparr>cm_get = map_of, cm_set = AList.update, cm_delete = AList.delete\<rparr>"

interpretation plain: known_clients plain_clients
  by unfold_locales (simp_all add: plain_clients_def update_conv' delete_conv')

section \<open>What the known clients are\<close>

text \<open>
  The invariant of the roster: a client is held under its own id, which is not 0 and fits 16
  bits, it has a channel, and every id it holds is in range.
\<close>

definition known_ok :: "(int \<rightharpoonup> entry) \<Rightarrow> bool" where
  "known_ok known \<longleftrightarrow> (\<forall>i e. known i = Some e \<longrightarrow>
     en_id e = i \<and> 0 < i \<and> i \<le> 65535 \<and> entry_channel e \<noteq> None \<and> fields_ok (en_fields e))"

text \<open>The channel is read from every row, and a change that names it gives an id.\<close>

lemma channel_spec: "(''channelID'', always [''cid'', ''ctid''] (read_id asChannelID)) \<in> set clientFields"
  by (simp add: clientFields_def)

lemma read_channel_id: "\<exists>c. read_id asChannelID row key = Inr (Some (VId c))"
  using big_range[of row key]
  by (simp add: read_id_def asChannelID_def uint64_accepts del: uint64.simps)

lemma channel_read:
  "\<exists>v. read_field only row (always [''cid'', ''ctid''] (read_id asChannelID)) = Inr v \<and>
     (v = None \<and> only \<or> (\<exists>c. v = Some (Some (VId c))))"
  using read_channel_id[of row "''cid''"] read_channel_id[of row "''ctid''"]
  by (auto simp: read_field_def)

lemma parsed_client_channel:
  assumes "parseClient row = Inr e"
  shows "entry_channel e \<noteq> None"
proof -
  have f: "readFields clientFields row False = Inr (en_fields e)"
    using assms by (auto simp: parseClient_def bind_result_Inr_iff)
  then obtain c where "en_fields e ''channelID'' = Some (Some (VId c))"
    using readFields_at[OF client_names f channel_spec] channel_read[of False row] by auto
  then show ?thesis by (simp add: entry_channel_def)
qed

lemma changed_channel:
  assumes "parseClientChanges row = Inr changes" "entry_channel e \<noteq> None"
  shows "entry_channel (applyClientChanges e changes) \<noteq> None"
proof -
  have "changes ''channelID'' = None \<or> (\<exists>c. changes ''channelID'' = Some (Some (VId c)))"
    using readFields_at[OF client_names assms(1)[unfolded parseClientChanges_def] channel_spec]
      channel_read[of True row] by auto
  then show ?thesis using assms(2) by (auto simp: entry_channel_def applyClientChanges_def)
qed

lemma fields_ok_put: "fields_ok (en_fields e) \<Longrightarrow> value_ok v \<Longrightarrow> fields_ok (en_fields (put_field k v e))"
  by (simp add: fields_ok_def put_field_def)

lemma fields_ok_changes:
  "fields_ok (en_fields e) \<Longrightarrow> fields_ok c \<Longrightarrow> fields_ok (en_fields (applyClientChanges e c))"
  by (auto simp: fields_ok_def applyClientChanges_def split: option.splits)

lemma row_channel_ok [simp]: "value_ok (VId (row_channel row key))"
  using parseUint64_range by (simp add: row_channel_def)

lemma put_field_views [simp]:
  "en_id (put_field k v e) = en_id e"
  "k \<noteq> ''channelID'' \<Longrightarrow> entry_channel (put_field k v e) = entry_channel e"
  "entry_channel (put_field ''channelID'' (VId c) e) = Some c"
  by (simp_all add: put_field_def entry_channel_def)

lemma en_id_changes [simp]: "en_id (applyClientChanges e c) = en_id e"
  by (simp add: applyClientChanges_def)

lemma known_ok_update:
  assumes "known_ok known"
    and "\<And>e. entry_channel e \<noteq> None \<Longrightarrow> fields_ok (en_fields e) \<Longrightarrow>
       en_id (f e) = en_id e \<and> entry_channel (f e) \<noteq> None \<and> fields_ok (en_fields (f e))"
  shows "known_ok (known(c := map_option f (known c)))"
  using assms unfolding known_ok_def by (auto simp: Option.map_option_case split: option.splits)

lemma notified_ok:
  assumes "known_ok known"
  shows "known_ok (notified cmd known)"
proof (cases "cmd_name cmd \<in> roster_names")
  case True
  let ?row = "cmd_params cmd"
  obtain e where e: "parseClient ?row = Inr e" "0 \<le> en_id e" "en_id e \<le> 65535" "fields_ok (en_fields e)"
    using parseClient_total by blast
  obtain f where f: "parseClientChanges ?row = Inr f" "fields_ok f" using changes_total(1) by blast
  have enter: "known_ok (if en_id e = 0 then known else known(en_id e \<mapsto> e))"
    using assms e parsed_client_channel[OF e(1)] by (auto simp: known_ok_def)
  have left_ok: "known_ok (known(c := None))" for c
    using assms by (auto simp: known_ok_def)
  have moved: "known_ok (known(c := map_option (put_field ''channelID'' (VId (row_channel ?row k))) (known c)))"
    for c k by (rule known_ok_update[OF assms]) (simp add: fields_ok_put del: value_ok.simps)
  have updated: "known_ok (known(c := map_option (\<lambda>e. applyClientChanges e f) (known c)))" for c
    using changed_channel[OF f(1)] fields_ok_changes f(2) by (intro known_ok_update[OF assms]) simp
  have grouped: "known_ok (known(c := map_option (\<lambda>e. if P e then
      put_field ''channelGroupInheritedChannelID'' (VId (row_channel ?row k))
        (put_field ''channelGroupID'' (VId (row_channel ?row k')) e) else e) (known c)))" for c k k' P
    by (rule known_ok_update[OF assms]) (simp add: fields_ok_put del: value_ok.simps)
  from True show ?thesis
    unfolding notified_def Let_def
    using e(1) f(1) enter left_ok moved updated grouped assms by (auto simp: roster_names_def)
next
  case False
  then show ?thesis using assms by (simp add: notified_other)
qed

end
