(* ===== verification/Channel_Order.thy ===== *)
theory Channel_Order
  imports Channel_Tree_Facts
begin

text \<open>
  The order in which a tree is shown, \<open>preorder\<close> of \<open>src/client/view.ts\<close>: the channels of a tree
  in one Map, parents first and siblings in order. The depth of the recursion is the fuel, one
  more than the channels held; a tree never runs out of it.
\<close>

section \<open>The walk\<close>

fun walk :: "nat \<Rightarrow> 'v draft \<Rightarrow> nat \<Rightarrow> (nat, 'v channel) jsmap \<Rightarrow> (nat, 'v channel) jsmap option"
and walk_each :: "nat \<Rightarrow> 'v draft \<Rightarrow> 'v channel list \<Rightarrow> (nat, 'v channel) jsmap \<Rightarrow> (nat, 'v channel) jsmap option"
where
  "walk 0 d parent out = None"
| "walk (Suc n) d parent out = walk_each n d (children parent d) out"
| "walk_each n d [] out = Some out"
| "walk_each n d (c # cs) out =
     Option.bind (walk n d (ch_id c) (AList.update (ch_id c) c out)) (walk_each n d cs)"

definition preorder :: "'v draft \<Rightarrow> (nat, 'v channel) jsmap option" where
  "preorder d = walk (Suc (length (dr_channels d))) d TOP []"

section \<open>The channels under a channel\<close>

definition under :: "'v draft \<Rightarrow> nat \<Rightarrow> nat set" where
  "under d p = {i. \<exists>k\<in>set (kid d p). below d i k}"

lemma no_top: "tree_inv {} d \<Longrightarrow> chan d TOP = None"
  using tree_inv_channel(2)[of "{}" d TOP] by (cases "chan d TOP") auto

lemma below_top:
  assumes "tree_inv {} d"
  shows "\<not> below d TOP a"
  using no_top[OF assms] by (subst below_iff) simp

lemma below_ranked:
  assumes "tree_inv {} d" "ranked rk d" "below d i a"
  shows "rk a \<le> rk i"
  using assms(3)
proof induction
  case (up i c a)
  then have "ch_parent c \<noteq> TOP" using below_top[OF assms(1)] by auto
  with assms(2) up show ?case unfolding ranked_def by fastforce
qed simp

lemma below_chain: "below d i a \<Longrightarrow> below d i b \<Longrightarrow> below d a b \<or> below d b a"
proof (induction rule: below.induct)
  case (up i c a)
  from up.prems up.hyps(1) have "i = b \<or> below d (ch_parent c) b" by (subst (asm) below_iff) auto
  then show ?case
  proof
    assume "i = b"
    then show ?thesis using up.hyps below.up by blast
  qed (rule up.IH)
qed simp

lemma not_below_child:
  assumes "tree_inv {} d" "b \<in> set (kid d p)"
  shows "\<not> below d p b"
proof
  assume below: "below d p b"
  obtain rk where rk: "ranked rk d" using assms(1) by (auto simp: tree_inv_def)
  from below below_top[OF assms(1)] have "p \<noteq> TOP" by auto
  moreover obtain c where "chan d b = Some c" "ch_parent c = p"
    using tree_inv_listed_parent[OF assms] by blast
  ultimately have "rk p < rk b" using rk unfolding ranked_def by metis
  with below_ranked[OF assms(1) rk below] show False by simp
qed

lemma siblings_apart:
  assumes "tree_inv {} d" "j \<in> set (kid d p)" "k \<in> set (kid d p)" "below d i j" "below d i k"
  shows "j = k"
proof -
  have "a = b" if ab: "a \<in> set (kid d p)" "b \<in> set (kid d p)" "below d a b" for a b
  proof (rule ccontr)
    assume "a \<noteq> b"
    moreover obtain c where "chan d a = Some c" "ch_parent c = p"
      using tree_inv_listed_parent[OF assms(1) ab(1)] by blast
    ultimately have "below d p b" using ab(3) by (subst (asm) below_iff) auto
    with not_below_child[OF assms(1) ab(2)] show False by blast
  qed
  with below_chain[OF assms(4,5)] assms(2,3) show ?thesis by blast
qed

lemma below_step:
  assumes "tree_inv {} d" "below d i k" "i \<noteq> k"
  shows "i \<in> under d k"
  using assms(2,3)
proof (induction rule: below.induct)
  case (up i c a)
  show ?case
  proof (cases "ch_parent c = a")
    case True
    then have "i \<in> set (kid d a)" using tree_inv_channel(4)[OF assms(1) up.hyps(1)] by simp
    moreover have "below d i i" using up.hyps(1) by (intro below.here) simp
    ultimately show ?thesis by (auto simp: under_def)
  next
    case False
    with up.IH obtain k where "k \<in> set (kid d a)" "below d (ch_parent c) k" by (auto simp: under_def)
    with up.hyps(1) below.up show ?thesis by (fastforce simp: under_def)
  qed
qed simp

lemma below_parent:
  assumes "below d i j" "chan d j = Some c" "chan d (ch_parent c) \<noteq> None"
  shows "below d i (ch_parent c)"
  using assms
proof (induction rule: below.induct)
  case (here i)
  then show ?case by (auto intro: below.up below.here)
qed (auto intro: below.up)

lemma under_step:
  assumes "tree_inv {} d" "k \<in> set (kid d p)"
  shows "insert k (under d k) = {i. below d i k}"
proof -
  have ex: "chan d k \<noteq> None" using tree_inv_listed_parent[OF assms] by auto
  have "below d i k" if j: "j \<in> set (kid d k)" "below d i j" for i j
  proof -
    obtain c where "chan d j = Some c" "ch_parent c = k"
      using tree_inv_listed_parent[OF assms(1) j(1)] by blast
    with below_parent[OF j(2)] ex show ?thesis by auto
  qed
  then show ?thesis using below_step[OF assms(1)] below.here[OF ex] by (auto simp: under_def)
qed

lemma under_all:
  assumes "tree_inv {} d"
  shows "under d TOP = dom (chan d)"
proof -
  obtain rk where rk: "ranked rk d" using assms by (auto simp: tree_inv_def)
  have "i \<in> under d TOP" if "chan d i = Some c" for i c
    using that
  proof (induction "rk i" arbitrary: i c rule: less_induct)
    case less
    note c = tree_inv_channel[OF assms less.prems]
    show ?case
    proof (cases "ch_parent c = TOP")
      case True
      then have "i \<in> set (kid d TOP)" using c(4) by simp
      moreover have "below d i i" using less.prems by (intro below.here) simp
      ultimately show ?thesis by (auto simp: under_def)
    next
      case False
      then obtain e where e: "chan d (ch_parent c) = Some e" using c(3) by auto
      have "rk (ch_parent c) < rk i" using rk less.prems False by (auto simp: ranked_def)
      from less.hyps[OF this e] less.prems below.up show ?thesis by (fastforce simp: under_def)
    qed
  qed
  moreover have "chan d i \<noteq> None" if "below d i k" for i k
    using that by (subst (asm) below_iff) auto
  ultimately show ?thesis by (auto simp: under_def)
qed

section \<open>What the walk adds\<close>

text \<open>
  The entries of the channels in a set, each once, after its parent or with the parent the walk
  starts from, and the children of every parent in the order of its list.
\<close>

definition kids_shown :: "nat \<Rightarrow> (nat, 'v channel) jsmap \<Rightarrow> nat list" where
  "kids_shown q L = map fst (filter (\<lambda>(i, c). ch_parent c = q) L)"

definition shows_all :: "'v draft \<Rightarrow> nat \<Rightarrow> nat list \<Rightarrow> nat set \<Rightarrow> (nat, 'v channel) jsmap \<Rightarrow> bool" where
  "shows_all d p is S L \<longleftrightarrow> distinct (map fst L) \<and> fst ` set L = S \<and>
     (\<forall>(i, c)\<in>set L. chan d i = Some c) \<and>
     (\<forall>xs i c ys. L = xs @ (i, c) # ys \<longrightarrow> ch_parent c = p \<or> ch_parent c \<in> fst ` set xs) \<and>
     kids_shown p L = is \<and> (\<forall>q\<in>S. kids_shown q L = kid d q)"

lemma kids_shown_simps [simp]:
  "kids_shown q [] = []"
  "kids_shown q ((k, c) # L) = (if ch_parent c = q then k # kids_shown q L else kids_shown q L)"
  "kids_shown q (L @ M) = kids_shown q L @ kids_shown q M"
  by (simp_all add: kids_shown_def)

lemma split_append_Cons:
  "xs @ y # ys = as @ bs \<Longrightarrow>
     (\<exists>zs. as = xs @ y # zs \<and> ys = zs @ bs) \<or> (\<exists>zs. xs = as @ zs \<and> bs = zs @ y # ys)"
  by (auto simp: append_eq_append_conv2 Cons_eq_append_conv)

lemma parents_shown:
  assumes "shows_all d p is S L" "(i, c) \<in> set L"
  shows "ch_parent c = p \<or> ch_parent c \<in> S"
proof -
  obtain xs ys where L: "L = xs @ (i, c) # ys" using split_list[OF assms(2)] by blast
  then have "ch_parent c = p \<or> ch_parent c \<in> fst ` set xs" using assms(1) unfolding shows_all_def by blast
  moreover have "fst ` set xs \<subseteq> S" using assms(1) L by (auto simp: shows_all_def)
  ultimately show ?thesis by blast
qed

lemma no_kids_shown:
  assumes "shows_all d p is S L" "q \<noteq> p" "q \<notin> S"
  shows "kids_shown q L = []"
  using parents_shown[OF assms(1)] assms(2,3) by (force simp: kids_shown_def filter_empty_conv)

lemma shows_all_append:
  assumes "shows_all d p is S L" "shows_all d p js T M" "S \<inter> T = {}" "p \<notin> S \<union> T"
  shows "shows_all d p (is @ js) (S \<union> T) (L @ M)"
proof -
  have "ch_parent c = p \<or> ch_parent c \<in> fst ` set xs" if e: "L @ M = xs @ (i, c) # ys" for xs i c ys
    using split_append_Cons[OF e[symmetric]]
  proof
    assume "\<exists>zs. L = xs @ (i, c) # zs \<and> ys = zs @ M"
    then show ?thesis using assms(1) unfolding shows_all_def by blast
  next
    assume "\<exists>zs. xs = L @ zs \<and> M = zs @ (i, c) # ys"
    then obtain zs where z: "xs = L @ zs" "M = zs @ (i, c) # ys" by blast
    then have "ch_parent c = p \<or> ch_parent c \<in> fst ` set zs" using assms(2) unfolding shows_all_def by blast
    with z(1) show ?thesis by auto
  qed
  moreover have "distinct (map fst (L @ M))" using assms by (auto simp: shows_all_def)
  moreover have "kids_shown q (L @ M) = kid d q" if "q \<in> S \<union> T" for q
  proof (cases "q \<in> S")
    case True
    with assms(3,4) have "kids_shown q M = []" by (intro no_kids_shown[OF assms(2)]) auto
    with True assms(1) show ?thesis by (simp add: shows_all_def)
  next
    case False
    with that assms(3,4) have "kids_shown q L = []" by (intro no_kids_shown[OF assms(1)]) auto
    with False that assms(2) show ?thesis by (simp add: shows_all_def)
  qed
  ultimately show ?thesis using assms(1,2) unfolding shows_all_def by (auto simp: image_Un)
qed

lemma shows_all_Cons:
  assumes "chan d k = Some c" "ch_parent c = p" "shows_all d k (kid d k) S L" "k \<notin> S" "p \<notin> insert k S"
  shows "shows_all d p [k] (insert k S) ((k, c) # L)"
proof -
  have "ch_parent e = p \<or> ch_parent e \<in> fst ` set xs" if "(k, c) # L = xs @ (i, e) # ys" for xs i e ys
  proof (cases xs)
    case Nil
    with that assms(2) show ?thesis by simp
  next
    case (Cons x zs)
    with that have x: "x = (k, c)" "L = zs @ (i, e) # ys" by auto
    have "ch_parent e = k \<or> ch_parent e \<in> fst ` set zs" using assms(3) x(2) unfolding shows_all_def by blast
    with Cons x(1) show ?thesis by auto
  qed
  moreover have "kids_shown p L = []" using assms(5) by (intro no_kids_shown[OF assms(3)]) auto
  moreover have "kids_shown q ((k, c) # L) = kid d q" if "q \<in> insert k S" for q
    using that assms(2,3,5) by (auto simp: shows_all_def)
  ultimately show ?thesis using assms(1-4) unfolding shows_all_def by auto
qed

text \<open>The fuel is enough below a chain of ancestors that leaves that many channels.\<close>

definition room :: "(nat \<Rightarrow> nat) \<Rightarrow> 'v draft \<Rightarrow> nat set \<Rightarrow> nat \<Rightarrow> nat \<Rightarrow> bool" where
  "room rk d X p n \<longleftrightarrow> (\<forall>i\<in>set (kid d p). i \<notin> X \<and> (\<forall>x\<in>X. rk x < rk i)) \<and> card (dom (chan d) - X) < n"

lemma room_step:
  assumes "tree_inv {} d" "ranked rk d" "room rk d X p (Suc n)" "i \<in> set (kid d p)"
  shows "room rk d (insert i X) i n"
proof -
  obtain c where c: "chan d i = Some c" using tree_inv_listed_parent[OF assms(1,4)] by blast
  have i: "i \<noteq> TOP" using tree_inv_channel(2)[OF assms(1) c] .
  have "rk i < rk j" if j: "j \<in> set (kid d i)" for j
  proof -
    obtain e where "chan d j = Some e" "ch_parent e = i" using tree_inv_listed_parent[OF assms(1) j] by blast
    with assms(2) i show ?thesis unfolding ranked_def by metis
  qed
  moreover have "i \<notin> X" "\<forall>x\<in>X. rk x < rk i" using assms(3,4) by (auto simp: room_def)
  moreover have "card (dom (chan d) - insert i X) < card (dom (chan d) - X)"
    using c \<open>i \<notin> X\<close> by (intro psubset_card_mono) (auto simp: finite_dom_map_of)
  ultimately show ?thesis using assms(3) by (fastforce simp: room_def)
qed

lemma walk_each_shows:
  assumes "tree_inv {} d" "set is \<subseteq> set (kid d p)" "distinct is"
    and walk: "\<And>k out. k \<in> set is \<Longrightarrow> fst ` set out \<inter> under d k = {} \<Longrightarrow>
      \<exists>L. walk n d k out = Some (out @ L) \<and> shows_all d k (kid d k) (under d k) L"
    and "fst ` set out \<inter> {i. \<exists>k\<in>set is. below d i k} = {}"
  shows "\<exists>L. walk_each n d (map (\<lambda>i. the (chan d i)) is) out = Some (out @ L) \<and>
    shows_all d p is {i. \<exists>k\<in>set is. below d i k} L"
  using assms(2-5)
proof (induction "is" arbitrary: out)
  case Nil
  show ?case by (auto simp: shows_all_def)
next
  case (Cons k ks)
  have k: "k \<in> set (kid d p)" using Cons.prems(1) by simp
  obtain c where c: "chan d k = Some c" "ch_parent c = p" using tree_inv_listed_parent[OF assms(1) k] by blast
  have id: "ch_id c = k" using tree_inv_channel(1)[OF assms(1) c(1)] .
  have step: "insert k (under d k) = {i. below d i k}" by (rule under_step[OF assms(1) k])
  have free: "fst ` set out \<inter> insert k (under d k) = {}" using Cons.prems(4) step by auto
  have self: "k \<notin> under d k"
  proof
    assume "k \<in> under d k"
    then obtain j where j: "j \<in> set (kid d k)" "below d k j" by (auto simp: under_def)
    obtain rk where rk: "ranked rk d" using assms(1) by (auto simp: tree_inv_def)
    obtain e where "chan d j = Some e" "ch_parent e = k" using tree_inv_listed_parent[OF assms(1) j(1)] by blast
    moreover have "k \<noteq> TOP" using tree_inv_channel(2)[OF assms(1) c(1)] .
    ultimately have "rk k < rk j" using rk unfolding ranked_def by metis
    with below_ranked[OF assms(1) rk j(2)] show False by simp
  qed
  have new: "AList.update k c out = out @ [(k, c)]"
    using free by (intro js_update_new) (auto simp: map_of_eq_None_iff)
  obtain L where L: "walk n d k (out @ [(k, c)]) = Some (out @ (k, c) # L)" "shows_all d k (kid d k) (under d k) L"
    using Cons.prems(3)[of k "out @ [(k, c)]"] free self by auto
  have above: "p \<notin> {i. \<exists>j\<in>set (k # ks). below d i j}"
    using not_below_child[OF assms(1)] Cons.prems(1) by blast
  then have "p \<notin> insert k (under d k)" using step by auto
  from shows_all_Cons[OF c L(2) self this] step
  have head: "shows_all d p [k] {i. below d i k} ((k, c) # L)" by simp
  have apart: "{i. below d i k} \<inter> {i. \<exists>j\<in>set ks. below d i j} = {}"
    using siblings_apart[OF assms(1)] Cons.prems(1,2) by fastforce
  have keys: "fst ` set ((k, c) # L) = {i. below d i k}" using head by (simp add: shows_all_def)
  have out': "fst ` set (out @ (k, c) # L) = fst ` set out \<union> {i. below d i k}"
    by (simp only: set_append image_Un keys)
  obtain M where M: "walk_each n d (map (\<lambda>i. the (chan d i)) ks) (out @ (k, c) # L) = Some ((out @ (k, c) # L) @ M)"
    "shows_all d p ks {i. \<exists>j\<in>set ks. below d i j} M"
  proof -
    have "fst ` set (out @ (k, c) # L) \<inter> {i. \<exists>j\<in>set ks. below d i j} = {}"
      unfolding out' using Cons.prems(4) apart by auto
    with Cons.IH[of "out @ (k, c) # L"] Cons.prems(1-3) that show ?thesis by auto
  qed
  have "{i. \<exists>j\<in>set (k # ks). below d i j} = {i. below d i k} \<union> {i. \<exists>j\<in>set ks. below d i j}" by auto
  with shows_all_append[OF head M(2) apart] above
  have "shows_all d p (k # ks) {i. \<exists>j\<in>set (k # ks). below d i j} (((k, c) # L) @ M)" by simp
  moreover have "walk_each n d (map (\<lambda>i. the (chan d i)) (k # ks)) out = Some (out @ ((k, c) # L) @ M)"
    using c id new L(1) M(1) by simp
  ultimately show ?case by blast
qed

lemma walk_shows:
  assumes "tree_inv {} d" "ranked rk d" "room rk d X p n" "fst ` set out \<inter> under d p = {}"
  shows "\<exists>L. walk n d p out = Some (out @ L) \<and> shows_all d p (kid d p) (under d p) L"
  using assms(3,4)
proof (induction n arbitrary: p X out)
  case 0
  then show ?case by (simp add: room_def)
next
  case (Suc n)
  have "distinct (kid d p)" using assms(1) by (simp add: tree_inv_def listed_ok_def)
  moreover have "\<exists>L. walk n d k out = Some (out @ L) \<and> shows_all d k (kid d k) (under d k) L"
    if "k \<in> set (kid d p)" "fst ` set out \<inter> under d k = {}" for k out
    using Suc.IH[OF room_step[OF assms(1,2) Suc.prems(1) that(1)] that(2)] .
  ultimately show ?case
    using walk_each_shows[OF assms(1), of "kid d p" p n out] Suc.prems(2)
    by (simp add: children_def under_def)
qed

lemma preorder_shows:
  assumes "tree_inv {} d"
  shows "\<exists>m. preorder d = Some m \<and> shows_all d TOP (kid d TOP) (dom (chan d)) m"
proof -
  obtain rk where rk: "ranked rk d" using assms by (auto simp: tree_inv_def)
  have "card (dom (chan d)) \<le> length (dr_channels d)"
    by (metis card_length dom_map_of_conv_image_fst length_map list.set_map)
  then have "room rk d {} TOP (Suc (length (dr_channels d)))" by (simp add: room_def)
  from walk_shows[OF assms rk this, of "[]"] under_all[OF assms] show ?thesis
    by (simp add: preorder_def)
qed

lemma shows_all_map:
  assumes "shows_all d p is (dom (chan d)) m"
  shows "map_of m = chan d"
proof
  fix i
  show "map_of m i = chan d i"
  proof (cases "map_of m i")
    case None
    then have "i \<notin> fst ` set m" by (simp add: map_of_eq_None_iff)
    with assms None show ?thesis by (auto simp: shows_all_def)
  next
    case (Some c)
    with map_of_SomeD[OF Some] assms show ?thesis by (auto simp: shows_all_def)
  qed
qed

end
