(* ===== verification/View_Store.thy ===== *)
theory View_Store
  imports Notifications Channel_Listing Channel_Order
begin

text \<open>
  What a connected client knows of its server, \<open>ViewStore\<close> and \<open>Roster\<close> of
  \<open>src/client/view.ts\<close>. A tree is an immutable object that a change replaces, and the code tells
  by its identity whether it was replaced: \<open>vs_tree_at\<close> numbers the trees the store has held.
  The callback the store is built with is a count of its calls. A promise of \<open>whenReady\<close> is a
  number, and \<open>vs_settled\<close> lists the promises settled and how, in order.
\<close>

section \<open>State\<close>

datatype view_status = Empty | Loading | Live | Stale

text \<open>
  Why a connection ended, as \<open>end\<close> is told (nothing for a disconnect, an error, another value),
  and what a waiter is rejected with.
\<close>

datatype 'x end_cause = ByDisconnect | AnError 'x | AnotherValue 'x

datatype 'x view_error = NotConnected | TheError 'x | EndedWith 'x | Aborted 'x

datatype 'x wait_outcome = Resolved | Rejected "'x view_error"

record ('v, 'g, 'x) view_store =
  vs_roster :: "(int, entry) jsmap"
  vs_status :: view_status
  vs_revision :: nat
  vs_tree :: "'v draft"
  vs_tree_at :: nat
  vs_rows :: "'v channel list"
  vs_known :: "nat \<times> (int, entry) jsmap"
  vs_ordered :: "nat \<times> (nat, 'v channel) jsmap option"
  vs_serverGroups :: "(nat, 'g) jsmap"
  vs_channelGroups :: "(nat, 'g) jsmap"
  vs_serverGroupsSeen :: bool
  vs_channelGroupsSeen :: bool
  vs_server :: "string \<rightharpoonup> string"
  vs_announced :: nat
  vs_waiters :: "nat list"
  vs_settled :: "(nat \<times> 'x wait_outcome) list"
  vs_promises :: nat
  vs_endedBy :: "'x view_error option"
  vs_calls :: nat

definition new_store :: "('v, 'g, 'x) view_store" where
  "new_store = \<lparr>vs_roster = [], vs_status = Empty, vs_revision = 0, vs_tree = from_channels [],
     vs_tree_at = 0, vs_rows = [], vs_known = (0, []), vs_ordered = (0, Some []),
     vs_serverGroups = [], vs_channelGroups = [], vs_serverGroupsSeen = False,
     vs_channelGroupsSeen = False, vs_server = Map.empty, vs_announced = 0, vs_waiters = [],
     vs_settled = [], vs_promises = 0, vs_endedBy = None, vs_calls = 0\<rparr>"

section \<open>Changes\<close>

definition bump :: "('v, 'g, 'x) view_store \<Rightarrow> ('v, 'g, 'x) view_store" where
  "bump vs = (let vs' = vs\<lparr>vs_revision := vs_revision vs + 1\<rparr>
              in if vs_status vs \<noteq> Loading then vs'\<lparr>vs_calls := vs_calls vs + 1\<rparr> else vs')"

text \<open>The Roster: a Map that reports each of its changes.\<close>

definition roster_set :: "int \<Rightarrow> entry \<Rightarrow> ('v, 'g, 'x) view_store \<Rightarrow> ('v, 'g, 'x) view_store" where
  "roster_set i e vs = bump (vs\<lparr>vs_roster := AList.update i e (vs_roster vs)\<rparr>)"

definition roster_delete :: "int \<Rightarrow> ('v, 'g, 'x) view_store \<Rightarrow> ('v, 'g, 'x) view_store" where
  "roster_delete i vs =
     (if map_of (vs_roster vs) i = None then vs
      else bump (vs\<lparr>vs_roster := AList.delete i (vs_roster vs)\<rparr>))"

definition roster_clear :: "('v, 'g, 'x) view_store \<Rightarrow> ('v, 'g, 'x) view_store" where
  "roster_clear vs = (if vs_roster vs = [] then vs else bump (vs\<lparr>vs_roster := []\<rparr>))"

definition put_tree :: "'v draft \<Rightarrow> ('v, 'g, 'x) view_store \<Rightarrow> ('v, 'g, 'x) view_store" where
  "put_tree t vs = vs\<lparr>vs_tree := t, vs_tree_at := vs_tree_at vs + 1\<rparr>"

definition reset_view :: "('v, 'g, 'x) view_store \<Rightarrow> ('v, 'g, 'x) view_store" where
  "reset_view vs = bump ((put_tree (from_channels []) (roster_clear vs))\<lparr>vs_rows := [],
     vs_serverGroups := [], vs_channelGroups := [], vs_serverGroupsSeen := False,
     vs_channelGroupsSeen := False, vs_server := Map.empty, vs_status := Loading\<rparr>)"

definition announce :: "('v, 'g, 'x) view_store \<Rightarrow> nat option \<times> ('v, 'g, 'x) view_store" where
  "announce vs =
     (if vs_status vs = Loading \<or> vs_status vs = Empty then (None, vs)
      else if vs_revision vs = vs_announced vs then (None, vs)
      else (Some (vs_revision vs), vs\<lparr>vs_announced := vs_revision vs\<rparr>))"

definition collect_row :: "'v channel \<Rightarrow> ('v, 'g, 'x) view_store \<Rightarrow> ('v, 'g, 'x) view_store" where
  "collect_row row vs = (if vs_status vs = Loading then vs\<lparr>vs_rows := vs_rows vs @ [row]\<rparr> else vs)"

text \<open>Settling every waiter: each is taken off the set as its promise is settled.\<close>

definition settle_waiters :: "'x wait_outcome \<Rightarrow> ('v, 'g, 'x) view_store \<Rightarrow> ('v, 'g, 'x) view_store" where
  "settle_waiters oc vs =
     vs\<lparr>vs_waiters := [], vs_settled := vs_settled vs @ map (\<lambda>w. (w, oc)) (vs_waiters vs)\<rparr>"

definition without_counts :: "'v channel \<Rightarrow> 'v channel" where
  "without_counts c =
     c\<lparr>ch_fields := (ch_fields c)(''totalClients'' := None, ''totalFamilyClients'' := None)\<rparr>"

definition finish_welcome :: "('v, 'g, 'x) view_store \<Rightarrow> nat option \<times> ('v, 'g, 'x) view_store" where
  "finish_welcome vs =
     (if vs_status vs \<noteq> Loading then (None, vs)
      else let tree = from_channels (map without_counts (vs_rows vs));
               vs1 = bump ((put_tree tree vs)\<lparr>vs_rows := [], vs_status := Live\<rparr>);
               vs2 = settle_waiters Resolved (vs1\<lparr>vs_announced := vs_revision vs1\<rparr>)
           in (Some (vs_revision vs2), vs2))"

text \<open>
  A channel event, applied to the tree. \<^const>\<open>None\<close>, a climb of the parents that never ends, does
  not happen in a tree.
\<close>

definition change ::
  "'v fields \<Rightarrow> 'v channel_event \<Rightarrow> ('v, 'g, 'x) view_store \<Rightarrow> ('v, 'g, 'x) view_store option" where
  "change base e vs =
     (if vs_status vs \<noteq> Live then Some vs
      else map_option (\<lambda>t. bump (put_tree t vs)) (apply_event base e (vs_tree vs)))"

definition dropChannel :: "int \<Rightarrow> int \<Rightarrow> ('v, 'g, 'x) view_store \<Rightarrow> ('v, 'g, 'x) view_store" where
  "dropChannel self channelID vs =
     fold (\<lambda>(i, e) v. if entry_channel e = Some channelID \<and> i \<noteq> self then roster_delete i v else v)
       (vs_roster vs) vs"

definition groupsLoaded :: "('v, 'g, 'x) view_store \<Rightarrow> bool" where
  "groupsLoaded vs \<longleftrightarrow> vs_serverGroupsSeen vs \<and> vs_channelGroupsSeen vs"

definition accepting :: "('v, 'g, 'x) view_store \<Rightarrow> bool" where
  "accepting vs \<longleftrightarrow> vs_status vs = Loading \<or> vs_status vs = Live"

text \<open>A list of groups as a Map; two of them hold the same groups when they are equal in order.\<close>

definition group_map :: "(nat \<times> 'g) list \<Rightarrow> (nat, 'g) jsmap" where
  "group_map gs = fold (\<lambda>(i, g) m. AList.update i g m) gs []"

definition setServerGroups :: "(nat \<times> 'g) list \<Rightarrow> ('v, 'g, 'x) view_store \<Rightarrow> ('v, 'g, 'x) view_store" where
  "setServerGroups gs vs =
     (if \<not> accepting vs then vs
      else let nxt = group_map gs; changed = (vs_serverGroups vs \<noteq> nxt);
               vs1 = vs\<lparr>vs_serverGroupsSeen := True\<rparr>;
               vs2 = (if changed then vs1\<lparr>vs_serverGroups := nxt\<rparr> else vs1)
           in if changed \<or> groupsLoaded vs \<noteq> groupsLoaded vs2 then bump vs2 else vs2)"

definition setChannelGroups :: "(nat \<times> 'g) list \<Rightarrow> ('v, 'g, 'x) view_store \<Rightarrow> ('v, 'g, 'x) view_store" where
  "setChannelGroups gs vs =
     (if \<not> accepting vs then vs
      else let nxt = group_map gs; changed = (vs_channelGroups vs \<noteq> nxt);
               vs1 = vs\<lparr>vs_channelGroupsSeen := True\<rparr>;
               vs2 = (if changed then vs1\<lparr>vs_channelGroups := nxt\<rparr> else vs1)
           in if changed \<or> groupsLoaded vs \<noteq> groupsLoaded vs2 then bump vs2 else vs2)"

definition COUNTERS :: "string list" where
  "COUNTERS = map (\<lambda>name. ''virtualserver_'' @ name)
     [''clientsonline'', ''queryclientsonline'', ''channelsonline'', ''uptime'',
      ''client_connections'', ''query_client_connections'', ''month_bytes_downloaded'',
      ''month_bytes_uploaded'', ''total_bytes_downloaded'', ''total_bytes_uploaded'',
      ''total_packetloss_speech'', ''total_packetloss_keepalive'', ''total_packetloss_control'',
      ''total_packetloss_total'', ''total_ping'']"

definition serverEntries :: "(string \<times> string) list \<Rightarrow> bool \<Rightarrow> (string \<times> string) list" where
  "serverEntries entries counters =
     filter (\<lambda>(key, _). take 14 key = ''virtualserver_'' \<and> (counters \<or> key \<notin> set COUNTERS)) entries"

definition merge_entries ::
  "(string \<times> string) list \<Rightarrow> ('v, 'g, 'x) view_store \<Rightarrow> ('v, 'g, 'x) view_store" where
  "merge_entries entries vs =
     (if \<not> accepting vs then vs
      else if list_all (\<lambda>(key, value). vs_server vs key = Some value) entries then vs
      else bump (vs\<lparr>vs_server := vs_server vs ++ map_of (rev entries)\<rparr>))"

text \<open>\<open>seedServer\<close> and \<open>patchServer\<close> do the same; \<open>mergeServer\<close> leaves the counters out.\<close>

definition patchServer :: "(string \<times> string) list \<Rightarrow> ('v, 'g, 'x) view_store \<Rightarrow> ('v, 'g, 'x) view_store" where
  "patchServer entries = merge_entries (serverEntries entries True)"

definition mergeServer :: "(string \<times> string) list \<Rightarrow> ('v, 'g, 'x) view_store \<Rightarrow> ('v, 'g, 'x) view_store" where
  "mergeServer entries = merge_entries (serverEntries entries False)"

definition channelBeforeDeletion :: "nat \<Rightarrow> ('v, 'g, 'x) view_store \<Rightarrow> 'v channel option" where
  "channelBeforeDeletion i vs = (if vs_status vs = Live then chan (vs_tree vs) i else None)"

definition ended_with :: "'x end_cause \<Rightarrow> 'x view_error" where
  "ended_with cause = (case cause of
     ByDisconnect \<Rightarrow> NotConnected | AnError x \<Rightarrow> TheError x | AnotherValue x \<Rightarrow> EndedWith x)"

definition end_view :: "'x end_cause \<Rightarrow> ('v, 'g, 'x) view_store \<Rightarrow> ('v, 'g, 'x) view_store" where
  "end_view cause vs =
     (if vs_status vs \<noteq> Loading \<and> vs_status vs \<noteq> Live then vs
      else settle_waiters (Rejected (ended_with cause))
             ((bump (vs\<lparr>vs_status := Stale\<rparr>))\<lparr>vs_endedBy := Some (ended_with cause)\<rparr>))"

section \<open>Waiting\<close>

text \<open>
  \<open>whenReady\<close> takes the next promise and settles it at once or adds a waiter; \<open>aborted\<close> is the
  reason of a signal that has fired already. A signal that fires later rejects its waiter.
\<close>

definition settle_now :: "'x wait_outcome \<Rightarrow> ('v, 'g, 'x) view_store \<Rightarrow> ('v, 'g, 'x) view_store" where
  "settle_now oc vs = vs\<lparr>vs_promises := vs_promises vs + 1,
     vs_settled := vs_settled vs @ [(vs_promises vs, oc)]\<rparr>"

definition whenReady :: "'x option \<Rightarrow> ('v, 'g, 'x) view_store \<Rightarrow> ('v, 'g, 'x) view_store" where
  "whenReady aborted vs =
     (case aborted of
        Some reason \<Rightarrow> settle_now (Rejected (Aborted reason)) vs
      | None \<Rightarrow>
          (case vs_status vs of
             Live \<Rightarrow> settle_now Resolved vs
           | Stale \<Rightarrow> settle_now (Rejected (case vs_endedBy vs of None \<Rightarrow> NotConnected | Some e \<Rightarrow> e)) vs
           | _ \<Rightarrow> vs\<lparr>vs_waiters := vs_waiters vs @ [vs_promises vs], vs_promises := vs_promises vs + 1\<rparr>))"

definition abort_wait :: "nat \<Rightarrow> 'x \<Rightarrow> ('v, 'g, 'x) view_store \<Rightarrow> ('v, 'g, 'x) view_store" where
  "abort_wait w reason vs =
     (if w \<in> set (vs_waiters vs)
      then vs\<lparr>vs_waiters := removeAll w (vs_waiters vs),
              vs_settled := vs_settled vs @ [(w, Rejected (Aborted reason))]\<rparr>
      else vs)"

section \<open>Reading\<close>

text \<open>The two reads that keep what they made until something changes.\<close>

definition read_clients ::
  "('v, 'g, 'x) view_store \<Rightarrow> (int, entry) jsmap \<times> ('v, 'g, 'x) view_store" where
  "read_clients vs =
     (let vs' = (if fst (vs_known vs) \<noteq> vs_revision vs
                 then vs\<lparr>vs_known := (vs_revision vs, vs_roster vs)\<rparr> else vs)
      in (snd (vs_known vs'), vs'))"

definition read_channels ::
  "('v, 'g, 'x) view_store \<Rightarrow> (nat, 'v channel) jsmap option \<times> ('v, 'g, 'x) view_store" where
  "read_channels vs =
     (let vs' = (if fst (vs_ordered vs) \<noteq> vs_tree_at vs
                 then vs\<lparr>vs_ordered := (vs_tree_at vs, preorder (vs_tree vs))\<rparr> else vs)
      in (snd (vs_ordered vs'), vs'))"

definition clientsIn :: "int \<Rightarrow> ('v, 'g, 'x) view_store \<Rightarrow> entry list" where
  "clientsIn i vs = sort_key en_id (filter (\<lambda>e. entry_channel e = Some i) (map snd (vs_roster vs)))"

definition self_entry :: "int \<Rightarrow> ('v, 'g, 'x) view_store \<Rightarrow> entry option" where
  "self_entry self vs = (if self = 0 then None else map_of (vs_roster vs) self)"

definition serverName :: "('v, 'g, 'x) view_store \<Rightarrow> string" where
  "serverName vs = (case vs_server vs ''virtualserver_name'' of None \<Rightarrow> [] | Some n \<Rightarrow> n)"

definition serverIconID :: "('v, 'g, 'x) view_store \<Rightarrow> int option" where
  "serverIconID vs = parseIconID (vs_server vs ''virtualserver_icon_id'')"

definition serverBannerImageURL :: "('v, 'g, 'x) view_store \<Rightarrow> string option" where
  "serverBannerImageURL vs =
     (case vs_server vs ''virtualserver_hostbanner_gfx_url'' of
        None \<Rightarrow> None | Some u \<Rightarrow> if trim u = [] then None else Some (trim u))"

end
