(* ===== verification/View_Facts.thy ===== *)
theory View_Facts
  imports View_Store
begin

text \<open>
  What holds of the view in every state, and what each operation does to its revision: the
  invariants of \<open>View_Store\<close>, proved one operation at a time, and their form over whole runs.
\<close>

section \<open>What is seen of a view\<close>

text \<open>All that its readers can see change: a revision stands for one value of this.\<close>

definition visible ::
  "('v, 'g, 'x) view_store \<Rightarrow> view_status \<times> (int, entry) jsmap \<times> 'v draft \<times> (nat, 'g) jsmap \<times>
     (nat, 'g) jsmap \<times> bool \<times> (string \<rightharpoonup> string)" where
  "visible vs = (vs_status vs, vs_roster vs, vs_tree vs, vs_serverGroups vs, vs_channelGroups vs,
     groupsLoaded vs, vs_server vs)"

text \<open>
  An operation never takes the revision back, moves it when what is seen changes, and then calls
  back unless the view is loading.
\<close>

definition moved :: "('v, 'g, 'x) view_store \<Rightarrow> ('v, 'g, 'x) view_store \<Rightarrow> bool" where
  "moved vs vs' \<longleftrightarrow> vs_revision vs \<le> vs_revision vs' \<and> vs_calls vs \<le> vs_calls vs' \<and>
     (visible vs' \<noteq> visible vs \<longrightarrow> vs_revision vs < vs_revision vs') \<and>
     (vs_revision vs < vs_revision vs' \<and> vs_status vs' \<noteq> Loading \<longrightarrow> vs_calls vs < vs_calls vs')"

lemma visible_status: "vs_status vs' \<noteq> vs_status vs \<Longrightarrow> visible vs' \<noteq> visible vs"
  by (simp add: visible_def)

lemma moved_refl [simp]: "moved vs vs"
  by (simp add: moved_def)

lemma moved_trans: "moved a b \<Longrightarrow> moved b c \<Longrightarrow> moved a c"
  unfolding moved_def using visible_status[of b c] by (smt (verit) le_trans less_le_trans le_less_trans le_neq_implies_less nat_less_le)

lemma moved_bump:
  assumes "vs_revision vs' = vs_revision vs" "vs_calls vs' = vs_calls vs"
  shows "moved vs (bump vs')"
  using assms by (auto simp: moved_def bump_def Let_def)

lemma moved_same:
  assumes "vs_revision vs' = vs_revision vs" "vs_calls vs' = vs_calls vs" "visible vs' = visible vs"
  shows "moved vs vs'"
  using assms by (simp add: moved_def)

lemma bump_views [simp]:
  "vs_roster (bump vs) = vs_roster vs" "vs_status (bump vs) = vs_status vs"
  "vs_tree (bump vs) = vs_tree vs" "vs_tree_at (bump vs) = vs_tree_at vs"
  "vs_revision (bump vs) = Suc (vs_revision vs)" "vs_announced (bump vs) = vs_announced vs"
  "vs_known (bump vs) = vs_known vs" "vs_ordered (bump vs) = vs_ordered vs"
  "vs_waiters (bump vs) = vs_waiters vs" "vs_settled (bump vs) = vs_settled vs"
  "vs_promises (bump vs) = vs_promises vs" "vs_endedBy (bump vs) = vs_endedBy vs"
  "vs_server (bump vs) = vs_server vs" "vs_rows (bump vs) = vs_rows vs"
  "vs_serverGroups (bump vs) = vs_serverGroups vs" "vs_channelGroups (bump vs) = vs_channelGroups vs"
  "groupsLoaded (bump vs) = groupsLoaded vs"
  by (simp_all add: bump_def Let_def groupsLoaded_def)

section \<open>The invariant\<close>

text \<open>
  The channels are a tree; what was kept of the last read is what a read now would make, if
  nothing changed since; nothing is announced that has not happened; and every promise made is
  either waiting, which it is only until the view is live or the connection ended, or was settled
  once.
\<close>

definition promises_ok :: "nat list \<Rightarrow> (nat \<times> 'x wait_outcome) list \<Rightarrow> nat \<Rightarrow> bool" where
  "promises_ok W S n \<longleftrightarrow> distinct (W @ map fst S) \<and> set (W @ map fst S) = {..<n}"

lemma promises_fresh: "promises_ok W S n \<Longrightarrow> n \<notin> set W \<and> n \<notin> fst ` set S"
proof -
  assume "promises_ok W S n"
  then have "set (W @ map fst S) = {..<n}" by (simp add: promises_ok_def)
  then have "n \<notin> set (W @ map fst S)" by (simp only: lessThan_iff)
  then show ?thesis by simp
qed

lemma promises_settle: "promises_ok W S n \<Longrightarrow> promises_ok W (S @ [(n, oc)]) (Suc n)"
  using promises_fresh[of W S n] by (simp add: promises_ok_def lessThan_Suc)

lemma promises_wait: "promises_ok W S n \<Longrightarrow> promises_ok (W @ [n]) S (Suc n)"
  using promises_fresh[of W S n] by (simp add: promises_ok_def lessThan_Suc)

lemma map_fst_const [simp]: "fst \<circ> (\<lambda>w. (w, oc)) = id" "fst ` (\<lambda>w. (w, oc)) ` W = W"
  by (auto simp: image_image)

lemma promises_all: "promises_ok W S n \<Longrightarrow> promises_ok [] (S @ map (\<lambda>w. (w, oc)) W) n"
  by (simp add: promises_ok_def Int_commute Un_commute)

lemma promises_one:
  "promises_ok W S n \<Longrightarrow> w \<in> set W \<Longrightarrow> promises_ok (removeAll w W) (S @ [(w, oc)]) n"
  by (auto simp: promises_ok_def distinct_removeAll)

definition view_ok :: "('v, 'g, 'x) view_store \<Rightarrow> bool" where
  "view_ok vs \<longleftrightarrow> tree_inv {} (vs_tree vs) \<and>
     fst (vs_known vs) \<le> vs_revision vs \<and>
     (fst (vs_known vs) = vs_revision vs \<longrightarrow> snd (vs_known vs) = vs_roster vs) \<and>
     fst (vs_ordered vs) \<le> vs_tree_at vs \<and>
     (fst (vs_ordered vs) = vs_tree_at vs \<longrightarrow> snd (vs_ordered vs) = preorder (vs_tree vs)) \<and>
     vs_announced vs \<le> vs_revision vs \<and>
     (vs_waiters vs \<noteq> [] \<longrightarrow> vs_status vs = Empty \<or> vs_status vs = Loading) \<and>
     promises_ok (vs_waiters vs) (vs_settled vs) (vs_promises vs) \<and>
     (vs_status vs = Stale \<longrightarrow> vs_endedBy vs \<noteq> None)"

lemma view_ok_bump:
  assumes "view_ok vs" "vs_tree vs' = vs_tree vs" "vs_tree_at vs' = vs_tree_at vs"
    "vs_revision vs' = vs_revision vs" "vs_announced vs' = vs_announced vs" "vs_known vs' = vs_known vs"
    "vs_ordered vs' = vs_ordered vs" "vs_waiters vs' = vs_waiters vs" "vs_settled vs' = vs_settled vs"
    "vs_promises vs' = vs_promises vs" "vs_endedBy vs' = vs_endedBy vs" "vs_status vs' = vs_status vs"
  shows "view_ok (bump vs')"
  using assms by (simp add: view_ok_def)

lemma preorder_nothing: "preorder (from_channels []) = Some []"
  by (simp add: preorder_def from_channels_def children_def kid_def empty_tree_def)

lemma new_store_ok: "view_ok new_store"
  using from_channels_total[of "[]"]
  by (simp add: view_ok_def new_store_def preorder_nothing promises_ok_def)

text \<open>The two facts about every operation, together.\<close>

definition sound :: "('v, 'g, 'x) view_store \<Rightarrow> ('v, 'g, 'x) view_store \<Rightarrow> bool" where
  "sound vs vs' \<longleftrightarrow> view_ok vs' \<and> moved vs vs'"

lemma sound_refl: "view_ok vs \<Longrightarrow> sound vs vs"
  by (simp add: sound_def)

lemma sound_trans: "sound a b \<Longrightarrow> sound b c \<Longrightarrow> sound a c"
  using moved_trans by (auto simp: sound_def)

lemma sound_bump:
  assumes "view_ok vs" "vs_tree vs' = vs_tree vs" "vs_tree_at vs' = vs_tree_at vs"
    "vs_revision vs' = vs_revision vs" "vs_announced vs' = vs_announced vs" "vs_known vs' = vs_known vs"
    "vs_ordered vs' = vs_ordered vs" "vs_waiters vs' = vs_waiters vs" "vs_settled vs' = vs_settled vs"
    "vs_promises vs' = vs_promises vs" "vs_endedBy vs' = vs_endedBy vs" "vs_status vs' = vs_status vs"
    "vs_calls vs' = vs_calls vs"
  shows "sound vs (bump vs')"
  using view_ok_bump[OF assms(1-12)] moved_bump[OF assms(4,13)] by (simp add: sound_def)

lemma sound_same:
  assumes "view_ok vs" "vs_revision vs' = vs_revision vs" "vs_calls vs' = vs_calls vs"
    "visible vs' = visible vs" "view_ok vs'"
  shows "sound vs vs'"
  using assms moved_same[OF assms(2,3,4)] by (simp add: sound_def)

section \<open>The operations\<close>

lemma roster_set_sound: "view_ok vs \<Longrightarrow> sound vs (roster_set i e vs)"
  unfolding roster_set_def by (rule sound_bump) simp_all

lemma roster_delete_sound: "view_ok vs \<Longrightarrow> sound vs (roster_delete i vs)"
  unfolding roster_delete_def by (auto intro!: sound_bump intro: sound_refl)

lemma roster_clear_sound: "view_ok vs \<Longrightarrow> sound vs (roster_clear vs)"
  unfolding roster_clear_def by (auto intro!: sound_bump intro: sound_refl)

lemma dropChannel_sound:
  assumes "view_ok vs"
  shows "sound vs (dropChannel self i vs)"
proof -
  let ?f = "\<lambda>(j, e) v. if entry_channel e = Some i \<and> j \<noteq> self then roster_delete j v else v"
  have step: "sound vs v \<Longrightarrow> sound vs (?f p v)" for p v
  proof -
    assume v: "sound vs v"
    then have "view_ok v" by (simp add: sound_def)
    then have "sound v (?f p v)" by (cases p) (simp add: roster_delete_sound sound_refl)
    with v show ?thesis by (rule sound_trans)
  qed
  have "sound vs v \<Longrightarrow> sound vs (fold ?f l v)" for l v
    by (induction l arbitrary: v) (simp_all only: fold_simps step)
  from this[OF sound_refl[OF assms]] show ?thesis unfolding dropChannel_def .
qed

lemma collect_row_sound:
  assumes "view_ok vs"
  shows "sound vs (collect_row row vs)"
proof (cases "vs_status vs = Loading")
  case True
  then show ?thesis
    using assms by (intro sound_same) (simp_all add: collect_row_def visible_def groupsLoaded_def view_ok_def)
qed (simp add: collect_row_def sound_refl assms)

lemma announce_sound:
  assumes "view_ok vs"
  shows "sound vs (snd (announce vs))"
proof -
  have "sound vs (vs\<lparr>vs_announced := vs_revision vs\<rparr>)"
    using assms by (intro sound_same) (simp_all add: visible_def groupsLoaded_def view_ok_def)
  then show ?thesis using sound_refl[OF assms] by (simp add: announce_def)
qed

text \<open>Setting a list of groups, of either kind: bumped, or nothing seen of it changed.\<close>

lemma setServerGroups_sound:
  assumes "view_ok vs"
  shows "sound vs (setServerGroups gs vs)"
proof -
  let ?v1 = "vs\<lparr>vs_serverGroupsSeen := True\<rparr>"
  let ?v2 = "?v1\<lparr>vs_serverGroups := group_map gs\<rparr>"
  have b1: "sound vs (bump ?v1)" by (rule sound_bump[OF assms]) simp_all
  have b2: "sound vs (bump ?v2)" by (rule sound_bump[OF assms]) simp_all
  have s1: "sound vs ?v1" if "groupsLoaded vs = groupsLoaded ?v1"
    using that assms by (intro sound_same) (simp_all add: visible_def view_ok_def)
  show ?thesis
    using b1 b2 s1 sound_refl[OF assms]
    by (cases "accepting vs"; cases "vs_serverGroups vs = group_map gs";
        cases "groupsLoaded vs = groupsLoaded ?v1")
      (simp_all add: setServerGroups_def Let_def)
qed

lemma setChannelGroups_sound:
  assumes "view_ok vs"
  shows "sound vs (setChannelGroups gs vs)"
proof -
  let ?v1 = "vs\<lparr>vs_channelGroupsSeen := True\<rparr>"
  let ?v2 = "?v1\<lparr>vs_channelGroups := group_map gs\<rparr>"
  have b1: "sound vs (bump ?v1)" by (rule sound_bump[OF assms]) simp_all
  have b2: "sound vs (bump ?v2)" by (rule sound_bump[OF assms]) simp_all
  have s1: "sound vs ?v1" if "groupsLoaded vs = groupsLoaded ?v1"
    using that assms by (intro sound_same) (simp_all add: visible_def view_ok_def)
  show ?thesis
    using b1 b2 s1 sound_refl[OF assms]
    by (cases "accepting vs"; cases "vs_channelGroups vs = group_map gs";
        cases "groupsLoaded vs = groupsLoaded ?v1")
      (simp_all add: setChannelGroups_def Let_def)
qed

lemma merge_sound: "view_ok vs \<Longrightarrow> sound vs (merge_entries entries vs)"
  unfolding merge_entries_def
  by (auto intro!: sound_bump intro: sound_refl)

lemma change_sound:
  assumes "view_ok vs"
  shows "\<exists>vs'. change base e vs = Some vs' \<and> sound vs vs'"
proof (cases "vs_status vs = Live")
  case True
  have "tree_inv {} (vs_tree vs)" using assms by (simp add: view_ok_def)
  then obtain t where t: "apply_event base e (vs_tree vs) = Some t" "tree_inv {} t"
    using apply_event_total by blast
  have "view_ok (bump (put_tree t vs))" using assms t(2) by (auto simp: view_ok_def put_tree_def)
  moreover have "moved vs (bump (put_tree t vs))" by (rule moved_bump) (simp_all add: put_tree_def)
  ultimately show ?thesis using True t(1) by (simp add: change_def sound_def)
qed (simp add: change_def sound_refl assms)

lemma reset_view_sound:
  assumes "view_ok vs"
  shows "sound vs (reset_view vs)"
proof -
  let ?c = "roster_clear vs"
  have c: "sound vs ?c" using roster_clear_sound[OF assms] .
  have "view_ok (reset_view vs)"
    using c from_channels_total[of "[]"] by (auto simp: reset_view_def view_ok_def put_tree_def sound_def)
  moreover have "moved ?c (reset_view vs)"
    unfolding reset_view_def by (rule moved_bump) (simp_all add: put_tree_def)
  ultimately show ?thesis using c moved_trans by (auto simp: sound_def)
qed

lemma settle_waiters_moved: "moved vs (settle_waiters oc vs)"
  by (rule moved_same) (simp_all add: settle_waiters_def visible_def groupsLoaded_def)

lemma finish_welcome_sound:
  assumes "view_ok vs"
  shows "sound vs (snd (finish_welcome vs))"
proof (cases "vs_status vs = Loading")
  case True
  have "moved vs (snd (finish_welcome vs))"
    using True by (auto simp: finish_welcome_def Let_def moved_def bump_def settle_waiters_def put_tree_def)
  moreover have "view_ok (snd (finish_welcome vs))"
    using assms True from_channels_total
    by (simp add: finish_welcome_def Let_def view_ok_def settle_waiters_def put_tree_def promises_all)
  ultimately show ?thesis by (simp add: sound_def)
qed (simp add: finish_welcome_def sound_refl assms)

lemma end_view_sound:
  assumes "view_ok vs"
  shows "sound vs (end_view cause vs)"
proof (cases "vs_status vs = Loading \<or> vs_status vs = Live")
  case True
  have "moved vs (end_view cause vs)"
    using True by (auto simp: end_view_def moved_def bump_def settle_waiters_def Let_def)
  moreover have "view_ok (end_view cause vs)"
    using assms True by (auto simp: end_view_def view_ok_def settle_waiters_def promises_all)
  ultimately show ?thesis by (simp add: sound_def)
qed (simp add: end_view_def sound_refl assms)

lemma settle_now_sound:
  assumes "view_ok vs"
  shows "sound vs (settle_now oc vs)"
  using assms
  by (intro sound_same)
    (simp_all add: settle_now_def visible_def groupsLoaded_def view_ok_def promises_settle)

lemma add_waiter_sound:
  assumes "view_ok vs" "vs_status vs = Empty \<or> vs_status vs = Loading"
  shows "sound vs (vs\<lparr>vs_waiters := vs_waiters vs @ [vs_promises vs], vs_promises := Suc (vs_promises vs)\<rparr>)"
proof (rule sound_same[OF assms(1)])
  show "view_ok (vs\<lparr>vs_waiters := vs_waiters vs @ [vs_promises vs], vs_promises := Suc (vs_promises vs)\<rparr>)"
    using assms by (simp add: view_ok_def promises_wait)
qed (simp_all add: visible_def groupsLoaded_def)

lemma whenReady_sound:
  assumes "view_ok vs"
  shows "sound vs (whenReady aborted vs)"
  using settle_now_sound[OF assms] add_waiter_sound[OF assms]
  by (cases aborted; cases "vs_status vs") (simp_all add: whenReady_def)

lemma abort_wait_sound:
  assumes "view_ok vs"
  shows "sound vs (abort_wait w reason vs)"
proof (cases "w \<in> set (vs_waiters vs)")
  case True
  let ?vs = "vs\<lparr>vs_waiters := removeAll w (vs_waiters vs),
    vs_settled := vs_settled vs @ [(w, Rejected (Aborted reason))]\<rparr>"
  have "vs_waiters vs \<noteq> []" using True by auto
  then have "view_ok ?vs" using assms True by (simp add: view_ok_def promises_one)
  then have "sound vs ?vs" by (intro sound_same[OF assms]) (simp_all add: visible_def groupsLoaded_def)
  with True show ?thesis by (simp add: abort_wait_def)
qed (simp add: abort_wait_def sound_refl assms)

lemma read_clients_sound:
  assumes "view_ok vs"
  shows "sound vs (snd (read_clients vs))" "fst (read_clients vs) = vs_roster vs"
proof -
  have "view_ok (vs\<lparr>vs_known := (vs_revision vs, vs_roster vs)\<rparr>)" using assms by (simp add: view_ok_def)
  then have "sound vs (vs\<lparr>vs_known := (vs_revision vs, vs_roster vs)\<rparr>)"
    by (intro sound_same[OF assms]) (simp_all add: visible_def groupsLoaded_def)
  then show "sound vs (snd (read_clients vs))"
    using sound_refl[OF assms] by (simp add: read_clients_def Let_def)
  show "fst (read_clients vs) = vs_roster vs"
    using assms by (simp add: read_clients_def Let_def view_ok_def)
qed

lemma read_channels_sound:
  assumes "view_ok vs"
  shows "sound vs (snd (read_channels vs))" "fst (read_channels vs) = preorder (vs_tree vs)"
proof -
  have "view_ok (vs\<lparr>vs_ordered := (vs_tree_at vs, preorder (vs_tree vs))\<rparr>)"
    using assms by (simp add: view_ok_def)
  then have "sound vs (vs\<lparr>vs_ordered := (vs_tree_at vs, preorder (vs_tree vs))\<rparr>)"
    by (intro sound_same[OF assms]) (simp_all add: visible_def groupsLoaded_def)
  then show "sound vs (snd (read_channels vs))"
    using sound_refl[OF assms] by (simp add: read_channels_def Let_def)
  show "fst (read_channels vs) = preorder (vs_tree vs)"
    using assms by (simp add: read_channels_def Let_def view_ok_def)
qed

section \<open>The Roster as the clients of the notifications\<close>

definition store_clients :: "('v, 'g, 'x) view_store client_map" where
  "store_clients = \<lparr>cm_get = \<lambda>vs. map_of (vs_roster vs), cm_set = roster_set, cm_delete = roster_delete\<rparr>"

interpretation roster: known_clients store_clients
proof
  fix s :: "('v, 'g, 'x) view_store" and i e
  show "cm_get store_clients (cm_set store_clients i e s) = (cm_get store_clients s)(i \<mapsto> e)"
    by (simp add: store_clients_def roster_set_def update_conv')
  show "cm_get store_clients (cm_delete store_clients i s) = (cm_get store_clients s)(i := None)"
    by (auto simp: store_clients_def roster_delete_def delete_conv')
qed

definition roster_ok :: "('v, 'g, 'x) view_store \<Rightarrow> bool" where
  "roster_ok vs \<longleftrightarrow> js_keys_distinct (vs_roster vs) \<and> known_ok (map_of (vs_roster vs))"

interpretation roster_keeps: kept_clients store_clients "\<lambda>vs'. sound vs vs' \<and> js_keys_distinct (vs_roster vs')"
  for vs :: "('v, 'g, 'x) view_store"
proof
  fix s :: "('v, 'g, 'x) view_store" and i e
  assume s: "sound vs s \<and> js_keys_distinct (vs_roster s)"
  then have ok: "view_ok s" by (simp add: sound_def)
  show "sound vs (cm_set store_clients i e s) \<and> js_keys_distinct (vs_roster (cm_set store_clients i e s))"
    using s sound_trans[OF conjunct1[OF s] roster_set_sound[OF ok, of i e]]
    by (simp add: store_clients_def roster_set_def)
  show "sound vs (cm_delete store_clients i s) \<and> js_keys_distinct (vs_roster (cm_delete store_clients i s))"
    using s sound_trans[OF conjunct1[OF s] roster_delete_sound[OF ok, of i]]
    by (simp add: store_clients_def roster_delete_def)
qed

lemma notify_sound:
  assumes "view_ok vs" "roster_ok vs"
  shows "\<exists>r vs'. handleNotification store_clients cmd self vs = Inr (r, vs') \<and> sound vs vs' \<and> roster_ok vs' \<and>
    map_of (vs_roster vs') = notified cmd (map_of (vs_roster vs))"
proof -
  obtain r vs' where h: "handleNotification store_clients cmd self vs = Inr (r, vs')"
    "cm_get store_clients vs' = notified cmd (cm_get store_clients vs)"
    using roster.notification_refines by blast
  have "sound vs vs' \<and> js_keys_distinct (vs_roster vs')"
    using roster_keeps.notification_keeps[OF _ h(1), of vs] sound_refl[OF assms(1)] assms(2)
    by (simp add: roster_ok_def)
  moreover have "map_of (vs_roster vs') = notified cmd (map_of (vs_roster vs))"
    using h(2) by (simp add: store_clients_def)
  ultimately show ?thesis using h(1) assms(2) notified_ok by (auto simp: roster_ok_def)
qed

section \<open>Runs\<close>

datatype ('v, 'g, 'x) view_op = Notify int command | Reset | Announce | Collect "'v channel" | Finish
  | Change "'v fields" "'v channel_event" | DropChannel int int
  | ServerGroups "(nat \<times> 'g) list" | ChannelGroups "(nat \<times> 'g) list"
  | Patch "(string \<times> string) list" | Merge "(string \<times> string) list"
  | EndView "'x end_cause" | WhenReady "'x option" | AbortWait nat 'x | ReadClients | ReadChannels

fun view_step :: "('v, 'g, 'x) view_op \<Rightarrow> ('v, 'g, 'x) view_store \<Rightarrow> ('v, 'g, 'x) view_store option" where
  "view_step (Notify self cmd) vs =
     (case handleNotification store_clients cmd self vs of Inl _ \<Rightarrow> None | Inr (r, vs') \<Rightarrow> Some vs')"
| "view_step Reset vs = Some (reset_view vs)"
| "view_step Announce vs = Some (snd (announce vs))"
| "view_step (Collect row) vs = Some (collect_row row vs)"
| "view_step Finish vs = Some (snd (finish_welcome vs))"
| "view_step (Change base e) vs = change base e vs"
| "view_step (DropChannel self i) vs = Some (dropChannel self i vs)"
| "view_step (ServerGroups gs) vs = Some (setServerGroups gs vs)"
| "view_step (ChannelGroups gs) vs = Some (setChannelGroups gs vs)"
| "view_step (Patch entries) vs = Some (patchServer entries vs)"
| "view_step (Merge entries) vs = Some (mergeServer entries vs)"
| "view_step (EndView cause) vs = Some (end_view cause vs)"
| "view_step (WhenReady aborted) vs = Some (whenReady aborted vs)"
| "view_step (AbortWait w reason) vs = Some (abort_wait w reason vs)"
| "view_step ReadClients vs = Some (snd (read_clients vs))"
| "view_step ReadChannels vs = Some (snd (read_channels vs))"

primrec view_run :: "('v, 'g, 'x) view_op list \<Rightarrow> ('v, 'g, 'x) view_store \<Rightarrow> ('v, 'g, 'x) view_store option" where
  "view_run [] vs = Some vs"
| "view_run (p # ps) vs = Option.bind (view_step p vs) (view_run ps)"

lemma roster_ok_same: "vs_roster vs' = vs_roster vs \<Longrightarrow> roster_ok vs' = roster_ok vs"
  by (simp add: roster_ok_def)

lemma roster_ok_delete: "roster_ok vs \<Longrightarrow> roster_ok (roster_delete i vs)"
  by (auto simp: roster_ok_def roster_delete_def known_ok_def delete_conv')

lemma roster_ok_drop:
  assumes "roster_ok vs"
  shows "roster_ok (dropChannel self i vs)"
proof -
  have "roster_ok v \<Longrightarrow> roster_ok (fold (\<lambda>(j, e) v. if entry_channel e = Some i \<and> j \<noteq> self
      then roster_delete j v else v) l v)" for l and v :: "('a, 'b, 'c) view_store"
  proof (induction l arbitrary: v)
    case (Cons p l)
    then show ?case by (cases p) (simp add: roster_ok_delete)
  qed simp
  from this[OF assms] show ?thesis unfolding dropChannel_def .
qed

lemma roster_same:
  "vs_roster (snd (announce vs)) = vs_roster vs" "vs_roster (collect_row row vs) = vs_roster vs"
  "vs_roster (snd (finish_welcome vs)) = vs_roster vs" "vs_roster (setServerGroups gs vs) = vs_roster vs"
  "vs_roster (setChannelGroups gs vs) = vs_roster vs" "vs_roster (merge_entries es vs) = vs_roster vs"
  "vs_roster (end_view cause vs) = vs_roster vs" "vs_roster (whenReady aborted vs) = vs_roster vs"
  "vs_roster (abort_wait w reason vs) = vs_roster vs" "vs_roster (snd (read_clients vs)) = vs_roster vs"
  "vs_roster (snd (read_channels vs)) = vs_roster vs" "vs_roster (reset_view vs) = []"
  by (simp_all add: announce_def collect_row_def finish_welcome_def put_tree_def settle_waiters_def setServerGroups_def
      setChannelGroups_def merge_entries_def end_view_def whenReady_def settle_now_def abort_wait_def
      read_clients_def read_channels_def reset_view_def roster_clear_def Let_def
      split: option.split view_status.split)

lemma change_roster: "change base e vs = Some vs' \<Longrightarrow> vs_roster vs' = vs_roster vs"
  by (auto simp: change_def put_tree_def split: if_splits)

lemma view_step_sound:
  assumes "view_ok vs" "roster_ok vs"
  shows "\<exists>vs'. view_step p vs = Some vs' \<and> sound vs vs' \<and> roster_ok vs'"
proof (cases p)
  case (Notify self cmd)
  then show ?thesis using notify_sound[OF assms, of cmd self] by auto
next
  case (Change base e)
  then show ?thesis using change_sound[OF assms(1), of base e] change_roster[of base e vs] assms(2)
    by (auto simp: roster_ok_def)
next
  case Reset
  have "roster_ok (reset_view vs)" by (simp add: roster_ok_def roster_same known_ok_def)
  with Reset show ?thesis using reset_view_sound[OF assms(1)] by simp
qed (use assms in \<open>simp_all add: announce_sound collect_row_sound finish_welcome_sound dropChannel_sound
      setServerGroups_sound setChannelGroups_sound patchServer_def mergeServer_def merge_sound
      end_view_sound whenReady_sound abort_wait_sound read_clients_sound read_channels_sound
      roster_ok_drop roster_ok_same[OF roster_same(1)] roster_ok_same[OF roster_same(2)]
      roster_ok_same[OF roster_same(3)] roster_ok_same[OF roster_same(4)] roster_ok_same[OF roster_same(5)]
      roster_ok_same[OF roster_same(6)] roster_ok_same[OF roster_same(7)] roster_ok_same[OF roster_same(8)]
      roster_ok_same[OF roster_same(9)] roster_ok_same[OF roster_same(10)] roster_ok_same[OF roster_same(11)]\<close>)

lemma view_run_ok:
  assumes "view_ok vs" "roster_ok vs"
  shows "\<exists>vs'. view_run ps vs = Some vs' \<and> sound vs vs' \<and> roster_ok vs'"
  using assms
proof (induction ps arbitrary: vs)
  case Nil
  then show ?case by (simp add: sound_refl)
next
  case (Cons p ps)
  obtain v where v: "view_step p vs = Some v" "sound vs v" "roster_ok v"
    using view_step_sound[OF Cons.prems] by blast
  moreover from v have "view_ok v" by (simp add: sound_def)
  ultimately show ?case using Cons.IH[of v] sound_trans[of vs v] by auto
qed

lemma new_store_roster: "roster_ok new_store"
  by (simp add: roster_ok_def new_store_def known_ok_def)

text \<open>Every state a view can be in.\<close>

lemma view_reachable:
  assumes "view_run ps new_store = Some vs"
  shows "view_ok vs \<and> roster_ok vs"
  using view_run_ok[OF new_store_ok new_store_roster, of ps] assms by (auto simp: sound_def)

end
