(* ===== verification/Client_Session.thy ===== *)
theory Client_Session
  imports View_Facts Command_Tracker Reconnect_Loop Row_Splitter
begin

text \<open>
  A command line from the server, as the voice client takes it, \<open>src/client/client.ts\<close>: from the
  text of a packet to rows, to the command tracker, the view, the known clients and the events
  the listeners get. It puts together the row splitter, the command parser, the tracker, the
  notifications, the view and the reconnect loop, whose record is a field of the session here.

  The handshake's own handlers are called with a row, and the session records the call. A
  delivery is an event that waits for its turn; \<open>sn_delivered\<close> lists those that had it.
\<close>

section \<open>Records of the wire as channels and groups\<close>

definition id_field :: "string \<Rightarrow> entry \<Rightarrow> nat" where
  "id_field k e = (case en_fields e k of Some (Some (VId i)) \<Rightarrow> nat i | _ \<Rightarrow> 0)"

definition channel_of :: "entry \<Rightarrow> field_value channel" where
  "channel_of e =
     \<lparr>ch_id = nat (en_id e), ch_parent = id_field ''parentID'' e, ch_order = id_field ''order'' e,
      ch_fields = (\<lambda>k. if k = ''parentID'' \<or> k = ''order'' then None else Option.bind (en_fields e k) id)\<rparr>"

definition changes_of :: "field_map \<Rightarrow> field_value changes" where
  "changes_of f =
     \<lparr>cg_order = (case f ''order'' of Some (Some (VId i)) \<Rightarrow> Some (nat i) | _ \<Rightarrow> None),
      cg_fields = (\<lambda>k. if k = ''parentID'' \<or> k = ''order'' then None else f k)\<rparr>"

definition CREATED_CHANNEL_DEFAULTS :: "(string \<times> string) list" where
  "CREATED_CHANNEL_DEFAULTS =
    [(''channel_name'', ''''), (''channel_topic'', ''''), (''channel_codec'', ''4''),
     (''channel_codec_quality'', ''5''), (''channel_maxclients'', ''-1''),
     (''channel_maxfamilyclients'', ''-1''), (''channel_order'', ''0''),
     (''channel_flag_permanent'', ''0''), (''channel_flag_semi_permanent'', ''0''),
     (''channel_flag_default'', ''0''), (''channel_flag_password'', ''0''),
     (''channel_codec_latency_factor'', ''1''), (''channel_delete_delay'', ''0''),
     (''channel_flag_maxclients_unlimited'', ''1''),
     (''channel_flag_maxfamilyclients_unlimited'', ''1''),
     (''channel_flag_maxfamilyclients_inherited'', ''0''), (''channel_needed_talk_power'', ''0''),
     (''channel_forced_silence'', ''0''), (''channel_name_phonetic'', ''''), (''channel_icon_id'', ''0''),
     (''channel_banner_gfx_url'', ''''), (''channel_banner_mode'', ''0'')]"

text \<open>What a created channel holds where its notification says nothing.\<close>

definition created_base :: "nat \<Rightarrow> field_value fields" where
  "created_base i =
     (case parseChannel ((map_of CREATED_CHANNEL_DEFAULTS)(''cid'' \<mapsto> string_of_nat i)) of
        Inl _ \<Rightarrow> Map.empty | Inr e \<Rightarrow> ch_fields (channel_of e))"

type_synonym group_record = "(string \<times> field_value option) list"

definition group_fields :: "params \<Rightarrow> group_record" where
  "group_fields row =
     [(''name'', Some (VText (str row ''name''))), (''type'', Some (VNumber (num row ''type''))),
      (''iconID'', map_option VId (icon row ''iconid'')),
      (''savedInDatabase'', Some (VBool (bool row ''savedb''))),
      (''sortID'', Some (VNumber (num row ''sortid''))),
      (''nameMode'', Some (VNumber (num row ''namemode''))),
      (''modifyPower'', Some (VNumber (num row ''n_modifyp''))),
      (''memberAddPower'', Some (VNumber (num row ''n_member_addp''))),
      (''memberRemovePower'', Some (VNumber (num row ''n_member_removep'')))]"

definition parseServerGroup :: "params \<Rightarrow> nat \<times> group_record" where
  "parseServerGroup row = (nat (big row ''sgid''), group_fields row)"

definition parseChannelGroup :: "params \<Rightarrow> nat \<times> group_record" where
  "parseChannelGroup row = (nat (big row ''cgid''), group_fields row)"

section \<open>The session\<close>

datatype delivery = D_Event notification_result | D_Left leave_event "entry option"
  | D_Deleted int invoked "field_value channel option" | D_Notification string params
  | D_Connected bool | D_Disconnected "client_error option" bool | D_ViewReady nat
  | D_ViewChanged nat | D_Kicked js_number string invoked

text \<open>The trace of the connection attempt: whether its session began and its welcome is done.\<close>

record attempt_trace =
  tr_reconnect :: bool
  tr_started :: bool
  tr_welcomed :: bool
  tr_channels :: nat

record session =
  sn_loop :: "client_error client"
  sn_keys :: bool
  sn_clid :: int
  sn_nickname :: string
  sn_trace :: "attempt_trace option"
  sn_sessions :: nat
  sn_track :: tracker
  sn_view :: "(field_value, group_record, client_error) view_store"
  sn_group_line :: "(string \<times> params list) option"
  sn_queue :: "delivery list"
  sn_draining :: bool
  sn_delivered :: "delivery list"
  sn_handed :: "(string \<times> params) list"
  sn_answers :: nat
  sn_goodbye :: "bool option"
  sn_closed :: bool
  sn_leave_soon :: bool

text \<open>
  The options: the reconnect policy and its draw, whether there is event middleware, and whether
  anyone listens to the catch-all event.
\<close>

record session_options =
  so_reconnect :: "client_error reconnect_config option"
  so_random :: real
  so_middleware :: bool
  so_catch_all :: bool

definition sn_status :: "session \<Rightarrow> client_status" where
  "sn_status s = cl_status (sn_loop s)"

definition new_voice_session :: "string \<Rightarrow> session" where
  "new_voice_session nickname = \<lparr>sn_loop = new_client, sn_keys = False, sn_clid = 0, sn_nickname = nickname,
     sn_trace = None, sn_sessions = 0, sn_track = new_tracker, sn_view = new_store,
     sn_group_line = None, sn_queue = [], sn_draining = False, sn_delivered = [], sn_handed = [],
     sn_answers = 0, sn_goodbye = None, sn_closed = False, sn_leave_soon = False\<rparr>"

section \<open>Deliveries\<close>

definition scheduleDrain :: "session \<Rightarrow> session" where
  "scheduleDrain s = s\<lparr>sn_draining := True\<rparr>"

definition enqueue :: "delivery \<Rightarrow> session \<Rightarrow> session" where
  "enqueue d s = scheduleDrain (s\<lparr>sn_queue := sn_queue s @ [d]\<rparr>)"

text \<open>A change of the view, whose callback schedules the deliveries.\<close>

type_synonym view = "(field_value, group_record, client_error) view_store"

definition with_view :: "(view \<Rightarrow> view) \<Rightarrow> session \<Rightarrow> session" where
  "with_view f s =
     (let v = f (sn_view s); s' = s\<lparr>sn_view := v\<rparr>
      in if vs_calls v \<noteq> vs_calls (sn_view s) then scheduleDrain s' else s')"

text \<open>A step of the reconnect loop's fields; what it announces is queued.\<close>

definition announcements :: "client_error loop_event list \<Rightarrow> delivery list" where
  "announcements evs =
     concat (map (\<lambda>e. case e of Announced err will \<Rightarrow> [D_Disconnected err will] | _ \<Rightarrow> []) evs)"

definition with_loop :: "(client_error client \<Rightarrow> client_error client) \<Rightarrow> session \<Rightarrow> session" where
  "with_loop f s =
     (let l = f (sn_loop s)
      in fold enqueue (announcements (drop (length (cl_events (sn_loop s))) (cl_events l)))
           (s\<lparr>sn_loop := l\<rparr>))"

text \<open>
  \<open>#drain\<close>: the deliveries in order, until the queue is empty or one throws, which only event
  middleware can make it do; then one report that the view moved.
\<close>

fun deliver_all :: "(delivery \<Rightarrow> bool) \<Rightarrow> delivery list \<Rightarrow> delivery list \<times> delivery list \<times> bool" where
  "deliver_all throws [] = ([], [], False)"
| "deliver_all throws (d # ds) =
     (if throws d then ([d], ds, True)
      else (case deliver_all throws ds of (out, rest, threw) \<Rightarrow> (d # out, rest, threw)))"

definition drain_deliveries :: "(delivery \<Rightarrow> bool) \<Rightarrow> session \<Rightarrow> session" where
  "drain_deliveries throws s =
     (if \<not> sn_draining s then s
      else case deliver_all throws (sn_queue s) of (out, rest, threw) \<Rightarrow>
        (let s1 = s\<lparr>sn_queue := rest, sn_delivered := sn_delivered s @ out\<rparr>;
             (revision, v) = announce (sn_view s1);
             s2 = (if threw then s1
                   else s1\<lparr>sn_view := v,
                          sn_delivered := sn_delivered s1 @
                            (case revision of None \<Rightarrow> [] | Some r \<Rightarrow> [D_ViewChanged r])\<rparr>)
         in s2\<lparr>sn_draining := (rest \<noteq> [])\<rparr>))"

section \<open>The end of a connection\<close>

definition endSession :: "client_error end_cause \<Rightarrow> session \<Rightarrow> session" where
  "endSession cause = with_view (end_view cause)"

text \<open>The \<open>NotConnectedError\<close> waiting commands fail with; its cause is the error of the end, where it has one.\<close>

definition gone :: "client_error option \<Rightarrow> command_error" where
  "gone cause = NotConnectedError cause"

definition session_fails :: "session_options \<Rightarrow> client_error \<Rightarrow> session \<Rightarrow> session" where
  "session_fails op err s =
     (if sn_status s = Connected then s
      else let s1 = with_view (end_view (AnError err)) s
           in if sn_status s1 = Disconnected then s1
              else with_loop (failConnection (so_reconnect op) err) (s1\<lparr>sn_closed := True\<rparr>))"

text \<open>
  The transport closed, or the server ended the session. \<open>None\<close> is a close without an error,
  for which the code makes one up.
\<close>

definition closed_error :: "session \<Rightarrow> client_error option \<Rightarrow> client_error" where
  "closed_error s err =
     (case err of
        Some e \<Rightarrow> e
      | None \<Rightarrow> ConnectionLost (if sn_status s = Connected then ''connection closed''
                  else ''connection closed before the TeamSpeak handshake completed''))"

definition session_closes :: "session_options \<Rightarrow> client_error option \<Rightarrow> session \<Rightarrow> session" where
  "session_closes op err s =
     (if sn_status s = Disconnected then s
      else let s1 = s\<lparr>sn_track := reset_tracker (gone err) (sn_track s)\<rparr>; cause = closed_error s err
           in if sn_status s \<noteq> Connected then session_fails op cause s1
              else with_loop (handleConnectionClosed (so_reconnect op) (so_random op) cause)
                     (endSession (AnError cause) s1))"

definition removedByServer :: "session_options \<Rightarrow> client_error \<Rightarrow> session \<Rightarrow> session" where
  "removedByServer op cause s = (session_closes op (Some cause) s)\<lparr>sn_closed := True\<rparr>"

section \<open>Notifications\<close>

definition kicked_by :: "js_number \<Rightarrow> string \<Rightarrow> invoked \<Rightarrow> session \<Rightarrow> session" where
  "kicked_by reason message by_whom = enqueue (D_Kicked reason message by_whom)"

text \<open>
  \<open>#processNotificationResult\<close>. The channel events carry ids as the tree has them.
\<close>

definition change_view :: "nat \<Rightarrow> field_value channel_event \<Rightarrow> session \<Rightarrow> session" where
  "change_view i e =
     with_view (\<lambda>v. case change (created_base i) e v of None \<Rightarrow> v | Some v' \<Rightarrow> v')"

definition processResult ::
  "session_options \<Rightarrow> notification_result \<Rightarrow> entry option \<Rightarrow> session \<Rightarrow> session" where
  "processResult op result leaving s =
     (case result of
        ClientEnter info from_id reason \<Rightarrow>
          enqueue (D_Event result)
            (if en_id info = sn_clid s
             then s\<lparr>sn_nickname := (case en_fields info ''nickname'' of Some (Some (VText n)) \<Rightarrow> n | _ \<Rightarrow> sn_nickname s)\<rparr>
             else s)
      | ClientLeave ev isSelf \<Rightarrow>
          (let s1 = enqueue (D_Left ev leaving) s
           in if \<not> isSelf then s1
              else removedByServer op (RemovedFromServer (lv_reason ev) (lv_message ev) (iv_name (lv_by ev)))
                     (if lv_reason ev = Reason_KickServer \<or> lv_reason ev = Reason_KickServerBan
                      then kicked_by (lv_reason ev) (lv_message ev) (lv_by ev) s1 else s1))
      | ClientMoved ev \<Rightarrow>
          (let s1 = enqueue (D_Event result) s
           in if mv_client ev = sn_clid s \<and> mv_reason ev = Reason_KickChannel
              then kicked_by (mv_reason ev) (mv_message ev) (mv_by ev) s1 else s1)
      | ClientUpdated clid changes by_whom \<Rightarrow>
          enqueue (D_Event result)
            (if clid = sn_clid s
             then s\<lparr>sn_nickname := (case changes ''nickname'' of Some (Some (VText n)) \<Rightarrow> n | _ \<Rightarrow> sn_nickname s)\<rparr>
             else s)
      | ChannelCreated i parent changes by_whom \<Rightarrow>
          enqueue (D_Event result)
            (change_view (nat i) (Created (nat i) (nat parent) (changes_of changes)) s)
      | ChannelEdited i reason changes by_whom \<Rightarrow>
          enqueue (D_Event result) (change_view (nat i) (Edited (nat i) (changes_of changes)) s)
      | ChannelMoved i parent order reason by_whom \<Rightarrow>
          enqueue (D_Event result) (change_view (nat i) (Moved (nat i) (nat parent) (nat order)) s)
      | ChannelDeleted i by_whom \<Rightarrow>
          enqueue (D_Deleted i by_whom (channelBeforeDeletion (nat i) (sn_view s)))
            (change_view (nat i) (Deleted (nat i)) s)
      | ServerEdited changes by_whom \<Rightarrow> enqueue (D_Event result) s
      | ChannelUnsubscribed i \<Rightarrow>
          enqueue (D_Event result) (with_view (dropChannel (sn_clid s) i) s)
      | UnknownNotification \<Rightarrow> s
      | _ \<Rightarrow> enqueue (D_Event result) s)"

text \<open>
  \<open>patchServer\<close> takes the entries of the changes, which the result holds as a map; it runs here
  with the entries of the row, before the event is queued.
\<close>

definition processNotification ::
  "session_options \<Rightarrow> (string \<times> string) list \<Rightarrow> notification_result \<Rightarrow> entry option \<Rightarrow> session \<Rightarrow> session" where
  "processNotification op entries result leaving s =
     processResult op result leaving
       (case result of ServerEdited _ _ \<Rightarrow> with_view (patchServer entries) s | _ \<Rightarrow> s)"

text \<open>The rows of a group list, taken together once their line is done.\<close>

definition applyGroupLine :: "session \<Rightarrow> session" where
  "applyGroupLine s =
     (case sn_group_line s of
        None \<Rightarrow> s
      | Some (name, rows) \<Rightarrow>
          with_view
            (if name = ''notifyservergrouplist''
             then setServerGroups (filter (\<lambda>g. fst g \<noteq> 0) (map parseServerGroup rows))
             else setChannelGroups (filter (\<lambda>g. fst g \<noteq> 0) (map parseChannelGroup rows)))
            (s\<lparr>sn_group_line := None\<rparr>))"

definition add_group_row :: "string \<Rightarrow> params \<Rightarrow> session \<Rightarrow> session" where
  "add_group_row name row s =
     (let s1 = (case sn_group_line s of
                  Some (n, _) \<Rightarrow> if n \<noteq> name then applyGroupLine s else s
                | None \<Rightarrow> applyGroupLine s);
          rows = (case sn_group_line s1 of Some (_, rs) \<Rightarrow> rs | None \<Rightarrow> [])
      in s1\<lparr>sn_group_line := Some (name, rows @ [row])\<rparr>)"

text \<open>A row whose name begins with \<open>notify\<close>.\<close>

definition handle_notify ::
  "session_options \<Rightarrow> string \<Rightarrow> (string \<times> string) list \<Rightarrow> session \<Rightarrow> session" where
  "handle_notify op name entries s =
     (let row = map_of entries;
          s1 = (if expects name (sn_track s)
                then s\<lparr>sn_track := offerCorrelated name row (buffer row name (sn_track s))\<rparr> else s);
          s2 = (if name = ''notifyconnectioninforequest'' then s1\<lparr>sn_answers := sn_answers s1 + 1\<rparr> else s1);
          s3 = (if name = ''notifyservergrouplist'' \<or> name = ''notifychannelgrouplist''
                then add_group_row name row s2
                else if name = ''notifyserverupdated'' then with_view (mergeServer entries) s2 else s2);
          leaving = (if name = ''notifyclientleftview''
                     then map_of (vs_roster (sn_view s3)) (parseUint16 (str row ''clid'')) else None);
          cmd = \<lparr>cmd_name = name, cmd_params = row\<rparr>
      in case handleNotification store_clients cmd (sn_clid s3) (sn_view s3) of
           Inl _ \<Rightarrow> s3
         | Inr (result, v) \<Rightarrow>
             (let s4 = processNotification op entries result leaving (with_view (\<lambda>_. v) s3)
              in if so_catch_all op \<or> so_middleware op then enqueue (D_Notification name row) s4 else s4))"

section \<open>The other rows\<close>

definition handleError :: "session_options \<Rightarrow> params \<Rightarrow> session \<Rightarrow> session" where
  "handleError op row s =
     (let (err, rc) = parseServerError row;
          s1 = s\<lparr>sn_track := (case rc of
                   Some rc \<Rightarrow> resolve (nat (sn_clid s)) rc (map_option Refused err) (sn_track s)
                 | None \<Rightarrow> discardBuffer (sn_track s))\<rparr>
      in case err of
           None \<Rightarrow> s1
         | Some e \<Rightarrow>
             if sn_status s1 \<noteq> Connected then session_fails op (ServerRefused e) s1
             else if se_code e = ConnectFailedBanned then s1\<lparr>sn_leave_soon := True\<rparr>
             else s1)"

text \<open>
  \<open>initserver\<close>: the properties are seeded, and then the client id the server gives must be one, or
  the attempt fails. \<open>handleInitServer\<close> also records what the server can do, which is not modelled.
\<close>

definition session_connected :: "session \<Rightarrow> session" where
  "session_connected s =
     (if sn_status s \<noteq> Connecting then s
      else let s1 = with_loop markConnected (s\<lparr>sn_sessions := sn_sessions s + 1,
                 sn_trace := map_option (\<lambda>t. t\<lparr>tr_started := True\<rparr>) (sn_trace s)\<rparr>)
           in enqueue (D_Connected (case sn_trace s of Some t \<Rightarrow> tr_reconnect t | None \<Rightarrow> False)) s1)"

definition announced_id :: "params \<Rightarrow> int option" where
  "announced_id row =
     (case row ''aclid'' of
        None \<Rightarrow> None
      | Some raw \<Rightarrow>
          (case js_Number raw of
             Finite q \<Rightarrow> if js_isInteger (Finite q) \<and> q > 0 \<and> q \<le> 65535 then Some \<lfloor>q\<rfloor> else None
           | _ \<Rightarrow> None))"

definition no_id_error :: client_error where
  "no_id_error = HandshakeFailed ''initserver names no valid client id (aclid)''"

text \<open>A handler that may throw gives the session it leaves and what it threw.\<close>

type_synonym ran = "session \<times> client_error option"

definition handle_initserver :: "(string \<times> string) list \<Rightarrow> session \<Rightarrow> ran" where
  "handle_initserver entries s =
     (if sn_status s = Connecting \<and> sn_keys s
      then let s1 = with_view (patchServer entries) s
           in case announced_id (map_of entries) of
                None \<Rightarrow> (s1, Some no_id_error)
              | Some clid \<Rightarrow> (session_connected (s1\<lparr>sn_clid := clid\<rparr>), None)
      else (s, None))"

text \<open>The welcome's last row, and its rows.\<close>

definition markWelcomeDone :: "session \<Rightarrow> session" where
  "markWelcomeDone s =
     (case sn_trace s of
        None \<Rightarrow> s
      | Some t \<Rightarrow> if \<not> tr_started t \<or> tr_welcomed t \<or> sn_status s \<noteq> Connected then s
                  else s\<lparr>sn_trace := Some (t\<lparr>tr_welcomed := True\<rparr>)\<rparr>)"

definition welcome_finished :: "session \<Rightarrow> session" where
  "welcome_finished s =
     (let revision = (if sn_status s = Connected then fst (finish_welcome (sn_view s)) else None);
          s1 = (if sn_status s = Connected then with_view (\<lambda>v. snd (finish_welcome v)) s else s);
          s2 = (case revision of None \<Rightarrow> s1 | Some r \<Rightarrow> enqueue (D_ViewReady r) s1)
      in markWelcomeDone (s2\<lparr>sn_track := signalWelcomeComplete (sn_track s2)\<rparr>))"

definition welcome_row :: "params \<Rightarrow> session \<Rightarrow> session" where
  "welcome_row row s =
     (case sn_trace s of
        None \<Rightarrow> s
      | Some t \<Rightarrow>
          if tr_welcomed t then s
          else let s1 = s\<lparr>sn_trace := Some (t\<lparr>tr_channels := tr_channels t + 1\<rparr>)\<rparr>
               in if sn_status s = Connected
                  then (case parseChannel row of
                          Inl _ \<Rightarrow> s1 | Inr e \<Rightarrow> with_view (collect_row (channel_of e)) s1)
                  else s1)"

definition goodbye_answered :: "string \<Rightarrow> params \<Rightarrow> session \<Rightarrow> session" where
  "goodbye_answered name row s =
     (if name = ''notifyclientleftview'' \<and> sn_goodbye s \<noteq> None \<and>
         row ''clid'' = Some (string_of_int (sn_clid s))
      then s\<lparr>sn_goodbye := Some True\<rparr> else s)"

definition PRE_INIT_COMMANDS :: "string list" where
  "PRE_INIT_COMMANDS = [''clientinitiv'', ''initivexpand2'', ''error'']"

section \<open>A row, a packet\<close>

definition handle_row :: "session_options \<Rightarrow> string \<times> (string \<times> string) list \<Rightarrow> session \<Rightarrow> ran" where
  "handle_row op cmd s =
     (case cmd of (name, entries) \<Rightarrow>
        let row = map_of entries
        in if \<not> sn_keys s \<and> name \<notin> set PRE_INIT_COMMANDS then (s, None)
           else if name = [] then
             (if entries \<noteq> [] then s\<lparr>sn_track := buffer row [] (sn_track s)\<rparr> else s, None)
           else if name = ''channellistfinished'' then (welcome_finished s, None)
           else let s1 = (if name = ''channellist'' then welcome_row row s else s);
                    s2 = goodbye_answered name row s1
                in if take 6 name = ''notify'' then (handle_notify op name entries s2, None)
                   else if name = ''clientinitiv'' \<or> name = ''initivexpand2'' then
                     (if sn_keys s2 then s2 else s2\<lparr>sn_handed := sn_handed s2 @ [(name, row)]\<rparr>, None)
                   else if name = ''initserver'' then handle_initserver entries s2
                   else if name = ''error'' then (handleError op row s2, None)
                   else (s2\<lparr>sn_track := buffer row name (sn_track s2)\<rparr>, None))"

text \<open>\<open>parseCommand\<close>, with the entries of the parameters in the order they were first set.\<close>

definition parse_entries :: "string list \<Rightarrow> (string \<times> string) list" where
  "parse_entries parts =
     foldl (\<lambda>m p. if p = [] then m else (case parse_part unescape p of (k, v) \<Rightarrow> AList.update k v m))
       [] parts"

definition parse_row :: "string \<Rightarrow> (string \<times> (string \<times> string) list) option" where
  "parse_row t =
     (if t = [] then None
      else let parts = split_on CHR '' '' (skip_unprintable t); first = hd parts
           in if first = [] then None
              else if isCommandName first then Some (first, parse_entries (tl parts))
                else Some ([], parse_entries parts))"

definition handleCommandStr :: "session_options \<Rightarrow> string \<Rightarrow> session \<Rightarrow> ran" where
  "handleCommandStr op t s = (case parse_row t of None \<Rightarrow> (s, None) | Some cmd \<Rightarrow> handle_row op cmd s)"

fun handle_rows :: "session_options \<Rightarrow> string list \<Rightarrow> session \<Rightarrow> ran" where
  "handle_rows op [] s = (s, None)"
| "handle_rows op (t # ts) s =
     (case handleCommandStr op t s of
        (s', Some e) \<Rightarrow> (s', Some e) | (s', None) \<Rightarrow> handle_rows op ts s')"

definition strip_cr :: "string \<Rightarrow> string" where
  "strip_cr t = (if t \<noteq> [] \<and> last t = CHR 0x0D then butlast t else t)"

fun handle_lines :: "session_options \<Rightarrow> string list \<Rightarrow> session \<Rightarrow> ran" where
  "handle_lines op [] s = (s, None)"
| "handle_lines op (l # ls) s =
     (if strip_cr l = [] then handle_lines op ls s
      else (case handle_rows op (splitCommandRows (strip_cr l)) s of
              (s', Some e) \<Rightarrow> (s', Some e)
            | (s', None) \<Rightarrow> handle_lines op ls (applyGroupLine s')))"

definition packet_lines :: "string \<Rightarrow> string list" where
  "packet_lines t = split_on CHR 0x0A (map (\<lambda>c. if c = CHR 0x00 then CHR 0x0A else c) t)"

definition handleCommandLines :: "session_options \<Rightarrow> string \<Rightarrow> session \<Rightarrow> ran" where
  "handleCommandLines op t s = (if t = [] then (s, None) else handle_lines op (packet_lines t) s)"

text \<open>\<open>#handleReceiveError\<close> takes what a packet's handling threw.\<close>

definition receive_text :: "session_options \<Rightarrow> string \<Rightarrow> session \<Rightarrow> session" where
  "receive_text op t s =
     (case handleCommandLines op t s of
        (s', None) \<Rightarrow> s'
      | (s', Some e) \<Rightarrow> if sn_status s' \<noteq> Connected then session_fails op e s' else s')"

section \<open>Connecting and leaving\<close>

text \<open>
  \<open>#resetForConnect\<close> and what follows it, when a step of the loop or the caller's \<open>connect()\<close>
  begins an attempt.
\<close>

definition begin_session :: "bool \<Rightarrow> session \<Rightarrow> session" where
  "begin_session reconnect s =
     with_view reset_view
       (s\<lparr>sn_keys := False, sn_closed := False, sn_track := reset_tracker (gone None) (sn_track s), sn_clid := 0,
          sn_trace := Some \<lparr>tr_reconnect = reconnect, tr_started = False, tr_welcomed = False, tr_channels = 0\<rparr>\<rparr>)"

definition connect_with ::
  "bool \<Rightarrow> (client_error client \<Rightarrow> client_error client) \<Rightarrow> session \<Rightarrow> session" where
  "connect_with reconnect f s =
     (if sn_status s = Disconnected \<and> cl_status (f (sn_loop s)) = Connecting
      then with_loop f (begin_session reconnect s) else with_loop f s)"

text \<open>
  \<open>disconnect()\<close>: what it does at once, with a goodbye where the server may hold a session, and
  what follows the goodbye, which is at once where there is none.
\<close>

definition session_left :: "session \<Rightarrow> session" where
  "session_left s =
     (if cl_leaving (sn_loop s)
      then with_loop (disconnect_ends NotConnectedAnyMore)
             (endSession ByDisconnect
               (s\<lparr>sn_goodbye := None, sn_closed := True, sn_track := reset_tracker (gone None) (sn_track s)\<rparr>))
      else s)"

definition session_leaves :: "session \<Rightarrow> session" where
  "session_leaves s =
     (let s1 = with_loop disconnect_begins s
      in if cl_leaving (sn_loop s) \<or> sn_status s = Disconnected then s1
         else if sn_status s = Connected \<or> sn_keys s then s1\<lparr>sn_goodbye := Some False\<rparr>
         else session_left s1)"

section \<open>Runs\<close>

text \<open>
  What can happen to a client. A delivery throws only in event middleware. The keys are set up
  while a connection is being made, by the handshake.
\<close>

inductive voice_step :: "session_options \<Rightarrow> session \<Rightarrow> session \<Rightarrow> bool" for op where
  text_arrives: "voice_step op s (receive_text op t s)"
| drained: "voice_step op s (drain_deliveries (\<lambda>_. False) s)"
| drain_cut: "so_middleware op \<Longrightarrow> voice_step op s (drain_deliveries throws s)"
| keys_ready: "sn_status s = Connecting \<Longrightarrow> voice_step op s (s\<lparr>sn_keys := True\<rparr>)"
| closes: "voice_step op s (session_closes op err s)"
| attempt_fails: "voice_step op s (session_fails op err s)"
| connects: "voice_step op s (connect_with False connect_by_hand s)"
| loop_attempt: "voice_step op s (connect_with True (attempt_starts bad err) s)"
| loop_waits: "voice_step op s (with_loop wait_ends s)"
| loop_gives_up: "voice_step op s (with_loop (start_abandoned err) s)"
| loop_goes_on: "so_reconnect op = Some cf \<Longrightarrow>
    voice_step op s (with_loop (loop_resumes cf (so_random op) dropped) s)"
| leaves: "voice_step op s (session_leaves s)"
| left: "voice_step op s (session_left s)"
| sends: "voice_step op s (s\<lparr>sn_track := snd (register spec cor echo (sn_track s))\<rparr>)"
| gives_up: "voice_step op s (s\<lparr>sn_track := unregister rc (sn_track s)\<rparr>)"
| waits_ready: "voice_step op s (with_view (whenReady aborted) s)"
| stops_waiting: "voice_step op s (with_view (abort_wait w reason) s)"
| reads_clients: "voice_step op s (with_view (\<lambda>v. snd (read_clients v)) s)"
| reads_channels: "voice_step op s (with_view (\<lambda>v. snd (read_channels v)) s)"

section \<open>The parse with entries is the parse\<close>

lemma parse_entries_map: "map_of (parse_entries parts) = parse_params parts"
proof -
  have "map_of (foldl (\<lambda>m p. if p = [] then m else (case parse_part unescape p of (k, v) \<Rightarrow> AList.update k v m)) m parts)
      = foldl (\<lambda>m p. if p = [] then m else (case parse_part unescape p of (k, v) \<Rightarrow> m(k \<mapsto> v))) (map_of m) parts"
    for m :: "(string \<times> string) list"
    by (induction parts arbitrary: m) (auto simp: update_conv' split: prod.split)
  then show ?thesis by (simp add: parse_entries_def parse_params_def)
qed

lemma parse_row_command:
  "parseCommand t = map_option (\<lambda>(name, entries). \<lparr>cmd_name = name, cmd_params = map_of entries\<rparr>) (parse_row t)"
  by (simp add: parseCommand_def parse_row_def Let_def parse_entries_map)

end
