(* ===== verification/Session_Facts.thy ===== *)
theory Session_Facts
  imports Client_Session
begin

text \<open>
  What holds of a session whatever arrives: the view is where the connection is, every change of
  the view is announced, the view_reports of it go up, and the tracker, the roster and the channels
  keep their own invariants.
\<close>

section \<open>Operations of the view that only change what it holds\<close>

definition steady :: "(view \<Rightarrow> view) \<Rightarrow> view \<Rightarrow> bool" where
  "steady f v \<longleftrightarrow> (view_ok v \<and> roster_ok v \<longrightarrow>
     sound v (f v) \<and> roster_ok (f v) \<and> vs_announced (f v) = vs_announced v \<and> vs_status (f v) = vs_status v)"

text \<open>The status and the last report, which few operations touch.\<close>

definition same_mark :: "('v, 'g, 'x) view_store \<Rightarrow> ('v, 'g, 'x) view_store \<Rightarrow> bool" where
  "same_mark v v' \<longleftrightarrow> vs_announced v' = vs_announced v \<and> vs_status v' = vs_status v"

lemma same_mark_refl [simp]: "same_mark v v"
  by (simp add: same_mark_def)

lemma same_mark_bump: "same_mark v (bump v') = same_mark v v'"
  by (simp add: same_mark_def)

lemma same_mark_delete: "same_mark v w \<Longrightarrow> same_mark v (roster_delete i w)"
  by (simp add: roster_delete_def same_mark_def)

lemma same_mark_drop: "same_mark v (dropChannel self i v)"
proof -
  let ?f = "\<lambda>(j, e) v. if entry_channel e = Some i \<and> j \<noteq> self then roster_delete j v else v"
  have step: "same_mark v w \<Longrightarrow> same_mark v (?f p w)" for p w
    by (cases p) (simp add: same_mark_delete)
  have "same_mark v w \<Longrightarrow> same_mark v (fold ?f l w)" for l w
    by (induction l arbitrary: w) (simp_all only: fold_simps step)
  from this[OF same_mark_refl] show ?thesis unfolding dropChannel_def .
qed

lemma same_marks:
  "same_mark v (collect_row row v)" "same_mark v (setServerGroups gs v)" "same_mark v (setChannelGroups gs v)"
  "same_mark v (merge_entries es v)" "same_mark v (whenReady aborted v)" "same_mark v (abort_wait w reason v)"
  "same_mark v (snd (read_clients v))" "same_mark v (snd (read_channels v))"
  by (simp_all add: same_mark_def collect_row_def setServerGroups_def setChannelGroups_def merge_entries_def
      whenReady_def settle_now_def abort_wait_def read_clients_def read_channels_def Let_def
      split: option.split view_status.split)

lemma same_mark_change: "change base e v = Some v' \<Longrightarrow> same_mark v v'"
  by (auto simp: change_def put_tree_def same_mark_def split: if_splits)

interpretation mark_keeps: kept_clients store_clients "same_mark v" for v :: "('v, 'g, 'x) view_store"
proof
  fix s :: "('v, 'g, 'x) view_store" and i e
  assume "same_mark v s"
  then show "same_mark v (cm_set store_clients i e s)" "same_mark v (cm_delete store_clients i s)"
    by (simp_all add: store_clients_def roster_set_def roster_delete_def same_mark_bump)
      (simp_all add: same_mark_def)
qed

lemma steady_intro:
  assumes "\<And>v. view_ok v \<Longrightarrow> sound v (f v)" "\<And>v. roster_ok v \<Longrightarrow> roster_ok (f v)" "\<And>v. same_mark v (f v)"
  shows "steady f v"
  using assms by (simp add: steady_def same_mark_def)

lemmas roster_ok_ops = roster_ok_same[OF roster_same(2)] roster_ok_same[OF roster_same(4)]
  roster_ok_same[OF roster_same(5)] roster_ok_same[OF roster_same(6)] roster_ok_same[OF roster_same(8)]
  roster_ok_same[OF roster_same(9)] roster_ok_same[OF roster_same(10)] roster_ok_same[OF roster_same(11)]

lemma steady_ops:
  "steady (collect_row row) v" "steady (setServerGroups gs) v" "steady (setChannelGroups gs) v"
  "steady (patchServer es) v" "steady (mergeServer es) v" "steady (whenReady aborted) v"
  "steady (abort_wait w reason) v" "steady (\<lambda>v. snd (read_clients v)) v"
  "steady (\<lambda>v. snd (read_channels v)) v" "steady (dropChannel self i) v"
  by (rule steady_intro; simp add: collect_row_sound setServerGroups_sound setChannelGroups_sound merge_sound
      patchServer_def mergeServer_def whenReady_sound abort_wait_sound read_clients_sound
      read_channels_sound dropChannel_sound roster_ok_drop roster_ok_ops same_marks same_mark_drop)+

lemma steady_change:
  "steady (\<lambda>v. case change base e v of None \<Rightarrow> v | Some v' \<Rightarrow> v') v"
proof -
  have "\<exists>v'. change base e v = Some v' \<and> sound v v' \<and> same_mark v v' \<and> vs_roster v' = vs_roster v" if "view_ok v"
    using change_sound[OF that, of base e] same_mark_change change_roster by metis
  then show ?thesis by (auto simp: steady_def same_mark_def roster_ok_def)
qed

lemma steady_notification:
  assumes "handleNotification store_clients cmd self v = Inr (r, v')"
  shows "steady (\<lambda>_. v') v"
proof -
  have "sound v v' \<and> roster_ok v'" if "view_ok v" "roster_ok v"
    using notify_sound[OF that, of cmd self] assms by auto
  moreover have "same_mark v v'" using mark_keeps.notification_keeps[OF same_mark_refl assms] .
  ultimately show ?thesis by (simp add: steady_def same_mark_def)
qed

section \<open>The invariant\<close>

text \<open>The revisions reported, as delivered or still to be.\<close>

fun reported :: "delivery \<Rightarrow> nat list" where
  "reported (D_ViewReady r) = [r]"
| "reported (D_ViewChanged r) = [r]"
| "reported _ = []"

definition view_reports :: "session \<Rightarrow> nat list" where
  "view_reports s = concat (map reported (sn_delivered s @ sn_queue s))"

text \<open>Where the view can be, by where the connection is.\<close>

fun follows :: "client_status \<Rightarrow> bool \<Rightarrow> view_status \<Rightarrow> bool" where
  "follows Connecting leaving v = (\<not> leaving \<and> v = Loading)"
| "follows Connected leaving v = (\<not> leaving \<and> (v = Loading \<or> v = Live))"
| "follows Disconnected leaving v = (leaving \<or> v = Empty \<or> v = Stale)"

definition view_follows :: "session \<Rightarrow> bool" where
  "view_follows s \<longleftrightarrow> follows (sn_status s) (cl_leaving (sn_loop s)) (vs_status (sn_view s))"

text \<open>A change of the view that is not reported yet has its report on the way.\<close>

definition report_due :: "session \<Rightarrow> bool" where
  "report_due s \<longleftrightarrow>
     vs_status (sn_view s) \<notin> {Empty, Loading} \<and> vs_announced (sn_view s) \<noteq> vs_revision (sn_view s)"

definition session_inv :: "bool \<Rightarrow> session \<Rightarrow> bool" where
  "session_inv told s \<longleftrightarrow> view_ok (sn_view s) \<and> roster_ok (sn_view s) \<and> tracker_inv (sn_track s) \<and>
     (sn_queue s \<noteq> [] \<longrightarrow> sn_draining s) \<and>
     sorted_wrt (<) (view_reports s) \<and> (\<forall>r\<in>set (view_reports s). r \<le> vs_announced (sn_view s)) \<and>
     (told \<longrightarrow> report_due s \<longrightarrow> sn_draining s)"

definition session_good :: "bool \<Rightarrow> session \<Rightarrow> bool" where
  "session_good told s \<longleftrightarrow> session_inv told s \<and> view_follows s"

lemma new_voice_session_good: "session_good told (new_voice_session n)"
proof -
  have v: "vs_status new_store = Empty" by (simp add: new_store_def)
  show ?thesis
    by (simp add: session_good_def session_inv_def view_follows_def report_due_def view_reports_def new_voice_session_def
        new_store_ok new_store_roster tracker_inv_new sn_status_def new_client_def v)
qed

text \<open>Fields the invariant does not read.\<close>

lemma session_inv_fields:
  assumes "sn_view s' = sn_view s" "sn_track s' = sn_track s" "sn_queue s' = sn_queue s"
    "sn_draining s' = sn_draining s" "sn_delivered s' = sn_delivered s"
  shows "session_inv told s' = session_inv told s"
  using assms by (simp add: session_inv_def view_reports_def report_due_def)

lemma session_inv_track:
  "session_inv told s \<Longrightarrow> tracker_inv t \<Longrightarrow> session_inv told (s\<lparr>sn_track := t\<rparr>)"
  by (simp add: session_inv_def view_reports_def report_due_def)

lemma session_inv_drain_set: "session_inv told s \<Longrightarrow> session_inv told (scheduleDrain s)"
  by (simp add: session_inv_def view_reports_def report_due_def scheduleDrain_def)

lemma enqueue_inv:
  assumes "session_inv told s" "reported d = []"
  shows "session_inv told (enqueue d s)"
  using assms by (simp add: session_inv_def view_reports_def report_due_def scheduleDrain_def enqueue_def)

lemma enqueue_ready_inv:
  assumes "session_inv told s" "r = vs_announced (sn_view s)" "\<forall>x\<in>set (view_reports s). x < r"
  shows "session_inv told (enqueue (D_ViewReady r) s)"
  using assms by (auto simp: session_inv_def view_reports_def report_due_def scheduleDrain_def enqueue_def
      sorted_wrt_append)

lemma with_view_inv:
  assumes "session_inv told s" "sound (sn_view s) (f (sn_view s))" "roster_ok (f (sn_view s))"
    "vs_announced (f (sn_view s)) = vs_announced (sn_view s) \<or>
     vs_announced (f (sn_view s)) = vs_revision (f (sn_view s))"
  shows "session_inv told (with_view f s)"
proof -
  let ?v = "sn_view s" and ?w = "f (sn_view s)"
  have m: "moved ?v ?w" and ok: "view_ok ?w" using assms(2) by (simp_all add: sound_def)
  have ann: "vs_announced ?v \<le> vs_announced ?w"
  proof -
    have "vs_announced ?v \<le> vs_revision ?v" using assms(1) by (simp add: session_inv_def view_ok_def)
    moreover have "vs_revision ?v \<le> vs_revision ?w" using m by (simp add: moved_def)
    ultimately show ?thesis using assms(4) by auto
  qed
  have due: "report_due s" if "vs_calls ?w = vs_calls ?v" "report_due (s\<lparr>sn_view := ?w\<rparr>)"
  proof -
    have w: "vs_status ?w \<notin> {Empty, Loading}" "vs_announced ?w \<noteq> vs_revision ?w"
      using that(2) by (simp_all add: report_due_def)
    then have "\<not> vs_revision ?v < vs_revision ?w" using m that(1) by (auto simp: moved_def)
    then have "visible ?w = visible ?v" "vs_revision ?w = vs_revision ?v" using m by (auto simp: moved_def)
    moreover from this(1) have "vs_status ?w = vs_status ?v" by (simp add: visible_def)
    ultimately show ?thesis using w assms(4) by (simp add: report_due_def)
  qed
  have r: "\<forall>r\<in>set (view_reports s). r \<le> vs_announced ?w"
    using assms(1) ann by (auto simp: session_inv_def intro: order_trans)
  have rep: "view_reports (s\<lparr>sn_view := ?w\<rparr>) = view_reports s" "view_reports (scheduleDrain (s\<lparr>sn_view := ?w\<rparr>)) = view_reports s"
    by (simp_all add: view_reports_def scheduleDrain_def)
  show ?thesis
  proof (cases "vs_calls ?w = vs_calls ?v")
    case True
    then have "with_view f s = s\<lparr>sn_view := ?w\<rparr>" by (simp add: with_view_def)
    then show ?thesis using assms(1,3) ok r due[OF True] by (simp add: session_inv_def rep)
  next
    case False
    then have "with_view f s = scheduleDrain (s\<lparr>sn_view := ?w\<rparr>)" by (simp add: with_view_def)
    moreover have "sn_draining (scheduleDrain x)" "sn_view (scheduleDrain x) = sn_view x"
      "sn_track (scheduleDrain x) = sn_track x" for x by (simp_all add: scheduleDrain_def)
    ultimately show ?thesis using assms(1,3) ok r by (simp add: session_inv_def rep)
  qed
qed

lemma with_view_fields [simp]:
  "sn_loop (with_view f s) = sn_loop s" "sn_view (with_view f s) = f (sn_view s)"
  "sn_track (with_view f s) = sn_track s" "sn_queue (with_view f s) = sn_queue s"
  "sn_delivered (with_view f s) = sn_delivered s" "sn_keys (with_view f s) = sn_keys s"
  "sn_status (with_view f s) = sn_status s" "sn_clid (with_view f s) = sn_clid s"
  "view_reports (with_view f s) = view_reports s" "sn_trace (with_view f s) = sn_trace s"
  by (simp_all add: with_view_def Let_def scheduleDrain_def sn_status_def view_reports_def)

lemma enqueue_fields [simp]:
  "sn_loop (enqueue d s) = sn_loop s" "sn_view (enqueue d s) = sn_view s" "sn_track (enqueue d s) = sn_track s"
  "sn_keys (enqueue d s) = sn_keys s" "sn_status (enqueue d s) = sn_status s" "sn_clid (enqueue d s) = sn_clid s"
  "sn_delivered (enqueue d s) = sn_delivered s" "sn_queue (enqueue d s) = sn_queue s @ [d]"
  "sn_trace (enqueue d s) = sn_trace s" "sn_draining (enqueue d s)"
  by (simp_all add: enqueue_def scheduleDrain_def sn_status_def)

lemma steady_good:
  assumes "session_good told s" "steady f (sn_view s)"
  shows "session_good told (with_view f s)"
proof -
  have f: "sound (sn_view s) (f (sn_view s))" "roster_ok (f (sn_view s))"
    "vs_announced (f (sn_view s)) = vs_announced (sn_view s)" "vs_status (f (sn_view s)) = vs_status (sn_view s)"
    using assms by (auto simp: session_good_def session_inv_def steady_def)
  then have "session_inv told (with_view f s)"
    using with_view_inv[of told s f] assms(1) by (simp add: session_good_def)
  with f assms(1) show ?thesis by (simp add: session_good_def view_follows_def)
qed

lemma enqueue_good: "session_good told s \<Longrightarrow> reported d = [] \<Longrightarrow> session_good told (enqueue d s)"
  by (simp add: session_good_def enqueue_inv view_follows_def)

lemma track_good:
  "session_good told s \<Longrightarrow> tracker_step clid (sn_track s) t \<Longrightarrow> session_good told (s\<lparr>sn_track := t\<rparr>)"
  using tracker_inv_step
  by (auto simp: session_good_def session_inv_def view_reports_def report_due_def view_follows_def sn_status_def)

lemma fields_good:
  assumes "sn_view s' = sn_view s" "sn_track s' = sn_track s" "sn_queue s' = sn_queue s"
    "sn_draining s' = sn_draining s" "sn_delivered s' = sn_delivered s" "sn_loop s' = sn_loop s"
  shows "session_good told s' = session_good told s"
  using session_inv_fields[OF assms(1-5)] assms by (simp add: session_good_def view_follows_def sn_status_def)

section \<open>The reconnect loop's steps\<close>

definition frame :: "'e client \<Rightarrow> 'e client \<Rightarrow> bool" where
  "frame l l' \<longleftrightarrow> cl_status l' = cl_status l \<and> cl_leaving l' = cl_leaving l"

lemma frame_refl [simp]: "frame l l"
  by (simp add: frame_def)

lemma frame_tell [simp]: "frame l (tell e l') = frame l l'"
  by (simp add: frame_def tell_def)

lemma will_frame: "willReconnect options e n l = (r, l') \<Longrightarrow> frame l l'"
  using willReconnect_frame by (fastforce simp: frame_def)

lemma loop_ends_frame: "frame l (loop_ends c l)"
  by (simp add: loop_ends_def tell_def frame_def split: option.split)

lemma loop_head_frame: "frame l (loop_head cf random n e l)"
proof (cases "willReconnect (Some cf) e n l")
  case (Pair r l')
  note w = will_frame[OF Pair]
  have "frame l (loop_ends c l')" for c
    using w loop_ends_frame[of l' c] by (simp add: frame_def)
  then show ?thesis
    using w Pair loop_ends_frame[of l]
    by (cases r) (auto simp: loop_head_def frame_def tell_def)
qed

lemma schedule_frame: "frame l (scheduleReconnect options random e l)"
proof (cases options)
  case (Some cf)
  have "frame (l\<lparr>cl_reconnecting := True, cl_made := 0\<rparr>)
      (loop_head cf random 1 e (l\<lparr>cl_reconnecting := True, cl_made := 0\<rparr>))"
    by (rule loop_head_frame)
  with Some show ?thesis by (simp add: scheduleReconnect_def frame_def)
qed (simp add: scheduleReconnect_def)

lemma settle_keeps_frame: "frame l (settle_attempt r l)"
  by (simp add: settle_attempt_def frame_def split: loop_phase.split option.split)

lemma fail_leaves:
  "cl_leaving (failConnection options e l) = cl_leaving l"
  "cl_status (failConnection options e l) = (if cl_status l = Connected then Connected else Disconnected)"
proof -
  define l1 where "l1 = (if cl_status l = Connecting then settle_attempt (Inl e) l else l)"
  have 1: "frame l l1" using settle_keeps_frame[of l "Inl e"] by (simp add: l1_def)
  obtain r l2 where w: "willReconnect options e (cl_loopAttempt l1 + 1) (l1\<lparr>cl_status := Disconnected\<rparr>) = (r, l2)"
    by fastforce
  note 2 = will_frame[OF w]
  show "cl_leaving (failConnection options e l) = cl_leaving l"
    "cl_status (failConnection options e l) = (if cl_status l = Connected then Connected else Disconnected)"
    using 1 2 w by (auto simp: failConnection_def l1_def[symmetric] Let_def frame_def tell_def)
qed

lemma closed_leaves:
  "cl_leaving (handleConnectionClosed options random e l) = cl_leaving l"
  "cl_status (handleConnectionClosed options random e l) = Disconnected"
proof -
  let ?l = "l\<lparr>cl_status := Disconnected, cl_lastDrop := Some e\<rparr>"
  obtain r l2 where w: "willReconnect options e (cl_loopAttempt ?l + 1) ?l = (r, l2)" by fastforce
  have "frame (tell (Announced (Some e) r) l2)
      (scheduleReconnect options random e (tell (Announced (Some e) r) l2))"
    by (rule schedule_frame)
  with will_frame[OF w] w
  show "cl_leaving (handleConnectionClosed options random e l) = cl_leaving l"
    "cl_status (handleConnectionClosed options random e l) = Disconnected"
    by (auto simp: handleConnectionClosed_def fail_leaves frame_def tell_def)
qed

lemma loop_steps_frame:
  "frame l (wait_ends l)" "frame l (start_abandoned e l)" "frame l (loop_resumes cf random e l)"
proof -
  show "frame l (wait_ends l)" using loop_ends_frame[of l]
    by (auto simp: wait_ends_def frame_def tell_def split: loop_phase.split)
  show "frame l (start_abandoned e l)" by (simp add: start_abandoned_def frame_def split: loop_phase.split)
  show "frame l (loop_resumes cf random e l)" using loop_ends_frame[of l] loop_head_frame[of l]
    by (auto simp: loop_resumes_def split: loop_phase.split option.split sum.split)
qed

lemma attempt_begins:
  "frame l (attempt_starts bad e l) \<or>
     (\<not> cl_leaving l \<and> cl_status l = Disconnected \<and> cl_status (attempt_starts bad e l) = Connecting \<and>
      \<not> cl_leaving (attempt_starts bad e l))"
  "frame l (connect_by_hand l) \<or>
     (\<not> cl_leaving l \<and> cl_status l = Disconnected \<and> cl_status (connect_by_hand l) = Connecting \<and>
      \<not> cl_leaving (connect_by_hand l))"
proof -
  show "frame l (attempt_starts bad e l) \<or>
     (\<not> cl_leaving l \<and> cl_status l = Disconnected \<and> cl_status (attempt_starts bad e l) = Connecting \<and>
      \<not> cl_leaving (attempt_starts bad e l))"
    using loop_ends_frame[of l None]
    by (cases "cl_phase l") (auto simp: attempt_starts_def begin_attempt_def frame_def split: option.split)
  show "frame l (connect_by_hand l) \<or>
     (\<not> cl_leaving l \<and> cl_status l = Disconnected \<and> cl_status (connect_by_hand l) = Connecting \<and>
      \<not> cl_leaving (connect_by_hand l))"
    by (simp add: connect_by_hand_def begin_attempt_def)
qed

lemma fold_enqueue_fields:
  "sn_loop (fold enqueue ds s) = sn_loop s" "sn_view (fold enqueue ds s) = sn_view s"
  "sn_track (fold enqueue ds s) = sn_track s" "sn_keys (fold enqueue ds s) = sn_keys s"
  "sn_clid (fold enqueue ds s) = sn_clid s"
  by (induction ds arbitrary: s) simp_all

lemma with_loop_fields [simp]:
  "sn_loop (with_loop f s) = f (sn_loop s)" "sn_view (with_loop f s) = sn_view s"
  "sn_track (with_loop f s) = sn_track s" "sn_keys (with_loop f s) = sn_keys s"
  "sn_clid (with_loop f s) = sn_clid s" "sn_status (with_loop f s) = cl_status (f (sn_loop s))"
  by (simp_all add: with_loop_def Let_def fold_enqueue_fields sn_status_def)

lemma announcements_silent: "d \<in> set (announcements evs) \<Longrightarrow> reported d = []"
  by (auto simp: announcements_def split: loop_event.splits)

lemma fold_enqueue_inv:
  "session_inv told s \<Longrightarrow> \<forall>d\<in>set ds. reported d = [] \<Longrightarrow> session_inv told (fold enqueue ds s)"
  by (induction ds arbitrary: s) (simp_all add: enqueue_inv)

lemma with_loop_inv:
  assumes "session_inv told s"
  shows "session_inv told (with_loop f s)"
proof -
  have "session_inv told (s\<lparr>sn_loop := f (sn_loop s)\<rparr>)"
    using assms by (subst session_inv_fields[of _ s]) simp_all
  then show ?thesis using announcements_silent by (auto simp: with_loop_def Let_def intro!: fold_enqueue_inv)
qed

lemma with_loop_good:
  assumes "session_inv told s" "follows (cl_status (f (sn_loop s))) (cl_leaving (f (sn_loop s))) (vs_status (sn_view s))"
  shows "session_good told (with_loop f s)"
  using with_loop_inv[OF assms(1)] assms(2) by (simp add: session_good_def view_follows_def)

lemma with_loop_frame:
  assumes "session_good told s" "frame (sn_loop s) (f (sn_loop s))"
  shows "session_good told (with_loop f s)"
  using assms by (intro with_loop_good) (auto simp: session_good_def view_follows_def frame_def sn_status_def)

section \<open>The end of a connection\<close>

lemma end_view_marks:
  "vs_announced (end_view c v) = vs_announced v"
  "vs_status (end_view c v) = (if vs_status v = Empty then Empty else Stale)"
  by (cases "vs_status v"; simp add: end_view_def settle_waiters_def)+

lemma end_view_inv: "session_inv told s \<Longrightarrow> session_inv told (with_view (end_view c) s)"
  using roster_ok_same[OF roster_same(7)]
  by (intro with_view_inv) (auto simp: session_inv_def end_view_sound end_view_marks)

lemma session_fails_good:
  assumes "session_good told s"
  shows "session_good told (session_fails op e s)"
proof (cases "sn_status s = Connected")
  case False
  let ?s = "with_view (end_view (AnError e)) s"
  have i: "session_inv told ?s" using assms end_view_inv by (simp add: session_good_def)
  have v: "vs_status (sn_view ?s) = Empty \<or> vs_status (sn_view ?s) = Stale" by (simp add: end_view_marks)
  show ?thesis
  proof (cases "sn_status s = Disconnected")
    case True
    then show ?thesis using i v by (simp add: session_fails_def session_good_def view_follows_def)
  next
    case n: False
    have "session_inv told (?s\<lparr>sn_closed := True\<rparr>)" using i by (subst session_inv_fields[of _ ?s]) simp_all
    then have "session_good told (with_loop (failConnection (so_reconnect op) e) (?s\<lparr>sn_closed := True\<rparr>))"
      using v False by (intro with_loop_good) (auto simp: fail_leaves sn_status_def)
    with False n show ?thesis by (simp add: session_fails_def)
  qed
qed (simp add: session_fails_def assms)

lemma reset_track_good: "session_good told s \<Longrightarrow> session_good told (s\<lparr>sn_track := reset_tracker e (sn_track s)\<rparr>)"
  using track_good[OF _ tracker_step.reset] .

lemma session_closes_good:
  assumes "session_good told s"
  shows "session_good told (session_closes op err s)"
proof -
  let ?s = "s\<lparr>sn_track := reset_tracker (gone err) (sn_track s)\<rparr>"
  have g: "session_good told ?s" using reset_track_good[OF assms] .
  then have i: "session_inv told (endSession c ?s)" for c
    using end_view_inv by (simp add: endSession_def session_good_def)
  have "session_good told (with_loop (handleConnectionClosed (so_reconnect op) (so_random op) c)
      (endSession (AnError c) ?s))" for c
    by (rule with_loop_good[OF i]) (simp add: closed_leaves endSession_def end_view_marks)
  with assms session_fails_good[OF g] show ?thesis
    by (simp add: session_closes_def Let_def)
qed

lemma removedByServer_good: "session_good told s \<Longrightarrow> session_good told (removedByServer op e s)"
  unfolding removedByServer_def
  by (subst fields_good[of _ "session_closes op (Some e) s"]) (simp_all add: session_closes_good)

lemma session_left_good:
  assumes "session_good told s"
  shows "session_good told (session_left s)"
proof (cases "cl_leaving (sn_loop s)")
  case True
  let ?s = "s\<lparr>sn_goodbye := None, sn_closed := True, sn_track := reset_tracker (gone None) (sn_track s)\<rparr>"
  have "session_good told ?s"
    using fields_good[of ?s "s\<lparr>sn_track := reset_tracker (gone None) (sn_track s)\<rparr>" told] reset_track_good[OF assms]
    by simp
  then have i: "session_inv told (endSession ByDisconnect ?s)"
    using end_view_inv by (simp add: endSession_def session_good_def)
  have d: "cl_status (sn_loop s) = Disconnected"
    using assms True by (cases "sn_status s") (simp_all add: session_good_def view_follows_def sn_status_def)
  have "cl_status (disconnect_ends NotConnectedAnyMore (sn_loop s)) = Disconnected"
    using d settle_keeps_frame by (auto simp: disconnect_ends_def frame_def tell_def)
  then have "session_good told (with_loop (disconnect_ends NotConnectedAnyMore) (endSession ByDisconnect ?s))"
    by (intro with_loop_good[OF i]) (simp add: endSession_def end_view_marks)
  with True show ?thesis by (simp add: session_left_def)
qed (simp add: session_left_def assms)

lemma session_leaves_good:
  assumes "session_good told s"
  shows "session_good told (session_leaves s)"
proof -
  let ?s = "with_loop disconnect_begins s"
  have "session_good told ?s"
    using assms by (intro with_loop_good)
      (auto simp: session_good_def view_follows_def sn_status_def disconnect_begins_def Let_def)
  moreover from this have "session_good told (?s\<lparr>sn_goodbye := Some False\<rparr>)"
    by (subst fields_good[of _ ?s]) simp_all
  ultimately show ?thesis using session_left_good by (simp add: session_leaves_def Let_def)
qed

section \<open>Rows\<close>

lemma change_view_good: "session_good told s \<Longrightarrow> session_good told (change_view i e s)"
  unfolding change_view_def by (erule steady_good) (rule steady_change)

lemma nickname_good: "session_good told (s\<lparr>sn_nickname := n\<rparr>) = session_good told s"
  by (rule fields_good) simp_all

lemma kicked_by_good: "session_good told s \<Longrightarrow> session_good told (kicked_by r m b s)"
  by (simp add: kicked_by_def enqueue_good)

lemma processResult_good:
  assumes "session_good told s"
  shows "session_good told (processResult op result leaving s)"
proof (cases result)
  case (ClientLeave ev isSelf)
  have e: "session_good told (enqueue d s)" if "reported d = []" for d
    using assms that by (rule enqueue_good)
  show ?thesis using ClientLeave e
    by (auto simp: processResult_def Let_def intro!: removedByServer_good kicked_by_good)
next
  case (ClientMoved ev)
  then show ?thesis using assms
    by (auto simp: processResult_def Let_def intro!: kicked_by_good enqueue_good)
next
  case (ChannelUnsubscribed i)
  have "session_good told (with_view (dropChannel (sn_clid s) i) s)"
    using steady_good[OF assms steady_ops(10)] .
  then show ?thesis using ChannelUnsubscribed by (simp add: processResult_def enqueue_good)
qed (use assms in \<open>simp_all add: processResult_def enqueue_good nickname_good change_view_good\<close>)

lemma processNotification_good:
  assumes "session_good told s"
  shows "session_good told (processNotification op entries result leaving s)"
  using assms steady_good[OF assms steady_ops(4)]
  by (cases result) (simp_all add: processNotification_def processResult_good)

lemma group_line_good: "session_good told (s\<lparr>sn_group_line := l\<rparr>) = session_good told s"
  by (rule fields_good) simp_all

lemma applyGroupLine_good:
  assumes "session_good told s"
  shows "session_good told (applyGroupLine s)"
proof (cases "sn_group_line s")
  case (Some l)
  have "session_good told (s\<lparr>sn_group_line := None\<rparr>)" using assms by (simp add: group_line_good)
  then show ?thesis using Some
    by (cases l) (auto simp: applyGroupLine_def intro: steady_good steady_ops)
qed (simp add: applyGroupLine_def assms)

lemma add_group_row_good: "session_good told s \<Longrightarrow> session_good told (add_group_row name row s)"
  by (simp add: add_group_row_def Let_def group_line_good applyGroupLine_good split: option.split)

lemma handle_notify_good:
  assumes "session_good told s"
  shows "session_good told (handle_notify op name entries s)"
proof -
  define row where "row = map_of entries"
  define s1 where "s1 = (if expects name (sn_track s)
    then s\<lparr>sn_track := offerCorrelated name row (buffer row name (sn_track s))\<rparr> else s)"
  define s2 where "s2 = (if name = ''notifyconnectioninforequest'' then s1\<lparr>sn_answers := sn_answers s1 + 1\<rparr> else s1)"
  define s3 where "s3 = (if name = ''notifyservergrouplist'' \<or> name = ''notifychannelgrouplist''
    then add_group_row name row s2
    else if name = ''notifyserverupdated'' then with_view (mergeServer entries) s2 else s2)"
  have "session_good told (s\<lparr>sn_track := buffer row name (sn_track s)\<rparr>)"
    using track_good[OF assms tracker_step.row] .
  from track_good[OF this tracker_step.offer[of 0]] assms have 1: "session_good told s1"
    by (simp add: s1_def)
  then have 2: "session_good told s2"
    by (simp add: s2_def fields_good[of "s1\<lparr>sn_answers := _\<rparr>" s1])
  have 3: "session_good told s3"
    using 2 steady_good[OF 2 steady_ops(5)] by (simp add: s3_def add_group_row_good)
  let ?cmd = "\<lparr>cmd_name = name, cmd_params = row\<rparr>"
  obtain result v where h: "handleNotification store_clients ?cmd (sn_clid s3) (sn_view s3) = Inr (result, v)"
    using roster.notification_refines by blast
  have 4: "session_good told (with_view (\<lambda>_. v) s3)"
    using steady_good[OF 3 steady_notification[OF h]] .
  have "handle_notify op name entries s =
    (let s4 = processNotification op entries result
        (if name = ''notifyclientleftview'' then map_of (vs_roster (sn_view s3)) (parseUint16 (str row ''clid'')) else None)
        (with_view (\<lambda>_. v) s3)
     in if so_catch_all op \<or> so_middleware op then enqueue (D_Notification name row) s4 else s4)"
    by (simp only: handle_notify_def Let_def row_def[symmetric] s1_def[symmetric] s2_def[symmetric]
        s3_def[symmetric] h sum.case prod.case)
  then show ?thesis using processNotification_good[OF 4] by (simp add: Let_def enqueue_good)
qed

lemma handleError_good:
  assumes "session_good told s"
  shows "session_good told (handleError op row s)"
proof -
  obtain err rc where p: "parseServerError row = (err, rc)" by fastforce
  define t where "t = (case rc of Some rc \<Rightarrow> resolve (nat (sn_clid s)) rc (map_option Refused err) (sn_track s)
      | None \<Rightarrow> discardBuffer (sn_track s))"
  have "session_good told (s\<lparr>sn_track := t\<rparr>)"
    using track_good[OF assms tracker_step.resolve] track_good[OF assms tracker_step.discard]
    by (simp add: t_def split: option.split)
  then show ?thesis
    using session_fails_good fields_good[of "(s\<lparr>sn_track := t\<rparr>)\<lparr>sn_leave_soon := True\<rparr>" "s\<lparr>sn_track := t\<rparr>" told]
    by (simp add: handleError_def p t_def[symmetric] Let_def split: option.split)
qed

lemma markConnected_frame:
  "cl_leaving (markConnected l) = cl_leaving l"
  "cl_status (markConnected l) = (if cl_status l = Connecting then Connected else cl_status l)"
  using settle_keeps_frame[of "l\<lparr>cl_status := Connected\<rparr>" "Inr ()"] by (auto simp: markConnected_def frame_def)

lemma session_connected_good:
  assumes "session_good told s"
  shows "session_good told (session_connected s)"
proof (cases "sn_status s = Connecting")
  case True
  let ?s = "s\<lparr>sn_sessions := sn_sessions s + 1, sn_trace := map_option (\<lambda>t. t\<lparr>tr_started := True\<rparr>) (sn_trace s)\<rparr>"
  have "session_good told ?s" using assms by (subst fields_good[of _ s]) simp_all
  then have "session_good told (with_loop markConnected ?s)"
    using assms True by (intro with_loop_good)
      (auto simp: session_good_def view_follows_def sn_status_def markConnected_frame)
  then show ?thesis using True by (simp add: session_connected_def enqueue_good)
qed (simp add: session_connected_def assms)

lemma clid_good: "session_good told (s\<lparr>sn_clid := i\<rparr>) = session_good told s"
  by (rule fields_good) simp_all

lemma handle_initserver_good:
  assumes "session_good told s"
  shows "session_good told (fst (handle_initserver entries s))"
  using assms steady_good[OF assms steady_ops(4)]
  by (simp add: handle_initserver_def Let_def clid_good session_connected_good split: option.split)

lemma trace_good: "session_good told (s\<lparr>sn_trace := t\<rparr>) = session_good told s"
  by (rule fields_good) simp_all

lemma finish_marks:
  assumes "vs_status v = Loading"
  shows "fst (finish_welcome v) = Some (Suc (vs_revision v))"
    "vs_announced (snd (finish_welcome v)) = Suc (vs_revision v)"
    "vs_status (snd (finish_welcome v)) = Live"
    "vs_revision (snd (finish_welcome v)) = Suc (vs_revision v)"
  using assms by (simp_all add: finish_welcome_def Let_def settle_waiters_def put_tree_def)

lemma welcome_finished_good:
  assumes "session_good told s"
  shows "session_good told (welcome_finished s)"
proof -
  have finish: "session_good told (markWelcomeDone (s'\<lparr>sn_track := signalWelcomeComplete (sn_track s')\<rparr>))"
    if "session_good told s'" for s'
    using track_good[OF that tracker_step.welcomed]
    by (simp add: markWelcomeDone_def trace_good split: option.split)
  show ?thesis
  proof (cases "sn_status s = Connected \<and> vs_status (sn_view s) = Loading")
    case True
    let ?v = "sn_view s" and ?s = "with_view (\<lambda>v. snd (finish_welcome v)) s"
    note f = finish_marks[OF conjunct2[OF True]]
    have inv: "session_inv told s" using assms by (simp add: session_good_def)
    then have "session_inv told ?s"
      using f
      by (intro with_view_inv)
        (simp_all add: session_inv_def finish_welcome_sound roster_ok_same[OF roster_same(3)])
    moreover have "\<forall>r\<in>set (view_reports s). r < Suc (vs_revision ?v)"
      using inv by (fastforce simp: session_inv_def view_ok_def)
    ultimately have "session_inv told (enqueue (D_ViewReady (Suc (vs_revision ?v))) ?s)"
      using f by (intro enqueue_ready_inv) simp_all
    then have "session_good told (enqueue (D_ViewReady (Suc (vs_revision ?v))) ?s)"
      using assms True f by (simp add: session_good_def view_follows_def)
    from finish[OF this] show ?thesis using True f by (simp add: welcome_finished_def Let_def)
  next
    case False
    then have n: "snd (finish_welcome (sn_view s)) = sn_view s \<and> fst (finish_welcome (sn_view s)) = None"
      if "sn_status s = Connected" using that by (simp add: finish_welcome_def)
    have "with_view (\<lambda>v. snd (finish_welcome v)) s = s" if "sn_status s = Connected"
      using n[OF that] by (simp add: with_view_def)
    then show ?thesis using finish[OF assms] n by (auto simp: welcome_finished_def Let_def)
  qed
qed

lemma welcome_row_good:
  assumes "session_good told s"
  shows "session_good told (welcome_row row s)"
proof (cases "sn_trace s")
  case (Some t)
  let ?s = "s\<lparr>sn_trace := Some (t\<lparr>tr_channels := tr_channels t + 1\<rparr>)\<rparr>"
  have g: "session_good told ?s" using assms by (simp add: trace_good)
  then show ?thesis
    using assms Some steady_good[OF g steady_ops(1)]
    by (simp add: welcome_row_def Let_def split: sum.split)
qed (simp add: welcome_row_def assms)

lemma goodbye_good: "session_good told (goodbye_answered name row s) = session_good told s"
proof -
  have "session_good told (s\<lparr>sn_goodbye := g\<rparr>) = session_good told s" for g by (rule fields_good) simp_all
  then show ?thesis by (simp add: goodbye_answered_def)
qed

lemma handle_row_good:
  assumes "session_good told s"
  shows "session_good told (fst (handle_row op cmd s))"
proof -
  obtain name entries where c: "cmd = (name, entries)" by force
  let ?row = "map_of entries"
  define s2 where "s2 = goodbye_answered name ?row (if name = ''channellist'' then welcome_row ?row s else s)"
  have 2: "session_good told s2" using assms by (simp add: s2_def goodbye_good welcome_row_good)
  have h: "session_good told (s2\<lparr>sn_handed := h\<rparr>)" for h using 2 by (subst fields_good[of _ s2]) simp_all
  have b: "session_good told (s\<lparr>sn_track := buffer r n (sn_track s)\<rparr>)"
    "session_good told (s2\<lparr>sn_track := buffer r n (sn_track s2)\<rparr>)" for r n
    using track_good[OF assms tracker_step.row] track_good[OF 2 tracker_step.row] by blast+
  show ?thesis
    unfolding handle_row_def c Let_def prod.case s2_def[symmetric]
    using assms 2 h b welcome_finished_good[OF assms] handle_notify_good[OF 2] handle_initserver_good[OF 2]
      handleError_good[OF 2]
    by simp
qed

lemma handleCommandStr_good:
  "session_good told s \<Longrightarrow> session_good told (fst (handleCommandStr op t s))"
  by (simp add: handleCommandStr_def handle_row_good split: option.split)

lemma handle_rows_good: "session_good told s \<Longrightarrow> session_good told (fst (handle_rows op ts s))"
proof (induction ts arbitrary: s)
  case (Cons t ts)
  then show ?case using handleCommandStr_good[OF Cons.prems, of op t]
    by (auto split: prod.split option.split)
qed simp

lemma handle_lines_good: "session_good told s \<Longrightarrow> session_good told (fst (handle_lines op ls s))"
proof (induction ls arbitrary: s)
  case (Cons l ls)
  then show ?case using handle_rows_good[OF Cons.prems, of op "splitCommandRows (strip_cr l)"]
    by (auto simp: applyGroupLine_good split: prod.split option.split)
qed simp

lemma receive_text_good:
  assumes "session_good told s"
  shows "session_good told (receive_text op t s)"
proof -
  have "session_good told (fst (handleCommandLines op t s))"
    using assms handle_lines_good by (simp add: handleCommandLines_def)
  then show ?thesis
    by (auto simp: receive_text_def session_fails_good split: prod.split option.split)
qed

section \<open>Deliveries\<close>

lemma deliver_all_split:
  "deliver_all throws ds = (out, rest, threw) \<Longrightarrow> ds = out @ rest \<and> (\<not> threw \<longrightarrow> rest = [])"
  by (induction ds arbitrary: out rest threw) (auto split: if_splits prod.splits)

lemma deliver_all_quiet: "deliver_all (\<lambda>_. False) ds = (ds, [], False)"
  by (induction ds) simp_all

lemma announce_marks:
  "fst (announce v) = None \<Longrightarrow> snd (announce v) = v \<and>
     (vs_status v \<in> {Empty, Loading} \<or> vs_announced v = vs_revision v)"
  "fst (announce v) = Some r \<Longrightarrow> r = vs_revision v \<and> vs_announced v \<noteq> r \<and>
     vs_announced (snd (announce v)) = r \<and> vs_revision (snd (announce v)) = r"
  "vs_status (snd (announce v)) = vs_status v"
  by (auto simp: announce_def split: if_splits)

lemma idle_inv:
  assumes "view_ok (sn_view s)" "roster_ok (sn_view s)" "tracker_inv (sn_track s)" "sn_queue s = []"
    "sorted_wrt (<) (view_reports s)" "\<forall>r\<in>set (view_reports s). r \<le> vs_announced (sn_view s)" "\<not> report_due s"
  shows "session_inv told s"
  using assms by (simp add: session_inv_def)

lemma drain_good:
  assumes g: "session_good told s" and quiet: "told \<Longrightarrow> \<not> snd (snd (deliver_all throws (sn_queue s)))"
  shows "session_good told (drain_deliveries throws s)"
proof (cases "sn_draining s")
  case True
  let ?v = "sn_view s"
  obtain out rest threw where d: "deliver_all throws (sn_queue s) = (out, rest, threw)" by (metis prod_cases3)
  note q = deliver_all_split[OF d]
  have i: "session_inv told s" and f: "view_follows s" using g by (simp_all add: session_good_def)
  have reps: "view_reports s = concat (map reported ((sn_delivered s @ out) @ rest))"
    using q by (simp add: view_reports_def)
  show ?thesis
  proof (cases threw)
    case cut: True
    then have nt: "\<not> told" using quiet d by auto
    let ?s = "s\<lparr>sn_queue := rest, sn_delivered := sn_delivered s @ out, sn_draining := (rest \<noteq> [])\<rparr>"
    have r: "view_reports ?s = view_reports s" by (simp add: reps) (simp add: view_reports_def)
    have "session_inv told ?s" using i nt by (simp add: session_inv_def r)
    moreover have "drain_deliveries throws s = ?s"
      using True cut d by (simp add: drain_deliveries_def Let_def split: prod.split)
    ultimately show ?thesis using f by (simp add: session_good_def view_follows_def sn_status_def)
  next
    case False
    then have rest: "rest = []" using q by simp
    let ?a = "announce ?v"
    let ?extra = "case fst ?a of None \<Rightarrow> [] | Some r \<Rightarrow> [D_ViewChanged r]"
    let ?s = "s\<lparr>sn_queue := [], sn_delivered := (sn_delivered s @ out) @ ?extra, sn_view := snd ?a, sn_draining := False\<rparr>"
    have eq: "drain_deliveries throws s = ?s"
      using True False d rest by (cases ?a) (simp add: drain_deliveries_def Let_def)
    have r: "view_reports ?s = view_reports s @ (case fst ?a of None \<Rightarrow> [] | Some r \<Rightarrow> [r])"
      by (simp add: reps rest split: option.split) (simp add: view_reports_def)
    have v: "view_ok ?v" "roster_ok ?v" using i by (simp_all add: session_inv_def)
    have va: "view_ok (snd ?a)" "roster_ok (snd ?a)"
      using announce_sound[OF v(1)] v(2) by (simp_all add: sound_def roster_ok_same[OF roster_same(1)])
    have old: "sorted_wrt (<) (view_reports s)" "\<forall>r\<in>set (view_reports s). r \<le> vs_announced ?v" "tracker_inv (sn_track s)"
      using i by (simp_all add: session_inv_def)
    define s1 where "s1 = ?s"
    have s1: "sn_view s1 = snd ?a" "sn_queue s1 = []" "sn_track s1 = sn_track s"
      "view_reports s1 = view_reports s @ (case fst ?a of None \<Rightarrow> [] | Some r \<Rightarrow> [r])"
      unfolding s1_def by (simp_all only: r) simp_all
    have "session_inv told s1"
    proof (cases "fst ?a")
      case None
      note a = announce_marks(1)[OF None]
      have "\<not> report_due s1" using a by (auto simp: report_due_def s1)
      then show ?thesis using va old a None by (intro idle_inv) (simp_all add: s1)
    next
      case (Some n)
      note a = announce_marks(2)[OF Some]
      have "vs_announced ?v \<le> vs_revision ?v" using v(1) by (simp add: view_ok_def)
      then have "vs_announced ?v < n" using a by simp
      with old(2) have below: "\<forall>r\<in>set (view_reports s). r < n" by fastforce
      have "\<not> report_due s1" using a by (simp add: report_due_def s1)
      then show ?thesis
        using va old below a Some by (intro idle_inv) (simp_all add: s1 sorted_wrt_append less_imp_le)
    qed
    then show ?thesis unfolding s1_def using f
      by (simp add: eq session_good_def view_follows_def sn_status_def announce_marks(3))
  qed
qed (simp add: drain_deliveries_def g)

section \<open>Every step\<close>

lemma begin_session_inv:
  assumes "session_good told s"
  shows "session_inv told (begin_session reconnect s)" "vs_status (sn_view (begin_session reconnect s)) = Loading"
    "sn_loop (begin_session reconnect s) = sn_loop s"
proof -
  let ?s = "s\<lparr>sn_keys := False, sn_closed := False, sn_track := reset_tracker (gone None) (sn_track s), sn_clid := 0,
    sn_trace := Some \<lparr>tr_reconnect = reconnect, tr_started = False, tr_welcomed = False, tr_channels = 0\<rparr>\<rparr>"
  have g: "session_good told ?s"
    using reset_track_good[OF assms, of "gone None"]
      fields_good[of ?s "s\<lparr>sn_track := reset_tracker (gone None) (sn_track s)\<rparr>" told] by simp
  have "vs_announced (reset_view v) = vs_announced v" for v :: view
    by (simp add: reset_view_def put_tree_def roster_clear_def)
  moreover have "roster_ok (reset_view v)" for v :: view
    by (simp add: roster_ok_def roster_same known_ok_def)
  moreover have "view_ok (sn_view ?s)" using g by (simp only: session_good_def session_inv_def)
  ultimately show "session_inv told (begin_session reconnect s)"
    unfolding begin_session_def using g reset_view_sound[of "sn_view ?s"]
    by (intro with_view_inv) (simp_all add: session_good_def)
  show "vs_status (sn_view (begin_session reconnect s)) = Loading"
    by (simp add: begin_session_def reset_view_def)
  show "sn_loop (begin_session reconnect s) = sn_loop s"
    by (simp add: begin_session_def)
qed

lemma connect_with_good:
  assumes g: "session_good told s"
    and f: "frame (sn_loop s) (f (sn_loop s)) \<or>
      (\<not> cl_leaving (sn_loop s) \<and> cl_status (sn_loop s) = Disconnected \<and>
       cl_status (f (sn_loop s)) = Connecting \<and> \<not> cl_leaving (f (sn_loop s)))"
  shows "session_good told (connect_with reconnect f s)"
proof (cases "sn_status s = Disconnected \<and> cl_status (f (sn_loop s)) = Connecting")
  case True
  then have "\<not> cl_leaving (f (sn_loop s))" using f by (auto simp: frame_def sn_status_def)
  with True begin_session_inv[OF g, of reconnect]
  have "session_good told (with_loop f (begin_session reconnect s))"
    by (intro with_loop_good) simp_all
  with True show ?thesis by (simp add: connect_with_def)
next
  case False
  then have "frame (sn_loop s) (f (sn_loop s))" using f by (auto simp: sn_status_def)
  with False show ?thesis by (auto simp: connect_with_def intro: with_loop_frame[OF g])
qed

lemma voice_step_good:
  assumes "voice_step op s s'" "told \<longrightarrow> \<not> so_middleware op" "session_good told s"
  shows "session_good told s'"
  using assms
proof (induction rule: voice_step.induct)
  case (drain_cut throws s)
  then show ?case by (intro drain_good) auto
next
  case (connects s)
  show ?case by (rule connect_with_good[OF connects(2)]) (rule attempt_begins(2))
next
  case (loop_attempt s bad err)
  show ?case by (rule connect_with_good[OF loop_attempt(2)]) (rule attempt_begins(1))
next
  case (keys_ready s)
  then show ?case by (subst fields_good[of _ s]) simp_all
next
  case (loop_goes_on cf s dropped)
  then show ?case by (intro with_loop_frame loop_steps_frame)
qed (auto simp: deliver_all_quiet receive_text_good session_closes_good session_fails_good session_leaves_good
    session_left_good intro: drain_good with_loop_frame loop_steps_frame track_good
    tracker_step.register tracker_step.unregister steady_good steady_ops)

lemma voice_runs_good:
  assumes "(voice_step op)\<^sup>*\<^sup>* (new_voice_session n) s" "told \<longrightarrow> \<not> so_middleware op"
  shows "session_good told s"
  using assms by (induction rule: rtranclp_induct) (auto simp: new_voice_session_good intro: voice_step_good)

section \<open>Before the keys\<close>

text \<open>
  What a packet can do while anyone could have sent it: hand the handshake its rows, and end the
  attempt. Nothing the view knows changes, and no event but that of the end is queued.
\<close>

definition unmoved :: "session \<Rightarrow> session \<Rightarrow> bool" where
  "unmoved s s' \<longleftrightarrow>
     vs_roster (sn_view s') = vs_roster (sn_view s) \<and> vs_tree (sn_view s') = vs_tree (sn_view s) \<and>
     vs_server (sn_view s') = vs_server (sn_view s) \<and>
     vs_serverGroups (sn_view s') = vs_serverGroups (sn_view s) \<and>
     vs_channelGroups (sn_view s') = vs_channelGroups (sn_view s) \<and>
     (vs_status (sn_view s') = vs_status (sn_view s) \<or> vs_status (sn_view s') = Stale) \<and>
     sn_clid s' = sn_clid s \<and> sn_nickname s' = sn_nickname s \<and> \<not> sn_keys s' \<and>
     (sn_status s' = sn_status s \<or> sn_status s' = Disconnected) \<and>
     (\<exists>ds. sn_queue s' = sn_queue s @ ds \<and> (\<forall>d\<in>set ds. \<exists>e w. d = D_Disconnected e w))"

lemma unmoved_refl: "\<not> sn_keys s \<Longrightarrow> unmoved s s"
  by (simp add: unmoved_def)

lemma unmoved_trans:
  assumes "unmoved a b" "unmoved b c"
  shows "unmoved a c"
proof -
  obtain d1 d2 where "sn_queue b = sn_queue a @ d1" "\<forall>d\<in>set d1. \<exists>e w. d = D_Disconnected e w"
    "sn_queue c = sn_queue b @ d2" "\<forall>d\<in>set d2. \<exists>e w. d = D_Disconnected e w"
    using assms unfolding unmoved_def by blast
  then have "\<exists>ds. sn_queue c = sn_queue a @ ds \<and> (\<forall>d\<in>set ds. \<exists>e w. d = D_Disconnected e w)"
    by (intro exI[of _ "d1 @ d2"]) auto
  moreover have "\<not> sn_keys c" using assms(2) by (simp add: unmoved_def)
  ultimately show ?thesis using assms unfolding unmoved_def by (elim conjE) auto
qed

lemma end_view_keeps [simp]:
  "vs_roster (end_view c v) = vs_roster v" "vs_tree (end_view c v) = vs_tree v"
  "vs_server (end_view c v) = vs_server v" "vs_serverGroups (end_view c v) = vs_serverGroups v"
  "vs_channelGroups (end_view c v) = vs_channelGroups v"
  by (simp_all add: end_view_def settle_waiters_def)

lemma announcements_disconnected:
  "d \<in> set (announcements evs) \<Longrightarrow> \<exists>e w. d = D_Disconnected e w"
  by (auto simp: announcements_def split: loop_event.splits)

lemma fold_enqueue_queue:
  "sn_queue (fold enqueue ds s) = sn_queue s @ ds" "sn_nickname (fold enqueue ds s) = sn_nickname s"
  by (induction ds arbitrary: s) (simp_all add: enqueue_def scheduleDrain_def)

lemma with_loop_queue:
  "\<exists>ds. sn_queue (with_loop f s) = sn_queue s @ ds \<and> (\<forall>d\<in>set ds. \<exists>e w. d = D_Disconnected e w)"
  "sn_nickname (with_loop f s) = sn_nickname s"
  using announcements_disconnected by (auto simp: with_loop_def Let_def fold_enqueue_queue)

lemma with_view_nickname [simp]: "sn_nickname (with_view f s) = sn_nickname s"
  by (simp add: with_view_def Let_def scheduleDrain_def)

lemma end_view_unmoved: "\<not> sn_keys s \<Longrightarrow> unmoved s (with_view (end_view c) s)"
  by (simp add: unmoved_def end_view_def settle_waiters_def)

lemma fields_unmoved:
  assumes "\<not> sn_keys s'" "sn_view s' = sn_view s" "sn_clid s' = sn_clid s" "sn_nickname s' = sn_nickname s"
    "sn_queue s' = sn_queue s" "sn_loop s' = sn_loop s"
  shows "unmoved s s'"
  using assms by (simp add: unmoved_def sn_status_def)

lemma with_loop_unmoved:
  assumes "\<not> sn_keys s" "cl_status (f (sn_loop s)) = sn_status s \<or> cl_status (f (sn_loop s)) = Disconnected"
  shows "unmoved s (with_loop f s)"
  using assms with_loop_queue by (simp add: unmoved_def)

lemma session_fails_unmoved:
  assumes "\<not> sn_keys s"
  shows "unmoved s (session_fails op e s)"
proof -
  let ?s = "with_view (end_view (AnError e)) s"
  have 1: "unmoved s ?s" using end_view_unmoved[OF assms] .
  have 2: "unmoved ?s (?s\<lparr>sn_closed := True\<rparr>)" using assms by (intro fields_unmoved) simp_all
  have 3: "unmoved (?s\<lparr>sn_closed := True\<rparr>) (with_loop (failConnection (so_reconnect op) e) (?s\<lparr>sn_closed := True\<rparr>))"
    using assms by (intro with_loop_unmoved) (simp_all add: fail_leaves sn_status_def)
  show ?thesis
    using unmoved_refl[OF assms] 1 unmoved_trans[OF unmoved_trans[OF 1 2] 3]
    by (simp add: session_fails_def Let_def)
qed

lemma handleError_unmoved:
  assumes "\<not> sn_keys s"
  shows "unmoved s (handleError op row s)"
proof -
  obtain err rc where p: "parseServerError row = (err, rc)" by fastforce
  define t where "t = (case rc of Some rc \<Rightarrow> resolve (nat (sn_clid s)) rc (map_option Refused err) (sn_track s)
      | None \<Rightarrow> discardBuffer (sn_track s))"
  let ?s = "s\<lparr>sn_track := t\<rparr>"
  have 1: "unmoved s ?s" "unmoved s (?s\<lparr>sn_leave_soon := True\<rparr>)"
    using assms by (intro fields_unmoved; simp)+
  have 2: "unmoved s (session_fails op e ?s)" for e
    using unmoved_trans[OF 1(1) session_fails_unmoved] assms by simp
  show ?thesis using 1 2 by (simp add: handleError_def p t_def[symmetric] Let_def split: option.split)
qed

lemma handle_row_unmoved:
  assumes "\<not> sn_keys s"
  shows "unmoved s (fst (handle_row op cmd s)) \<and> snd (handle_row op cmd s) = None"
proof -
  obtain name entries where c: "cmd = (name, entries)" by force
  have handed: "unmoved s (s\<lparr>sn_handed := h\<rparr>)" for h using assms by (intro fields_unmoved) simp_all
  show ?thesis
  proof (cases "name \<in> set PRE_INIT_COMMANDS")
    case True
    then have "name = ''clientinitiv'' \<or> name = ''initivexpand2'' \<or> name = ''error''"
      by (auto simp: PRE_INIT_COMMANDS_def)
    then show ?thesis
      using assms handed handleError_unmoved[OF assms, of op "map_of entries"]
      by (elim disjE) (simp_all add: handle_row_def c Let_def PRE_INIT_COMMANDS_def goodbye_answered_def)
  next
    case False
    then show ?thesis using assms unmoved_refl[OF assms] by (simp add: handle_row_def c Let_def)
  qed
qed

lemma handle_rows_unmoved:
  "\<not> sn_keys s \<Longrightarrow> unmoved s (fst (handle_rows op ts s)) \<and> snd (handle_rows op ts s) = None"
proof (induction ts arbitrary: s)
  case (Cons t ts)
  let ?r = "handleCommandStr op t s"
  have 1: "unmoved s (fst ?r) \<and> snd ?r = None"
    using Cons.prems handle_row_unmoved unmoved_refl by (simp add: handleCommandStr_def split: option.split)
  then have "\<not> sn_keys (fst ?r)" by (simp add: unmoved_def)
  from Cons.IH[OF this] 1 unmoved_trans show ?case by (cases ?r) auto
qed (simp add: unmoved_refl)

lemma group_line_kept:
  "sn_group_line (with_loop f s) = sn_group_line s" "sn_group_line (with_view g s) = sn_group_line s"
proof -
  have "sn_group_line (fold enqueue ds s) = sn_group_line s" for ds and s :: session
    by (induction ds arbitrary: s) (simp_all add: enqueue_def scheduleDrain_def)
  then show "sn_group_line (with_loop f s) = sn_group_line s" by (simp add: with_loop_def Let_def)
  show "sn_group_line (with_view g s) = sn_group_line s" by (simp add: with_view_def Let_def scheduleDrain_def)
qed

text \<open>No rows of a group list are left from before: they need the keys too.\<close>

lemma fails_group_line: "sn_group_line (session_fails op e s) = sn_group_line s"
  by (simp add: session_fails_def Let_def group_line_kept)

lemma row_group_line:
  assumes "\<not> sn_keys s" "sn_group_line s = None"
  shows "sn_group_line (fst (handle_row op cmd s)) = None"
proof -
  obtain name entries where c: "cmd = (name, entries)" by force
  show ?thesis
  proof (cases "name \<in> set PRE_INIT_COMMANDS")
    case True
    then have "name = ''clientinitiv'' \<or> name = ''initivexpand2'' \<or> name = ''error''"
      by (auto simp: PRE_INIT_COMMANDS_def)
    then show ?thesis
      using assms
      by (elim disjE) (auto simp: handle_row_def c Let_def PRE_INIT_COMMANDS_def goodbye_answered_def
          handleError_def fails_group_line split: prod.split option.split)
  next
    case False
    then show ?thesis using assms by (simp add: handle_row_def c Let_def)
  qed
qed

lemma rows_group_line:
  "\<not> sn_keys s \<Longrightarrow> sn_group_line s = None \<Longrightarrow> sn_group_line (fst (handle_rows op ts s)) = None"
proof (induction ts arbitrary: s)
  case (Cons t ts)
  let ?r = "handleCommandStr op t s"
  have "sn_group_line (fst ?r) = None"
    using Cons.prems row_group_line by (simp add: handleCommandStr_def split: option.split)
  moreover have "\<not> sn_keys (fst ?r) \<and> snd ?r = None"
    using Cons.prems(1) handle_row_unmoved by (auto simp: handleCommandStr_def unmoved_def split: option.split)
  ultimately show ?case using Cons.IH[of "fst ?r"] by (cases ?r) auto
qed simp

lemma handle_lines_unmoved:
  "\<not> sn_keys s \<Longrightarrow> sn_group_line s = None \<Longrightarrow>
     unmoved s (fst (handle_lines op ls s)) \<and> snd (handle_lines op ls s) = None"
proof (induction ls arbitrary: s)
  case (Cons l ls)
  let ?r = "handle_rows op (splitCommandRows (strip_cr l)) s"
  have 1: "unmoved s (fst ?r) \<and> snd ?r = None" using handle_rows_unmoved[OF Cons.prems(1)] .
  have 2: "sn_group_line (fst ?r) = None" using rows_group_line[OF Cons.prems] .
  have "applyGroupLine (fst ?r) = fst ?r" using 2 by (simp add: applyGroupLine_def)
  moreover have "\<not> sn_keys (fst ?r)" using 1 by (simp add: unmoved_def)
  ultimately show ?case
    using Cons.IH[of "fst ?r"] Cons.IH[OF Cons.prems] 1 2 unmoved_trans by (cases ?r) auto
qed (simp add: unmoved_refl)

lemma receive_before_keys:
  assumes "\<not> sn_keys s" "sn_group_line s = None"
  shows "unmoved s (receive_text op t s)"
proof -
  have "unmoved s (fst (handleCommandLines op t s)) \<and> snd (handleCommandLines op t s) = None"
    using handle_lines_unmoved[OF assms] unmoved_refl[OF assms(1)] by (simp add: handleCommandLines_def)
  then show ?thesis by (cases "handleCommandLines op t s") (simp add: receive_text_def)
qed

section \<open>Nothing is left waiting\<close>

lemma closed_announces:
  assumes "cl_status l = Connected"
  shows "\<exists>will. Announced (Some e) will
      \<in> set (drop (length (cl_events l)) (cl_events (handleConnectionClosed options random e l)))"
proof -
  let ?l = "l\<lparr>cl_status := Disconnected, cl_lastDrop := Some e\<rparr>"
  obtain r c where w: "willReconnect options e (cl_loopAttempt ?l + 1) ?l = (r, c)" by fastforce
  obtain evs where evs: "cl_events (scheduleReconnect options random e (tell (Announced (Some e) r) c)) =
      cl_events (tell (Announced (Some e) r) c) @ evs"
    using schedule_tells_more[of options random e "tell (Announced (Some e) r) c"] by auto
  have "handleConnectionClosed options random e l =
      scheduleReconnect options random e (tell (Announced (Some e) r) c)"
    using assms w by (simp add: handleConnectionClosed_def)
  then show ?thesis using evs willReconnect_frame[OF w] by (auto simp: tell_def)
qed

text \<open>
  The close of a session that is up: every command waiting and every promise of the view's is
  settled, the view keeps what it knew, and the end is announced.
\<close>

lemma close_settles:
  assumes "sn_status s = Connected" "session_good told s"
  shows "let s' = session_closes op err s; e = closed_error s err
    in sn_status s' = Disconnected \<and> vs_status (sn_view s') = Stale \<and>
       ct_pending (sn_track s') = [] \<and> vs_waiters (sn_view s') = [] \<and>
       (\<forall>rc\<in>fst ` set (ct_pending (sn_track s)).
          (rc, \<lparr>cr_err = Some (NotConnectedError err), cr_data = []\<rparr>) \<in> set (ct_resolved (sn_track s'))) \<and>
       (\<forall>w\<in>set (vs_waiters (sn_view s)). (w, Rejected (TheError e)) \<in> set (vs_settled (sn_view s'))) \<and>
       vs_roster (sn_view s') = vs_roster (sn_view s) \<and> vs_tree (sn_view s') = vs_tree (sn_view s) \<and>
       (\<exists>will. D_Disconnected (Some e) will \<in> set (sn_queue s')) \<and> sn_draining s'"
proof -
  let ?t = "s\<lparr>sn_track := reset_tracker (gone err) (sn_track s)\<rparr>" and ?e = "closed_error s err"
  let ?u = "endSession (AnError ?e) ?t"
  let ?f = "handleConnectionClosed (so_reconnect op) (so_random op) ?e"
  have live: "vs_status (sn_view s) = Loading \<or> vs_status (sn_view s) = Live"
    using assms by (simp add: session_good_def view_follows_def)
  have eq: "session_closes op err s = with_loop ?f ?u"
    using assms(1) by (simp add: session_closes_def Let_def)
  have view: "sn_view (with_loop ?f ?u) = end_view (AnError ?e) (sn_view s)"
    by (simp add: endSession_def)
  have track: "sn_track (with_loop ?f ?u) = reset_tracker (gone err) (sn_track s)" by (simp add: endSession_def)
  have "\<exists>will. Announced (Some ?e) will \<in> set (drop (length (cl_events (sn_loop ?u))) (cl_events (?f (sn_loop ?u))))"
    using closed_announces[of "sn_loop ?u"] assms(1) by (simp add: endSession_def sn_status_def)
  then obtain will where will: "D_Disconnected (Some ?e) will \<in>
      set (announcements (drop (length (cl_events (sn_loop ?u))) (cl_events (?f (sn_loop ?u)))))"
    by (force simp: announcements_def)
  then have q: "D_Disconnected (Some ?e) will \<in> set (sn_queue (with_loop ?f ?u))"
    by (simp add: with_loop_def Let_def fold_enqueue_queue)
  have "session_good told (with_loop ?f ?u)" using session_closes_good[OF assms(2), of op err] eq by simp
  then have d: "sn_draining (with_loop ?f ?u)"
    using q by (auto simp: session_good_def session_inv_def)
  show ?thesis
    unfolding Let_def eq view track
    using live q d by (auto simp: closed_leaves end_view_def settle_waiters_def reset_tracker_def ended_with_def gone_def)
qed

section \<open>Reports\<close>

lemma drain_reports:
  assumes "session_good True s"
  defines "s' \<equiv> drain_deliveries (\<lambda>_. False) s"
  shows "\<not> report_due s'" "sn_queue s' = []" "\<not> sn_draining s'" "sorted_wrt (<) (view_reports s')"
    and "report_due s \<Longrightarrow> last (view_reports s') = vs_revision (sn_view s)"
proof -
  have i: "session_inv True s" using assms(1) by (simp add: session_good_def)
  have g: "session_inv True s'"
    unfolding s'_def using drain_good[OF assms(1), of "\<lambda>_. False"] deliver_all_quiet by (simp add: session_good_def)
  show d: "\<not> sn_draining s'"
    by (simp add: s'_def drain_deliveries_def deliver_all_quiet Let_def split: prod.split)
  with g show "\<not> report_due s'" "sn_queue s' = []" "sorted_wrt (<) (view_reports s')"
    by (auto simp: session_inv_def)
  assume due: "report_due s"
  then have a: "announce (sn_view s) = (Some (vs_revision (sn_view s)), (sn_view s)\<lparr>vs_announced := vs_revision (sn_view s)\<rparr>)"
    by (auto simp: report_due_def announce_def)
  have "sn_draining s" using i due by (simp add: session_inv_def)
  then have "sn_delivered s' = sn_delivered s @ sn_queue s @ [D_ViewChanged (vs_revision (sn_view s))]" "sn_queue s' = []"
    using a by (simp_all add: s'_def drain_deliveries_def deliver_all_quiet Let_def)
  then show "last (view_reports s') = vs_revision (sn_view s)" by (simp add: view_reports_def)
qed

text \<open>A delivery that throws, and is the last, takes the report with it.\<close>

lemma thrown_drain:
  assumes "sn_draining s" "sn_queue s = ds @ [d]" "throws d"
  shows "view_reports (drain_deliveries throws s) = view_reports s" 
    "sn_view (drain_deliveries throws s) = sn_view s"
proof -
  have "snd (snd (deliver_all throws (ds @ [d])))" using assms(3)
    by (induction ds) (auto split: prod.split)
  moreover obtain out rest threw where e: "deliver_all throws (sn_queue s) = (out, rest, threw)" by (metis prod_cases3)
  ultimately have t: threw using assms(2) by simp
  have "sn_queue s = out @ rest" using deliver_all_split[OF e] by simp
  then show "view_reports (drain_deliveries throws s) = view_reports s" 
    "sn_view (drain_deliveries throws s) = sn_view s"
    using assms(1) e t by (simp_all add: drain_deliveries_def Let_def view_reports_def split: prod.split)
qed

end
