(* ===== verification/Query_Client.thy ===== *)
theory Query_Client
  imports Command_Codec Server_Errors
begin

text \<open>
  The command pipeline of \<^verbatim>\<open>src/query/client.ts\<close> and the late rows of \<^verbatim>\<open>src/query/late-rows.ts\<close>:
  commands are queued and written one at a time, the lines the server sends are read as rows of
  the command on the wire, as the \<^verbatim>\<open>error\<close> line that ends its answer or as notifications, answers
  nobody waits for any more are read and discarded, and a successful answer that may still lack
  its row is held open for it.

  A step of the model is one turn of the event loop: a line read, a timer, a signal, a promise of
  the transport settling, the continuation of \<^verbatim>\<open>#execOnce\<close> (its \<^verbatim>\<open>finally\<close>). What the client does
  towards its caller and its transport is recorded in order. The chain of line middlewares is the
  empty one. What JavaScript's \<^verbatim>\<open>Number\<close> reads from a text, when it is an integer, is the argument
  \<open>number\<close>.
\<close>

section \<open>Late rows\<close>

record late_rows =
  la_keys :: "string list"
  la_several :: bool
  la_any :: bool

definition keyed :: "string \<Rightarrow> late_rows" where
  "keyed k = \<lparr>la_keys = [k], la_several = False, la_any = False\<rparr>"

definition LATE_ROWS :: "(string \<times> late_rows) list" where
  "LATE_ROWS =
     [(''channelcreate'', keyed ''cid''),
      (''servergroupadd'', keyed ''sgid''),
      (''servergroupcopy'', keyed ''sgid''),
      (''channelgroupadd'', keyed ''cgid''),
      (''channelgroupcopy'', keyed ''cgid''),
      (''banadd'', keyed ''banid''),
      (''banclient'', (keyed ''banid'')\<lparr>la_several := True\<rparr>),
      (''privilegekeyadd'', keyed ''token''),
      (''tokenadd'', keyed ''token''),
      (''apikeyadd'', keyed ''apikey''),
      (''servercreate'', keyed ''sid'')]"

definition LATE_ROW_GRACE_MS :: nat where "LATE_ROW_GRACE_MS = 250"
definition LATE_ROW_QUIET_MS :: nat where "LATE_ROW_QUIET_MS = 25"

definition ends_with :: "string \<Rightarrow> string \<Rightarrow> bool" where
  "ends_with s suf \<longleftrightarrow> length suf \<le> length s \<and> drop (length s - length suf) s = suf"

text \<open>The pattern \<^verbatim>\<open>READS\<close>; a \<^verbatim>\<open>\w\<close> is a letter, a digit or an underscore.\<close>

definition READS :: "string \<Rightarrow> bool" where
  "READS command \<longleftrightarrow>
     list_ex (ends_with command) [''list'', ''info'', ''find'', ''search'']
     \<or> (take 3 command = ''get'' \<and> drop 3 command \<noteq> []
        \<and> list_all (\<lambda>c. is_alnum c \<or> c = CHR ''_'') (drop 3 command))
     \<or> command \<in> set [''whoami'', ''version'', ''permfind'', ''permoverview'', ''permget'']"

definition lateRowsOf :: "string \<Rightarrow> late_rows option" where
  "lateRowsOf command =
     (case map_of LATE_ROWS command of
        Some known \<Rightarrow> Some known
      | None \<Rightarrow>
          if READS command then Some \<lparr>la_keys = [], la_several = False, la_any = True\<rparr> else None)"

definition hasLateRow :: "late_rows \<Rightarrow> params list \<Rightarrow> bool" where
  "hasLateRow late rows =
     (if la_any late then rows \<noteq> []
      else list_ex (\<lambda>row. list_ex (\<lambda>k. row k \<noteq> None) (la_keys late)) rows)"

section \<open>Rows\<close>

definition splitRows :: "string \<Rightarrow> string list" where
  "splitRows line =
     (let head = takeWhile (\<lambda>c. c \<noteq> CHR '' '') line;
          spaced = CHR '' '' \<in> set line;
          named = (head \<noteq> [] \<and> list_all is_alnum head);
          rest = (if named then (if spaced then drop (length head + 1) line else []) else line);
          prefix = (if named then head @ '' '' else [])
      in map (\<lambda>row. prefix @ row) (filter (\<lambda>row. row \<noteq> []) (split_on CHR ''|'' rest)))"

text \<open>
  The own keys of the parameters \<^const>\<open>parseCommand\<close> reads from a row (\<^verbatim>\<open>Object.keys\<close>).
\<close>

definition part_keys :: "string list \<Rightarrow> string list" where
  "part_keys parts = remdups (map (\<lambda>p. fst (parse_part unescape p)) (filter (\<lambda>p. p \<noteq> []) parts))"

definition row_keys :: "string \<Rightarrow> string list" where
  "row_keys row =
     (let parts = split_on CHR '' '' (skip_unprintable row)
      in part_keys (if isCommandName (hd parts) then tl parts else parts))"

definition transferRefusal ::
    "(string \<Rightarrow> int option) \<Rightarrow> string \<Rightarrow> params list \<Rightarrow> (int \<times> string) option" where
  "transferRefusal number command rows =
     (if command \<noteq> ''ftinitupload'' \<and> command \<noteq> ''ftinitdownload'' then None
      else case rows of
        [] \<Rightarrow> None
      | row # _ \<Rightarrow>
          if row ''ftkey'' \<noteq> None then None
          else (case Option.bind (row ''status'') number of
                  None \<Rightarrow> None
                | Some status \<Rightarrow>
                    if status = 0 then None
                    else Some (status, case row ''msg'' of Some m \<Rightarrow> m | None \<Rightarrow> [])))"

section \<open>The state of the client\<close>

datatype command_failure =
    Not_Connected "string option"
  | Command_Timeout string
  | Server_Refusal server_error
  | Transfer_Refusal int string
  | Given_Up string
  | Send_Failure string
  | Connect_Failure string

type_synonym answer = "command_failure + params list"

datatype transport_kind = Tcp | Ssh | Web | Custom

datatype query_status = Q_Disconnected | Q_Connecting | Q_Connected

record held =
  he_late :: late_rows
  he_wait :: nat

record pending_answer =
  pe_id :: nat
  pe_command :: string
  pe_rows :: "params list"
  pe_held :: "held option"

datatype sending = Sending | Sent | Send_Failed

text \<open>
  The call of \<^verbatim>\<open>#execNow\<close> that is running, with the promises it waits for: how \<^verbatim>\<open>#execOnce\<close> will
  end (\<open>ru_outcome\<close>), why its signal was aborted (\<open>ru_gave_up\<close>) and how far the transport is with
  the line.
\<close>

record run =
  ru_id :: nat
  ru_name :: string
  ru_outcome :: "answer option"
  ru_gave_up :: "command_failure option"
  ru_sending :: sending
  ru_nudger :: bool

record waiting =
  wa_id :: nat
  wa_line :: string
  wa_aborted :: "command_failure option"

datatype query_act =
    Act_Write nat string
  | Act_Nudge
  | Act_On_Sent nat
  | Act_Settle nat answer
  | Act_Notify string params
  | Act_Close
  | Act_Connected
  | Act_Disconnected "string option"

record query_client =
  qc_kind :: transport_kind
  qc_status :: query_status
  qc_generation :: nat
  qc_transport :: bool
  qc_closed :: bool
  qc_down :: bool
  qc_pending :: "pending_answer option"
  qc_strayKey :: "string option"
  qc_abandoned :: int
  qc_waiting :: "waiting list"
  qc_run :: "run option"
  qc_unsettled :: "(nat \<times> bool) list"
  qc_next :: nat
  qc_log :: "query_act list"

definition new_query_client :: "transport_kind \<Rightarrow> query_client" where
  "new_query_client kind =
     \<lparr>qc_kind = kind, qc_status = Q_Disconnected, qc_generation = 0, qc_transport = False, qc_closed = True,
      qc_down = False, qc_pending = None, qc_strayKey = None, qc_abandoned = 0, qc_waiting = [],
      qc_run = None, qc_unsettled = [], qc_next = 0, qc_log = []\<rparr>"

definition note_act :: "query_act \<Rightarrow> query_client \<Rightarrow> query_client" where
  "note_act a qc = qc\<lparr>qc_log := qc_log qc @ [a]\<rparr>"

text \<open>A promise settles once: what settles it first is its outcome.\<close>

definition settle_run :: "nat \<Rightarrow> answer \<Rightarrow> query_client \<Rightarrow> query_client" where
  "settle_run i ans qc =
     (case qc_run qc of
        Some r \<Rightarrow>
          if ru_id r = i \<and> ru_outcome r = None then qc\<lparr>qc_run := Some (r\<lparr>ru_outcome := Some ans\<rparr>)\<rparr>
          else qc
      | None \<Rightarrow> qc)"

section \<open>Running a command\<close>

definition exec :: "string \<Rightarrow> query_client \<Rightarrow> query_client" where
  "exec line qc =
     qc\<lparr>qc_waiting := qc_waiting qc @ [\<lparr>wa_id = qc_next qc, wa_line = line, wa_aborted = None\<rparr>],
        qc_next := qc_next qc + 1\<rparr>"

text \<open>
  The turn of the next queued command: \<^verbatim>\<open>#execNow\<close>, and \<^verbatim>\<open>#execOnce\<close> up to its first await. A signal
  aborted already, a closed connection and one that is going down end it before it writes.
\<close>

definition command_name :: "string \<Rightarrow> string" where
  "command_name line = (case parseCommand line of Some c \<Rightarrow> cmd_name c | None \<Rightarrow> [])"

definition execOnce :: "nat \<Rightarrow> string \<Rightarrow> query_client \<Rightarrow> query_client" where
  "execOnce i line qc =
     note_act (Act_Write i line)
       (qc\<lparr>qc_pending := Some \<lparr>pe_id = i, pe_command = command_name line, pe_rows = [], pe_held = None\<rparr>,
           qc_run := Some \<lparr>ru_id = i, ru_name = command_name line, ru_outcome = None,
                           ru_gave_up = None, ru_sending = Sending, ru_nudger = False\<rparr>\<rparr>)"

definition execNow :: "query_client \<Rightarrow> query_client" where
  "execNow qc =
     (case (qc_run qc, qc_waiting qc) of
        (None, w # ws) \<Rightarrow>
          let qc' = qc\<lparr>qc_waiting := ws\<rparr>
          in (case wa_aborted w of
                Some e \<Rightarrow> note_act (Act_Settle (wa_id w) (Inl e)) qc'
              | None \<Rightarrow>
                  if qc_closed qc \<or> \<not> qc_transport qc \<or> qc_down qc
                  then note_act (Act_Settle (wa_id w) (Inl (Not_Connected None))) qc'
                  else execOnce (wa_id w) (wa_line w) qc')
      | _ \<Rightarrow> qc)"

text \<open>
  The command's signal aborts: the caller's own, its timeout, or the end of the connection. The
  first reason stays.
\<close>

definition abort_run :: "command_failure \<Rightarrow> query_client \<Rightarrow> query_client" where
  "abort_run e qc =
     (case qc_run qc of
        Some r \<Rightarrow>
          if ru_gave_up r = None
          then settle_run (ru_id r) (Inl e) (qc\<lparr>qc_run := Some (r\<lparr>ru_gave_up := Some e\<rparr>)\<rparr>)
          else qc
      | None \<Rightarrow> qc)"

definition timeout :: "query_client \<Rightarrow> query_client" where
  "timeout qc =
     (case qc_run qc of Some r \<Rightarrow> abort_run (Command_Timeout (ru_name r)) qc | None \<Rightarrow> qc)"

definition cancel :: "nat \<Rightarrow> string \<Rightarrow> query_client \<Rightarrow> query_client" where
  "cancel i reason qc =
     (case qc_run qc of
        Some r \<Rightarrow>
          if ru_id r = i then abort_run (Given_Up reason) qc
          else qc\<lparr>qc_waiting := map (\<lambda>w. if wa_id w = i \<and> wa_aborted w = None
                                         then w\<lparr>wa_aborted := Some (Given_Up reason)\<rparr> else w)
                                  (qc_waiting qc)\<rparr>
      | None \<Rightarrow> qc\<lparr>qc_waiting := map (\<lambda>w. if wa_id w = i \<and> wa_aborted w = None
                                         then w\<lparr>wa_aborted := Some (Given_Up reason)\<rparr> else w)
                                  (qc_waiting qc)\<rparr>)"

text \<open>
  The transport's \<^verbatim>\<open>send\<close> settles, while the command waits or after it has ended; a command that
  was given up on before its line could be sent is not answered.
\<close>

definition drop_unsettled :: "nat \<Rightarrow> query_client \<Rightarrow> query_client" where
  "drop_unsettled i qc = qc\<lparr>qc_unsettled := filter (\<lambda>u. fst u \<noteq> i) (qc_unsettled qc)\<rparr>"

definition is_sending :: "nat \<Rightarrow> query_client \<Rightarrow> bool" where
  "is_sending i qc \<longleftrightarrow> (case qc_run qc of Some r \<Rightarrow> ru_id r = i \<and> ru_sending r = Sending | None \<Rightarrow> False)"

definition set_sending :: "sending \<Rightarrow> bool \<Rightarrow> query_client \<Rightarrow> query_client" where
  "set_sending s nudger qc = qc\<lparr>qc_run := map_option (\<lambda>r. r\<lparr>ru_sending := s, ru_nudger := nudger\<rparr>) (qc_run qc)\<rparr>"

definition send_ok :: "nat \<Rightarrow> query_client \<Rightarrow> query_client" where
  "send_ok i qc =
     (if is_sending i qc then note_act (Act_On_Sent i) (set_sending Sent (qc_kind qc = Ssh) qc)
      else if i \<in> fst ` set (qc_unsettled qc) then note_act (Act_On_Sent i) (drop_unsettled i qc)
      else qc)"

definition send_failed :: "nat \<Rightarrow> string \<Rightarrow> query_client \<Rightarrow> query_client" where
  "send_failed i e qc =
     (if is_sending i qc then settle_run i (Inl (Send_Failure e)) (set_sending Send_Failed False qc)
      else case map_of (qc_unsettled qc) i of
        Some abandonedByUs \<Rightarrow>
          drop_unsettled i
            (if abandonedByUs then qc\<lparr>qc_abandoned := qc_abandoned qc - 1\<rparr> else qc)
      | None \<Rightarrow> qc)"

text \<open>Over SSH, an empty line while the command waits.\<close>

definition nudge :: "query_client \<Rightarrow> query_client" where
  "nudge qc =
     (case qc_run qc of Some r \<Rightarrow> if ru_nudger r then note_act Act_Nudge qc else qc | None \<Rightarrow> qc)"

text \<open>
  The end of \<^verbatim>\<open>#execOnce\<close> (its \<^verbatim>\<open>finally\<close>) and of \<^verbatim>\<open>#execNow\<close>: a command that leaves while it is
  the one on the wire leaves an answer to discard, unless its \<^verbatim>\<open>error\<close> line was read or its line
  was not sent. The reason of an aborted signal wins over the answer.
\<close>

definition let_go :: "run \<Rightarrow> query_client \<Rightarrow> query_client" where
  "let_go r qc =
     (case qc_pending qc of
        Some gone \<Rightarrow>
          let owed = (pe_held gone = None \<and> ru_sending r \<noteq> Send_Failed)
          in qc\<lparr>qc_pending := None,
                qc_abandoned := (if owed then qc_abandoned qc + 1 else qc_abandoned qc),
                qc_unsettled := (if ru_sending r = Sending then (ru_id r, owed) # qc_unsettled qc
                                 else qc_unsettled qc)\<rparr>
      | None \<Rightarrow>
          qc\<lparr>qc_unsettled := (if ru_sending r = Sending then (ru_id r, False) # qc_unsettled qc
                              else qc_unsettled qc)\<rparr>)"

definition run_result :: "run \<Rightarrow> answer \<Rightarrow> answer" where
  "run_result r outcome = (case ru_gave_up r of Some e \<Rightarrow> Inl e | None \<Rightarrow> outcome)"

definition finish_run :: "query_client \<Rightarrow> query_client" where
  "finish_run qc =
     (case qc_run qc of
        Some r \<Rightarrow>
          (case ru_outcome r of
             Some outcome \<Rightarrow>
               note_act (Act_Settle (ru_id r) (run_result r outcome)) ((let_go r qc)\<lparr>qc_run := None\<rparr>)
           | None \<Rightarrow> qc)
      | None \<Rightarrow> qc)"

section \<open>Reading a line\<close>

definition set_held :: "held option \<Rightarrow> query_client \<Rightarrow> query_client" where
  "set_held h qc = qc\<lparr>qc_pending := map_option (\<lambda>p. p\<lparr>pe_held := h\<rparr>) (qc_pending qc)\<rparr>"

text \<open>\<^verbatim>\<open>finish\<close>: the held answer is complete. \<^verbatim>\<open>wait\<close>: its timer starts again.\<close>

definition finish_held :: "pending_answer \<Rightarrow> query_client \<Rightarrow> query_client" where
  "finish_held p qc = settle_run (pe_id p) (Inr (pe_rows p)) (qc\<lparr>qc_pending := None\<rparr>)"

definition wait_held :: "nat \<Rightarrow> held \<Rightarrow> query_client \<Rightarrow> query_client" where
  "wait_held ms h qc = set_held (Some (h\<lparr>he_wait := ms\<rparr>)) qc"

text \<open>The timer of a held answer fires.\<close>

definition held_timer :: "query_client \<Rightarrow> query_client" where
  "held_timer qc =
     (case qc_pending qc of
        Some p \<Rightarrow>
          (case pe_held p of
             Some h \<Rightarrow>
               let qc' = (if \<not> hasLateRow (he_late h) (pe_rows p) \<and> la_keys (he_late h) \<noteq> []
                          then qc\<lparr>qc_strayKey := Some (hd (la_keys (he_late h)))\<rparr> else qc)
               in finish_held p qc'
           | None \<Rightarrow> qc)
      | None \<Rightarrow> qc)"

definition handle_error ::
    "(string \<Rightarrow> int option) \<Rightarrow> params \<Rightarrow> query_client \<Rightarrow> query_client" where
  "handle_error number ps qc =
     (if 0 < qc_abandoned qc then qc\<lparr>qc_abandoned := qc_abandoned qc - 1\<rparr>
      else case qc_pending qc of
        None \<Rightarrow> qc
      | Some p \<Rightarrow>
          let err = fst (parseServerError ps);
              refusal = (case err of Some e \<Rightarrow> Some (Server_Refusal e)
                         | None \<Rightarrow> map_option (\<lambda>(c, m). Transfer_Refusal c m)
                                     (transferRefusal number (pe_command p) (pe_rows p)));
              qc' = qc\<lparr>qc_pending := None, qc_strayKey := None\<rparr>
          in (case refusal of
                Some e \<Rightarrow> settle_run (pe_id p) (Inl e) qc'
              | None \<Rightarrow>
                  (case (if qc_kind qc = Web then None else lateRowsOf (pe_command p)) of
                     None \<Rightarrow> settle_run (pe_id p) (Inr (pe_rows p)) qc'
                   | Some late \<Rightarrow>
                       let hasRow = hasLateRow late (pe_rows p)
                       in if hasRow \<and> \<not> la_several late
                          then settle_run (pe_id p) (Inr (pe_rows p)) qc'
                          else qc'\<lparr>qc_pending := Some (p\<lparr>pe_held :=
                                 Some \<lparr>he_late = late,
                                       he_wait = (if hasRow \<or> la_any late then LATE_ROW_QUIET_MS
                                                  else LATE_ROW_GRACE_MS)\<rparr>\<rparr>)\<rparr>)))"

text \<open>One row of an answer: the loop body of \<^verbatim>\<open>#handleLine\<close>.\<close>

definition own_keys :: "query_client \<Rightarrow> string list" where
  "own_keys qc =
     (case qc_pending qc of
        Some p \<Rightarrow> (case lateRowsOf (pe_command p) of Some late \<Rightarrow> la_keys late | None \<Rightarrow> [])
      | None \<Rightarrow> [])"

definition push_row :: "string \<Rightarrow> params \<Rightarrow> query_client \<Rightarrow> query_client" where
  "push_row row ps qc =
     (case qc_pending qc of
        None \<Rightarrow> qc
      | Some p \<Rightarrow>
          let p' = p\<lparr>pe_rows := pe_rows p @ [ps]\<rparr>;
              qc' = qc\<lparr>qc_pending := Some p'\<rparr>
          in (case pe_held p of
                None \<Rightarrow> qc'
              | Some h \<Rightarrow>
                  if la_any (he_late h) \<or> list_ex (\<lambda>k. k \<in> set (la_keys (he_late h))) (row_keys row)
                  then (if la_several (he_late h) \<or> la_any (he_late h)
                        then wait_held LATE_ROW_QUIET_MS h qc'
                        else finish_held p' qc')
                  else qc'))"

definition answer_row :: "string \<Rightarrow> query_client \<Rightarrow> query_client" where
  "answer_row row qc =
     (case parseCommand row of
        None \<Rightarrow> qc
      | Some c \<Rightarrow>
          (case qc_strayKey qc of
             None \<Rightarrow> push_row row (cmd_params c) qc
           | Some stray \<Rightarrow>
               if row_keys row = [stray] then
                 (let qc' = qc\<lparr>qc_strayKey := None\<rparr>
                  in if stray \<in> set (own_keys qc) then push_row row (cmd_params c) qc' else qc')
               else push_row row (cmd_params c) qc))"

definition notify_row :: "string \<Rightarrow> query_client \<Rightarrow> query_client" where
  "notify_row row qc =
     (case parseCommand row of
        Some c \<Rightarrow> note_act (Act_Notify (cmd_name c) (cmd_params c)) qc
      | None \<Rightarrow> qc)"

definition trim_cr :: "string \<Rightarrow> string" where
  "trim_cr line = (if line \<noteq> [] \<and> last line = CHR 0x0D then butlast line else line)"

definition is_notification :: "string \<Rightarrow> bool" where
  "is_notification name \<longleftrightarrow> take 6 name = ''notify''"

definition handleLine :: "(string \<Rightarrow> int option) \<Rightarrow> string \<Rightarrow> query_client \<Rightarrow> query_client" where
  "handleLine number line qc =
     (case parseCommand (trim_cr line) of
        None \<Rightarrow> qc
      | Some cmd \<Rightarrow>
          if cmd_name cmd = ''error'' then handle_error number (cmd_params cmd) qc
          else if is_notification (cmd_name cmd) then fold notify_row (splitRows (trim_cr line)) qc
          else if 0 < qc_abandoned qc then qc
          else fold answer_row (splitRows (trim_cr line)) qc)"

section \<open>The connection\<close>

definition fail :: "command_failure \<Rightarrow> query_client \<Rightarrow> query_client" where
  "fail e qc =
     (let qc' = (if qc_down qc then qc else abort_run (Not_Connected None) (qc\<lparr>qc_down := True\<rparr>))
      in case qc_pending qc' of
           Some p \<Rightarrow> settle_run (pe_id p) (Inl e) (qc'\<lparr>qc_pending := None\<rparr>)
         | None \<Rightarrow> qc')"

text \<open>
  \<^verbatim>\<open>#connect\<close> up to the opening of the transport, the part of \<^verbatim>\<open>#establishSession\<close> that installs
  it, and the end of \<^verbatim>\<open>#connect\<close>. An attempt goes by the generation it began with; one that was
  given up on while its transport was opening closes it and installs nothing.
\<close>

definition begin_connect :: "query_client \<Rightarrow> query_client" where
  "begin_connect qc =
     (if qc_status qc = Q_Disconnected
      then qc\<lparr>qc_status := Q_Connecting, qc_generation := qc_generation qc + 1\<rparr> else qc)"

definition install :: "nat \<Rightarrow> query_client \<Rightarrow> query_client" where
  "install generation qc =
     (if generation = qc_generation qc \<and> qc_status qc = Q_Connecting
      then qc\<lparr>qc_transport := True, qc_closed := False, qc_down := False, qc_abandoned := 0,
              qc_pending := None, qc_strayKey := None\<rparr>
      else note_act Act_Close qc)"

definition connected :: "nat \<Rightarrow> query_client \<Rightarrow> query_client" where
  "connected generation qc =
     (if generation = qc_generation qc then note_act Act_Connected (qc\<lparr>qc_status := Q_Connected\<rparr>)
      else qc)"

definition query_handleClose :: "string option \<Rightarrow> query_client \<Rightarrow> query_client" where
  "query_handleClose error qc =
     (if qc_status qc = Q_Disconnected then qc
      else let qc' = (fail (Not_Connected error) (qc\<lparr>qc_transport := False, qc_closed := True\<rparr>))
                       \<lparr>qc_status := Q_Disconnected\<rparr>
           in if qc_status qc = Q_Connected
              then note_act (Act_Disconnected
                     (Some (case error of Some e \<Rightarrow> e | None \<Rightarrow> ''connection closed''))) qc'
              else qc')"

definition query_failConnection :: "command_failure \<Rightarrow> query_client \<Rightarrow> query_client" where
  "query_failConnection e qc =
     (if qc_status qc = Q_Connected then qc
      else let qc' = fail e (qc\<lparr>qc_status := Q_Disconnected, qc_closed := True\<rparr>)
           in if qc_transport qc' then note_act Act_Close (qc'\<lparr>qc_transport := False\<rparr>) else qc')"

text \<open>\<^verbatim>\<open>disconnect\<close> with its \<^verbatim>\<open>#teardown\<close>, up to the closing of the transport.\<close>

definition query_disconnect :: "query_client \<Rightarrow> query_client" where
  "query_disconnect qc0 =
     (let qc = qc0\<lparr>qc_generation := qc_generation qc0 + 1\<rparr>
      in if qc_status qc = Q_Disconnected then qc
         else let qc' = fail (Not_Connected None)
                          (qc\<lparr>qc_status := Q_Disconnected, qc_transport := False, qc_closed := True\<rparr>)
              in note_act (Act_Disconnected None)
                   (if qc_transport qc then note_act Act_Close qc' else qc'))"

section \<open>Steps\<close>

datatype query_event =
    Ev_Exec string
  | Ev_Turn
  | Ev_Timeout
  | Ev_Cancel nat string
  | Ev_Send_Ok nat
  | Ev_Send_Failed nat string
  | Ev_Nudge
  | Ev_Finish
  | Ev_Line string
  | Ev_Held_Timer
  | Ev_Begin_Connect
  | Ev_Install nat
  | Ev_Connected nat
  | Ev_Closed "string option"
  | Ev_Connect_Failed command_failure
  | Ev_Disconnect

fun query_step :: "(string \<Rightarrow> int option) \<Rightarrow> query_event \<Rightarrow> query_client \<Rightarrow> query_client" where
  "query_step number (Ev_Exec line) qc = exec line qc"
| "query_step number Ev_Turn qc = execNow qc"
| "query_step number Ev_Timeout qc = timeout qc"
| "query_step number (Ev_Cancel i reason) qc = cancel i reason qc"
| "query_step number (Ev_Send_Ok i) qc = send_ok i qc"
| "query_step number (Ev_Send_Failed i e) qc = send_failed i e qc"
| "query_step number Ev_Nudge qc = nudge qc"
| "query_step number Ev_Finish qc = finish_run qc"
| "query_step number (Ev_Line line) qc = handleLine number line qc"
| "query_step number Ev_Held_Timer qc = held_timer qc"
| "query_step number Ev_Begin_Connect qc = begin_connect qc"
| "query_step number (Ev_Install generation) qc = install generation qc"
| "query_step number (Ev_Connected generation) qc = connected generation qc"
| "query_step number (Ev_Closed error) qc = query_handleClose error qc"
| "query_step number (Ev_Connect_Failed e) qc = query_failConnection e qc"
| "query_step number Ev_Disconnect qc = query_disconnect qc"

end
