(* ===== verification/Query_Answers.thy ===== *)
theory Query_Answers
  imports Query_Client
begin

text \<open>
  What the command pipeline of the query client keeps: calls are settled once each, in the order
  they were made (\<open>in_order\<close>), and, against a server that answers in order, every command gets
  the rows the server wrote for it (\<open>serving\<close>). The server is described by what it owes: the
  commands written to it and not answered to the end yet, and the rows it has written so far.
\<close>

section \<open>Calls settle in order\<close>

fun settled_by :: "query_act \<Rightarrow> nat list" where
  "settled_by (Act_Settle i ans) = [i]"
| "settled_by _ = []"

definition settled_ids :: "query_client \<Rightarrow> nat list" where
  "settled_ids qc = concat (map settled_by (qc_log qc))"

definition running_ids :: "query_client \<Rightarrow> nat list" where
  "running_ids qc = (case qc_run qc of Some r \<Rightarrow> [ru_id r] | None \<Rightarrow> [])"

definition call_ids :: "query_client \<Rightarrow> nat list" where
  "call_ids qc = settled_ids qc @ running_ids qc @ map wa_id (qc_waiting qc)"

definition in_order :: "query_client \<Rightarrow> bool" where
  "in_order qc \<longleftrightarrow> call_ids qc = [0..<qc_next qc]"

text \<open>The steps that leave the calls where they are.\<close>

definition calls_of :: "query_client \<Rightarrow> nat list \<times> nat list \<times> nat list \<times> nat" where
  "calls_of qc = (settled_ids qc, running_ids qc, map wa_id (qc_waiting qc), qc_next qc)"

lemma in_order_calls: "calls_of qc' = calls_of qc \<Longrightarrow> in_order qc \<Longrightarrow> in_order qc'"
  by (simp add: calls_of_def in_order_def call_ids_def)

lemma calls_simps [simp]:
  "calls_of (qc\<lparr>qc_pending := p\<rparr>) = calls_of qc" "calls_of (qc\<lparr>qc_strayKey := k\<rparr>) = calls_of qc"
  "calls_of (qc\<lparr>qc_abandoned := a\<rparr>) = calls_of qc" "calls_of (qc\<lparr>qc_unsettled := u\<rparr>) = calls_of qc"
  "calls_of (qc\<lparr>qc_status := s\<rparr>) = calls_of qc" "calls_of (qc\<lparr>qc_generation := g\<rparr>) = calls_of qc"
  "calls_of (qc\<lparr>qc_transport := t\<rparr>) = calls_of qc" "calls_of (qc\<lparr>qc_closed := c\<rparr>) = calls_of qc"
  "calls_of (qc\<lparr>qc_down := d\<rparr>) = calls_of qc"
  by (simp_all add: calls_of_def settled_ids_def running_ids_def)

lemma calls_note [simp]: "settled_by a = [] \<Longrightarrow> calls_of (note_act a qc) = calls_of qc"
  by (simp add: calls_of_def settled_ids_def running_ids_def note_act_def)

lemma calls_run: "map_option ru_id r = map_option ru_id (qc_run qc) \<Longrightarrow> calls_of (qc\<lparr>qc_run := r\<rparr>) = calls_of qc"
  by (cases r; cases "qc_run qc") (simp_all add: calls_of_def settled_ids_def running_ids_def)

lemma calls_settle_run [simp]: "calls_of (settle_run i a qc) = calls_of qc"
  by (simp add: settle_run_def calls_run split: option.split)

lemma calls_abort_run [simp]: "calls_of (abort_run e qc) = calls_of qc"
  by (simp add: abort_run_def calls_run split: option.split)

lemma calls_timeout [simp]: "calls_of (timeout qc) = calls_of qc"
  by (simp add: timeout_def split: option.split)

lemma calls_waiting:
  "map wa_id ws = map wa_id (qc_waiting qc) \<Longrightarrow> calls_of (qc\<lparr>qc_waiting := ws\<rparr>) = calls_of qc"
  by (simp add: calls_of_def settled_ids_def running_ids_def)

lemma calls_cancel [simp]: "calls_of (cancel i reason qc) = calls_of qc"
  by (auto simp: cancel_def intro!: calls_waiting split: option.split)

lemma calls_set_sending [simp]: "calls_of (set_sending s n qc) = calls_of qc"
  by (simp add: set_sending_def calls_run option.map_comp comp_def)

lemma calls_drop_unsettled [simp]: "calls_of (drop_unsettled i qc) = calls_of qc"
  by (simp add: drop_unsettled_def)

lemma calls_sends [simp]:
  "calls_of (send_ok i qc) = calls_of qc" "calls_of (send_failed i e qc) = calls_of qc"
  "calls_of (nudge qc) = calls_of qc"
  by (simp_all add: send_ok_def send_failed_def nudge_def split: option.split)

lemma calls_finish_held [simp]: "calls_of (finish_held p qc) = calls_of qc"
  by (simp add: finish_held_def)

lemma calls_set_held [simp]: "calls_of (set_held h qc) = calls_of qc"
  by (simp add: set_held_def)

lemma calls_held_timer [simp]: "calls_of (held_timer qc) = calls_of qc"
  by (simp add: held_timer_def Let_def split: option.split)

lemma calls_handle_error [simp]: "calls_of (handle_error number ps qc) = calls_of qc"
  by (simp add: handle_error_def Let_def split: option.split)

lemma calls_push_row [simp]: "calls_of (push_row row ps qc) = calls_of qc"
  by (simp add: push_row_def wait_held_def Let_def split: option.split)

lemma calls_answer_row [simp]: "calls_of (answer_row row qc) = calls_of qc"
  by (simp add: answer_row_def Let_def split: option.split)

lemma calls_notify_row [simp]: "calls_of (notify_row row qc) = calls_of qc"
  by (simp add: notify_row_def split: option.split)

lemma calls_fold:
  assumes "\<And>x qc. calls_of (f x qc) = calls_of qc"
  shows "calls_of (fold f xs qc) = calls_of qc"
  by (induction xs arbitrary: qc) (simp_all add: assms)

lemma calls_handleLine [simp]: "calls_of (handleLine number line qc) = calls_of qc"
  by (simp add: handleLine_def calls_fold split: option.split)

lemma calls_fail [simp]: "calls_of (fail e qc) = calls_of qc"
  by (simp add: fail_def Let_def split: option.split)

lemma calls_connection [simp]:
  "calls_of (begin_connect qc) = calls_of qc" "calls_of (install g qc) = calls_of qc"
  "calls_of (connected g qc) = calls_of qc" "calls_of (query_handleClose err qc) = calls_of qc"
  "calls_of (query_failConnection e qc) = calls_of qc" "calls_of (query_disconnect qc) = calls_of qc"
  by (simp_all add: begin_connect_def install_def connected_def query_handleClose_def
      query_failConnection_def query_disconnect_def Let_def)

lemma calls_let_go [simp]: "calls_of (let_go r qc) = calls_of qc"
  by (simp add: let_go_def Let_def split: option.split)

lemma in_order_finish: "in_order qc \<Longrightarrow> in_order (finish_run qc)"
  using calls_let_go
  by (auto simp: finish_run_def in_order_def call_ids_def calls_of_def running_ids_def
      settled_ids_def note_act_def split: option.splits)

lemma in_order_execNow: "in_order qc \<Longrightarrow> in_order (execNow qc)"
  by (auto simp: execNow_def execOnce_def in_order_def call_ids_def running_ids_def
      settled_ids_def note_act_def Let_def split: option.splits list.splits)

lemma in_order_exec: "in_order qc \<Longrightarrow> in_order (exec line qc)"
  by (simp add: exec_def in_order_def call_ids_def running_ids_def settled_ids_def)

lemma in_order_new: "in_order (new_query_client kind)"
  by (simp add: in_order_def call_ids_def running_ids_def settled_ids_def new_query_client_def)

lemma in_order_step: "in_order qc \<Longrightarrow> in_order (query_step number ev qc)"
  by (cases ev) (simp_all add: in_order_exec in_order_execNow in_order_finish in_order_calls)

lemma in_order_runs:
  "in_order qc \<Longrightarrow> in_order (fold (query_step number) evs qc)"
  by (induction evs arbitrary: qc) (simp_all add: in_order_step)

lemma in_order_distinct: "in_order qc \<Longrightarrow> distinct (settled_ids qc)"
  unfolding in_order_def call_ids_def by (metis distinct_append distinct_upt)

section \<open>A server that answers in order\<close>

record server =
  sv_owed :: "nat list"
  sv_answers :: "nat \<Rightarrow> params list"

definition rows_of :: "string \<Rightarrow> params list" where
  "rows_of line = List.map_filter (\<lambda>row. map_option cmd_params (parseCommand row)) (splitRows (trim_cr line))"

definition add_answer :: "nat \<Rightarrow> params list \<Rightarrow> server \<Rightarrow> server" where
  "add_answer i rows sv = sv\<lparr>sv_answers := (sv_answers sv)(i := sv_answers sv i @ rows)\<rparr>"

definition line_name :: "string \<Rightarrow> string option" where
  "line_name line = map_option cmd_name (parseCommand (trim_cr line))"

definition is_row_line :: "string \<Rightarrow> bool" where
  "is_row_line line \<longleftrightarrow>
     (case line_name line of Some n \<Rightarrow> n \<noteq> ''error'' \<and> \<not> is_notification n | None \<Rightarrow> False)"

definition is_notify_line :: "string \<Rightarrow> bool" where
  "is_notify_line line \<longleftrightarrow>
     (case line_name line of Some n \<Rightarrow> n \<noteq> ''error'' \<and> is_notification n | None \<Rightarrow> False)"

text \<open>
  No row of the line reads as the row of an earlier command, which the client still waits for: it
  is not one lone field with that key, or the command on the wire has rows with that key itself.
\<close>

definition not_stray :: "query_client \<Rightarrow> string \<Rightarrow> bool" where
  "not_stray qc line \<longleftrightarrow>
     (case qc_strayKey qc of
        None \<Rightarrow> True
      | Some k \<Rightarrow> k \<in> set (own_keys qc) \<or> [k] \<notin> row_keys ` set (splitRows (trim_cr line)))"

text \<open>
  One event of a connection that stays up: something the client does, a row of the oldest answer
  owed, the \<^verbatim>\<open>error\<close> line that ends it, a notification, a row that comes late while its answer is
  held, or one that comes after the client has stopped waiting for it. A line whose sending fails
  is not answered. \<open>None\<close>: the event is not possible here. What the server may do is narrowed by what
  the client remembers: the late row of a create cancelled while its answer was held is not possible,
  nor is a second one, and a row of an answer is not one the client would take for the late row it expects.
\<close>

datatype wire_event =
    W_Client query_event
  | W_Row string
  | W_End string
  | W_Notify string
  | W_Late string
  | W_Stray string

definition held_answer :: "query_client \<Rightarrow> pending_answer option" where
  "held_answer qc =
     (case qc_pending qc of Some p \<Rightarrow> (if pe_held p \<noteq> None then Some p else None) | None \<Rightarrow> None)"

definition late_line :: "pending_answer \<Rightarrow> string \<Rightarrow> bool" where
  "late_line p line \<longleftrightarrow>
     is_row_line line \<and>
     (case pe_held p of
        Some h \<Rightarrow> la_any (he_late h) \<or> la_several (he_late h) \<or> length (splitRows (trim_cr line)) = 1
      | None \<Rightarrow> False)"

definition written_now :: "query_client \<Rightarrow> query_client \<Rightarrow> nat list" where
  "written_now qc qc' = (if qc_run qc = None then running_ids qc' else [])"

fun wire_step ::
    "(string \<Rightarrow> int option) \<Rightarrow> wire_event \<Rightarrow> query_client \<times> server \<Rightarrow>
     (query_client \<times> server) option" where
  "wire_step number (W_Client ev) (qc, sv) =
     (let qc' = query_step number ev qc
      in case ev of
           Ev_Turn \<Rightarrow> Some (qc', sv\<lparr>sv_owed := sv_owed sv @ written_now qc qc'\<rparr>)
         | Ev_Send_Failed i e \<Rightarrow>
             if i \<in> set (sv_owed sv) \<and> sv_answers sv i = []
                \<and> (is_sending i qc \<or> i \<in> fst ` set (qc_unsettled qc))
             then Some (qc', sv\<lparr>sv_owed := removeAll i (sv_owed sv)\<rparr>) else None
         | Ev_Exec line \<Rightarrow> Some (qc', sv)
         | Ev_Timeout \<Rightarrow> Some (qc', sv)
         | Ev_Cancel i reason \<Rightarrow> Some (qc', sv)
         | Ev_Send_Ok i \<Rightarrow> Some (qc', sv)
         | Ev_Nudge \<Rightarrow> Some (qc', sv)
         | Ev_Finish \<Rightarrow> Some (qc', sv)
         | Ev_Held_Timer \<Rightarrow> Some (qc', sv)
         | _ \<Rightarrow> None)"
| "wire_step number (W_Row line) (qc, sv) =
     (case sv_owed sv of
        [] \<Rightarrow> None
      | i # _ \<Rightarrow>
          if is_row_line line \<and> not_stray qc line
          then Some (handleLine number line qc, add_answer i (rows_of line) sv) else None)"
| "wire_step number (W_End line) (qc, sv) =
     (case sv_owed sv of
        [] \<Rightarrow> None
      | _ # owed \<Rightarrow>
          if line_name line = Some ''error''
          then Some (handleLine number line qc, sv\<lparr>sv_owed := owed\<rparr>) else None)"
| "wire_step number (W_Notify line) (qc, sv) =
     (if is_notify_line line then Some (handleLine number line qc, sv) else None)"
| "wire_step number (W_Late line) (qc, sv) =
     (case held_answer qc of
        None \<Rightarrow> None
      | Some p \<Rightarrow>
          if sv_owed sv = [] \<and> late_line p line
          then Some (handleLine number line qc, add_answer (pe_id p) (rows_of line) sv) else None)"
| "wire_step number (W_Stray line) (qc, sv) =
     (case qc_strayKey qc of
        None \<Rightarrow> None
      | Some k \<Rightarrow>
          if is_row_line line \<and> map row_keys (splitRows (trim_cr line)) = [[k]] \<and> k \<notin> set (own_keys qc)
          then Some (handleLine number line qc, sv) else None)"

fun wire_steps ::
    "(string \<Rightarrow> int option) \<Rightarrow> wire_event list \<Rightarrow> query_client \<times> server \<Rightarrow>
     (query_client \<times> server) option" where
  "wire_steps number [] s = Some s"
| "wire_steps number (ev # evs) s = Option.bind (wire_step number ev s) (wire_steps number evs)"

definition query_connected :: "transport_kind \<Rightarrow> query_client" where
  "query_connected kind =
     connected 1 (install 1 (begin_connect (new_query_client kind)))"

definition no_debts :: server where
  "no_debts = \<lparr>sv_owed = [], sv_answers = (\<lambda>_. [])\<rparr>"

section \<open>What client and server keep\<close>

definition awaited_ids :: "query_client \<Rightarrow> nat list" where
  "awaited_ids qc =
     (case (qc_pending qc, qc_run qc) of
        (Some p, Some r) \<Rightarrow> if pe_held p = None \<and> ru_sending r \<noteq> Send_Failed then [pe_id p] else []
      | _ \<Rightarrow> [])"

definition debts_ok :: "query_client \<Rightarrow> server \<Rightarrow> bool" where
  "debts_ok qc sv \<longleftrightarrow>
     (\<exists>left. sv_owed sv = left @ awaited_ids qc \<and> qc_abandoned qc = int (length left)
        \<and> set left \<subseteq> set (settled_ids qc)) \<and> distinct (sv_owed sv)"

definition sends_ok :: "query_client \<Rightarrow> server \<Rightarrow> bool" where
  "sends_ok qc sv \<longleftrightarrow>
     distinct (map fst (qc_unsettled qc)) \<and> fst ` set (qc_unsettled qc) \<subseteq> set (settled_ids qc)
     \<and> (\<forall>i. (i, False) \<in> set (qc_unsettled qc) \<longrightarrow> i \<notin> set (sv_owed sv))"

definition wire_ok :: "query_client \<Rightarrow> server \<Rightarrow> bool" where
  "wire_ok qc sv \<longleftrightarrow>
     (case qc_run qc of
        None \<Rightarrow> qc_pending qc = None
      | Some r \<Rightarrow>
          (case qc_pending qc of
             None \<Rightarrow> ru_id r \<notin> set (sv_owed sv) \<and> ru_outcome r \<noteq> None
               \<and> (\<forall>rows. ru_outcome r = Some (Inr rows) \<longrightarrow> rows = sv_answers sv (ru_id r))
           | Some p \<Rightarrow> pe_id p = ru_id r \<and> pe_command p = ru_name r
               \<and> pe_rows p = sv_answers sv (pe_id p)
               \<and> (\<forall>rows. ru_outcome r \<noteq> Some (Inr rows))
               \<and> (pe_held p \<noteq> None \<longrightarrow> qc_strayKey qc = None)))"

definition answers_ok :: "query_client \<Rightarrow> server \<Rightarrow> bool" where
  "answers_ok qc sv \<longleftrightarrow>
     (\<forall>i rows. Act_Settle i (Inr rows) \<in> set (qc_log qc) \<longrightarrow>
        rows = sv_answers sv i \<and> i \<notin> set (sv_owed sv))
     \<and> (\<forall>i. i \<notin> set (settled_ids qc @ running_ids qc) \<longrightarrow> sv_answers sv i = [])"

definition serving :: "query_client \<times> server \<Rightarrow> bool" where
  "serving s \<longleftrightarrow> (case s of (qc, sv) \<Rightarrow>
     in_order qc \<and> debts_ok qc sv \<and> sends_ok qc sv \<and> wire_ok qc sv \<and> answers_ok qc sv)"

lemma servingD:
  assumes "serving (qc, sv)"
  shows "in_order qc" "debts_ok qc sv" "sends_ok qc sv" "wire_ok qc sv" "answers_ok qc sv"
  using assms by (simp_all add: serving_def)

lemma serving_start: "serving (query_connected kind, no_debts)"
proof -
  have "in_order (query_connected kind)"
    unfolding query_connected_def
    by (rule in_order_calls[OF _ in_order_new[of kind]]) simp
  then show ?thesis
    by (simp add: serving_def debts_ok_def sends_ok_def wire_ok_def answers_ok_def awaited_ids_def
        query_connected_def begin_connect_def install_def connected_def new_query_client_def
        no_debts_def settled_ids_def note_act_def)
qed

lemma note_fields [simp]:
  "qc_kind (note_act a qc) = qc_kind qc" "qc_status (note_act a qc) = qc_status qc"
  "qc_transport (note_act a qc) = qc_transport qc" "qc_closed (note_act a qc) = qc_closed qc"
  "qc_down (note_act a qc) = qc_down qc" "qc_pending (note_act a qc) = qc_pending qc"
  "qc_strayKey (note_act a qc) = qc_strayKey qc" "qc_abandoned (note_act a qc) = qc_abandoned qc"
  "qc_waiting (note_act a qc) = qc_waiting qc" "qc_run (note_act a qc) = qc_run qc"
  "qc_unsettled (note_act a qc) = qc_unsettled qc" "qc_next (note_act a qc) = qc_next qc"
  "qc_generation (note_act a qc) = qc_generation qc" "qc_log (note_act a qc) = qc_log qc @ [a]"
  by (simp_all add: note_act_def)

text \<open>Steps that touch neither the wire nor the calls.\<close>

lemma settled_simps [simp]:
  "settled_ids (note_act a qc) = settled_ids qc @ settled_by a"
  "running_ids (note_act a qc) = running_ids qc"
  "settled_ids (qc\<lparr>qc_waiting := ws\<rparr>) = settled_ids qc"
  "settled_ids (qc\<lparr>qc_run := r\<rparr>) = settled_ids qc"
  "settled_ids (qc\<lparr>qc_next := n\<rparr>) = settled_ids qc"
  "running_ids (qc\<lparr>qc_waiting := ws\<rparr>) = running_ids qc"
  "running_ids (qc\<lparr>qc_next := n\<rparr>) = running_ids qc"
  "settled_ids (qc\<lparr>qc_abandoned := b\<rparr>) = settled_ids qc"
  "running_ids (qc\<lparr>qc_abandoned := b\<rparr>) = running_ids qc"
  by (simp_all add: settled_ids_def running_ids_def note_act_def)

lemma calls_ids:
  assumes "calls_of qc' = calls_of qc"
  shows "settled_ids qc' = settled_ids qc" "running_ids qc' = running_ids qc"
  using assms by (simp_all add: calls_of_def)

lemma wire_cong:
  "qc_run qc' = qc_run qc \<Longrightarrow> qc_pending qc' = qc_pending qc \<Longrightarrow> qc_strayKey qc' = qc_strayKey qc \<Longrightarrow>
     wire_ok qc' sv = wire_ok qc sv"
  by (simp add: wire_ok_def cong: option.case_cong)

lemma awaited_cong:
  "qc_run qc' = qc_run qc \<Longrightarrow> qc_pending qc' = qc_pending qc \<Longrightarrow> awaited_ids qc' = awaited_ids qc"
  by (simp add: awaited_ids_def)

text \<open>What of the client the debts, the sends, the wire and the answers depend on.\<close>

definition serving_view ::
    "query_client \<Rightarrow> pending_answer option \<times> run option \<times> int \<times> (nat \<times> bool) list \<times> string option
       \<times> (nat \<times> params list) set \<times> nat list" where
  "serving_view qc =
     (qc_pending qc, qc_run qc, qc_abandoned qc, qc_unsettled qc, qc_strayKey qc,
      {(i, rows). Act_Settle i (Inr rows) \<in> set (qc_log qc)}, settled_ids qc)"

lemma serving_cong:
  assumes "serving (qc, sv)" "in_order qc'" "serving_view qc' = serving_view qc"
  shows "serving (qc', sv)"
proof -
  have v: "qc_pending qc' = qc_pending qc" "qc_run qc' = qc_run qc" "qc_abandoned qc' = qc_abandoned qc"
    "qc_unsettled qc' = qc_unsettled qc" "qc_strayKey qc' = qc_strayKey qc" "settled_ids qc' = settled_ids qc"
    using assms(3) by (simp_all add: serving_view_def)
  have l: "Act_Settle i (Inr rows) \<in> set (qc_log qc') \<longleftrightarrow> Act_Settle i (Inr rows) \<in> set (qc_log qc)" for i rows
    using assms(3) by (auto simp: serving_view_def)
  have "debts_ok qc' sv = debts_ok qc sv" "sends_ok qc' sv = sends_ok qc sv"
    "wire_ok qc' sv = wire_ok qc sv" "answers_ok qc' sv = answers_ok qc sv"
    unfolding debts_ok_def sends_ok_def wire_ok_def answers_ok_def awaited_ids_def running_ids_def v l
    by (rule refl)+
  then show ?thesis using assms(1,2) by (simp add: serving_def)
qed

lemma serving_exec:
  assumes "serving (qc, sv)"
  shows "serving (exec line qc, sv)"
proof (rule serving_cong[OF assms])
  show "in_order (exec line qc)" using assms by (intro in_order_exec servingD)
qed (simp add: serving_view_def exec_def settled_ids_def)

lemma serving_note:
  assumes "serving (qc, sv)" "settled_by a = []"
  shows "serving (note_act a qc, sv)"
proof (rule serving_cong[OF assms(1)])
  show "in_order (note_act a qc)"
    using assms by (intro in_order_calls[OF calls_note] servingD)
  show "serving_view (note_act a qc) = serving_view qc"
    using assms(2) by (cases a) (simp_all add: serving_view_def note_act_def settled_ids_def)
qed

lemma serving_waiting:
  assumes "serving (qc, sv)" "map wa_id ws = map wa_id (qc_waiting qc)"
  shows "serving (qc\<lparr>qc_waiting := ws\<rparr>, sv)"
proof (rule serving_cong[OF assms(1)])
  show "in_order (qc\<lparr>qc_waiting := ws\<rparr>)"
    using assms by (intro in_order_calls[OF calls_waiting] servingD)
qed (simp add: serving_view_def settled_ids_def)

text \<open>The command's signal, and the transport's promise.\<close>

lemma settle_run_view:
  "qc_pending (settle_run i a qc) = qc_pending qc" "qc_abandoned (settle_run i a qc) = qc_abandoned qc"
  "qc_unsettled (settle_run i a qc) = qc_unsettled qc" "qc_strayKey (settle_run i a qc) = qc_strayKey qc"
  "qc_log (settle_run i a qc) = qc_log qc" "qc_kind (settle_run i a qc) = qc_kind qc"
  by (simp_all add: settle_run_def split: option.split)

text \<open>Changing only how the command in flight will end, or how far its line has got.\<close>

lemma serving_run:
  assumes "serving (qc, sv)" "qc_run qc = Some r" "ru_id r' = ru_id r" "ru_name r' = ru_name r"
    "ru_sending r' = Send_Failed \<longleftrightarrow> ru_sending r = Send_Failed"
    "ru_outcome r' = ru_outcome r \<or> (ru_outcome r = None \<and> (\<exists>e. ru_outcome r' = Some (Inl e)))"
  shows "serving (qc\<lparr>qc_run := Some r'\<rparr>, sv)"
proof -
  have r: "running_ids (qc\<lparr>qc_run := Some r'\<rparr>) = running_ids qc"
    "awaited_ids (qc\<lparr>qc_run := Some r'\<rparr>) = awaited_ids qc"
    using assms(2-5) by (auto simp: running_ids_def awaited_ids_def split: option.split)
  have "wire_ok qc sv" by (rule servingD[OF assms(1)])
  then have "wire_ok (qc\<lparr>qc_run := Some r'\<rparr>) sv"
    using assms(2-4,6) by (auto simp: wire_ok_def split: option.splits)
  moreover have "in_order (qc\<lparr>qc_run := Some r'\<rparr>)"
    using servingD(1)[OF assms(1)] assms(2,3) by (intro in_order_calls[OF calls_run]) simp_all
  ultimately show ?thesis
    using servingD[OF assms(1)]
    by (simp add: serving_def debts_ok_def sends_ok_def answers_ok_def r)
qed

lemma serving_abort: "serving (qc, sv) \<Longrightarrow> serving (abort_run e qc, sv)"
  unfolding abort_run_def settle_run_def
  by (auto split: option.split intro!: serving_run)

lemma serving_timeout: "serving (qc, sv) \<Longrightarrow> serving (timeout qc, sv)"
  by (simp add: timeout_def serving_abort split: option.split)

lemma serving_cancel: "serving (qc, sv) \<Longrightarrow> serving (cancel i reason qc, sv)"
  by (auto simp: cancel_def intro!: serving_abort serving_waiting split: option.split)

lemma serving_drop_unsettled:
  assumes "serving (qc, sv)"
  shows "serving (drop_unsettled i qc, sv)"
proof -
  have "in_order (drop_unsettled i qc)"
    by (rule in_order_calls[OF calls_drop_unsettled servingD(1)[OF assms]])
  moreover have "distinct (map fst (filter P us))" if "distinct (map fst us)" for P and us :: "(nat \<times> bool) list"
    using that by (induction us) auto
  moreover have "wire_ok (drop_unsettled i qc) sv" "awaited_ids (drop_unsettled i qc) = awaited_ids qc"
    using servingD(4)[OF assms] wire_cong[of "drop_unsettled i qc" qc] awaited_cong[of "drop_unsettled i qc" qc]
    by (simp_all add: drop_unsettled_def)
  moreover have "settled_ids (drop_unsettled i qc) = settled_ids qc" "running_ids (drop_unsettled i qc) = running_ids qc"
    by (rule calls_ids[OF calls_drop_unsettled])+
  ultimately show ?thesis
    using servingD[OF assms]
    by (auto simp: serving_def debts_ok_def sends_ok_def answers_ok_def drop_unsettled_def)
qed

lemma serving_send_ok:
  assumes "serving (qc, sv)"
  shows "serving (send_ok i qc, sv)"
proof (cases "is_sending i qc")
  case True
  then obtain r where r: "qc_run qc = Some r" "ru_sending r = Sending"
    by (auto simp: is_sending_def split: option.splits)
  have "serving (set_sending Sent (qc_kind qc = Ssh) qc, sv)"
    using r unfolding set_sending_def by (auto intro!: serving_run[OF assms r(1)])
  then show ?thesis using True by (simp add: send_ok_def serving_note)
qed (auto simp: send_ok_def intro!: serving_note serving_drop_unsettled assms)

lemma serving_nudge: "serving (qc, sv) \<Longrightarrow> serving (nudge qc, sv)"
  by (auto simp: nudge_def intro: serving_note split: option.split)

text \<open>A line that could not be sent leaves the debts.\<close>

lemma removeAll_left:
  assumes "distinct (left @ cur)" "i \<in> set left"
  shows "removeAll i (left @ cur) = remove1 i left @ cur"
proof -
  have "i \<notin> set cur" "distinct left" using assms by auto
  then show ?thesis by (simp add: distinct_remove1_removeAll)
qed

lemma running_not_settled:
  assumes "in_order qc" "qc_run qc = Some r"
  shows "ru_id r \<notin> set (settled_ids qc)"
proof -
  have "distinct (call_ids qc)" using assms(1) by (simp add: in_order_def)
  then show ?thesis using assms(2) by (auto simp: call_ids_def running_ids_def)
qed

lemma serving_failed_on_wire:
  assumes "serving (qc, sv)" "is_sending i qc" "i \<in> set (sv_owed sv)" "sv_answers sv i = []"
  shows "serving (send_failed i e qc, sv\<lparr>sv_owed := removeAll i (sv_owed sv)\<rparr>)"
proof -
  obtain r where r: "qc_run qc = Some r" "ru_id r = i" "ru_sending r = Sending"
    using assms(2) by (auto simp: is_sending_def split: option.splits)
  let ?qc = "send_failed i e qc" and ?sv = "sv\<lparr>sv_owed := removeAll i (sv_owed sv)\<rparr>"
  note d = servingD[OF assms(1)]
  have q: "?qc = qc\<lparr>qc_run := Some (r\<lparr>ru_sending := Send_Failed, ru_nudger := False,
      ru_outcome := (case ru_outcome r of None \<Rightarrow> Some (Inl (Send_Failure e)) | Some a \<Rightarrow> Some a)\<rparr>)\<rparr>"
    using assms(2) r by (auto simp: send_failed_def set_sending_def settle_run_def split: option.split)
  obtain p where p: "qc_pending qc = Some p" "pe_id p = i"
    using d(4) r assms(3) by (auto simp: wire_ok_def split: option.splits)
  obtain left where left: "sv_owed sv = left @ awaited_ids qc" "qc_abandoned qc = int (length left)"
    "set left \<subseteq> set (settled_ids qc)" "distinct (sv_owed sv)"
    using d(2) by (auto simp: debts_ok_def)
  have "i \<notin> set (settled_ids qc)"
    using running_not_settled[OF d(1) r(1)] r(2) by simp
  then have "i \<notin> set left" using left(3) by auto
  then have "awaited_ids qc = [i]"
    using left(1) assms(3) p r by (auto simp: awaited_ids_def split: if_splits)
  then have owed: "removeAll i (sv_owed sv) = left" using left(1) \<open>i \<notin> set left\<close> by simp
  have "awaited_ids ?qc = []" using p by (simp add: q awaited_ids_def)
  moreover have "distinct left" "settled_ids ?qc = settled_ids qc" using left(1,4) by (simp_all add: q)
  ultimately have "debts_ok ?qc ?sv" using left(2,3) by (simp add: debts_ok_def owed) (simp add: q)
  moreover have "sends_ok ?qc ?sv" using d(3) by (auto simp: sends_ok_def q)
  moreover have "wire_ok ?qc ?sv"
    using d(4) r p by (auto simp: wire_ok_def q split: option.splits)
  moreover have "answers_ok ?qc ?sv"
    using d(5) r by (auto simp: answers_ok_def q running_ids_def)
  moreover have "in_order ?qc" using in_order_step[OF d(1), of _ "Ev_Send_Failed i e"] by simp
  ultimately show ?thesis by (simp add: serving_def)
qed

lemma serving_failed_later:
  assumes "serving (qc, sv)" "\<not> is_sending i qc" "i \<in> fst ` set (qc_unsettled qc)" "i \<in> set (sv_owed sv)"
  shows "serving (send_failed i e qc, sv\<lparr>sv_owed := removeAll i (sv_owed sv)\<rparr>)"
proof -
  note d = servingD[OF assms(1)]
  let ?qc = "qc\<lparr>qc_abandoned := qc_abandoned qc - 1\<rparr>" and ?sv = "sv\<lparr>sv_owed := removeAll i (sv_owed sv)\<rparr>"
  obtain b where "(i, b) \<in> set (qc_unsettled qc)" using assms(3) by auto
  then have "(i, True) \<in> set (qc_unsettled qc)"
    using d(3) assms(4) by (cases b) (auto simp: sends_ok_def)
  then have "map_of (qc_unsettled qc) i = Some True" using d(3) by (simp add: sends_ok_def)
  then have q: "send_failed i e qc = drop_unsettled i ?qc" using assms(2) by (simp add: send_failed_def)
  obtain left where left: "sv_owed sv = left @ awaited_ids qc" "qc_abandoned qc = int (length left)"
    "set left \<subseteq> set (settled_ids qc)" "distinct (sv_owed sv)"
    using d(2) by (auto simp: debts_ok_def)
  have "i \<in> set (settled_ids qc)" using d(3) assms(3) by (auto simp: sends_ok_def)
  then have "i \<notin> set (awaited_ids qc)"
    using running_not_settled[OF d(1)] d(4)
    by (auto simp: awaited_ids_def wire_ok_def split: option.splits if_splits)
  then have i: "i \<in> set left" using left(1) assms(4) by simp
  have "qc_abandoned ?qc = int (length (remove1 i left))"
    using i left(2) by (cases "length left") (simp_all add: length_remove1)
  moreover have "set (remove1 i left) \<subseteq> set (settled_ids qc)" using left(3) set_remove1_subset by fastforce
  moreover have "removeAll i (sv_owed sv) = remove1 i left @ awaited_ids qc"
    using removeAll_left[of left "awaited_ids qc" i] i left(1,4) by metis
  moreover have "awaited_ids ?qc = awaited_ids qc" "settled_ids ?qc = settled_ids qc" "running_ids ?qc = running_ids qc"
    by (simp_all add: awaited_ids_def settled_ids_def running_ids_def)
  ultimately have "debts_ok ?qc ?sv"
    using distinct_removeAll[OF left(4), of i] unfolding debts_ok_def by auto
  moreover have "sends_ok ?qc ?sv" using d(3) by (auto simp: sends_ok_def settled_ids_def)
  moreover have "answers_ok ?qc ?sv"
    using d(5) by (auto simp: answers_ok_def settled_ids_def running_ids_def)
  moreover have "wire_ok ?qc ?sv" using d(4) by (auto simp: wire_ok_def split: option.splits)
  moreover have "in_order ?qc" using d(1) by (intro in_order_calls[of ?qc qc]) simp_all
  ultimately show ?thesis unfolding q by (intro serving_drop_unsettled) (simp add: serving_def)
qed

text \<open>A turn: a command that is ended before it writes, or one that is written.\<close>

lemma serving_settle_unwritten:
  assumes "serving (qc, sv)" "qc_run qc = None" "qc_waiting qc = w # ws"
  shows "serving (note_act (Act_Settle (wa_id w) (Inl e)) (qc\<lparr>qc_waiting := ws\<rparr>), sv)"
proof -
  note d = servingD[OF assms(1)]
  let ?qc = "note_act (Act_Settle (wa_id w) (Inl e)) (qc\<lparr>qc_waiting := ws\<rparr>)"
  have "in_order ?qc"
    using d(1) assms(2,3) by (simp add: in_order_def call_ids_def running_ids_def)
  moreover have "awaited_ids ?qc = awaited_ids qc" "wire_ok ?qc sv = wire_ok qc sv"
    by (rule awaited_cong wire_cong; simp)+
  ultimately show ?thesis
    using d by (auto simp: serving_def debts_ok_def sends_ok_def answers_ok_def)
qed

lemma serving_write:
  assumes "serving (qc, sv)" "qc_run qc = None" "qc_waiting qc = w # ws"
  shows "serving (execOnce (wa_id w) line (qc\<lparr>qc_waiting := ws\<rparr>),
                  sv\<lparr>sv_owed := sv_owed sv @ [wa_id w]\<rparr>)"
proof -
  note d = servingD[OF assms(1)]
  let ?qc = "execOnce (wa_id w) line (qc\<lparr>qc_waiting := ws\<rparr>)"
    and ?sv = "sv\<lparr>sv_owed := sv_owed sv @ [wa_id w]\<rparr>"
  have "distinct (call_ids qc)" using d(1) by (simp add: in_order_def)
  then have unsettled: "wa_id w \<notin> set (settled_ids qc)"
    using assms(2,3) by (auto simp: call_ids_def)
  have none: "qc_pending qc = None" using d(4) assms(2) by (simp add: wire_ok_def)
  obtain left where left: "sv_owed sv = left" "qc_abandoned qc = int (length left)"
    "set left \<subseteq> set (settled_ids qc)" "distinct left"
    using d(2) none by (auto simp: debts_ok_def awaited_ids_def)
  have fresh: "sv_answers sv (wa_id w) = []"
    using d(5) unsettled assms(2) by (auto simp: answers_ok_def running_ids_def)
  have ids: "settled_ids ?qc = settled_ids qc" "running_ids ?qc = [wa_id w]" "awaited_ids ?qc = [wa_id w]"
    by (simp_all add: execOnce_def running_ids_def awaited_ids_def) (simp add: settled_ids_def)
  have fields: "qc_abandoned ?qc = qc_abandoned qc" "qc_unsettled ?qc = qc_unsettled qc"
    "qc_waiting ?qc = ws" "qc_next ?qc = qc_next qc" "qc_log ?qc = qc_log qc @ [Act_Write (wa_id w) line]"
    by (simp_all add: execOnce_def)
  have "in_order ?qc"
    using d(1) assms(2,3) unfolding in_order_def call_ids_def ids fields by (simp add: running_ids_def)
  moreover have "debts_ok ?qc ?sv"
    using left unsettled by (auto simp: debts_ok_def ids fields)
  moreover have "sends_ok ?qc ?sv"
    using d(3) unsettled by (auto simp: sends_ok_def ids fields)
  moreover have "wire_ok ?qc ?sv" using fresh by (simp add: wire_ok_def execOnce_def)
  moreover have "Act_Settle i (Inr rows) \<in> set (qc_log qc) \<Longrightarrow> i \<noteq> wa_id w" for i rows
    using unsettled by (force simp: settled_ids_def)
  then have "answers_ok ?qc ?sv"
    using d(5) by (auto simp: answers_ok_def ids fields running_ids_def assms(2))
  ultimately show ?thesis by (simp add: serving_def)
qed

lemma serving_turn:
  assumes "serving (qc, sv)"
  shows "serving (execNow qc, sv\<lparr>sv_owed := sv_owed sv @ written_now qc (execNow qc)\<rparr>)"
proof (cases "qc_run qc = None \<and> qc_waiting qc \<noteq> []")
  case True
  then obtain w ws where w: "qc_run qc = None" "qc_waiting qc = w # ws" by (cases "qc_waiting qc") auto
  have settles: "serving (note_act (Act_Settle (wa_id w) (Inl e)) (qc\<lparr>qc_waiting := ws\<rparr>),
      sv\<lparr>sv_owed := sv_owed sv @ written_now qc (note_act (Act_Settle (wa_id w) (Inl e)) (qc\<lparr>qc_waiting := ws\<rparr>))\<rparr>)" for e
    using serving_settle_unwritten[OF assms w] w(1) by (simp add: written_now_def running_ids_def)
  have "written_now qc (execOnce (wa_id w) (wa_line w) (qc\<lparr>qc_waiting := ws\<rparr>)) = [wa_id w]"
    using w(1) by (simp add: written_now_def running_ids_def execOnce_def note_act_def)
  then have "serving (execOnce (wa_id w) (wa_line w) (qc\<lparr>qc_waiting := ws\<rparr>),
      sv\<lparr>sv_owed := sv_owed sv @ written_now qc (execOnce (wa_id w) (wa_line w) (qc\<lparr>qc_waiting := ws\<rparr>))\<rparr>)"
    using serving_write[OF assms w, of "wa_line w"] by simp
  then show ?thesis
    using settles w by (auto simp: execNow_def Let_def split: option.split)
next
  case False
  then have "execNow qc = qc" by (auto simp: execNow_def split: option.splits list.splits)
  moreover have "written_now qc qc = []" by (simp add: written_now_def running_ids_def)
  ultimately show ?thesis using assms by simp
qed

text \<open>The end of a command.\<close>

lemma serving_finish:
  assumes "serving (qc, sv)"
  shows "serving (finish_run qc, sv)"
proof (cases "\<exists>r outcome. qc_run qc = Some r \<and> ru_outcome r = Some outcome")
  case True
  then obtain r outcome where r: "qc_run qc = Some r" "ru_outcome r = Some outcome" by auto
  note d = servingD[OF assms]
  let ?qc = "finish_run qc"
  have q: "?qc = note_act (Act_Settle (ru_id r) (run_result r outcome)) ((let_go r qc)\<lparr>qc_run := None\<rparr>)"
    using r by (simp add: finish_run_def)
  have f: "qc_pending ?qc = None" "qc_run ?qc = None" "settled_ids ?qc = settled_ids qc @ [ru_id r]"
    "running_ids ?qc = []" "awaited_ids ?qc = []"
    "qc_log ?qc = qc_log qc @ [Act_Settle (ru_id r) (run_result r outcome)]"
    using calls_ids(1)[OF calls_let_go]
    by (auto simp: q let_go_def Let_def running_ids_def awaited_ids_def settled_ids_def split: option.split)
  have new: "ru_id r \<notin> set (settled_ids qc)" by (rule running_not_settled[OF d(1) r(1)])
  obtain left where left: "sv_owed sv = left @ awaited_ids qc" "qc_abandoned qc = int (length left)"
    "set left \<subseteq> set (settled_ids qc)" "distinct (sv_owed sv)"
    using d(2) by (auto simp: debts_ok_def)
  have a: "awaited_ids qc = [] \<or> awaited_ids qc = [ru_id r]"
    using d(4) r by (auto simp: wire_ok_def awaited_ids_def split: option.splits)
  have go: "qc_abandoned ?qc = qc_abandoned qc + int (length (awaited_ids qc))"
    "qc_unsettled ?qc = (if ru_sending r = Sending then (ru_id r, awaited_ids qc \<noteq> []) # qc_unsettled qc
       else qc_unsettled qc)"
    using r by (auto simp: q let_go_def Let_def awaited_ids_def split: option.splits)
  have "in_order ?qc" by (rule in_order_finish[OF d(1)])
  moreover have "debts_ok ?qc sv" using left a by (auto simp: debts_ok_def f go)
  moreover have "ru_id r \<notin> set (sv_owed sv)" if "awaited_ids qc = []"
    using left(1,3) new that by auto
  then have "sends_ok ?qc sv" using d(3) new by (auto simp: sends_ok_def f go)
  moreover have "wire_ok ?qc sv" by (simp add: wire_ok_def f)
  moreover have "rows = sv_answers sv (ru_id r) \<and> ru_id r \<notin> set (sv_owed sv)"
    if "Inr rows = run_result r outcome" for rows
    using that d(4) r by (auto simp: run_result_def wire_ok_def split: option.splits)
  then have "answers_ok ?qc sv"
    using d(5) r by (auto simp: answers_ok_def f running_ids_def)
  ultimately show ?thesis by (simp add: serving_def)
next
  case False
  then have "finish_run qc = qc" by (auto simp: finish_run_def split: option.splits)
  then show ?thesis using assms by simp
qed

text \<open>An answer that is complete: its command is off the wire.\<close>

lemma serving_off_wire:
  assumes "serving (qc, sv)" "qc_pending qc = Some p" "sv_owed sv = left @ awaited_ids qc"
    "qc' = settle_run (pe_id p) ans (qc\<lparr>qc_pending := None, qc_strayKey := k\<rparr>)"
    "\<And>rows. ans = Inr rows \<Longrightarrow> rows = pe_rows p"
  shows "serving (qc', sv\<lparr>sv_owed := left\<rparr>)"
proof -
  note d = servingD[OF assms(1)]
  let ?sv = "sv\<lparr>sv_owed := left\<rparr>"
  obtain r where r: "qc_run qc = Some r" "ru_id r = pe_id p" "pe_rows p = sv_answers sv (pe_id p)"
    "\<forall>rows. ru_outcome r \<noteq> Some (Inr rows)"
    using d(4) assms(2) by (auto simp: wire_ok_def split: option.splits)
  have q: "qc' = qc\<lparr>qc_pending := None, qc_strayKey := k,
      qc_run := Some (r\<lparr>ru_outcome := (case ru_outcome r of None \<Rightarrow> Some ans | Some a \<Rightarrow> Some a)\<rparr>)\<rparr>"
    using r by (auto simp: assms(4) settle_run_def split: option.split)
  have "calls_of qc' = calls_of qc" by (simp add: assms(4))
  note ids = calls_ids[OF this] and ord = in_order_calls[OF this d(1)]
  have left: "qc_abandoned qc = int (length left)" "set left \<subseteq> set (settled_ids qc)" "distinct left"
    using d(2) assms(3) by (auto simp: debts_ok_def)
  have id: "pe_id p \<notin> set left" using running_not_settled[OF d(1) r(1)] r(2) left(2) by auto
  have "awaited_ids qc' = []" by (simp add: q awaited_ids_def)
  then have "debts_ok qc' ?sv" using left by (simp add: debts_ok_def ids) (simp add: q)
  moreover have "sends_ok qc' ?sv"
    using d(3) assms(3) by (simp add: sends_ok_def ids) (simp add: q)
  moreover have "answers_ok qc' ?sv"
    using d(5) assms(3) by (simp add: answers_ok_def ids) (simp add: q)
  moreover have "wire_ok qc' ?sv"
    using r id assms(5) by (auto simp: wire_ok_def q split: option.split)
  ultimately show ?thesis using ord by (simp add: serving_def)
qed

lemma awaited_held: "qc_pending qc = Some p \<Longrightarrow> pe_held p = Some h \<Longrightarrow> awaited_ids qc = []"
  by (simp add: awaited_ids_def split: option.split)

lemma stray_then_pending:
  "qc\<lparr>qc_strayKey := k, qc_pending := p\<rparr> = qc\<lparr>qc_pending := p, qc_strayKey := k\<rparr>"
  by simp

lemma serving_held_timer:
  assumes "serving (qc, sv)"
  shows "serving (held_timer qc, sv)"
proof (cases "held_answer qc")
  case (Some p)
  then obtain h where h: "qc_pending qc = Some p" "pe_held p = Some h"
    by (auto simp: held_answer_def split: option.splits if_splits)
  note a = awaited_held[OF h]
  have "held_timer qc = settle_run (pe_id p) (Inr (pe_rows p))
      (qc\<lparr>qc_pending := None, qc_strayKey := (if \<not> hasLateRow (he_late h) (pe_rows p) \<and> la_keys (he_late h) \<noteq> []
                          then Some (hd (la_keys (he_late h))) else qc_strayKey qc)\<rparr>)"
    using h by (simp add: held_timer_def finish_held_def Let_def stray_then_pending)
  from serving_off_wire[OF assms h(1) _ this, of "sv_owed sv"] show ?thesis by (simp add: a)
next
  case None
  then have "held_timer qc = qc"
    by (auto simp: held_timer_def held_answer_def split: option.splits if_splits)
  then show ?thesis using assms by simp
qed

section \<open>The lines of the server\<close>

lemma handleLine_row:
  "is_row_line line \<Longrightarrow> handleLine number line qc =
     (if 0 < qc_abandoned qc then qc else fold answer_row (splitRows (trim_cr line)) qc)"
  by (auto simp: is_row_line_def line_name_def handleLine_def split: option.splits)

lemma handleLine_end:
  "line_name line = Some ''error'' \<Longrightarrow> \<exists>ps. handleLine number line qc = handle_error number ps qc"
  by (auto simp: line_name_def handleLine_def)

lemma handleLine_notify:
  "is_notify_line line \<Longrightarrow> handleLine number line qc = fold notify_row (splitRows (trim_cr line)) qc"
  by (auto simp: is_notify_line_def line_name_def handleLine_def split: option.splits)

lemma serving_notify_row: "serving (qc, sv) \<Longrightarrow> serving (notify_row row qc, sv)"
  by (simp add: notify_row_def serving_note split: option.split)

lemma serving_notify_rows: "serving (qc, sv) \<Longrightarrow> serving (fold notify_row rows qc, sv)"
  by (induction rows arbitrary: qc) (simp_all add: serving_notify_row)

text \<open>The oldest answer owed: one nobody waits for, or the one of the command on the wire.\<close>

lemma oldest_owed:
  assumes "serving (qc, sv)" "sv_owed sv = i # owed"
  obtains (left) "0 < qc_abandoned qc" "i \<in> set (settled_ids qc)"
    | (wire) p where "qc_abandoned qc = 0" "owed = []" "qc_pending qc = Some p" "pe_held p = None"
        "pe_id p = i" "awaited_ids qc = [i]"
proof -
  obtain l where l: "sv_owed sv = l @ awaited_ids qc" "qc_abandoned qc = int (length l)"
    "set l \<subseteq> set (settled_ids qc)"
    using servingD(2)[OF assms(1)] by (auto simp: debts_ok_def)
  show ?thesis
  proof (cases l)
    case Nil
    then show ?thesis
      using l assms(2) by (auto simp: awaited_ids_def split: option.splits if_splits intro: wire)
  next
    case (Cons j l')
    then show ?thesis using l assms(2) by (auto intro: left)
  qed
qed

lemma serving_end_discarded:
  assumes "serving (qc, sv)" "sv_owed sv = i # owed" "0 < qc_abandoned qc"
  shows "serving (qc\<lparr>qc_abandoned := qc_abandoned qc - 1\<rparr>, sv\<lparr>sv_owed := owed\<rparr>)"
proof -
  note d = servingD[OF assms(1)]
  let ?qc = "qc\<lparr>qc_abandoned := qc_abandoned qc - 1\<rparr>" and ?sv = "sv\<lparr>sv_owed := owed\<rparr>"
  obtain l where l: "sv_owed sv = l @ awaited_ids qc" "qc_abandoned qc = int (length l)"
    "set l \<subseteq> set (settled_ids qc)" "distinct (sv_owed sv)"
    using d(2) by (auto simp: debts_ok_def)
  then obtain l' where l': "l = i # l'" "owed = l' @ awaited_ids qc"
    using assms(2,3) by (cases l) auto
  have same: "calls_of ?qc = calls_of qc" by simp
  note ids = calls_ids[OF same]
  have "awaited_ids ?qc = awaited_ids qc" by (rule awaited_cong) simp_all
  then have "debts_ok ?qc ?sv" using l l' assms(2) by (auto simp: debts_ok_def ids)
  moreover have "sends_ok ?qc ?sv" using d(3) assms(2) by (simp add: sends_ok_def ids)
  moreover have "answers_ok ?qc ?sv" using d(5) assms(2) by (simp add: answers_ok_def ids)
  moreover have "wire_ok ?qc ?sv"
    using d(4) assms(2) by (auto simp: wire_ok_def split: option.splits)
  ultimately show ?thesis using in_order_calls[OF same d(1)] by (simp add: serving_def)
qed

text \<open>A success whose row may still come: the answer is held.\<close>

lemma serving_hold:
  assumes "serving (qc, sv)" "qc_pending qc = Some p" "sv_owed sv = left @ awaited_ids qc"
  shows "serving (qc\<lparr>qc_pending := Some (p\<lparr>pe_held := Some h\<rparr>), qc_strayKey := None\<rparr>,
                  sv\<lparr>sv_owed := left\<rparr>)"
proof -
  note d = servingD[OF assms(1)]
  let ?qc = "qc\<lparr>qc_pending := Some (p\<lparr>pe_held := Some h\<rparr>), qc_strayKey := None\<rparr>"
    and ?sv = "sv\<lparr>sv_owed := left\<rparr>"
  have same: "calls_of ?qc = calls_of qc" by simp
  note ids = calls_ids[OF same]
  have left: "qc_abandoned qc = int (length left)" "set left \<subseteq> set (settled_ids qc)" "distinct left"
    using d(2) assms(3) by (auto simp: debts_ok_def)
  have "awaited_ids ?qc = []" by (rule awaited_held[of _ "p\<lparr>pe_held := Some h\<rparr>" h]) simp_all
  then have "debts_ok ?qc ?sv" using left by (simp add: debts_ok_def ids)
  moreover have "sends_ok ?qc ?sv" using d(3) assms(3) by (simp add: sends_ok_def ids)
  moreover have "answers_ok ?qc ?sv" using d(5) assms(3) by (simp add: answers_ok_def ids)
  moreover have "wire_ok ?qc ?sv"
    using d(4) assms(2) by (auto simp: wire_ok_def split: option.splits)
  ultimately show ?thesis using in_order_calls[OF same d(1)] by (simp add: serving_def)
qed

lemma serving_end:
  assumes "serving (qc, sv)" "sv_owed sv = i # owed"
  shows "serving (handle_error number ps qc, sv\<lparr>sv_owed := owed\<rparr>)"
  using assms
proof (cases rule: oldest_owed)
  case left
  then show ?thesis using serving_end_discarded[OF assms left(1)] by (simp add: handle_error_def)
next
  case (wire p)
  have owed: "sv_owed sv = owed @ awaited_ids qc" using wire assms(2) by simp
  have settle: "serving (settle_run (pe_id p) ans (qc\<lparr>qc_pending := None, qc_strayKey := None\<rparr>),
      sv\<lparr>sv_owed := owed\<rparr>)" if "\<And>rows. ans = Inr rows \<Longrightarrow> rows = pe_rows p" for ans
    by (rule serving_off_wire[OF assms(1) wire(3) owed refl that])
  note hold = serving_hold[OF assms(1) wire(3) owed]
  show ?thesis
    using wire(1,3) settle hold
    by (auto simp: handle_error_def Let_def stray_then_pending split: option.split)
qed

text \<open>Rows of the answer on the wire.\<close>

definition parsed_rows :: "string list \<Rightarrow> params list" where
  "parsed_rows rows = List.map_filter (\<lambda>row. map_option cmd_params (parseCommand row)) rows"

lemma parsed_rows_simps [simp]:
  "parsed_rows [] = []"
  "parsed_rows (row # rows) =
     (case parseCommand row of None \<Rightarrow> parsed_rows rows | Some c \<Rightarrow> cmd_params c # parsed_rows rows)"
  by (simp_all add: parsed_rows_def List.map_filter_simps split: option.split)

lemma rows_of_parsed: "rows_of line = parsed_rows (splitRows (trim_cr line))"
  by (simp add: rows_of_def parsed_rows_def)

lemma serving_add_rows:
  assumes "serving (qc, sv)" "qc_pending qc = Some p"
    "qc' = qc\<lparr>qc_pending := Some p', qc_strayKey := k\<rparr>"
    "pe_id p' = pe_id p" "pe_command p' = pe_command p" "pe_rows p' = pe_rows p @ rows"
    "pe_held p' = None \<longleftrightarrow> pe_held p = None" "pe_held p \<noteq> None \<longrightarrow> k = None"
  shows "serving (qc', add_answer (pe_id p) rows sv)"
proof -
  note d = servingD[OF assms(1)]
  let ?sv = "add_answer (pe_id p) rows sv"
  obtain r where r: "qc_run qc = Some r" "ru_id r = pe_id p"
    using d(4) assms(2) by (auto simp: wire_ok_def split: option.splits)
  have same: "calls_of qc' = calls_of qc" by (simp add: assms(3))
  note ids = calls_ids[OF same]
  have new: "pe_id p \<notin> set (settled_ids qc)" using running_not_settled[OF d(1) r(1)] r(2) by simp
  have "awaited_ids qc' = awaited_ids qc"
    using assms(2-8) r by (simp add: awaited_ids_def)
  then have "debts_ok qc' ?sv"
    using d(2) by (simp add: debts_ok_def ids) (simp add: assms(3) add_answer_def)
  moreover have "sends_ok qc' ?sv"
    using d(3) by (simp add: sends_ok_def ids) (simp add: assms(3) add_answer_def)
  moreover have "wire_ok qc' ?sv"
    using d(4) assms(2,4-8) r by (simp add: wire_ok_def assms(3) add_answer_def)
  moreover have "Act_Settle i (Inr rows') \<in> set (qc_log qc) \<Longrightarrow> i \<noteq> pe_id p" for i rows'
    using new by (force simp: settled_ids_def)
  then have "answers_ok qc' ?sv"
    using d(5) r by (auto simp: answers_ok_def ids add_answer_def running_ids_def)
      (auto simp: assms(3))
  ultimately show ?thesis using in_order_calls[OF same d(1)] by (simp add: serving_def)
qed

text \<open>Rows of an answer nobody waits for.\<close>

lemma serving_rows_discarded:
  assumes "serving (qc, sv)" "i \<in> set (settled_ids qc)" "i \<in> set (sv_owed sv)"
  shows "serving (qc, add_answer i rows sv)"
proof -
  note d = servingD[OF assms(1)]
  have run: "qc_run qc = Some r \<Longrightarrow> ru_id r \<noteq> i" for r
    using running_not_settled[OF d(1)] assms(2) by auto
  have "wire_ok qc (add_answer i rows sv)"
    using d(4) run by (auto simp: wire_ok_def add_answer_def split: option.splits)
  moreover have "answers_ok qc (add_answer i rows sv)"
    using d(5) assms(2,3) by (auto simp: answers_ok_def add_answer_def)
  ultimately show ?thesis
    using d(1-3) by (simp add: serving_def debts_ok_def sends_ok_def add_answer_def)
qed

definition stray_free :: "query_client \<Rightarrow> string list \<Rightarrow> bool" where
  "stray_free qc rows \<longleftrightarrow>
     (case qc_strayKey qc of
        None \<Rightarrow> True | Some k \<Rightarrow> k \<in> set (own_keys qc) \<or> [k] \<notin> row_keys ` set rows)"

lemma answer_row_wire:
  assumes "qc_pending qc = Some p" "pe_held p = None" "stray_free qc (row # rows)"
  obtains k where
    "answer_row row qc = qc\<lparr>qc_pending := Some (p\<lparr>pe_rows := pe_rows p @ parsed_rows [row]\<rparr>), qc_strayKey := k\<rparr>"
    "stray_free (answer_row row qc) rows"
proof -
  show thesis
  proof (cases "parseCommand row")
    case None
    then show ?thesis
      using assms that[of "qc_strayKey qc"] by (auto simp: answer_row_def stray_free_def split: option.splits)
  next
    case (Some c)
    let ?p = "p\<lparr>pe_rows := pe_rows p @ [cmd_params c]\<rparr>"
    have push: "push_row row (cmd_params c) (qc\<lparr>qc_strayKey := k\<rparr>) = qc\<lparr>qc_pending := Some ?p, qc_strayKey := k\<rparr>" for k
      using assms(1,2) by (simp add: push_row_def stray_then_pending)
    have push0: "push_row row (cmd_params c) qc = qc\<lparr>qc_pending := Some ?p, qc_strayKey := qc_strayKey qc\<rparr>"
      using assms(1,2) by (simp add: push_row_def)
    have own: "own_keys (qc\<lparr>qc_pending := Some ?p, qc_strayKey := k\<rparr>) = own_keys qc" for k
      using assms(1) by (simp add: own_keys_def)
    show ?thesis
    proof (cases "\<exists>k. qc_strayKey qc = Some k \<and> row_keys row = [k]")
      case True
      then have "answer_row row qc = qc\<lparr>qc_pending := Some ?p, qc_strayKey := None\<rparr>"
        using assms(3) Some push by (auto simp: answer_row_def stray_free_def Let_def)
      then show ?thesis using that[of None] Some by (simp add: stray_free_def)
    next
      case False
      then have "answer_row row qc = qc\<lparr>qc_pending := Some ?p, qc_strayKey := qc_strayKey qc\<rparr>"
        using Some push0 by (auto simp: answer_row_def split: option.split)
      moreover from this have "stray_free (answer_row row qc) rows"
        using assms(3) own[of "qc_strayKey qc"] by (auto simp: stray_free_def split: option.splits)
      ultimately show ?thesis using that[of "qc_strayKey qc"] Some by simp
    qed
  qed
qed

lemma answer_rows_wire:
  assumes "qc_pending qc = Some p" "pe_held p = None" "stray_free qc rows"
  shows "\<exists>k. fold answer_row rows qc =
     qc\<lparr>qc_pending := Some (p\<lparr>pe_rows := pe_rows p @ parsed_rows rows\<rparr>), qc_strayKey := k\<rparr>"
  using assms
proof (induction rows arbitrary: qc p)
  case Nil
  then show ?case by (intro exI[of _ "qc_strayKey qc"]) simp
next
  case (Cons row rows)
  obtain k where k: "answer_row row qc = qc\<lparr>qc_pending := Some (p\<lparr>pe_rows := pe_rows p @ parsed_rows [row]\<rparr>), qc_strayKey := k\<rparr>"
    "stray_free (answer_row row qc) rows"
    by (rule answer_row_wire[OF Cons.prems])
  from Cons.IH[of "answer_row row qc" "p\<lparr>pe_rows := pe_rows p @ parsed_rows [row]\<rparr>"] k Cons.prems(2)
  show ?case by (auto split: option.split)
qed

lemma serving_row:
  assumes "serving (qc, sv)" "sv_owed sv = i # owed" "is_row_line line" "not_stray qc line"
  shows "serving (handleLine number line qc, add_answer i (rows_of line) sv)"
  using assms(1,2)
proof (cases rule: oldest_owed)
  case left
  then show ?thesis
    using serving_rows_discarded[OF assms(1) left(2)] assms(2) by (simp add: handleLine_row[OF assms(3)])
next
  case (wire p)
  have "stray_free qc (splitRows (trim_cr line))"
    using assms(4) by (simp add: not_stray_def stray_free_def)
  from answer_rows_wire[OF wire(3,4) this] obtain k where
    k: "handleLine number line qc =
      qc\<lparr>qc_pending := Some (p\<lparr>pe_rows := pe_rows p @ rows_of line\<rparr>), qc_strayKey := k\<rparr>"
    using wire(1) by (auto simp: handleLine_row[OF assms(3)] rows_of_parsed)
  show ?thesis
    using serving_add_rows[OF assms(1) wire(3) k] wire(4,5) by simp
qed

text \<open>Late rows: of an answer that is held, or of one that is held no more.\<close>

lemma held_row:
  assumes "qc_pending qc = Some p" "pe_held p = Some h" "qc_strayKey qc = None"
    "la_any (he_late h) \<or> la_several (he_late h)"
  shows "\<exists>h'. he_late h' = he_late h \<and> answer_row row qc =
     qc\<lparr>qc_pending := Some (p\<lparr>pe_rows := pe_rows p @ parsed_rows [row], pe_held := Some h'\<rparr>), qc_strayKey := None\<rparr>"
proof (cases "parseCommand row")
  case None
  then show ?thesis using assms by (intro exI[of _ h]) (simp add: answer_row_def)
next
  case (Some c)
  have r: "qc\<lparr>qc_pending := x\<rparr> = qc\<lparr>qc_pending := x, qc_strayKey := None\<rparr>" for x
    using assms(3) by simp
  show ?thesis
  proof (cases "la_any (he_late h) \<or> list_ex (\<lambda>k. k \<in> set (la_keys (he_late h))) (row_keys row)")
    case True
    then show ?thesis
      using assms Some r
      by (intro exI[of _ "h\<lparr>he_wait := LATE_ROW_QUIET_MS\<rparr>"])
        (auto simp: answer_row_def push_row_def wait_held_def set_held_def Let_def)
  next
    case False
    then show ?thesis
      using assms Some by (intro exI[of _ h]) (auto simp: answer_row_def push_row_def Let_def)
  qed
qed

lemma held_rows:
  assumes "qc_pending qc = Some p" "pe_held p = Some h" "qc_strayKey qc = None"
    "la_any (he_late h) \<or> la_several (he_late h)"
  shows "\<exists>h'. he_late h' = he_late h \<and> fold answer_row rows qc =
     qc\<lparr>qc_pending := Some (p\<lparr>pe_rows := pe_rows p @ parsed_rows rows, pe_held := Some h'\<rparr>), qc_strayKey := None\<rparr>"
  using assms
proof (induction rows arbitrary: qc p h)
  case Nil
  then show ?case by (intro exI[of _ h]) simp
next
  case (Cons row rows)
  obtain h' where h': "he_late h' = he_late h" "answer_row row qc =
     qc\<lparr>qc_pending := Some (p\<lparr>pe_rows := pe_rows p @ parsed_rows [row], pe_held := Some h'\<rparr>), qc_strayKey := None\<rparr>"
    using held_row[OF Cons.prems] by blast
  from Cons.IH[of "answer_row row qc" "p\<lparr>pe_rows := pe_rows p @ parsed_rows [row], pe_held := Some h'\<rparr>" h']
    h' Cons.prems(4)
  show ?case by (auto split: option.split)
qed

lemma serving_held_one:
  assumes "serving (qc, sv)" "qc_pending qc = Some p" "pe_held p = Some h" "qc_strayKey qc = None"
    "\<not> la_any (he_late h)" "\<not> la_several (he_late h)"
  shows "serving (answer_row row qc, add_answer (pe_id p) (parsed_rows [row]) sv)"
proof (cases "parseCommand row")
  case None
  then show ?thesis using assms(1) by (simp add: answer_row_def add_answer_def)
next
  case (Some c)
  let ?p = "p\<lparr>pe_rows := pe_rows p @ [cmd_params c]\<rparr>"
  let ?qc = "qc\<lparr>qc_pending := Some ?p, qc_strayKey := None\<rparr>" and ?sv = "add_answer (pe_id p) [cmd_params c] sv"
  have s: "serving (?qc, ?sv)"
    by (rule serving_add_rows[OF assms(1,2) refl]) simp_all
  have r: "qc\<lparr>qc_pending := x\<rparr> = qc\<lparr>qc_pending := x, qc_strayKey := None\<rparr>" for x
    using assms(4) by simp
  have "awaited_ids ?qc = []" by (rule awaited_held[of _ ?p h]) (simp_all add: assms(3))
  then have off: "serving (settle_run (pe_id p) (Inr (pe_rows ?p)) (qc\<lparr>qc_pending := None, qc_strayKey := None\<rparr>), ?sv)"
    using serving_off_wire[OF s, of ?p "sv_owed ?sv" _ "Inr (pe_rows ?p)" None] by simp
  show ?thesis
    using Some assms(2-6) s off r
    by (auto simp: answer_row_def push_row_def finish_held_def Let_def)
qed

lemma serving_late:
  assumes "serving (qc, sv)" "held_answer qc = Some p" "sv_owed sv = []" "late_line p line"
  shows "serving (handleLine number line qc, add_answer (pe_id p) (rows_of line) sv)"
proof -
  note d = servingD[OF assms(1)]
  obtain h where p: "qc_pending qc = Some p" "pe_held p = Some h"
    using assms(2) by (auto simp: held_answer_def split: option.splits if_splits)
  have ab: "qc_abandoned qc = 0" using d(2) assms(3) by (auto simp: debts_ok_def)
  have stray: "qc_strayKey qc = None" using d(4) p by (auto simp: wire_ok_def split: option.splits)
  have line: "is_row_line line" using assms(4) by (simp add: late_line_def)
  have h: "handleLine number line qc = fold answer_row (splitRows (trim_cr line)) qc"
    using ab by (simp add: handleLine_row[OF line])
  show ?thesis
  proof (cases "la_any (he_late h) \<or> la_several (he_late h)")
    case True
    obtain h' where "he_late h' = he_late h" and
      q: "handleLine number line qc = qc\<lparr>qc_pending := Some (p\<lparr>pe_rows := pe_rows p @ rows_of line,
         pe_held := Some h'\<rparr>), qc_strayKey := None\<rparr>"
      using held_rows[OF p stray True, of "splitRows (trim_cr line)"] by (auto simp: h rows_of_parsed)
    show ?thesis by (rule serving_add_rows[OF assms(1) p(1) q]) (simp_all add: p(2))
  next
    case False
    then have "length (splitRows (trim_cr line)) = 1" using assms(4) p by (simp add: late_line_def)
    then obtain row where row: "splitRows (trim_cr line) = [row]" by (auto simp: length_Suc_conv)
    show ?thesis
      using serving_held_one[OF assms(1) p stray, of row] False by (simp add: h rows_of_parsed row)
  qed
qed

lemma serving_stray:
  assumes "serving (qc, sv)" "is_row_line line" "qc_strayKey qc = Some k"
    "map row_keys (splitRows (trim_cr line)) = [[k]]" "k \<notin> set (own_keys qc)"
  shows "serving (handleLine number line qc, sv)"
proof (cases "0 < qc_abandoned qc")
  case True
  then show ?thesis using assms(1) by (simp add: handleLine_row[OF assms(2)])
next
  case False
  obtain row where row: "splitRows (trim_cr line) = [row]" "row_keys row = [k]"
    using assms(4) by (auto simp: map_eq_Cons_conv)
  let ?qc = "qc\<lparr>qc_strayKey := None\<rparr>"
  note d = servingD[OF assms(1)]
  have same: "calls_of ?qc = calls_of qc" by simp
  note ids = calls_ids[OF same]
  have "awaited_ids ?qc = awaited_ids qc" by (rule awaited_cong) simp_all
  moreover have "wire_ok ?qc sv" using d(4) by (auto simp: wire_ok_def split: option.splits)
  ultimately have "serving (?qc, sv)"
    using d in_order_calls[OF same d(1)]
    by (simp add: serving_def debts_ok_def sends_ok_def answers_ok_def ids)
  moreover have "handleLine number line qc = qc \<or> handleLine number line qc = ?qc"
    using False row assms(3,5) by (auto simp: handleLine_row[OF assms(2)] answer_row_def split: option.split)
  ultimately show ?thesis using assms(1) by auto
qed

section \<open>Every event keeps them\<close>

lemma serving_client_event:
  assumes "serving (qc, sv)" "wire_step number (W_Client ev) (qc, sv) = Some s"
  shows "serving s"
proof (cases ev)
  case (Ev_Send_Failed i e)
  then show ?thesis
    using assms serving_failed_on_wire[OF assms(1), of i e] serving_failed_later[OF assms(1), of i e]
    by (auto simp: Let_def split: if_splits)
qed (use assms in \<open>auto simp: Let_def intro: serving_exec serving_turn serving_timeout serving_cancel
  serving_send_ok serving_nudge serving_finish serving_held_timer\<close>)

lemma serving_step:
  assumes "serving s" "wire_step number ev s = Some s'"
  shows "serving s'"
proof -
  obtain qc sv where s: "s = (qc, sv)" by (cases s)
  show ?thesis
  proof (cases ev)
    case (W_Client e)
    then show ?thesis using serving_client_event assms s by blast
  next
    case (W_End line)
    then show ?thesis
      using assms s serving_end[of qc sv] handleLine_end[of line number qc]
      by (auto split: list.splits if_splits)
  qed (use assms s in \<open>auto intro: serving_row serving_late serving_stray serving_notify_rows
    simp: handleLine_notify split: list.splits option.splits if_splits\<close>)
qed

lemma serving_steps: "serving s \<Longrightarrow> wire_steps number evs s = Some s' \<Longrightarrow> serving s'"
proof (induction evs arbitrary: s)
  case (Cons ev evs)
  then obtain s1 where "wire_step number ev s = Some s1" "wire_steps number evs s1 = Some s'"
    by (auto simp: bind_eq_Some_conv simp del: wire_step.simps)
  then show ?case using Cons serving_step by blast
qed simp

lemma own_answers:
  assumes "wire_steps number evs (query_connected kind, no_debts) = Some (qc, sv)"
    and "Act_Settle i (Inr rows) \<in> set (qc_log qc)"
  shows "rows = sv_answers sv i \<and> i \<notin> set (sv_owed sv)"
  using servingD(5)[OF serving_steps[OF serving_start assms(1)]] assms(2) by (simp add: answers_ok_def)

text \<open>The client knows how many answers it still has to discard.\<close>

lemma debts_counted:
  assumes "wire_steps number evs (query_connected kind, no_debts) = Some (qc, sv)"
  shows "qc_abandoned qc = int (length (filter (\<lambda>i. i \<in> set (settled_ids qc)) (sv_owed sv)))"
proof -
  note d = servingD[OF serving_steps[OF serving_start assms]]
  obtain l where l: "sv_owed sv = l @ awaited_ids qc" "qc_abandoned qc = int (length l)"
    "set l \<subseteq> set (settled_ids qc)"
    using d(2) by (auto simp: debts_ok_def)
  have "\<forall>i\<in>set (awaited_ids qc). i \<notin> set (settled_ids qc)"
    using d(4) running_not_settled[OF d(1)]
    by (auto simp: awaited_ids_def wire_ok_def split: option.splits if_splits)
  then have "filter (\<lambda>i. i \<in> set (settled_ids qc)) (sv_owed sv) = l"
    using l(1,3) by (auto simp: filter_id_conv filter_empty_conv)
  then show ?thesis using l(2) by simp
qed

section \<open>A connection that ends\<close>

lemma fail_run:
  assumes "qc_run qc = Some r" "ru_outcome r = None" "ru_gave_up r = None" "\<not> qc_down qc"
  shows "qc_run (fail e qc) =
           Some (r\<lparr>ru_gave_up := Some (Not_Connected None), ru_outcome := Some (Inl (Not_Connected None))\<rparr>)"
    and "qc_pending (fail e qc) = None"
  using assms by (simp_all add: fail_def abort_run_def settle_run_def Let_def split: option.split)

lemma fail_log: "qc_log (fail e qc) = qc_log qc"
  by (simp add: fail_def abort_run_def settle_run_def Let_def split: option.split)

text \<open>
  The reason the transport gave for the end of the connection does not reach the command that was
  waiting: its signal aborts first, with a reason that carries none.
\<close>

lemma closing_reason_lost:
  assumes "qc_run qc = Some r" "ru_outcome r = None" "ru_gave_up r = None" "\<not> qc_down qc"
    "qc_status qc = Q_Connected"
  shows "qc_log (finish_run (query_handleClose (Some reason) qc)) =
           qc_log qc @ [Act_Disconnected (Some reason), Act_Settle (ru_id r) (Inl (Not_Connected None))]"
proof -
  let ?qc = "qc\<lparr>qc_transport := False, qc_closed := True\<rparr>"
  have "qc_run (fail (Not_Connected (Some reason)) ?qc) =
      Some (r\<lparr>ru_gave_up := Some (Not_Connected None), ru_outcome := Some (Inl (Not_Connected None))\<rparr>)"
    by (rule fail_run) (use assms in simp_all)
  moreover have "qc_log (let_go r' qc') = qc_log qc'" for r' qc'
    by (simp add: let_go_def Let_def split: option.split)
  ultimately show ?thesis
    using assms(5) fail_log[of "Not_Connected (Some reason)" ?qc]
    by (simp add: query_handleClose_def finish_run_def run_result_def)
qed

section \<open>A create that is cancelled\<close>

text \<open>
  A create whose row has not come is waited for and then given up on. When its time runs out, the key
  of the row is remembered, and the row is dropped should it still come; when the caller cancels it,
  the key is not remembered, and the row becomes one of the next command's.
\<close>

definition then_runs :: "(string \<Rightarrow> int option) \<Rightarrow> string \<Rightarrow> string \<Rightarrow> query_client \<Rightarrow> params list option" where
  "then_runs number line row qc =
     map_option pe_rows (qc_pending (handleLine number row (execNow (exec line (finish_run qc)))))"

lemma cancelled_row_leaks:
  assumes "qc_pending qc = Some p" "pe_held p = Some h" "la_keys (he_late h) = [k]" "\<not> la_any (he_late h)"
    "pe_rows p = []" "qc_strayKey qc = None" "qc_abandoned qc = 0" "qc_waiting qc = []"
    "qc_run qc = Some r" "ru_id r = pe_id p" "ru_outcome r = None" "ru_gave_up r = None"
    "qc_transport qc" "\<not> qc_closed qc" "\<not> qc_down qc"
    and "is_row_line row" "splitRows (trim_cr row) = [row]" "row_keys row = [k]" "parseCommand row = Some c"
    and "\<forall>late. lateRowsOf (command_name line) = Some late \<longrightarrow> k \<notin> set (la_keys late)"
  shows "then_runs number line row (abort_run e qc) = Some [cmd_params c]"
    and "then_runs number line row (held_timer qc) = Some []"
  using assms
  by (simp_all add: then_runs_def handleLine_row finish_run_def abort_run_def settle_run_def let_go_def
      execNow_def execOnce_def exec_def answer_row_def push_row_def held_timer_def finish_held_def
      hasLateRow_def own_keys_def Let_def split: option.split)

end
