(* ===== verification/Query_Session.thy ===== *)
theory Query_Session
  imports Query_Answers
begin

text \<open>
  Connecting the query client: \<^verbatim>\<open>#connect\<close>, \<^verbatim>\<open>#establishSession\<close> and \<^verbatim>\<open>#registerEvents\<close> of
  \<^verbatim>\<open>src/query/client.ts\<close> over the command pipeline of \<^theory_text>\<open>Query_Client\<close>. An attempt opens its
  transport, then runs the commands that set the session up, each awaited. Several attempts can be
  under way at once: \<^verbatim>\<open>disconnect()\<close> does not wait for one that is still opening its transport.
\<close>

section \<open>What an attempt runs\<close>

datatype server_choice = By_Id string | By_Port nat

record query_options =
  qo_login :: "(string \<times> string) option"
  qo_server :: "server_choice option"
  qo_nickname :: "string option"
  qo_events :: "string list"

datatype setup_step =
    Set_Login string string
  | Set_Use server_choice "string option"
  | Set_Version
  | Set_Whoami
  | Set_Register string
  | Set_List

fun setup_line :: "setup_step \<Rightarrow> string" where
  "setup_line (Set_Login name password) =
     buildCommandOrdered ''login'' [(''client_login_name'', name), (''client_login_password'', password)]"
| "setup_line (Set_Use server nickname) =
     buildCommandOrdered ''use''
       ((case server of By_Id i \<Rightarrow> (''sid'', i) | By_Port p \<Rightarrow> (''port'', string_of_nat p))
        # (case nickname of None \<Rightarrow> [] | Some n \<Rightarrow> [(''client_nickname'', n)]))"
| "setup_line Set_Version = ''version''"
| "setup_line Set_Whoami = ''whoami''"
| "setup_line (Set_Register category) =
     buildCommandOrdered ''servernotifyregister''
       ((''event'', category) # (if category = ''channel'' then [(''id'', ''0'')] else []))"
| "setup_line Set_List = ''clientlist -uid -groups -away -voice''"

definition registerEvents :: "query_options \<Rightarrow> setup_step list" where
  "registerEvents opt = map Set_Register (qo_events opt) @ (if qo_events opt \<noteq> [] then [Set_List] else [])"

definition setup_plan :: "query_options \<Rightarrow> transport_kind \<Rightarrow> bool \<Rightarrow> setup_step list" where
  "setup_plan opt kind notifications =
     (case qo_login opt of
        Some (name, password) \<Rightarrow> if kind = Tcp then [Set_Login name password] else []
      | None \<Rightarrow> [])
     @ (case qo_server opt of Some server \<Rightarrow> [Set_Use server (qo_nickname opt)] | None \<Rightarrow> [])
     @ [Set_Version, Set_Whoami]
     @ (if notifications \<and> qo_server opt \<noteq> None then registerEvents opt else [])"

section \<open>The state\<close>

datatype attempt_phase = Opening | Awaiting nat setup_step "setup_step list"

record query_session =
  qs_client :: query_client
  qs_attempts :: "(nat \<times> attempt_phase) list"
  qs_results :: "(nat \<times> (command_failure + unit)) list"
  qs_version :: string
  qs_clid :: int
  qs_eventsPending :: bool

definition new_session :: "transport_kind \<Rightarrow> query_session" where
  "new_session kind =
     \<lparr>qs_client = new_query_client kind, qs_attempts = [], qs_results = [], qs_version = [],
      qs_clid = 0, qs_eventsPending = False\<rparr>"

definition on_client :: "(query_client \<Rightarrow> query_client) \<Rightarrow> query_session \<Rightarrow> query_session" where
  "on_client f qs = qs\<lparr>qs_client := f (qs_client qs)\<rparr>"

text \<open>The attempt of a generation ends, and its caller hears how.\<close>

definition end_attempt :: "nat \<Rightarrow> command_failure + unit \<Rightarrow> query_session \<Rightarrow> query_session" where
  "end_attempt g result qs =
     qs\<lparr>qs_attempts := filter (\<lambda>a. fst a \<noteq> g) (qs_attempts qs), qs_results := qs_results qs @ [(g, result)]\<rparr>"

definition set_attempt :: "nat \<Rightarrow> attempt_phase \<Rightarrow> query_session \<Rightarrow> query_session" where
  "set_attempt g phase qs = qs\<lparr>qs_attempts := AList.update g phase (qs_attempts qs)\<rparr>"

definition fail_attempt :: "nat \<Rightarrow> command_failure \<Rightarrow> query_session \<Rightarrow> query_session" where
  "fail_attempt g e qs = end_attempt g (Inl e) (on_client (query_failConnection e) qs)"

definition next_setup :: "nat \<Rightarrow> setup_step list \<Rightarrow> query_session \<Rightarrow> query_session" where
  "next_setup g steps qs =
     (case steps of
        step # rest \<Rightarrow>
          set_attempt g (Awaiting (qc_next (qs_client qs)) step rest)
            (on_client (exec (setup_line step)) qs)
      | [] \<Rightarrow>
          if g = qc_generation (qs_client qs)
          then end_attempt g (Inr ()) (on_client (connected g) qs)
          else end_attempt g (Inl (Not_Connected None)) qs)"

section \<open>Steps\<close>

text \<open>\<^verbatim>\<open>connect()\<close>; a client that is not disconnected refuses it.\<close>

definition start_attempt :: "query_session \<Rightarrow> query_session" where
  "start_attempt qs =
     (if qc_status (qs_client qs) = Q_Disconnected
      then let qs' = on_client begin_connect qs
           in set_attempt (qc_generation (qs_client qs')) Opening qs'
      else qs)"

text \<open>The transport of an attempt is open, or could not be opened.\<close>

definition opened :: "query_options \<Rightarrow> nat \<Rightarrow> bool \<Rightarrow> query_session \<Rightarrow> query_session" where
  "opened opt g notifications qs =
     (if map_of (qs_attempts qs) g \<noteq> Some Opening then qs
      else if g \<noteq> qc_generation (qs_client qs) \<or> qc_status (qs_client qs) \<noteq> Q_Connecting
      then fail_attempt g (Not_Connected None) (on_client (note_act Act_Close) qs)
      else if \<not> notifications \<and> qo_events opt \<noteq> []
      then fail_attempt g (Connect_Failure ''TypeError'') (on_client (note_act Act_Close) qs)
      else
        let qs' = (on_client (install g) qs)
                    \<lparr>qs_version := [], qs_clid := 0,
                     qs_eventsPending := (notifications \<and> qo_events opt \<noteq> [] \<and> qo_server opt = None)\<rparr>
        in next_setup g (setup_plan opt (qc_kind (qs_client qs)) notifications) qs')"

definition open_failed :: "nat \<Rightarrow> string \<Rightarrow> query_session \<Rightarrow> query_session" where
  "open_failed g e qs =
     (if map_of (qs_attempts qs) g \<noteq> Some Opening then qs else fail_attempt g (Connect_Failure e) qs)"

text \<open>The command an attempt waits for has been settled, and the attempt goes on.\<close>

fun settled_with :: "query_act list \<Rightarrow> nat \<Rightarrow> answer option" where
  "settled_with [] i = None"
| "settled_with (Act_Settle j ans # acts) i = (if i = j then Some ans else settled_with acts i)"
| "settled_with (_ # acts) i = settled_with acts i"

definition first_value :: "string \<Rightarrow> params list \<Rightarrow> string option" where
  "first_value key rows = (case rows of row # _ \<Rightarrow> row key | [] \<Rightarrow> None)"

definition learn_self :: "(string \<Rightarrow> int option) \<Rightarrow> params list \<Rightarrow> int" where
  "learn_self number rows =
     (case Option.bind (first_value ''client_id'' rows) number of
        Some i \<Rightarrow> if 0 < i then i else 0
      | None \<Rightarrow> 0)"

fun take_result :: "(string \<Rightarrow> int option) \<Rightarrow> setup_step \<Rightarrow> params list \<Rightarrow> query_session \<Rightarrow> query_session" where
  "take_result number Set_Version rows qs =
     qs\<lparr>qs_version := (case first_value ''version'' rows of Some v \<Rightarrow> v | None \<Rightarrow> [])\<rparr>"
| "take_result number Set_Whoami rows qs = qs\<lparr>qs_clid := learn_self number rows\<rparr>"
| "take_result number (Set_Use server nickname) rows qs = qs\<lparr>qs_clid := 0\<rparr>"
| "take_result number _ rows qs = qs"

definition take_refusal :: "setup_step \<Rightarrow> command_failure \<Rightarrow> query_session \<Rightarrow> query_session" where
  "take_refusal step e qs =
     (case (step, e) of
        (Set_Use server nickname, Server_Refusal err) \<Rightarrow> qs\<lparr>qs_clid := 0\<rparr>
      | _ \<Rightarrow> qs)"

definition continue_attempt :: "(string \<Rightarrow> int option) \<Rightarrow> nat \<Rightarrow> query_session \<Rightarrow> query_session" where
  "continue_attempt number g qs =
     (case map_of (qs_attempts qs) g of
        Some (Awaiting i step rest) \<Rightarrow>
          (case settled_with (qc_log (qs_client qs)) i of
             None \<Rightarrow> qs
           | Some (Inr rows) \<Rightarrow> next_setup g rest (take_result number step rows qs)
           | Some (Inl e) \<Rightarrow>
               if step = Set_List then next_setup g rest qs else fail_attempt g e (take_refusal step e qs))
      | _ \<Rightarrow> qs)"

datatype session_event =
    Se_Client query_event
  | Se_Connect
  | Se_Opened nat bool
  | Se_Open_Failed nat string
  | Se_Continue nat

text \<open>The client's own events, the ones of an attempt left to the attempts.\<close>

fun by_attempt :: "query_event \<Rightarrow> bool" where
  "by_attempt Ev_Begin_Connect = True"
| "by_attempt (Ev_Install g) = True"
| "by_attempt (Ev_Connected g) = True"
| "by_attempt (Ev_Connect_Failed e) = True"
| "by_attempt _ = False"

fun session_step ::
    "(string \<Rightarrow> int option) \<Rightarrow> query_options \<Rightarrow> session_event \<Rightarrow> query_session \<Rightarrow> query_session" where
  "session_step number opt (Se_Client ev) qs =
     (if by_attempt ev then qs else on_client (query_step number ev) qs)"
| "session_step number opt Se_Connect qs = start_attempt qs"
| "session_step number opt (Se_Opened g notifications) qs = opened opt g notifications qs"
| "session_step number opt (Se_Open_Failed g e) qs = open_failed g e qs"
| "session_step number opt (Se_Continue g) qs = continue_attempt number g qs"

section \<open>What every session keeps\<close>

text \<open>
  The command in flight is the one on the wire or knows how it ends, and it knows that on a
  connection that is closed; a client that is disconnected has closed its connection.
\<close>

definition decided :: "query_client \<Rightarrow> bool" where
  "decided qc \<longleftrightarrow> (case qc_run qc of Some r \<Rightarrow> ru_outcome r \<noteq> None | None \<Rightarrow> True)"

definition run_live :: "query_client \<Rightarrow> bool" where
  "run_live qc \<longleftrightarrow>
     (case qc_run qc of
        None \<Rightarrow> qc_pending qc = None
      | Some r \<Rightarrow>
          (ru_gave_up r \<noteq> None \<longrightarrow> ru_outcome r \<noteq> None)
          \<and> (case qc_pending qc of None \<Rightarrow> ru_outcome r \<noteq> None | Some p \<Rightarrow> pe_id p = ru_id r))"

definition live :: "query_client \<Rightarrow> bool" where
  "live qc \<longleftrightarrow> run_live qc
     \<and> (qc_closed qc \<longrightarrow> decided qc) \<and> (qc_down qc \<longrightarrow> qc_closed qc)
     \<and> (qc_status qc = Q_Disconnected \<longrightarrow> qc_closed qc)"

definition conn_of :: "query_client \<Rightarrow> query_status \<times> bool \<times> bool" where
  "conn_of qc = (qc_status qc, qc_closed qc, qc_down qc)"

lemma live_parts:
  assumes "live qc" "conn_of qc' = conn_of qc" "run_live qc'" "decided qc \<longrightarrow> decided qc'"
  shows "live qc'"
  using assms by (auto simp: live_def conn_of_def)

lemma live_view:
  assumes "live qc" "conn_of qc' = conn_of qc" "qc_run qc' = qc_run qc" "qc_pending qc' = qc_pending qc"
  shows "live qc'"
  using assms by (simp add: live_def conn_of_def run_live_def decided_def cong: option.case_cong)

lemma conn_settle_run [simp]: "conn_of (settle_run i a qc) = conn_of qc"
  by (simp add: settle_run_def conn_of_def split: option.split)

lemma live_settle_run: "live qc \<Longrightarrow> live (settle_run i a qc)"
  by (rule live_parts)
    (auto simp: live_def run_live_def decided_def settle_run_def split: option.splits)

lemma live_abort_run: "live qc \<Longrightarrow> live (abort_run e qc)"
  by (rule live_parts)
    (auto simp: live_def run_live_def decided_def settle_run_def abort_run_def conn_of_def split: option.splits)

lemma live_note: "live qc \<Longrightarrow> live (note_act a qc)"
  by (rule live_view) (simp_all add: conn_of_def)

text \<open>The command on the wire is answered: it leaves the wire with an outcome.\<close>

lemma live_off_wire:
  assumes "live qc" "qc_pending qc = Some p" "conn_of qc' = conn_of qc"
    "qc_run qc' = qc_run qc" "qc_pending qc' = None"
  shows "live (settle_run (pe_id p) a qc')"
proof (rule live_parts[OF assms(1)])
  show "conn_of (settle_run (pe_id p) a qc') = conn_of qc" using assms(3) by simp
  show "run_live (settle_run (pe_id p) a qc')" "decided qc \<longrightarrow> decided (settle_run (pe_id p) a qc')"
    using assms(1,2,4,5)
    by (auto simp: live_def run_live_def decided_def settle_run_def split: option.splits)
qed

lemma live_hold:
  assumes "live qc" "qc_pending qc = Some p" "conn_of qc' = conn_of qc"
    "qc_run qc' = qc_run qc" "qc_pending qc' = Some p'" "pe_id p' = pe_id p"
  shows "live qc'"
  by (rule live_parts[OF assms(1,3)])
    (use assms in \<open>auto simp: live_def run_live_def decided_def split: option.splits\<close>)

lemma live_handle_error: "live qc \<Longrightarrow> live (handle_error number ps qc)"
proof (cases "qc_pending qc")
  case (Some p)
  assume l: "live qc"
  have settle: "live (settle_run (pe_id p) a (qc\<lparr>qc_pending := None, qc_strayKey := None\<rparr>))" for a
    by (rule live_off_wire[OF l Some]) (simp_all add: conn_of_def)
  have hold: "live (qc\<lparr>qc_pending := Some (p\<lparr>pe_held := h\<rparr>), qc_strayKey := None\<rparr>)" for h
    by (rule live_hold[OF l Some, where p' = "p\<lparr>pe_held := h\<rparr>"]) (simp_all add: conn_of_def)
  have "live (qc\<lparr>qc_abandoned := a\<rparr>)" for a by (rule live_view[OF l]) (simp_all add: conn_of_def)
  then show ?thesis
    using Some settle hold by (auto simp: handle_error_def Let_def stray_then_pending split: option.split)
next
  case None
  assume l: "live qc"
  have "live (qc\<lparr>qc_abandoned := a\<rparr>)" for a by (rule live_view[OF l]) (simp_all add: conn_of_def)
  then show ?thesis using None l by (simp add: handle_error_def)
qed

lemma live_push_row: "live qc \<Longrightarrow> live (push_row row ps qc)"
proof (cases "qc_pending qc")
  case (Some p)
  assume l: "live qc"
  let ?p = "p\<lparr>pe_rows := pe_rows p @ [ps]\<rparr>"
  have hold: "live (qc\<lparr>qc_pending := Some p'\<rparr>)" if "pe_id p' = pe_id p" for p'
    by (rule live_hold[OF l Some, where p' = p']) (simp_all add: conn_of_def that)
  have "live (finish_held ?p (qc\<lparr>qc_pending := Some ?p\<rparr>))"
    using live_off_wire[OF l Some, of "qc\<lparr>qc_pending := None\<rparr>"] by (simp add: finish_held_def conn_of_def)
  then show ?thesis
    using Some hold by (auto simp: push_row_def wait_held_def set_held_def Let_def split: option.split)
qed (simp add: push_row_def)

lemma live_answer_row: "live qc \<Longrightarrow> live (answer_row row qc)"
proof -
  assume l: "live qc"
  have s: "live (qc\<lparr>qc_strayKey := k\<rparr>)" for k by (rule live_view[OF l]) (simp_all add: conn_of_def)
  show ?thesis
    using l s by (auto simp: answer_row_def Let_def live_push_row split: option.split)
qed

lemma live_notify_row: "live qc \<Longrightarrow> live (notify_row row qc)"
  by (simp add: notify_row_def live_note split: option.split)

lemma fold_keeps:
  assumes "\<And>x s. P s \<Longrightarrow> P (f x s)"
  shows "P s \<Longrightarrow> P (fold f xs s)"
  using assms by (induction xs arbitrary: s) auto

lemma live_handleLine: "live qc \<Longrightarrow> live (handleLine number line qc)"
  by (auto simp: handleLine_def live_handle_error live_answer_row live_notify_row
      intro: fold_keeps[where P = live] split: option.split)

lemma live_held_timer:
  assumes "live qc"
  shows "live (held_timer qc)"
proof (cases "qc_pending qc")
  case (Some p)
  have "live (settle_run (pe_id p) a (qc\<lparr>qc_pending := None, qc_strayKey := k\<rparr>))"
    "live (settle_run (pe_id p) a (qc\<lparr>qc_pending := None\<rparr>))" for a k
    by (rule live_off_wire[OF assms Some]; simp add: conn_of_def)+
  then show ?thesis
    using Some assms
    by (auto simp: held_timer_def finish_held_def Let_def stray_then_pending split: option.split)
qed (simp add: held_timer_def assms)

lemma live_exec: "live qc \<Longrightarrow> live (exec line qc)"
  by (rule live_view) (simp_all add: exec_def conn_of_def)

lemma live_execNow:
  assumes "live qc"
  shows "live (execNow qc)"
proof (cases "qc_run qc = None \<and> qc_waiting qc \<noteq> []")
  case True
  then obtain w ws where w: "qc_run qc = None" "qc_waiting qc = w # ws" by (cases "qc_waiting qc") auto
  have d: "live (qc\<lparr>qc_waiting := ws\<rparr>)" by (rule live_view[OF assms]) (simp_all add: conn_of_def)
  have "live (execOnce i line (qc\<lparr>qc_waiting := ws\<rparr>))" if "\<not> qc_closed qc" for i line
    using that assms by (simp add: execOnce_def live_def run_live_def decided_def)
  then show ?thesis
    using w d by (auto simp: execNow_def Let_def live_note split: option.split)
next
  case False
  then have "execNow qc = qc" by (auto simp: execNow_def split: option.splits list.splits)
  then show ?thesis using assms by simp
qed

lemma live_timeout: "live qc \<Longrightarrow> live (timeout qc)"
  by (simp add: timeout_def live_abort_run split: option.split)

lemma live_waiting: "live qc \<Longrightarrow> live (qc\<lparr>qc_waiting := ws\<rparr>)"
  by (rule live_view) (simp_all add: conn_of_def)

lemma live_cancel: "live qc \<Longrightarrow> live (cancel i reason qc)"
  by (simp add: cancel_def live_abort_run live_waiting split: option.split)

lemma live_set_sending: "live qc \<Longrightarrow> live (set_sending s n qc)"
  by (rule live_parts)
    (auto simp: live_def run_live_def decided_def set_sending_def conn_of_def split: option.splits)

lemma live_unsettled: "live qc \<Longrightarrow> live (drop_unsettled i qc)" "live qc \<Longrightarrow> live (qc\<lparr>qc_abandoned := a\<rparr>)"
  by (rule live_view; simp add: drop_unsettled_def conn_of_def)+

lemma live_sends:
  assumes "live qc"
  shows "live (send_ok i qc)" "live (send_failed i e qc)" "live (nudge qc)"
  using assms
  by (simp_all add: send_ok_def send_failed_def nudge_def live_note live_unsettled live_set_sending
      live_settle_run split: option.split)

lemma live_finish:
  assumes "live qc"
  shows "live (finish_run qc)"
proof (cases "\<exists>r outcome. qc_run qc = Some r \<and> ru_outcome r = Some outcome")
  case True
  then obtain r outcome where r: "qc_run qc = Some r" "ru_outcome r = Some outcome" by auto
  let ?qc = "(let_go r qc)\<lparr>qc_run := None\<rparr>"
  have "qc_pending ?qc = None" "conn_of ?qc = conn_of qc"
    by (simp_all add: let_go_def conn_of_def Let_def split: option.split)
  then have "live ?qc"
    by (intro live_parts[OF assms]) (simp_all add: run_live_def decided_def)
  then show ?thesis using r by (simp add: finish_run_def live_note)
next
  case False
  then have "finish_run qc = qc" by (auto simp: finish_run_def split: option.splits)
  then show ?thesis using assms by simp
qed

text \<open>The end of the connection decides the command in flight.\<close>

lemma settle_decided: "decided qc \<Longrightarrow> settle_run i a qc = qc"
  by (auto simp: settle_run_def decided_def split: option.splits)

lemma fail_decides:
  assumes "run_live qc" "qc_down qc \<longrightarrow> decided qc"
  shows "run_live (fail e qc)" "decided (fail e qc)" "qc_closed (fail e qc) = qc_closed qc"
    "qc_status (fail e qc) = qc_status qc" "qc_transport (fail e qc) = qc_transport qc"
    "qc_generation (fail e qc) = qc_generation qc" "qc_log (fail e qc) = qc_log qc"
    "qc_pending (fail e qc) = None"
proof -
  let ?qc = "if qc_down qc then qc else abort_run (Not_Connected None) (qc\<lparr>qc_down := True\<rparr>)"
  have same: "qc_pending ?qc = qc_pending qc" "qc_closed ?qc = qc_closed qc" "qc_status ?qc = qc_status qc"
    "qc_transport ?qc = qc_transport qc" "qc_generation ?qc = qc_generation qc" "qc_log ?qc = qc_log qc"
    by (simp_all add: abort_run_def settle_run_def split: option.split)
  have d: "decided ?qc" "run_live ?qc"
    using assms by (auto simp: run_live_def decided_def abort_run_def settle_run_def split: option.splits)
  have "decided (?qc\<lparr>qc_pending := None\<rparr>)" using d(1) by (simp add: decided_def)
  then have after: "fail e qc = ?qc\<lparr>qc_pending := None\<rparr>"
    unfolding fail_def Let_def by (cases "qc_pending ?qc") (simp_all add: settle_decided)
  show "decided (fail e qc)" unfolding after using d(1) by (simp add: decided_def)
  show "run_live (fail e qc)"
    unfolding after using d by (auto simp: run_live_def decided_def split: option.splits)
  show "qc_closed (fail e qc) = qc_closed qc" "qc_status (fail e qc) = qc_status qc"
    "qc_transport (fail e qc) = qc_transport qc" "qc_generation (fail e qc) = qc_generation qc"
    "qc_log (fail e qc) = qc_log qc" "qc_pending (fail e qc) = None"
    unfolding after using same by simp_all
qed

lemma live_closed:
  assumes "run_live qc" "decided qc" "qc_closed qc"
  shows "live qc"
  using assms by (simp add: live_def)

lemma fail_live:
  assumes "live qc" "qc_run qc' = qc_run qc" "qc_pending qc' = qc_pending qc" "qc_down qc' = qc_down qc"
  shows "run_live (fail e qc')" "decided (fail e qc')" "qc_closed (fail e qc') = qc_closed qc'"
    "qc_status (fail e qc') = qc_status qc'" "qc_transport (fail e qc') = qc_transport qc'"
    "qc_generation (fail e qc') = qc_generation qc'" "qc_log (fail e qc') = qc_log qc'"
proof -
  have "run_live qc'" "qc_down qc' \<longrightarrow> decided qc'"
    using assms by (simp_all add: live_def run_live_def decided_def cong: option.case_cong)
  then show "run_live (fail e qc')" "decided (fail e qc')" "qc_closed (fail e qc') = qc_closed qc'"
    "qc_status (fail e qc') = qc_status qc'" "qc_transport (fail e qc') = qc_transport qc'"
    "qc_generation (fail e qc') = qc_generation qc'" "qc_log (fail e qc') = qc_log qc'"
    by (simp_all add: fail_decides)
qed

lemma live_status: "run_live (qc\<lparr>qc_status := s\<rparr>) = run_live qc" "decided (qc\<lparr>qc_status := s\<rparr>) = decided qc"
  by (simp_all add: run_live_def decided_def cong: option.case_cong)

lemma live_transport: "run_live (qc\<lparr>qc_transport := s\<rparr>) = run_live qc" "decided (qc\<lparr>qc_transport := s\<rparr>) = decided qc"
  by (simp_all add: run_live_def decided_def cong: option.case_cong)

lemma handleClose_live:
  assumes "live qc"
  shows "live (query_handleClose error qc)"
proof -
  let ?qc = "(fail (Not_Connected error) (qc\<lparr>qc_transport := False, qc_closed := True\<rparr>))\<lparr>qc_status := Q_Disconnected\<rparr>"
  have "live ?qc"
    using fail_live[OF assms, of "qc\<lparr>qc_transport := False, qc_closed := True\<rparr>" "Not_Connected error"]
    by (intro live_closed) (simp_all add: live_status)
  then show ?thesis using assms by (simp add: query_handleClose_def Let_def live_note)
qed

lemma failConnection_live:
  assumes "live qc"
  shows "live (query_failConnection e qc)"
proof -
  let ?qc = "fail e (qc\<lparr>qc_status := Q_Disconnected, qc_closed := True\<rparr>)"
  note f = fail_live[OF assms, of "qc\<lparr>qc_status := Q_Disconnected, qc_closed := True\<rparr>" e]
  have "live ?qc" "live (?qc\<lparr>qc_transport := False\<rparr>)"
    using f by (intro live_closed; simp add: live_transport)+
  then show ?thesis using assms by (simp add: query_failConnection_def Let_def live_note)
qed

lemma disconnect_live:
  assumes "live qc"
  shows "live (query_disconnect qc)"
proof -
  let ?g = "qc\<lparr>qc_generation := qc_generation qc + 1\<rparr>"
  let ?qc0 = "?g\<lparr>qc_status := Q_Disconnected, qc_transport := False, qc_closed := True\<rparr>"
  have "live ?g" by (rule live_view[OF assms]) (simp_all add: conn_of_def)
  moreover have "live (fail (Not_Connected None) ?qc0)"
    using fail_live[OF assms, of ?qc0 "Not_Connected None"] by (intro live_closed) simp_all
  ultimately show ?thesis by (simp add: query_disconnect_def Let_def live_note)
qed

lemma live_begin: "live qc \<Longrightarrow> live (begin_connect qc)"
  by (simp add: begin_connect_def live_def run_live_def decided_def cong: option.case_cong)

lemma live_connected: "live qc \<Longrightarrow> live (connected g qc)"
  by (simp add: connected_def live_def run_live_def decided_def note_act_def cong: option.case_cong)

lemma live_install:
  assumes "live qc" "qc_closed qc"
  shows "live (install g qc)"
  using assms live_note[OF assms(1)]
  by (auto simp: install_def live_def run_live_def decided_def split: option.splits)

lemma live_client_step:
  assumes "live qc" "\<not> by_attempt ev"
  shows "live (query_step number ev qc)"
  using assms
  by (cases ev) (simp_all add: live_exec live_execNow live_timeout live_cancel live_sends live_finish
      live_handleLine live_held_timer handleClose_live disconnect_live)

text \<open>Only the newest attempt can still install its transport, and it does so on a closed connection.\<close>

definition session_ok :: "query_session \<Rightarrow> bool" where
  "session_ok qs \<longleftrightarrow> in_order (qs_client qs) \<and> live (qs_client qs)
     \<and> (\<forall>g\<in>fst ` set (qs_attempts qs). g \<le> qc_generation (qs_client qs))
     \<and> (map_of (qs_attempts qs) (qc_generation (qs_client qs)) = Some Opening
        \<and> qc_status (qs_client qs) = Q_Connecting \<longrightarrow> qc_closed (qs_client qs))"

definition closing :: "query_client \<Rightarrow> query_client \<Rightarrow> bool" where
  "closing qc qc' \<longleftrightarrow> (qc_closed qc \<longrightarrow> qc_closed qc') \<and> qc_generation qc \<le> qc_generation qc'
     \<and> (qc_status qc' = Q_Connecting \<longrightarrow> qc_status qc = Q_Connecting)
     \<and> (qc_generation qc \<noteq> qc_generation qc' \<longrightarrow> qc_status qc' \<noteq> Q_Connecting)"

lemma session_okD:
  assumes "session_ok qs"
  shows "in_order (qs_client qs)" "live (qs_client qs)"
    "g \<in> fst ` set (qs_attempts qs) \<Longrightarrow> g \<le> qc_generation (qs_client qs)"
    "map_of (qs_attempts qs) (qc_generation (qs_client qs)) = Some Opening \<Longrightarrow>
       qc_status (qs_client qs) = Q_Connecting \<Longrightarrow> qc_closed (qs_client qs)"
  using assms by (auto simp: session_ok_def)

lemma session_on_client:
  assumes "session_ok qs" "in_order (f (qs_client qs))" "live (f (qs_client qs))" "closing (qs_client qs) (f (qs_client qs))"
  shows "session_ok (on_client f qs)"
  using assms by (force simp: session_ok_def on_client_def closing_def)

definition link_of :: "query_client \<Rightarrow> query_status \<times> bool \<times> nat" where
  "link_of qc = (qc_status qc, qc_closed qc, qc_generation qc)"

lemma closing_link: "link_of qc' = link_of qc \<Longrightarrow> closing qc qc'"
  by (simp add: link_of_def closing_def)

lemma link_simps [simp]:
  "link_of (qc\<lparr>qc_pending := p\<rparr>) = link_of qc" "link_of (qc\<lparr>qc_strayKey := k\<rparr>) = link_of qc"
  "link_of (qc\<lparr>qc_abandoned := a\<rparr>) = link_of qc" "link_of (qc\<lparr>qc_unsettled := u\<rparr>) = link_of qc"
  "link_of (qc\<lparr>qc_run := r\<rparr>) = link_of qc" "link_of (qc\<lparr>qc_waiting := w\<rparr>) = link_of qc"
  "link_of (note_act act qc) = link_of qc" "link_of (qc\<lparr>qc_next := n\<rparr>) = link_of qc"
  by (simp_all add: link_of_def)

lemma link_settle_run [simp]: "link_of (settle_run i a qc) = link_of qc"
  by (simp add: settle_run_def split: option.split)

lemma link_abort_run [simp]: "link_of (abort_run e qc) = link_of qc"
  by (simp add: abort_run_def split: option.split)

lemma link_runs [simp]:
  "link_of (exec line qc) = link_of qc" "link_of (execNow qc) = link_of qc"
  "link_of (timeout qc) = link_of qc" "link_of (cancel i reason qc) = link_of qc"
  "link_of (send_ok i qc) = link_of qc" "link_of (send_failed i e qc) = link_of qc"
  "link_of (nudge qc) = link_of qc"
  by (auto simp: exec_def execNow_def execOnce_def timeout_def cancel_def send_ok_def send_failed_def
      nudge_def set_sending_def drop_unsettled_def Let_def
      split: option.split list.split)

lemma link_finish [simp]: "link_of (finish_run qc) = link_of qc"
  by (simp add: finish_run_def let_go_def Let_def split: option.split)

lemma link_rows [simp]:
  "link_of (handle_error number ps qc) = link_of qc" "link_of (push_row row ps qc) = link_of qc"
  "link_of (answer_row row qc) = link_of qc" "link_of (notify_row row qc) = link_of qc"
  "link_of (held_timer qc) = link_of qc"
  by (simp_all add: handle_error_def push_row_def answer_row_def notify_row_def held_timer_def
      finish_held_def wait_held_def set_held_def Let_def split: option.split)

lemma link_handleLine [simp]: "link_of (handleLine number line qc) = link_of qc"
  by (auto simp: handleLine_def intro: fold_keeps[where P = "\<lambda>q. link_of q = link_of qc"] split: option.split)

lemma closing_ends:
  assumes "live qc"
  shows "closing qc (query_handleClose error qc)" "closing qc (query_disconnect qc)"
    "closing qc (query_failConnection e qc)"
proof -
  show "closing qc (query_handleClose error qc)"
    using fail_live[OF assms, of "qc\<lparr>qc_transport := False, qc_closed := True\<rparr>" "Not_Connected error"]
    by (simp add: closing_def query_handleClose_def Let_def)
  show "closing qc (query_failConnection e qc)"
    using fail_live[OF assms, of "qc\<lparr>qc_status := Q_Disconnected, qc_closed := True\<rparr>" e]
    by (simp add: closing_def query_failConnection_def Let_def)
  show "closing qc (query_disconnect qc)"
    using fail_live[OF assms, of "qc\<lparr>qc_generation := qc_generation qc + 1, qc_status := Q_Disconnected,
      qc_transport := False, qc_closed := True\<rparr>" "Not_Connected None"]
    by (simp add: closing_def query_disconnect_def Let_def)
qed

lemma closing_client_step:
  assumes "live qc" "\<not> by_attempt ev"
  shows "closing qc (query_step number ev qc)"
  using assms by (cases ev) (simp_all add: closing_link closing_ends)

text \<open>The attempts' own steps.\<close>

lemma session_end_attempt:
  assumes "session_ok qs"
  shows "session_ok (end_attempt g result qs)"
proof -
  have "map_of (filter (\<lambda>a. fst a \<noteq> g) xs) h = (if h = g then None else map_of xs h)"
    for xs :: "(nat \<times> attempt_phase) list" and h
    by (induction xs) auto
  then show ?thesis using assms by (auto simp: session_ok_def end_attempt_def split: if_splits)
qed

lemma session_fields:
  assumes "session_ok qs"
  shows "session_ok (qs\<lparr>qs_version := v\<rparr>)" "session_ok (qs\<lparr>qs_clid := c\<rparr>)" "session_ok (qs\<lparr>qs_eventsPending := b\<rparr>)"
  using assms by (simp_all add: session_ok_def)

text \<open>Waiting for a command, an attempt installs nothing more.\<close>

lemma session_awaiting:
  assumes "in_order (qs_client qs)" "live (qs_client qs)"
    "\<forall>h\<in>fst ` set (qs_attempts qs). h \<le> qc_generation (qs_client qs)"
    "g = qc_generation (qs_client qs) \<or> session_ok qs \<and> g \<le> qc_generation (qs_client qs)"
  shows "session_ok (set_attempt g (Awaiting i step rest) qs)"
  using assms dom_update[of g "Awaiting i step rest" "qs_attempts qs"]
  by (auto simp: session_ok_def set_attempt_def update_conv' dom_map_of_conv_image_fst[symmetric] split: if_splits)

lemma session_fail_attempt:
  assumes "session_ok qs"
  shows "session_ok (fail_attempt g e qs)"
  unfolding fail_attempt_def
  by (intro session_end_attempt session_on_client assms in_order_calls[OF calls_connection(5)]
      failConnection_live closing_ends session_okD[OF assms])

lemma session_note: "session_ok qs \<Longrightarrow> settled_by a = [] \<Longrightarrow> session_ok (on_client (note_act a) qs)"
  by (intro session_on_client) (auto simp: closing_link live_note session_okD intro: in_order_calls[OF calls_note])

lemma closing_connected: "closing qc (connected g qc)"
  by (simp add: closing_def connected_def)

lemma connected_calls: "calls_of (connected g qc) = calls_of qc"
  by (rule calls_connection)

lemma session_next_command:
  assumes "in_order (qs_client qs)" "live (qs_client qs)"
    "\<forall>h\<in>fst ` set (qs_attempts qs). h \<le> qc_generation (qs_client qs)"
    "g = qc_generation (qs_client qs) \<or> session_ok qs \<and> g \<le> qc_generation (qs_client qs)"
  shows "session_ok (next_setup g (step # rest) qs)"
proof -
  let ?qs = "on_client (exec (setup_line step)) qs"
  have "session_ok ?qs" if "session_ok qs"
    by (rule session_on_client[OF that])
      (auto simp: closing_link live_exec session_okD[OF that] intro: in_order_exec)
  then have "session_ok (set_attempt g (Awaiting i step rest) ?qs)" for i
    using assms by (intro session_awaiting)
      (auto simp: on_client_def live_exec in_order_exec, auto simp: exec_def)
  then show ?thesis by (simp add: next_setup_def)
qed

lemma session_next_setup:
  assumes "session_ok qs" "g \<le> qc_generation (qs_client qs)"
  shows "session_ok (next_setup g steps qs)"
proof (cases steps)
  case Nil
  have "session_ok (on_client (connected h) qs)" for h
    by (rule session_on_client[OF assms(1)])
      (auto simp: closing_connected session_okD[OF assms(1)]
        intro: in_order_calls[OF connected_calls] live_connected)
  then show ?thesis using Nil assms(1) by (simp add: next_setup_def session_end_attempt)
next
  case (Cons step rest)
  then show ?thesis
    using session_next_command[of qs g step rest] assms session_okD[OF assms(1)] by auto
qed

lemma session_take_result: "session_ok qs \<Longrightarrow> session_ok (take_result number step rows qs)"
  by (cases step) (simp_all add: session_fields)

lemma take_result_client [simp]: "qs_client (take_result number step rows qs) = qs_client qs"
  by (cases step) simp_all

lemma session_take_refusal: "session_ok qs \<Longrightarrow> session_ok (take_refusal step e qs)"
  by (simp add: take_refusal_def session_fields split: setup_step.split command_failure.split)

lemma session_start: "session_ok qs \<Longrightarrow> session_ok (start_attempt qs)"
proof (cases "qc_status (qs_client qs) = Q_Disconnected")
  case True
  assume ok: "session_ok qs"
  let ?qc = "begin_connect (qs_client qs)"
  have "qc_closed (qs_client qs)" using session_okD(2)[OF ok] True by (simp add: live_def)
  then have q: "qc_closed ?qc" "qc_generation ?qc = qc_generation (qs_client qs) + 1"
    using True by (simp_all add: begin_connect_def)
  have "in_order ?qc" by (intro in_order_calls[OF calls_connection(1)] session_okD[OF ok])
  moreover have "live ?qc" by (intro live_begin session_okD[OF ok])
  moreover have "h \<le> qc_generation ?qc" if "h \<in> fst ` set (AList.update (qc_generation ?qc) Opening (qs_attempts qs))" for h
  proof -
    have "h = qc_generation ?qc \<or> h \<in> fst ` set (qs_attempts qs)"
      using that by (simp add: dom_update)
    then show ?thesis using session_okD(3)[OF ok, of h] q(2) by (elim disjE) simp_all
  qed
  ultimately show ?thesis
    using True q(1) by (simp add: start_attempt_def Let_def session_ok_def set_attempt_def on_client_def)
qed (simp add: start_attempt_def)

lemma setup_plan_not_Nil: "setup_plan opt kind notifications \<noteq> []"
  by (simp add: setup_plan_def)

lemma session_opened:
  assumes "session_ok qs"
  shows "session_ok (opened opt g notifications qs)"
proof -
  note closes = session_fail_attempt[OF session_note[OF assms, of Act_Close]]
  obtain step rest where plan: "setup_plan opt (qc_kind (qs_client qs)) notifications = step # rest"
    using setup_plan_not_Nil[of opt "qc_kind (qs_client qs)" notifications] by (cases "setup_plan opt (qc_kind (qs_client qs)) notifications") auto
  have "session_ok (next_setup g (step # rest) ((on_client (install g) qs)
      \<lparr>qs_version := [], qs_clid := 0, qs_eventsPending := b\<rparr>))"
    if "map_of (qs_attempts qs) g = Some Opening" "g = qc_generation (qs_client qs)"
      "qc_status (qs_client qs) = Q_Connecting" for b
  proof -
    have c: "qc_closed (qs_client qs)" using session_okD(4)[OF assms] that by simp
    have "in_order (install g (qs_client qs))"
      by (intro in_order_calls[OF calls_connection(2)] session_okD[OF assms])
    moreover have "live (install g (qs_client qs))" by (intro live_install session_okD[OF assms] c)
    moreover have "qc_generation (install g (qs_client qs)) = qc_generation (qs_client qs)"
      by (simp add: install_def)
    ultimately show ?thesis
      using that(2) session_okD(3)[OF assms] by (intro session_next_command) (auto simp: on_client_def)
  qed
  then show ?thesis using assms closes by (auto simp: opened_def Let_def plan)
qed

lemma session_open_failed: "session_ok qs \<Longrightarrow> session_ok (open_failed g e qs)"
  by (simp add: open_failed_def session_fail_attempt)

lemma session_continue:
  assumes "session_ok qs"
  shows "session_ok (continue_attempt number g qs)"
proof (cases "map_of (qs_attempts qs) g")
  case (Some phase)
  have "g \<in> fst ` set (qs_attempts qs)" using map_of_SomeD[OF Some] by force
  then have g: "g \<le> qc_generation (qs_client qs)" by (rule session_okD(3)[OF assms])
  have "session_ok (next_setup g steps qs)" for steps by (rule session_next_setup[OF assms g])
  moreover have "session_ok (next_setup g steps (take_result number step rows qs))" for steps step rows
    using g by (intro session_next_setup session_take_result assms) simp
  moreover have "session_ok (fail_attempt g e (take_refusal step e qs))" for e step
    by (intro session_fail_attempt session_take_refusal assms)
  ultimately show ?thesis
    using assms Some
    by (auto simp: continue_attempt_def split: option.split attempt_phase.split sum.split)
qed (simp add: continue_attempt_def assms)

lemma session_ok_step: "session_ok qs \<Longrightarrow> session_ok (session_step number opt ev qs)"
proof (cases ev)
  case (Se_Client e)
  assume ok: "session_ok qs"
  have "session_ok (on_client (query_step number e) qs)" if "\<not> by_attempt e"
    by (intro session_on_client[OF ok] in_order_step live_client_step closing_client_step session_okD[OF ok] that)
  then show ?thesis using Se_Client ok by simp
qed (simp_all add: session_start session_opened session_open_failed session_continue)

lemma session_ok_new: "session_ok (new_session kind)"
  using in_order_new[of kind]
  by (simp add: session_ok_def new_session_def live_def run_live_def decided_def new_query_client_def)

lemma session_runs: "session_ok (fold (session_step number opt) evs (new_session kind))"
  by (rule fold_keeps[where P = session_ok]) (simp_all add: session_ok_step session_ok_new)

text \<open>No command hangs: when its time is up, it ends.\<close>

lemma timeout_ends:
  assumes "live qc" "qc_run qc = Some r"
  shows "qc_run (finish_run (timeout qc)) = None \<and> ru_id r \<in> set (settled_ids (finish_run (timeout qc)))"
proof -
  obtain r' outcome where r': "qc_run (timeout qc) = Some r'" "ru_id r' = ru_id r" "ru_outcome r' = Some outcome"
    using assms
    by (cases "ru_outcome r"; cases "ru_gave_up r")
      (auto simp: timeout_def abort_run_def settle_run_def live_def run_live_def)
  then show ?thesis by (simp add: finish_run_def)
qed

section \<open>Attempts that meet\<close>

lemma failed_connecting:
  assumes "live qc" "qc_status qc \<noteq> Q_Connected"
  shows "qc_status (query_failConnection e qc) = Q_Disconnected" "qc_closed (query_failConnection e qc)"
    "\<not> qc_transport (query_failConnection e qc)"
    "qc_generation (query_failConnection e qc) = qc_generation qc"
  using assms(2) fail_live[OF assms(1), of "qc\<lparr>qc_status := Q_Disconnected, qc_closed := True\<rparr>" e]
  by (simp_all add: query_failConnection_def Let_def)

text \<open>
  An attempt that was given up on ends the one that came after it: when its transport opens, or
  fails to, while the newer attempt is still connecting, the client is disconnected, and the newer
  attempt's own transport is refused when it opens.
\<close>

lemma stale_attempt_kills:
  assumes "session_ok qs" "map_of (qs_attempts qs) old = Some Opening"
    "old \<noteq> qc_generation (qs_client qs)" "qc_status (qs_client qs) = Q_Connecting"
    and "qs' = opened opt old notifications qs \<or> qs' = open_failed old reason qs"
  shows "qc_status (qs_client qs') = Q_Disconnected" "\<not> qc_transport (qs_client qs')"
    and "map_of (qs_attempts qs') (qc_generation (qs_client qs)) = map_of (qs_attempts qs) (qc_generation (qs_client qs))"
    and "qc_generation (qs_client qs') = qc_generation (qs_client qs)"
proof -
  note l = session_okD(2)[OF assms(1)]
  have "map_of (filter (\<lambda>a. fst a \<noteq> old) xs) h = map_of xs h"
    if "h \<noteq> old" for xs :: "(nat \<times> attempt_phase) list" and h
    using that by (induction xs) auto
  then have f: "qs_client (fail_attempt old e q) = query_failConnection e (qs_client q)"
    "map_of (qs_attempts (fail_attempt old e q)) (qc_generation (qs_client qs)) = map_of (qs_attempts q) (qc_generation (qs_client qs))" for e q
    using assms(3) by (simp_all add: fail_attempt_def end_attempt_def on_client_def)
  have "qs' = fail_attempt old (Not_Connected None) (on_client (note_act Act_Close) qs)
      \<or> qs' = fail_attempt old (Connect_Failure reason) qs"
    using assms(2,3,5) by (auto simp: opened_def open_failed_def)
  then show "qc_status (qs_client qs') = Q_Disconnected" "\<not> qc_transport (qs_client qs')"
    "map_of (qs_attempts qs') (qc_generation (qs_client qs)) = map_of (qs_attempts qs) (qc_generation (qs_client qs))"
    "qc_generation (qs_client qs') = qc_generation (qs_client qs)"
    using assms(4) failed_connecting[OF l] failed_connecting[OF live_note[OF l]]
    by (auto simp: f on_client_def)
qed

lemma stale_attempt_refuses:
  assumes "map_of (qs_attempts qs) g = Some Opening" "qc_status (qs_client qs) = Q_Disconnected"
  shows "last (qs_results (opened opt g notifications qs)) = (g, Inl (Not_Connected None))"
  using assms by (simp add: opened_def fail_attempt_def end_attempt_def)

text \<open>
  The listing that ends the setup may fail without failing the attempt. When it fails because the
  connection closed, the client ends up connected with no connection.
\<close>

lemma settled_with_snoc:
  "settled_with (acts @ [Act_Settle i ans]) i = (case settled_with acts i of Some a \<Rightarrow> Some a | None \<Rightarrow> Some ans)"
  by (induction acts i rule: settled_with.induct) auto

lemma settled_with_None: "i \<notin> set (concat (map settled_by acts)) \<Longrightarrow> settled_with acts i = None"
  by (induction acts i rule: settled_with.induct) auto

lemma connected_on_nothing:
  assumes "session_ok qs" "map_of (qs_attempts qs) g = Some (Awaiting i Set_List [])"
    "g = qc_generation (qs_client qs)" "qc_status (qs_client qs) = Q_Connecting"
    "qc_run (qs_client qs) = Some r" "ru_id r = i" "ru_outcome r = None" "ru_gave_up r = None"
    "\<not> qc_down (qs_client qs)"
    and qs': "qs' = continue_attempt number g (on_client finish_run (on_client (query_handleClose error) qs))"
  shows "qc_status (qs_client qs') = Q_Connected" "\<not> qc_transport (qs_client qs')" "qc_closed (qs_client qs')"
    "last (qs_results qs') = (g, Inr ())"
    "qc_log (qs_client qs') = qc_log (qs_client qs) @ [Act_Settle i (Inl (Not_Connected None)), Act_Connected]"
proof -
  let ?qc = "qs_client qs"
  let ?down = "?qc\<lparr>qc_transport := False, qc_closed := True\<rparr>"
  let ?failed = "fail (Not_Connected error) ?down"
  note l = session_okD(2)[OF assms(1)]
  note f = fail_live[OF l, of ?down "Not_Connected error"]
  have run: "qc_run ?failed = Some (r\<lparr>ru_gave_up := Some (Not_Connected None), ru_outcome := Some (Inl (Not_Connected None))\<rparr>)"
    by (rule fail_run) (use assms(5-9) in simp_all)
  have pend: "qc_pending ?failed = None"
    by (rule fail_run) (use assms(5-9) in simp_all)
  let ?fin = "finish_run (query_handleClose error ?qc)"
  have fields: "qc_status ?fin = Q_Disconnected" "\<not> qc_transport ?fin" "qc_closed ?fin"
    "qc_generation ?fin = qc_generation ?qc"
    "qc_log ?fin = qc_log ?qc @ [Act_Settle i (Inl (Not_Connected None))]"
    using f run pend assms(4,6)
    by (simp_all add: query_handleClose_def finish_run_def let_go_def run_result_def Let_def)
  have "i \<notin> set (settled_ids ?qc)"
    using running_not_settled[OF session_okD(1)[OF assms(1)] assms(5)] assms(6) by simp
  then have "settled_with (qc_log ?fin) i = Some (Inl (Not_Connected None))"
    by (simp add: fields settled_with_snoc settled_with_None settled_ids_def)
  then have "qs' = end_attempt g (Inr ()) (on_client (connected g) (on_client finish_run (on_client (query_handleClose error) qs)))"
    using assms(2,3) fields(4) by (simp add: qs' continue_attempt_def next_setup_def on_client_def)
  then show "qc_status (qs_client qs') = Q_Connected" "\<not> qc_transport (qs_client qs')" "qc_closed (qs_client qs')"
    "last (qs_results qs') = (g, Inr ())"
    "qc_log (qs_client qs') = qc_log ?qc @ [Act_Settle i (Inl (Not_Connected None)), Act_Connected]"
    using fields assms(3) by (simp_all add: end_attempt_def on_client_def connected_def)
qed

end
