(* ===== verification/Query_Samples.thy ===== *)
theory Query_Samples
  imports Query_Session
begin

text \<open>
  Concrete conversations of the query client, for the instances of its properties: lines the server
  sends and what the parser makes of them, and the runs they appear in.
\<close>

section \<open>Lines\<close>

lemmas codec_eval = parseCommand_def skip_unprintable_def is_printable_def isCommandName_def
  is_alnum_def is_digit_def parse_params_def parse_part_def

lemma sample_lines:
  "parseCommand ''whoami'' = Some \<lparr>cmd_name = ''whoami'', cmd_params = Map.empty\<rparr>"
  "parseCommand ''clientlist'' = Some \<lparr>cmd_name = ''clientlist'', cmd_params = Map.empty\<rparr>"
  "parseCommand ''channelcreate channel_name=a'' =
     Some \<lparr>cmd_name = ''channelcreate'', cmd_params = [''channel_name'' \<mapsto> ''a'']\<rparr>"
  "parseCommand ''client_id=3'' = Some \<lparr>cmd_name = [], cmd_params = [''client_id'' \<mapsto> ''3'']\<rparr>"
  "parseCommand ''cid=7'' = Some \<lparr>cmd_name = [], cmd_params = [''cid'' \<mapsto> ''7'']\<rparr>"
  "parseCommand ''error id=0 msg=ok'' =
     Some \<lparr>cmd_name = ''error'', cmd_params = [''id'' \<mapsto> ''0'', ''msg'' \<mapsto> ''ok'']\<rparr>"
  by (simp_all add: codec_eval)

lemma sample_names:
  "command_name ''whoami'' = ''whoami''" "command_name ''clientlist'' = ''clientlist''"
  "command_name ''channelcreate channel_name=a'' = ''channelcreate''"
  by (simp_all add: command_name_def sample_lines)

lemma sample_ok: "parseServerError [''id'' \<mapsto> ''0'', ''msg'' \<mapsto> ''ok''] = (None, None)"
  by (simp add: parseServerError_def parseErrorCode_def parseUint32_def is_digit_def nat_of_digits_def
      digit_val_def
      ErrorCode_OK_def ErrorCode_Undefined_def)

lemma sample_splits:
  "splitRows ''client_id=3'' = [''client_id=3'']" "splitRows ''cid=7'' = [''cid=7'']"
  "trim_cr ''client_id=3'' = ''client_id=3''" "trim_cr ''cid=7'' = ''cid=7''"
  "trim_cr ''error id=0 msg=ok'' = ''error id=0 msg=ok''"
  by (simp_all add: splitRows_def trim_cr_def is_alnum_def is_digit_def)

lemma sample_late:
  "lateRowsOf ''whoami'' = Some \<lparr>la_keys = [], la_several = False, la_any = True\<rparr>"
  "lateRowsOf ''clientlist'' = Some \<lparr>la_keys = [], la_several = False, la_any = True\<rparr>"
  "lateRowsOf ''channelcreate'' = Some (keyed ''cid'')"
  by (simp_all add: lateRowsOf_def LATE_ROWS_def READS_def ends_with_def)

lemma sample_row_lines:
  "is_row_line ''client_id=3''" "is_row_line ''cid=7''" "line_name ''error id=0 msg=ok'' = Some ''error''"
  by (simp_all add: is_row_line_def line_name_def sample_splits sample_lines is_notification_def)

lemma sample_rows:
  "rows_of ''client_id=3'' = [[''client_id'' \<mapsto> ''3'']]" "rows_of ''cid=7'' = [[''cid'' \<mapsto> ''7'']]"
  by (simp_all add: rows_of_def sample_splits sample_lines List.map_filter_simps)

lemmas query_eval =
  exec_def execNow_def execOnce_def settle_run_def abort_run_def timeout_def cancel_def is_sending_def
  set_sending_def send_ok_def nudge_def let_go_def run_result_def finish_run_def finish_held_def
  held_timer_def handle_error_def push_row_def answer_row_def handleLine_def own_keys_def hasLateRow_def
  note_act_def transferRefusal_def not_stray_def written_now_def running_ids_def add_answer_def is_notification_def Let_def
  sample_lines sample_names sample_ok sample_splits sample_late sample_row_lines sample_rows

section \<open>A command that timed out\<close>

text \<open>The answer of the first command arrives after it gave up, and before the second's.\<close>

definition late_answer :: "wire_event list" where
  "late_answer =
     [W_Client (Ev_Exec ''clientlist''), W_Client (Ev_Exec ''whoami''), W_Client Ev_Turn,
      W_Client (Ev_Send_Ok 0), W_Client Ev_Timeout, W_Client Ev_Finish, W_Client Ev_Turn,
      W_Client (Ev_Send_Ok 1), W_Row ''cid=7'', W_End ''error id=0 msg=ok'', W_Row ''client_id=3'',
      W_End ''error id=0 msg=ok'', W_Client Ev_Finish]"

lemma late_answer_run:
  "\<exists>qc sv. wire_steps (\<lambda>_. None) late_answer (query_connected Ssh, no_debts) = Some (qc, sv)
     \<and> Act_Settle 1 (Inr [[''client_id'' \<mapsto> ''3'']]) \<in> set (qc_log qc)"
  by (simp add: late_answer_def query_connected_def begin_connect_def install_def connected_def
      new_query_client_def no_debts_def query_eval)

section \<open>A create that was cancelled\<close>

text \<open>The client with the \<^verbatim>\<open>error\<close> line of a create read and its row still to come.\<close>

definition held_create :: query_client where
  "held_create =
     fold (query_step (\<lambda>_. None))
       [Ev_Exec ''channelcreate channel_name=a'', Ev_Turn, Ev_Send_Ok 0, Ev_Line ''error id=0 msg=ok'']
       (query_connected Ssh)"

lemma held_create_state:
  "\<exists>p h r. qc_pending held_create = Some p \<and> pe_held p = Some h \<and> la_keys (he_late h) = [''cid'']
     \<and> \<not> la_any (he_late h) \<and> pe_rows p = [] \<and> qc_run held_create = Some r \<and> ru_id r = pe_id p
     \<and> ru_outcome r = None \<and> ru_gave_up r = None"
  "qc_strayKey held_create = None" "qc_abandoned held_create = 0" "qc_waiting held_create = []"
  "qc_transport held_create" "\<not> qc_closed held_create" "\<not> qc_down held_create"
  by (simp_all add: held_create_def query_connected_def begin_connect_def install_def connected_def
      new_query_client_def keyed_def query_eval)

section \<open>Two attempts at once, and one that loses its connection\<close>

definition two_attempts :: query_session where
  "two_attempts =
     fold (session_step (\<lambda>_. None) \<lparr>qo_login = None, qo_server = None, qo_nickname = None, qo_events = []\<rparr>)
       [Se_Connect, Se_Client Ev_Disconnect, Se_Connect] (new_session Tcp)"

lemma two_attempts_state:
  "session_ok two_attempts" "map_of (qs_attempts two_attempts) 1 = Some Opening"
  "map_of (qs_attempts two_attempts) 3 = Some Opening"
  "qc_generation (qs_client two_attempts) = 3" "qc_status (qs_client two_attempts) = Q_Connecting"
proof -
  show "session_ok two_attempts" unfolding two_attempts_def by (rule session_runs)
qed (simp_all add: two_attempts_def new_session_def start_attempt_def begin_connect_def set_attempt_def
    on_client_def query_disconnect_def fail_def new_query_client_def query_eval)

definition event_options :: query_options where
  "event_options = \<lparr>qo_login = None, qo_server = Some (By_Id ''1''), qo_nickname = None, qo_events = [''server'']\<rparr>"

definition listing_session :: query_session where
  "listing_session =
     fold (session_step (\<lambda>_. None) event_options)
       [Se_Connect, Se_Opened 1 True,
        Se_Client Ev_Turn, Se_Client (Ev_Line ''error id=0 msg=ok''), Se_Client Ev_Finish, Se_Continue 1,
        Se_Client Ev_Turn, Se_Client (Ev_Line ''error id=0 msg=ok''), Se_Client Ev_Held_Timer, Se_Client Ev_Finish, Se_Continue 1,
        Se_Client Ev_Turn, Se_Client (Ev_Line ''error id=0 msg=ok''), Se_Client Ev_Held_Timer, Se_Client Ev_Finish, Se_Continue 1,
        Se_Client Ev_Turn, Se_Client (Ev_Line ''error id=0 msg=ok''), Se_Client Ev_Finish, Se_Continue 1,
        Se_Client Ev_Turn]
       (new_session Tcp)"

lemma setup_names:
  "command_name (buildCommandOrdered ''use'' [(''sid'', ''1'')]) = ''use''"
  "command_name ''version'' = ''version''"
  "command_name (buildCommandOrdered ''servernotifyregister'' [(''event'', ''server'')]) = ''servernotifyregister''"
  "command_name ''clientlist -uid -groups -away -voice'' = ''clientlist''"
proof -
  show "command_name (buildCommandOrdered ''use'' [(''sid'', ''1'')]) = ''use''"
    "command_name (buildCommandOrdered ''servernotifyregister'' [(''event'', ''server'')]) = ''servernotifyregister''"
    by (subst command_name_def, subst parse_buildCommandOrdered; simp add: isCommandName_def is_alnum_def is_digit_def)+
  show "command_name ''version'' = ''version''"
    "command_name ''clientlist -uid -groups -away -voice'' = ''clientlist''"
    by (simp_all add: command_name_def codec_eval)
qed

lemma setup_late:
  "lateRowsOf ''version'' = Some \<lparr>la_keys = [], la_several = False, la_any = True\<rparr>"
  "lateRowsOf ''use'' = None" "lateRowsOf ''servernotifyregister'' = None"
  by (simp_all add: lateRowsOf_def LATE_ROWS_def READS_def ends_with_def)

lemma listing_session_state:
  "session_ok listing_session" "map_of (qs_attempts listing_session) 1 = Some (Awaiting 4 Set_List [])"
  "qc_generation (qs_client listing_session) = 1" "qc_status (qs_client listing_session) = Q_Connecting"
  "\<exists>r. qc_run (qs_client listing_session) = Some r \<and> ru_id r = 4 \<and> ru_outcome r = None \<and> ru_gave_up r = None"
  "\<not> qc_down (qs_client listing_session)"
proof -
  show "session_ok listing_session" unfolding listing_session_def by (rule session_runs)
qed (simp_all add: listing_session_def event_options_def new_session_def start_attempt_def begin_connect_def set_attempt_def
    on_client_def opened_def install_def setup_plan_def registerEvents_def next_setup_def continue_attempt_def
    first_value_def learn_self_def new_query_client_def setup_names setup_late query_eval)

end
