(* ===== verification/Session_Samples.thy ===== *)
theory Session_Samples
  imports Session_Facts Query_Samples
begin

text \<open>
  One run of the voice client, for the instances of its properties: a connect by hand, the keys,
  the lines that begin the session and end its welcome, and a change of the server that arrives
  later, each with the fields of the session it leaves. Event middleware is configured, and throws
  in the last step.
\<close>

section \<open>Up to the keys\<close>

definition sample_options :: session_options where
  "sample_options = \<lparr>so_reconnect = None, so_random = 0, so_middleware = True, so_catch_all = False\<rparr>"

definition connecting_session :: session where
  "connecting_session = connect_with False connect_by_hand (new_voice_session ''me'')"

definition keyed_session :: session where
  "keyed_session = connecting_session\<lparr>sn_keys := True\<rparr>"

lemma rows_plain:
  "parse_row ''initserver aclid=5'' = Some (''initserver'', [(''aclid'', ''5'')])"
  "parse_row ''channellistfinished'' = Some (''channellistfinished'', [])"
  "parse_row ''notifyserverupdated virtualserver_name=x'' =
     Some (''notifyserverupdated'', [(''virtualserver_name'', ''x'')])"
  "parse_row ''initivexpand2 root=a'' = Some (''initivexpand2'', [(''root'', ''a'')])"
  "parse_row ''notifycliententerview clid=7'' = Some (''notifycliententerview'', [(''clid'', ''7'')])"
  by (simp_all add: parse_row_def codec_eval parse_entries_def)

lemmas session_eval = connecting_session_def keyed_session_def connect_with_def sn_status_def
  new_voice_session_def new_client_def connect_by_hand_def begin_attempt_def with_loop_def Let_def
  announcements_def begin_session_def with_view_def reset_view_def new_store_def bump_def put_tree_def
  roster_clear_def new_tracker_def reset_tracker_def scheduleDrain_def

lemma keyed_fields:
  "sn_loop keyed_session = new_client\<lparr>cl_status := Connecting\<rparr>" "sn_keys keyed_session"
  "sn_queue keyed_session = []" "\<not> sn_draining keyed_session" "sn_delivered keyed_session = []"
  "vs_status (sn_view keyed_session) = Loading" "vs_revision (sn_view keyed_session) = 1"
  "vs_announced (sn_view keyed_session) = 0" "vs_roster (sn_view keyed_session) = []"
  "vs_calls (sn_view keyed_session) = 0" "sn_group_line keyed_session = None"
  "sn_track keyed_session = new_tracker"
  "vs_rows (sn_view keyed_session) = []" "vs_waiters (sn_view keyed_session) = []"
  "vs_server (sn_view keyed_session) = Map.empty" "sn_sessions keyed_session = 0"
  "sn_trace keyed_session = Some \<lparr>tr_reconnect = False, tr_started = False, tr_welcomed = False, tr_channels = 0\<rparr>"
  "sn_goodbye keyed_session = None" "sn_clid keyed_session = 0"
  by (simp_all add: session_eval)

section \<open>The server's lines\<close>

lemma receive_line:
  assumes "packet_lines t = [t]" "strip_cr t = t" "t \<noteq> []" "splitCommandRows t = [t]"
    "parse_row t = Some cmd" "handle_row op cmd s = (s', None)" "sn_group_line s' = None"
  shows "receive_text op t s = s'"
  using assms by (simp add: receive_text_def handleCommandLines_def handleCommandStr_def applyGroupLine_def)

lemma plain_lines:
  "packet_lines ''initserver aclid=5'' = [''initserver aclid=5'']"
  "packet_lines ''channellistfinished'' = [''channellistfinished'']"
  "packet_lines ''notifyserverupdated virtualserver_name=x'' = [''notifyserverupdated virtualserver_name=x'']"
  "packet_lines ''notifycliententerview clid=7'' = [''notifycliententerview clid=7'']"
  "packet_lines ''initivexpand2 root=a'' = [''initivexpand2 root=a'']"
  "splitCommandRows ''initserver aclid=5'' = [''initserver aclid=5'']"
  "splitCommandRows ''channellistfinished'' = [''channellistfinished'']"
  "splitCommandRows ''notifyserverupdated virtualserver_name=x'' = [''notifyserverupdated virtualserver_name=x'']"
  "splitCommandRows ''notifycliententerview clid=7'' = [''notifycliententerview clid=7'']"
  "splitCommandRows ''initivexpand2 root=a'' = [''initivexpand2 root=a'']"
  by (simp_all add: packet_lines_def splitCommandRows_def line_head_def codec_eval)

lemma plain_ends:
  "strip_cr ''initserver aclid=5'' = ''initserver aclid=5''"
  "strip_cr ''channellistfinished'' = ''channellistfinished''"
  "strip_cr ''notifyserverupdated virtualserver_name=x'' = ''notifyserverupdated virtualserver_name=x''"
  "strip_cr ''notifycliententerview clid=7'' = ''notifycliententerview clid=7''"
  "strip_cr ''initivexpand2 root=a'' = ''initivexpand2 root=a''"
  by (simp_all add: strip_cr_def)

section \<open>A session\<close>

lemma enqueue_line: "sn_group_line (enqueue d s) = sn_group_line s"
  by (simp add: enqueue_def scheduleDrain_def)

definition up_session :: session where
  "up_session = receive_text sample_options ''initserver aclid=5'' keyed_session"

definition live_session :: session where
  "live_session = receive_text sample_options ''channellistfinished'' up_session"

definition quiet_session :: session where
  "quiet_session = drain_deliveries (\<lambda>_. False) live_session"

definition edited_session :: session where
  "edited_session = receive_text sample_options ''notifyserverupdated virtualserver_name=x'' quiet_session"

definition thrown_session :: session where
  "thrown_session = drain_deliveries (\<lambda>_. True) edited_session"

lemma sample_id: "announced_id [''aclid'' \<mapsto> ''5''] = Some 5"
proof -
  have "string_of_nat 5 = ''5''" by code_simp
  then show ?thesis using js_Number_of_nat[of 5] by (simp add: announced_id_def)
qed

lemma up_any:
  "receive_text op ''initserver aclid=5'' keyed_session = enqueue (D_Connected False)
     (keyed_session\<lparr>sn_clid := 5, sn_sessions := 1,
        sn_trace := Some \<lparr>tr_reconnect = False, tr_started = True, tr_welcomed = False, tr_channels = 0\<rparr>,
        sn_loop := new_client\<lparr>cl_status := Connected\<rparr>\<rparr>)"
proof -
  have "handle_row op (''initserver'', [(''aclid'', ''5'')]) keyed_session = (enqueue (D_Connected False)
     (keyed_session\<lparr>sn_clid := 5, sn_sessions := 1,
        sn_trace := Some \<lparr>tr_reconnect = False, tr_started = True, tr_welcomed = False, tr_channels = 0\<rparr>,
        sn_loop := new_client\<lparr>cl_status := Connected\<rparr>\<rparr>), None)" for op
    by (simp add: handle_row_def handle_initserver_def sn_status_def keyed_fields sample_id merge_entries_def patchServer_def serverEntries_def session_connected_def with_view_def with_loop_def markConnected_def settle_attempt_def new_client_def announcements_def accepting_def goodbye_answered_def Let_def)

  from receive_line[OF plain_lines(1) plain_ends(1) _ plain_lines(6) rows_plain(1) this] show ?thesis
    by (simp add: keyed_fields enqueue_def scheduleDrain_def)
qed

lemmas up_eq = up_any[of sample_options, folded up_session_def]

lemma up_fields:
  "sn_loop up_session = new_client\<lparr>cl_status := Connected\<rparr>" "sn_view up_session = sn_view keyed_session"
  "sn_queue up_session = [D_Connected False]" "sn_draining up_session" "sn_delivered up_session = []"
  "sn_keys up_session" "sn_group_line up_session = None" "sn_clid up_session = 5"
  "sn_track up_session = new_tracker" "sn_trace up_session = Some \<lparr>tr_reconnect = False, tr_started = True, tr_welcomed = False, tr_channels = 0\<rparr>"
  "sn_goodbye up_session = None" "sn_status up_session = Connected"
  by (simp_all add: up_eq keyed_fields enqueue_def scheduleDrain_def) (simp_all add: session_eval)

definition welcomed :: session where
  "welcomed = (enqueue (D_ViewReady 2) (with_view (\<lambda>v. snd (finish_welcome v)) up_session))
     \<lparr>sn_track := signalWelcomeComplete new_tracker,
       sn_trace := Some \<lparr>tr_reconnect = False, tr_started = True, tr_welcomed = True, tr_channels = 0\<rparr>\<rparr>"

lemma live_any: "receive_text op ''channellistfinished'' up_session = welcomed"
proof -
  have r: "fst (finish_welcome (sn_view keyed_session)) = Some 2"
    by (simp add: finish_welcome_def Let_def keyed_fields bump_def put_tree_def settle_waiters_def)
  have "handle_row op (''channellistfinished'', []) up_session = (welcomed, None)" for op
    by (simp add: handle_row_def welcome_finished_def markWelcomeDone_def sn_status_def Let_def up_fields r welcomed_def)
  from receive_line[OF plain_lines(2) plain_ends(2) _ plain_lines(7) rows_plain(2) this] show ?thesis
    by (simp add: up_fields welcomed_def group_line_kept enqueue_line)
qed

lemmas live_eq = live_any[of sample_options, folded live_session_def]

lemma live_fields:
  "sn_loop live_session = new_client\<lparr>cl_status := Connected\<rparr>" "sn_group_line live_session = None"
  "vs_status (sn_view live_session) = Live" "vs_revision (sn_view live_session) = 2"
  "vs_announced (sn_view live_session) = 2" "vs_roster (sn_view live_session) = []"
  "vs_server (sn_view live_session) = Map.empty" "sn_queue live_session = [D_Connected False, D_ViewReady 2]"
  "sn_draining live_session" "sn_delivered live_session = []" "sn_keys live_session"
  "sn_goodbye live_session = None" "sn_track live_session = signalWelcomeComplete new_tracker"
  "vs_calls (sn_view live_session) = 1"
  by (simp_all add: live_eq welcomed_def up_fields enqueue_def scheduleDrain_def)
    (simp_all add: finish_welcome_def Let_def keyed_fields up_fields bump_def put_tree_def settle_waiters_def
      with_view_def scheduleDrain_def)

lemma quiet_fields:
  "sn_loop quiet_session = new_client\<lparr>cl_status := Connected\<rparr>" "sn_group_line quiet_session = None"
  "sn_view quiet_session = sn_view live_session" "sn_queue quiet_session = []" "\<not> sn_draining quiet_session"
  "sn_delivered quiet_session = [D_Connected False, D_ViewReady 2]" "sn_keys quiet_session"
  "sn_goodbye quiet_session = None" "sn_track quiet_session = signalWelcomeComplete new_tracker"
  by (simp_all add: quiet_session_def drain_deliveries_def announce_def live_fields)

definition edited :: session where
  "edited = enqueue (D_Notification ''notifyserverupdated'' [''virtualserver_name'' \<mapsto> ''x''])
     (with_view (mergeServer [(''virtualserver_name'', ''x'')]) quiet_session)"

lemma edited_eq: "edited_session = edited"
proof -
  have n: "handleNotification store_clients \<lparr>cmd_name = ''notifyserverupdated'', cmd_params = p\<rparr> i v =
      Inr (UnknownNotification, v)" for p i v
    by (simp add: handleNotification_def Let_def)
  have e: "expects ''notifyserverupdated'' (signalWelcomeComplete new_tracker) = False"
    by (simp add: expects_def signalWelcomeComplete_def new_tracker_def)
  have w: "with_view (\<lambda>_. sn_view s) s = s" for s by (simp add: with_view_def)
  have "handle_row sample_options (''notifyserverupdated'', [(''virtualserver_name'', ''x'')]) quiet_session
      = (edited, None)"
    by (simp add: handle_row_def goodbye_answered_def quiet_fields handle_notify_def e n processNotification_def processResult_def
        sample_options_def edited_def w Let_def)
  from receive_line[OF plain_lines(3) plain_ends(3) _ plain_lines(8) rows_plain(3) this] show ?thesis
    by (simp add: edited_session_def edited_def quiet_fields group_line_kept enqueue_line)
qed

lemma edited_fields:
  "sn_loop edited_session = new_client\<lparr>cl_status := Connected\<rparr>"
  "vs_status (sn_view edited_session) = Live" "vs_revision (sn_view edited_session) = 3"
  "vs_announced (sn_view edited_session) = 2"
  "sn_queue edited_session = [D_Notification ''notifyserverupdated'' [''virtualserver_name'' \<mapsto> ''x'']]"
  "sn_draining edited_session" "sn_delivered edited_session = [D_Connected False, D_ViewReady 2]"
  by (simp_all add: edited_eq edited_def enqueue_def scheduleDrain_def quiet_fields live_fields)
    (simp_all add: mergeServer_def serverEntries_def COUNTERS_def merge_entries_def accepting_def Let_def bump_def
      live_fields quiet_fields with_view_def scheduleDrain_def)

lemma thrown_fields:
  "sn_view thrown_session = sn_view edited_session" "sn_queue thrown_session = []" "\<not> sn_draining thrown_session"
  "sn_loop thrown_session = sn_loop edited_session"
  by (simp_all add: thrown_session_def drain_deliveries_def edited_fields Let_def split: prod.split)

lemma sample_runs:
  "(voice_step sample_options)\<^sup>*\<^sup>* (new_voice_session ''me'') keyed_session"
  "(voice_step sample_options)\<^sup>*\<^sup>* (new_voice_session ''me'') live_session"
  "(voice_step sample_options)\<^sup>*\<^sup>* (new_voice_session ''me'') edited_session"
  "(voice_step sample_options)\<^sup>*\<^sup>* (new_voice_session ''me'') thrown_session"
proof -
  let ?r = "\<lambda>s. (voice_step sample_options)\<^sup>*\<^sup>* (new_voice_session ''me'') s"
  have step: "voice_step sample_options s s' \<Longrightarrow> ?r s \<Longrightarrow> ?r s'" for s s'
    by (rule rtranclp.rtrancl_into_rtrancl)
  have "?r connecting_session" unfolding connecting_session_def by (rule step[OF connects]) simp
  moreover have "sn_status connecting_session = Connecting" by (simp add: session_eval)
  ultimately show k: "?r keyed_session" unfolding keyed_session_def by (intro step[OF keys_ready])
  then have "?r up_session" unfolding up_session_def by (rule step[OF text_arrives])
  then show l: "?r live_session" unfolding live_session_def by (rule step[OF text_arrives])
  then have "?r quiet_session" unfolding quiet_session_def by (rule step[OF drained])
  then show e: "?r edited_session" unfolding edited_session_def by (rule step[OF text_arrives])
  show "?r thrown_session" unfolding thrown_session_def
    by (rule step[OF drain_cut e]) (simp add: sample_options_def)
qed

section \<open>A client without middleware\<close>

definition plain_options :: session_options where
  "plain_options = sample_options\<lparr>so_middleware := False\<rparr>"

definition updated_session :: session where
  "updated_session = receive_text plain_options ''notifyserverupdated virtualserver_name=x'' live_session"

lemma updated_eq:
  "updated_session = with_view (mergeServer [(''virtualserver_name'', ''x'')]) live_session"
proof -
  have n: "handleNotification store_clients \<lparr>cmd_name = ''notifyserverupdated'', cmd_params = p\<rparr> i v =
      Inr (UnknownNotification, v)" for p i v
    by (simp add: handleNotification_def Let_def)
  have e: "expects ''notifyserverupdated'' (signalWelcomeComplete new_tracker) = False"
    by (simp add: expects_def signalWelcomeComplete_def new_tracker_def)
  have w: "with_view (\<lambda>_. sn_view s) s = s" for s by (simp add: with_view_def)
  have "handle_row plain_options (''notifyserverupdated'', [(''virtualserver_name'', ''x'')]) live_session
      = (with_view (mergeServer [(''virtualserver_name'', ''x'')]) live_session, None)"
    by (simp add: handle_row_def goodbye_answered_def live_fields handle_notify_def e n processNotification_def
        processResult_def plain_options_def sample_options_def w Let_def)
  from receive_line[OF plain_lines(3) plain_ends(3) _ plain_lines(8) rows_plain(3) this] show ?thesis
    by (simp add: updated_session_def live_fields group_line_kept)
qed

lemma updated_fields:
  "vs_status (sn_view updated_session) = Live" "vs_revision (sn_view updated_session) = 3"
  "vs_announced (sn_view updated_session) = 2"
  by (simp_all add: updated_eq live_fields)
    (simp_all add: mergeServer_def serverEntries_def COUNTERS_def merge_entries_def accepting_def Let_def bump_def
      live_fields)

lemma plain_run: "(voice_step plain_options)\<^sup>*\<^sup>* (new_voice_session ''me'') updated_session"
proof -
  let ?r = "\<lambda>s. (voice_step plain_options)\<^sup>*\<^sup>* (new_voice_session ''me'') s"
  have step: "voice_step plain_options s s' \<Longrightarrow> ?r s \<Longrightarrow> ?r s'" for s s'
    by (rule rtranclp.rtrancl_into_rtrancl)
  have "?r connecting_session" unfolding connecting_session_def by (rule step[OF connects]) simp
  moreover have "sn_status connecting_session = Connecting" by (simp add: session_eval)
  ultimately have "?r keyed_session" unfolding keyed_session_def by (intro step[OF keys_ready])
  then have "?r (receive_text plain_options ''initserver aclid=5'' keyed_session)" by (rule step[OF text_arrives])
  then have "?r up_session" by (simp only: up_any up_eq)
  then have "?r (receive_text plain_options ''channellistfinished'' up_session)" by (rule step[OF text_arrives])
  then have "?r live_session" by (simp only: live_any live_eq)
  then show ?thesis unfolding updated_session_def by (rule step[OF text_arrives])
qed

section \<open>A refusal while the goodbye is said\<close>

definition leaving_session :: session where
  "leaving_session = session_leaves quiet_session"

definition refused_session :: session where
  "refused_session = receive_text sample_options ''error id=520 msg=no'' leaving_session"

lemma leaving_fields:
  "sn_loop leaving_session = new_client\<lparr>cl_status := Disconnected, cl_stopped := True, cl_disconnects := 1, cl_leaving := True\<rparr>"
  "sn_goodbye leaving_session = Some False" "sn_group_line leaving_session = None" "sn_keys leaving_session"
  "sn_view leaving_session = sn_view live_session" "sn_track leaving_session = signalWelcomeComplete new_tracker"
  "sn_status leaving_session = Disconnected"
  by (simp_all add: leaving_session_def session_leaves_def with_loop_def disconnect_begins_def sn_status_def
      quiet_fields announcements_def Let_def) (simp_all add: new_client_def)

lemma refusal_line:
  "packet_lines ''error id=520 msg=no'' = [''error id=520 msg=no'']"
  "strip_cr ''error id=520 msg=no'' = ''error id=520 msg=no''"
  "splitCommandRows ''error id=520 msg=no'' = [''error id=520 msg=no'']"
  "parse_row ''error id=520 msg=no'' = Some (''error'', [(''id'', ''520''), (''msg'', ''no'')])"
  by (simp_all add: packet_lines_def strip_cr_def splitCommandRows_def line_head_def parse_row_def codec_eval
      parse_entries_def)

lemma refusal_read: "\<exists>e. parseServerError [''id'' \<mapsto> ''520'', ''msg'' \<mapsto> ''no''] = (Some e, None)"
  by (simp add: parseServerError_def parseErrorCode_def parseUint32_def is_digit_def nat_of_digits_def
      digit_val_def ErrorCode_OK_def ErrorCode_Undefined_def)

lemma refused_fields:
  "\<exists>e. vs_status (sn_view refused_session) = Stale \<and> vs_endedBy (sn_view refused_session) = Some (TheError (ServerRefused e))"
  "sn_loop refused_session = sn_loop leaving_session" "sn_goodbye refused_session = Some False"
proof -
  obtain e where e: "parseServerError [''id'' \<mapsto> ''520'', ''msg'' \<mapsto> ''no''] = (Some e, None)"
    using refusal_read by blast
  let ?s = "with_view (end_view (AnError (ServerRefused e)))
      (leaving_session\<lparr>sn_track := discardBuffer (sn_track leaving_session)\<rparr>)"
  have "handle_row sample_options (''error'', [(''id'', ''520''), (''msg'', ''no'')]) leaving_session = (?s, None)"
    using e by (simp add: handle_row_def goodbye_answered_def handleError_def leaving_fields fun_upd_twist sn_status_def Let_def session_fails_def new_client_def)
  from receive_line[OF refusal_line(1,2) _ refusal_line(3,4) this] have r: "refused_session = ?s"
    by (simp add: refused_session_def leaving_fields group_line_kept)
  have "sn_goodbye (with_view f s) = sn_goodbye s" for f s by (simp add: with_view_def scheduleDrain_def Let_def)
  then show "sn_loop refused_session = sn_loop leaving_session" "sn_goodbye refused_session = Some False"
    by (simp_all add: r leaving_fields)
  show "\<exists>e. vs_status (sn_view refused_session) = Stale \<and> vs_endedBy (sn_view refused_session) = Some (TheError (ServerRefused e))"
    by (simp add: r leaving_fields end_view_def live_fields settle_waiters_def ended_with_def)
qed

lemma leaving_run: "(voice_step sample_options)\<^sup>*\<^sup>* (new_voice_session ''me'') leaving_session"
proof -
  have "(voice_step sample_options)\<^sup>*\<^sup>* (new_voice_session ''me'') quiet_session"
    using sample_runs(2) drained[of sample_options live_session, folded quiet_session_def]
    by (rule rtranclp.rtrancl_into_rtrancl)
  then show ?thesis
    unfolding leaving_session_def by (rule rtranclp.rtrancl_into_rtrancl) (rule leaves)
qed

section \<open>A group list that was left over\<close>

text \<open>
  The third row of the line has the first rows' field as its own, so it stands alone, under its own
  name; it throws while the rows of the group list wait for the end of the line.
\<close>

definition leftover_line :: string where
  "leftover_line = ''notifyservergrouplist|notifyservergrouplist sgid=6|initserver notifyservergrouplist sgid''"

lemma leftover_rows:
  "packet_lines leftover_line = [leftover_line]" "strip_cr leftover_line = leftover_line" "leftover_line \<noteq> []"
  by (simp_all add: leftover_line_def packet_lines_def strip_cr_def)

lemma leftover_tokens:
  "split_on CHR ''|'' leftover_line =
     [''notifyservergrouplist'', ''notifyservergrouplist sgid=6'', ''initserver notifyservergrouplist sgid'']"
  "filter (\<lambda>t. t \<noteq> []) (split_on CHR '' '' ''notifyservergrouplist'') = [''notifyservergrouplist'']"
  "filter (\<lambda>t. t \<noteq> []) (split_on CHR '' '' ''notifyservergrouplist sgid=6'') = [''notifyservergrouplist'', ''sgid=6'']"
  "filter (\<lambda>t. t \<noteq> []) (split_on CHR '' '' ''initserver notifyservergrouplist sgid'') =
     [''initserver'', ''notifyservergrouplist'', ''sgid'']"
  by (simp_all add: leftover_line_def)

lemma leftover_fields:
  "fieldName ''notifyservergrouplist'' = ''notifyservergrouplist''" "fieldName ''sgid=6'' = ''sgid''"
  "fieldName ''sgid'' = ''sgid''" "fieldName ''initserver'' = ''initserver''"
  by (simp_all add: fieldName_def Let_def)

lemma leftover_resolved:
  "resolveRow [] [''notifyservergrouplist''] = [''notifyservergrouplist'']"
  "resolveRow [''notifyservergrouplist''] [''notifyservergrouplist'', ''sgid=6''] = [''notifyservergrouplist'', ''sgid=6'']"
  "resolveRow [''notifyservergrouplist'', ''sgid=6''] [''initserver'', ''notifyservergrouplist'', ''sgid''] =
     [''initserver'', ''notifyservergrouplist'', ''sgid'']"
  "lastPerField [''notifyservergrouplist''] = [''notifyservergrouplist'']"
  "lastPerField [''notifyservergrouplist'', ''sgid=6''] = [''notifyservergrouplist'', ''sgid=6'']"
  by (simp_all add: resolveRow_def lastPerField_def leftover_fields)

lemma leftover_added:
  "add_row [] (5632, 5632) ''notifyservergrouplist'' init_split =
     Some \<lparr>sp_rows = [''notifyservergrouplist''], sp_used = 21, sp_previous = [''notifyservergrouplist''], sp_inheriting = True\<rparr>"
  "add_row [] (5632, 5632) ''notifyservergrouplist sgid=6''
       \<lparr>sp_rows = rs, sp_used = 21, sp_previous = [''notifyservergrouplist''], sp_inheriting = True\<rparr> =
     Some \<lparr>sp_rows = rs @ [''notifyservergrouplist sgid=6''], sp_used = 49,
       sp_previous = [''notifyservergrouplist'', ''sgid=6''], sp_inheriting = True\<rparr>"
  "\<exists>st. add_row [] (5632, 5632) ''initserver notifyservergrouplist sgid''
       \<lparr>sp_rows = rs, sp_used = 49, sp_previous = [''notifyservergrouplist'', ''sgid=6''], sp_inheriting = True\<rparr> = Some st \<and>
     sp_rows st = rs @ [''initserver notifyservergrouplist sgid'']"
  by (simp_all only: add_row_def leftover_tokens Let_def init_split_def)
    (simp_all add: leftover_resolved)

lemma leftover_split:
  "splitCommandRows leftover_line =
     [''notifyservergrouplist'', ''notifyservergrouplist sgid=6'', ''initserver notifyservergrouplist sgid'']"
proof -
  have l: "rowLimits (length leftover_line) = (5632, 5632)"
    by (simp add: rowLimits_def leftover_line_def MIN_ROW_BUDGET_def ROW_GROWTH_def MAX_ROW_AMPLIFICATION_def Let_def)
  have h: "line_head leftover_line = ([], leftover_line)"
    by (simp add: line_head_def leftover_line_def isCommandName_def is_alnum_def is_digit_def Let_def)
  have b: "CHR ''|'' \<in> set leftover_line" by (simp add: leftover_line_def)
  note a = leftover_added
  from a(3) obtain st where st: "add_row [] (5632, 5632) ''initserver notifyservergrouplist sgid''
       \<lparr>sp_rows = [''notifyservergrouplist'', ''notifyservergrouplist sgid=6''], sp_used = 49,
         sp_previous = [''notifyservergrouplist'', ''sgid=6''], sp_inheriting = True\<rparr> = Some st"
    "sp_rows st = [''notifyservergrouplist'', ''notifyservergrouplist sgid=6''] @ [''initserver notifyservergrouplist sgid'']"
    by blast
  show ?thesis
    using b by (simp add: splitCommandRows_def h l leftover_tokens(1) a(1,2) st Let_def)
qed

lemma leftover_parse:
  "parse_row ''notifyservergrouplist'' = Some (''notifyservergrouplist'', [])"
  "parse_row ''notifyservergrouplist sgid=6'' = Some (''notifyservergrouplist'', [(''sgid'', ''6'')])"
  "parse_row ''initserver notifyservergrouplist sgid'' =
     Some (''initserver'', [(''notifyservergrouplist'', []), (''sgid'', [])])"
  by (simp_all add: parse_row_def codec_eval parse_entries_def)

definition left_over :: session where
  "left_over = keyed_session\<lparr>sn_group_line := Some (''notifyservergrouplist'', [Map.empty, [''sgid'' \<mapsto> ''6'']])\<rparr>"

definition failed_session :: session where
  "failed_session = receive_text plain_options leftover_line keyed_session"

definition again_session :: session where
  "again_session = connect_with False connect_by_hand failed_session"

lemma group_row_held:
  assumes "ct_pending (sn_track s) = []" "sn_keys s" "sn_group_line s = None \<or> (\<exists>rs. sn_group_line s = Some (''notifyservergrouplist'', rs))"
  shows "handle_row plain_options (''notifyservergrouplist'', entries) s =
    (s\<lparr>sn_group_line := Some (''notifyservergrouplist'',
        (case sn_group_line s of None \<Rightarrow> [] | Some (n, rs) \<Rightarrow> rs) @ [map_of entries])\<rparr>, None)"
  using assms
  by (auto simp: handle_row_def goodbye_answered_def handle_notify_def expects_def add_group_row_def applyGroupLine_def
      handleNotification_def processNotification_def processResult_def plain_options_def sample_options_def
      with_view_def Let_def)

lemma failed_group_line:
  "sn_group_line failed_session = sn_group_line left_over" "sn_status failed_session = Disconnected"
  "cl_leaving (sn_loop failed_session) = False"
proof -
  let ?e = "[(''notifyservergrouplist'', []), (''sgid'', [])]"
  let ?s = "with_view (patchServer ?e) left_over"
  have "handle_row plain_options (''notifyservergrouplist'', []) keyed_session =
      (keyed_session\<lparr>sn_group_line := Some (''notifyservergrouplist'', [Map.empty])\<rparr>, None)"
    using group_row_held[of keyed_session "[]"] by (simp add: keyed_fields new_tracker_def)
  moreover have "handle_row plain_options (''notifyservergrouplist'', [(''sgid'', ''6'')])
      (keyed_session\<lparr>sn_group_line := Some (''notifyservergrouplist'', [Map.empty])\<rparr>) = (left_over, None)"
    by (subst group_row_held) (simp_all add: keyed_fields new_tracker_def left_over_def)
  moreover have "handle_row plain_options (''initserver'', ?e) left_over = (?s, Some no_id_error)"
    by (simp add: handle_row_def goodbye_answered_def handle_initserver_def left_over_def sn_status_def keyed_fields
        announced_id_def Let_def)
  ultimately have "handleCommandLines plain_options leftover_line keyed_session = (?s, Some no_id_error)"
    by (simp add: handleCommandLines_def leftover_rows leftover_split handleCommandStr_def leftover_parse)
  moreover have st: "sn_status ?s = Connecting" "sn_loop ?s = new_client\<lparr>cl_status := Connecting\<rparr>"
    by (simp_all add: left_over_def keyed_fields sn_status_def)
  ultimately have f: "failed_session = session_fails plain_options no_id_error ?s"
    by (simp add: failed_session_def receive_text_def)
  show "sn_group_line failed_session = sn_group_line left_over"
    by (simp add: f fails_group_line group_line_kept)
  have l: "sn_loop failed_session = failConnection None no_id_error (new_client\<lparr>cl_status := Connecting\<rparr>)"
    using st by (simp add: f session_fails_def sn_status_def plain_options_def sample_options_def)
  show "sn_status failed_session = Disconnected" "cl_leaving (sn_loop failed_session) = False"
    by (simp_all add: sn_status_def l failConnection_def new_client_def settle_attempt_def tell_def)
qed

lemma leftover_moves:
  "(voice_step plain_options)\<^sup>*\<^sup>* (new_voice_session ''me'') again_session" "\<not> sn_keys again_session"
  "\<not> unmoved again_session (receive_text plain_options ''x'' again_session)"
proof -
  let ?r = "\<lambda>s. (voice_step plain_options)\<^sup>*\<^sup>* (new_voice_session ''me'') s"
  have step: "voice_step plain_options s s' \<Longrightarrow> ?r s \<Longrightarrow> ?r s'" for s s'
    by (rule rtranclp.rtrancl_into_rtrancl)
  have "?r connecting_session" unfolding connecting_session_def by (rule step[OF connects]) simp
  moreover have "sn_status connecting_session = Connecting" by (simp add: session_eval)
  ultimately have "?r keyed_session" unfolding keyed_session_def by (intro step[OF keys_ready])
  then have "?r failed_session" unfolding failed_session_def by (rule step[OF text_arrives])
  then show "?r again_session" unfolding again_session_def by (rule step[OF connects])
  have a: "again_session = with_loop connect_by_hand (begin_session False failed_session)"
    using failed_group_line(2,3)
    by (simp add: again_session_def connect_with_def connect_by_hand_def begin_attempt_def sn_status_def)
  have k: "sn_keys again_session = False" "sn_group_line again_session = sn_group_line left_over"
    "vs_serverGroups (sn_view again_session) = []" "vs_status (sn_view again_session) = Loading"
    by (simp_all add: a group_line_kept begin_session_def failed_group_line reset_view_def put_tree_def roster_clear_def)
  then show "\<not> sn_keys again_session" by simp
  have "parse_row ''x'' = Some (''x'', [])" by (simp add: parse_row_def codec_eval parse_entries_def)
  moreover have "handle_row plain_options (''x'', []) again_session = (again_session, None)"
    by (simp add: handle_row_def k PRE_INIT_COMMANDS_def Let_def)
  moreover have "packet_lines ''x'' = [''x'']" "strip_cr ''x'' = ''x''" "splitCommandRows ''x'' = [''x'']"
    by (simp_all add: packet_lines_def strip_cr_def splitCommandRows_def line_head_def codec_eval)
  ultimately have "receive_text plain_options ''x'' again_session = applyGroupLine again_session"
    by (simp add: receive_text_def handleCommandLines_def handleCommandStr_def)
  moreover have "vs_serverGroups (sn_view (applyGroupLine again_session)) \<noteq> []"
    using k(3,4) by (simp add: applyGroupLine_def k(2) left_over_def setServerGroups_def accepting_def group_map_def
        parseServerGroup_def big_def is_digit_def nat_of_digits_def digit_val_def MAX_UINT64_def bump_def Let_def)
  ultimately show "\<not> unmoved again_session (receive_text plain_options ''x'' again_session)"
    using k(3) by (simp add: unmoved_def)
qed

end
