(* ===== verification/Stream_Wire.thy ===== *)
theory Stream_Wire
  imports Api_Fields Command_Request
begin

text \<open>
  Streams on the wire, \<open>src/stream/wire.ts\<close>: the value tables, the commands, the signalling
  messages between a publisher and a viewer, and what the server's notifications say of a stream.
  A JSON text is read and written by the platform, which is an argument.
\<close>

section \<open>Value tables\<close>

definition SOURCES :: "string list" where
  "SOURCES = [''none'', ''camera'', ''screen'', ''window'', ''session'']"

definition ACCESSIBILITIES :: "string list" where
  "ACCESSIBILITIES = [''none'', ''public'', ''contacts'', ''private'']"

definition STREAM_P2P :: string where "STREAM_P2P = ''STREAM_P2P''"

text \<open>A value the table names, or the number it came as.\<close>

datatype wire_value = Named string | Numbered nat

definition index_of :: "string list \<Rightarrow> string \<Rightarrow> nat option" where
  "index_of names name = find (\<lambda>i. names ! i = name) [0..<length names]"

definition sourceToWire :: "string \<Rightarrow> nat option" where
  "sourceToWire = index_of SOURCES"

definition accessibilityToWire :: "string \<Rightarrow> nat option" where
  "accessibilityToWire = index_of ACCESSIBILITIES"

definition named_or_number :: "string list \<Rightarrow> nat \<Rightarrow> wire_value" where
  "named_or_number names n = (if n < length names then Named (names ! n) else Numbered n)"

definition sourceFromWire :: "nat \<Rightarrow> wire_value" where
  "sourceFromWire = named_or_number SOURCES"

definition accessibilityFromWire :: "nat \<Rightarrow> wire_value" where
  "accessibilityFromWire = named_or_number ACCESSIBILITIES"

definition transportFromWire :: "nat \<Rightarrow> wire_value" where
  "transportFromWire n = (if n = 1 then Named ''p2p'' else Numbered n)"

section \<open>Commands\<close>

definition plain_request :: "string \<Rightarrow> raw_params \<Rightarrow> command_request" where
  "plain_request name ps = \<lparr>rq_command = name, rq_params = ps, rq_rows = [], rq_passwords = []\<rparr>"

record stream_setup =
  su_name :: string
  su_source :: nat
  su_bitrate :: nat
  su_accessibility :: nat
  su_viewerLimit :: nat
  su_audio :: bool

definition setupRequest :: "stream_setup \<Rightarrow> command_request" where
  "setupRequest p = plain_request ''setupstream''
     [(''name'', PString (su_name p)), (''type'', PNumber (int (su_source p))),
      (''bitrate'', PNumber (int (su_bitrate p))), (''accessibility'', PNumber (int (su_accessibility p))),
      (''mode'', PNumber 1), (''viewer_limit'', PNumber (int (su_viewerLimit p))),
      (''audio'', PBoolean (su_audio p))]"

definition joinRequest :: "string \<Rightarrow> int \<Rightarrow> string \<Rightarrow> bool \<Rightarrow> command_request" where
  "joinRequest i streamer message remove = plain_request ''joinstreamrequest''
     [(''id'', PString i), (''clid'', PNumber streamer), (''msg'', PString message),
      (''is_remove'', PBoolean remove)]"

definition respondRequest :: "string \<Rightarrow> int \<Rightarrow> string \<Rightarrow> string \<Rightarrow> bool \<Rightarrow> command_request" where
  "respondRequest i viewer message offer accepts = plain_request ''respondjoinstreamrequest''
     [(''id'', PString i), (''clid'', PNumber viewer), (''msg'', PString message),
      (''offer'', PString offer), (''decision'', PBoolean accepts)]"

definition signalRequest :: "string \<Rightarrow> int \<Rightarrow> string \<Rightarrow> command_request" where
  "signalRequest i peer json = plain_request ''streamsignaling''
     [(''id'', PString i), (''clid'', PNumber peer), (''json'', PString json)]"

definition stopRequest :: "string \<Rightarrow> nat \<Rightarrow> command_request" where
  "stopRequest i reason = plain_request ''stopstream''
     [(''id'', PString i), (''reason'', PNumber (int reason))]"

definition infoRequest :: "int \<Rightarrow> command_request" where
  "infoRequest clid = plain_request ''requeststreaminfo'' [(''clid'', PNumber clid)]"

definition MAX_COMMAND_LINE_BYTES :: nat where "MAX_COMMAND_LINE_BYTES = 9150"

text \<open>\<open>byteLength\<close> is the length of a text in UTF-8.\<close>

definition fits :: "(string \<Rightarrow> nat) \<Rightarrow> command_request \<Rightarrow> bool" where
  "fits byteLength request =
     (case encodeRequest request id of
        Inl _ \<Rightarrow> False
      | Inr line \<Rightarrow> byteLength line \<le> MAX_COMMAND_LINE_BYTES)"

section \<open>Signalling\<close>

text \<open>A JSON value. Minus zero is told apart from zero, as \<open>Object.is\<close> does.\<close>

datatype json = JNull | JBool bool | JMinusZero | JNum js_number | JStr string | JArr "json list"
  | JObj "(string \<times> json) list"

record ice_candidate =
  ic_candidate :: string
  ic_sdpMid :: "string option"
  ic_sdpMLineIndex :: "nat option"

definition encodeSignal :: "string \<Rightarrow> json \<Rightarrow> json" where
  "encodeSignal cmd args = JObj [(''cmd'', JStr cmd), (''args'', args)]"

definition answerJson :: "string \<Rightarrow> json" where
  "answerJson sdp = encodeSignal ''answer'' (JObj [(''answer'', JStr sdp)])"

definition offerJson :: "string \<Rightarrow> json" where
  "offerJson sdp = encodeSignal ''offer'' (JObj [(''offer'', JStr sdp)])"

definition candidateJson :: "ice_candidate \<Rightarrow> json" where
  "candidateJson c = encodeSignal ''iceCandidate''
     (JObj [(''sdp'', JStr (ic_candidate c)),
            (''mid'', case ic_sdpMid c of None \<Rightarrow> JNull | Some m \<Rightarrow> JStr m),
            (''mLine'', case ic_sdpMLineIndex c of None \<Rightarrow> JNull | Some n \<Rightarrow> JNum (Finite (of_nat n)))])"

datatype signal = Offer string | Answer string | Candidate ice_candidate
  | Raw_Signal string "json option" string

fun json_field :: "json \<Rightarrow> string \<Rightarrow> json option" where
  "json_field (JObj m) k = map_of m k"
| "json_field _ k = None"

fun json_text :: "json option \<Rightarrow> string option" where
  "json_text (Some (JStr s)) = Some s"
| "json_text _ = None"

fun json_uint16 :: "json option \<Rightarrow> nat option" where
  "json_uint16 (Some (JNum (Finite q))) =
     (if js_isInteger (Finite q) \<and> 0 \<le> q \<and> q \<le> 0xffff then Some (nat \<lfloor>q\<rfloor>) else None)"
| "json_uint16 _ = None"

text \<open>
  \<open>parseSignal\<close>, of what the platform read from the text: \<^const>\<open>None\<close> for a text that is not JSON.
\<close>

definition read_signal :: "string \<Rightarrow> json option \<Rightarrow> string \<Rightarrow> signal" where
  "read_signal cmd args text =
     (let raw = Raw_Signal cmd args text;
          get = (\<lambda>k. json_text (Option.bind args (\<lambda>a. json_field a k)))
      in if cmd = ''answer'' then (case get ''answer'' of Some sdp \<Rightarrow> Answer sdp | None \<Rightarrow> raw)
         else if cmd = ''offer'' \<or> cmd = ''reconnectOffer'' then
           (case json_text args of
              Some sdp \<Rightarrow> Offer sdp
            | None \<Rightarrow> (case get ''offer'' of
                Some sdp \<Rightarrow> Offer sdp
              | None \<Rightarrow> (case get ''sdp'' of Some sdp \<Rightarrow> Offer sdp | None \<Rightarrow> raw)))
         else if cmd = ''iceCandidate'' then
           (case get ''sdp'' of
              None \<Rightarrow> raw
            | Some sdp \<Rightarrow> Candidate \<lparr>ic_candidate = sdp, ic_sdpMid = get ''mid'',
                ic_sdpMLineIndex = json_uint16 (Option.bind args (\<lambda>a. json_field a ''mLine''))\<rparr>)
         else raw)"

definition parseSignal :: "(string \<Rightarrow> json option) \<Rightarrow> string \<Rightarrow> signal" where
  "parseSignal parse text =
     (case parse text of
        None \<Rightarrow> Raw_Signal [] None text
      | Some parsed \<Rightarrow>
          (case json_text (json_field parsed ''cmd'') of
             None \<Rightarrow> Raw_Signal [] (Some parsed) text
           | Some cmd \<Rightarrow> read_signal cmd (json_field parsed ''args'') text))"

section \<open>Notifications\<close>

record stream_info =
  si_id :: string
  si_client :: int
  si_name :: string
  si_source :: "wire_value option"
  si_audio :: bool
  si_bitrate :: "int option"
  si_accessibility :: "wire_value option"
  si_transport :: "wire_value option"
  si_viewerLimit :: "int option"
  si_viewers :: "int option"

definition int_text :: "string \<Rightarrow> int option" where
  "int_text raw =
     (let d = (if take 1 raw = ''-'' then tl raw else raw)
      in if d \<noteq> [] \<and> length d \<le> 15 \<and> list_all is_digit d then Some (bigint_of raw) else None)"

text \<open>The bound on the digits is \<^const>\<open>None\<close> for \<open>Infinity\<close>.\<close>

definition uint32_text :: "nat option \<Rightarrow> string \<Rightarrow> nat option" where
  "uint32_text maxDigits raw =
     (if raw \<noteq> [] \<and> list_all is_digit raw \<and> (case maxDigits of None \<Rightarrow> True | Some k \<Rightarrow> length raw \<le> k)
         \<and> nat_of_digits raw \<le> 0xffffffff
      then Some (nat_of_digits raw) else None)"

definition param_uint32 :: "params \<Rightarrow> string \<Rightarrow> nat option" where
  "param_uint32 row key = Option.bind (row key) (uint32_text (Some 15))"

definition param_int :: "params \<Rightarrow> string \<Rightarrow> int option" where
  "param_int row key = Option.bind (row key) int_text"

definition or_known :: "'a option \<Rightarrow> ('b \<Rightarrow> 'a option) \<Rightarrow> 'b option \<Rightarrow> 'a option" where
  "or_known v f known = (case v of Some x \<Rightarrow> Some x | None \<Rightarrow> Option.bind known f)"

definition streamInfoFrom :: "params \<Rightarrow> stream_info option \<Rightarrow> stream_info option" where
  "streamInfoFrom row known =
     (case row ''id'' of
        None \<Rightarrow> None
      | Some i \<Rightarrow>
          if i = [] then None
          else let access = Option.bind (case row ''accessibility'' of None \<Rightarrow> row ''access'' | Some a \<Rightarrow> Some a)
                              (uint32_text (Some 15));
                   clid = parseUint16 (str row ''clid'')
               in Some \<lparr>si_id = i,
                    si_client = (if clid = 0 then (case known of None \<Rightarrow> 0 | Some k \<Rightarrow> si_client k) else clid),
                    si_name = (case row ''name'' of Some n \<Rightarrow> n
                                | None \<Rightarrow> (case known of None \<Rightarrow> [] | Some k \<Rightarrow> si_name k)),
                    si_source = or_known (map_option sourceFromWire (param_uint32 row ''type'')) si_source known,
                    si_audio = (case row ''audio'' of Some a \<Rightarrow> a = ''1''
                                 | None \<Rightarrow> (case known of None \<Rightarrow> False | Some k \<Rightarrow> si_audio k)),
                    si_bitrate = or_known (param_int row ''bitrate'') si_bitrate known,
                    si_accessibility = or_known (map_option accessibilityFromWire access) si_accessibility known,
                    si_transport = or_known (map_option transportFromWire (param_uint32 row ''mode'')) si_transport known,
                    si_viewerLimit = or_known (param_int row ''viewer_limit'') si_viewerLimit known,
                    si_viewers = or_known (param_int row ''viewer'') si_viewers known\<rparr>)"

definition sameInfo :: "stream_info \<Rightarrow> stream_info \<Rightarrow> bool" where
  "sameInfo a b \<longleftrightarrow> si_client a = si_client b \<and> si_name a = si_name b \<and> si_source a = si_source b \<and>
     si_audio a = si_audio b \<and> si_bitrate a = si_bitrate b \<and> si_accessibility a = si_accessibility b \<and>
     si_transport a = si_transport b \<and> si_viewerLimit a = si_viewerLimit b \<and> si_viewers a = si_viewers b"

definition clientOf :: "params \<Rightarrow> string \<Rightarrow> int" where
  "clientOf row key = parseUint16 (str row key)"

definition reasonOf :: "params \<Rightarrow> nat" where
  "reasonOf row = (case Option.bind (row ''reason'') (uint32_text None) of None \<Rightarrow> 0 | Some r \<Rightarrow> r)"

text \<open>A line that begins \<open>m=audio\<close> and a blank or a tab.\<close>

fun hasAudioSection_at :: "bool \<Rightarrow> string \<Rightarrow> bool" where
  "hasAudioSection_at start [] = False"
| "hasAudioSection_at start (c # cs) =
     ((start \<and> (take 8 (c # cs) = ''m=audio '' \<or> take 8 (c # cs) = ''m=audio'' @ [CHR 0x09])) \<or>
      hasAudioSection_at (c = CHR 0x0A \<or> c = CHR 0x0D) cs)"

definition hasAudioSection :: "string \<Rightarrow> bool" where
  "hasAudioSection = hasAudioSection_at True"

section \<open>What is written is read back\<close>

lemma index_of_nth: "index_of names name = Some n \<Longrightarrow> n < length names \<and> names ! n = name"
  by (auto simp: index_of_def find_Some_iff)

lemma source_round_trip: "sourceToWire s = Some n \<Longrightarrow> sourceFromWire n = Named s"
  unfolding sourceToWire_def sourceFromWire_def named_or_number_def using index_of_nth by auto

lemma accessibility_round_trip: "accessibilityToWire s = Some n \<Longrightarrow> accessibilityFromWire n = Named s"
  unfolding accessibilityToWire_def accessibilityFromWire_def named_or_number_def using index_of_nth by auto

lemma answer_read: "parse t = Some (answerJson sdp) \<Longrightarrow> parseSignal parse t = Answer sdp"
  by (simp add: parseSignal_def answerJson_def encodeSignal_def read_signal_def)

lemma offer_read: "parse t = Some (offerJson sdp) \<Longrightarrow> parseSignal parse t = Offer sdp"
  by (simp add: parseSignal_def offerJson_def encodeSignal_def read_signal_def)

lemma candidate_read:
  assumes "parse t = Some (candidateJson c)" "case ic_sdpMLineIndex c of None \<Rightarrow> True | Some n \<Rightarrow> n \<le> 0xffff"
  shows "parseSignal parse t = Candidate c"
proof -
  have n: "js_isInteger (Finite (of_nat n)) \<and> \<lfloor>of_nat n :: rat\<rfloor> = int n" for n by simp
  show ?thesis
    using assms
    by (cases c) (auto simp: parseSignal_def candidateJson_def encodeSignal_def read_signal_def n split: option.splits)
qed

text \<open>A notification read over what it said already says nothing new.\<close>

lemma or_known_again: "f k = or_known v f known \<Longrightarrow> or_known v f (Some k) = or_known v f known"
  by (cases v) (simp_all add: or_known_def)

lemma stream_reread:
  assumes "streamInfoFrom row known = Some i"
  shows "streamInfoFrom row (Some i) = Some i"
proof (cases "row ''id''")
  case None
  with assms show ?thesis by (simp add: streamInfoFrom_def)
next
  case (Some t)
  with assms have t: "t \<noteq> []" by (auto simp: streamInfoFrom_def)
  let ?access = "Option.bind (case row ''accessibility'' of None \<Rightarrow> row ''access'' | Some a \<Rightarrow> Some a)
      (uint32_text (Some 15))"
  have f: "si_id i = t"
    "si_client i = (if parseUint16 (str row ''clid'') = 0 then (case known of None \<Rightarrow> 0 | Some k \<Rightarrow> si_client k)
       else parseUint16 (str row ''clid''))"
    "si_name i = (case row ''name'' of Some n \<Rightarrow> n | None \<Rightarrow> (case known of None \<Rightarrow> [] | Some k \<Rightarrow> si_name k))"
    "si_audio i = (case row ''audio'' of Some a \<Rightarrow> a = ''1''
       | None \<Rightarrow> (case known of None \<Rightarrow> False | Some k \<Rightarrow> si_audio k))"
    "si_source i = or_known (map_option sourceFromWire (param_uint32 row ''type'')) si_source known"
    "si_bitrate i = or_known (param_int row ''bitrate'') si_bitrate known"
    "si_accessibility i = or_known (map_option accessibilityFromWire ?access) si_accessibility known"
    "si_transport i = or_known (map_option transportFromWire (param_uint32 row ''mode'')) si_transport known"
    "si_viewerLimit i = or_known (param_int row ''viewer_limit'') si_viewerLimit known"
    "si_viewers i = or_known (param_int row ''viewer'') si_viewers known"
    using assms Some t by (auto simp: streamInfoFrom_def Let_def)
  have "streamInfoFrom row (Some i) = Some \<lparr>si_id = si_id i, si_client = si_client i, si_name = si_name i,
      si_source = si_source i, si_audio = si_audio i, si_bitrate = si_bitrate i,
      si_accessibility = si_accessibility i, si_transport = si_transport i,
      si_viewerLimit = si_viewerLimit i, si_viewers = si_viewers i\<rparr>"
    using Some t f(1-4)
    by (simp add: streamInfoFrom_def Let_def f(1) or_known_again[of si_source, OF f(5)] or_known_again[of si_bitrate, OF f(6)]
        or_known_again[of si_accessibility, OF f(7)] or_known_again[of si_transport, OF f(8)]
        or_known_again[of si_viewerLimit, OF f(9)] or_known_again[of si_viewers, OF f(10)] f(5-10)[symmetric]
        split: option.split)
  then show ?thesis by simp
qed

lemma stream_id: "streamInfoFrom row known = Some i \<Longrightarrow> row ''id'' = Some (si_id i) \<and> si_id i \<noteq> []"
  by (auto simp: streamInfoFrom_def Let_def split: option.splits if_splits)

lemma sameInfo_eq: "si_id a = si_id b \<Longrightarrow> sameInfo a b = (a = b)"
  by (cases a; cases b) (auto simp: sameInfo_def)

end
