(* ===== verification/Stream_Published.thy ===== *)
theory Stream_Published
  imports Stream_Wire
begin

text \<open>
  A stream this client publishes, \<open>src/stream/published.ts\<close>, and the peers of its viewers,
  \<open>src/stream/peer.ts\<close>. A request to watch waits in a slot while its viewer is looked up, is
  announced in its turn, and is answered, withdrawn or ended. Slots, requests and peers are
  objects the code tells apart by identity: here each has a number. What the stream emits is the
  list \<open>pb_events\<close>.
\<close>

section \<open>State\<close>

record viewer =
  vi_client :: int
  vi_uid :: "string option"
  vi_nickname :: "string option"

text \<open>What is known of a client beside its id: its unique id and its nickname.\<close>

type_synonym names = "string option \<times> string option"

definition viewer_of :: "int \<Rightarrow> names \<Rightarrow> viewer" where
  "viewer_of c n = \<lparr>vi_client = c, vi_uid = fst n, vi_nickname = snd n\<rparr>"

record slot =
  sl_client :: int
  sl_message :: string
  sl_identity :: "viewer option"
  sl_looking :: bool

datatype join_state = RS_Pending | RS_Accepted | RS_Denied | RS_Withdrawn | RS_Ended | RS_Failed

record join_request =
  jr_viewer :: viewer
  jr_message :: string
  jr_state :: join_state

datatype peer_end = PE_Closed | PE_Left | PE_Stopped nat | PE_Disconnected | PE_Disposed

record stream_peer =
  sp_client :: int
  sp_closed :: "peer_end option"
  sp_inbox :: "signal list"

text \<open>Why a stream ended: \<open>stop()\<close>, the server, its publisher gone, and the two ends of everything.\<close>

datatype end_reason = By_Stop nat | By_Server nat | By_Gone | By_Drop | By_Dispose

datatype published_event = Asks_To_Watch nat nat | Request_Over nat join_state | Peer_Over nat peer_end
  | Answers nat bool | Published_Over end_reason

record published =
  pb_id :: string
  pb_ended :: bool
  pb_next :: nat
  pb_slots :: "(nat \<times> slot) list"
  pb_resolving :: "(int \<times> nat) list"
  pb_pending :: "(int \<times> nat) list"
  pb_requests :: "join_request list"
  pb_peers :: "(int \<times> nat) list"
  pb_made :: "stream_peer list"
  pb_closedViewers :: "int list"
  pb_events :: "published_event list"

definition new_published :: "string \<Rightarrow> published" where
  "new_published i = \<lparr>pb_id = i, pb_ended = False, pb_next = 0, pb_slots = [], pb_resolving = [],
     pb_pending = [], pb_requests = [], pb_peers = [], pb_made = [], pb_closedViewers = [], pb_events = []\<rparr>"

definition say :: "published_event \<Rightarrow> published \<Rightarrow> published" where
  "say e p = p\<lparr>pb_events := pb_events p @ [e]\<rparr>"

text \<open>A Set of the newest values: adding one drops the oldest past the bound.\<close>

definition set_add :: "'a \<Rightarrow> 'a list \<Rightarrow> 'a list" where
  "set_add x l = (if x \<in> set l then l else l @ [x])"

definition bounded_add :: "nat \<Rightarrow> 'a \<Rightarrow> 'a list \<Rightarrow> 'a list" where
  "bounded_add n x l = (let l' = set_add x l in if length l' > n then tl l' else l')"

section \<open>Peers\<close>

definition set_peer :: "nat \<Rightarrow> stream_peer \<Rightarrow> published \<Rightarrow> published" where
  "set_peer k e p = p\<lparr>pb_made := (pb_made p)[k := e]\<rparr>"

text \<open>\<open>end\<close>, once, with the stream's own part in it: the viewer is forgotten and remembered as over.\<close>

definition end_peer :: "peer_end \<Rightarrow> nat \<Rightarrow> published \<Rightarrow> published" where
  "end_peer cause k p =
     (let e = pb_made p ! k
      in if sp_closed e \<noteq> None then p
         else let p1 = set_peer k (e\<lparr>sp_closed := Some cause\<rparr>) p;
                  p2 = (if map_of (pb_peers p1) (sp_client e) = Some k
                        then p1\<lparr>pb_peers := AList.delete (sp_client e) (pb_peers p1),
                                pb_closedViewers := bounded_add 1024 (sp_client e) (pb_closedViewers p1)\<rparr>
                        else p1)
              in say (Peer_Over k cause) p2)"

definition openViewer :: "int \<Rightarrow> published \<Rightarrow> published" where
  "openViewer c p =
     p\<lparr>pb_made := pb_made p @ [\<lparr>sp_client = c, sp_closed = None, sp_inbox = []\<rparr>],
       pb_closedViewers := removeAll c (pb_closedViewers p),
       pb_peers := AList.update c (length (pb_made p)) (pb_peers p)\<rparr>"

definition deliver_signal :: "signal \<Rightarrow> stream_peer \<Rightarrow> stream_peer" where
  "deliver_signal s e = (if sp_closed e \<noteq> None then e else e\<lparr>sp_inbox := sp_inbox e @ [s]\<rparr>)"

text \<open>\<open>signal\<close>: whether the message was this stream's.\<close>

definition signal_viewer :: "int \<Rightarrow> signal \<Rightarrow> published \<Rightarrow> bool \<times> published" where
  "signal_viewer c s p =
     (case map_of (pb_peers p) c of
        None \<Rightarrow> (c \<in> set (pb_closedViewers p), p)
      | Some k \<Rightarrow> (True, set_peer k (deliver_signal s (pb_made p ! k)) p))"

section \<open>Requests\<close>

definition set_state :: "join_state \<Rightarrow> nat \<Rightarrow> published \<Rightarrow> published" where
  "set_state st n p = p\<lparr>pb_requests := (pb_requests p)[n := (pb_requests p ! n)\<lparr>jr_state := st\<rparr>]\<rparr>"

definition close_request :: "join_state \<Rightarrow> nat \<Rightarrow> published \<Rightarrow> published" where
  "close_request cause n p =
     (if jr_state (pb_requests p ! n) \<noteq> RS_Pending then p
      else say (Request_Over n cause) (set_state cause n p))"

text \<open>\<open>denied\<close> is whether a viewer was denied and is left unanswered.\<close>

definition announce_slot :: "(viewer \<Rightarrow> bool) \<Rightarrow> nat \<Rightarrow> slot \<Rightarrow> viewer \<Rightarrow> published \<Rightarrow> published" where
  "announce_slot denied t sl v p =
     (let p1 = p\<lparr>pb_resolving := AList.delete (sl_client sl) (pb_resolving p)\<rparr>
      in if denied v then p1
         else say (Asks_To_Watch t (length (pb_requests p)))
                (p1\<lparr>pb_requests := pb_requests p @ [\<lparr>jr_viewer = v, jr_message = sl_message sl, jr_state = RS_Pending\<rparr>],
                    pb_pending := AList.update (sl_client sl) (length (pb_requests p)) (pb_pending p)\<rparr>))"

text \<open>\<open>#advance\<close>: a lookup for every slot that has none, and then the slots whose turn it is.\<close>

definition look_up :: "(int \<Rightarrow> names option) \<Rightarrow> published \<Rightarrow> nat \<times> slot \<Rightarrow> nat \<times> slot" where
  "look_up in_view p = (\<lambda>(t, sl).
     if sl_identity sl \<noteq> None \<or> sl_looking sl \<or> map_of (pb_resolving p) (sl_client sl) \<noteq> Some t then (t, sl)
     else (case in_view (sl_client sl) of
             Some v \<Rightarrow> (t, sl\<lparr>sl_identity := Some (viewer_of (sl_client sl) v)\<rparr>)
           | None \<Rightarrow> (t, sl\<lparr>sl_looking := True\<rparr>)))"

fun announce_ready :: "(viewer \<Rightarrow> bool) \<Rightarrow> (nat \<times> slot) list \<Rightarrow> published \<Rightarrow> published" where
  "announce_ready denied [] p = p\<lparr>pb_slots := []\<rparr>"
| "announce_ready denied ((t, sl) # rest) p =
     (if map_of (pb_resolving p) (sl_client sl) \<noteq> Some t \<or> pb_ended p then announce_ready denied rest p
      else (case sl_identity sl of
              None \<Rightarrow> p\<lparr>pb_slots := (t, sl) # rest\<rparr>
            | Some v \<Rightarrow> announce_ready denied rest (announce_slot denied t sl v p)))"

definition advance_slots :: "(viewer \<Rightarrow> bool) \<Rightarrow> (int \<Rightarrow> names option) \<Rightarrow> published \<Rightarrow> published" where
  "advance_slots denied in_view p = announce_ready denied (map (look_up in_view p) (pb_slots p)) p"

definition request_watch ::
  "(viewer \<Rightarrow> bool) \<Rightarrow> (int \<Rightarrow> names option) \<Rightarrow> int \<Rightarrow> string \<Rightarrow> published \<Rightarrow> published" where
  "request_watch denied in_view c message p =
     (if pb_ended p \<or> map_of (pb_peers p) c \<noteq> None \<or> map_of (pb_resolving p) c \<noteq> None then p
      else if (case map_of (pb_pending p) c of None \<Rightarrow> False | Some n \<Rightarrow> jr_state (pb_requests p ! n) = RS_Pending)
      then p
      else advance_slots denied in_view
             (p\<lparr>pb_resolving := AList.update c (pb_next p) (pb_resolving p),
                pb_slots := pb_slots p @ [(pb_next p, \<lparr>sl_client = c, sl_message = message,
                  sl_identity = None, sl_looking = False\<rparr>)],
                pb_next := pb_next p + 1\<rparr>))"

text \<open>The lookup of a slot answers; the slot may have left the queue meanwhile.\<close>

definition lookup_answers ::
  "(viewer \<Rightarrow> bool) \<Rightarrow> (int \<Rightarrow> names option) \<Rightarrow> nat \<Rightarrow> names \<Rightarrow> published \<Rightarrow> published" where
  "lookup_answers denied in_view t v p =
     advance_slots denied in_view
       (p\<lparr>pb_slots := map (\<lambda>(u, sl). if u = t then (u, sl\<lparr>sl_looking := False, sl_identity := Some (viewer_of (sl_client sl) v)\<rparr>) else (u, sl))
                       (pb_slots p)\<rparr>)"

definition drop_pending ::
  "(viewer \<Rightarrow> bool) \<Rightarrow> (int \<Rightarrow> names option) \<Rightarrow> int \<Rightarrow> published \<Rightarrow> published" where
  "drop_pending denied in_view c p =
     (let p1 = (case map_of (pb_resolving p) c of
                  None \<Rightarrow> p
                | Some t \<Rightarrow> advance_slots denied in_view
                    (p\<lparr>pb_resolving := AList.delete c (pb_resolving p),
                       pb_slots := filter (\<lambda>(u, sl). u \<noteq> t \<or> sl_looking sl) (pb_slots p)\<rparr>));
          p2 = (case map_of (pb_pending p1) c of None \<Rightarrow> p1 | Some n \<Rightarrow> close_request RS_Withdrawn n p1)
      in p2\<lparr>pb_pending := AList.delete c (pb_pending p2)\<rparr>)"

definition viewer_gone ::
  "(viewer \<Rightarrow> bool) \<Rightarrow> (int \<Rightarrow> names option) \<Rightarrow> int \<Rightarrow> published \<Rightarrow> published" where
  "viewer_gone denied in_view c p =
     (let p1 = drop_pending denied in_view c p
      in case map_of (pb_peers p1) c of None \<Rightarrow> p1 | Some k \<Rightarrow> end_peer PE_Left k p1)"

section \<open>Answers\<close>

text \<open>
  \<open>accept\<close> and \<open>deny\<close> up to the command, and what follows a command that failed; \<open>too_long\<close> is
  whether the line does not fit. \<^const>\<open>None\<close> is a call that throws and leaves all as it was.
\<close>

definition accept_request :: "bool \<Rightarrow> nat \<Rightarrow> string \<Rightarrow> published \<Rightarrow> published option" where
  "accept_request too_long n offer p =
     (if offer = [] \<or> jr_state (pb_requests p ! n) \<noteq> RS_Pending \<or> too_long then None
      else Some (say (Answers n True)
             (openViewer (vi_client (jr_viewer (pb_requests p ! n))) (set_state RS_Accepted n p))))"

definition accept_fails :: "nat \<Rightarrow> nat \<Rightarrow> published \<Rightarrow> published" where
  "accept_fails n k p = end_peer PE_Closed k (set_state RS_Failed n p)"

definition deny_request :: "bool \<Rightarrow> nat \<Rightarrow> published \<Rightarrow> published option" where
  "deny_request too_long n p =
     (if jr_state (pb_requests p ! n) \<noteq> RS_Pending \<or> too_long then None
      else Some (say (Answers n False) (set_state RS_Denied n p)))"

definition deny_fails :: "nat \<Rightarrow> published \<Rightarrow> published" where
  "deny_fails n p = set_state RS_Failed n p"

section \<open>The end\<close>

fun peer_end_of :: "end_reason \<Rightarrow> peer_end" where
  "peer_end_of By_Drop = PE_Disconnected"
| "peer_end_of By_Dispose = PE_Disposed"
| "peer_end_of (By_Stop r) = PE_Stopped r"
| "peer_end_of (By_Server r) = PE_Stopped r"
| "peer_end_of By_Gone = PE_Stopped 0"

definition finish_stream :: "end_reason \<Rightarrow> published \<Rightarrow> published" where
  "finish_stream ended p =
     (if pb_ended p then p
      else let p1 = p\<lparr>pb_ended := True, pb_slots := [], pb_resolving := []\<rparr>;
               p2 = fold (close_request RS_Ended) (map snd (pb_pending p1)) p1;
               p3 = p2\<lparr>pb_pending := []\<rparr>;
               p4 = fold (end_peer (peer_end_of ended)) (map snd (pb_peers p3)) p3
           in say (Published_Over ended) p4)"

end
