(* ===== verification/Streams.thy ===== *)
theory Streams
  imports Stream_Published
begin

text \<open>
  \<open>Streams\<close>, \<open>src/stream/streams.ts\<close>: the streams this client has heard of, those it publishes and
  those it watches. What the client knows when a call is made (whether it is connected, its own id,
  what the server supports, who is in view) and the platform's JSON parser are arguments. The
  promises of \<open>publish\<close> and \<open>watch\<close>, and the streams published here, are objects told apart by
  identity: each has a number. What is emitted, sent without waiting or closed is the list
  \<open>ss_events\<close>.
\<close>

section \<open>State\<close>

record stream_client =
  sc_connected :: bool
  sc_self :: int
  sc_supported :: bool
  sc_view :: "(int \<times> names \<times> bool option) list"

datatype stream_error = Stream_Ended_Error string | Join_Denied string string | No_Offer | Connection_Gone
  | Streams_Disposed | Server_Refused nat | Gave_Up | No_Stream_Announced | Streams_Unsupported
  | Transport_Unsupported string | Already_Watching string | Bad_Option string

datatype promise_end = Got | Failed stream_error

text \<open>A watch: its request, and the view it became. \<open>wt_over\<close> is what the caller was given.\<close>

record watch =
  wt_id :: string
  wt_streamer :: int
  wt_early :: "string list"
  wt_overflowed :: bool
  wt_sending :: bool
  wt_sent :: bool
  wt_settled :: "promise_end option"
  wt_view :: "stream_peer option"
  wt_over :: "promise_end option"

record attempt =
  at_outcome :: "promise_end option"
  at_abandoned :: bool
  at_reset :: bool
  at_answered :: bool
  at_stream :: "nat option"
  at_over :: "promise_end option"

text \<open>\<open>Everything_Over\<close> is not emitted: it marks where the list of streams is cleared, which listeners hear of
  by the client's own \<open>disconnected\<close>.\<close>

datatype stop_cause = SC_Stopped | SC_Server | SC_Gone

datatype streams_event = Started stream_info | Updated stream_info | Stopped stream_info stop_cause nat
  | Viewer_Joined stream_info int | Viewer_Left stream_info int | Reports string | Sends command_request
  | View_Over nat peer_end | Everything_Over

record streams =
  ss_rememberDenied :: bool
  ss_infos :: "(string \<times> stream_info) list"
  ss_asked :: "int list"
  ss_goneTimers :: "int list"
  ss_published :: "(string \<times> nat) list"
  ss_streams :: "published list"
  ss_watching :: "(string \<times> nat) list"
  ss_watches :: "watch list"
  ss_denied :: "string list"
  ss_closedViews :: "string list"
  ss_publishing :: "nat list"
  ss_attempts :: "attempt list"
  ss_orphans :: "string list"
  ss_stopped :: "string list"
  ss_disposed :: bool
  ss_events :: "streams_event list"

definition new_streams :: "bool \<Rightarrow> streams" where
  "new_streams remember = \<lparr>ss_rememberDenied = remember, ss_infos = [], ss_asked = [], ss_goneTimers = [],
     ss_published = [], ss_streams = [], ss_watching = [], ss_watches = [], ss_denied = [], ss_closedViews = [],
     ss_publishing = [], ss_attempts = [], ss_orphans = [], ss_stopped = [], ss_disposed = False, ss_events = []\<rparr>"

definition MAX_EARLY_SIGNALS :: nat where "MAX_EARLY_SIGNALS = 256"
definition MAX_DENIED :: nat where "MAX_DENIED = 1024"
definition MAX_CLOSED_VIEWS :: nat where "MAX_CLOSED_VIEWS = 1024"
definition MAX_ORPHANS :: nat where "MAX_ORPHANS = 16"
definition MAX_STOPPED :: nat where "MAX_STOPPED = 256"

definition emit_event :: "streams_event \<Rightarrow> streams \<Rightarrow> streams" where
  "emit_event e s = s\<lparr>ss_events := ss_events s @ [e]\<rparr>"

text \<open>A Set whose newest value goes last, whether or not it was there.\<close>

definition newest_last :: "nat \<Rightarrow> 'a \<Rightarrow> 'a list \<Rightarrow> 'a list" where
  "newest_last n x l = bounded_add n x (removeAll x l)"

definition in_view :: "stream_client \<Rightarrow> int \<Rightarrow> names option" where
  "in_view c i = map_option fst (map_of (sc_view c) i)"

definition isDenied :: "streams \<Rightarrow> viewer \<Rightarrow> bool" where
  "isDenied s v \<longleftrightarrow> ss_rememberDenied s \<and> (case vi_uid v of None \<Rightarrow> False | Some u \<Rightarrow> u \<in> set (ss_denied s))"

definition remember_denied :: "viewer \<Rightarrow> streams \<Rightarrow> streams" where
  "remember_denied v s =
     (case vi_uid v of
        None \<Rightarrow> s
      | Some u \<Rightarrow> if ss_rememberDenied s then s\<lparr>ss_denied := newest_last MAX_DENIED u (ss_denied s)\<rparr> else s)"

text \<open>A call of one published stream.\<close>

definition on_stream :: "nat \<Rightarrow> (published \<Rightarrow> published) \<Rightarrow> streams \<Rightarrow> streams" where
  "on_stream k f s = s\<lparr>ss_streams := (ss_streams s)[k := f (ss_streams s ! k)]\<rparr>"

definition set_watch :: "nat \<Rightarrow> watch \<Rightarrow> streams \<Rightarrow> streams" where
  "set_watch n w s = s\<lparr>ss_watches := (ss_watches s)[n := w]\<rparr>"

definition put_attempt :: "nat \<Rightarrow> attempt \<Rightarrow> streams \<Rightarrow> streams" where
  "put_attempt n a s = s\<lparr>ss_attempts := (ss_attempts s)[n := a]\<rparr>"

text \<open>A deferred promise takes its first outcome.\<close>

definition settle_watch :: "nat \<Rightarrow> promise_end \<Rightarrow> streams \<Rightarrow> streams" where
  "settle_watch n o' s =
     (let w = ss_watches s ! n
      in if wt_settled w \<noteq> None then s else set_watch n (w\<lparr>wt_settled := Some o'\<rparr>) s)"

definition settle_publish :: "nat \<Rightarrow> promise_end \<Rightarrow> streams \<Rightarrow> streams" where
  "settle_publish n o' s =
     (let a = ss_attempts s ! n
      in if at_outcome a \<noteq> None then s else put_attempt n (a\<lparr>at_outcome := Some o'\<rparr>) s)"

section \<open>Ending\<close>

text \<open>The end of a view, once, with what \<open>Streams\<close> does of it.\<close>

definition end_watch_view :: "peer_end \<Rightarrow> nat \<Rightarrow> streams \<Rightarrow> streams" where
  "end_watch_view cause n s =
     (let w = ss_watches s ! n
      in case wt_view w of
           None \<Rightarrow> s
         | Some v \<Rightarrow>
             if sp_closed v \<noteq> None then s
             else let s1 = set_watch n (w\<lparr>wt_view := Some (v\<lparr>sp_closed := Some cause\<rparr>)\<rparr>) s;
                      s2 = (if map_of (ss_watching s1) (wt_id w) = Some n
                            then s1\<lparr>ss_watching := AList.delete (wt_id w) (ss_watching s1)\<rparr> else s1)
                  in emit_event (View_Over n cause)
                       (s2\<lparr>ss_closedViews := newest_last MAX_CLOSED_VIEWS (wt_id w) (ss_closedViews s2)\<rparr>))"

definition cancelGone :: "int \<Rightarrow> streams \<Rightarrow> streams" where
  "cancelGone c s = s\<lparr>ss_goneTimers := removeAll c (ss_goneTimers s)\<rparr>"

definition streams_of :: "int \<Rightarrow> (string \<times> stream_info) list \<Rightarrow> string list" where
  "streams_of c l = map fst (filter (\<lambda>(i, info). si_client info = c) l)"

fun end_reason_of :: "stop_cause \<Rightarrow> nat \<Rightarrow> end_reason" where
  "end_reason_of SC_Stopped r = By_Stop r"
| "end_reason_of SC_Server r = By_Server r"
| "end_reason_of SC_Gone r = By_Gone"

text \<open>\<open>#end\<close>: the stream's row, its published stream and its watch, in that order.\<close>

definition forget_row :: "string \<Rightarrow> streams \<Rightarrow> streams" where
  "forget_row i s =
     (case map_of (ss_infos s) i of
        None \<Rightarrow> s
      | Some info \<Rightarrow>
          let s1 = s\<lparr>ss_infos := AList.delete i (ss_infos s)\<rparr>
          in if streams_of (si_client info) (ss_infos s1) = [] then cancelGone (si_client info) s1 else s1)"

definition end_published :: "end_reason \<Rightarrow> string \<Rightarrow> streams \<Rightarrow> streams" where
  "end_published ended i s =
     (case map_of (ss_published s) i of
        None \<Rightarrow> s
      | Some k \<Rightarrow> on_stream k (finish_stream ended) (s\<lparr>ss_published := AList.delete i (ss_published s)\<rparr>))"

definition end_watch :: "nat \<Rightarrow> string \<Rightarrow> streams \<Rightarrow> streams" where
  "end_watch reason i s =
     (case map_of (ss_watching s) i of
        None \<Rightarrow> s
      | Some n \<Rightarrow>
          let s1 = s\<lparr>ss_watching := AList.delete i (ss_watching s)\<rparr>
          in if wt_view (ss_watches s1 ! n) \<noteq> None then end_watch_view (PE_Stopped reason) n s1
             else settle_watch n (Failed (Stream_Ended_Error i)) s1)"

definition end_stream :: "string \<Rightarrow> nat \<Rightarrow> stop_cause \<Rightarrow> streams \<Rightarrow> streams" where
  "end_stream i reason cause s =
     (let s1 = (if cause = SC_Gone then s else s\<lparr>ss_stopped := newest_last MAX_STOPPED i (ss_stopped s)\<rparr>);
          s2 = end_watch reason i (end_published (end_reason_of cause reason) i (forget_row i s1))
      in case map_of (ss_infos s) i of
           None \<Rightarrow> s2
         | Some info \<Rightarrow> emit_event (Stopped info cause reason) s2)"

text \<open>\<open>#forget\<close>, and the timer it starts.\<close>

definition forget_client :: "int \<Rightarrow> streams \<Rightarrow> streams" where
  "forget_client c s =
     (let s1 = s\<lparr>ss_asked := removeAll c (ss_asked s)\<rparr>
      in if c \<in> set (ss_goneTimers s1) \<or> streams_of c (ss_infos s1) = [] then s1
         else s1\<lparr>ss_goneTimers := ss_goneTimers s1 @ [c]\<rparr>)"

definition gone_timer :: "int \<Rightarrow> streams \<Rightarrow> streams" where
  "gone_timer c s =
     (if c \<notin> set (ss_goneTimers s) then s
      else fold (\<lambda>i. end_stream i 0 SC_Gone) (streams_of c (ss_infos s))
             (s\<lparr>ss_goneTimers := removeAll c (ss_goneTimers s)\<rparr>))"

section \<open>What the server says\<close>

text \<open>\<open>#learn\<close>: knowing a stream again changes nothing.\<close>

definition learn :: "stream_info \<Rightarrow> streams \<Rightarrow> streams" where
  "learn info s =
     (if si_id info \<in> set (ss_orphans s) then s
      else let s1 = s\<lparr>ss_infos := AList.update (si_id info) info (ss_infos s)\<rparr>
           in case map_of (ss_infos s) (si_id info) of
                None \<Rightarrow> emit_event (Started info) s1
              | Some known \<Rightarrow> if sameInfo known info then s1 else emit_event (Updated info) s1)"

definition onInfo :: "params \<Rightarrow> streams \<Rightarrow> streams" where
  "onInfo row s =
     (case streamInfoFrom row (map_of (ss_infos s) (str row ''id'')) of None \<Rightarrow> s | Some info \<Rightarrow> learn info s)"

definition leave_request :: "string \<Rightarrow> int \<Rightarrow> command_request" where
  "leave_request i streamer = joinRequest i streamer [] True"

definition onRespond :: "(string \<Rightarrow> json option) \<Rightarrow> params \<Rightarrow> streams \<Rightarrow> streams" where
  "onRespond parse row s =
     (let i = str row ''id''
      in case map_of (ss_watching s) i of
           None \<Rightarrow> s
         | Some n \<Rightarrow>
             let w = ss_watches s ! n;
                 s1 = s\<lparr>ss_watching := AList.delete i (ss_watching s)\<rparr>
             in if wt_view w \<noteq> None then s
                else if row ''decision'' \<noteq> Some ''1'' then settle_watch n (Failed (Join_Denied i (str row ''msg''))) s1
                else if str row ''offer'' = [] then
                  emit_event (Sends (leave_request i (wt_streamer w))) (settle_watch n (Failed No_Offer) s1)
                else settle_watch n Got
                       (set_watch n (w\<lparr>wt_early := [], wt_view := Some \<lparr>sp_client = wt_streamer w, sp_closed = None,
                          sp_inbox = map (parseSignal parse) (wt_early w)\<rparr>\<rparr>) s))"

text \<open>A message ahead of the answer waits; past the bound the oldest goes, which is reported once.\<close>

definition early_signal :: "string \<Rightarrow> nat \<Rightarrow> streams \<Rightarrow> streams" where
  "early_signal json n s =
     (let w = ss_watches s ! n; l = wt_early w @ [json]
      in if length l \<le> MAX_EARLY_SIGNALS then set_watch n (w\<lparr>wt_early := l\<rparr>) s
         else let s1 = set_watch n (w\<lparr>wt_early := tl l, wt_overflowed := True\<rparr>) s
              in if wt_overflowed w then s1 else emit_event (Reports ''dropping the oldest signalling message'') s1)"

definition onSignaling :: "(string \<Rightarrow> json option) \<Rightarrow> params \<Rightarrow> streams \<Rightarrow> streams" where
  "onSignaling parse row s =
     (let i = str row ''id''; c = clientOf row ''clid''; json = str row ''json'';
          (mine, s1) = (case map_of (ss_published s) i of
             None \<Rightarrow> (False, s)
           | Some k \<Rightarrow> (case signal_viewer c (parseSignal parse json) (ss_streams s ! k) of
               (heard, p) \<Rightarrow> (heard, on_stream k (\<lambda>_. p) s)))
      in if mine then s1
         else case map_of (ss_watching s1) i of
                Some n \<Rightarrow>
                  let w = ss_watches s1 ! n
                  in (case wt_view w of
                        Some v \<Rightarrow> set_watch n (w\<lparr>wt_view := Some (deliver_signal (parseSignal parse json) v)\<rparr>) s1
                      | None \<Rightarrow> early_signal json n s1)
              | None \<Rightarrow> if i \<in> set (ss_closedViews s1) then s1
                        else emit_event (Reports ''signalling for a stream with no session'') s1)"

definition onClientLeft :: "stream_client \<Rightarrow> params \<Rightarrow> streams \<Rightarrow> streams" where
  "onClientLeft ctx row s =
     (let i = str row ''id''; c = clientOf row ''clid''
      in if c = 0 then s
         else let s1 = (case map_of (ss_published s) i of
                          None \<Rightarrow> s | Some k \<Rightarrow> on_stream k (viewer_gone (isDenied s) (in_view ctx) c) s);
                  s2 = (case map_of (ss_watching s1) i of
                          Some n \<Rightarrow> if c = sc_self ctx then end_watch_view PE_Left n s1 else s1
                        | None \<Rightarrow> s1)
              in case map_of (ss_infos s2) i of None \<Rightarrow> s2 | Some info \<Rightarrow> emit_event (Viewer_Left info c) s2)"

definition onJoinRequest :: "stream_client \<Rightarrow> params \<Rightarrow> streams \<Rightarrow> streams" where
  "onJoinRequest ctx row s =
     (let c = clientOf row ''clid''
      in case map_of (ss_published s) (str row ''id'') of
           None \<Rightarrow> s
         | Some k \<Rightarrow>
             if c = 0 then s
             else if row ''is_remove'' = Some ''1'' then on_stream k (viewer_gone (isDenied s) (in_view ctx) c) s
             else on_stream k (request_watch (isDenied s) (in_view ctx) c (str row ''msg'')) s)"

definition onNotification ::
  "stream_client \<Rightarrow> (string \<Rightarrow> json option) \<Rightarrow> string \<Rightarrow> params \<Rightarrow> streams \<Rightarrow> streams" where
  "onNotification ctx parse name row s =
     (if name = ''notifystreamstarted'' \<or> name = ''notifystreaminfo'' then onInfo row s
      else if name = ''notifyjoinstreamrequest'' then onJoinRequest ctx row s
      else if name = ''notifyrespondjoinstreamrequest'' then onRespond parse row s
      else if name = ''notifystreamsignaling'' then onSignaling parse row s
      else if name = ''notifystreamclientjoined'' then
        (case map_of (ss_infos s) (str row ''id'') of
           None \<Rightarrow> s
         | Some info \<Rightarrow> if clientOf row ''clid'' = 0 then s
                        else emit_event (Viewer_Joined info (clientOf row ''clid'')) s)
      else if name = ''notifystreamclientleft'' then onClientLeft ctx row s
      else if name = ''notifystreamstopped'' then
        (let i = str row ''id''
         in if i = [] then s
            else let s1 = end_stream i (reasonOf row) SC_Server s
                 in s1\<lparr>ss_orphans := removeAll i (ss_orphans s1)\<rparr>)
      else s)"

section \<open>Discovery\<close>

definition discover :: "stream_client \<Rightarrow> int \<Rightarrow> streams \<Rightarrow> streams" where
  "discover ctx c s =
     (if ss_disposed s \<or> c = 0 \<or> c = sc_self ctx \<or> c \<in> set (ss_asked s) \<or> \<not> sc_supported ctx \<or> \<not> sc_connected ctx
      then s
      else emit_event (Sends (infoRequest c)) (s\<lparr>ss_asked := ss_asked s @ [c]\<rparr>))"

definition discover_fails :: "bool \<Rightarrow> int \<Rightarrow> streams \<Rightarrow> streams" where
  "discover_fails not_connected c s =
     (let s1 = s\<lparr>ss_asked := removeAll c (ss_asked s)\<rparr>
      in if not_connected then s1 else emit_event (Reports ''requeststreaminfo failed'') s1)"

text \<open>
  A client entered view, or changed: \<open>isStreaming\<close> set, cleared, or not told of.
\<close>

definition client_streams :: "stream_client \<Rightarrow> int \<Rightarrow> bool option \<Rightarrow> streams \<Rightarrow> streams" where
  "client_streams ctx c flag s =
     (case flag of
        None \<Rightarrow> s
      | Some True \<Rightarrow> discover ctx c (cancelGone c s)
      | Some False \<Rightarrow> forget_client c s)"

definition client_left :: "stream_client \<Rightarrow> int \<Rightarrow> streams \<Rightarrow> streams" where
  "client_left ctx c s =
     fold (\<lambda>k. on_stream k (drop_pending (isDenied s) (in_view ctx) c)) (map snd (ss_published s))
       (s\<lparr>ss_asked := removeAll c (ss_asked s)\<rparr>)"

text \<open>The constructor: whoever streams already is asked for.\<close>

definition attach_streams :: "bool \<Rightarrow> stream_client \<Rightarrow> streams" where
  "attach_streams remember ctx =
     (if sc_connected ctx
      then fold (\<lambda>(c, names, flag). if flag = Some True then discover ctx c else (\<lambda>s. s)) (sc_view ctx) (new_streams remember)
      else new_streams remember)"

section \<open>Publishing\<close>

record publish_options =
  po_name :: string
  po_source :: "string option"
  po_accessibility :: "string option"
  po_bitrate :: "int option"
  po_viewerLimit :: "int option"
  po_audio :: bool

definition or_default :: "'a option \<Rightarrow> 'a \<Rightarrow> 'a" where
  "or_default v d = (case v of None \<Rightarrow> d | Some x \<Rightarrow> x)"

definition usable :: "stream_client \<Rightarrow> streams \<Rightarrow> stream_error option" where
  "usable ctx s = (if ss_disposed s then Some Streams_Disposed
                   else if \<not> sc_supported ctx then Some Streams_Unsupported else None)"

definition publish_setup :: "publish_options \<Rightarrow> stream_error + stream_setup" where
  "publish_setup opts =
     (case sourceToWire (or_default (po_source opts) ''screen'') of
        None \<Rightarrow> Inl (Bad_Option ''source'')
      | Some source \<Rightarrow>
          (case accessibilityToWire (or_default (po_accessibility opts) ''public'') of
             None \<Rightarrow> Inl (Bad_Option ''accessibility'')
           | Some accessibility \<Rightarrow>
               let bitrate = or_default (po_bitrate opts) 1500000; limit = or_default (po_viewerLimit opts) 0
               in if bitrate < 0 \<or> bitrate > 2147483647 then Inl (Bad_Option ''bitrate'')
                  else if limit < 0 \<or> limit > 65535 then Inl (Bad_Option ''viewerLimit'')
                  else Inr \<lparr>su_name = po_name opts, su_source = source, su_bitrate = nat bitrate,
                         su_accessibility = accessibility, su_viewerLimit = nat limit, su_audio = po_audio opts\<rparr>))"

text \<open>\<open>publish\<close>: an error thrown, or the command to send and the attempt that waits for its answer.\<close>

definition publish ::
  "stream_client \<Rightarrow> (string \<Rightarrow> nat) \<Rightarrow> bool \<Rightarrow> publish_options \<Rightarrow> streams \<Rightarrow> stream_error + command_request \<times> streams" where
  "publish ctx byteLength aborted opts s =
     (case usable ctx s of
        Some e \<Rightarrow> Inl e
      | None \<Rightarrow>
          (case publish_setup opts of
             Inl e \<Rightarrow> Inl e
           | Inr setup \<Rightarrow>
               if \<not> fits byteLength (setupRequest setup) then Inl (Bad_Option ''line too long'')
               else if aborted then Inl Gave_Up
               else Inr (setupRequest setup,
                      s\<lparr>ss_publishing := ss_publishing s @ [length (ss_attempts s)],
                        ss_attempts := ss_attempts s @ [\<lparr>at_outcome = None, at_abandoned = False, at_reset = False,
                          at_answered = False, at_stream = None, at_over = None\<rparr>]\<rparr>)))"

text \<open>The caller gives up, by timeout or abort, or is given what the attempt came to.\<close>

definition publish_gives_up :: "nat \<Rightarrow> streams \<Rightarrow> streams" where
  "publish_gives_up n s =
     (let a = ss_attempts s ! n
      in if at_outcome a \<noteq> None \<or> at_over a \<noteq> None then s
         else put_attempt n (a\<lparr>at_abandoned := True, at_over := Some (Failed Gave_Up)\<rparr>) s)"

definition publish_returns :: "nat \<Rightarrow> streams \<Rightarrow> streams" where
  "publish_returns n s =
     (let a = ss_attempts s ! n
      in if at_over a \<noteq> None then s
         else (case at_outcome a of
                 None \<Rightarrow> s
               | Some o' \<Rightarrow> put_attempt n (a\<lparr>at_abandoned := (o' \<noteq> Got), at_over := Some o'\<rparr>) s))"

definition adopt :: "stream_info \<Rightarrow> streams \<Rightarrow> nat \<times> streams" where
  "adopt info s =
     (let s1 = learn info s
      in case map_of (ss_published s1) (si_id info) of
           Some k \<Rightarrow> (k, s1)
         | None \<Rightarrow> (length (ss_streams s1),
             s1\<lparr>ss_published := AList.update (si_id info) (length (ss_streams s1)) (ss_published s1),
                ss_streams := ss_streams s1 @ [new_published (si_id info)]\<rparr>))"

definition orphan :: "stream_info \<Rightarrow> streams \<Rightarrow> streams" where
  "orphan info s =
     emit_event (Sends (stopRequest (si_id info) 0))
       (end_stream (si_id info) 0 SC_Stopped
          (s\<lparr>ss_orphans := bounded_add MAX_ORPHANS (si_id info) (ss_orphans s)\<rparr>))"

text \<open>The last of the answer's rows that is a stream.\<close>

definition announced_stream :: "(string \<times> stream_info) list \<Rightarrow> params list \<Rightarrow> stream_info option" where
  "announced_stream infos rows =
     fold (\<lambda>row found. case streamInfoFrom row (map_of infos (str row ''id'')) of None \<Rightarrow> found | Some i \<Rightarrow> Some i)
       rows None"

definition attempt_answered :: "nat \<Rightarrow> streams \<Rightarrow> streams" where
  "attempt_answered n s = (put_attempt n ((ss_attempts s ! n)\<lparr>at_answered := True\<rparr>) s)
     \<lparr>ss_publishing := removeAll n (ss_publishing s)\<rparr>"

definition setup_answered :: "stream_client \<Rightarrow> nat \<Rightarrow> params list \<Rightarrow> streams \<Rightarrow> streams" where
  "setup_answered ctx n rows s =
     (let a = ss_attempts s ! n; info = announced_stream (ss_infos s) rows
      in attempt_answered n
           (if at_reset a then
              (case info of
                 Some i \<Rightarrow> if sc_connected ctx then emit_event (Sends (stopRequest (si_id i) 0)) s else s
               | None \<Rightarrow> s)
            else (case info of
                    None \<Rightarrow> settle_publish n (Failed No_Stream_Announced) s
                  | Some i \<Rightarrow>
                      if at_abandoned a then orphan i s
                      else if si_id i \<in> set (ss_stopped s) then settle_publish n (Failed (Stream_Ended_Error (si_id i))) s
                      else (case adopt i s of
                              (k, s1) \<Rightarrow> settle_publish n Got
                                (put_attempt n ((ss_attempts s1 ! n)\<lparr>at_stream := Some k\<rparr>) s1)))))"

definition setup_failed :: "nat \<Rightarrow> stream_error \<Rightarrow> streams \<Rightarrow> streams" where
  "setup_failed n e s = attempt_answered n (settle_publish n (Failed e) s)"

text \<open>\<open>PublishedImpl.stop\<close>, once the server took the command.\<close>

definition stop_published :: "nat \<Rightarrow> nat \<Rightarrow> streams \<Rightarrow> streams" where
  "stop_published k reason s = end_stream (pb_id (ss_streams s ! k)) reason SC_Stopped s"

section \<open>Watching\<close>

text \<open>\<open>watch\<close>: an error thrown, or the command to send. The target is an id, or a stream's info.\<close>

definition watch_stream ::
  "stream_client \<Rightarrow> bool \<Rightarrow> string + stream_info \<Rightarrow> string \<Rightarrow> streams \<Rightarrow> stream_error + command_request \<times> streams" where
  "watch_stream ctx aborted target message s =
     (case usable ctx s of
        Some e \<Rightarrow> Inl e
      | None \<Rightarrow>
          (case (case target of Inl i \<Rightarrow> map_of (ss_infos s) i | Inr info \<Rightarrow> Some info) of
             None \<Rightarrow> Inl (Stream_Ended_Error (case target of Inl i \<Rightarrow> i | Inr info \<Rightarrow> si_id info))
           | Some known \<Rightarrow>
               let i = (case target of Inl t \<Rightarrow> t | Inr info \<Rightarrow> si_id info)
               in if (case si_transport known of Some (Numbered _) \<Rightarrow> True | _ \<Rightarrow> False) then Inl (Transport_Unsupported i)
                  else if map_of (ss_watching s) i \<noteq> None then Inl (Already_Watching i)
                  else if aborted then Inl Gave_Up
                  else Inr (joinRequest i (si_client known) message False,
                         s\<lparr>ss_watching := AList.update i (length (ss_watches s)) (ss_watching s),
                           ss_closedViews := removeAll i (ss_closedViews s),
                           ss_watches := ss_watches s @ [\<lparr>wt_id = i, wt_streamer = si_client known, wt_early = [],
                             wt_overflowed = False, wt_sending = True, wt_sent = False, wt_settled = None,
                             wt_view = None, wt_over = None\<rparr>]\<rparr>)))"

text \<open>
  The \<open>catch\<close> of \<open>watch\<close>: what the caller is given when the request failed, when the wait ran out or
  when the promise was rejected. A watch that is no longer this stream's, or that has its view, ends
  as it was settled.
\<close>

definition is_ended_error :: "stream_error \<Rightarrow> bool" where
  "is_ended_error e = (case e of Stream_Ended_Error _ \<Rightarrow> True | _ \<Rightarrow> False)"

definition was_answered :: "stream_error \<Rightarrow> bool" where
  "was_answered e = (case e of Join_Denied _ _ \<Rightarrow> True | Connection_Gone \<Rightarrow> True | Server_Refused _ \<Rightarrow> True | _ \<Rightarrow> False)"

definition watch_over :: "nat \<Rightarrow> promise_end option \<Rightarrow> streams \<Rightarrow> streams" where
  "watch_over n o' s = set_watch n ((ss_watches s ! n)\<lparr>wt_sending := False, wt_over := o'\<rparr>) s"

definition watch_catch :: "nat \<Rightarrow> stream_error \<Rightarrow> streams \<Rightarrow> streams" where
  "watch_catch n e s =
     (let w = ss_watches s ! n
      in if map_of (ss_watching s) (wt_id w) \<noteq> Some n \<or> wt_view w \<noteq> None then
           (if wt_view w \<noteq> None then watch_over n (Some Got) s
            else if is_ended_error e then watch_over n (Some (Failed e)) s
            else watch_over n (wt_settled w) s)
         else let s1 = s\<lparr>ss_watching := AList.delete (wt_id w) (ss_watching s)\<rparr>;
                  s2 = (if is_ended_error e then end_stream (wt_id w) 0 SC_Gone s1
                        else if wt_sent w \<and> \<not> was_answered e
                        then emit_event (Sends (leave_request (wt_id w) (wt_streamer w))) s1 else s1)
              in watch_over n (Some (Failed e)) s2)"

text \<open>
  The request was handed to the connection; it returned, or failed; the wait ran out or was aborted;
  the promise, settled, is given to the caller that waits for it.
\<close>

definition watch_on_sent :: "nat \<Rightarrow> streams \<Rightarrow> streams" where
  "watch_on_sent n s = set_watch n ((ss_watches s ! n)\<lparr>wt_sent := True\<rparr>) s"

definition watch_sent :: "nat \<Rightarrow> streams \<Rightarrow> streams" where
  "watch_sent n s = set_watch n ((ss_watches s ! n)\<lparr>wt_sent := True, wt_sending := False\<rparr>) s"

definition watch_settles :: "nat \<Rightarrow> streams \<Rightarrow> streams" where
  "watch_settles n s =
     (case wt_settled (ss_watches s ! n) of
        None \<Rightarrow> s
      | Some Got \<Rightarrow> watch_over n (Some Got) s
      | Some (Failed e) \<Rightarrow> watch_catch n e s)"

text \<open>\<open>close\<close> of a view: it is over here, and the server is told.\<close>

definition close_view :: "nat \<Rightarrow> streams \<Rightarrow> streams" where
  "close_view n s =
     (let w = ss_watches s ! n
      in case wt_view w of
           Some v \<Rightarrow> if sp_closed v \<noteq> None then s
                     else emit_event (Sends (leave_request (wt_id w) (wt_streamer w))) (end_watch_view PE_Closed n s)
         | None \<Rightarrow> s)"

section \<open>The end of everything\<close>

definition reset_attempt :: "stream_error \<Rightarrow> nat \<Rightarrow> streams \<Rightarrow> streams" where
  "reset_attempt gone n s =
     settle_publish n (Failed gone) (put_attempt n ((ss_attempts s ! n)\<lparr>at_reset := True\<rparr>) s)"

definition reset_watch :: "stream_error \<Rightarrow> peer_end \<Rightarrow> nat \<Rightarrow> streams \<Rightarrow> streams" where
  "reset_watch gone cause n s =
     (if wt_view (ss_watches s ! n) \<noteq> None then end_watch_view cause n s else settle_watch n (Failed gone) s)"

definition reset_streams :: "stream_client \<Rightarrow> bool \<Rightarrow> streams \<Rightarrow> streams" where
  "reset_streams ctx disposed s =
     (let gone = (if disposed then Streams_Disposed else Connection_Gone);
          s1 = (fold (reset_attempt gone) (ss_publishing s) (emit_event Everything_Over s))
                 \<lparr>ss_publishing := [], ss_orphans := [], ss_stopped := []\<rparr>;
          s2 = (if \<not> sc_connected ctx then s1
                else fold (\<lambda>(i, n). emit_event (Sends (leave_request i (wt_streamer (ss_watches s ! n))))) (ss_watching s)
                       (fold (\<lambda>(i, k). emit_event (Sends (stopRequest (pb_id (ss_streams s ! k)) 0))) (ss_published s) s1));
          s3 = s2\<lparr>ss_goneTimers := [], ss_published := [], ss_watching := [], ss_infos := [], ss_asked := []\<rparr>;
          s4 = fold (\<lambda>k. on_stream k (finish_stream (if disposed then By_Dispose else By_Drop))) (map snd (ss_published s)) s3;
          s5 = (if disposed then s4\<lparr>ss_denied := []\<rparr> else s4);
          s6 = fold (reset_watch gone (if disposed then PE_Disposed else PE_Disconnected)) (map snd (ss_watching s)) s5
      in s6\<lparr>ss_closedViews := []\<rparr>)"

definition dispose :: "stream_client \<Rightarrow> streams \<Rightarrow> streams" where
  "dispose ctx s = (if ss_disposed s then s else reset_streams ctx True (s\<lparr>ss_disposed := True\<rparr>))"

end
