(* ===== verification/Published_Facts.thy ===== *)
theory Published_Facts
  imports Stream_Published
begin

text \<open>
  What holds of a published stream whatever its viewers do: requests are announced in the order
  they came, each is answered or closed once, and nothing is left open when the stream ends.
\<close>

section \<open>The invariant\<close>

text \<open>The slots announced, in order.\<close>

fun announced_slot :: "published_event \<Rightarrow> nat list" where
  "announced_slot (Asks_To_Watch t n) = [t]"
| "announced_slot _ = []"

definition announced_slots :: "published \<Rightarrow> nat list" where
  "announced_slots p = concat (map announced_slot (pb_events p))"

definition current_slot :: "published \<Rightarrow> nat \<times> slot \<Rightarrow> bool" where
  "current_slot p = (\<lambda>(t, sl). map_of (pb_resolving p) (sl_client sl) = Some t)"

text \<open>The slots, while they are being gone through: \<open>q\<close> are those still in the queue.\<close>

definition slots_ok :: "published \<Rightarrow> (nat \<times> slot) list \<Rightarrow> bool" where
  "slots_ok p q \<longleftrightarrow> sorted_wrt (<) (announced_slots p @ map fst q) \<and>
     (\<forall>t\<in>set (announced_slots p @ map fst q). t < pb_next p) \<and>
     (\<forall>c t. map_of (pb_resolving p) c = Some t \<longrightarrow> (\<exists>sl. (t, sl) \<in> set q \<and> sl_client sl = c)) \<and>
     (\<forall>(t, sl)\<in>set q. \<forall>v. sl_identity sl = Some v \<longrightarrow> vi_client v = sl_client sl)"

definition all_looked_up :: "published \<Rightarrow> (nat \<times> slot) list \<Rightarrow> bool" where
  "all_looked_up p q \<longleftrightarrow>
     (\<forall>(t, sl)\<in>set q. current_slot p (t, sl) \<and> sl_identity sl = None \<longrightarrow> sl_looking sl)"

definition head_waits :: "published \<Rightarrow> bool" where
  "head_waits p \<longleftrightarrow>
     (case pb_slots p of [] \<Rightarrow> True | (t, sl) # _ \<Rightarrow> current_slot p (t, sl) \<and> sl_identity sl = None)"

definition asker :: "published \<Rightarrow> nat \<Rightarrow> int" where
  "asker p n = vi_client (jr_viewer (pb_requests p ! n))"

definition open_request :: "published \<Rightarrow> nat \<Rightarrow> bool" where
  "open_request p n \<longleftrightarrow> n < length (pb_requests p) \<and> jr_state (pb_requests p ! n) = RS_Pending"

definition requests_ok :: "published \<Rightarrow> bool" where
  "requests_ok p \<longleftrightarrow>
     (\<forall>c n. map_of (pb_pending p) c = Some n \<longrightarrow> n < length (pb_requests p) \<and> asker p n = c) \<and>
     (\<forall>n. open_request p n \<longrightarrow> map_of (pb_pending p) (asker p n) = Some n \<and>
        map_of (pb_peers p) (asker p n) = None \<and> map_of (pb_resolving p) (asker p n) = None) \<and>
     (\<forall>c. map_of (pb_resolving p) c \<noteq> None \<longrightarrow> map_of (pb_peers p) c = None)"

definition peers_ok :: "published \<Rightarrow> bool" where
  "peers_ok p \<longleftrightarrow>
     (\<forall>c k. map_of (pb_peers p) c = Some k \<longrightarrow>
        k < length (pb_made p) \<and> sp_client (pb_made p ! k) = c \<and> sp_closed (pb_made p ! k) = None) \<and>
     (\<forall>k<length (pb_made p). sp_closed (pb_made p ! k) = None \<longrightarrow>
        map_of (pb_peers p) (sp_client (pb_made p ! k)) = Some k)"

text \<open>The events that settle a request, or close a peer.\<close>

fun settles :: "nat \<Rightarrow> published_event \<Rightarrow> bool" where
  "settles n (Request_Over m st) = (m = n)"
| "settles n (Answers m b) = (m = n)"
| "settles n _ = False"

fun closes_peer :: "nat \<Rightarrow> published_event \<Rightarrow> bool" where
  "closes_peer k (Peer_Over m st) = (m = k)"
| "closes_peer k _ = False"

definition once_ok :: "published \<Rightarrow> bool" where
  "once_ok p \<longleftrightarrow>
     (\<forall>n. length (filter (settles n) (pb_events p)) =
        (if n < length (pb_requests p) \<and> \<not> open_request p n then 1 else 0)) \<and>
     (\<forall>k. length (filter (closes_peer k) (pb_events p)) =
        (if k < length (pb_made p) \<and> sp_closed (pb_made p ! k) \<noteq> None then 1 else 0))"

definition ended_ok :: "published \<Rightarrow> bool" where
  "ended_ok p \<longleftrightarrow> (pb_ended p \<longrightarrow>
     pb_slots p = [] \<and> pb_resolving p = [] \<and> pb_pending p = [] \<and> pb_peers p = [])"

definition published_ok :: "published \<Rightarrow> bool" where
  "published_ok p \<longleftrightarrow> slots_ok p (pb_slots p) \<and> all_looked_up p (pb_slots p) \<and> head_waits p \<and>
     requests_ok p \<and> peers_ok p \<and> once_ok p \<and> ended_ok p"

lemma new_published_ok: "published_ok (new_published i)"
  by (simp add: published_ok_def new_published_def slots_ok_def announced_slots_def all_looked_up_def
      head_waits_def requests_ok_def open_request_def peers_ok_def once_ok_def ended_ok_def)

section \<open>Going through the slots\<close>

text \<open>What the announcements leave alone, beside the slots and the requests.\<close>

definition rest_ok :: "published \<Rightarrow> bool" where
  "rest_ok p \<longleftrightarrow> requests_ok p \<and> peers_ok p \<and> once_ok p"

lemma requests_okD:
  assumes "requests_ok p"
  shows "map_of (pb_pending p) c = Some n \<Longrightarrow> n < length (pb_requests p) \<and> asker p n = c"
    and "open_request p n \<Longrightarrow> map_of (pb_pending p) (asker p n) = Some n \<and>
      map_of (pb_peers p) (asker p n) = None \<and> map_of (pb_resolving p) (asker p n) = None"
    and "map_of (pb_resolving p) c = Some t \<Longrightarrow> map_of (pb_peers p) c = None"
  using assms unfolding requests_ok_def by (blast, blast, metis option.distinct(1))

lemma requests_okI:
  assumes "\<And>c n. map_of (pb_pending p) c = Some n \<Longrightarrow> n < length (pb_requests p) \<and> asker p n = c"
    and "\<And>n. open_request p n \<Longrightarrow> map_of (pb_pending p) (asker p n) = Some n \<and>
      map_of (pb_peers p) (asker p n) = None \<and> map_of (pb_resolving p) (asker p n) = None"
    and "\<And>c t. map_of (pb_resolving p) c = Some t \<Longrightarrow> map_of (pb_peers p) c = None"
  shows "requests_ok p"
  using assms unfolding requests_ok_def by (metis option.exhaust)

lemma announce_slot_ok:
  assumes "rest_ok p" "map_of (pb_resolving p) (sl_client sl) = Some t" "vi_client v = sl_client sl"
  shows "rest_ok (announce_slot denied t sl v p)"
proof -
  let ?c = "sl_client sl" and ?n = "length (pb_requests p)"
  have r: "requests_ok p" "peers_ok p" "once_ok p" using assms(1) by (simp_all add: rest_ok_def)
  have idle: "map_of (pb_peers p) ?c = None" using requests_okD(3)[OF r(1) assms(2)] .
  have no: "\<not> (open_request p n \<and> asker p n = ?c)" for n
    using requests_okD(2)[OF r(1), of n] assms(2) by auto
  show ?thesis
  proof (cases "denied v")
    case True
    define p' where "p' = announce_slot denied t sl v p"
    have f: "pb_requests p' = pb_requests p" "pb_pending p' = pb_pending p" "pb_peers p' = pb_peers p"
      "pb_made p' = pb_made p" "map_of (pb_resolving p') = (map_of (pb_resolving p))(?c := None)"
      "pb_events p' = pb_events p"
      using True by (simp_all add: p'_def announce_slot_def delete_conv')
    have "asker p' = asker p" "open_request p' = open_request p"
      by (simp_all add: fun_eq_iff asker_def open_request_def f)
    with r have "requests_ok p'" "peers_ok p'" "once_ok p'"
      by (simp_all add: requests_ok_def peers_ok_def once_ok_def f)
    then show ?thesis by (simp add: rest_ok_def p'_def)
  next
    case False
    define p' where "p' = announce_slot denied t sl v p"
    have f: "pb_requests p' = pb_requests p @ [\<lparr>jr_viewer = v, jr_message = sl_message sl, jr_state = RS_Pending\<rparr>]"
      "map_of (pb_pending p') = (map_of (pb_pending p))(?c \<mapsto> ?n)" "pb_peers p' = pb_peers p" "pb_made p' = pb_made p"
      "map_of (pb_resolving p') = (map_of (pb_resolving p))(?c := None)"
      "pb_events p' = pb_events p @ [Asks_To_Watch t ?n]"
      using False by (simp_all add: p'_def announce_slot_def say_def update_conv' delete_conv')
    have a: "n < ?n \<Longrightarrow> asker p' n = asker p n" "asker p' ?n = ?c" for n
      using assms(3) by (simp_all add: asker_def f nth_append)
    have o: "open_request p' n \<longleftrightarrow> n = ?n \<or> open_request p n" for n
      by (auto simp: open_request_def f nth_append)
    have "requests_ok p'"
    proof (rule requests_okI)
      fix c n assume "map_of (pb_pending p') c = Some n"
      then have "c = ?c \<and> n = ?n \<or> map_of (pb_pending p) c = Some n"
        by (cases "c = ?c") (simp_all add: f)
      then show "n < length (pb_requests p') \<and> asker p' n = c"
      proof
        assume "map_of (pb_pending p) c = Some n"
        then show ?thesis using requests_okD(1)[OF r(1), of c n] by (simp add: a f)
      qed (simp add: a f)
    next
      fix n assume "open_request p' n"
      then consider "n = ?n" | "open_request p n" using o by blast
      then show "map_of (pb_pending p') (asker p' n) = Some n \<and> map_of (pb_peers p') (asker p' n) = None \<and>
          map_of (pb_resolving p') (asker p' n) = None"
      proof cases
        case 2
        then have "n < ?n" by (simp add: open_request_def)
        then show ?thesis using 2 no[of n] requests_okD(2)[OF r(1) 2] by (simp add: a f)
      qed (simp add: a f idle)
    next
      fix c u assume "map_of (pb_resolving p') c = Some u"
      then show "map_of (pb_peers p') c = None"
        using requests_okD(3)[OF r(1), of c u] by (simp add: f split: if_splits)
    qed
    moreover have "peers_ok p'" using r(2) by (simp add: peers_ok_def f)
    moreover have "once_ok p'"
      using r(3) unfolding once_ok_def o by (auto simp: f less_Suc_eq split: if_splits)
    ultimately show ?thesis by (simp add: rest_ok_def p'_def)
  qed
qed

lemma slots_irrelevant [simp]:
  "slots_ok (p\<lparr>pb_slots := x\<rparr>) q = slots_ok p q" "all_looked_up (p\<lparr>pb_slots := x\<rparr>) q = all_looked_up p q"
  "current_slot (p\<lparr>pb_slots := x\<rparr>) = current_slot p" "rest_ok (p\<lparr>pb_slots := x\<rparr>) = rest_ok p"
  by (simp_all add: slots_ok_def announced_slots_def all_looked_up_def current_slot_def rest_ok_def
      requests_ok_def open_request_def asker_def peers_ok_def once_ok_def fun_eq_iff)

lemma announce_slot_fields:
  "pb_ended (announce_slot denied t sl v p) = pb_ended p" "pb_next (announce_slot denied t sl v p) = pb_next p"
  "map_of (pb_resolving (announce_slot denied t sl v p)) = (map_of (pb_resolving p))(sl_client sl := None)"
  "announced_slots (announce_slot denied t sl v p) = announced_slots p @ (if denied v then [] else [t])"
  by (simp_all add: announce_slot_def say_def announced_slots_def delete_conv' Let_def)

lemma drop_head_queue:
  assumes "slots_ok p ((t, sl) # q)" "\<not> current_slot p (t, sl)"
  shows "slots_ok p q"
  using assms unfolding slots_ok_def current_slot_def
  by (fastforce simp: sorted_wrt_append)

lemma announce_slot_queue:
  assumes "slots_ok p ((t, sl) # q)" "current_slot p (t, sl)"
  shows "slots_ok (announce_slot denied t sl v p) q"
proof -
  let ?p = "announce_slot denied t sl v p"
  have s: "sorted_wrt (<) (announced_slots p @ t # map fst q)"
    "\<forall>u\<in>set (announced_slots p @ t # map fst q). u < pb_next p" using assms(1) by (simp_all add: slots_ok_def)
  have "\<exists>sl'. (u, sl') \<in> set q \<and> sl_client sl' = c" if "map_of (pb_resolving ?p) c = Some u" for c u
  proof -
    have "c \<noteq> sl_client sl" "map_of (pb_resolving p) c = Some u"
      using that by (auto simp: announce_slot_fields split: if_splits)
    with assms(1) show ?thesis by (fastforce simp: slots_ok_def)
  qed
  moreover have "\<forall>(u, sl')\<in>set q. \<forall>w. sl_identity sl' = Some w \<longrightarrow> vi_client w = sl_client sl'"
    using assms(1) by (simp add: slots_ok_def)
  moreover have "sorted_wrt (<) (announced_slots ?p @ map fst q)" "\<forall>u\<in>set (announced_slots ?p @ map fst q). u < pb_next ?p"
    using s by (auto simp: announce_slot_fields sorted_wrt_append)
  ultimately show ?thesis by (simp add: slots_ok_def)
qed

lemma announce_ready_ok:
  assumes "slots_ok p q" "all_looked_up p q" "rest_ok p" "\<not> pb_ended p"
  shows "slots_ok (announce_ready denied q p) (pb_slots (announce_ready denied q p)) \<and>
    all_looked_up (announce_ready denied q p) (pb_slots (announce_ready denied q p)) \<and>
    head_waits (announce_ready denied q p) \<and> rest_ok (announce_ready denied q p) \<and>
    \<not> pb_ended (announce_ready denied q p)"
  using assms
proof (induction q arbitrary: p)
  case Nil
  then show ?case by (simp add: head_waits_def)
next
  case (Cons x q)
  obtain t sl where x: "x = (t, sl)" by fastforce
  have looked: "all_looked_up p q" using Cons.prems(2) by (simp add: all_looked_up_def)
  show ?case
  proof (cases "current_slot p (t, sl)")
    case False
    then have "slots_ok p q" using Cons.prems(1) drop_head_queue by (simp add: x)
    from Cons.IH[OF this looked Cons.prems(3,4)] show ?thesis using False by (simp add: x current_slot_def)
  next
    case True
    show ?thesis
    proof (cases "sl_identity sl")
      case None
      then show ?thesis using True Cons.prems by (simp add: x current_slot_def head_waits_def)
    next
      case (Some v)
      let ?p = "announce_slot denied t sl v p"
      have "vi_client v = sl_client sl" using Cons.prems(1) Some by (simp add: x slots_ok_def)
      then have "rest_ok ?p" using announce_slot_ok Cons.prems(3) True by (simp add: current_slot_def)
      moreover have "slots_ok ?p q" using announce_slot_queue[OF Cons.prems(1)[unfolded x] True] .
      moreover have "all_looked_up ?p q"
        using looked unfolding all_looked_up_def current_slot_def
        by (auto simp: announce_slot_fields split: if_splits)
      moreover have "\<not> pb_ended ?p" using Cons.prems(4) by (simp add: announce_slot_fields)
      ultimately show ?thesis using Cons.IH[of ?p] True Some Cons.prems(4) by (simp add: x current_slot_def)
    qed
  qed
qed

lemma advance_ok:
  assumes "slots_ok p (pb_slots p)" "rest_ok p" "\<not> pb_ended p"
  shows "published_ok (advance_slots denied in_view p)"
proof -
  let ?q = "map (look_up in_view p) (pb_slots p)"
  have f: "fst (look_up in_view p x) = fst x" "sl_client (snd (look_up in_view p x)) = sl_client (snd x)" for x
    by (cases x; simp add: look_up_def split: option.split)+
  have fst_q: "map fst ?q = map fst (pb_slots p)" by (simp add: f)
  have "\<exists>sl. (t, sl) \<in> set ?q \<and> sl_client sl = c" if r: "map_of (pb_resolving p) c = Some t" for c t
  proof -
    obtain sl where sl: "(t, sl) \<in> set (pb_slots p)" "sl_client sl = c"
      using r assms(1) unfolding slots_ok_def by blast
    then have "look_up in_view p (t, sl) \<in> set ?q" by simp
    moreover have "look_up in_view p (t, sl) = (t, snd (look_up in_view p (t, sl)))"
      using f(1)[of "(t, sl)"] by (cases "look_up in_view p (t, sl)") simp
    ultimately show ?thesis using f(2)[of "(t, sl)"] sl(2) by (metis snd_conv)
  qed
  moreover have "vi_client v = sl_client sl"
    if i: "(t, sl) \<in> set ?q" "sl_identity sl = Some v" for t sl v
  proof -
    obtain sl0 where sl0: "(t, sl0) \<in> set (pb_slots p)" "look_up in_view p (t, sl0) = (t, sl)"
      using i(1) f(1) by (metis (no_types, lifting) fst_conv imageE list.set_map prod.collapse)
    have "sl_identity sl0 = Some w \<Longrightarrow> vi_client w = sl_client sl0" for w
      using assms(1) sl0(1) unfolding slots_ok_def by fastforce
    then show ?thesis using sl0(2) i(2)
      by (auto simp: look_up_def viewer_of_def split: if_splits option.splits)
  qed
  ultimately have "slots_ok p ?q" using assms(1) unfolding slots_ok_def fst_q by blast
  moreover have "all_looked_up p ?q"
    unfolding all_looked_up_def by (auto simp: look_up_def current_slot_def split: if_splits option.splits)
  ultimately show ?thesis
    using announce_ready_ok[of p ?q denied] assms(2,3)
    by (simp add: advance_slots_def published_ok_def rest_ok_def ended_ok_def)
qed

lemma published_okD:
  assumes "published_ok p"
  shows "slots_ok p (pb_slots p)" "all_looked_up p (pb_slots p)" "head_waits p" "rest_ok p" "ended_ok p"
  using assms by (simp_all add: published_ok_def rest_ok_def)

text \<open>What waits depends on the slots, the lookups and the announcements only.\<close>

lemma waiting_kept:
  assumes "published_ok p" "pb_slots p' = pb_slots p" "pb_resolving p' = pb_resolving p" "pb_next p' = pb_next p"
    "announced_slots p' = announced_slots p" "rest_ok p'" "ended_ok p'"
  shows "published_ok p'"
proof -
  have c: "current_slot p' = current_slot p" by (simp add: current_slot_def assms(3))
  have "slots_ok p' (pb_slots p') = slots_ok p (pb_slots p)" by (simp only: slots_ok_def assms(2-5))
  moreover have "all_looked_up p' (pb_slots p') = all_looked_up p (pb_slots p)"
    by (simp only: all_looked_up_def c assms(2))
  moreover have "head_waits p' = head_waits p" by (simp only: head_waits_def c assms(2))
  ultimately show ?thesis using assms(1,6,7) by (simp add: published_ok_def rest_ok_def)
qed

lemma once_okD:
  assumes "once_ok p"
  shows "length (filter (settles n) (pb_events p)) =
      (if n < length (pb_requests p) \<and> \<not> open_request p n then 1 else 0)"
    and "length (filter (closes_peer k) (pb_events p)) =
      (if k < length (pb_made p) \<and> sp_closed (pb_made p ! k) \<noteq> None then 1 else 0)"
  using assms unfolding once_ok_def by blast+

lemma none_settled:
  assumes "once_ok p"
  shows "open_request p n \<Longrightarrow> filter (settles n) (pb_events p) = []"
    and "sp_closed (pb_made p ! k) = None \<Longrightarrow> filter (closes_peer k) (pb_events p) = []"
  using once_okD[OF assms, of n] once_okD[OF assms, of k] by simp_all

section \<open>Answers and closings\<close>

lemma answered_rest_ok:
  assumes "rest_ok p" "open_request p n" "st \<noteq> RS_Pending"
    and e: "\<And>m. settles m e \<longleftrightarrow> m = n" "\<And>k. \<not> closes_peer k e"
  shows "rest_ok (say e (set_state st n p))"
    "open_request (say e (set_state st n p)) m \<longleftrightarrow> open_request p m \<and> m \<noteq> n"
    "asker (say e (set_state st n p)) m = asker p m"
proof -
  define p' where "p' = say e (set_state st n p)"
  have n: "n < length (pb_requests p)" using assms(2) by (simp add: open_request_def)
  have f: "pb_pending p' = pb_pending p" "pb_peers p' = pb_peers p" "pb_made p' = pb_made p"
    "pb_resolving p' = pb_resolving p" "pb_events p' = pb_events p @ [e]"
    "pb_requests p' = (pb_requests p)[n := (pb_requests p ! n)\<lparr>jr_state := st\<rparr>]"
    by (simp_all add: p'_def say_def set_state_def)
  have a: "asker p' m = asker p m" for m using n by (simp add: asker_def f nth_list_update)
  have o: "open_request p' m \<longleftrightarrow> open_request p m \<and> m \<noteq> n" for m
    using n assms(3) by (auto simp: open_request_def f nth_list_update)
  have r: "requests_ok p" "peers_ok p" "once_ok p" using assms(1) by (simp_all add: rest_ok_def)
  have "requests_ok p'" using r(1) by (simp add: requests_ok_def a o f)
  moreover have "peers_ok p'" using r(2) by (simp add: peers_ok_def f)
  moreover have "once_ok p'"
  proof -
    have "filter (settles n) (pb_events p) = []" using none_settled(1)[OF r(3) assms(2)] .
    then have "length (filter (settles m) (pb_events p')) =
        (if m < length (pb_requests p') \<and> \<not> open_request p' m then 1 else 0)" for m
      using once_okD(1)[OF r(3), of m] n by (cases "m = n") (simp_all add: f e o)
    moreover have "length (filter (closes_peer k) (pb_events p')) =
        (if k < length (pb_made p') \<and> sp_closed (pb_made p' ! k) \<noteq> None then 1 else 0)" for k
      using once_okD(2)[OF r(3), of k] by (simp add: f e)
    ultimately show ?thesis unfolding once_ok_def by blast
  qed
  ultimately have "rest_ok p'" by (simp add: rest_ok_def)
  with a o show "rest_ok (say e (set_state st n p))"
    "open_request (say e (set_state st n p)) m \<longleftrightarrow> open_request p m \<and> m \<noteq> n"
    "asker (say e (set_state st n p)) m = asker p m" by (simp_all add: p'_def)
qed

lemma close_request_ok:
  assumes "rest_ok p" "n < length (pb_requests p)" "st \<noteq> RS_Pending"
  shows "rest_ok (close_request st n p)"
    "open_request (close_request st n p) m \<longleftrightarrow> open_request p m \<and> m \<noteq> n"
    "asker (close_request st n p) m = asker p m"
proof -
  have "rest_ok (close_request st n p) \<and>
    (open_request (close_request st n p) m \<longleftrightarrow> open_request p m \<and> m \<noteq> n) \<and>
    asker (close_request st n p) m = asker p m"
  proof (cases "open_request p n")
    case True
    then have "close_request st n p = say (Request_Over n st) (set_state st n p)"
      by (simp add: close_request_def open_request_def)
    then show ?thesis using answered_rest_ok[OF assms(1) True assms(3), of "Request_Over n st"] by auto
  next
    case False
    then have "close_request st n p = p" using assms(2) by (simp add: close_request_def open_request_def)
    then show ?thesis using assms(1) False by auto
  qed
  then show "rest_ok (close_request st n p)"
    "open_request (close_request st n p) m \<longleftrightarrow> open_request p m \<and> m \<noteq> n"
    "asker (close_request st n p) m = asker p m" by simp_all
qed

lemma request_failed_ok:
  assumes "rest_ok p" "\<not> open_request p n" "st \<noteq> RS_Pending"
  shows "rest_ok (set_state st n p)"
proof -
  define p' where "p' = set_state st n p"
  have f: "pb_pending p' = pb_pending p" "pb_peers p' = pb_peers p" "pb_made p' = pb_made p"
    "pb_resolving p' = pb_resolving p" "pb_events p' = pb_events p"
    "pb_requests p' = (pb_requests p)[n := (pb_requests p ! n)\<lparr>jr_state := st\<rparr>]"
    by (simp_all add: p'_def set_state_def)
  have a: "asker p' m = asker p m" for m
    by (cases "n < length (pb_requests p)") (simp_all add: asker_def f nth_list_update list_update_beyond)
  have o: "open_request p' m \<longleftrightarrow> open_request p m" for m
    using assms(2,3) by (cases "m = n") (auto simp: open_request_def f)
  have r: "requests_ok p" "peers_ok p" "once_ok p" using assms(1) by (simp_all add: rest_ok_def)
  have "requests_ok p'" using r(1) by (simp add: requests_ok_def a o f)
  moreover have "peers_ok p'" using r(2) by (simp add: peers_ok_def f)
  moreover have "once_ok p'" using r(3) by (simp add: once_ok_def o f)
  ultimately show ?thesis by (simp add: rest_ok_def p'_def)
qed

section \<open>Peers\<close>

lemma peers_okD:
  assumes "peers_ok p"
  shows "map_of (pb_peers p) c = Some k \<Longrightarrow>
      k < length (pb_made p) \<and> sp_client (pb_made p ! k) = c \<and> sp_closed (pb_made p ! k) = None"
    and "k < length (pb_made p) \<Longrightarrow> sp_closed (pb_made p ! k) = None \<Longrightarrow>
      map_of (pb_peers p) (sp_client (pb_made p ! k)) = Some k"
  using assms unfolding peers_ok_def by blast+

lemma peer_ended_ok:
  assumes "rest_ok p" "k < length (pb_made p)" "sp_closed (pb_made p ! k) = None"
  shows "rest_ok (end_peer cause k p)"
proof -
  let ?e = "pb_made p ! k" and ?c = "sp_client (pb_made p ! k)"
  define p' where "p' = end_peer cause k p"
  have r: "requests_ok p" "peers_ok p" "once_ok p" using assms(1) by (simp_all add: rest_ok_def)
  have mine: "map_of (pb_peers p) ?c = Some k" using peers_okD(2)[OF r(2) assms(2,3)] .
  have f: "pb_requests p' = pb_requests p" "pb_pending p' = pb_pending p" "pb_resolving p' = pb_resolving p"
    "map_of (pb_peers p') = (map_of (pb_peers p))(?c := None)" "pb_events p' = pb_events p @ [Peer_Over k cause]"
    "pb_made p' = (pb_made p)[k := ?e\<lparr>sp_closed := Some cause\<rparr>]"
    using assms(3) mine by (simp_all add: p'_def end_peer_def set_peer_def say_def Let_def delete_conv')
  have ao: "asker p' = asker p" "open_request p' = open_request p"
    by (simp_all add: fun_eq_iff asker_def open_request_def f)
  have "requests_ok p'" using r(1) by (auto simp: requests_ok_def ao f)
  moreover have "peers_ok p'" unfolding peers_ok_def
  proof (intro conjI allI impI)
    fix c j assume "map_of (pb_peers p') c = Some j"
    then have "c \<noteq> ?c" and j: "map_of (pb_peers p) c = Some j" by (auto simp: f split: if_splits)
    then have "j \<noteq> k" using peers_okD(1)[OF r(2) j] by auto
    with peers_okD(1)[OF r(2) j] show "j < length (pb_made p')" "sp_client (pb_made p' ! j) = c"
      "sp_closed (pb_made p' ! j) = None" by (simp_all add: f)
  next
    fix j assume j: "j < length (pb_made p')" "sp_closed (pb_made p' ! j) = None"
    then have "j \<noteq> k" using assms(2) by (auto simp: f)
    with j have "map_of (pb_peers p) (sp_client (pb_made p ! j)) = Some j"
      using peers_okD(2)[OF r(2), of j] by (simp add: f)
    moreover from this have "sp_client (pb_made p ! j) \<noteq> ?c" using mine \<open>j \<noteq> k\<close> by auto
    ultimately show "map_of (pb_peers p') (sp_client (pb_made p' ! j)) = Some j"
      using \<open>j \<noteq> k\<close> by (simp add: f)
  qed
  moreover have "once_ok p'"
  proof -
    have "filter (closes_peer k) (pb_events p) = []" using none_settled(2)[OF r(3) assms(3)] .
    then have "length (filter (closes_peer j) (pb_events p')) =
        (if j < length (pb_made p') \<and> sp_closed (pb_made p' ! j) \<noteq> None then 1 else 0)" for j
      using once_okD(2)[OF r(3), of j] assms(2) by (cases "j = k") (simp_all add: f)
    moreover have "length (filter (settles m) (pb_events p')) =
        (if m < length (pb_requests p') \<and> \<not> open_request p' m then 1 else 0)" for m
      using once_okD(1)[OF r(3), of m] by (simp add: f ao)
    ultimately show ?thesis unfolding once_ok_def by blast
  qed
  ultimately show ?thesis by (simp add: rest_ok_def p'_def)
qed

lemma end_peer_ok:
  assumes "rest_ok p" "k < length (pb_made p)"
  shows "rest_ok (end_peer cause k p)"
proof (cases "sp_closed (pb_made p ! k) = None")
  case True
  then show ?thesis using peer_ended_ok[OF assms] by blast
next
  case False
  then have "end_peer cause k p = p" by (simp add: end_peer_def)
  then show ?thesis using assms(1) by simp
qed

lemma peer_opened_ok:
  assumes "rest_ok p" "map_of (pb_peers p) c = None" "map_of (pb_resolving p) c = None"
    and no: "\<And>n. open_request p n \<Longrightarrow> asker p n \<noteq> c"
  shows "rest_ok (openViewer c p)"
proof -
  define p' where "p' = openViewer c p"
  let ?k = "length (pb_made p)"
  have r: "requests_ok p" "peers_ok p" "once_ok p" using assms(1) by (simp_all add: rest_ok_def)
  have f: "pb_requests p' = pb_requests p" "pb_pending p' = pb_pending p" "pb_resolving p' = pb_resolving p"
    "map_of (pb_peers p') = (map_of (pb_peers p))(c \<mapsto> ?k)" "pb_events p' = pb_events p"
    "pb_made p' = pb_made p @ [\<lparr>sp_client = c, sp_closed = None, sp_inbox = []\<rparr>]"
    by (simp_all add: p'_def openViewer_def update_conv')
  have ao: "asker p' = asker p" "open_request p' = open_request p"
    by (simp_all add: fun_eq_iff asker_def open_request_def f)
  have "requests_ok p'"
  proof (rule requests_okI)
    fix d n assume "map_of (pb_pending p') d = Some n"
    then show "n < length (pb_requests p') \<and> asker p' n = d" using requests_okD(1)[OF r(1), of d n] by (simp add: f ao)
  next
    fix n assume "open_request p' n"
    then show "map_of (pb_pending p') (asker p' n) = Some n \<and> map_of (pb_peers p') (asker p' n) = None \<and>
        map_of (pb_resolving p') (asker p' n) = None"
      using requests_okD(2)[OF r(1), of n] no[of n] by (simp add: f ao)
  next
    fix d t assume "map_of (pb_resolving p') d = Some t"
    then show "map_of (pb_peers p') d = None" using requests_okD(3)[OF r(1), of d t] assms(3) by (auto simp: f)
  qed
  moreover have "peers_ok p'" unfolding peers_ok_def
  proof (intro conjI allI impI)
    fix d j assume "map_of (pb_peers p') d = Some j"
    then have "d = c \<and> j = ?k \<or> map_of (pb_peers p) d = Some j" by (auto simp: f split: if_splits)
    then show "j < length (pb_made p')" "sp_client (pb_made p' ! j) = d" "sp_closed (pb_made p' ! j) = None"
      using peers_okD(1)[OF r(2), of d j] by (auto simp: f nth_append)
  next
    fix j assume j: "j < length (pb_made p')" "sp_closed (pb_made p' ! j) = None"
    show "map_of (pb_peers p') (sp_client (pb_made p' ! j)) = Some j"
    proof (cases "j < ?k")
      case True
      with j(2) have "map_of (pb_peers p) (sp_client (pb_made p ! j)) = Some j"
        using peers_okD(2)[OF r(2) True] by (simp add: f nth_append)
      moreover from this have "sp_client (pb_made p ! j) \<noteq> c" using assms(2) by auto
      ultimately show ?thesis using True by (simp add: f nth_append)
    next
      case False
      with j(1) show ?thesis by (simp add: f nth_append less_Suc_eq)
    qed
  qed
  moreover have "once_ok p'"
  proof -
    have "length (filter (closes_peer k) (pb_events p')) =
        (if k < length (pb_made p') \<and> sp_closed (pb_made p' ! k) \<noteq> None then 1 else 0)" for k
      using once_okD(2)[OF r(3), of k] by (cases "k < ?k") (simp_all add: f nth_append)
    moreover have "length (filter (settles m) (pb_events p')) =
        (if m < length (pb_requests p') \<and> \<not> open_request p' m then 1 else 0)" for m
      using once_okD(1)[OF r(3), of m] by (simp add: f ao)
    ultimately show ?thesis unfolding once_ok_def by blast
  qed
  ultimately show ?thesis by (simp add: rest_ok_def p'_def)
qed

lemma signal_ok:
  assumes "rest_ok p" "k < length (pb_made p)"
  shows "rest_ok (set_peer k (deliver_signal s (pb_made p ! k)) p)"
proof -
  define p' where "p' = set_peer k (deliver_signal s (pb_made p ! k)) p"
  have f: "pb_requests p' = pb_requests p" "pb_pending p' = pb_pending p" "pb_resolving p' = pb_resolving p"
    "pb_peers p' = pb_peers p" "pb_events p' = pb_events p" "length (pb_made p') = length (pb_made p)"
    by (simp_all add: p'_def set_peer_def)
  have g: "sp_closed (pb_made p' ! j) = sp_closed (pb_made p ! j)" "sp_client (pb_made p' ! j) = sp_client (pb_made p ! j)" for j
    using assms(2) by (cases "j = k"; simp add: p'_def set_peer_def deliver_signal_def)+
  have ao: "asker p' = asker p" "open_request p' = open_request p"
    by (simp_all add: fun_eq_iff asker_def open_request_def f)
  show ?thesis using assms(1)
    by (simp add: rest_ok_def requests_ok_def peers_ok_def once_ok_def f g ao flip: p'_def)
qed

section \<open>Every operation keeps the invariant\<close>

lemma distinct_slots:
  assumes "slots_ok p q"
  shows "distinct (map fst q)"
  using assms by (auto simp: slots_ok_def sorted_wrt_append strict_sorted_iff)

lemma request_watch_ok:
  assumes "published_ok p"
  shows "published_ok (request_watch denied in_view c message p)"
proof (cases "pb_ended p \<or> map_of (pb_peers p) c \<noteq> None \<or> map_of (pb_resolving p) c \<noteq> None \<or>
    (\<exists>n. map_of (pb_pending p) c = Some n \<and> jr_state (pb_requests p ! n) = RS_Pending)")
  case True
  then have "request_watch denied in_view c message p = p"
    by (auto simp: request_watch_def split: option.split)
  then show ?thesis using assms by simp
next
  case False
  define p' where "p' = p\<lparr>pb_resolving := AList.update c (pb_next p) (pb_resolving p),
    pb_slots := pb_slots p @ [(pb_next p, \<lparr>sl_client = c, sl_message = message, sl_identity = None, sl_looking = False\<rparr>)],
    pb_next := pb_next p + 1\<rparr>"
  have eq: "request_watch denied in_view c message p = advance_slots denied in_view p'"
    using False by (auto simp: request_watch_def p'_def split: option.split)
  have f: "pb_requests p' = pb_requests p" "pb_pending p' = pb_pending p" "pb_peers p' = pb_peers p"
    "pb_made p' = pb_made p" "pb_events p' = pb_events p" "pb_ended p' = pb_ended p" "pb_next p' = pb_next p + 1"
    "map_of (pb_resolving p') = (map_of (pb_resolving p))(c \<mapsto> pb_next p)"
    "pb_slots p' = pb_slots p @ [(pb_next p, \<lparr>sl_client = c, sl_message = message, sl_identity = None, sl_looking = False\<rparr>)]"
    "announced_slots p' = announced_slots p"
    by (simp_all add: p'_def update_conv' announced_slots_def)
  have ao: "asker p' = asker p" "open_request p' = open_request p"
    by (simp_all add: fun_eq_iff asker_def open_request_def f)
  note q = published_okD(1)[OF assms]
  have r: "requests_ok p" "peers_ok p" "once_ok p" using published_okD(4)[OF assms] by (simp_all add: rest_ok_def)
  have no: "asker p n \<noteq> c" if "open_request p n" for n
    using requests_okD(2)[OF r(1) that] False that by (auto simp: open_request_def)
  have "slots_ok p' (pb_slots p')"
  proof -
    have "sorted_wrt (<) (announced_slots p @ map fst (pb_slots p))"
      "\<forall>t\<in>set (announced_slots p @ map fst (pb_slots p)). t < pb_next p" using q by (simp_all add: slots_ok_def)
    then have s: "sorted_wrt (<) (announced_slots p' @ map fst (pb_slots p'))"
      "\<forall>t\<in>set (announced_slots p' @ map fst (pb_slots p')). t < pb_next p'"
      by (auto simp: f sorted_wrt_append less_Suc_eq)
    have "\<exists>sl. (t, sl) \<in> set (pb_slots p') \<and> sl_client sl = d" if "map_of (pb_resolving p') d = Some t" for d t
    proof (cases "d = c")
      case True
      then have "t = pb_next p" using that by (simp add: f)
      then show ?thesis
        by (intro exI[of _ "\<lparr>sl_client = c, sl_message = message, sl_identity = None, sl_looking = False\<rparr>"])
           (simp add: f True)
    next
      case False
      then have "map_of (pb_resolving p) d = Some t" using that by (simp add: f)
      then have "\<exists>sl. (t, sl) \<in> set (pb_slots p) \<and> sl_client sl = d" using q unfolding slots_ok_def by blast
      then show ?thesis by (auto simp: f)
    qed
    moreover have "\<forall>(t, sl)\<in>set (pb_slots p'). \<forall>v. sl_identity sl = Some v \<longrightarrow> vi_client v = sl_client sl"
      using q unfolding slots_ok_def by (auto simp: f)
    ultimately show ?thesis using s unfolding slots_ok_def by blast
  qed
  moreover have "requests_ok p'"
  proof (rule requests_okI)
    fix d n assume "map_of (pb_pending p') d = Some n"
    then show "n < length (pb_requests p') \<and> asker p' n = d" using requests_okD(1)[OF r(1), of d n] by (simp add: f ao)
  next
    fix n assume "open_request p' n"
    then show "map_of (pb_pending p') (asker p' n) = Some n \<and> map_of (pb_peers p') (asker p' n) = None \<and>
        map_of (pb_resolving p') (asker p' n) = None"
      using requests_okD(2)[OF r(1), of n] no[of n] by (simp add: f ao)
  next
    fix d t assume "map_of (pb_resolving p') d = Some t"
    then show "map_of (pb_peers p') d = None"
      using requests_okD(3)[OF r(1), of d t] False by (auto simp: f split: if_splits)
  qed
  moreover have "peers_ok p'" "once_ok p'" using r(2,3) by (simp_all add: peers_ok_def once_ok_def f ao)
  ultimately show ?thesis using advance_ok[of p'] False by (simp add: eq rest_ok_def f)
qed

lemma lookup_answers_ok:
  assumes "published_ok p" "\<not> pb_ended p"
  shows "published_ok (lookup_answers denied in_view t v p)"
proof -
  define g :: "nat \<times> slot \<Rightarrow> nat \<times> slot" where "g = (\<lambda>(u, sl). if u = t
    then (u, sl\<lparr>sl_looking := False, sl_identity := Some (viewer_of (sl_client sl) v)\<rparr>) else (u, sl))"
  define p' where "p' = p\<lparr>pb_slots := map g (pb_slots p)\<rparr>"
  have g: "fst (g x) = fst x" "sl_client (snd (g x)) = sl_client (snd x)"
    "sl_identity (snd (g x)) = Some w \<Longrightarrow> sl_identity (snd x) = Some w \<or> vi_client w = sl_client (snd x)" for x w
    by (cases x; auto simp: g_def viewer_of_def split: if_splits)+
  have fst_q: "map fst (map g (pb_slots p)) = map fst (pb_slots p)" by (simp add: g)
  note q = published_okD(1)[OF assms(1)]
  have "\<exists>sl. (u, sl) \<in> set (map g (pb_slots p)) \<and> sl_client sl = c" if r: "map_of (pb_resolving p) c = Some u" for c u
  proof -
    obtain sl where sl: "(u, sl) \<in> set (pb_slots p)" "sl_client sl = c" using r q unfolding slots_ok_def by blast
    then have "g (u, sl) \<in> set (map g (pb_slots p))" by simp
    moreover have "g (u, sl) = (u, snd (g (u, sl)))" using g(1)[of "(u, sl)"] by (cases "g (u, sl)") simp
    ultimately show ?thesis using g(2)[of "(u, sl)"] sl(2) by (metis snd_conv)
  qed
  moreover have "vi_client w = sl_client sl" if i: "(u, sl) \<in> set (map g (pb_slots p))" "sl_identity sl = Some w" for u sl w
  proof -
    obtain x where x: "x \<in> set (pb_slots p)" "g x = (u, sl)" using i(1) by auto
    obtain u0 sl0 where x0: "x = (u0, sl0)" by fastforce
    have "sl_identity sl0 = Some w \<Longrightarrow> vi_client w = sl_client sl0"
      using q x(1) x0 unfolding slots_ok_def by fastforce
    then show ?thesis using g(2)[of x] g(3)[of x w] i(2) x0 x(2) by auto
  qed
  ultimately have "slots_ok p (map g (pb_slots p))" using q unfolding slots_ok_def fst_q by blast
  moreover have "lookup_answers denied in_view t v p = advance_slots denied in_view p'"
    by (simp add: lookup_answers_def p'_def g_def)
  ultimately show ?thesis
    using advance_ok[of p'] published_okD(4)[OF assms(1)] assms(2) by (simp add: p'_def)
qed

lemma pending_dropped_ok:
  assumes "published_ok p"
  shows "published_ok ((case map_of (pb_pending p) c of None \<Rightarrow> p | Some n \<Rightarrow> close_request RS_Withdrawn n p)
    \<lparr>pb_pending := AList.delete c (pb_pending p)\<rparr>)"
proof -
  define p1 where "p1 = (case map_of (pb_pending p) c of None \<Rightarrow> p | Some n \<Rightarrow> close_request RS_Withdrawn n p)"
  define p' where "p' = p1\<lparr>pb_pending := AList.delete c (pb_pending p)\<rparr>"
  note rest = published_okD(4)[OF assms]
  then have r: "requests_ok p" "peers_ok p" "once_ok p" by (simp_all add: rest_ok_def)
  have f1: "pb_slots p1 = pb_slots p" "pb_resolving p1 = pb_resolving p" "pb_next p1 = pb_next p"
    "announced_slots p1 = announced_slots p" "pb_peers p1 = pb_peers p" "pb_pending p1 = pb_pending p"
    "pb_ended p1 = pb_ended p"
    by (auto simp: p1_def close_request_def say_def set_state_def announced_slots_def split: option.split)
  have rest1: "rest_ok p1 \<and> (\<forall>m. open_request p1 m \<longrightarrow> open_request p m \<and> asker p m \<noteq> c) \<and> asker p1 = asker p"
  proof (cases "map_of (pb_pending p) c")
    case None
    have "asker p m \<noteq> c" if "open_request p m" for m using requests_okD(2)[OF r(1) that] None by auto
    then show ?thesis using rest None by (simp add: p1_def)
  next
    case (Some n)
    have n: "n < length (pb_requests p)" using requests_okD(1)[OF r(1) Some] by simp
    note c = close_request_ok[OF rest n, of RS_Withdrawn]
    have "open_request p1 m \<Longrightarrow> open_request p m \<and> asker p m \<noteq> c" for m
      using c(2)[of m] requests_okD(2)[OF r(1), of m] Some by (auto simp: p1_def)
    then show ?thesis using c Some by (auto simp: p1_def fun_eq_iff)
  qed
  have f: "pb_slots p' = pb_slots p" "pb_resolving p' = pb_resolving p" "pb_next p' = pb_next p"
    "announced_slots p' = announced_slots p" "pb_peers p' = pb_peers p1" "pb_requests p' = pb_requests p1"
    "pb_made p' = pb_made p1" "pb_events p' = pb_events p1" "pb_ended p' = pb_ended p"
    "map_of (pb_pending p') = (map_of (pb_pending p1))(c := None)"
    using f1 by (simp_all add: p'_def announced_slots_def delete_conv')
  have ao: "asker p' = asker p1" "open_request p' = open_request p1"
    by (simp_all add: fun_eq_iff asker_def open_request_def f)
  have r1: "requests_ok p1" "peers_ok p1" "once_ok p1" using rest1 by (simp_all add: rest_ok_def)
  have "requests_ok p'"
  proof (rule requests_okI)
    fix d n assume "map_of (pb_pending p') d = Some n"
    then show "n < length (pb_requests p') \<and> asker p' n = d"
      using requests_okD(1)[OF r1(1), of d n] by (simp add: f ao split: if_splits)
  next
    fix n assume "open_request p' n"
    then show "map_of (pb_pending p') (asker p' n) = Some n \<and> map_of (pb_peers p') (asker p' n) = None \<and>
        map_of (pb_resolving p') (asker p' n) = None"
      using requests_okD(2)[OF r1(1), of n] rest1 by (simp add: f f1 ao)
  next
    fix d t assume "map_of (pb_resolving p') d = Some t"
    then show "map_of (pb_peers p') d = None" using requests_okD(3)[OF r1(1), of d t] by (simp add: f f1)
  qed
  moreover have "peers_ok p'" "once_ok p'" using r1(2,3) by (simp_all add: peers_ok_def once_ok_def f ao)
  ultimately have "rest_ok p'" by (simp add: rest_ok_def)
  moreover have "ended_ok p'"
    using published_okD(5)[OF assms] by (auto simp: ended_ok_def f f1 p'_def)
  ultimately have "published_ok p'" using waiting_kept[OF assms f(1-4)] by blast
  then show ?thesis by (simp add: p'_def p1_def)
qed

lemma slot_dropped_ok:
  assumes "published_ok p" "map_of (pb_resolving p) c = Some t"
  shows "published_ok (advance_slots denied in_view (p\<lparr>pb_resolving := AList.delete c (pb_resolving p),
    pb_slots := filter (\<lambda>(u, sl). u \<noteq> t \<or> sl_looking sl) (pb_slots p)\<rparr>))"
proof -
  let ?P = "\<lambda>(u, sl). u \<noteq> t \<or> sl_looking sl"
  define p' where "p' = p\<lparr>pb_resolving := AList.delete c (pb_resolving p), pb_slots := filter ?P (pb_slots p)\<rparr>"
  have f: "pb_requests p' = pb_requests p" "pb_pending p' = pb_pending p" "pb_peers p' = pb_peers p"
    "pb_made p' = pb_made p" "pb_events p' = pb_events p" "pb_ended p' = pb_ended p" "pb_next p' = pb_next p"
    "map_of (pb_resolving p') = (map_of (pb_resolving p))(c := None)" "announced_slots p' = announced_slots p"
    "pb_slots p' = filter ?P (pb_slots p)"
    by (simp_all add: p'_def delete_conv' announced_slots_def)
  have ao: "asker p' = asker p" "open_request p' = open_request p"
    by (simp_all add: fun_eq_iff asker_def open_request_def f)
  note q = published_okD(1)[OF assms(1)]
  have "rest_ok p'"
    using published_okD(4)[OF assms(1)] by (auto simp: rest_ok_def requests_ok_def peers_ok_def once_ok_def f ao)
  moreover have "slots_ok p' (pb_slots p')"
  proof -
    have "sorted_wrt (<) (announced_slots p @ map fst (pb_slots p))"
      "\<forall>u\<in>set (announced_slots p @ map fst (pb_slots p)). u < pb_next p" using q by (simp_all add: slots_ok_def)
    then have s: "sorted_wrt (<) (announced_slots p' @ map fst (pb_slots p'))"
      "\<forall>u\<in>set (announced_slots p' @ map fst (pb_slots p')). u < pb_next p'"
      by (auto simp: f sorted_wrt_append sorted_wrt_map sorted_wrt_filter)
    have "\<exists>sl. (u, sl) \<in> set (pb_slots p') \<and> sl_client sl = d" if "map_of (pb_resolving p') d = Some u" for d u
    proof -
      have d: "d \<noteq> c" "map_of (pb_resolving p) d = Some u" using that by (auto simp: f split: if_splits)
      obtain sl where sl: "(u, sl) \<in> set (pb_slots p)" "sl_client sl = d" using d(2) q unfolding slots_ok_def by blast
      obtain sl' where sl': "(t, sl') \<in> set (pb_slots p)" "sl_client sl' = c" using assms(2) q unfolding slots_ok_def by blast
      have "u \<noteq> t" using sl sl' d(1) eq_key_imp_eq_value[OF distinct_slots[OF q], of u sl sl'] by blast
      then show ?thesis using sl by (auto simp: f)
    qed
    moreover have "\<forall>(u, sl)\<in>set (pb_slots p'). \<forall>v. sl_identity sl = Some v \<longrightarrow> vi_client v = sl_client sl"
      using q unfolding slots_ok_def by (auto simp: f)
    ultimately show ?thesis using s unfolding slots_ok_def by blast
  qed
  moreover have "\<not> pb_ended p" using published_okD(5)[OF assms(1)] assms(2) by (auto simp: ended_ok_def)
  ultimately have "published_ok (advance_slots denied in_view p')" using advance_ok[of p'] f(6) by blast
  then show ?thesis by (simp only: p'_def)
qed

lemma drop_pending_ok:
  assumes "published_ok p"
  shows "published_ok (drop_pending denied in_view c p)"
proof -
  have e: "pb_pending (close_request st n p) = pb_pending p" for st n p
    by (simp add: close_request_def say_def set_state_def)
  define p1 where "p1 = (case map_of (pb_resolving p) c of None \<Rightarrow> p
    | Some t \<Rightarrow> advance_slots denied in_view (p\<lparr>pb_resolving := AList.delete c (pb_resolving p),
        pb_slots := filter (\<lambda>(u, sl). u \<noteq> t \<or> sl_looking sl) (pb_slots p)\<rparr>))"
  have "published_ok p1" using assms slot_dropped_ok[OF assms] by (simp add: p1_def split: option.split)
  moreover have "drop_pending denied in_view c p =
      (case map_of (pb_pending p1) c of None \<Rightarrow> p1 | Some n \<Rightarrow> close_request RS_Withdrawn n p1)
        \<lparr>pb_pending := AList.delete c (pb_pending p1)\<rparr>"
    by (simp add: drop_pending_def Let_def e flip: p1_def split: option.split)
  ultimately show ?thesis using pending_dropped_ok by simp
qed

text \<open>What ending a peer, opening one and answering leave alone.\<close>

lemma end_peer_fields [simp]:
  "pb_slots (end_peer cause k p) = pb_slots p" "pb_resolving (end_peer cause k p) = pb_resolving p"
  "pb_next (end_peer cause k p) = pb_next p" "pb_ended (end_peer cause k p) = pb_ended p"
  "announced_slots (end_peer cause k p) = announced_slots p" "pb_pending (end_peer cause k p) = pb_pending p"
  "length (pb_made (end_peer cause k p)) = length (pb_made p)" "pb_requests (end_peer cause k p) = pb_requests p"
  by (simp_all add: end_peer_def set_peer_def say_def announced_slots_def Let_def)

lemma end_peer_peers: "pb_peers p = [] \<Longrightarrow> pb_peers (end_peer cause k p) = []"
  by (simp add: end_peer_def set_peer_def say_def Let_def)

lemma end_peer_published:
  assumes "published_ok p" "k < length (pb_made p)"
  shows "published_ok (end_peer cause k p)"
  by (rule waiting_kept[OF assms(1)])
     (use end_peer_ok[OF published_okD(4)[OF assms(1)] assms(2)] published_okD(5)[OF assms(1)] end_peer_peers
      in \<open>auto simp: ended_ok_def\<close>)

lemma viewer_gone_ok:
  assumes "published_ok p"
  shows "published_ok (viewer_gone denied in_view c p)"
proof -
  define p1 where "p1 = drop_pending denied in_view c p"
  have p1: "published_ok p1" using drop_pending_ok[OF assms] by (simp add: p1_def)
  then have "peers_ok p1" by (simp add: published_ok_def)
  then have "map_of (pb_peers p1) c = Some k \<Longrightarrow> published_ok (end_peer PE_Left k p1)" for k
    using end_peer_published[OF p1] peers_okD(1)[of p1 c k] by blast
  then show ?thesis using p1 by (simp add: viewer_gone_def Let_def flip: p1_def split: option.split)
qed

lemma signal_viewer_ok:
  assumes "published_ok p"
  shows "published_ok (snd (signal_viewer c s p))"
proof (cases "map_of (pb_peers p) c")
  case None
  then show ?thesis using assms by (simp add: signal_viewer_def)
next
  case (Some k)
  have "peers_ok p" using assms by (simp add: published_ok_def)
  then have "k < length (pb_made p)" using peers_okD(1)[of p c k] Some by blast
  from signal_ok[OF published_okD(4)[OF assms] this]
  have "published_ok (set_peer k (deliver_signal s (pb_made p ! k)) p)"
    by (rule waiting_kept[OF assms, rotated 4])
       (use published_okD(5)[OF assms] in \<open>simp_all add: set_peer_def announced_slots_def ended_ok_def\<close>)
  then show ?thesis by (simp add: signal_viewer_def Some)
qed

lemma accept_request_ok:
  assumes "published_ok p" "n < length (pb_requests p)" "accept_request too_long n offer p = Some p'"
  shows "published_ok p' \<and> length (pb_made p') = Suc (length (pb_made p)) \<and> \<not> pb_ended p"
proof -
  let ?c = "vi_client (jr_viewer (pb_requests p ! n))"
  have o: "open_request p n" using assms(2,3) by (auto simp: accept_request_def open_request_def split: if_splits)
  have p': "p' = openViewer ?c (say (Answers n True) (set_state RS_Accepted n p))"
    using assms(3) by (auto simp: accept_request_def openViewer_def say_def set_state_def split: if_splits)
  define p1 where "p1 = say (Answers n True) (set_state RS_Accepted n p)"
  note rest = published_okD(4)[OF assms(1)]
  then have r: "requests_ok p" by (simp add: rest_ok_def)
  have f: "pb_slots p1 = pb_slots p" "pb_resolving p1 = pb_resolving p" "pb_next p1 = pb_next p" "pb_peers p1 = pb_peers p"
    "pb_pending p1 = pb_pending p" "announced_slots p1 = announced_slots p" "pb_ended p1 = pb_ended p" "pb_made p1 = pb_made p"
    by (simp_all add: p1_def say_def set_state_def announced_slots_def)
  have a: "rest_ok p1" "open_request p1 m \<longleftrightarrow> open_request p m \<and> m \<noteq> n" "asker p1 m = asker p m" for m
    using answered_rest_ok[OF rest o, of RS_Accepted "Answers n True"] by (auto simp: p1_def)
  have free: "map_of (pb_pending p) ?c = Some n" "map_of (pb_peers p) ?c = None" "map_of (pb_resolving p) ?c = None"
    using requests_okD(2)[OF r o] by (simp_all add: asker_def)
  have "asker p1 m \<noteq> ?c" if "open_request p1 m" for m
    using that a(2,3)[of m] requests_okD(2)[OF r, of m] free(1) by auto
  then have "rest_ok (openViewer ?c p1)" using peer_opened_ok[of p1 ?c] a(1) free f by auto
  moreover have "\<not> pb_ended p" using published_okD(5)[OF assms(1)] free(1) by (auto simp: ended_ok_def)
  moreover have "published_ok (openViewer ?c p1)" if run: "\<not> pb_ended p"
  proof (rule waiting_kept[OF assms(1)])
    show "ended_ok (openViewer ?c p1)" using run by (simp add: ended_ok_def openViewer_def f)
    show "announced_slots (openViewer ?c p1) = announced_slots p"
      using f(6) by (simp add: openViewer_def announced_slots_def)
  qed (use calculation in \<open>simp_all add: openViewer_def f\<close>)
  ultimately show ?thesis by (simp add: p' openViewer_def f flip: p1_def)
qed

lemma settled_published:
  assumes "published_ok p" "rest_ok (say e (set_state st n p))" "announced_slot e = []"
  shows "published_ok (say e (set_state st n p))"
  by (rule waiting_kept[OF assms(1) _ _ _ _ assms(2)])
     (use published_okD(5)[OF assms(1)] assms(3) in \<open>simp_all add: say_def set_state_def announced_slots_def ended_ok_def\<close>)

lemma deny_request_ok:
  assumes "published_ok p" "n < length (pb_requests p)" "deny_request too_long n p = Some p'"
  shows "published_ok p'"
proof -
  have o: "open_request p n" using assms(2,3) by (auto simp: deny_request_def open_request_def split: if_splits)
  have p': "p' = say (Answers n False) (set_state RS_Denied n p)"
    using assms(3) by (auto simp: deny_request_def split: if_splits)
  show ?thesis unfolding p'
    by (rule settled_published[OF assms(1)])
       (use answered_rest_ok(1)[OF published_okD(4)[OF assms(1)] o, of RS_Denied "Answers n False"] in auto)
qed

lemma deny_fails_ok:
  assumes "published_ok p" "\<not> open_request p n"
  shows "published_ok (deny_fails n p)"
  unfolding deny_fails_def
  by (rule waiting_kept[OF assms(1) _ _ _ _ request_failed_ok[OF published_okD(4)[OF assms(1)] assms(2)]])
     (use published_okD(5)[OF assms(1)] in \<open>simp_all add: set_state_def announced_slots_def ended_ok_def\<close>)

lemma accept_fails_ok:
  assumes "published_ok p" "\<not> open_request p n" "k < length (pb_made p)"
  shows "published_ok (accept_fails n k p)"
  using end_peer_published[OF deny_fails_ok[OF assms(1,2)]] assms(3)
  by (simp add: accept_fails_def deny_fails_def set_state_def)

section \<open>The end of the stream\<close>

lemma close_request_fields [simp]:
  "pb_slots (close_request st n p) = pb_slots p" "pb_resolving (close_request st n p) = pb_resolving p"
  "pb_next (close_request st n p) = pb_next p" "pb_ended (close_request st n p) = pb_ended p"
  "announced_slots (close_request st n p) = announced_slots p" "pb_pending (close_request st n p) = pb_pending p"
  "pb_peers (close_request st n p) = pb_peers p" "pb_made (close_request st n p) = pb_made p"
  "length (pb_requests (close_request st n p)) = length (pb_requests p)"
  by (simp_all add: close_request_def set_state_def say_def announced_slots_def)

lemma close_all:
  assumes "rest_ok p" "\<forall>n\<in>set ns. n < length (pb_requests p)"
  shows "rest_ok (fold (close_request RS_Ended) ns p)"
    and "open_request (fold (close_request RS_Ended) ns p) m \<Longrightarrow> open_request p m \<and> m \<notin> set ns"
  using assms
proof (induction ns arbitrary: p)
  case (Cons n ns)
  {
    case 1
    have "rest_ok (close_request RS_Ended n p)" using close_request_ok(1)[of p n RS_Ended] 1 by simp
    then show ?case using Cons.IH(1)[of "close_request RS_Ended n p"] 1 by simp
  next
    case 2
    have "rest_ok (close_request RS_Ended n p)" using close_request_ok(1)[of p n RS_Ended] 2 by simp
    then have "open_request (close_request RS_Ended n p) m \<and> m \<notin> set ns"
      using Cons.IH(2)[of "close_request RS_Ended n p"] 2 by simp
    then show ?case using close_request_ok(2)[of p n RS_Ended m] 2 by simp
  }
qed simp_all

lemma close_all_fields [simp]:
  "pb_slots (fold (close_request st) ns p) = pb_slots p" "pb_resolving (fold (close_request st) ns p) = pb_resolving p"
  "pb_next (fold (close_request st) ns p) = pb_next p" "pb_ended (fold (close_request st) ns p) = pb_ended p"
  "announced_slots (fold (close_request st) ns p) = announced_slots p"
  "pb_peers (fold (close_request st) ns p) = pb_peers p" "pb_made (fold (close_request st) ns p) = pb_made p"
  by (induction ns arbitrary: p) simp_all

lemma end_peer_made:
  "pb_made (end_peer cause k p) =
    (if sp_closed (pb_made p ! k) \<noteq> None then pb_made p
     else (pb_made p)[k := (pb_made p ! k)\<lparr>sp_closed := Some cause\<rparr>])"
  by (simp add: end_peer_def set_peer_def say_def Let_def)

lemma end_peer_closes:
  "k < length (pb_made p) \<Longrightarrow> sp_closed (pb_made (end_peer cause k p) ! j) = None \<Longrightarrow>
    sp_closed (pb_made p ! j) = None \<and> j \<noteq> k"
  by (cases "j = k") (auto simp: end_peer_made split: if_splits)

lemma end_peer_client: "sp_client (pb_made (end_peer cause k p) ! j) = sp_client (pb_made p ! j)"
  by (cases "k < length (pb_made p)") (simp_all add: end_peer_made nth_list_update list_update_beyond)

lemma end_all:
  assumes "rest_ok p" "\<forall>k\<in>set ks. k < length (pb_made p)"
  shows "rest_ok (fold (end_peer cause) ks p)"
    and "sp_closed (pb_made (fold (end_peer cause) ks p) ! j) = None \<Longrightarrow> sp_closed (pb_made p ! j) = None \<and> j \<notin> set ks"
  using assms
proof (induction ks arbitrary: p)
  case (Cons k ks)
  {
    case 1
    then show ?case using Cons.IH(1)[of "end_peer cause k p"] end_peer_ok[of p k cause] by simp
  next
    case 2
    then have "sp_closed (pb_made (end_peer cause k p) ! j) = None \<and> j \<notin> set ks"
      using Cons.IH(2)[of "end_peer cause k p"] end_peer_ok[of p k cause] by simp
    then show ?case using end_peer_closes[of k p cause j] 2 by simp
  }
qed simp_all

lemma end_all_fields [simp]:
  "pb_slots (fold (end_peer cause) ks p) = pb_slots p" "pb_resolving (fold (end_peer cause) ks p) = pb_resolving p"
  "pb_next (fold (end_peer cause) ks p) = pb_next p" "pb_ended (fold (end_peer cause) ks p) = pb_ended p"
  "announced_slots (fold (end_peer cause) ks p) = announced_slots p"
  "pb_pending (fold (end_peer cause) ks p) = pb_pending p" "pb_requests (fold (end_peer cause) ks p) = pb_requests p"
  "length (pb_made (fold (end_peer cause) ks p)) = length (pb_made p)"
  by (induction ks arbitrary: p) simp_all

lemma end_all_client: "sp_client (pb_made (fold (end_peer cause) ks p) ! j) = sp_client (pb_made p ! j)"
  by (induction ks arbitrary: p) (simp_all add: end_peer_client)

text \<open>The maps of requests and peers have one entry for a client.\<close>

definition keys_ok :: "published \<Rightarrow> bool" where
  "keys_ok p \<longleftrightarrow> distinct (map fst (pb_pending p)) \<and> distinct (map fst (pb_peers p))"

lemma keys_irrelevant [simp]:
  "keys_ok (p\<lparr>pb_slots := x\<rparr>) = keys_ok p" "keys_ok (p\<lparr>pb_resolving := y\<rparr>) = keys_ok p"
  "keys_ok (p\<lparr>pb_next := n\<rparr>) = keys_ok p" "keys_ok (p\<lparr>pb_requests := q\<rparr>) = keys_ok p"
  by (simp_all add: keys_ok_def)

lemma announce_ready_keys: "keys_ok p \<Longrightarrow> keys_ok (announce_ready denied q p)"
proof (induction q arbitrary: p)
  case (Cons x q)
  obtain t sl where x: "x = (t, sl)" by fastforce
  have "keys_ok (announce_slot denied t sl v p)" for v
    using Cons.prems by (simp add: keys_ok_def announce_slot_def say_def Let_def distinct_update)
  then show ?case using Cons.IH Cons.prems by (simp add: x keys_ok_def split: option.split)
qed (simp add: keys_ok_def)

lemma advance_keys: "keys_ok p \<Longrightarrow> keys_ok (advance_slots denied in_view p)"
  by (simp add: advance_slots_def announce_ready_keys)

lemma end_peer_keys: "keys_ok p \<Longrightarrow> keys_ok (end_peer cause k p)"
  by (simp add: keys_ok_def end_peer_def set_peer_def say_def Let_def distinct_delete)

lemma close_request_keys [simp]: "keys_ok (close_request st n p) = keys_ok p"
  by (simp add: keys_ok_def)

lemma drop_pending_keys: "keys_ok p \<Longrightarrow> keys_ok (drop_pending denied in_view c p)"
proof -
  assume k: "keys_ok p"
  define p1 where "p1 = (case map_of (pb_resolving p) c of None \<Rightarrow> p
    | Some t \<Rightarrow> advance_slots denied in_view (p\<lparr>pb_resolving := AList.delete c (pb_resolving p),
        pb_slots := filter (\<lambda>(u, sl). u \<noteq> t \<or> sl_looking sl) (pb_slots p)\<rparr>))"
  have "keys_ok p1"
    using k advance_keys[of "p\<lparr>pb_resolving := _, pb_slots := _\<rparr>"] by (simp add: p1_def keys_ok_def split: option.split)
  then show ?thesis
    by (simp add: drop_pending_def Let_def keys_ok_def distinct_delete flip: p1_def split: option.split)
qed

lemma operations_keep_keys:
  assumes "keys_ok p"
  shows "keys_ok (request_watch denied in_view c message p)" "keys_ok (lookup_answers denied in_view t v p)"
    "keys_ok (viewer_gone denied in_view c p)" "keys_ok (snd (signal_viewer c s p))"
    "accept_request too_long n offer p = Some p' \<Longrightarrow> keys_ok p'" "deny_request too_long n p = Some p' \<Longrightarrow> keys_ok p'"
    "keys_ok (accept_fails n k p)" "keys_ok (deny_fails n p)"
proof -
  have a: "keys_ok p' \<Longrightarrow> keys_ok (advance_slots denied in_view p')" for p' by (rule advance_keys)
  show "keys_ok (request_watch denied in_view c message p)" using assms
    by (auto simp: request_watch_def intro!: a split: option.split)
  show "keys_ok (lookup_answers denied in_view t v p)" using assms
    by (simp add: lookup_answers_def a)
  show "keys_ok (viewer_gone denied in_view c p)" using drop_pending_keys[OF assms] end_peer_keys
    by (simp add: viewer_gone_def Let_def split: option.split)
  show "keys_ok (snd (signal_viewer c s p))" using assms
    by (simp add: signal_viewer_def keys_ok_def set_peer_def split: option.split)
  show "accept_request too_long n offer p = Some p' \<Longrightarrow> keys_ok p'" using assms
    by (auto simp: accept_request_def keys_ok_def openViewer_def say_def set_state_def distinct_update split: if_splits)
  show "deny_request too_long n p = Some p' \<Longrightarrow> keys_ok p'" using assms
    by (auto simp: deny_request_def keys_ok_def say_def set_state_def split: if_splits)
  show "keys_ok (accept_fails n k p)" "keys_ok (deny_fails n p)" using assms
    by (simp_all add: accept_fails_def deny_fails_def end_peer_keys set_state_def)
qed

lemma no_pairs: "(\<And>c. map_of l c = None) \<Longrightarrow> l = []"
  by (metis map_of_eq_empty_iff ext)

lemma stream_finished:
  assumes "published_ok p" "keys_ok p" "\<not> pb_ended p"
  shows "published_ok (finish_stream ended p)" "pb_ended (finish_stream ended p)" "keys_ok (finish_stream ended p)"
    "\<not> open_request (finish_stream ended p) n"
    "j < length (pb_made (finish_stream ended p)) \<Longrightarrow> sp_closed (pb_made (finish_stream ended p) ! j) \<noteq> None"
proof -
  define p1 where "p1 = p\<lparr>pb_ended := True, pb_slots := [], pb_resolving := []\<rparr>"
  define p2 where "p2 = fold (close_request RS_Ended) (map snd (pb_pending p1)) p1"
  define p3 where "p3 = p2\<lparr>pb_pending := []\<rparr>"
  define p4 where "p4 = fold (end_peer (peer_end_of ended)) (map snd (pb_peers p3)) p3"
  define p5 where "p5 = say (Published_Over ended) p4"
  have eq: "finish_stream ended p = p5"
    using assms(3) by (simp add: finish_stream_def p1_def p2_def p3_def p4_def p5_def Let_def)
  note rest = published_okD(4)[OF assms(1)]
  then have r: "requests_ok p" "peers_ok p" by (simp_all add: rest_ok_def)
  have f1: "pb_requests p1 = pb_requests p" "pb_pending p1 = pb_pending p" "pb_peers p1 = pb_peers p"
    "pb_made p1 = pb_made p" "pb_events p1 = pb_events p" "pb_resolving p1 = []" "pb_slots p1 = []" "pb_ended p1"
    "announced_slots p1 = announced_slots p" "pb_next p1 = pb_next p" by (simp_all add: p1_def announced_slots_def)
  have ao: "asker p1 = asker p" "open_request p1 = open_request p"
    by (simp_all add: fun_eq_iff asker_def open_request_def f1)
  have "rest_ok p1" using rest by (auto simp: rest_ok_def requests_ok_def peers_ok_def once_ok_def f1 ao)
  moreover have "n < length (pb_requests p)" if "(c, n) \<in> set (pb_pending p)" for c n
    using that assms(2) requests_okD(1)[OF r(1), of c n] by (simp add: keys_ok_def)
  ultimately have rest2: "rest_ok p2" and left2: "open_request p2 m \<Longrightarrow> open_request p m \<and> m \<notin> snd ` set (pb_pending p)" for m
    using close_all[of p1 "map snd (pb_pending p1)"] by (force simp: p2_def f1 ao)+
  have none2: "\<not> open_request p2 m" for m
  proof
    assume "open_request p2 m"
    then have "open_request p m" "m \<notin> snd ` set (pb_pending p)" using left2 by blast+
    then show False using requests_okD(2)[OF r(1), of m] by (force dest: map_of_SomeD)
  qed
  have f3: "pb_peers p3 = pb_peers p" "pb_made p3 = pb_made p" "pb_events p3 = pb_events p2" "pb_resolving p3 = []"
    "pb_slots p3 = []" "pb_ended p3" "announced_slots p3 = announced_slots p" "pb_next p3 = pb_next p"
    "pb_requests p3 = pb_requests p2" "pb_pending p3 = []"
    by (simp_all add: p3_def p2_def f1 announced_slots_def[of "_\<lparr>pb_pending := _\<rparr>"] flip: announced_slots_def)
  have ao3: "asker p3 = asker p2" "open_request p3 = open_request p2"
    by (simp_all add: fun_eq_iff asker_def open_request_def f3)
  have rest3: "rest_ok p3"
    using rest2 none2 by (auto simp: rest_ok_def requests_ok_def peers_ok_def once_ok_def ao3 f3 p2_def f1)
  have "k < length (pb_made p)" if "(c, k) \<in> set (pb_peers p)" for c k
    using that assms(2) peers_okD(1)[OF r(2), of c k] by (simp add: keys_ok_def)
  then have rest4: "rest_ok p4" and
    left4: "sp_closed (pb_made p4 ! k) = None \<Longrightarrow> sp_closed (pb_made p ! k) = None \<and> k \<notin> snd ` set (pb_peers p)" for k
    using end_all[of p3 "map snd (pb_peers p3)" "peer_end_of ended"] rest3 by (force simp: p4_def f3)+
  have f4: "length (pb_made p4) = length (pb_made p)" "pb_resolving p4 = []" "pb_slots p4 = []" "pb_ended p4"
    "announced_slots p4 = announced_slots p" "pb_next p4 = pb_next p" "pb_requests p4 = pb_requests p2" "pb_pending p4 = []"
    by (simp_all add: p4_def f3)
  have none4: "sp_closed (pb_made p4 ! k) \<noteq> None" if "k < length (pb_made p)" for k
  proof
    assume "sp_closed (pb_made p4 ! k) = None"
    then have "sp_closed (pb_made p ! k) = None" "k \<notin> snd ` set (pb_peers p)" using left4 by blast+
    then show False using peers_okD(2)[OF r(2) that] by (force dest: map_of_SomeD)
  qed
  have peers4: "pb_peers p4 = []"
  proof (rule no_pairs, rule ccontr)
    fix c assume "map_of (pb_peers p4) c \<noteq> None"
    then obtain k where k: "map_of (pb_peers p4) c = Some k" by auto
    have "peers_ok p4" using rest4 by (simp add: rest_ok_def)
    from peers_okD(1)[OF this k] have "k < length (pb_made p)" "sp_closed (pb_made p4 ! k) = None"
      by (simp_all add: f4(1))
    then show False using none4[of k] by simp
  qed
  have f5: "pb_events p5 = pb_events p4 @ [Published_Over ended]" "pb_made p5 = pb_made p4" "pb_resolving p5 = []"
    "pb_slots p5 = []" "pb_ended p5" "announced_slots p5 = announced_slots p" "pb_next p5 = pb_next p"
    "pb_requests p5 = pb_requests p4" "pb_pending p5 = []" "pb_peers p5 = []"
    using f4 peers4 by (simp_all add: p5_def say_def announced_slots_def)
  have ao5: "asker p5 = asker p4" "open_request p5 = open_request p4" "open_request p4 = open_request p2"
    by (simp_all add: fun_eq_iff asker_def open_request_def f5 f4)
  have rest5: "rest_ok p5"
    using rest4 by (auto simp: rest_ok_def requests_ok_def peers_ok_def once_ok_def ao5 none2 f5 f4 peers4)
  have "sorted_wrt (<) (announced_slots p)" "\<forall>t\<in>set (announced_slots p). t < pb_next p"
    using published_okD(1)[OF assms(1)] by (simp_all add: slots_ok_def sorted_wrt_append)
  then have "slots_ok p5 []" by (simp add: slots_ok_def f5)
  then show "published_ok (finish_stream ended p)"
    using rest5 by (simp add: eq published_ok_def all_looked_up_def head_waits_def ended_ok_def rest_ok_def f5)
  show "pb_ended (finish_stream ended p)" "\<not> open_request (finish_stream ended p) n"
    using none2 by (simp_all add: eq f5 ao5)
  show "j < length (pb_made (finish_stream ended p)) \<Longrightarrow> sp_closed (pb_made (finish_stream ended p) ! j) \<noteq> None"
    using none4 by (simp add: eq f5 f4)
  show "keys_ok (finish_stream ended p)" by (simp add: eq keys_ok_def f5)
qed

section \<open>The runs of a stream\<close>

lemma late_lookup:
  assumes "published_ok p" "pb_ended p"
  shows "lookup_answers denied in_view t v p = p"
  using published_okD(5)[OF assms(1)] assms(2)
  by (simp add: lookup_answers_def advance_slots_def ended_ok_def)

text \<open>
  One call of the stream. Who was denied and who is in view may change from call to call; a command
  that failed is one sent by an earlier answer.
\<close>

inductive stream_step :: "published \<Rightarrow> published \<Rightarrow> bool" where
  asks: "stream_step p (request_watch denied in_view c message p)"
| looked_up: "stream_step p (lookup_answers denied in_view t v p)"
| leaves: "stream_step p (viewer_gone denied in_view c p)"
| forgotten: "stream_step p (drop_pending denied in_view c p)"
| signals: "stream_step p (snd (signal_viewer c s p))"
| accepts: "n < length (pb_requests p) \<Longrightarrow> accept_request too_long n offer p = Some p' \<Longrightarrow> stream_step p p'"
| denies: "n < length (pb_requests p) \<Longrightarrow> deny_request too_long n p = Some p' \<Longrightarrow> stream_step p p'"
| accept_failed: "n < length (pb_requests p) \<Longrightarrow> jr_state (pb_requests p ! n) = RS_Accepted \<Longrightarrow>
    k < length (pb_made p) \<Longrightarrow> stream_step p (accept_fails n k p)"
| deny_failed: "n < length (pb_requests p) \<Longrightarrow> jr_state (pb_requests p ! n) = RS_Denied \<Longrightarrow> stream_step p (deny_fails n p)"
| peer_closes: "k < length (pb_made p) \<Longrightarrow> stream_step p (end_peer PE_Closed k p)"
| ends: "stream_step p (finish_stream ended p)"

inductive stream_reachable :: "published \<Rightarrow> bool" where
  fresh: "stream_reachable (new_published i)"
| next_call: "stream_reachable p \<Longrightarrow> stream_step p p' \<Longrightarrow> stream_reachable p'"

lemma step_keeps_published:
  assumes "stream_step p p'" "published_ok p" "keys_ok p"
  shows "published_ok p' \<and> keys_ok p'"
  using assms
proof (induction rule: stream_step.induct)
  case (asks p denied in_view c message)
  then show ?case using request_watch_ok operations_keep_keys(1) by blast
next
  case (looked_up p denied in_view t v)
  then show ?case using lookup_answers_ok operations_keep_keys(2) late_lookup by (cases "pb_ended p") simp_all
next
  case (leaves p denied in_view c)
  then show ?case using viewer_gone_ok operations_keep_keys(3) by blast
next
  case (forgotten p denied in_view c)
  then show ?case using drop_pending_ok drop_pending_keys by blast
next
  case (signals p c s)
  then show ?case using signal_viewer_ok operations_keep_keys(4) by blast
next
  case (accepts n p too_long offer p')
  then show ?case using accept_request_ok operations_keep_keys(5) by blast
next
  case (denies n p too_long p')
  then show ?case using deny_request_ok operations_keep_keys(6) by blast
next
  case (accept_failed n p k)
  then show ?case using accept_fails_ok[of p n k] operations_keep_keys(7)[of p n k] by (simp add: open_request_def)
next
  case (deny_failed n p)
  then show ?case using deny_fails_ok[of p n] operations_keep_keys(8)[of p n] by (simp add: open_request_def)
next
  case (peer_closes k p)
  then show ?case using end_peer_published end_peer_keys by blast
next
  case (ends p ended)
  then show ?case
    using stream_finished(1,3)[of p ended] by (cases "pb_ended p") (simp_all add: finish_stream_def[of _ p])
qed

lemma reachable_published: "stream_reachable p \<Longrightarrow> published_ok p \<and> keys_ok p"
proof (induction rule: stream_reachable.induct)
  case (fresh i)
  then show ?case using new_published_ok by (simp add: keys_ok_def new_published_def)
next
  case (next_call p p')
  then show ?case using step_keeps_published by blast
qed

section \<open>What follows\<close>

lemma waiting_is_looked_up:
  assumes "published_ok p" "\<forall>(t, sl)\<in>set (pb_slots p). \<not> sl_looking sl"
  shows "pb_slots p = []"
proof (cases "pb_slots p")
  case (Cons x q)
  obtain t sl where x: "x = (t, sl)" by fastforce
  have "current_slot p (t, sl)" "sl_identity sl = None"
    using published_okD(3)[OF assms(1)] by (simp_all add: head_waits_def Cons x)
  then have "sl_looking sl" using published_okD(2)[OF assms(1)] by (simp add: all_looked_up_def Cons x)
  then show ?thesis using assms(2) by (simp add: Cons x)
qed simp

lemma announced_sorted: "published_ok p \<Longrightarrow> sorted_wrt (<) (announced_slots p)"
  by (simp add: published_ok_def slots_ok_def sorted_wrt_append)

lemma ended_nothing_open:
  assumes "published_ok p" "pb_ended p"
  shows "\<not> open_request p n" "k < length (pb_made p) \<Longrightarrow> sp_closed (pb_made p ! k) \<noteq> None"
proof -
  have e: "pb_pending p = []" "pb_peers p = []" using published_okD(5)[OF assms(1)] assms(2) by (simp_all add: ended_ok_def)
  have r: "requests_ok p" "peers_ok p" using published_okD(4)[OF assms(1)] by (simp_all add: rest_ok_def)
  show "\<not> open_request p n" using requests_okD(2)[OF r(1), of n] e by auto
  show "k < length (pb_made p) \<Longrightarrow> sp_closed (pb_made p ! k) \<noteq> None" using peers_okD(2)[OF r(2), of k] e by auto
qed

lemma one_thing_a_viewer:
  assumes "published_ok p"
  shows "map_of (pb_resolving p) c \<noteq> None \<Longrightarrow> map_of (pb_peers p) c = None"
    and "open_request p n \<Longrightarrow> asker p n = c \<Longrightarrow> map_of (pb_peers p) c = None \<and> map_of (pb_resolving p) c = None"
    and "open_request p n \<Longrightarrow> open_request p m \<Longrightarrow> asker p n = asker p m \<Longrightarrow> n = m"
proof -
  have r: "requests_ok p" using published_okD(4)[OF assms(1)] by (simp add: rest_ok_def)
  show "map_of (pb_resolving p) c \<noteq> None \<Longrightarrow> map_of (pb_peers p) c = None" using requests_okD(3)[OF r] by fastforce
  show "map_of (pb_peers p) c = None \<and> map_of (pb_resolving p) c = None" if "open_request p n" "asker p n = c"
    using requests_okD(2)[OF r that(1)] unfolding that(2) by blast
  show "n = m" if "open_request p n" "open_request p m" "asker p n = asker p m"
    using requests_okD(2)[OF r that(1)] requests_okD(2)[OF r that(2)] unfolding that(3) by (metis option.inject)
qed

lemma ends_once:
  assumes "published_ok p"
  shows "length (filter (settles n) (pb_events p)) = (if n < length (pb_requests p) \<and> \<not> open_request p n then 1 else 0)"
    and "length (filter (closes_peer k) (pb_events p)) = (if k < length (pb_made p) \<and> sp_closed (pb_made p ! k) \<noteq> None then 1 else 0)"
  using once_okD(1)[of p n] once_okD(2)[of p k] assms by (simp_all add: published_ok_def)

end
