(* ===== verification/Streams_Facts.thy ===== *)
theory Streams_Facts
  imports Streams Published_Facts
begin

text \<open>
  What holds of \<open>Streams\<close> whatever is heard and called: the list of streams is what its events say,
  every running stream of this client's is kept under its id, every \<open>watch\<close> and \<open>publish\<close> comes to
  an end, the remembered ids are bounded, and nothing is left when everything is over.
\<close>

section \<open>The rows\<close>

text \<open>The list of streams as a listener keeps it.\<close>

fun replay_one :: "streams_event \<Rightarrow> (string \<times> stream_info) list \<Rightarrow> (string \<times> stream_info) list" where
  "replay_one (Started i) l = AList.update (si_id i) i l"
| "replay_one (Updated i) l = AList.update (si_id i) i l"
| "replay_one (Stopped i cause r) l = AList.delete (si_id i) l"
| "replay_one Everything_Over l = []"
| "replay_one _ l = l"

definition replay :: "streams_event list \<Rightarrow> (string \<times> stream_info) list" where
  "replay es = fold replay_one es []"

lemma replay_snoc [simp]: "replay (es @ [e]) = replay_one e (replay es)"
  by (simp add: replay_def)

definition list_rows_ok :: "(string \<times> stream_info) list \<Rightarrow> string list \<Rightarrow> bool" where
  "list_rows_ok infos orphans \<longleftrightarrow> distinct (map fst infos) \<and> (\<forall>(i, info)\<in>set infos. si_id info = i) \<and>
     (\<forall>i\<in>set orphans. map_of infos i = None)"

section \<open>The published streams\<close>

definition pubs_ok :: "(string \<times> nat) list \<Rightarrow> published list \<Rightarrow> bool" where
  "pubs_ok pubs made \<longleftrightarrow> distinct (map fst pubs) \<and>
     (\<forall>i k. map_of pubs i = Some k \<longrightarrow> k < length made \<and> pb_id (made ! k) = i) \<and>
     (\<forall>k<length made. \<not> pb_ended (made ! k) \<longrightarrow> map_of pubs (pb_id (made ! k)) = Some k) \<and>
     (\<forall>p\<in>set made. published_ok p \<and> keys_ok p)"

section \<open>The watches\<close>

definition view_open :: "watch \<Rightarrow> bool" where
  "view_open w \<longleftrightarrow> (case wt_view w of None \<Rightarrow> False | Some v \<Rightarrow> sp_closed v = None)"

text \<open>A watch kept under its stream: waiting, or with its view open.\<close>

definition watch_kept :: "watch \<Rightarrow> bool" where
  "watch_kept w \<longleftrightarrow> (wt_view w = None \<longrightarrow> wt_settled w = None \<and> wt_over w = None) \<and> (wt_view w \<noteq> None \<longrightarrow> view_open w)"

text \<open>And of every watch: settled with its view, never both refused and let in. Those of \<open>apart\<close> are being ended.\<close>

definition watch_ok :: "watch \<Rightarrow> bool" where
  "watch_ok w \<longleftrightarrow> (wt_settled w = Some Got \<longleftrightarrow> wt_view w \<noteq> None) \<and>
     (\<forall>o'. wt_over w = Some o' \<longrightarrow> (o' = Got \<longleftrightarrow> wt_view w \<noteq> None)) \<and> length (wt_early w) \<le> MAX_EARLY_SIGNALS"

definition watches_ok :: "nat set \<Rightarrow> (string \<times> nat) list \<Rightarrow> watch list \<Rightarrow> bool" where
  "watches_ok apart kept made \<longleftrightarrow> distinct (map fst kept) \<and>
     (\<forall>i n. map_of kept i = Some n \<longrightarrow> n < length made \<and> wt_id (made ! n) = i \<and> watch_kept (made ! n)) \<and>
     (\<forall>n<length made. watch_ok (made ! n) \<and>
        (n \<notin> apart \<and> (view_open (made ! n) \<or> wt_settled (made ! n) = None \<and> wt_over (made ! n) = None) \<longrightarrow>
           map_of kept (wt_id (made ! n)) = Some n))"

section \<open>The publish calls\<close>

definition attempt_ok :: "nat list \<Rightarrow> nat \<Rightarrow> nat \<Rightarrow> attempt \<Rightarrow> bool" where
  "attempt_ok waiting streams n a \<longleftrightarrow>
     (\<not> at_answered a \<longrightarrow> n \<in> set waiting \<or> at_reset a) \<and>
     (at_outcome a = None \<longrightarrow> n \<in> set waiting \<or> at_over a \<noteq> None) \<and>
     (at_reset a \<longrightarrow> at_outcome a \<noteq> None) \<and>
     (at_abandoned a \<longrightarrow> at_over a \<noteq> None) \<and>
     (at_over a = Some Got \<longrightarrow> at_outcome a = Some Got) \<and>
     (at_outcome a = Some Got \<longrightarrow> (\<exists>k. at_stream a = Some k \<and> k < streams))"

definition attempts_ok :: "nat list \<Rightarrow> nat \<Rightarrow> attempt list \<Rightarrow> bool" where
  "attempts_ok waiting streams made \<longleftrightarrow> (\<forall>n\<in>set waiting. n < length made \<and> \<not> at_answered (made ! n)) \<and>
     (\<forall>n<length made. attempt_ok waiting streams n (made ! n))"

section \<open>The invariant\<close>

definition bounded_ok :: "streams \<Rightarrow> bool" where
  "bounded_ok s \<longleftrightarrow> length (ss_orphans s) \<le> MAX_ORPHANS \<and> length (ss_stopped s) \<le> MAX_STOPPED \<and>
     length (ss_closedViews s) \<le> MAX_CLOSED_VIEWS \<and> length (ss_denied s) \<le> MAX_DENIED"

definition disposed_ok :: "streams \<Rightarrow> bool" where
  "disposed_ok s \<longleftrightarrow> (ss_disposed s \<longrightarrow> ss_infos s = [] \<and> ss_published s = [] \<and> ss_watching s = [] \<and>
     ss_publishing s = [] \<and> ss_goneTimers s = [])"

text \<open>The orphans, and the watches being ended, apart, for the steps within an operation.\<close>

definition core_ok :: "nat set \<Rightarrow> string list \<Rightarrow> streams \<Rightarrow> bool" where
  "core_ok apart orphans s \<longleftrightarrow> replay (ss_events s) = ss_infos s \<and> list_rows_ok (ss_infos s) orphans \<and>
     pubs_ok (ss_published s) (ss_streams s) \<and> watches_ok apart (ss_watching s) (ss_watches s) \<and>
     attempts_ok (ss_publishing s) (length (ss_streams s)) (ss_attempts s) \<and> bounded_ok s \<and> disposed_ok s"

definition streams_ok :: "streams \<Rightarrow> bool" where
  "streams_ok s \<longleftrightarrow> core_ok {} (ss_orphans s) s"

lemma new_streams_ok: "streams_ok (new_streams remember)"
  by (simp add: streams_ok_def core_ok_def new_streams_def replay_def list_rows_ok_def pubs_ok_def watches_ok_def
      attempts_ok_def bounded_ok_def disposed_ok_def MAX_ORPHANS_def MAX_STOPPED_def MAX_CLOSED_VIEWS_def MAX_DENIED_def)

section \<open>What each operation leaves alone\<close>

lemma emit_event_fields [simp]:
  "ss_infos (emit_event e s) = ss_infos s" "ss_orphans (emit_event e s) = ss_orphans s"
  "ss_published (emit_event e s) = ss_published s" "ss_streams (emit_event e s) = ss_streams s"
  "ss_watching (emit_event e s) = ss_watching s" "ss_watches (emit_event e s) = ss_watches s"
  "ss_publishing (emit_event e s) = ss_publishing s" "ss_attempts (emit_event e s) = ss_attempts s"
  "ss_disposed (emit_event e s) = ss_disposed s" "ss_stopped (emit_event e s) = ss_stopped s"
  "ss_closedViews (emit_event e s) = ss_closedViews s" "ss_denied (emit_event e s) = ss_denied s"
  "ss_goneTimers (emit_event e s) = ss_goneTimers s" "ss_asked (emit_event e s) = ss_asked s"
  "ss_rememberDenied (emit_event e s) = ss_rememberDenied s"
  "replay (ss_events (emit_event e s)) = replay_one e (replay (ss_events s))"
  by (simp_all add: emit_event_def)

lemma on_stream_fields [simp]:
  "ss_infos (on_stream k f s) = ss_infos s" "ss_orphans (on_stream k f s) = ss_orphans s"
  "ss_published (on_stream k f s) = ss_published s" "ss_streams (on_stream k f s) = (ss_streams s)[k := f (ss_streams s ! k)]"
  "ss_watching (on_stream k f s) = ss_watching s" "ss_watches (on_stream k f s) = ss_watches s"
  "ss_publishing (on_stream k f s) = ss_publishing s" "ss_attempts (on_stream k f s) = ss_attempts s"
  "ss_disposed (on_stream k f s) = ss_disposed s" "ss_stopped (on_stream k f s) = ss_stopped s"
  "ss_closedViews (on_stream k f s) = ss_closedViews s" "ss_denied (on_stream k f s) = ss_denied s"
  "ss_goneTimers (on_stream k f s) = ss_goneTimers s" "ss_events (on_stream k f s) = ss_events s"
  by (simp_all add: on_stream_def)

lemma set_watch_fields [simp]:
  "ss_infos (set_watch n w s) = ss_infos s" "ss_orphans (set_watch n w s) = ss_orphans s"
  "ss_published (set_watch n w s) = ss_published s" "ss_streams (set_watch n w s) = ss_streams s"
  "ss_watching (set_watch n w s) = ss_watching s" "ss_watches (set_watch n w s) = (ss_watches s)[n := w]"
  "ss_publishing (set_watch n w s) = ss_publishing s" "ss_attempts (set_watch n w s) = ss_attempts s"
  "ss_disposed (set_watch n w s) = ss_disposed s" "ss_stopped (set_watch n w s) = ss_stopped s"
  "ss_closedViews (set_watch n w s) = ss_closedViews s" "ss_denied (set_watch n w s) = ss_denied s"
  "ss_goneTimers (set_watch n w s) = ss_goneTimers s" "ss_events (set_watch n w s) = ss_events s"
  by (simp_all add: set_watch_def)

lemma put_attempt_fields [simp]:
  "ss_infos (put_attempt n a s) = ss_infos s" "ss_orphans (put_attempt n a s) = ss_orphans s"
  "ss_published (put_attempt n a s) = ss_published s" "ss_streams (put_attempt n a s) = ss_streams s"
  "ss_watching (put_attempt n a s) = ss_watching s" "ss_watches (put_attempt n a s) = ss_watches s"
  "ss_publishing (put_attempt n a s) = ss_publishing s" "ss_attempts (put_attempt n a s) = (ss_attempts s)[n := a]"
  "ss_disposed (put_attempt n a s) = ss_disposed s" "ss_stopped (put_attempt n a s) = ss_stopped s"
  "ss_closedViews (put_attempt n a s) = ss_closedViews s" "ss_denied (put_attempt n a s) = ss_denied s"
  "ss_goneTimers (put_attempt n a s) = ss_goneTimers s" "ss_events (put_attempt n a s) = ss_events s"
  by (simp_all add: put_attempt_def)

lemma settle_publish_fields [simp]:
  "ss_infos (settle_publish n o' s) = ss_infos s" "ss_orphans (settle_publish n o' s) = ss_orphans s"
  "ss_published (settle_publish n o' s) = ss_published s" "ss_streams (settle_publish n o' s) = ss_streams s"
  "ss_watching (settle_publish n o' s) = ss_watching s" "ss_watches (settle_publish n o' s) = ss_watches s"
  "ss_publishing (settle_publish n o' s) = ss_publishing s" "ss_disposed (settle_publish n o' s) = ss_disposed s"
  "ss_stopped (settle_publish n o' s) = ss_stopped s" "ss_closedViews (settle_publish n o' s) = ss_closedViews s"
  "ss_denied (settle_publish n o' s) = ss_denied s" "ss_goneTimers (settle_publish n o' s) = ss_goneTimers s"
  "ss_events (settle_publish n o' s) = ss_events s" "length (ss_attempts (settle_publish n o' s)) = length (ss_attempts s)"
  by (simp_all add: settle_publish_def Let_def)

text \<open>Operations on the watches alone: what they say is of views and promises.\<close>

definition watches_only :: "streams \<Rightarrow> streams \<Rightarrow> bool" where
  "watches_only s s' \<longleftrightarrow> ss_infos s' = ss_infos s \<and> ss_orphans s' = ss_orphans s \<and> ss_published s' = ss_published s \<and>
     ss_streams s' = ss_streams s \<and> ss_publishing s' = ss_publishing s \<and> ss_attempts s' = ss_attempts s \<and>
     ss_disposed s' = ss_disposed s \<and> ss_stopped s' = ss_stopped s \<and> ss_denied s' = ss_denied s \<and>
     ss_goneTimers s' = ss_goneTimers s \<and> replay (ss_events s') = replay (ss_events s) \<and>
     length (ss_watches s') = length (ss_watches s) \<and>
     (length (ss_closedViews s) \<le> MAX_CLOSED_VIEWS \<longrightarrow> length (ss_closedViews s') \<le> MAX_CLOSED_VIEWS) \<and>
     (ss_watching s = [] \<longrightarrow> ss_watching s' = [])"

lemma bounded_add_length: "length l \<le> n \<Longrightarrow> length (bounded_add n x l) \<le> n"
  by (auto simp: bounded_add_def set_add_def Let_def)

lemma bounded_add_set: "set (bounded_add n x l) \<subseteq> insert x (set l)"
  by (auto simp: bounded_add_def set_add_def Let_def dest: list.set_sel(2)[rotated])

lemma newest_last_length: "length l \<le> n \<Longrightarrow> length (newest_last n x l) \<le> n"
  unfolding newest_last_def by (rule bounded_add_length) (metis length_removeAll_less_eq le_trans)

lemma settle_watch_only: "watches_only s (settle_watch n o' s)"
  by (simp add: watches_only_def settle_watch_def Let_def)

lemma end_watch_view_only: "watches_only s (end_watch_view cause n s)"
  by (auto simp: watches_only_def end_watch_view_def Let_def newest_last_length split: option.split)

lemma watches_only_refl: "watches_only s s"
  by (simp add: watches_only_def)

lemma watches_only_trans: "watches_only s s' \<Longrightarrow> watches_only s' s'' \<Longrightarrow> watches_only s s''"
  by (simp add: watches_only_def)

text \<open>The invariant, of a state whose watches changed alone.\<close>

lemma watches_only_ok:
  assumes "core_ok X orph s" "watches_only s s'" "watches_ok Y (ss_watching s') (ss_watches s')"
  shows "core_ok Y orph s'"
  using assms unfolding core_ok_def watches_only_def bounded_ok_def disposed_ok_def by metis

lemma core_okD:
  assumes "core_ok X orph s"
  shows "replay (ss_events s) = ss_infos s" "list_rows_ok (ss_infos s) orph" "pubs_ok (ss_published s) (ss_streams s)"
    "watches_ok X (ss_watching s) (ss_watches s)" "attempts_ok (ss_publishing s) (length (ss_streams s)) (ss_attempts s)"
    "bounded_ok s" "disposed_ok s"
  using assms unfolding core_ok_def by blast+

section \<open>Watches come to an end\<close>

lemma watches_okD:
  assumes "watches_ok X kept made"
  shows "map_of kept i = Some n \<Longrightarrow> n < length made \<and> wt_id (made ! n) = i \<and> watch_kept (made ! n)"
    and "n < length made \<Longrightarrow> watch_ok (made ! n)"
    and "n < length made \<Longrightarrow> n \<notin> X \<Longrightarrow> view_open (made ! n) \<or> wt_settled (made ! n) = None \<and> wt_over (made ! n) = None \<Longrightarrow>
      map_of kept (wt_id (made ! n)) = Some n"
  using assms unfolding watches_ok_def by blast+

lemma watches_okI:
  assumes "distinct (map fst kept)"
    and "\<And>i n. map_of kept i = Some n \<Longrightarrow> n < length made \<and> wt_id (made ! n) = i \<and> watch_kept (made ! n)"
    and "\<And>n. n < length made \<Longrightarrow> watch_ok (made ! n)"
    and "\<And>n. n < length made \<Longrightarrow> n \<notin> X \<Longrightarrow> view_open (made ! n) \<or> wt_settled (made ! n) = None \<and> wt_over (made ! n) = None \<Longrightarrow>
      map_of kept (wt_id (made ! n)) = Some n"
  shows "watches_ok X kept made"
  using assms unfolding watches_ok_def by blast

lemma watches_apart: "watches_ok X kept made \<Longrightarrow> X \<subseteq> Y \<Longrightarrow> watches_ok Y kept made"
  unfolding watches_ok_def by blast

lemma watching_distinct: "watches_ok X kept made \<Longrightarrow> distinct (map fst kept)"
  by (simp add: watches_ok_def)

text \<open>A watch changed: it stays kept only as a kept watch may be, and is not kept only when it is over.\<close>

lemma watch_changed:
  assumes "watches_ok (insert n X) kept made" "n < length made" "wt_id w = wt_id (made ! n)" "watch_ok w"
    and "map_of kept (wt_id w) = Some n \<Longrightarrow> watch_kept w"
    and "view_open w \<or> wt_settled w = None \<and> wt_over w = None \<Longrightarrow> map_of kept (wt_id w) = Some n"
  shows "watches_ok X kept (made[n := w])"
proof (rule watches_okI)
  show "distinct (map fst kept)" using watching_distinct[OF assms(1)] .
next
  fix i m assume k: "map_of kept i = Some m"
  from watches_okD(1)[OF assms(1) k] show "m < length (made[n := w]) \<and> wt_id (made[n := w] ! m) = i \<and> watch_kept (made[n := w] ! m)"
    using assms(2,3,5) k by (cases "m = n") auto
next
  fix m assume "m < length (made[n := w])"
  then show "watch_ok (made[n := w] ! m)"
    using watches_okD(2)[OF assms(1), of m] assms(2,4) by (cases "m = n") auto
next
  fix m assume "m < length (made[n := w])" "m \<notin> X"
    "view_open (made[n := w] ! m) \<or> wt_settled (made[n := w] ! m) = None \<and> wt_over (made[n := w] ! m) = None"
  then show "map_of kept (wt_id (made[n := w] ! m)) = Some m"
    using watches_okD(3)[OF assms(1), of m] assms(2,6) by (cases "m = n") auto
qed

lemma watch_unkept:
  assumes "watches_ok X kept made" "map_of kept i = Some n"
  shows "watches_ok (insert n X) (AList.delete i kept) made" "map_of (AList.delete i kept) (wt_id (made ! n)) = None"
proof -
  have n: "wt_id (made ! n) = i" using watches_okD(1)[OF assms] by simp
  show "map_of (AList.delete i kept) (wt_id (made ! n)) = None" by (simp add: n delete_conv')
  show "watches_ok (insert n X) (AList.delete i kept) made"
  proof (rule watches_okI)
    show "distinct (map fst (AList.delete i kept))" using watching_distinct[OF assms(1)] by (rule distinct_delete)
  next
    fix j m assume "map_of (AList.delete i kept) j = Some m"
    then have "map_of kept j = Some m" by (simp add: delete_conv' split: if_splits)
    then show "m < length made \<and> wt_id (made ! m) = j \<and> watch_kept (made ! m)" using watches_okD(1)[OF assms(1)] by blast
  next
    fix m assume "m < length made"
    then show "watch_ok (made ! m)" using watches_okD(2)[OF assms(1)] by blast
  next
    fix m assume m: "m < length made" "m \<notin> insert n X"
      "view_open (made ! m) \<or> wt_settled (made ! m) = None \<and> wt_over (made ! m) = None"
    then have k: "map_of kept (wt_id (made ! m)) = Some m" using watches_okD(3)[OF assms(1), of m] by blast
    moreover have "wt_id (made ! m) \<noteq> i" using k assms(2) m(2) by auto
    ultimately show "map_of (AList.delete i kept) (wt_id (made ! m)) = Some m" by (simp add: delete_conv')
  qed
qed

abbreviation watches_inv :: "nat set \<Rightarrow> streams \<Rightarrow> bool" where
  "watches_inv X s \<equiv> watches_ok X (ss_watching s) (ss_watches s)"

lemma view_ended:
  assumes "watches_inv (insert n X) s" "n < length (ss_watches s)" "wt_view (ss_watches s ! n) \<noteq> None"
    "n \<in> X \<or> watches_inv X s \<or> map_of (ss_watching s) (wt_id (ss_watches s ! n)) \<noteq> Some n"
  shows "watches_inv X (end_watch_view cause n s)"
proof -
  define w where "w = ss_watches s ! n"
  obtain v where v: "wt_view w = Some v" using assms(3) by (auto simp: w_def)
  have ok: "watch_ok w" using watches_okD(2)[OF assms(1,2)] by (simp add: w_def)
  show ?thesis
  proof (cases "sp_closed v = None")
    case False
    then have same: "end_watch_view cause n s = s" using v by (simp add: end_watch_view_def w_def[symmetric])
    have "watches_ok X (ss_watching s) ((ss_watches s)[n := w])"
    proof (rule watch_changed[OF assms(1,2)])
      have "map_of (ss_watching s) (wt_id w) \<noteq> Some n"
        using watches_okD(1)[OF assms(1), of "wt_id w" n] False v by (auto simp: w_def watch_kept_def view_open_def)
      then show "map_of (ss_watching s) (wt_id w) = Some n \<Longrightarrow> watch_kept w" by blast
    qed (use ok False v in \<open>auto simp: w_def view_open_def watch_ok_def\<close>)
    then show ?thesis by (simp add: same w_def)
  next
    case True
    define w' where "w' = w\<lparr>wt_view := Some (v\<lparr>sp_closed := Some cause\<rparr>)\<rparr>"
    have w': "wt_id w' = wt_id w" "watch_ok w'" "\<not> view_open w'" "wt_settled w' = Some Got"
      using ok v by (simp_all add: w'_def watch_ok_def view_open_def)
    define kept where "kept = (if map_of (ss_watching s) (wt_id w) = Some n then AList.delete (wt_id w) (ss_watching s) else ss_watching s)"
    have f: "ss_watching (end_watch_view cause n s) = kept" "ss_watches (end_watch_view cause n s) = (ss_watches s)[n := w']"
      using v True by (simp_all add: end_watch_view_def Let_def kept_def w'_def flip: w_def)
    have k: "watches_ok (insert n X) kept (ss_watches s)" "map_of kept (wt_id w) \<noteq> Some n"
      using assms(1) watch_unkept(1)[OF assms(1), of "wt_id w" n] by (simp_all add: kept_def delete_conv')
    show ?thesis unfolding f
      by (rule watch_changed[OF k(1) assms(2)]) (use w' k(2) in \<open>simp_all add: w_def\<close>)
  qed
qed

lemma watch_settled:
  assumes "watches_inv (insert n X) s" "n < length (ss_watches s)" "wt_view (ss_watches s ! n) = None"
    "map_of (ss_watching s) (wt_id (ss_watches s ! n)) \<noteq> Some n"
  shows "watches_inv X (settle_watch n (Failed e) s)"
proof -
  define w where "w = ss_watches s ! n"
  have ok: "watch_ok w" using watches_okD(2)[OF assms(1,2)] by (simp add: w_def)
  define w' where "w' = (if wt_settled w \<noteq> None then w else w\<lparr>wt_settled := Some (Failed e)\<rparr>)"
  have f: "ss_watching (settle_watch n (Failed e) s) = ss_watching s" "ss_watches (settle_watch n (Failed e) s) = (ss_watches s)[n := w']"
    by (simp_all add: settle_watch_def Let_def w'_def flip: w_def) (simp add: w_def)
  have w': "wt_id w' = wt_id w" "watch_ok w'" "\<not> view_open w'" "wt_settled w' \<noteq> None"
    using ok assms(3) by (auto simp: w'_def watch_ok_def view_open_def w_def)
  show ?thesis unfolding f
    by (rule watch_changed[OF assms(1,2)]) (use w' assms(4) in \<open>simp_all add: w_def\<close>)
qed

lemma end_watch_ok: "watches_inv X s \<Longrightarrow> watches_inv X (end_watch reason i s)"
proof -
  assume ok: "watches_inv X s"
  show ?thesis
  proof (cases "map_of (ss_watching s) i")
    case None
    then show ?thesis using ok by (simp add: end_watch_def)
  next
    case (Some n)
    define s1 where "s1 = s\<lparr>ss_watching := AList.delete i (ss_watching s)\<rparr>"
    have n: "n < length (ss_watches s)" using watches_okD(1)[OF ok Some] by simp
    have s1: "watches_inv (insert n X) s1" "n < length (ss_watches s1)"
      "map_of (ss_watching s1) (wt_id (ss_watches s1 ! n)) \<noteq> Some n"
      using watch_unkept[OF ok Some] n by (simp_all add: s1_def)
    show ?thesis
      using view_ended[OF s1(1,2) _, of "PE_Stopped reason"] watch_settled[OF s1(1,2) _ s1(3)] s1(3)
      by (auto simp: end_watch_def Some Let_def s1_def[symmetric])
  qed
qed

lemma end_watch_only: "watches_only s (end_watch reason i s)"
proof -
  have "watches_only s (s\<lparr>ss_watching := AList.delete i (ss_watching s)\<rparr>)" by (simp add: watches_only_def)
  then show ?thesis
    using watches_only_trans end_watch_view_only settle_watch_only
    by (auto simp: end_watch_def Let_def watches_only_refl split: option.split)
qed

section \<open>The rows follow the events\<close>

lemma list_rows_okD:
  assumes "list_rows_ok infos orphans"
  shows "distinct (map fst infos)" "map_of infos i = Some info \<Longrightarrow> si_id info = i"
    "i \<in> set orphans \<Longrightarrow> map_of infos i = None"
  using assms unfolding list_rows_ok_def by (auto dest: map_of_SomeD)

lemma rows_deleted:
  assumes "list_rows_ok infos orphans"
  shows "list_rows_ok (AList.delete i infos) orphans"
proof -
  have "set (AList.delete i infos) \<subseteq> set infos" by (auto simp: AList.delete_eq)
  then show ?thesis using assms by (auto simp: list_rows_ok_def distinct_delete delete_conv')
qed

lemma rows_orphaned:
  assumes "list_rows_ok infos orphans"
  shows "list_rows_ok (AList.delete i infos) (bounded_add n i orphans)"
  using rows_deleted[OF assms, of i] assms bounded_add_set[of n i orphans]
  by (auto simp: list_rows_ok_def delete_conv')

lemma rows_updated:
  assumes "list_rows_ok infos orphans" "si_id info \<notin> set orphans"
  shows "list_rows_ok (AList.update (si_id info) info infos) orphans"
proof -
  have "set (AList.update (si_id info) info infos) \<subseteq> insert (si_id info, info) (set infos)"
    by (induction infos) auto
  then show ?thesis using assms by (auto simp: list_rows_ok_def distinct_update update_conv')
qed

lemma forget_row_fields [simp]:
  "ss_infos (forget_row i s) = AList.delete i (ss_infos s)" "ss_orphans (forget_row i s) = ss_orphans s"
  "ss_published (forget_row i s) = ss_published s" "ss_streams (forget_row i s) = ss_streams s"
  "ss_watching (forget_row i s) = ss_watching s" "ss_watches (forget_row i s) = ss_watches s"
  "ss_publishing (forget_row i s) = ss_publishing s" "ss_attempts (forget_row i s) = ss_attempts s"
  "ss_disposed (forget_row i s) = ss_disposed s" "ss_stopped (forget_row i s) = ss_stopped s"
  "ss_closedViews (forget_row i s) = ss_closedViews s" "ss_denied (forget_row i s) = ss_denied s"
  "ss_events (forget_row i s) = ss_events s" "ss_goneTimers s = [] \<Longrightarrow> ss_goneTimers (forget_row i s) = []"
proof -
  have "map_of (ss_infos s) i = None \<Longrightarrow> AList.delete i (ss_infos s) = ss_infos s"
    by (simp add: delete_id map_of_eq_None_iff)
  then show "ss_infos (forget_row i s) = AList.delete i (ss_infos s)"
    by (auto simp: forget_row_def cancelGone_def Let_def split: option.split)
qed (auto simp: forget_row_def cancelGone_def Let_def split: option.split)

section \<open>The published streams\<close>

lemma pubs_okD:
  assumes "pubs_ok pubs made"
  shows "map_of pubs i = Some k \<Longrightarrow> k < length made \<and> pb_id (made ! k) = i"
    and "k < length made \<Longrightarrow> \<not> pb_ended (made ! k) \<Longrightarrow> map_of pubs (pb_id (made ! k)) = Some k"
    and "k < length made \<Longrightarrow> published_ok (made ! k) \<and> keys_ok (made ! k)"
    and "distinct (map fst pubs)"
  using assms unfolding pubs_ok_def by (blast, blast, metis nth_mem, blast)

text \<open>A call that leaves a stream's id and its end alone, as every one of its own does.\<close>

lemma stream_called:
  assumes "pubs_ok pubs made" "k < length made"
    and "pb_id (f (made ! k)) = pb_id (made ! k)" "\<not> pb_ended (f (made ! k)) \<Longrightarrow> \<not> pb_ended (made ! k)"
    and "published_ok (f (made ! k)) \<and> keys_ok (f (made ! k))"
  shows "pubs_ok pubs (made[k := f (made ! k)])"
  unfolding pubs_ok_def
proof (intro conjI allI impI ballI)
  show "distinct (map fst pubs)" using pubs_okD(4)[OF assms(1)] .
next
  fix i j assume "map_of pubs i = Some j"
  then show "j < length (made[k := f (made ! k)])" "pb_id (made[k := f (made ! k)] ! j) = i"
    using pubs_okD(1)[OF assms(1), of i j] assms(2,3) by (cases "j = k"; auto)+
next
  fix j assume "j < length (made[k := f (made ! k)])" "\<not> pb_ended (made[k := f (made ! k)] ! j)"
  then show "map_of pubs (pb_id (made[k := f (made ! k)] ! j)) = Some j"
    using pubs_okD(2)[OF assms(1), of j] assms(2-4) by (cases "j = k") auto
next
  fix p assume "p \<in> set (made[k := f (made ! k)])"
  then have "p = f (made ! k) \<or> p \<in> set made" using set_update_subset_insert by fastforce
  then show "published_ok p" "keys_ok p" using assms(1,5) by (auto simp: pubs_ok_def)
qed

lemma finish_stream_id: "pb_id (finish_stream e p) = pb_id p"
proof -
  have a: "pb_id (close_request st n q) = pb_id q" for st n q by (simp add: close_request_def say_def set_state_def)
  have b: "pb_id (end_peer st n q) = pb_id q" for st n q by (simp add: end_peer_def set_peer_def say_def Let_def)
  have fc: "pb_id (fold (close_request st) ns q) = pb_id q" for st ns q by (induction ns arbitrary: q) (simp_all add: a)
  have fe: "pb_id (fold (end_peer st) ns q) = pb_id q" for st ns q by (induction ns arbitrary: q) (simp_all add: b)
  show ?thesis by (simp add: finish_stream_def say_def Let_def fc fe)
qed

lemma finish_stream_keeps:
  assumes "published_ok p \<and> keys_ok p"
  shows "published_ok (finish_stream e p) \<and> keys_ok (finish_stream e p)" "pb_ended (finish_stream e p)"
proof -
  have a: "published_ok (finish_stream e p) \<and> keys_ok (finish_stream e p) \<and> pb_ended (finish_stream e p)"
    using stream_finished(1-3)[of p e] assms by (cases "pb_ended p") (simp_all add: finish_stream_def[of _ p])
  then show "published_ok (finish_stream e p) \<and> keys_ok (finish_stream e p)" "pb_ended (finish_stream e p)" by blast+
qed

lemma stream_finishes:
  assumes "pubs_ok pubs made" "map_of pubs i = Some k"
  shows "pubs_ok (AList.delete i pubs) (made[k := finish_stream e (made ! k)])"
proof -
  have k: "k < length made" "pb_id (made ! k) = i" using pubs_okD(1)[OF assms] by simp_all
  note fin = finish_stream_keeps[OF pubs_okD(3)[OF assms(1) k(1)], of e]
  have p: "pubs_ok pubs (made[k := finish_stream e (made ! k)])"
    by (rule stream_called[OF assms(1) k(1)]) (use fin finish_stream_id in auto)
  show ?thesis unfolding pubs_ok_def
  proof (intro conjI allI impI ballI)
    show "distinct (map fst (AList.delete i pubs))" using pubs_okD(4)[OF assms(1)] by (rule distinct_delete)
  next
    fix j m assume "map_of (AList.delete i pubs) j = Some m"
    then have "map_of pubs j = Some m" by (simp add: delete_conv' split: if_splits)
    then show "m < length (made[k := finish_stream e (made ! k)])" "pb_id (made[k := finish_stream e (made ! k)] ! m) = j"
      using pubs_okD(1)[OF p] by blast+
  next
    fix m assume m: "m < length (made[k := finish_stream e (made ! k)])" "\<not> pb_ended (made[k := finish_stream e (made ! k)] ! m)"
    then have "m \<noteq> k" using fin(2) k(1) by auto
    moreover have mo: "map_of pubs (pb_id (made[k := finish_stream e (made ! k)] ! m)) = Some m" using pubs_okD(2)[OF p m] .
    ultimately have "pb_id (made[k := finish_stream e (made ! k)] ! m) \<noteq> i" using assms(2) by auto
    then show "map_of (AList.delete i pubs) (pb_id (made[k := finish_stream e (made ! k)] ! m)) = Some m"
      using mo by (simp add: delete_conv')
  next
    fix q assume "q \<in> set (made[k := finish_stream e (made ! k)])"
    then show "published_ok q" "keys_ok q" using p by (auto simp: pubs_ok_def)
  qed
qed

lemma stream_added:
  assumes "pubs_ok pubs made" "map_of pubs i = None"
  shows "pubs_ok (AList.update i (length made) pubs) (made @ [new_published i])"
  unfolding pubs_ok_def
proof (intro conjI allI impI ballI)
  show "distinct (map fst (AList.update i (length made) pubs))" using pubs_okD(4)[OF assms(1)] by (rule distinct_update)
next
  fix j k assume "map_of (AList.update i (length made) pubs) j = Some k"
  then have "j = i \<and> k = length made \<or> map_of pubs j = Some k" by (auto simp: update_conv' split: if_splits)
  then show "k < length (made @ [new_published i])" "pb_id ((made @ [new_published i]) ! k) = j"
    using pubs_okD(1)[OF assms(1), of j k] by (auto simp: nth_append new_published_def)
next
  fix k assume k: "k < length (made @ [new_published i])" "\<not> pb_ended ((made @ [new_published i]) ! k)"
  show "map_of (AList.update i (length made) pubs) (pb_id ((made @ [new_published i]) ! k)) = Some k"
  proof (cases "k < length made")
    case True
    then have "map_of pubs (pb_id (made ! k)) = Some k" using pubs_okD(2)[OF assms(1) True] k(2) by (simp add: nth_append)
    moreover from this have "pb_id (made ! k) \<noteq> i" using assms(2) by auto
    ultimately show ?thesis using True by (simp add: nth_append update_conv')
  next
    case False
    then have "k = length made" using k(1) by simp
    then show ?thesis by (simp add: new_published_def update_conv')
  qed
next
  fix p assume "p \<in> set (made @ [new_published i])"
  then show "published_ok p" "keys_ok p"
    using assms(1) new_published_ok by (auto simp: pubs_ok_def keys_ok_def new_published_def)
qed

section \<open>The end of a stream\<close>

lemma end_published_fields [simp]:
  "ss_infos (end_published e i s) = ss_infos s" "ss_orphans (end_published e i s) = ss_orphans s"
  "ss_watching (end_published e i s) = ss_watching s" "ss_watches (end_published e i s) = ss_watches s"
  "ss_publishing (end_published e i s) = ss_publishing s" "ss_attempts (end_published e i s) = ss_attempts s"
  "ss_disposed (end_published e i s) = ss_disposed s" "ss_stopped (end_published e i s) = ss_stopped s"
  "ss_closedViews (end_published e i s) = ss_closedViews s" "ss_denied (end_published e i s) = ss_denied s"
  "ss_events (end_published e i s) = ss_events s" "ss_goneTimers (end_published e i s) = ss_goneTimers s"
  "length (ss_streams (end_published e i s)) = length (ss_streams s)"
  "ss_published s = [] \<Longrightarrow> ss_published (end_published e i s) = []"
  by (auto simp: end_published_def split: option.split)

lemma end_published_ok:
  "pubs_ok (ss_published s) (ss_streams s) \<Longrightarrow> pubs_ok (ss_published (end_published e i s)) (ss_streams (end_published e i s))"
  using stream_finishes[of "ss_published s" "ss_streams s" i _ e]
  by (auto simp: end_published_def split: option.split)

lemma row_and_stream_ended:
  assumes "core_ok X orph s"
    and s1_def: "s1 = (if cause = SC_Gone then s else s\<lparr>ss_stopped := newest_last MAX_STOPPED i (ss_stopped s)\<rparr>)"
    and s2_def: "s2 = end_published e i (forget_row i s1)"
  shows "list_rows_ok (ss_infos s2) orph" "pubs_ok (ss_published s2) (ss_streams s2)" "watches_inv X s2"
    "attempts_ok (ss_publishing s2) (length (ss_streams s2)) (ss_attempts s2)" "bounded_ok s2" "disposed_ok s2"
    "ss_infos s2 = AList.delete i (ss_infos s)" "ss_events s2 = ss_events s" "ss_orphans s2 = ss_orphans s"
    "length (ss_watches s2) = length (ss_watches s)"
proof -
  note ok = core_okD[OF assms(1)]
  have f: "ss_infos s1 = ss_infos s" "ss_events s1 = ss_events s" "ss_orphans s1 = ss_orphans s"
    "ss_published s1 = ss_published s" "ss_streams s1 = ss_streams s" "ss_watching s1 = ss_watching s"
    "ss_watches s1 = ss_watches s" "ss_publishing s1 = ss_publishing s" "ss_attempts s1 = ss_attempts s"
    "ss_disposed s1 = ss_disposed s" "ss_goneTimers s1 = ss_goneTimers s"
    "ss_closedViews s1 = ss_closedViews s" "ss_denied s1 = ss_denied s"
    by (simp_all add: s1_def)
  have stopped: "length (ss_stopped s1) \<le> MAX_STOPPED"
    using ok(6) by (simp add: s1_def bounded_ok_def newest_last_length)
  show "ss_infos s2 = AList.delete i (ss_infos s)" "ss_events s2 = ss_events s" "ss_orphans s2 = ss_orphans s"
    "length (ss_watches s2) = length (ss_watches s)"
    by (simp_all add: s2_def f)
  show "list_rows_ok (ss_infos s2) orph" using rows_deleted[OF ok(2)] by (simp add: s2_def f)
  show "pubs_ok (ss_published s2) (ss_streams s2)"
    unfolding s2_def by (rule end_published_ok) (use ok(3) in \<open>simp add: f\<close>)
  show "watches_inv X s2" "attempts_ok (ss_publishing s2) (length (ss_streams s2)) (ss_attempts s2)"
    using ok(4,5) by (simp_all add: s2_def f)
  show "bounded_ok s2" using ok(6) stopped by (simp add: bounded_ok_def s2_def f)
  show "disposed_ok s2" using ok(7) by (simp add: disposed_ok_def s2_def f)
qed

lemma end_stream_ok:
  assumes "core_ok X orph s"
  shows "core_ok X orph (end_stream i r cause s)"
    and "ss_infos (end_stream i r cause s) = AList.delete i (ss_infos s)"
    and "ss_orphans (end_stream i r cause s) = ss_orphans s"
    and "length (ss_watches (end_stream i r cause s)) = length (ss_watches s)"
proof -
  define s1 where "s1 = (if cause = SC_Gone then s else s\<lparr>ss_stopped := newest_last MAX_STOPPED i (ss_stopped s)\<rparr>)"
  define s2 where "s2 = end_published (end_reason_of cause r) i (forget_row i s1)"
  define s3 where "s3 = end_watch r i s2"
  note ok = core_okD[OF assms]
  note f = row_and_stream_ended[OF assms s1_def s2_def]
  have w: "watches_only s2 s3" "watches_inv X s3"
    using end_watch_only end_watch_ok f(3) by (auto simp: s3_def)
  have eq: "end_stream i r cause s = (case map_of (ss_infos s) i of None \<Rightarrow> s3 | Some info \<Rightarrow> emit_event (Stopped info cause r) s3)"
    unfolding end_stream_def Let_def s3_def s2_def s1_def ..
  have rep: "replay (ss_events (end_stream i r cause s)) = ss_infos (end_stream i r cause s)"
  proof (cases "map_of (ss_infos s) i")
    case None
    then have "AList.delete i (ss_infos s) = ss_infos s" by (simp add: delete_id map_of_eq_None_iff)
    then show ?thesis using w(1) f(7,8) ok(1) None by (simp add: eq watches_only_def)
  next
    case (Some info)
    then have "si_id info = i" using list_rows_okD(2)[OF ok(2)] by blast
    then show ?thesis using w(1) f(7,8) ok(1) Some by (simp add: eq watches_only_def)
  qed
  have "core_ok X orph (end_stream i r cause s)"
  proof -
    have g: "ss_infos (end_stream i r cause s) = ss_infos s3" "ss_published (end_stream i r cause s) = ss_published s3"
      "ss_streams (end_stream i r cause s) = ss_streams s3" "ss_watching (end_stream i r cause s) = ss_watching s3"
      "ss_watches (end_stream i r cause s) = ss_watches s3" "ss_publishing (end_stream i r cause s) = ss_publishing s3"
      "ss_attempts (end_stream i r cause s) = ss_attempts s3" "bounded_ok (end_stream i r cause s) = bounded_ok s3"
      "disposed_ok (end_stream i r cause s) = disposed_ok s3"
      by (simp_all add: eq bounded_ok_def disposed_ok_def split: option.split)
    have "list_rows_ok (ss_infos s3) orph" "pubs_ok (ss_published s3) (ss_streams s3)"
      "attempts_ok (ss_publishing s3) (length (ss_streams s3)) (ss_attempts s3)" "bounded_ok s3" "disposed_ok s3"
      using f w(1) by (simp_all add: watches_only_def bounded_ok_def disposed_ok_def)
    then show ?thesis using rep w(2) by (simp only: core_ok_def g)
  qed
  moreover have "ss_infos (end_stream i r cause s) = AList.delete i (ss_infos s)" "ss_orphans (end_stream i r cause s) = ss_orphans s"
    "length (ss_watches (end_stream i r cause s)) = length (ss_watches s)"
    using f(7,9,10) w(1) by (simp_all add: eq watches_only_def split: option.split)
  ultimately show "core_ok X orph (end_stream i r cause s)" "ss_infos (end_stream i r cause s) = AList.delete i (ss_infos s)"
    "ss_orphans (end_stream i r cause s) = ss_orphans s"
    "length (ss_watches (end_stream i r cause s)) = length (ss_watches s)" by blast+
qed

section \<open>What the server says\<close>

text \<open>Events that are no row's, and the fields the invariant does not look at.\<close>

definition no_row :: "streams_event \<Rightarrow> bool" where
  "no_row e \<longleftrightarrow> (\<forall>l. replay_one e l = l)"

lemma no_rowI [simp]:
  "no_row (Viewer_Joined info c)" "no_row (Viewer_Left info c)" "no_row (Reports t)" "no_row (Sends q)" "no_row (View_Over n p)"
  by (simp_all add: no_row_def)

lemma emit_event_ok: "no_row e \<Longrightarrow> core_ok X orph (emit_event e s) = core_ok X orph s"
  by (simp add: core_ok_def bounded_ok_def disposed_ok_def no_row_def)

lemma asked_irrelevant [simp]: "core_ok X orph (s\<lparr>ss_asked := a\<rparr>) = core_ok X orph s"
  by (simp add: core_ok_def bounded_ok_def disposed_ok_def)

lemma timers_fewer: "core_ok X orph s \<Longrightarrow> core_ok X orph (s\<lparr>ss_goneTimers := removeAll c (ss_goneTimers s)\<rparr>)"
  by (simp add: core_ok_def bounded_ok_def disposed_ok_def)

lemma update_same: "distinct (map fst l) \<Longrightarrow> map_of l k = Some v \<Longrightarrow> AList.update k v l = l"
  by (induction l) (auto split: if_splits)

lemma learn_ok:
  assumes "core_ok X orph s" "ss_orphans s = orph" "\<not> ss_disposed s"
  shows "core_ok X orph (learn info s)"
proof (cases "si_id info \<in> set orph")
  case True
  then show ?thesis using assms by (simp add: learn_def)
next
  case False
  note ok = core_okD[OF assms(1)]
  define s1 where "s1 = s\<lparr>ss_infos := AList.update (si_id info) info (ss_infos s)\<rparr>"
  have rows: "list_rows_ok (ss_infos s1) orph" using rows_updated[OF ok(2) False] by (simp add: s1_def)
  have f: "ss_published s1 = ss_published s" "ss_streams s1 = ss_streams s" "ss_watching s1 = ss_watching s"
    "ss_watches s1 = ss_watches s" "ss_publishing s1 = ss_publishing s" "ss_attempts s1 = ss_attempts s"
    "bounded_ok s1 = bounded_ok s" "ss_disposed s1 = ss_disposed s" "ss_events s1 = ss_events s"
    "ss_infos s1 = AList.update (si_id info) info (ss_infos s)"
    by (simp_all add: s1_def bounded_ok_def)
  have told: "core_ok X orph (emit_event e s1)" if "\<And>l. replay_one e l = AList.update (si_id info) info l" for e
  proof -
    have "bounded_ok (emit_event e s1)" using ok(6) f(7) by (simp add: bounded_ok_def)
    moreover have "disposed_ok (emit_event e s1)" using assms(3) by (simp add: disposed_ok_def f)
    ultimately show ?thesis using ok(1,3-5) rows that by (simp add: core_ok_def f)
  qed
  show ?thesis
  proof (cases "map_of (ss_infos s) (si_id info)")
    case None
    then show ?thesis using told[of "Started info"] False assms(2) by (simp add: learn_def Let_def s1_def)
  next
    case (Some known)
    then have i: "si_id known = si_id info" using list_rows_okD(2)[OF ok(2)] by blast
    show ?thesis
    proof (cases "sameInfo known info")
      case True
      then have "known = info" using i sameInfo_eq by blast
      then have "s1 = s" using update_same[OF list_rows_okD(1)[OF ok(2)]] Some by (simp add: s1_def)
      then show ?thesis using True Some False assms by (simp add: learn_def Let_def flip: s1_def)
    next
      case False
      then show ?thesis using told[of "Updated info"] Some \<open>si_id info \<notin> set orph\<close> assms(2)
        by (simp add: learn_def Let_def s1_def)
    qed
  qed
qed

lemma learn_fields [simp]:
  "ss_orphans (learn info s) = ss_orphans s" "ss_disposed (learn info s) = ss_disposed s"
  "ss_published (learn info s) = ss_published s" "ss_streams (learn info s) = ss_streams s"
  "ss_attempts (learn info s) = ss_attempts s" "ss_publishing (learn info s) = ss_publishing s"
  by (simp_all add: learn_def Let_def split: option.split)

lemma onInfo_ok: "streams_ok s \<Longrightarrow> \<not> ss_disposed s \<Longrightarrow> streams_ok (onInfo row s)"
  using learn_ok[of "{}" "ss_orphans s" s] by (auto simp: onInfo_def streams_ok_def split: option.split)

lemma orphans_fewer:
  assumes "streams_ok s"
  shows "streams_ok (s\<lparr>ss_orphans := removeAll i (ss_orphans s)\<rparr>)"
proof -
  have "bounded_ok s \<Longrightarrow> bounded_ok (s\<lparr>ss_orphans := removeAll i (ss_orphans s)\<rparr>)"
    by (simp add: bounded_ok_def le_trans[OF length_removeAll_less_eq])
  then show ?thesis using assms by (simp add: streams_ok_def core_ok_def list_rows_ok_def disposed_ok_def)
qed

lemma stream_stopped_ok: "streams_ok s \<Longrightarrow> streams_ok (end_stream i r cause s)"
  using end_stream_ok(1,3)[of "{}" "ss_orphans s" s] by (simp add: streams_ok_def)

lemma watch_unkept_state:
  assumes "core_ok {} orph s" "map_of (ss_watching s) i = Some n"
  defines "s1 \<equiv> s\<lparr>ss_watching := AList.delete i (ss_watching s)\<rparr>"
  shows "core_ok {n} orph s1" "map_of (ss_watching s1) (wt_id (ss_watches s1 ! n)) \<noteq> Some n"
    "n < length (ss_watches s1)" "ss_watches s1 = ss_watches s" "ss_orphans s1 = ss_orphans s"
proof -
  have w: "watches_inv {} s" using core_okD(4)[OF assms(1)] .
  have "watches_only s s1" by (simp add: watches_only_def s1_def)
  then show "core_ok {n} orph s1"
    by (rule watches_only_ok[OF assms(1)]) (use watch_unkept(1)[OF w assms(2)] in \<open>simp add: s1_def\<close>)
  show "map_of (ss_watching s1) (wt_id (ss_watches s1 ! n)) \<noteq> Some n"
    using watch_unkept(2)[OF w assms(2)] by (simp add: s1_def)
  show "n < length (ss_watches s1)" "ss_watches s1 = ss_watches s" "ss_orphans s1 = ss_orphans s"
    using watches_okD(1)[OF w assms(2)] by (simp_all add: s1_def)
qed

lemma settle_watch_orphans [simp]: "ss_orphans (settle_watch n e s) = ss_orphans s"
  using settle_watch_only[of s n e] by (simp add: watches_only_def)

lemma onRespond_ok:
  assumes "streams_ok s"
  shows "streams_ok (onRespond parse row s)"
proof (cases "map_of (ss_watching s) (str row ''id'')")
  case None
  then show ?thesis using assms by (simp add: onRespond_def)
next
  case (Some n)
  let ?i = "str row ''id''"
  define w where "w = ss_watches s ! n"
  define s1 where "s1 = s\<lparr>ss_watching := AList.delete ?i (ss_watching s)\<rparr>"
  have ok: "core_ok {} (ss_orphans s) s" using assms by (simp add: streams_ok_def)
  note u = watch_unkept_state[OF ok Some, folded s1_def]
  have wi: "watches_inv {} s" using core_okD(4)[OF ok] .
  have k: "n < length (ss_watches s)" "wt_id w = ?i" "watch_kept w" using watches_okD(1)[OF wi Some] by (simp_all add: w_def)
  have wok: "watch_ok w" using watches_okD(2)[OF wi k(1)] by (simp add: w_def)
  show ?thesis
  proof (cases "wt_view w = None")
    case False
    then show ?thesis using assms Some by (simp add: onRespond_def Let_def w_def)
  next
    case True
    have refused: "streams_ok (settle_watch n (Failed e) s1)" for e
    proof -
      have "watches_inv {} (settle_watch n (Failed e) s1)"
        using watch_settled[OF core_okD(4)[OF u(1)] u(3) _ u(2)] True by (simp add: u(4) w_def)
      then show ?thesis using watches_only_ok[OF u(1) settle_watch_only] u(5) by (simp add: streams_ok_def)
    qed
    define w' where "w' = w\<lparr>wt_early := [], wt_view := Some \<lparr>sp_client = wt_streamer w, sp_closed = None,
      sp_inbox = map (parseSignal parse) (wt_early w)\<rparr>, wt_settled := Some Got\<rparr>"
    have let_in: "settle_watch n Got (set_watch n (w\<lparr>wt_early := [], wt_view := Some \<lparr>sp_client = wt_streamer w,
        sp_closed = None, sp_inbox = map (parseSignal parse) (wt_early w)\<rparr>\<rparr>) s) = set_watch n w' s"
      using k(1,3) True by (simp add: settle_watch_def set_watch_def w'_def watch_kept_def Let_def)
    have "watches_ok {} (ss_watching s) ((ss_watches s)[n := w'])"
    proof (rule watch_changed)
      show "watches_ok (insert n {}) (ss_watching s) (ss_watches s)" using watches_apart[OF wi] by simp
      show "n < length (ss_watches s)" using k(1) .
    qed (use k wok True Some in \<open>auto simp: w'_def w_def watch_ok_def watch_kept_def view_open_def\<close>)
    then have "streams_ok (set_watch n w' s)"
      using watches_only_ok[OF ok, of "set_watch n w' s" "{}"] by (simp add: streams_ok_def watches_only_def)
    moreover have "streams_ok (emit_event (Sends q) (settle_watch n (Failed e) s1))" for q e
      using refused[of e] by (simp add: streams_ok_def emit_event_ok)
    ultimately show ?thesis using refused True Some let_in
      by (simp add: onRespond_def Let_def flip: w_def s1_def)
  qed
qed

section \<open>Calls of the published streams\<close>

lemma advance_kept: "pb_id (announce_ready denied q p) = pb_id p" "pb_ended (announce_ready denied q p) = pb_ended p"
  by (induction denied q p rule: announce_ready.induct)
     (simp_all add: announce_slot_def say_def Let_def split: option.split)

lemma calls_keep_id:
  "pb_id (request_watch d v c m p) = pb_id p" "pb_ended (request_watch d v c m p) = pb_ended p"
  "pb_id (lookup_answers d v t nm p) = pb_id p" "pb_ended (lookup_answers d v t nm p) = pb_ended p"
  "pb_id (drop_pending d v c p) = pb_id p" "pb_ended (drop_pending d v c p) = pb_ended p"
  "pb_id (viewer_gone d v c p) = pb_id p" "pb_ended (viewer_gone d v c p) = pb_ended p"
  "pb_id (snd (signal_viewer c g p)) = pb_id p" "pb_ended (snd (signal_viewer c g p)) = pb_ended p"
  "pb_id (end_peer e k p) = pb_id p"
proof -
  have c: "pb_id (close_request st n q) = pb_id q" for st n q by (simp add: close_request_def say_def set_state_def)
  have e: "pb_id (end_peer st n q) = pb_id q" for st n q by (simp add: end_peer_def set_peer_def say_def Let_def)
  show "pb_id (request_watch d v c m p) = pb_id p" "pb_ended (request_watch d v c m p) = pb_ended p"
    by (simp_all add: request_watch_def advance_slots_def advance_kept split: option.split)
  show "pb_id (lookup_answers d v t nm p) = pb_id p" "pb_ended (lookup_answers d v t nm p) = pb_ended p"
    by (simp_all add: lookup_answers_def advance_slots_def advance_kept)
  show d: "pb_id (drop_pending d v c p) = pb_id p" "pb_ended (drop_pending d v c p) = pb_ended p" for d v c p
    by (simp_all add: drop_pending_def advance_slots_def advance_kept Let_def c split: option.split)
  show "pb_id (viewer_gone d v c p) = pb_id p" "pb_ended (viewer_gone d v c p) = pb_ended p"
    by (simp_all add: viewer_gone_def Let_def d e split: option.split)
  show "pb_id (snd (signal_viewer c g p)) = pb_id p" "pb_ended (snd (signal_viewer c g p)) = pb_ended p"
    by (simp_all add: signal_viewer_def set_peer_def split: option.split)
  show "pb_id (end_peer e k p) = pb_id p" by (rule e)
qed

text \<open>A call of a published stream keeps what holds of all.\<close>

lemma on_stream_ok:
  assumes "core_ok X orph s" "k < length (ss_streams s)"
    and "pb_id (f (ss_streams s ! k)) = pb_id (ss_streams s ! k)"
    and "pb_ended (f (ss_streams s ! k)) = pb_ended (ss_streams s ! k)"
    and "\<And>p. published_ok p \<Longrightarrow> keys_ok p \<Longrightarrow> p = ss_streams s ! k \<Longrightarrow> published_ok (f p) \<and> keys_ok (f p)"
  shows "core_ok X orph (on_stream k f s)"
proof -
  note ok = core_okD[OF assms(1)]
  have "pubs_ok (ss_published s) ((ss_streams s)[k := f (ss_streams s ! k)])"
    by (rule stream_called[where f = f, OF ok(3) assms(2,3)]) (use assms(4,5) pubs_okD(3)[OF ok(3) assms(2)] in auto)
  then show ?thesis using ok by (simp add: core_ok_def bounded_ok_def disposed_ok_def)
qed

lemma published_step:
  assumes "core_ok X orph s" "map_of (ss_published s) i = Some k"
  shows "core_ok X orph (on_stream k (request_watch d v c m) s)" "core_ok X orph (on_stream k (viewer_gone d v c) s)"
    "core_ok X orph (on_stream k (\<lambda>_. snd (signal_viewer c g (ss_streams s ! k))) s)"
proof -
  have k: "k < length (ss_streams s)" using pubs_okD(1)[OF core_okD(3)[OF assms(1)] assms(2)] by simp
  show "core_ok X orph (on_stream k (request_watch d v c m) s)"
    by (rule on_stream_ok[OF assms(1) k]) (auto simp: calls_keep_id intro: request_watch_ok operations_keep_keys(1))
  show "core_ok X orph (on_stream k (viewer_gone d v c) s)"
    by (rule on_stream_ok[OF assms(1) k]) (auto simp: calls_keep_id intro: viewer_gone_ok operations_keep_keys(3))
  show "core_ok X orph (on_stream k (\<lambda>_. snd (signal_viewer c g (ss_streams s ! k))) s)"
    by (rule on_stream_ok[OF assms(1) k]) (auto simp: calls_keep_id intro: signal_viewer_ok operations_keep_keys(4))
qed

lemma watch_updated:
  assumes "core_ok {} orph s" "n < length (ss_watches s)" "wt_id w = wt_id (ss_watches s ! n)" "watch_ok w"
    and "map_of (ss_watching s) (wt_id w) = Some n \<Longrightarrow> watch_kept w"
    and "view_open w \<or> wt_settled w = None \<and> wt_over w = None \<Longrightarrow> map_of (ss_watching s) (wt_id w) = Some n"
  shows "core_ok {} orph (set_watch n w s)"
proof -
  have "watches_ok {} (ss_watching s) ((ss_watches s)[n := w])"
    by (rule watch_changed[OF watches_apart[OF core_okD(4)[OF assms(1)]] assms(2-6)]) simp_all
  then show ?thesis using watches_only_ok[OF assms(1), of "set_watch n w s" "{}"] by (simp add: watches_only_def)
qed

lemma early_signal_ok:
  assumes "core_ok {} orph s" "map_of (ss_watching s) i = Some n" "wt_view (ss_watches s ! n) = None"
  shows "core_ok {} orph (early_signal json n s)"
proof -
  define w where "w = ss_watches s ! n"
  note k = watches_okD(1)[OF core_okD(4)[OF assms(1)] assms(2)]
  have wok: "watch_ok w" using watches_okD(2)[OF core_okD(4)[OF assms(1)]] k by (simp add: w_def)
  have u: "core_ok {} orph (set_watch n (w\<lparr>wt_early := l, wt_overflowed := b\<rparr>) s)" if "length l \<le> MAX_EARLY_SIGNALS" for l b
    by (rule watch_updated[OF assms(1)])
       (use that k wok assms in \<open>auto simp: w_def watch_ok_def watch_kept_def view_open_def\<close>)
  have same: "w\<lparr>wt_early := l\<rparr> = w\<lparr>wt_early := l, wt_overflowed := wt_overflowed w\<rparr>" for l by simp
  have "length (wt_early w) \<le> MAX_EARLY_SIGNALS" using wok by (simp add: watch_ok_def)
  then show ?thesis
    using u[of "wt_early w @ [json]" "wt_overflowed w"] u[of "tl (wt_early w @ [json])" True]
    by (auto simp: early_signal_def Let_def emit_event_ok simp flip: w_def same)
qed

lemma onSignaling_ok:
  assumes "streams_ok s"
  shows "streams_ok (onSignaling parse row s)"
proof -
  let ?i = "str row ''id''" and ?c = "clientOf row ''clid''" and ?g = "parseSignal parse (str row ''json'')"
  define r where "r = (case map_of (ss_published s) ?i of None \<Rightarrow> (False, s)
    | Some k \<Rightarrow> (case signal_viewer ?c ?g (ss_streams s ! k) of (heard, p) \<Rightarrow> (heard, on_stream k (\<lambda>_. p) s)))"
  define mine s1 where "mine = fst r" and "s1 = snd r"
  have ok: "core_ok {} (ss_orphans s) s" using assms by (simp add: streams_ok_def)
  have ok1: "core_ok {} (ss_orphans s) s1" "ss_orphans s1 = ss_orphans s"
    using ok published_step(3)[OF ok, of ?i _ ?c ?g]
    by (auto simp: s1_def r_def split: option.split prod.split) 
  have eq: "onSignaling parse row s = (if mine then s1
     else case map_of (ss_watching s1) ?i of
            Some n \<Rightarrow> (case wt_view (ss_watches s1 ! n) of
                    Some v \<Rightarrow> set_watch n ((ss_watches s1 ! n)\<lparr>wt_view := Some (deliver_signal ?g v)\<rparr>) s1
                  | None \<Rightarrow> early_signal (str row ''json'') n s1)
          | None \<Rightarrow> if ?i \<in> set (ss_closedViews s1) then s1
                    else emit_event (Reports ''signalling for a stream with no session'') s1)"
    unfolding onSignaling_def Let_def mine_def s1_def r_def case_prod_unfold ..
  have "core_ok {} (ss_orphans s) (onSignaling parse row s) \<and> ss_orphans (onSignaling parse row s) = ss_orphans s"
  proof (cases "mine \<or> map_of (ss_watching s1) ?i = None")
    case True
    then show ?thesis using ok1 by (auto simp: eq emit_event_ok)
  next
    case False
    then obtain n where n: "map_of (ss_watching s1) ?i = Some n" by auto
    note k = watches_okD(1)[OF core_okD(4)[OF ok1(1)] n]
    note wok = watches_okD(2)[OF core_okD(4)[OF ok1(1)], of n]
    show ?thesis
    proof (cases "wt_view (ss_watches s1 ! n)")
      case None
      then show ?thesis using early_signal_ok[OF ok1(1) n None] False n ok1(2)
        by (simp add: eq early_signal_def Let_def)
    next
      case (Some v)
      have "core_ok {} (ss_orphans s) (set_watch n ((ss_watches s1 ! n)\<lparr>wt_view := Some (deliver_signal ?g v)\<rparr>) s1)"
        by (rule watch_updated[OF ok1(1)])
           (use k wok Some n in \<open>auto simp: watch_ok_def watch_kept_def view_open_def deliver_signal_def\<close>)
      then show ?thesis using False n Some ok1(2) by (simp add: eq)
    qed
  qed
  then show ?thesis by (simp add: streams_ok_def)
qed

lemma end_watch_view_ok:
  assumes "core_ok {} orph s" "n < length (ss_watches s)"
  shows "core_ok {} orph (end_watch_view cause n s)"
proof (cases "wt_view (ss_watches s ! n) = None")
  case True
  then show ?thesis using assms(1) by (simp add: end_watch_view_def Let_def)
next
  case False
  note w = core_okD(4)[OF assms(1)]
  have "watches_inv {} (end_watch_view cause n s)"
    using view_ended[OF watches_apart[OF w, of "insert n {}"] assms(2) False] w by blast
  then show ?thesis using watches_only_ok[OF assms(1) end_watch_view_only] by blast
qed

lemma end_watch_view_orphans [simp]: "ss_orphans (end_watch_view cause n s) = ss_orphans s" "ss_infos (end_watch_view cause n s) = ss_infos s"
  using end_watch_view_only[of s cause n] by (simp_all add: watches_only_def)

lemma onClientLeft_ok:
  assumes "streams_ok s"
  shows "streams_ok (onClientLeft ctx row s)"
proof -
  let ?i = "str row ''id''" and ?c = "clientOf row ''clid''"
  have ok: "core_ok {} (ss_orphans s) s" using assms by (simp add: streams_ok_def)
  define s1 where "s1 = (case map_of (ss_published s) ?i of
    None \<Rightarrow> s | Some k \<Rightarrow> on_stream k (viewer_gone (isDenied s) (in_view ctx) ?c) s)"
  have ok1: "core_ok {} (ss_orphans s) s1" "ss_orphans s1 = ss_orphans s"
    using ok published_step(2)[OF ok, of ?i] by (auto simp: s1_def split: option.split)
  define s2 where "s2 = (case map_of (ss_watching s1) ?i of
    Some n \<Rightarrow> if ?c = sc_self ctx then end_watch_view PE_Left n s1 else s1 | None \<Rightarrow> s1)"
  have "core_ok {} (ss_orphans s) s2 \<and> ss_orphans s2 = ss_orphans s"
  proof (cases "map_of (ss_watching s1) ?i")
    case None
    then show ?thesis using ok1 by (simp add: s2_def)
  next
    case (Some n)
    then have "n < length (ss_watches s1)" using watches_okD(1)[OF core_okD(4)[OF ok1(1)]] by blast
    then show ?thesis using Some ok1 end_watch_view_ok[OF ok1(1)] by (simp add: s2_def)
  qed
  moreover have "onClientLeft ctx row s = (if ?c = 0 then s
      else case map_of (ss_infos s2) ?i of None \<Rightarrow> s2 | Some info \<Rightarrow> emit_event (Viewer_Left info ?c) s2)"
    unfolding onClientLeft_def Let_def s2_def s1_def ..
  ultimately show ?thesis using assms by (simp add: streams_ok_def emit_event_ok split: option.split)
qed

lemma onJoinRequest_ok:
  assumes "streams_ok s"
  shows "streams_ok (onJoinRequest ctx row s)"
  using assms published_step(1,2)[of "{}" "ss_orphans s" s "str row ''id''"]
  by (auto simp: onJoinRequest_def streams_ok_def Let_def split: option.split)

lemma onNotification_ok:
  assumes "streams_ok s" "\<not> ss_disposed s"
  shows "streams_ok (onNotification ctx parse name row s)"
proof -
  have "streams_ok (emit_event (Viewer_Joined info c) s)" for info c
    using assms(1) by (simp add: streams_ok_def emit_event_ok)
  moreover have "streams_ok ((end_stream i r c s)\<lparr>ss_orphans := removeAll i (ss_orphans (end_stream i r c s))\<rparr>)" for i r c
    using orphans_fewer stream_stopped_ok[OF assms(1)] by blast
  ultimately show ?thesis
    using assms onInfo_ok[OF assms] onJoinRequest_ok onRespond_ok onSignaling_ok onClientLeft_ok
    by (simp add: onNotification_def Let_def split: option.split)
qed

section \<open>Discovery and the timers\<close>

lemma streams_ok_cong:
  "ss_orphans s' = ss_orphans s \<Longrightarrow> core_ok {} (ss_orphans s) s' \<Longrightarrow> streams_ok s'"
  by (simp add: streams_ok_def)

lemma discover_ok: "streams_ok s \<Longrightarrow> streams_ok (discover ctx c s)"
  by (simp add: discover_def streams_ok_def emit_event_ok)

lemma discover_fails_ok: "streams_ok s \<Longrightarrow> streams_ok (discover_fails b c s)"
  by (simp add: discover_fails_def streams_ok_def emit_event_ok Let_def)

lemma forget_client_ok:
  assumes "streams_ok s" "\<not> ss_disposed s"
  shows "streams_ok (forget_client c s)"
proof -
  have g: "streams_ok (t\<lparr>ss_goneTimers := g\<rparr>)" if "streams_ok t" "\<not> ss_disposed t" for t g
    using that by (simp add: streams_ok_def core_ok_def bounded_ok_def disposed_ok_def)
  have "streams_ok (s\<lparr>ss_asked := a\<rparr>)" for a using assms(1) by (simp add: streams_ok_def)
  then show ?thesis unfolding forget_client_def Let_def using g assms(2) by simp
qed

lemma client_streams_ok:
  assumes "streams_ok s" "\<not> ss_disposed s"
  shows "streams_ok (client_streams ctx c flag s)"
proof -
  have "streams_ok (cancelGone c s)" using assms(1) timers_fewer by (simp add: cancelGone_def streams_ok_def)
  then show ?thesis using assms discover_ok forget_client_ok
    by (simp add: client_streams_def split: option.split bool.split)
qed

lemma gone_timer_ok:
  assumes "streams_ok s"
  shows "streams_ok (gone_timer c s)"
proof -
  have f: "streams_ok s \<Longrightarrow> streams_ok (fold (\<lambda>i. end_stream i r cs) is s)" for "is" r cs s
    by (induction "is" arbitrary: s) (simp_all add: stream_stopped_ok)
  have "streams_ok (s\<lparr>ss_goneTimers := removeAll c (ss_goneTimers s)\<rparr>)"
    using assms timers_fewer by (simp add: streams_ok_def)
  then show ?thesis using assms f by (simp add: gone_timer_def)
qed

lemma client_left_ok:
  assumes "streams_ok s"
  shows "streams_ok (client_left ctx c s)"
proof -
  let ?f = "\<lambda>k. on_stream k (drop_pending (isDenied s) (in_view ctx) c)"
  have step: "core_ok {} orph (?f k t)" if "core_ok {} orph t" "k < length (ss_streams t)" for k orph t
    by (rule on_stream_ok[OF that]) (auto simp: calls_keep_id intro: drop_pending_ok drop_pending_keys)
  have all: "core_ok {} orph (fold ?f ks t) \<and> ss_orphans (fold ?f ks t) = ss_orphans t"
    if "core_ok {} orph t" "\<forall>k\<in>set ks. k < length (ss_streams t)" for ks orph t
    using that
  proof (induction ks arbitrary: t)
    case (Cons k ks)
    then show ?case using Cons.IH[of "?f k t"] step[of orph t k] by simp
  qed simp
  have "pubs_ok (ss_published s) (ss_streams s)" using assms by (simp add: streams_ok_def core_ok_def)
  then have "k < length (ss_streams s)" if "(i, k) \<in> set (ss_published s)" for i k
    using pubs_okD(1,4)[of "ss_published s" "ss_streams s"] that by (metis map_of_is_SomeI)
  then have ks: "\<forall>k\<in>set (map snd (ss_published s)). k < length (ss_streams (s\<lparr>ss_asked := removeAll c (ss_asked s)\<rparr>))"
    by auto
  have "core_ok {} (ss_orphans s) (s\<lparr>ss_asked := removeAll c (ss_asked s)\<rparr>)" using assms by (simp add: streams_ok_def)
  from all[OF this ks] show ?thesis unfolding client_left_def streams_ok_def by simp
qed

lemma attach_streams_ok: "streams_ok (attach_streams remember ctx)"
proof -
  have "streams_ok s \<Longrightarrow> streams_ok (fold (\<lambda>(c, names, flag). if flag = Some True then discover ctx c else (\<lambda>s. s)) l s)" for l :: "(int \<times> names \<times> bool option) list" and s
    by (induction l arbitrary: s) (auto simp: discover_ok)
  then show ?thesis by (simp add: attach_streams_def new_streams_ok)
qed

section \<open>Publish calls come to an end\<close>

lemma attempts_okD:
  assumes "attempts_ok ws m made"
  shows "n \<in> set ws \<Longrightarrow> n < length made \<and> \<not> at_answered (made ! n)"
    and "n < length made \<Longrightarrow> attempt_ok ws m n (made ! n)"
  using assms unfolding attempts_ok_def by blast+

lemma attempt_changed:
  assumes "attempts_ok ws m made" "n < length made" "attempt_ok (ws') m' n a"
    and "set ws' = set ws \<or> set ws' = set ws - {n}" "n \<in> set ws' \<Longrightarrow> \<not> at_answered a" "m \<le> m'"
  shows "attempts_ok ws' m' (made[n := a])"
  unfolding attempts_ok_def
proof (intro conjI ballI allI impI)
  fix j assume j: "j \<in> set ws'"
  then have "j \<in> set ws" using assms(4) by blast
  then show "j < length (made[n := a])" "\<not> at_answered (made[n := a] ! j)"
    using attempts_okD(1)[OF assms(1), of j] assms(5) j by (cases "j = n"; simp)+
next
  fix j assume j: "j < length (made[n := a])"
  show "attempt_ok ws' m' j (made[n := a] ! j)"
  proof (cases "j = n")
    case False
    then have "attempt_ok ws m j (made ! j)" using attempts_okD(2)[OF assms(1)] j by simp
    moreover have "j \<in> set ws' \<longleftrightarrow> j \<in> set ws" using assms(4) False by blast
    ultimately show ?thesis using False assms(6) unfolding attempt_ok_def by (auto intro: less_le_trans)
  qed (use assms(2,3) in simp)
qed

lemma attempt_updated:
  assumes "core_ok X orph s" "n < length (ss_attempts s)" "attempt_ok (ss_publishing s) (length (ss_streams s)) n a"
    "n \<in> set (ss_publishing s) \<Longrightarrow> \<not> at_answered a"
  shows "core_ok X orph (put_attempt n a s)"
proof -
  have "attempts_ok (ss_publishing s) (length (ss_streams s)) ((ss_attempts s)[n := a])"
    by (rule attempt_changed[OF core_okD(5)[OF assms(1)] assms(2,3)]) (use assms(4) in auto)
  then show ?thesis using core_okD[OF assms(1)] by (simp add: core_ok_def bounded_ok_def disposed_ok_def)
qed

text \<open>The answer to a \<open>setupstream\<close> is there: its attempt has an outcome, or its caller is gone.\<close>

lemma attempt_answered_ok:
  assumes "core_ok X orph s" "n < length (ss_attempts s)"
    and "at_outcome (ss_attempts s ! n) = None \<Longrightarrow> at_over (ss_attempts s ! n) \<noteq> None"
  shows "core_ok X orph (attempt_answered n s)"
proof -
  define a where "a = (ss_attempts s ! n)\<lparr>at_answered := True\<rparr>"
  have "attempts_ok (removeAll n (ss_publishing s)) (length (ss_streams s)) ((ss_attempts s)[n := a])"
  proof (rule attempt_changed[OF core_okD(5)[OF assms(1)] assms(2)])
    show "attempt_ok (removeAll n (ss_publishing s)) (length (ss_streams s)) n a"
      using attempts_okD(2)[OF core_okD(5)[OF assms(1)] assms(2)] assms(3) by (simp add: attempt_ok_def a_def)
  qed auto
  then show ?thesis using core_okD[OF assms(1)]
    by (simp add: attempt_answered_def core_ok_def bounded_ok_def disposed_ok_def a_def)
qed

lemma settle_publish_ok:
  assumes "core_ok X orph s" "n < length (ss_attempts s)"
    and "o' = Got \<Longrightarrow> \<exists>k. at_stream (ss_attempts s ! n) = Some k \<and> k < length (ss_streams s)"
  shows "core_ok X orph (settle_publish n o' s)" "at_outcome (ss_attempts (settle_publish n o' s) ! n) \<noteq> None"
proof -
  define a where "a = ss_attempts s ! n"
  have ok: "attempt_ok (ss_publishing s) (length (ss_streams s)) n a"
    using attempts_okD(2)[OF core_okD(5)[OF assms(1)] assms(2)] by (simp add: a_def)
  have "core_ok X orph (put_attempt n (a\<lparr>at_outcome := Some o'\<rparr>) s)" if "at_outcome a = None"
    by (rule attempt_updated[OF assms(1,2)])
       (use ok that assms(3) attempts_okD(1)[OF core_okD(5)[OF assms(1)], of n] in \<open>auto simp: attempt_ok_def a_def\<close>)
  then show "core_ok X orph (settle_publish n o' s)" using assms(1) by (simp add: settle_publish_def a_def Let_def)
  show "at_outcome (ss_attempts (settle_publish n o' s) ! n) \<noteq> None" using assms(2) by (simp add: settle_publish_def Let_def)
qed

lemma setup_failed_ok:
  assumes "streams_ok s" "n < length (ss_attempts s)"
  shows "streams_ok (setup_failed n x s)"
proof -
  have ok: "core_ok {} (ss_orphans s) s" using assms(1) by (simp add: streams_ok_def)
  note st = settle_publish_ok[OF ok assms(2), of "Failed x" for x]
  have "core_ok {} (ss_orphans s) (setup_failed n x s)"
    unfolding setup_failed_def by (rule attempt_answered_ok) (use st[of x] assms(2) in auto)
  then show ?thesis by (simp add: streams_ok_def setup_failed_def attempt_answered_def)
qed

lemma publish_ok:
  assumes "streams_ok s" "publish ctx byteLength aborted opts s = Inr (q, s')"
  shows "streams_ok s'"
proof -
  have live: "\<not> ss_disposed s" using assms(2) by (auto simp: publish_def usable_def split: option.splits if_splits)
  define a where "a = \<lparr>at_outcome = None, at_abandoned = False, at_reset = False, at_answered = False,
    at_stream = None, at_over = None\<rparr>"
  have s': "s' = s\<lparr>ss_publishing := ss_publishing s @ [length (ss_attempts s)], ss_attempts := ss_attempts s @ [a]\<rparr>"
    using assms(2) by (auto simp: publish_def a_def split: option.splits sum.splits if_splits)
  have t: "attempts_ok (ss_publishing s) (length (ss_streams s)) (ss_attempts s)"
    using assms(1) by (simp add: streams_ok_def core_ok_def)
  have "attempts_ok (ss_publishing s @ [length (ss_attempts s)]) (length (ss_streams s)) (ss_attempts s @ [a])"
    unfolding attempts_ok_def
  proof (intro conjI ballI allI impI)
    fix j assume "j \<in> set (ss_publishing s @ [length (ss_attempts s)])"
    then show "j < length (ss_attempts s @ [a])" "\<not> at_answered ((ss_attempts s @ [a]) ! j)"
      using attempts_okD(1)[OF t, of j] by (auto simp: nth_append a_def)
  next
    fix j assume j: "j < length (ss_attempts s @ [a])"
    show "attempt_ok (ss_publishing s @ [length (ss_attempts s)]) (length (ss_streams s)) j ((ss_attempts s @ [a]) ! j)"
    proof (cases "j < length (ss_attempts s)")
      case True
      then show ?thesis using attempts_okD(2)[OF t True] by (auto simp: nth_append attempt_ok_def)
    next
      case False
      then show ?thesis using j by (simp add: nth_append attempt_ok_def a_def)
    qed
  qed
  then show ?thesis using assms(1) live by (simp add: s' streams_ok_def core_ok_def bounded_ok_def disposed_ok_def)
qed

lemma publish_gives_up_ok:
  assumes "streams_ok s" "n < length (ss_attempts s)"
  shows "streams_ok (publish_gives_up n s)"
proof -
  have ok: "core_ok {} (ss_orphans s) s" using assms(1) by (simp add: streams_ok_def)
  have "core_ok {} (ss_orphans s) (put_attempt n ((ss_attempts s ! n)\<lparr>at_abandoned := True, at_over := Some (Failed Gave_Up)\<rparr>) s)"
    by (rule attempt_updated[OF ok assms(2)])
       (use attempts_okD[OF core_okD(5)[OF ok], of n] assms(2) in \<open>auto simp: attempt_ok_def\<close>)
  then show ?thesis using assms(1) by (simp add: publish_gives_up_def streams_ok_def Let_def)
qed

lemma publish_returns_ok:
  assumes "streams_ok s" "n < length (ss_attempts s)"
  shows "streams_ok (publish_returns n s)"
proof -
  have ok: "core_ok {} (ss_orphans s) s" using assms(1) by (simp add: streams_ok_def)
  have "core_ok {} (ss_orphans s) (put_attempt n ((ss_attempts s ! n)\<lparr>at_abandoned := b, at_over := Some o'\<rparr>) s)"
    if "at_outcome (ss_attempts s ! n) = Some o'" for b o'
    by (rule attempt_updated[OF ok assms(2)])
       (use attempts_okD[OF core_okD(5)[OF ok], of n] assms(2) that in \<open>auto simp: attempt_ok_def\<close>)
  then show ?thesis using assms(1) by (simp add: publish_returns_def streams_ok_def Let_def split: option.split)
qed

lemma adopt_ok:
  assumes "core_ok X orph s" "ss_orphans s = orph" "\<not> ss_disposed s" "adopt info s = (k, s')"
  shows "core_ok X orph s'" "k < length (ss_streams s')" "ss_attempts s' = ss_attempts s" "ss_orphans s' = orph"
    "map_of (ss_published s') (si_id info) = Some k" "\<not> ss_disposed s'"
proof -
  define s1 where "s1 = learn info s"
  have ok1: "core_ok X orph s1" using learn_ok[OF assms(1-3)] by (simp add: s1_def)
  have f1: "ss_attempts s1 = ss_attempts s" "ss_orphans s1 = orph" "ss_disposed s1 = ss_disposed s"
    using assms(2) by (simp_all add: s1_def)
  have "core_ok X orph s' \<and> k < length (ss_streams s') \<and> ss_attempts s' = ss_attempts s \<and> ss_orphans s' = orph \<and>
      map_of (ss_published s') (si_id info) = Some k \<and> \<not> ss_disposed s'"
  proof (cases "map_of (ss_published s1) (si_id info)")
    case (Some j)
    then have "k = j" "s' = s1" using assms(4) by (simp_all add: adopt_def Let_def flip: s1_def)
    then show ?thesis
      using ok1 f1 Some pubs_okD(1)[OF core_okD(3)[OF ok1] Some] assms(3) by simp
  next
    case None
    define s2 where "s2 = s1\<lparr>ss_published := AList.update (si_id info) (length (ss_streams s1)) (ss_published s1),
                ss_streams := ss_streams s1 @ [new_published (si_id info)]\<rparr>"
    have e: "k = length (ss_streams s1)" "s' = s2" using None assms(4) by (auto simp: adopt_def Let_def s2_def simp flip: s1_def)
    have p: "pubs_ok (ss_published s2) (ss_streams s2)" using stream_added[OF core_okD(3)[OF ok1] None] by (simp add: s2_def)
    have "attempts_ok (ss_publishing s1) (length (ss_streams s1)) (ss_attempts s1)" using core_okD(5)[OF ok1] .
    then have "attempts_ok (ss_publishing s2) (length (ss_streams s2)) (ss_attempts s2)"
      by (auto simp: attempts_ok_def attempt_ok_def s2_def less_SucI)
    then have "core_ok X orph s2" using core_okD[OF ok1] p assms(3) f1(3)
      by (simp add: core_ok_def bounded_ok_def disposed_ok_def) (simp add: s2_def)
    then show ?thesis
      using f1 assms(3) by (simp add: e s2_def update_conv')
  qed
  then show "core_ok X orph s'" "k < length (ss_streams s')" "ss_attempts s' = ss_attempts s" "ss_orphans s' = orph"
    "map_of (ss_published s') (si_id info) = Some k" "\<not> ss_disposed s'" by blast+
qed

lemma end_stream_fields [simp]:
  "ss_attempts (end_stream i r cause s) = ss_attempts s" "ss_publishing (end_stream i r cause s) = ss_publishing s"
  "ss_disposed (end_stream i r cause s) = ss_disposed s"
proof -
  have "ss_attempts (end_watch r i t) = ss_attempts t" "ss_publishing (end_watch r i t) = ss_publishing t"
    "ss_disposed (end_watch r i t) = ss_disposed t" for t
    using end_watch_only[of t r i] by (simp_all add: watches_only_def)
  then show "ss_attempts (end_stream i r cause s) = ss_attempts s" "ss_publishing (end_stream i r cause s) = ss_publishing s"
    "ss_disposed (end_stream i r cause s) = ss_disposed s"
    by (simp_all add: end_stream_def Let_def split: option.split)
qed

lemma orphan_ok:
  assumes "streams_ok s"
  shows "streams_ok (orphan info s)" "ss_attempts (orphan info s) = ss_attempts s"
    "map_of (ss_infos (orphan info s)) (si_id info) = None"
proof -
  let ?o = "bounded_add MAX_ORPHANS (si_id info) (ss_orphans s)"
  define s1 where "s1 = s\<lparr>ss_orphans := ?o\<rparr>"
  define s2 where "s2 = end_stream (si_id info) 0 SC_Stopped s1"
  have ok: "core_ok {} (ss_orphans s) s" using assms by (simp add: streams_ok_def)
  have "length ?o \<le> MAX_ORPHANS" using core_okD(6)[OF ok] by (simp add: bounded_ok_def bounded_add_length)
  then have "core_ok {} (ss_orphans s) s1" using ok by (simp add: core_ok_def s1_def bounded_ok_def disposed_ok_def)
  note e = end_stream_ok[OF this, of "si_id info" 0 SC_Stopped, folded s2_def]
  have "list_rows_ok (ss_infos s2) ?o" using rows_orphaned[OF core_okD(2)[OF ok]] e(2) by (simp add: s1_def)
  then have "core_ok {} ?o s2" using e(1) by (simp add: core_ok_def)
  then show "streams_ok (orphan info s)"
    using e(3) by (simp add: orphan_def streams_ok_def emit_event_ok s2_def s1_def)
  show "ss_attempts (orphan info s) = ss_attempts s" by (simp add: orphan_def)
  show "map_of (ss_infos (orphan info s)) (si_id info) = None"
    using e(2) by (simp add: orphan_def delete_conv' flip: s1_def s2_def)
qed

lemma answered_streams_ok:
  assumes "streams_ok s" "n < length (ss_attempts s)"
    "at_outcome (ss_attempts s ! n) = None \<Longrightarrow> at_over (ss_attempts s ! n) \<noteq> None"
  shows "streams_ok (attempt_answered n s)"
  using attempt_answered_ok[of "{}" "ss_orphans s" s n] assms by (simp add: streams_ok_def attempt_answered_def)

lemma setup_answered_ok:
  assumes "streams_ok s" "n < length (ss_attempts s)" "\<not> at_answered (ss_attempts s ! n)"
  shows "streams_ok (setup_answered ctx n rows s)"
proof -
  define a where "a = ss_attempts s ! n"
  have ok: "core_ok {} (ss_orphans s) s" using assms(1) by (simp add: streams_ok_def)
  have aok: "attempt_ok (ss_publishing s) (length (ss_streams s)) n a"
    using attempts_okD(2)[OF core_okD(5)[OF ok] assms(2)] by (simp add: a_def)
  have settled: "streams_ok (attempt_answered n (settle_publish n (Failed e) s))" for e
    using setup_failed_ok[OF assms(1,2), of e] by (simp add: setup_failed_def)
  show ?thesis
  proof (cases "at_reset a")
    case True
    then have "at_outcome a \<noteq> None" using aok by (simp add: attempt_ok_def)
    then have out: "at_outcome (ss_attempts s ! n) = None \<Longrightarrow> at_over (ss_attempts s ! n) \<noteq> None" by (simp add: a_def)
    have "streams_ok (emit_event (Sends q) s)" for q using assms(1) by (simp add: streams_ok_def emit_event_ok)
    from answered_streams_ok[OF this] answered_streams_ok[OF assms(1,2) out]
    have "streams_ok (attempt_answered n s)" "streams_ok (attempt_answered n (emit_event (Sends q) s))" for q
      using out assms(2) by simp_all
    then show ?thesis using True by (simp add: setup_answered_def Let_def a_def split: option.split)
  next
    case False
    show ?thesis
    proof (cases "announced_stream (ss_infos s) rows")
      case None
      then show ?thesis using settled False by (simp add: setup_answered_def Let_def a_def)
    next
      case (Some i)
      consider "at_abandoned a" | "\<not> at_abandoned a" "si_id i \<in> set (ss_stopped s)"
        | "\<not> at_abandoned a" "si_id i \<notin> set (ss_stopped s)" by blast
      then show ?thesis
      proof cases
        case 1
        then have "at_over a \<noteq> None" using aok by (simp add: attempt_ok_def)
        then have "streams_ok (attempt_answered n (orphan i s))"
          using answered_streams_ok[OF orphan_ok(1)[OF assms(1)]] orphan_ok(2)[OF assms(1)] assms(2) by (simp add: a_def)
        then show ?thesis using 1 False Some by (simp add: setup_answered_def Let_def a_def)
      next
        case 2
        then show ?thesis using settled False Some by (simp add: setup_answered_def Let_def a_def)
      next
        case 3
        obtain k s1 where ad: "adopt i s = (k, s1)" by fastforce
        have "n \<in> set (ss_publishing s)" using aok assms(3) False by (simp add: attempt_ok_def a_def)
        then have live: "\<not> ss_disposed s" using core_okD(7)[OF ok] by (auto simp: disposed_ok_def)
        note d = adopt_ok[OF ok refl live ad]
        define s2 where "s2 = put_attempt n ((ss_attempts s1 ! n)\<lparr>at_stream := Some k\<rparr>) s1"
        have "core_ok {} (ss_orphans s) s2" unfolding s2_def
          by (rule attempt_updated[OF d(1)])
             (use d(2,3) assms(2) attempts_okD[OF core_okD(5)[OF d(1)], of n] in \<open>auto simp: attempt_ok_def\<close>)
        from settle_publish_ok[OF this, of n Got]
        have "core_ok {} (ss_orphans s) (settle_publish n Got s2)" "at_outcome (ss_attempts (settle_publish n Got s2) ! n) \<noteq> None"
          using d(2,3) assms(2) by (simp_all add: s2_def)
        note st = this
        have "core_ok {} (ss_orphans s) (attempt_answered n (settle_publish n Got s2))"
        proof (rule attempt_answered_ok[OF st(1)])
          show "n < length (ss_attempts (settle_publish n Got s2))" using d(3) assms(2) by (simp add: s2_def)
        qed (use st(2) in blast)
        moreover have "ss_orphans (attempt_answered n (settle_publish n Got s2)) = ss_orphans s"
          using d(4) by (simp add: attempt_answered_def s2_def)
        ultimately have "streams_ok (attempt_answered n (settle_publish n Got s2))" by (simp add: streams_ok_def)
        then show ?thesis using 3 False Some ad by (simp add: setup_answered_def Let_def a_def s2_def)
      qed
    qed
  qed
qed

section \<open>The calls of a watch\<close>

lemma watch_stream_ok:
  assumes "streams_ok s" "watch_stream ctx aborted target message s = Inr (q, s')"
  shows "streams_ok s'"
proof -
  have live: "\<not> ss_disposed s" using assms(2) by (auto simp: watch_stream_def usable_def split: option.splits if_splits)
  define i where "i = (case target of Inl t \<Rightarrow> t | Inr info \<Rightarrow> si_id info)"
  obtain c where new: "map_of (ss_watching s) i = None" and
    s': "s' = s\<lparr>ss_watching := AList.update i (length (ss_watches s)) (ss_watching s),
         ss_closedViews := removeAll i (ss_closedViews s),
         ss_watches := ss_watches s @ [\<lparr>wt_id = i, wt_streamer = c, wt_early = [],
           wt_overflowed = False, wt_sending = True, wt_sent = False, wt_settled = None, wt_view = None, wt_over = None\<rparr>]\<rparr>"
    using assms(2) unfolding watch_stream_def Let_def i_def
    by (auto split: option.splits sum.splits if_splits)
  define w where "w = \<lparr>wt_id = i, wt_streamer = c, wt_early = [], wt_overflowed = False, wt_sending = True,
    wt_sent = False, wt_settled = None, wt_view = None, wt_over = None\<rparr>"
  let ?n = "length (ss_watches s)" and ?m = "ss_watches s @ [w]"
  have old: "watches_inv {} s" using assms(1) by (simp add: streams_ok_def core_ok_def)
  have nth: "m < ?n \<Longrightarrow> ?m ! m = ss_watches s ! m" "?m ! ?n = w" for m by (simp_all add: nth_append)
  have "watches_ok {} (AList.update i ?n (ss_watching s)) ?m"
  proof (rule watches_okI)
    show "distinct (map fst (AList.update i ?n (ss_watching s)))" using watching_distinct[OF old] by (rule distinct_update)
  next
    fix j m assume "map_of (AList.update i ?n (ss_watching s)) j = Some m"
    then have "j = i \<and> m = ?n \<or> map_of (ss_watching s) j = Some m" by (auto simp: update_conv' split: if_splits)
    then show "m < length ?m \<and> wt_id (?m ! m) = j \<and> watch_kept (?m ! m)"
      using watches_okD(1)[OF old, of j m] nth by (auto simp: w_def watch_kept_def)
  next
    fix m assume "m < length ?m"
    then have "m < ?n \<or> m = ?n" by auto
    then show "watch_ok (?m ! m)"
      using watches_okD(2)[OF old, of m] nth by (auto simp: w_def watch_ok_def MAX_EARLY_SIGNALS_def)
  next
    fix m assume m: "m < length ?m" "view_open (?m ! m) \<or> wt_settled (?m ! m) = None \<and> wt_over (?m ! m) = None"
    show "map_of (AList.update i ?n (ss_watching s)) (wt_id (?m ! m)) = Some m"
    proof (cases "m < ?n")
      case True
      then have "map_of (ss_watching s) (wt_id (ss_watches s ! m)) = Some m"
        using watches_okD(3)[OF old, of m] m(2) nth by simp
      moreover from this have "wt_id (ss_watches s ! m) \<noteq> i" using new by auto
      ultimately show ?thesis using True nth by (simp add: update_conv')
    next
      case False
      then have "m = ?n" using m(1) by simp
      then show ?thesis by (simp add: w_def update_conv')
    qed
  qed
  then have "watches_inv {} s'" by (simp add: s' w_def)
  moreover have "bounded_ok s'" using assms(1)
    by (simp add: s' streams_ok_def core_ok_def bounded_ok_def le_trans[OF length_removeAll_less_eq])
  ultimately show ?thesis using assms(1) live by (simp add: streams_ok_def core_ok_def disposed_ok_def s')
qed

text \<open>What the caller of \<open>watch\<close> is given.\<close>

lemma watch_over_ok:
  assumes "core_ok {n} orph s" "n < length (ss_watches s)" "wt_view (ss_watches s ! n) = None"
    "map_of (ss_watching s) (wt_id (ss_watches s ! n)) \<noteq> Some n"
  shows "core_ok {} orph (watch_over n (Some (Failed e)) s)"
proof -
  define w where "w = (ss_watches s ! n)\<lparr>wt_sending := False, wt_over := Some (Failed e)\<rparr>"
  have "watches_ok {} (ss_watching s) ((ss_watches s)[n := w])"
    by (rule watch_changed[OF core_okD(4)[OF assms(1)] assms(2)])
       (use watches_okD(2)[OF core_okD(4)[OF assms(1)] assms(2)] assms(3,4) in \<open>auto simp: w_def watch_ok_def view_open_def\<close>)
  then show ?thesis
    using watches_only_ok[OF assms(1), of "set_watch n w s" "{}"] by (simp add: watches_only_def watch_over_def w_def)
qed

lemma watch_given_ok:
  assumes "core_ok {} orph s" "n < length (ss_watches s)" "o' = Got \<longleftrightarrow> wt_view (ss_watches s ! n) \<noteq> None"
    "o' = Got \<or> map_of (ss_watching s) (wt_id (ss_watches s ! n)) \<noteq> Some n"
  shows "core_ok {} orph (watch_over n (Some o') s)"
proof -
  define w where "w = (ss_watches s ! n)\<lparr>wt_sending := False, wt_over := Some o'\<rparr>"
  note inv = core_okD(4)[OF assms(1)]
  let ?w = "ss_watches s ! n"
  have f: "wt_id w = wt_id ?w" "wt_settled w = wt_settled ?w" "wt_view w = wt_view ?w" "wt_early w = wt_early ?w"
    "wt_over w = Some o'" "view_open w = view_open ?w" by (simp_all add: w_def view_open_def)
  have "watch_ok w" using watches_okD(2)[OF inv assms(2)] assms(3) unfolding watch_ok_def f by blast
  moreover have "watch_kept w" if k: "map_of (ss_watching s) (wt_id w) = Some n"
  proof -
    have "o' = Got" using assms(4) k by (simp add: f)
    then have "wt_view ?w \<noteq> None" using assms(3) by blast
    then show ?thesis using watches_okD(1)[OF inv k] by (simp add: watch_kept_def f)
  qed
  moreover have "map_of (ss_watching s) (wt_id w) = Some n" if "view_open w \<or> wt_settled w = None \<and> wt_over w = None"
    using watches_okD(3)[OF inv assms(2)] that by (simp add: f)
  ultimately have "core_ok {} orph (set_watch n w s)" by (intro watch_updated[OF assms(1,2) f(1)])
  then show ?thesis by (simp add: watch_over_def w_def)
qed

lemma end_stream_watch:
  assumes "map_of (ss_watching s) i \<noteq> Some n" "n < length (ss_watches s)"
  shows "ss_watches (end_stream i r cause s) ! n = ss_watches s ! n"
proof -
  have v: "m \<noteq> n \<Longrightarrow> ss_watches (end_watch_view c m t) ! n = ss_watches t ! n"
    "m \<noteq> n \<Longrightarrow> ss_watches (settle_watch m e t) ! n = ss_watches t ! n" for m c t e
    by (simp_all add: end_watch_view_def settle_watch_def Let_def split: option.split)
  have "map_of (ss_watching t) i \<noteq> Some n \<Longrightarrow> ss_watches (end_watch r i t) ! n = ss_watches t ! n" for t
    by (auto simp: end_watch_def Let_def v split: option.split)
  then show ?thesis using assms(1) by (simp add: end_stream_def Let_def split: option.split)
qed

lemma end_stream_keeps_gone:
  "map_of (ss_watching s) j = None \<Longrightarrow> map_of (ss_watching (end_stream i r cause s)) j = None"
proof -
  have v: "map_of (ss_watching t) j = None \<Longrightarrow> map_of (ss_watching (end_watch_view c m t)) j = None"
    "ss_watching (settle_watch m e t) = ss_watching t" for m c t e
    by (simp_all add: end_watch_view_def settle_watch_def Let_def delete_conv' split: option.split)
  have "map_of (ss_watching t) j = None \<Longrightarrow> map_of (ss_watching (end_watch r i t)) j = None" for t
    by (simp add: end_watch_def Let_def v delete_conv' split: option.split)
  then show "map_of (ss_watching s) j = None \<Longrightarrow> map_of (ss_watching (end_stream i r cause s)) j = None"
    by (simp add: end_stream_def Let_def split: option.split)
qed

text \<open>Whatever the request or the wait came to, the caller is given an end: it never waits on for nothing.\<close>

lemma watch_catch_ok:
  assumes "streams_ok s" "n < length (ss_watches s)" "wt_over (ss_watches s ! n) = None"
  shows "streams_ok (watch_catch n e s) \<and> wt_over (ss_watches (watch_catch n e s) ! n) \<noteq> None"
proof -
  define w where "w = ss_watches s ! n"
  have ok: "core_ok {} (ss_orphans s) s" using assms(1) by (simp add: streams_ok_def)
  note inv = core_okD(4)[OF ok]
  have wok: "watch_ok w" using watches_okD(2)[OF inv assms(2)] by (simp add: w_def)
  have orph: "ss_orphans (watch_over n o' t) = ss_orphans t" for o' t by (simp add: watch_over_def)
  have over: "n < length (ss_watches t) \<Longrightarrow> wt_over (ss_watches (watch_over n o' t) ! n) = o'" for o' t
    by (simp add: watch_over_def)
  show ?thesis
  proof (cases "map_of (ss_watching s) (wt_id w) \<noteq> Some n \<or> wt_view w \<noteq> None")
    case True
    show ?thesis
    proof (cases "wt_view w = None")
      case False
      then have "core_ok {} (ss_orphans s) (watch_over n (Some Got) s)" using watch_given_ok[OF ok assms(2)] by (simp add: w_def)
      then show ?thesis using False over[OF assms(2)] by (simp add: watch_catch_def Let_def streams_ok_def orph flip: w_def)
    next
      case none: True
      then have gone: "map_of (ss_watching s) (wt_id w) \<noteq> Some n" using True by blast
      then obtain o' where o': "wt_settled w = Some o'"
        using watches_okD(3)[OF inv assms(2)] assms(3) by (auto simp: w_def)
      then have "o' \<noteq> Got" using wok none by (auto simp: watch_ok_def)
      then have "core_ok {} (ss_orphans s) (watch_over n (Some x) s)" if "x = o' \<or> x = Failed e" for x
        using watch_given_ok[OF ok assms(2), of x] that gone none by (auto simp: w_def)
      then show ?thesis using True none o' over[OF assms(2)]
        by (simp add: watch_catch_def Let_def streams_ok_def orph flip: w_def)
    qed
  next
    case False
    then have k: "map_of (ss_watching s) (wt_id w) = Some n" and none: "wt_view w = None" by blast+
    define s1 where "s1 = s\<lparr>ss_watching := AList.delete (wt_id w) (ss_watching s)\<rparr>"
    note u = watch_unkept_state[OF ok k, folded s1_def]
    have id: "map_of (ss_watching s1) (wt_id w) = None" by (simp add: s1_def delete_conv')
    define s2 where "s2 = (if is_ended_error e then end_stream (wt_id w) 0 SC_Gone s1
      else if wt_sent w \<and> \<not> was_answered e then emit_event (Sends (leave_request (wt_id w) (wt_streamer w))) s1 else s1)"
    have "core_ok {n} (ss_orphans s) s2" using end_stream_ok(1)[OF u(1)] u(1) by (simp add: s2_def emit_event_ok)
    moreover have "n < length (ss_watches s2)" "ss_watches s2 ! n = w" "map_of (ss_watching s2) (wt_id w) = None" "ss_orphans s2 = ss_orphans s"
      using u(3-5) end_stream_ok(3,4)[OF u(1)] end_stream_watch[of s1 "wt_id w" n] end_stream_keeps_gone[OF id] id
      by (simp_all add: s2_def w_def)
    ultimately have "core_ok {} (ss_orphans s) (watch_over n (Some (Failed e)) s2)" "n < length (ss_watches s2)" "ss_orphans s2 = ss_orphans s"
      using watch_over_ok[of n "ss_orphans s" s2 e] none by simp_all
    moreover have "watch_catch n e s = watch_over n (Some (Failed e)) s2"
      using False unfolding watch_catch_def Let_def w_def[symmetric] s2_def s1_def by auto
    ultimately show ?thesis using over by (simp add: streams_ok_def orph)
  qed
qed

lemma watch_flags_ok:
  assumes "streams_ok s" "n < length (ss_watches s)"
  shows "streams_ok (watch_on_sent n s)" "streams_ok (watch_sent n s)"
proof -
  have ok: "core_ok {} (ss_orphans s) s" using assms(1) by (simp add: streams_ok_def)
  note inv = core_okD(4)[OF ok]
  let ?w = "ss_watches s ! n"
  have "core_ok {} (ss_orphans s) (set_watch n (?w\<lparr>wt_sent := True, wt_sending := b\<rparr>) s)" for b
  proof (rule watch_updated[OF ok assms(2)])
    show "watch_ok (?w\<lparr>wt_sent := True, wt_sending := b\<rparr>)" using watches_okD(2)[OF inv assms(2)] by (simp add: watch_ok_def)
    show "watch_kept (?w\<lparr>wt_sent := True, wt_sending := b\<rparr>)"
      if "map_of (ss_watching s) (wt_id (?w\<lparr>wt_sent := True, wt_sending := b\<rparr>)) = Some n"
      using watches_okD(1)[OF inv, of "wt_id ?w" n] that by (simp add: watch_kept_def view_open_def)
  qed (use watches_okD(3)[OF inv assms(2)] in \<open>simp_all add: view_open_def\<close>)
  from this[of False] this[of "wt_sending ?w"] show "streams_ok (watch_on_sent n s)" "streams_ok (watch_sent n s)"
    by (simp_all add: streams_ok_def watch_on_sent_def watch_sent_def)
qed

lemma watch_settles_ok:
  assumes "streams_ok s" "n < length (ss_watches s)" "wt_over (ss_watches s ! n) = None"
  shows "streams_ok (watch_settles n s)"
    and "wt_settled (ss_watches s ! n) \<noteq> None \<Longrightarrow> wt_over (ss_watches (watch_settles n s) ! n) \<noteq> None"
proof -
  have ok: "core_ok {} (ss_orphans s) s" using assms(1) by (simp add: streams_ok_def)
  note wok = watches_okD(2)[OF core_okD(4)[OF ok] assms(2)]
  have "wt_settled (ss_watches s ! n) = Some Got \<Longrightarrow> core_ok {} (ss_orphans s) (watch_over n (Some Got) s)"
    using watch_given_ok[OF ok assms(2), of Got] wok by (simp add: watch_ok_def)
  then show "streams_ok (watch_settles n s)"
    using assms(1) watch_catch_ok[OF assms] by (auto simp: watch_settles_def streams_ok_def watch_over_def split: option.split promise_end.split)
  show "wt_settled (ss_watches s ! n) \<noteq> None \<Longrightarrow> wt_over (ss_watches (watch_settles n s) ! n) \<noteq> None"
    using watch_catch_ok[OF assms] assms(2) by (auto simp: watch_settles_def watch_over_def split: option.split promise_end.split)
qed

lemma close_view_ok:
  assumes "streams_ok s" "n < length (ss_watches s)"
  shows "streams_ok (close_view n s)"
  using assms end_watch_view_ok[of "ss_orphans s" s n]
  by (auto simp: close_view_def streams_ok_def emit_event_ok Let_def split: option.split)

lemma remember_denied_ok: "streams_ok s \<Longrightarrow> streams_ok (remember_denied v s)"
proof -
  have "bounded_ok s \<Longrightarrow> bounded_ok (s\<lparr>ss_denied := newest_last MAX_DENIED u (ss_denied s)\<rparr>)" for u
    by (simp add: bounded_ok_def newest_last_length)
  then show "streams_ok s \<Longrightarrow> streams_ok (remember_denied v s)"
    by (simp add: remember_denied_def streams_ok_def core_ok_def disposed_ok_def split: option.split)
qed

section \<open>The end of everything\<close>

lemma reset_attempt_fields [simp]:
  "ss_infos (reset_attempt g n s) = ss_infos s" "ss_published (reset_attempt g n s) = ss_published s"
  "ss_streams (reset_attempt g n s) = ss_streams s" "ss_watching (reset_attempt g n s) = ss_watching s"
  "ss_watches (reset_attempt g n s) = ss_watches s" "ss_disposed (reset_attempt g n s) = ss_disposed s"
  "ss_denied (reset_attempt g n s) = ss_denied s" "ss_events (reset_attempt g n s) = ss_events s"
  "length (ss_attempts (reset_attempt g n s)) = length (ss_attempts s)"
  by (simp_all add: reset_attempt_def)

lemma reset_attempts_fields [simp]:
  "ss_infos (fold (reset_attempt g) ns s) = ss_infos s" "ss_published (fold (reset_attempt g) ns s) = ss_published s"
  "ss_streams (fold (reset_attempt g) ns s) = ss_streams s" "ss_watching (fold (reset_attempt g) ns s) = ss_watching s"
  "ss_watches (fold (reset_attempt g) ns s) = ss_watches s" "ss_disposed (fold (reset_attempt g) ns s) = ss_disposed s"
  "ss_denied (fold (reset_attempt g) ns s) = ss_denied s" "ss_events (fold (reset_attempt g) ns s) = ss_events s"
  by (induction ns arbitrary: s) simp_all

lemma attempt_reset:
  assumes "attempts_ok ws m (ss_attempts s)" "n < length (ss_attempts s)"
  shows "attempts_ok (removeAll n ws) m (ss_attempts (reset_attempt g n s))"
proof -
  define a where "a = ss_attempts s ! n"
  define a' where "a' = (if at_outcome a \<noteq> None then a\<lparr>at_reset := True\<rparr> else a\<lparr>at_reset := True, at_outcome := Some (Failed g)\<rparr>)"
  have eq: "ss_attempts (reset_attempt g n s) = (ss_attempts s)[n := a']"
    using assms(2) by (simp add: reset_attempt_def settle_publish_def a'_def a_def Let_def)
  have "attempt_ok ws m n a" using attempts_okD(2)[OF assms] by (simp add: a_def)
  then have "attempt_ok (removeAll n ws) m n a'" by (auto simp: attempt_ok_def a'_def)
  then show ?thesis unfolding eq by (rule attempt_changed[OF assms]) auto
qed

lemma attempts_reset:
  assumes "attempts_ok ws m (ss_attempts s)" "set ns = set ws"
  shows "attempts_ok [] m (ss_attempts (fold (reset_attempt g) ns s))"
  using assms
proof (induction ns arbitrary: ws s)
  case Nil
  then show ?case by simp
next
  case (Cons n ns)
  let ?s = "reset_attempt g n s"
  have n: "n < length (ss_attempts s)" "n \<in> set ws" "\<not> at_answered (ss_attempts s ! n)"
    using attempts_okD(1)[OF Cons.prems(1), of n] Cons.prems(2) by auto
  note r = attempt_reset[OF Cons.prems(1) n(1), of g]
  show ?case
  proof (cases "n \<in> set ns")
    case False
    then have "set ns = set (removeAll n ws)" using Cons.prems(2) by auto
    then show ?thesis using Cons.IH[OF r] by simp
  next
    case True
    have "attempts_ok ws m (ss_attempts ?s)"
    proof -
      have a: "attempt_ok (removeAll n ws) m j a \<Longrightarrow> attempt_ok ws m j a" for j a by (auto simp: attempt_ok_def)
      have "\<not> at_answered (ss_attempts ?s ! n)"
        using n(1,3) by (simp add: reset_attempt_def settle_publish_def Let_def)
      then show ?thesis using r n(1) unfolding attempts_ok_def by (auto intro: a)
    qed
    moreover have "set ns = set ws" using Cons.prems(2) True by auto
    ultimately show ?thesis using Cons.IH by simp
  qed
qed

lemma streams_finished:
  assumes "pubs_ok l made"
  shows "pubs_ok [] (fold (\<lambda>k m. m[k := finish_stream e (m ! k)]) (map snd l) made)"
  using assms
proof (induction l arbitrary: made)
  case (Cons x l)
  obtain i k where x: "x = (i, k)" by fastforce
  have "i \<notin> fst ` set l" using pubs_okD(4)[OF Cons.prems] by (simp add: x)
  then have "AList.delete i (x # l) = l" by (simp add: x delete_id)
  then have "pubs_ok l (made[k := finish_stream e (made ! k)])" using stream_finishes[OF Cons.prems, of i k e] by (simp add: x)
  then show ?case using Cons.IH by (simp add: x)
qed simp

lemma finish_all_fields [simp]:
  "ss_infos (fold (\<lambda>k. on_stream k f) ks s) = ss_infos s" "ss_orphans (fold (\<lambda>k. on_stream k f) ks s) = ss_orphans s"
  "ss_published (fold (\<lambda>k. on_stream k f) ks s) = ss_published s"
  "ss_streams (fold (\<lambda>k. on_stream k f) ks s) = fold (\<lambda>k m. m[k := f (m ! k)]) ks (ss_streams s)"
  "ss_watching (fold (\<lambda>k. on_stream k f) ks s) = ss_watching s" "ss_watches (fold (\<lambda>k. on_stream k f) ks s) = ss_watches s"
  "ss_publishing (fold (\<lambda>k. on_stream k f) ks s) = ss_publishing s" "ss_attempts (fold (\<lambda>k. on_stream k f) ks s) = ss_attempts s"
  "ss_disposed (fold (\<lambda>k. on_stream k f) ks s) = ss_disposed s" "ss_stopped (fold (\<lambda>k. on_stream k f) ks s) = ss_stopped s"
  "ss_denied (fold (\<lambda>k. on_stream k f) ks s) = ss_denied s" "ss_goneTimers (fold (\<lambda>k. on_stream k f) ks s) = ss_goneTimers s"
  "ss_events (fold (\<lambda>k. on_stream k f) ks s) = ss_events s"
  by (induction ks arbitrary: s) simp_all

lemma finish_all_length: "length (fold (\<lambda>k m. m[k := f (m ! k)]) ks made) = length made"
  by (induction ks arbitrary: made) simp_all

lemma watches_let_go:
  assumes "watches_ok {} l made"
  shows "watches_ok (set (map snd l)) [] made"
proof (rule watches_okI)
  fix m assume m: "m < length made" "m \<notin> set (map snd l)" "view_open (made ! m) \<or> wt_settled (made ! m) = None \<and> wt_over (made ! m) = None"
  then have "map_of l (wt_id (made ! m)) = Some m" using watches_okD(3)[OF assms] by blast
  then have "m \<in> set (map snd l)" by (force dest: map_of_SomeD)
  then show "map_of [] (wt_id (made ! m)) = Some m" using m(2) by blast
qed (use watches_okD(2)[OF assms] in auto)

lemma reset_watch_only: "watches_only s (reset_watch g c n s)"
  by (simp add: reset_watch_def end_watch_view_only settle_watch_only)

lemma watches_reset:
  assumes "watches_inv (set ns) s" "ss_watching s = []" "\<forall>n\<in>set ns. n < length (ss_watches s)"
  shows "watches_inv {} (fold (reset_watch g c) ns s) \<and> watches_only s (fold (reset_watch g c) ns s)"
  using assms
proof (induction ns arbitrary: s)
  case Nil
  then show ?case by (simp add: watches_only_refl)
next
  case (Cons n ns)
  let ?s = "reset_watch g c n s"
  have o: "watches_only s ?s" by (rule reset_watch_only)
  have n: "watches_inv (insert n (set ns)) s" "n < length (ss_watches s)" using Cons.prems by simp_all
  have "watches_inv (set ns) ?s"
    using view_ended[OF n, of c] watch_settled[OF n, of g] Cons.prems(2) by (auto simp: reset_watch_def)
  moreover have "ss_watching ?s = []" "\<forall>n\<in>set ns. n < length (ss_watches ?s)"
    using o Cons.prems by (simp_all add: watches_only_def)
  ultimately show ?case using Cons.IH[of ?s] watches_only_trans[OF o] by simp
qed

lemma sends_fields:
  "ss_infos (fold (\<lambda>x. emit_event (Sends (f x))) l s) = ss_infos s" "ss_streams (fold (\<lambda>x. emit_event (Sends (f x))) l s) = ss_streams s"
  "ss_watches (fold (\<lambda>x. emit_event (Sends (f x))) l s) = ss_watches s"
  "ss_attempts (fold (\<lambda>x. emit_event (Sends (f x))) l s) = ss_attempts s"
  "ss_disposed (fold (\<lambda>x. emit_event (Sends (f x))) l s) = ss_disposed s"
  "ss_stopped (fold (\<lambda>x. emit_event (Sends (f x))) l s) = ss_stopped s"
  "ss_orphans (fold (\<lambda>x. emit_event (Sends (f x))) l s) = ss_orphans s"
  "ss_publishing (fold (\<lambda>x. emit_event (Sends (f x))) l s) = ss_publishing s"
  "ss_denied (fold (\<lambda>x. emit_event (Sends (f x))) l s) = ss_denied s"
  "replay (ss_events (fold (\<lambda>x. emit_event (Sends (f x))) l s)) = replay (ss_events s)"
  by (induction l arbitrary: s) simp_all

text \<open>After the end of everything nothing runs, nothing waits and nothing is listed.\<close>

lemma reset_streams_ok:
  assumes "core_ok {} orph (s\<lparr>ss_disposed := False\<rparr>)"
  shows "streams_ok (reset_streams ctx disposed s)"
    and "ss_infos (reset_streams ctx disposed s) = [] \<and> ss_published (reset_streams ctx disposed s) = [] \<and>
      ss_watching (reset_streams ctx disposed s) = [] \<and> ss_publishing (reset_streams ctx disposed s) = []"
    and "ss_disposed (reset_streams ctx disposed s) = ss_disposed s"
proof -
  define gone where "gone = (if disposed then Streams_Disposed else Connection_Gone)"
  define s1 where "s1 = (fold (reset_attempt gone) (ss_publishing s) (emit_event Everything_Over s))
    \<lparr>ss_publishing := [], ss_orphans := [], ss_stopped := []\<rparr>"
  define s2 where "s2 = (if \<not> sc_connected ctx then s1
    else fold (\<lambda>(i, n). emit_event (Sends (leave_request i (wt_streamer (ss_watches s ! n))))) (ss_watching s)
           (fold (\<lambda>(i, k). emit_event (Sends (stopRequest (pb_id (ss_streams s ! k)) 0))) (ss_published s) s1))"
  define s3 where "s3 = s2\<lparr>ss_goneTimers := [], ss_published := [], ss_watching := [], ss_infos := [], ss_asked := []\<rparr>"
  define s4 where "s4 = fold (\<lambda>k. on_stream k (finish_stream (if disposed then By_Dispose else By_Drop))) (map snd (ss_published s)) s3"
  define s5 where "s5 = (if disposed then s4\<lparr>ss_denied := []\<rparr> else s4)"
  define s6 where "s6 = fold (reset_watch gone (if disposed then PE_Disposed else PE_Disconnected)) (map snd (ss_watching s)) s5"
  have eq: "reset_streams ctx disposed s = s6\<lparr>ss_closedViews := []\<rparr>"
    unfolding reset_streams_def Let_def s6_def s5_def s4_def s3_def s2_def s1_def gone_def ..
  note ok = core_okD[OF assms, simplified]
  have a1: "attempts_ok [] (length (ss_streams s1)) (ss_attempts s1)"
    using attempts_reset[of "ss_publishing s" "length (ss_streams s)" "emit_event Everything_Over s" "ss_publishing s" gone] ok(5)
    by (simp add: s1_def)
  have f1: "ss_streams s1 = ss_streams s" "ss_watches s1 = ss_watches s" "ss_disposed s1 = ss_disposed s"
    "replay (ss_events s1) = []" "ss_stopped s1 = []" "ss_orphans s1 = []" "ss_publishing s1 = []" "ss_denied s1 = ss_denied s"
    by (simp_all add: s1_def)
  have f2: "ss_streams s2 = ss_streams s" "ss_watches s2 = ss_watches s" "ss_disposed s2 = ss_disposed s"
    "replay (ss_events s2) = []" "ss_attempts s2 = ss_attempts s1" "ss_stopped s2 = []" "ss_orphans s2 = []"
    "ss_publishing s2 = []" "ss_denied s2 = ss_denied s"
    using f1 by (simp_all add: s2_def case_prod_unfold sends_fields)
  have f5: "ss_streams s5 = fold (\<lambda>k m. m[k := finish_stream (if disposed then By_Dispose else By_Drop) (m ! k)])
      (map snd (ss_published s)) (ss_streams s)"
    "ss_watches s5 = ss_watches s" "ss_disposed s5 = ss_disposed s" "replay (ss_events s5) = []" "ss_attempts s5 = ss_attempts s1"
    "ss_stopped s5 = []" "ss_orphans s5 = []" "ss_publishing s5 = []" "length (ss_denied s5) \<le> MAX_DENIED"
    "ss_infos s5 = []" "ss_published s5 = []" "ss_watching s5 = []" "ss_goneTimers s5 = []"
    using f2 ok(6) by (simp_all add: s5_def s4_def s3_def bounded_ok_def)
  have p5: "pubs_ok [] (ss_streams s5)" using streams_finished[OF ok(3)] by (simp add: f5)
  have l5: "length (ss_streams s5) = length (ss_streams s1)" by (simp add: f5 f1 finish_all_length)
  have "\<forall>n\<in>set (map snd (ss_watching s)). n < length (ss_watches s5)"
    using watches_okD(1)[OF ok(4)] watching_distinct[OF ok(4)] by (auto simp: f5)
  moreover have "watches_inv (set (map snd (ss_watching s))) s5" using watches_let_go[OF ok(4)] by (simp add: f5)
  ultimately have w6: "watches_inv {} s6" "watches_only s5 s6"
    using watches_reset[of "map snd (ss_watching s)" s5] f5(12) by (simp_all add: s6_def)
  have f6: "ss_infos s6 = []" "ss_orphans s6 = []" "ss_published s6 = []" "ss_streams s6 = ss_streams s5" "ss_publishing s6 = []"
    "ss_attempts s6 = ss_attempts s1" "ss_disposed s6 = ss_disposed s" "ss_stopped s6 = []" "length (ss_denied s6) \<le> MAX_DENIED"
    "ss_goneTimers s6 = []" "replay (ss_events s6) = []" "ss_watching s6 = []"
    using w6(2) f5 by (simp_all add: watches_only_def)
  then show "streams_ok (reset_streams ctx disposed s)"
    using p5 a1 w6(1) by (simp add: eq streams_ok_def core_ok_def list_rows_ok_def l5 bounded_ok_def disposed_ok_def)
  show "ss_infos (reset_streams ctx disposed s) = [] \<and> ss_published (reset_streams ctx disposed s) = [] \<and>
      ss_watching (reset_streams ctx disposed s) = [] \<and> ss_publishing (reset_streams ctx disposed s) = []"
    "ss_disposed (reset_streams ctx disposed s) = ss_disposed s"
    using f6 by (simp_all add: eq)
qed

lemma undisposed_core: "streams_ok s \<Longrightarrow> core_ok {} (ss_orphans s) (s\<lparr>ss_disposed := False\<rparr>)"
  by (simp add: streams_ok_def core_ok_def bounded_ok_def disposed_ok_def)

lemma disconnected_ok: "streams_ok s \<Longrightarrow> streams_ok (reset_streams ctx disposed s)"
  by (rule reset_streams_ok(1)[OF undisposed_core])

lemma dispose_ok: "streams_ok s \<Longrightarrow> streams_ok (dispose ctx s)"
proof -
  assume ok: "streams_ok s"
  have "core_ok {} (ss_orphans s) (s\<lparr>ss_disposed := True, ss_disposed := False\<rparr>)" using undisposed_core[OF ok] by simp
  from reset_streams_ok(1)[OF this] show "streams_ok (dispose ctx s)" using ok by (simp add: dispose_def)
qed

section \<open>Runs\<close>

text \<open>
  What may happen to \<open>Streams\<close>: something heard from the client, a promise settled, a call of the
  application's. What the client knows may differ from call to call.
\<close>

inductive streams_step :: "streams \<Rightarrow> streams \<Rightarrow> bool" where
  notified: "\<not> ss_disposed s \<Longrightarrow> streams_step s (onNotification ctx parse name row s)"
| flagged: "\<not> ss_disposed s \<Longrightarrow> streams_step s (client_streams ctx c flag s)"
| left: "\<not> ss_disposed s \<Longrightarrow> streams_step s (client_left ctx c s)"
| timer: "streams_step s (gone_timer c s)"
| info_failed: "streams_step s (discover_fails not_connected c s)"
| publishes: "publish ctx byteLength aborted opts s = Inr (q, s') \<Longrightarrow> streams_step s s'"
| publish_abandoned: "n < length (ss_attempts s) \<Longrightarrow> streams_step s (publish_gives_up n s)"
| publish_ends: "n < length (ss_attempts s) \<Longrightarrow> streams_step s (publish_returns n s)"
| setup_answer: "n < length (ss_attempts s) \<Longrightarrow> \<not> at_answered (ss_attempts s ! n) \<Longrightarrow>
    streams_step s (setup_answered ctx n rows s)"
| setup_failure: "n < length (ss_attempts s) \<Longrightarrow> \<not> at_answered (ss_attempts s ! n) \<Longrightarrow> streams_step s (setup_failed n e s)"
| stops: "k < length (ss_streams s) \<Longrightarrow> streams_step s (stop_published k reason s)"
| called: "k < length (ss_streams s) \<Longrightarrow> stream_step (ss_streams s ! k) p \<Longrightarrow> pb_ended p = pb_ended (ss_streams s ! k) \<Longrightarrow>
    streams_step s (on_stream k (\<lambda>_. p) s)"
| remembers: "streams_step s (remember_denied v s)"
| watches: "watch_stream ctx aborted target message s = Inr (q, s') \<Longrightarrow> streams_step s s'"
| handed_over: "n < length (ss_watches s) \<Longrightarrow> streams_step s (watch_on_sent n s)"
| request_returns: "n < length (ss_watches s) \<Longrightarrow> streams_step s (watch_sent n s)"
| watch_fails: "n < length (ss_watches s) \<Longrightarrow> wt_over (ss_watches s ! n) = None \<Longrightarrow> streams_step s (watch_catch n e s)"
| watch_ends: "n < length (ss_watches s) \<Longrightarrow> wt_over (ss_watches s ! n) = None \<Longrightarrow> \<not> wt_sending (ss_watches s ! n) \<Longrightarrow>
    streams_step s (watch_settles n s)"
| closes: "n < length (ss_watches s) \<Longrightarrow> streams_step s (close_view n s)"
| drops: "\<not> ss_disposed s \<Longrightarrow> streams_step s (reset_streams ctx False s)"
| disposes: "streams_step s (dispose ctx s)"

inductive streams_reachable :: "streams \<Rightarrow> bool" where
  attached: "streams_reachable (attach_streams remember ctx)"
| then_step: "streams_reachable s \<Longrightarrow> streams_step s s' \<Longrightarrow> streams_reachable s'"

lemma stream_step_id: "stream_step p p' \<Longrightarrow> pb_id p' = pb_id p"
proof (induction rule: stream_step.induct)
  case (accepts n p too_long offer p')
  then show ?case by (auto simp: accept_request_def openViewer_def say_def set_state_def split: if_splits)
next
  case (denies n p too_long p')
  then show ?case by (auto simp: deny_request_def say_def set_state_def split: if_splits)
next
  case (accept_failed n p k)
  show ?case by (simp add: accept_fails_def calls_keep_id set_state_def)
next
  case (deny_failed n p)
  show ?case by (simp add: deny_fails_def set_state_def)
qed (simp_all add: calls_keep_id finish_stream_id)

lemma step_keeps_streams:
  assumes "streams_step s s'" "streams_ok s"
  shows "streams_ok s'"
  using assms
proof (induction rule: streams_step.induct)
  case (called k s p)
  have "core_ok {} (ss_orphans s) s" using called by (simp add: streams_ok_def)
  then have "core_ok {} (ss_orphans s) (on_stream k (\<lambda>_. p) s)"
    by (rule on_stream_ok[OF _ called(1)]) (use called stream_step_id step_keeps_published in auto)
  then show ?case by (simp add: streams_ok_def)
next
  case (stops k s reason)
  then show ?case by (simp add: stop_published_def stream_stopped_ok)
qed (blast intro: onNotification_ok client_streams_ok client_left_ok gone_timer_ok discover_fails_ok publish_ok
    publish_gives_up_ok publish_returns_ok setup_answered_ok setup_failed_ok remember_denied_ok watch_stream_ok watch_flags_ok
    close_view_ok disconnected_ok dispose_ok dest: watch_catch_ok watch_settles_ok(1))+

lemma reachable_streams: "streams_reachable s \<Longrightarrow> streams_ok s"
  by (induction rule: streams_reachable.induct) (use attach_streams_ok step_keeps_streams in blast)+

section \<open>What follows\<close>

lemma streams_okD:
  assumes "streams_ok s"
  shows "replay (ss_events s) = ss_infos s" "list_rows_ok (ss_infos s) (ss_orphans s)" "pubs_ok (ss_published s) (ss_streams s)"
    "watches_inv {} s" "attempts_ok (ss_publishing s) (length (ss_streams s)) (ss_attempts s)" "bounded_ok s"
  using core_okD[of "{}" "ss_orphans s" s] assms by (simp_all add: streams_ok_def)

lemma all_over:
  assumes "streams_ok s" "ss_published s = []" "ss_watching s = []" "ss_publishing s = []"
  shows "k < length (ss_streams s) \<Longrightarrow> pb_ended (ss_streams s ! k)"
    and "n < length (ss_watches s) \<Longrightarrow> \<not> view_open (ss_watches s ! n) \<and>
      (wt_settled (ss_watches s ! n) \<noteq> None \<or> wt_over (ss_watches s ! n) \<noteq> None)"
    and "n < length (ss_attempts s) \<Longrightarrow> at_outcome (ss_attempts s ! n) \<noteq> None \<or> at_over (ss_attempts s ! n) \<noteq> None"
proof -
  note ok = streams_okD[OF assms(1)]
  show "k < length (ss_streams s) \<Longrightarrow> pb_ended (ss_streams s ! k)"
    using pubs_okD(2)[OF ok(3), of k] assms(2) by auto
  show "n < length (ss_watches s) \<Longrightarrow> \<not> view_open (ss_watches s ! n) \<and>
      (wt_settled (ss_watches s ! n) \<noteq> None \<or> wt_over (ss_watches s ! n) \<noteq> None)"
    using watches_okD(3)[OF ok(4), of n] assms(3) by (cases "wt_settled (ss_watches s ! n)") auto
  show "n < length (ss_attempts s) \<Longrightarrow> at_outcome (ss_attempts s ! n) \<noteq> None \<or> at_over (ss_attempts s ! n) \<noteq> None"
    using attempts_okD(2)[OF ok(5), of n] assms(4) by (auto simp: attempt_ok_def)
qed

lemma end_stream_published: "map_of (ss_published (end_stream i r cause s)) i = None"
proof -
  have "ss_published (end_watch r i t) = ss_published t" for t using end_watch_only[of t r i] by (simp add: watches_only_def)
  then show ?thesis
    by (auto simp: end_stream_def Let_def end_published_def delete_conv' split: option.split)
qed

lemma newest_kept: "length l \<le> n \<Longrightarrow> 0 < n \<Longrightarrow> x \<in> set (bounded_add n x l)"
  by (cases l) (auto simp: bounded_add_def set_add_def Let_def)

lemma late_stream:
  assumes "streams_ok s" "n < length (ss_attempts s)" "at_abandoned (ss_attempts s ! n)" "\<not> at_reset (ss_attempts s ! n)"
    "announced_stream (ss_infos s) rows = Some i"
  shows "map_of (ss_infos (setup_answered ctx n rows s)) (si_id i) = None"
    "map_of (ss_published (setup_answered ctx n rows s)) (si_id i) = None"
    "last (ss_events (setup_answered ctx n rows s)) = Sends (stopRequest (si_id i) 0)"
    "row ''id'' = Some (si_id i) \<Longrightarrow> onInfo row (setup_answered ctx n rows s) = setup_answered ctx n rows s"
proof -
  have eq: "setup_answered ctx n rows s = attempt_answered n (orphan i s)" using assms(3-5) by (simp add: setup_answered_def Let_def)
  have a: "ss_infos (attempt_answered n t) = ss_infos t" "ss_published (attempt_answered n t) = ss_published t" "ss_events (attempt_answered n t) = ss_events t"
    "ss_orphans (attempt_answered n t) = ss_orphans t" for t by (simp_all add: attempt_answered_def)
  show "map_of (ss_infos (setup_answered ctx n rows s)) (si_id i) = None" using orphan_ok(3)[OF assms(1)] by (simp add: eq a)
  show "map_of (ss_published (setup_answered ctx n rows s)) (si_id i) = None"
    by (simp add: eq a orphan_def end_stream_published)
  show "last (ss_events (setup_answered ctx n rows s)) = Sends (stopRequest (si_id i) 0)"
    by (simp add: eq a orphan_def emit_event_def)
  let ?o = "bounded_add MAX_ORPHANS (si_id i) (ss_orphans s)"
  have "length (ss_orphans s) \<le> MAX_ORPHANS" using streams_okD(6)[OF assms(1)] by (simp add: bounded_ok_def)
  then have "si_id i \<in> set ?o" by (rule newest_kept) (simp add: MAX_ORPHANS_def)
  moreover have "ss_orphans (end_watch r j t) = ss_orphans t" for r j t using end_watch_only[of t r j] by (simp add: watches_only_def)
  then have "ss_orphans (setup_answered ctx n rows s) = ?o"
    by (simp add: eq a orphan_def end_stream_def Let_def split: option.split)
  ultimately show "onInfo row (setup_answered ctx n rows s) = setup_answered ctx n rows s" if "row ''id'' = Some (si_id i)"
    using that stream_id[of row _] by (auto simp: onInfo_def learn_def split: option.split)
qed

lemma reset_leaves_nothing:
  assumes "streams_ok s" and s'_def: "s' = reset_streams ctx disposed s"
  shows "ss_infos s' = [] \<and> ss_published s' = [] \<and> ss_watching s' = []"
    and "p \<in> set (ss_streams s') \<Longrightarrow> pb_ended p \<and>
      (\<forall>n<length (pb_requests p). jr_state (pb_requests p ! n) \<noteq> RS_Pending) \<and> (\<forall>k<length (pb_made p). sp_closed (pb_made p ! k) \<noteq> None)"
    and "w \<in> set (ss_watches s') \<Longrightarrow> \<not> view_open w \<and> (wt_settled w \<noteq> None \<or> wt_over w \<noteq> None)"
    and "a \<in> set (ss_attempts s') \<Longrightarrow> at_outcome a \<noteq> None \<or> at_over a \<noteq> None"
proof -
  note r = reset_streams_ok[OF undisposed_core[OF assms(1)], of ctx disposed, folded s'_def]
  show "ss_infos s' = [] \<and> ss_published s' = [] \<and> ss_watching s' = []" using r(2) by blast
  note over = all_over[OF r(1)]
  show "pb_ended p \<and> (\<forall>n<length (pb_requests p). jr_state (pb_requests p ! n) \<noteq> RS_Pending) \<and>
      (\<forall>k<length (pb_made p). sp_closed (pb_made p ! k) \<noteq> None)" if p: "p \<in> set (ss_streams s')"
  proof -
    obtain k where k: "k < length (ss_streams s')" "p = ss_streams s' ! k" using p by (auto simp: in_set_conv_nth)
    have "pb_ended p" using over(1) k r(2) by blast
    moreover have "published_ok p" using pubs_okD(3)[OF streams_okD(3)[OF r(1)] k(1)] k(2) by blast
    ultimately show ?thesis using ended_nothing_open[of p] by (simp add: open_request_def)
  qed
  show "\<not> view_open w \<and> (wt_settled w \<noteq> None \<or> wt_over w \<noteq> None)" if "w \<in> set (ss_watches s')"
    using over(2) r(2) that by (auto simp: in_set_conv_nth)
  show "at_outcome a \<noteq> None \<or> at_over a \<noteq> None" if "a \<in> set (ss_attempts s')"
    using over(3) r(2) that by (auto simp: in_set_conv_nth)
qed

text \<open>A watch still waiting is settled by its publisher's answer, whatever that is, and by the end of its stream.\<close>

lemma waiting_watch_settled:
  assumes "map_of (ss_watching s) i = Some n" "n < length (ss_watches s)" "wt_view (ss_watches s ! n) = None"
  shows "str row ''id'' = i \<Longrightarrow> wt_settled (ss_watches (onRespond parse row s) ! n) \<noteq> None"
    and "wt_settled (ss_watches (end_stream i reason cause s) ! n) \<noteq> None"
proof -
  have settles: "wt_settled (ss_watches (settle_watch n o' s') ! n) \<noteq> None" if "n < length (ss_watches s')" for o' s'
    using that by (simp add: settle_watch_def set_watch_def Let_def)
  show "wt_settled (ss_watches (onRespond parse row s) ! n) \<noteq> None" if "str row ''id'' = i"
    using assms that settles by (simp add: onRespond_def Let_def emit_event_def set_watch_def)
  show "wt_settled (ss_watches (end_stream i reason cause s) ! n) \<noteq> None"
    using assms settles by (auto simp: end_stream_def end_watch_def emit_event_def Let_def split: option.split)
qed

lemma unsettled_watch_waits:
  assumes "streams_ok s" "n < length (ss_watches s)" "wt_over (ss_watches s ! n) = None" "wt_settled (ss_watches s ! n) = None"
  shows "map_of (ss_watching s) (wt_id (ss_watches s ! n)) = Some n" "wt_view (ss_watches s ! n) = None"
proof -
  note w = watches_okD(2,3)[OF streams_okD(4)[OF assms(1)] assms(2)]
  show "map_of (ss_watching s) (wt_id (ss_watches s ! n)) = Some n" using w(2) assms(3,4) by simp
  show "wt_view (ss_watches s ! n) = None" using w(1) assms(4) by (auto simp: watch_ok_def)
qed

end
