(* ===== verification/Streams_Samples.thy ===== *)
theory Streams_Samples
  imports Streams_Facts
begin

text \<open>
  A stream with two viewers asking, and \<open>Streams\<close> with one stream heard of, watched, and one published:
  the states the statements on streams are tried on.
\<close>

section \<open>A published stream\<close>

definition known_names :: "int \<Rightarrow> names option" where
  "known_names c = (if c = 7 then Some (Some ''u7'', Some ''Ada'') else None)"

text \<open>Client 5 asks and is looked up, client 7 asks and is in view, the lookup answers, 5 is let in.\<close>

definition asked_stream :: published where
  "asked_stream = request_watch (\<lambda>_. False) known_names 7 ''me too''
     (request_watch (\<lambda>_. False) known_names 5 ''please'' (new_published ''s''))"

definition answered_stream :: published where
  "answered_stream = lookup_answers (\<lambda>_. False) known_names 0 (Some ''u5'', Some ''Bob'') asked_stream"

definition watched_stream :: published where
  "watched_stream = (case accept_request False 0 ''offer'' answered_stream of Some p \<Rightarrow> p | None \<Rightarrow> answered_stream)"

definition ended_stream :: published where
  "ended_stream = finish_stream By_Drop watched_stream"

lemma asked_reachable: "stream_reachable asked_stream"
  unfolding asked_stream_def by (rule next_call[OF next_call[OF fresh stream_step.asks] stream_step.asks])

lemma answered_reachable: "stream_reachable answered_stream"
  unfolding answered_stream_def by (rule next_call[OF asked_reachable stream_step.looked_up])

lemmas slot_simps = request_watch_def advance_slots_def look_up_def announce_slot_def say_def viewer_of_def known_names_def

lemma asked_value:
  "asked_stream = (new_published ''s'')\<lparr>pb_next := 2, pb_resolving := [(5, 0), (7, 1)],
     pb_slots := [(0, \<lparr>sl_client = 5, sl_message = ''please'', sl_identity = None, sl_looking = True\<rparr>),
       (1, \<lparr>sl_client = 7, sl_message = ''me too'', sl_identity = Some (viewer_of 7 (Some ''u7'', Some ''Ada'')), sl_looking = False\<rparr>)]\<rparr>"
  by (simp add: asked_stream_def new_published_def slot_simps)

lemma answered_value:
  "answered_stream = (new_published ''s'')\<lparr>pb_next := 2,
     pb_requests := [\<lparr>jr_viewer = viewer_of 5 (Some ''u5'', Some ''Bob''), jr_message = ''please'', jr_state = RS_Pending\<rparr>,
       \<lparr>jr_viewer = viewer_of 7 (Some ''u7'', Some ''Ada''), jr_message = ''me too'', jr_state = RS_Pending\<rparr>],
     pb_pending := [(5, 0), (7, 1)], pb_events := [Asks_To_Watch 0 0, Asks_To_Watch 1 1]\<rparr>"
  by (simp add: answered_stream_def asked_value lookup_answers_def new_published_def slot_simps)

lemma answered_values:
  "map fst (pb_slots asked_stream) = [0, 1]" "announced_slots asked_stream = []"
  "pb_slots answered_stream = []" "announced_slots answered_stream = [0, 1]" "length (pb_requests answered_stream) = 2"
  by (simp_all add: asked_value answered_value new_published_def announced_slots_def)

lemma watched_value:
  "accept_request False 0 ''offer'' answered_stream = Some watched_stream"
  "watched_stream = answered_stream\<lparr>pb_requests := [\<lparr>jr_viewer = viewer_of 5 (Some ''u5'', Some ''Bob''),
       jr_message = ''please'', jr_state = RS_Accepted\<rparr>,
       \<lparr>jr_viewer = viewer_of 7 (Some ''u7'', Some ''Ada''), jr_message = ''me too'', jr_state = RS_Pending\<rparr>],
     pb_made := [\<lparr>sp_client = 5, sp_closed = None, sp_inbox = []\<rparr>], pb_peers := [(5, 0)],
     pb_events := [Asks_To_Watch 0 0, Asks_To_Watch 1 1, Answers 0 True]\<rparr>"
  by (simp_all add: watched_stream_def answered_value accept_request_def openViewer_def set_state_def say_def
      new_published_def viewer_of_def)

lemma watched_values:
  "map jr_state (pb_requests watched_stream) = [RS_Accepted, RS_Pending]" "length (pb_made watched_stream) = 1"
  "map jr_state (pb_requests ended_stream) = [RS_Accepted, RS_Ended]" "length (pb_made ended_stream) = 1" "pb_ended ended_stream"
  by (simp_all add: ended_stream_def watched_value(2) answered_value new_published_def finish_stream_def close_request_def
      set_state_def say_def end_peer_def set_peer_def bounded_add_def set_add_def)

lemma watched_reachable: "stream_reachable watched_stream"
  by (rule next_call[OF answered_reachable stream_step.accepts[OF _ watched_value(1)]]) (simp add: answered_values)

lemma ended_reachable: "stream_reachable ended_stream"
  unfolding ended_stream_def by (rule next_call[OF watched_reachable stream_step.ends])

section \<open>Streams\<close>

definition streaming_client :: stream_client where
  "streaming_client = \<lparr>sc_connected = True, sc_self = 1, sc_supported = True, sc_view = []\<rparr>"

definition film_row :: params where
  "film_row = [''id'' \<mapsto> ''a'', ''clid'' \<mapsto> ''5'', ''name'' \<mapsto> ''film'']"

definition heard_streams :: streams where
  "heard_streams = onNotification streaming_client (\<lambda>_. None) ''notifystreamstarted'' film_row
     (attach_streams False streaming_client)"

definition watching_streams :: streams where
  "watching_streams = (case watch_stream streaming_client False (Inl ''a'') [] heard_streams of
     Inr (q, s) \<Rightarrow> s | Inl e \<Rightarrow> heard_streams)"

definition publishing_streams :: streams where
  "publishing_streams = (case publish streaming_client (\<lambda>_. 0) False
       \<lparr>po_name = ''desk'', po_source = None, po_accessibility = None, po_bitrate = Some 0, po_viewerLimit = None, po_audio = False\<rparr>
       watching_streams of Inr (q, s) \<Rightarrow> s | Inl e \<Rightarrow> watching_streams)"

definition own_streams :: streams where
  "own_streams = setup_answered streaming_client 0 [[''id'' \<mapsto> ''b'', ''clid'' \<mapsto> ''1'', ''name'' \<mapsto> ''desk'']] publishing_streams"

lemma heard_reachable: "streams_reachable heard_streams"
  unfolding heard_streams_def
  by (rule then_step[OF attached streams_step.notified]) (simp add: attach_streams_def streaming_client_def new_streams_def)

definition film :: stream_info where
  "film = \<lparr>si_id = ''a'', si_client = 5, si_name = ''film'', si_source = None, si_audio = False, si_bitrate = None,
     si_accessibility = None, si_transport = None, si_viewerLimit = None, si_viewers = None\<rparr>"

definition desk :: stream_info where
  "desk = film\<lparr>si_id := ''b'', si_client := 1, si_name := ''desk''\<rparr>"

lemma film_read: "streamInfoFrom film_row None = Some film"
  by code_simp

lemma film_id: "si_id film = ''a''" "si_client film = 5" "si_transport film = None"
  by (simp_all add: film_def)

lemma desk_read: "streamInfoFrom [''id'' \<mapsto> ''b'', ''clid'' \<mapsto> ''1'', ''name'' \<mapsto> ''desk''] None = Some desk"
  by code_simp

lemma heard_value:
  "heard_streams = (new_streams False)\<lparr>ss_infos := [(''a'', film)], ss_events := [Started film]\<rparr>"
  by (simp add: heard_streams_def attach_streams_def streaming_client_def onNotification_def onInfo_def
      new_streams_def film_read learn_def emit_event_def film_id)

lemma watching_value:
  "watch_stream streaming_client False (Inl ''a'') [] heard_streams = Inr (joinRequest ''a'' 5 [] False, watching_streams)"
  "watching_streams = heard_streams\<lparr>ss_watching := [(''a'', 0)], ss_watches := [\<lparr>wt_id = ''a'', wt_streamer = 5, wt_early = [],
     wt_overflowed = False, wt_sending = True, wt_sent = False, wt_settled = None, wt_view = None, wt_over = None\<rparr>]\<rparr>"
  by (simp_all add: watching_streams_def heard_value watch_stream_def usable_def streaming_client_def new_streams_def film_id Let_def)

lemma watching_reachable: "streams_reachable watching_streams"
  by (rule then_step[OF heard_reachable streams_step.watches[OF watching_value(1)]])

lemma desk_fits: "fits (\<lambda>_. 0) (setupRequest \<lparr>su_name = ''desk'', su_source = 2, su_bitrate = 0,
    su_accessibility = Suc 0, su_viewerLimit = 0, su_audio = False\<rparr>)"
  by code_simp

lemma desk_setup: "publish_setup \<lparr>po_name = ''desk'', po_source = None, po_accessibility = None, po_bitrate = Some 0,
    po_viewerLimit = None, po_audio = False\<rparr> = Inr \<lparr>su_name = ''desk'', su_source = 2, su_bitrate = 0,
    su_accessibility = Suc 0, su_viewerLimit = 0, su_audio = False\<rparr>"
  by code_simp

lemma publishing_value:
  "publish streaming_client (\<lambda>_. 0) False \<lparr>po_name = ''desk'', po_source = None, po_accessibility = None, po_bitrate = Some 0,
     po_viewerLimit = None, po_audio = False\<rparr> watching_streams =
     Inr (setupRequest \<lparr>su_name = ''desk'', su_source = 2, su_bitrate = 0, su_accessibility = Suc 0, su_viewerLimit = 0,
       su_audio = False\<rparr>, publishing_streams)"
  "publishing_streams = watching_streams\<lparr>ss_publishing := [0], ss_attempts := [\<lparr>at_outcome = None, at_abandoned = False,
     at_reset = False, at_answered = False, at_stream = None, at_over = None\<rparr>]\<rparr>"
  by (simp_all add: publishing_streams_def publish_def usable_def streaming_client_def desk_setup desk_fits
      watching_value(2) heard_value new_streams_def)

lemma publishing_reachable: "streams_reachable publishing_streams"
  by (rule then_step[OF watching_reachable streams_step.publishes[OF publishing_value(1)]])

lemma own_values:
  "map fst (ss_infos own_streams) = [''a'', ''b'']" "length (ss_streams own_streams) = 1" "length (ss_watches own_streams) = 1"
  "length (ss_attempts own_streams) = 1" "map fst (ss_published own_streams) = [''b'']" "map fst (ss_watching own_streams) = [''a'']"
  by (simp_all add: own_streams_def setup_answered_def announced_stream_def publishing_value(2) watching_value(2) heard_value
      new_streams_def str_def desk_read adopt_def learn_def desk_def film_def attempt_answered_def settle_publish_def put_attempt_def
      emit_event_def Let_def)

lemma own_reachable: "streams_reachable own_streams"
  unfolding own_streams_def
  by (rule then_step[OF publishing_reachable streams_step.setup_answer]) (simp_all add: publishing_value(2))

end
