(* ===== verification/Spec2Isabelle.thy ===== *)
theory Spec2Isabelle
  imports Samples Command_Request Server_Errors Row_Splitter Traffic_Meter Command_Tracker
    Channel_Listing Query_Stream Reconnect_Loop Init_Handshake Session_Samples Streams_Samples
begin

text \<open>
  A model of the TeamSpeak client library's own logic, translated from \<^verbatim>\<open>src/src\<close>, with the theorems
  that make it correct. The library speaks two protocols: the voice protocol, encrypted packets over
  UDP (\<^verbatim>\<open>client/\<close>), and ServerQuery, lines over a stream (\<^verbatim>\<open>query/\<close>). Both carry the same command
  language (\<^verbatim>\<open>core/\<close>).

  \<^bold>\<open>The parts and how they meet.\<close> A datagram enters \<^verbatim>\<open>PacketHandler\<close>, is opened with the keys of
  \<^verbatim>\<open>Crypt\<close>, acknowledged, ordered by generation windows, put together and decompressed, and comes out
  as a command line. The parser and the row splitter read the line; the command tracker matches it to
  the command it answers; channel notifications change the channel tree. A command goes the other way:
  request, line, blocks, sealed packets, resent until acknowledged. Before there are keys, Init1
  packets and the license chain make them; after a drop, the reconnect loop starts over. On the
  ServerQuery side the line reader and the stream transport take the place of the packet handler.

  \<^item> \<open>Prelude\<close>: bytes, parameter maps, results, the pieces of the JavaScript library the code uses.
  \<^item> \<open>Command_Codec\<close>, \<open>Command_Request\<close> (\<^verbatim>\<open>core/command/\<close>): escaping, building, parsing and requests.
    The locale \<open>value_codec\<close> is what building and parsing need of an escaping.
  \<^item> \<open>Ids\<close>, \<open>Server_Errors\<close>, \<open>Row_Splitter\<close> (\<^verbatim>\<open>core/command/ids.ts\<close>, \<^verbatim>\<open>core/errors.ts\<close>,
    \<^verbatim>\<open>core/helpers.ts\<close>): ids, the error line, pipe-separated rows and their limits.
  \<^item> \<open>Packet_Header\<close>, \<open>Generation_Window\<close>, \<open>QuickLZ\<close>, \<open>Traffic_Meter\<close> (\<^verbatim>\<open>client/transport/\<close>). The
    locale \<open>id_tracker\<close> is what a stream of packets needs of a window.
  \<^item> \<open>Eax_Cipher\<close>, \<open>Session_Crypt\<close> (\<^verbatim>\<open>client/crypto/\<close>): EAX, the keys of packets, the puzzle.
  \<^item> \<open>Receive_Queue\<close>, \<open>Receive_Order\<close>, \<open>Handler_State\<close>, \<open>Packet_Handler\<close> and the \<open>Handler_\<close> theories of
    facts (\<^verbatim>\<open>client/transport/handler.ts\<close>): the class \<^verbatim>\<open>PacketHandler\<close> from \<^verbatim>\<open>start()\<close> on. Its fields
    are the record \<open>handler\<close>; each method is the definition of its name; \<open>handler_step\<close> is what can
    happen to it between two turns of the event loop.
  \<^item> \<open>Init_Handshake\<close>, \<open>License_Chain\<close> (\<^verbatim>\<open>client/handshake/\<close>, \<^verbatim>\<open>client/crypto/primitives.ts\<close>).
  \<^item> \<open>Command_Tracker\<close> (\<^verbatim>\<open>client/commands.ts\<close>, \<^verbatim>\<open>core/command/responses.ts\<close>).
  \<^item> \<open>Channel_Tree\<close>, \<open>Channel_Listing\<close>, \<open>Channel_Tree_Facts\<close> (\<^verbatim>\<open>core/channel-tree.ts\<close>).
  \<^item> \<open>Js_Number\<close>, \<open>Api_Fields\<close> (\<^verbatim>\<open>core/helpers.ts\<close>, \<^verbatim>\<open>core/api/command.ts\<close>, \<^verbatim>\<open>core/api/parse.ts\<close>): numbers
    as JavaScript reads them, and rows read into records by the tables of fields.
  \<^item> \<open>Notifications\<close> (\<^verbatim>\<open>core/notifications.ts\<close>): what each notification tells and what it does to the
    known clients. The locale \<open>known_clients\<close> is what the handlers need of the map that holds them, and
    \<open>kept_clients\<close> adds a property that changing one client keeps.
  \<^item> \<open>Channel_Order\<close>, \<open>View_Store\<close>, \<open>View_Facts\<close> (\<^verbatim>\<open>client/view.ts\<close>): the view of the server. The fields of
    \<^verbatim>\<open>ViewStore\<close> are the record \<open>view_store\<close>, whose roster interprets the two locales.
  \<^item> \<open>Client_Session\<close>, \<open>Session_Facts\<close> (\<^verbatim>\<open>client/client.ts\<close>): a packet's text to rows, tracker, view and
    events, and the ends of a connection. The record \<open>session\<close> holds the tracker, the view and the loop;
    \<open>voice_step\<close> is what can happen to it.
  \<^item> \<open>Query_Stream\<close> (\<^verbatim>\<open>query/lines.ts\<close>, \<^verbatim>\<open>query/trim.ts\<close>, \<^verbatim>\<open>query/stream.ts\<close>).
  \<^item> \<open>Query_Client\<close>, \<open>Query_Answers\<close>, \<open>Query_Session\<close> (\<^verbatim>\<open>query/client.ts\<close>, \<^verbatim>\<open>query/late-rows.ts\<close>): the
    queue of commands, the reading of their answers, and connecting. The class's fields are the records
    \<open>query_client\<close> and \<open>query_session\<close>; what happens to it is \<open>query_step\<close> and \<open>session_step\<close>, and
    \<open>wire_step\<close> joins it to a server that answers in order.
  \<^item> \<open>Reconnect_Policy\<close>, \<open>Reconnect_Loop\<close> (\<^verbatim>\<open>core/reconnect.ts\<close>, \<^verbatim>\<open>client/reconnect.ts\<close>,
    \<^verbatim>\<open>query/reconnect.ts\<close> and the reconnect loop of \<^verbatim>\<open>client/client.ts\<close>).
  \<^item> \<open>Stream_Wire\<close>, \<open>Stream_Published\<close>, \<open>Published_Facts\<close>, \<open>Streams\<close>, \<open>Streams_Facts\<close> (\<^verbatim>\<open>stream/wire.ts\<close>,
    \<^verbatim>\<open>stream/published.ts\<close>, \<^verbatim>\<open>stream/peer.ts\<close>, \<^verbatim>\<open>stream/streams.ts\<close>): the screen shares of a TeamSpeak 6 server, on the
    notifications the voice client passes on. \<^verbatim>\<open>Streams\<close> is the record \<open>streams\<close>, which holds a record \<open>published\<close> for
    each stream published here and a record \<open>watch\<close> for each call of \<^verbatim>\<open>watch\<close>; what can happen to them is
    \<open>stream_step\<close> and \<open>streams_step\<close>.
  \<^item> \<open>Samples\<close>, \<open>Query_Samples\<close>, \<open>Session_Samples\<close>, \<open>Streams_Samples\<close>: the concrete inputs of the witnesses below.

  \<^bold>\<open>What the lemmas show.\<close> Each stateful component has an invariant that every operation keeps
  (\<open>stream_inv\<close>, \<open>handler_inv\<close>, \<open>close_ok\<close>, \<open>tracker_inv\<close>, \<open>tree_inv\<close>, \<open>transport_ok\<close>, \<open>client_ok\<close>,
  \<open>init_ok\<close>, \<open>serving\<close>, \<open>session_ok\<close>, \<open>view_ok\<close>, \<open>session_inv\<close>,
  \<open>published_ok\<close>, \<open>streams_ok\<close>), and runs of its steps start in it. Where there is a simpler account of what a component
  does, it is shown to do that: the packets the server numbered (\<open>Receive_Order\<close>), unbounded packet
  numbers (\<open>position\<close>), RFC 4493 (\<open>rfc_cmac\<close>), the list of what was recorded (\<open>counter_models\<close>), the
  uncached key derivation (\<open>key_nonce_of\<close>), the clients as a partial function (\<open>notified\<close>), the list of
  streams a listener makes of the events (\<open>replay\<close>), the stream cut at its newlines (\<open>feed_lines\<close>), sums of
  points (\<open>chain_sums\<close>). The properties of this theory are those results, one each, followed by a
  concrete instance of its hypotheses. Where the code does not do what it means to, a lemma gives the
  run that shows it: \<open>hand_made_drop\<close> (a drop announced by an answer the waiting loop does not act on) and
  \<open>leftover_moves\<close> (rows of a group list applied to the next connection), besides those that are
  properties here.

  \<^bold>\<open>Bounds and fuel.\<close> The two loops over a command queue (\<open>collect\<close>, \<open>drain\<close>) take one step more than the
  queue holds; running out is \<open>Hangs\<close>, which no reachable handler comes to. \<open>remove\<close> of the tree
  takes one step more than there are channels and never runs out. \<open>isWithin\<close> may not end on a loop of
  parents and is a partial function; in a tree it ends. Generations saturate at \<open>2 ^ 32\<close>, so packet
  numbers are meaningful below \<open>2 ^ 48\<close>, and theorems about them say so.

  \<^bold>\<open>How the code is read.\<close> What Node or a package does is an argument: the AES block function, the
  hashes, the random bytes, the curve, UTF-8 and base64, the socket. An operation reads the clock once
  and takes the reading as an argument. What a component tells the outside is a list of events; a
  callback is not re-entrant. What can throw returns the error beside the state it leaves. Delays are
  reals where the code has doubles. An async function is cut at its awaits, and anything may happen
  between its pieces. An assertion that a channel is held passes over one that is not. Deep recursion
  has no stack to exhaust.

  \<^bold>\<open>Not modelled.\<close> Of \<^verbatim>\<open>client/client.ts\<close>, voice packets, sending, the line middleware, the listeners
  themselves and traces; of \<^verbatim>\<open>query/client.ts\<close> its reconnect loop, which repeats that of the voice client, its
  listeners and a line middleware that is not empty; the ServerQuery transports over ssh, HTTP and TCP; file transfers
  (\<^verbatim>\<open>client/transfer.ts\<close>), which are sockets of the platform; of \<^verbatim>\<open>stream/\<close> the emitter that keeps events for a
  first listener, the warnings, the lengths of timers, and what the application signals to a peer. Most of the typed commands (\<^verbatim>\<open>core/api/\<close>) name
  a command and copy its fields; tables of names, versions and error codes have no logic; identities,
  discovery, traces, scripts and examples call the platform.
\<close>

section \<open>Receiving commands\<close>

text \<open>C1. Whatever order the packets of a command stream arrive in, and however often, what is
  delivered is a prefix of the packets the server numbered, cut into commands at their fragment
  marks, each put together and decompressed, each once and in order.\<close>

theorem commands_in_order:
  assumes "arrives S r out"
  shows "delivers_prefix S (position (cs_window (fst r))) out"
  using arrives_in_order[OF assms] by (rule conjunct2)

lemma commands_in_order_witness:
  "\<exists>r :: rx. delivers_prefix (\<lambda>_. (0x22, [65])) (position (cs_window (fst r))) [sample_packet]"
proof -
  obtain r where r: "receive_command sample_packet (new_stream, 0) = Some ([sample_packet], r)"
    using sample_received by blast
  have "arriving (\<lambda>_. (0x22, [65])) new_stream 0 sample_packet"
    by (simp add: arriving_def sample_packet_def content_of_def new_stream_def)
  from arrives.packet[OF arrives.start this r] have "arrives (\<lambda>_. (0x22, [65])) r [sample_packet]" by simp
  from commands_in_order[OF this] show ?thesis by (rule exI[of _ r])
qed

text \<open>C2. In every state a handler reaches, handling a datagram, whatever it is, comes to an end:
  no loop over the queues runs away.\<close>

theorem handler_never_hangs:
  assumes "reachable env h"
  shows "fst (handleRawPacket env raw received now h) \<noteq> Inl Hangs"
  using handleRawPacket_inv reachable_inv[OF assms] by blast

lemma handler_never_hangs_witness:
  "fst (handleRawPacket \<lparr>env_aes = \<lambda>k b. b, env_sha256 = \<lambda>m. m, env_send_throws = \<lambda>_. False\<rparr>
     [] 0 0 (new_handler new_crypt 0)) \<noteq> Inl Hangs"
  by (rule handler_never_hangs) (auto simp: reachable_def)

text \<open>C3. In every state a handler reaches, the count of held bytes is that of the packets held in
  the two command queues, and the packets held lie in their windows, each under its own id.\<close>

theorem held_bytes_accounted:
  assumes "reachable env h"
  shows "queuedBytes h = held_bytes (commandStream h) + held_bytes (commandLowStream h) \<and>
    stream_inv (commandStream h) \<and> stream_inv (commandLowStream h)"
  using reachable_inv[OF assms] by (simp add: handler_inv_def)

lemma held_bytes_accounted_witness:
  "queuedBytes (new_handler new_crypt 0) = held_bytes (commandStream (new_handler new_crypt 0))
     + held_bytes (commandLowStream (new_handler new_crypt 0))"
  using held_bytes_accounted[of "\<lparr>env_aes = \<lambda>k b. b, env_sha256 = \<lambda>m. m, env_send_throws = \<lambda>_. False\<rparr>"
      "new_handler new_crypt 0"]
  by (auto simp: reachable_def)

text \<open>The packet a command stream waits for, the first it does not hold, is taken however full the
  queues are, as long as it is in the receive window; every packet before it is held. (It is out of
  the window when all 1024 packets of the window are held and make no complete command.)\<close>

lemma needed_packet_taken:
  assumes "stream_inv s" "isInWindow (cs_window s) (needed_id s)" "pk_id p = needed_id s"
  shows "admission_of p (s, b) = Admitted \<and> map_of (cs_queue s) (pk_id p) = None \<and>
    (\<exists>k\<le>1024. pk_id p = (cs_next s + k) mod 65536 \<and>
       (\<forall>j<k. map_of (cs_queue s) ((cs_next s + j) mod 65536) \<noteq> None))"
  using needed_packet_admitted[of s p b] needed_id_first_missing[OF assms(1)] assms by auto

lemma needed_packet_taken_witness:
  "admission_of sample_packet (new_stream, 2 ^ 20) = Admitted"
proof -
  have "isInWindow (cs_window new_stream) (needed_id new_stream)" "pk_id sample_packet = needed_id new_stream"
    by (simp_all add: new_stream_def needed_id_def new_window_def isInWindow_def sample_packet_def
        RECEIVE_PACKET_WINDOW_SIZE_def)
  then show ?thesis using needed_packet_taken[OF stream_inv_new] by blast
qed

section \<open>Which packets are taken\<close>

text \<open>Once the key exchange is complete, the public dummy key opens nothing but an encrypted
  acknowledgement of a command sent under it, and that once for each; whether the command has been
  acknowledged in another way is not looked at.\<close>

lemma dummy_key_owed_ack_only:
  assumes "cryptoInitComplete (h_crypt h)"
    and "decryptPacketData env p hdr ct tag h = (Some (pt, True), h')"
  shows "packetType p = Ack \<and> \<not> isUnencrypted p \<and>
    be_val (take 2 pt) \<in> set (dummyCommandIDs h) \<and> be_val (take 2 pt) \<notin> set (dummyCommandIDs h')"
  using dummy_key_after_init[OF assms] by blast

lemma dummy_key_owed_ack_only_witness:
  "\<exists>h'. decryptPacketData toy_env toy_ack [0, 0, 6] [0, 5] (replicate 8 0) toy_handler = (Some ([0, 5], True), h') \<and>
     be_val (take 2 [0, 5]) \<notin> set (dummyCommandIDs h')"
proof -
  obtain h' where h': "decryptPacketData toy_env toy_ack [0, 0, 6] [0, 5] (replicate 8 0) toy_handler =
      (Some ([0, 5], True), h')"
    using toy_opens by (metis prod.collapse)
  have "cryptoInitComplete (h_crypt toy_handler)" by (simp add: toy_handler_def new_handler_def)
  from dummy_key_owed_ack_only[OF this h'] h' show ?thesis by blast
qed

text \<open>A datagram whose packet does not open leaves the session as it was, the moment of the last
  message included: only the cache of derived keys may have grown.\<close>

lemma undecryptable_changes_nothing:
  assumes "raw_packet raw received h = Some p"
    and "fst (decryptPacketData env p (raw_header raw) (drop (TAG_SIZE + 3) raw) (take TAG_SIZE raw) h) = None"
  shows "\<exists>c. handleRawPacket env raw received now h = (Inr (), h\<lparr>h_crypt := c\<rparr>)"
  by (rule undecryptable_ignored[OF assms])

lemma undecryptable_changes_nothing_witness:
  "\<exists>c. handleRawPacket toy_env (replicate 10 0 @ [0x82]) 0 0 (new_handler new_crypt 0) =
     (Inr (), (new_handler new_crypt 0)\<lparr>h_crypt := c\<rparr>)"
proof -
  let ?raw = "replicate 10 0 @ [0x82]" and ?h = "new_handler new_crypt 0"
  obtain i where i: "parseS2CHeader (raw_header ?raw) = Some (i, ?raw ! 10)"
    using raw_header_type[of ?raw] by auto
  define p where "p = \<lparr>typeFlagged = ?raw ! 10, pk_id = i, clientID = 0,
    generationID = resolveGeneration ?h i (packetTypeOfByte (?raw ! 10)), pk_data = [], receivedAt = 0\<rparr>"
  have t: "?raw ! 10 = 0x82" by (simp add: nth_append)
  have p: "raw_packet ?raw 0 ?h = Some p"
    using i by (simp add: raw_packet_def p_def MAX_DATAGRAM_SIZE_def new_handler_def new_crypt_def Let_def)
  have "fst (decryptPacketData toy_env p (raw_header ?raw) (drop (TAG_SIZE + 3) ?raw) (take TAG_SIZE ?raw) ?h) = None"
    using decrypt_refuses_plain[of p]
    by (simp add: isUnencrypted_type_byte p_def t Unencrypted_def packetType_def packetTypeOfByte_def
        named_types_def UNENCRYPTED_TYPES_def)
  from undecryptable_changes_nothing[OF p this] show ?thesis .
qed

section \<open>The life of a connection\<close>

text \<open>C4. A closed handler stays closed: whatever happens to it afterwards, it sends nothing more, and
  over its whole life it reports its end at most once.\<close>

theorem closed_handler_silent:
  assumes "reachable env h" "h_closed h" "(handler_step env)\<^sup>*\<^sup>* h h'"
  shows "h_closed h' \<and> sent_datagrams h' = sent_datagrams h \<and> closings h' \<le> 1"
  using closed_stays_silent[OF assms(3) _ assms(2)] reachable_inv[OF assms(1)]
  by (auto simp: close_ok_def)

lemma closed_handler_silent_witness:
  "sent_datagrams (snd (sendPacket toy_env Command [65] 0 0 (close (new_handler new_crypt 0)))) = []"
proof -
  let ?h = "close (new_handler new_crypt 0)"
  have "handler_step toy_env (new_handler new_crypt 0) ?h" by (rule handler_step.close)
  then have "reachable toy_env ?h" unfolding reachable_def by blast
  moreover have "h_closed ?h" by (simp add: close_def new_handler_def)
  moreover have "(handler_step toy_env)\<^sup>*\<^sup>* ?h (snd (sendPacket toy_env Command [65] 0 0 ?h))"
    by (intro r_into_rtranclp handler_step.send)
  ultimately have "sent_datagrams (snd (sendPacket toy_env Command [65] 0 0 ?h)) = sent_datagrams ?h"
    using closed_handler_silent by blast
  then show ?thesis by (simp add: close_def new_handler_def sent_datagrams_def)
qed

text \<open>C5. No two packets sent get the same type, generation and id, however many wraps of the 16-bit
  id lie between them, up to the 32-bit generation's own end. The \<open>Init1\<close> packets, with which the
  handshake opens, are excepted: each of them has id 101 and generation 0.\<close>

theorem packet_identities_distinct:
  assumes "counters_ok h" "Init1 \<notin> set ts" "\<forall>t. sent_number h t + length ts < 2 ^ 48"
  shows "distinct (identities ts h)"
  by (rule identities_distinct[OF assms])

lemma packet_identities_distinct_witness:
  "distinct (identities (replicate 70000 Command) (new_handler new_crypt 0))"
  by (rule packet_identities_distinct)
    (simp_all add: counters_ok_new, simp add: sent_number_def new_handler_def)

text \<open>Once a command is numbered, the acknowledgement of any of the last 1024 commands, which
  carries 16 bits of its number, is opened in the generation of that command.\<close>

lemma acks_find_their_generation:
  assumes "send_synced h" "counters_ok h" "sent_number h Command + 1 < 2 ^ 48"
    and "n \<le> sent_number h Command" "sent_number h Command < n + 1024"
  shows "send_synced (snd (nextPacketIdentity Command h)) \<and>
    resolveGeneration (snd (nextPacketIdentity Command h)) (n mod 65536) Ack = n div 65536"
proof -
  note next_id = send_synced_next[OF assms(1-3)]
  have "sent_number (snd (nextPacketIdentity Command h)) Command = sent_number h Command + 1"
    using nextPacketIdentity_number[OF assms(2,3), of Command] by auto
  with next_id ack_generation[of "snd (nextPacketIdentity Command h)" n] assms(4,5) show ?thesis by auto
qed

lemma acks_find_their_generation_witness:
  "resolveGeneration (snd (nextPacketIdentity Command (new_handler new_crypt 0))) 0 Ack = 0"
  using acks_find_their_generation[OF send_synced_new counters_ok_new, of new_crypt 0 0]
  by (simp add: sent_number_def new_handler_def)



text \<open>A packet sent again is the same datagram, byte for byte, as when it was first sent: under
  the dummy key even after the session's own keys came to be, under the session's while they last.\<close>

lemma resend_same_datagram:
  assumes "sealed env (rp_dummy rp) (rp_packet rp) (h_crypt h) = Inr bytes"
    and "cache_ok (env_sha256 env) (h_crypt h)" "cache_ok (env_sha256 env) (h_crypt h')"
    and "generationID (rp_packet rp) < 2 ^ 32"
    and "rp_dummy rp \<and> \<not> isUnencrypted (rp_packet rp) \<or> same_keys (h_crypt h) (h_crypt h')"
    and "nextInterval rp \<le> now - lastSend rp"
  shows "\<exists>rp' h1. doResend env rp now h' = (rp', Inr (), write_datagram env bytes now h1) \<and>
    h_conn h1 = h_conn h' \<and> events h1 = events h'"
  using doResend_writes[OF assms(6)] sealed_stable[OF assms(2-5)] assms(1) by metis

definition sample_resend :: resend_packet where
  "sample_resend = \<lparr>rp_packet = sample_packet\<lparr>typeFlagged := 0x88\<rparr>, firstSend = 0, lastSend = 0,
     retryCount = 0, nextInterval = 500, rp_dummy = False\<rparr>"

lemma resend_same_datagram_witness:
  "\<exists>bytes rp' h1. doResend toy_env sample_resend 600 (new_handler new_crypt 9) =
     (rp', Inr (), write_datagram toy_env bytes 600 h1)"
proof -
  have s: "\<exists>b. sealed toy_env (rp_dummy sample_resend) (rp_packet sample_resend) (h_crypt (new_handler new_crypt 0)) = Inr b"
    by (simp add: sealed_def crypt_encrypt_def sample_resend_def isUnencrypted_def packetFlags_def sample_packet_def
        packetType_def packetTypeOfByte_def named_types_def INIT1_PACKET_TYPE_def Unencrypted_def)
  then obtain b where b: "sealed toy_env (rp_dummy sample_resend) (rp_packet sample_resend)
      (h_crypt (new_handler new_crypt 0)) = Inr b" ..
  have "cache_ok (env_sha256 toy_env) (h_crypt (new_handler new_crypt n))" for n
    by (simp add: new_handler_def cache_ok_new)
  then show ?thesis
    using resend_same_datagram[OF b, of "new_handler new_crypt 9" 600]
    by (auto simp: sample_resend_def sample_packet_def same_keys_def new_handler_def)
qed

text \<open>When the first datagram cannot even be handed to the socket, \<open>start\<close> closes the handler
  and then makes its two timers all the same, which no later \<open>close\<close> stops.\<close>

lemma failed_start_leaves_timers:
  assumes "\<not> h_closed h" "env_send_throws env = (\<lambda>_. True)"
  shows "h_closed (snd (start env (Some d) now h)) \<and> h_timers (snd (start env (Some d) now h)) \<and>
    h_timers (close (snd (start env (Some d) now h)))"
  using start_timers_survive[OF assms, of d now] by simp

lemma failed_start_leaves_timers_witness:
  "h_timers (close (snd (start (toy_env\<lparr>env_send_throws := \<lambda>_. True\<rparr>) (Some []) 0 (new_handler new_crypt 0))))"
  using failed_start_leaves_timers[of "new_handler new_crypt 0" "toy_env\<lparr>env_send_throws := \<lambda>_. True\<rparr>"]
  by (simp add: new_handler_def)

text \<open>Packets that are never sent again are placed in their generation through any losses and
  reorderings of fewer than half the id space, across every wrap.\<close>

lemma stream_generations_followed:
  assumes "window_ok w" "near_stream (receiveWindow w) (horizon w) (position w) ns"
  shows "stream_gens getGeneration advanceAfter w (map (\<lambda>n. n mod win_mod w) ns) =
    map (\<lambda>n. n div win_mod w) ns"
  by (rule voice_window.gens_near_stream[OF assms])

lemma stream_generations_followed_witness:
  "stream_gens getGeneration advanceAfter (new_window 65536 32768) (map (\<lambda>n. n mod 65536) [0, 30000, 60000, 70000, 65000]) =
     [0, 0, 0, 1, 0]"
proof -
  let ?w = "new_window 65536 32768"
  have "window_ok ?w" by (rule window_ok_new) simp_all
  moreover have "near_stream (receiveWindow ?w) (horizon ?w) (position ?w) [0, 30000, 60000, 70000, 65000]"
    by (simp add: horizon_def) (simp add: new_window_def)
  ultimately have "stream_gens getGeneration advanceAfter ?w (map (\<lambda>n. n mod win_mod ?w) [0, 30000, 60000, 70000, 65000]) =
      map (\<lambda>n. n div win_mod ?w) [0, 30000, 60000, 70000, 65000]"
    by (rule stream_generations_followed)
  then show ?thesis by (simp add: new_window_def)
qed

section \<open>Encryption\<close>

text \<open>C7. A sealed packet opens to exactly the bytes it was sealed from, and nothing else opens:
  what is accepted is what sealing the result would have produced, tag included.\<close>

theorem eax_opens_what_it_seals:
  "eax_decrypt aes key nonce header ct tag = Inr pt \<longleftrightarrow>
     eax_encrypt aes key nonce header pt = (ct, take 8 tag)"
  unfolding eax_decrypt_Inr_iff
  by (auto simp: eax_encrypt_def Let_def aesCtr_involution)

text \<open>The one-call CMAC over the whole message is the loop of RFC 4493.\<close>

lemma cmac_is_rfc4493:
  assumes "\<And>b. length (aes key b) = 16"
  shows "aesCmac aes key m = rfc_cmac aes key m"
  by (rule aesCmac_rfc4493) (rule assms)

lemma cmac_is_rfc4493_witness:
  "aesCmac (env_aes toy_env) DUMMY_KEY [1, 2, 3] = rfc_cmac (env_aes toy_env) DUMMY_KEY [1, 2, 3]"
  by (rule cmac_is_rfc4493) (simp add: toy_env_def)

text \<open>The cache of derived keys changes no key: what it gives is what deriving afresh gives, for
  every direction, type, generation and packet id, and it stays so.\<close>

lemma key_cache_transparent:
  assumes "cache_ok sha256 c" "gen < 2 ^ 32"
  shows "map_sum id fst (getKeyNonce sha256 f p gen t dummy c) = key_nonce_of sha256 f p gen t dummy c \<and>
    (\<forall>k c'. getKeyNonce sha256 f p gen t dummy c = Inr (k, c') \<longrightarrow> cache_ok sha256 c')"
  using getKeyNonce_transparent[OF assms] getKeyNonce_keeps(1)[OF _ assms] by blast

lemma key_cache_transparent_witness:
  "map_sum id fst (getKeyNonce (\<lambda>m. replicate 32 7) True 9 3 2 False (new_crypt\<lparr>cryptoInitComplete := True\<rparr>)) =
     key_nonce_of (\<lambda>m. replicate 32 7) True 9 3 2 False (new_crypt\<lparr>cryptoInitComplete := True\<rparr>)"
  using key_cache_transparent[of "\<lambda>m. replicate 32 7" "new_crypt\<lparr>cryptoInitComplete := True\<rparr>" 3]
  by (simp add: cache_ok_def new_crypt_def)

text \<open>Under the session's keys, two packets of one type and generation with different ids never
  share a key.\<close>

lemma packets_get_their_own_key:
  assumes "\<And>m. length (sha256 m) = 32" "p < 65536" "q < 65536" "p \<noteq> q"
    and "key_nonce_of sha256 f p gen t False c = Inr (k, n)"
    and "key_nonce_of sha256 f q gen t False c = Inr (k', n')"
  shows "k \<noteq> k'"
proof -
  let ?k = "kn_key (derive_key_nonce sha256 (ivStruct c) f t gen)"
  have "2 \<le> length ?k" by (simp add: derive_key_nonce_def Let_def assms(1))
  moreover have "k = mix_packet_id ?k p" "k' = mix_packet_id ?k q"
    using assms(5,6) by (auto simp: key_nonce_of_def Let_def split: if_splits)
  ultimately show ?thesis using mix_packet_id_inj assms(2-4) by blast
qed

lemma packets_get_their_own_key_witness:
  "\<exists>k n k' n'. key_nonce_of (\<lambda>m. replicate 32 7) True 5 0 2 False (new_crypt\<lparr>cryptoInitComplete := True\<rparr>) = Inr (k, n) \<and>
     key_nonce_of (\<lambda>m. replicate 32 7) True 6 0 2 False (new_crypt\<lparr>cryptoInitComplete := True\<rparr>) = Inr (k', n') \<and> k \<noteq> k'"
proof -
  let ?key = "\<lambda>i. key_nonce_of (\<lambda>m. replicate 32 7) True i 0 2 False (new_crypt\<lparr>cryptoInitComplete := True\<rparr>)"
  obtain k n where k: "?key 5 = Inr (k, n)" by (auto simp: key_nonce_of_def Let_def)
  obtain k' n' where k': "?key 6 = Inr (k', n')" by (auto simp: key_nonce_of_def Let_def)
  have "k \<noteq> k'" by (rule packets_get_their_own_key[OF _ _ _ _ k k']) simp_all
  with k k' show ?thesis by blast
qed

text \<open>What the server seals with the session's key for a packet, the client opens, whatever keys
  its cache holds by then.\<close>

lemma sealed_packet_opens:
  assumes "cache_ok sha256 c" "gen < 2 ^ 32" "\<And>m. length (sha256 m) = 32" "t \<noteq> INIT1_PACKET_TYPE"
    and "key_nonce_of sha256 True p gen t dummy c = Inr (key, nonce)"
    and "eax_encrypt aes key nonce header pt = (ct, tag)"
  shows "fst (crypt_decrypt aes sha256 t p gen header ct tag dummy False c) = Inr pt"
  using assms(3) by (rule crypt_decrypt_sealed[OF assms(1,2) _ assms(4-6)])

lemma sealed_packet_opens_witness:
  "\<exists>ct tag. fst (crypt_decrypt (env_aes toy_env) (\<lambda>m. replicate 32 7) 2 5 0 [1] ct tag False False
     (new_crypt\<lparr>cryptoInitComplete := True\<rparr>)) = Inr [42]"
proof -
  let ?c = "new_crypt\<lparr>cryptoInitComplete := True\<rparr>"
  obtain k n where k: "key_nonce_of (\<lambda>m. replicate 32 7) True 5 0 2 False ?c = Inr (k, n)"
    by (auto simp: key_nonce_of_def Let_def)
  obtain ct tag where e: "eax_encrypt (env_aes toy_env) k n [1] [42] = (ct, tag)" by fastforce
  have "cache_ok (\<lambda>m. replicate 32 7) ?c" by (simp add: cache_ok_def new_crypt_def)
  from sealed_packet_opens[OF this _ _ _ k e] show ?thesis by (auto simp: INIT1_PACKET_TYPE_def)
qed

text \<open>C8. However many Init1 packets arrive, from whom and in whatever order, an attempt answers one
  puzzle: all the answers it sends are one packet, which carries the challenge, the solution \<open>x ^ (2 ^
  level) mod n\<close> of that challenge's puzzle and the alpha the session's keys are then made with.\<close>

theorem one_puzzle_answered:
  assumes "(init_step env)\<^sup>*\<^sup>* (new_attempt c) a" "p \<in> set (in_sent a)" "answers_puzzle p"
  shows "\<exists>data y. in_answered a = Some \<lparr>an_challenge = data, an_answer = p, an_level = be_val (take 4 (drop 129 data))\<rparr> \<and>
    solves (be_val (take 4 (drop 129 data))) data y \<and>
    p = be_bytes 4 INIT_VERSION @ [0x04] @ take 232 (drop 1 data) @ take 64 y @ clientinitiv env (alpha (in_crypt a))"
proof -
  have ok: "init_ok env a" by (rule init_runs[OF assms(1)])
  then obtain an where an: "in_answered a = Some an" "answer_ok env a an" "p = an_answer an"
    using assms(2,3) by (auto simp: init_ok_def split: option.splits)
  then show ?thesis by (cases an) (auto simp: answer_ok_def puzzle_packet_def)
qed

lemma one_puzzle_answered_witness:
  "\<exists>(a :: init_attempt) p. p \<in> set (in_sent a) \<and> (\<exists>y. solves 1 sample_challenge y \<and>
     p = be_bytes 4 INIT_VERSION @ [0x04] @ take 232 (drop 1 sample_challenge) @ take 64 y @ clientinitiv sample_init [5])"
proof -
  let ?a0 = "new_attempt new_crypt"
  define a1 where "a1 = handleInit1 0 [] sample_challenge ?a0"
  define a2 where "a2 = solve_ends sample_init (\<lambda>_. False) [5] sample_challenge a1"
  have run: "(init_step sample_init)\<^sup>*\<^sup>* ?a0 a2" unfolding a1_def a2_def
    by (rule converse_rtranclp_into_rtranclp[OF init_step.packet r_into_rtranclp[of "init_step sample_init",
          OF init_step.solved]])
  have 1: "a1 = ?a0\<lparr>in_solving := Some sample_challenge, in_solves := [sample_challenge]\<rparr>" unfolding a1_def by (rule sample_handled)
  have l: "be_val (take 4 (drop 129 sample_challenge)) = 1" by (rule sample_challenge_fields)
  obtain y where y: "solveRsaChallenge (\<lambda>_. False) sample_challenge 1 (int 1) = Inr y"
    using sample_solved by blast
  let ?p = "puzzle_packet sample_init sample_challenge y [5]"
  have 2: "in_sent a2 = [?p]" "alpha (in_crypt a2) = [5]" "in_answered a2 = Some \<lparr>an_challenge = sample_challenge, an_answer = ?p, an_level = 1\<rparr>"
    using y[simplified] by (simp_all add: a2_def 1 solve_ends_def solveInit1Challenge_def l Let_def sends_def newAlpha_def new_attempt_def)
  have "answers_puzzle ?p" by (rule puzzle_packet_answers)
  from one_puzzle_answered[OF run _ this] 2(1) obtain data z where
    "in_answered a2 = Some \<lparr>an_challenge = data, an_answer = ?p, an_level = be_val (take 4 (drop 129 data))\<rparr>"
    "solves (be_val (take 4 (drop 129 data))) data z"
    "?p = be_bytes 4 INIT_VERSION @ [0x04] @ take 232 (drop 1 data) @ take 64 z @ clientinitiv sample_init (alpha (in_crypt a2))"
    by auto
  with 2 l have z: "solves 1 sample_challenge z"
    "?p = be_bytes 4 INIT_VERSION @ [0x04] @ take 232 (drop 1 sample_challenge) @ take 64 z @ clientinitiv sample_init [5]"
    by simp_all
  show ?thesis
  proof (intro exI conjI)
    show "?p \<in> set (in_sent a2)" using 2(1) by simp
  qed (fact z)+
qed

section \<open>Commands as text\<close>

text \<open>C9. A command written with its parameters is read back as itself: the name, and each parameter
  with its value, whatever characters the values hold; of a key given twice the last counts.\<close>

theorem command_round_trip:
  assumes "isCommandName cmd" "\<forall>(k, v)\<in>set ps. CHR ''='' \<notin> set k"
  shows "parseCommand (buildCommandOrdered cmd ps) = Some \<lparr>cmd_name = cmd, cmd_params = map_of (rev ps)\<rparr>"
  by (rule parse_buildCommandOrdered[OF assms])

lemma command_round_trip_witness:
  "\<exists>c. parseCommand (buildCommandOrdered ''sendtextmessage'' [(''msg'', ''a b|c=d'')]) = Some c \<and>
     cmd_name c = ''sendtextmessage'' \<and> cmd_params c ''msg'' = Some ''a b|c=d''"
proof -
  have "isCommandName ''sendtextmessage''" by code_simp
  from command_round_trip[OF this, of "[(''msg'', ''a b|c=d'')]"] show ?thesis by simp
qed

text \<open>C10. A request is refused exactly when one of its keys is not a key, before anything is written;
  otherwise the line it is encoded to reads back as its rows, whatever the values hold.\<close>

theorem request_reads_back:
  assumes "isCommandName (rq_command rq)"
  shows "case encodeRequest rq enc of
      Inl _ \<Rightarrow> \<not> valid_keys rq
    | Inr line \<Rightarrow> valid_keys rq \<and> map parseCommand (split_on CHR ''|'' line) =
        Some \<lparr>cmd_name = rq_command rq, cmd_params = map_of (rev (first_row rq enc))\<rparr>
        # map read_row (other_rows rq enc)"
  using encoded_request_reads_back[OF assms, of enc] encodeRequest_Inl_iff[of rq enc]
  by (auto simp: encodeRequest_Inr_iff split: sum.split)

definition sample_request :: command_request where
  "sample_request = \<lparr>rq_command = ''clientkick'', rq_params = [(''reasonid'', PNumber 5)],
     rq_rows = [[(''clid'', PNumber 1)], [(''clid'', PNumber 2)]], rq_passwords = []\<rparr>"

lemma request_reads_back_witness:
  "case encodeRequest sample_request id of Inl _ \<Rightarrow> \<not> valid_keys sample_request
   | Inr line \<Rightarrow> valid_keys sample_request"
proof -
  have "isCommandName (rq_command sample_request)" unfolding sample_request_def by code_simp
  from request_reads_back[OF this, of id] show ?thesis by (auto split: sum.splits)
qed

text \<open>The rows a line is expanded into hold together no more than 64 times the line.\<close>

lemma rows_bounded:
  "sum_list (map length (splitCommandRows line)) \<le> 64 * length line"
  by (rule splitCommandRows_total)

section \<open>Decompression and counting\<close>

text \<open>C11. A compressed command expands to exactly the length its header declares, which is never
  more than a mebibyte.\<close>

theorem decompressed_as_declared:
  assumes "decompress data = Inr out"
  shows "\<exists>h. parseQlzHeader data = Inr h \<and> length out = decompressedSize h \<and> length out \<le> 2 ^ 20"
  using decompress_length[OF assms] by blast

lemma decompressed_as_declared_witness:
  "\<exists>h. parseQlzHeader [0x04, 6, 3, 1, 2, 3] = Inr h \<and> length [1 :: byte, 2, 3] = decompressedSize h"
proof -
  have "decompress [0x04, 6, 3, 1, 2, 3] = Inr [1, 2, 3]"
    by (simp add: decompress_def parseQlzHeader_def Let_def MAX_DECOMPRESSED_SIZE_def)
  from decompressed_as_declared[OF this] show ?thesis by blast
qed

text \<open>Whatever datagrams a connection has carried, once the clock has passed its first minute the figures read from a counter are those of
  its record: all packets and bytes, the bytes of the last whole second, and the bytes of the last 60
  seconds with the one in progress, though the counter holds only 60 numbers.\<close>

lemma traffic_figures_true:
  assumes "sorted (map fst ds)" "\<forall>(t, n)\<in>set ds. t \<le> now" "60000 \<le> now"
  defines "h \<equiv> map (\<lambda>(t, n). (second_of t, n)) ds"
  shows "fst (counter_read now (added ds)) =
    \<lparr>tf_packets = length ds, tf_bytes = sum_list (map snd ds),
     tf_bytesLastSecond = bytes_in h (second_of now - 1),
     tf_minute = sum_list (map (bytes_in h) [second_of now - 59..<second_of now + 1])\<rparr>"
proof -
  have "60 \<le> second_of now" using second_of_mono[OF assms(3)] by (simp add: second_of_def)
  moreover have "snd \<circ> (\<lambda>(t, n). (second_of t, n)) = (snd :: real \<times> nat \<Rightarrow> nat)" by auto
  ultimately show ?thesis
    using counter_read_second[of "added ds" h now] added_models[OF assms(1,2)] by (simp add: h_def)
qed

lemma traffic_figures_true_witness:
  "tf_bytes (fst (counter_read 61000 (added [(0, 100), (60000, 7)]))) = 107 \<and>
     tf_packets (fst (counter_read 61000 (added [(0, 100), (60000, 7)]))) = 2"
  using traffic_figures_true[of "[(0, 100), (60000, 7)]" 61000] by simp

section \<open>Answers to commands\<close>

text \<open>C12. Whatever the server sends and in whatever order, each command is settled at most once, none
  that is settled is still waited for, and the code a command was handed is never handed out again,
  whatever has become of the command since.\<close>

theorem commands_settle_once:
  assumes "(tracker_step clid)\<^sup>*\<^sup>* new_tracker t"
    "(tracker_step clid)\<^sup>*\<^sup>* (snd (register spec cor echo t)) t'"
  shows "distinct (resolved_codes t') \<and> js_keys_distinct (ct_pending t') \<and>
    fst ` set (ct_pending t') \<inter> set (resolved_codes t') = {} \<and>
    fst (register spec' cor' echo' t') \<notin> fst ` set (ct_pending t') \<union> set (resolved_codes t') \<and>
    fst (register spec' cor' echo' t') \<noteq> fst (register spec cor echo t)"
proof -
  have "(tracker_step clid)\<^sup>*\<^sup>* new_tracker t'"
    using rtranclp_trans[OF rtranclp.rtrancl_into_rtrancl[OF assms(1) tracker_step.register] assms(2)] .
  from tracker_runs[OF this] register_fresh[OF tracker_runs[OF this]] register_never_again[OF assms(2)]
  show ?thesis by (auto simp: tracker_inv_def)
qed

lemma commands_settle_once_witness:
  "fst (register None None None (unregister 1 (snd (register None None None new_tracker)))) \<noteq> 1"
proof -
  let ?t = "snd (register None None None new_tracker)"
  have "(tracker_step 0)\<^sup>*\<^sup>* ?t (unregister 1 ?t)" by (rule r_into_rtranclp) (rule tracker_step.unregister)
  from commands_settle_once[OF rtranclp.rtrancl_refl this] show ?thesis
    by (simp add: register_def new_tracker_def Let_def)
qed

text \<open>Until it is settled or withdrawn, a command stays awaited, whatever else happens: none is
  silently forgotten.\<close>

lemma commands_not_forgotten:
  assumes "tracker_step clid t t'" "awaited rc t" "t' \<noteq> unregister rc t"
  shows "awaited rc t'"
  by (rule awaited_step[OF assms])

lemma commands_not_forgotten_witness:
  "awaited 1 (reset_tracker (Abandoned ''gone'') (snd (register None None None new_tracker)))"
proof -
  let ?t = "snd (register None None None new_tracker)"
  have a: "awaited 1 ?t" "reset_tracker (Abandoned ''gone'') ?t \<noteq> unregister 1 ?t"
    by (simp_all add: awaited_def register_def new_tracker_def Let_def unregister_def reset_tracker_def)
  show ?thesis by (rule commands_not_forgotten[OF tracker_step.reset a])
qed

text \<open>C13. A command answered in line, waiting once the welcome is over, gets of the rows that came since the
  \<open>error\<close> line before its own those that answer it, in their order, and nothing else: no row from before
  that line, and none of an answer some other command was matched with in between. Meanwhile commands may be
  sent, matched and given up, this one excepted, and the connection stays up.\<close>

theorem rows_go_to_their_command:
  assumes "(tracker_step clid)\<^sup>*\<^sup>* new_tracker t" "ct_welcomeComplete t"
    "map_of (ct_pending (error_line clid l t)) rc = Some p" "spec_correlated p = None"
    "Command_Given_Up rc \<notin> set es"
  shows "ct_resolved (resolve clid rc err (between_lines es (error_line clid l t))) =
    ct_resolved (between_lines es (error_line clid l t)) @
      [(rc, \<lparr>cr_err = err, cr_data = map br_params (filter (answers clid p) (rows_between es))\<rparr>)]"
  by (rule inline_gets_its_rows[OF assms])

lemma rows_go_to_their_command_witness:
  "\<exists>t. ct_buffer t \<noteq> [] \<and>
     ct_resolved (resolve 0 2 None (between_lines [Row_Came \<lparr>br_source = [], br_params = [''a'' \<mapsto> ''2'']\<rparr>]
       (error_line 0 (Some (1, None)) t))) =
     [(1, \<lparr>cr_err = None, cr_data = [[''a'' \<mapsto> ''1'']]\<rparr>), (2, \<lparr>cr_err = None, cr_data = [[''a'' \<mapsto> ''2'']]\<rparr>)]"
proof -
  let ?reg = "\<lambda>t. snd (register None None None t)"
  let ?t = "buffer [''a'' \<mapsto> ''1''] [] (?reg (?reg (signalWelcomeComplete new_tracker)))"
  let ?p = "\<lparr>pc_spec = None, pc_correlation = None, pc_echo = None, pc_correlated = [], pc_settled = None\<rparr>"
  have run: "(tracker_step 0)\<^sup>*\<^sup>* new_tracker ?t"
    by (meson rtranclp.rtrancl_into_rtrancl rtranclp.rtrancl_refl tracker_step.register tracker_step.row tracker_step.welcomed)
  note defs = register_def buffer_def signalWelcomeComplete_def new_tracker_def Let_def error_line_def resolve_def
    settle_command_def spec_correlated_def
  have "ct_welcomeComplete ?t" "map_of (ct_pending (error_line 0 (Some (1, None)) ?t)) 2 = Some ?p"
    "spec_correlated ?p = None"
    by (simp_all add: defs)
  from rows_go_to_their_command[OF run this,
      of "[Row_Came \<lparr>br_source = [], br_params = [''a'' \<mapsto> ''2'']\<rparr>]" None]
  show ?thesis by (intro exI[of _ ?t]) (simp add: answers_def defs)
qed

text \<open>An answer that is matched by a field of the request settles its command alike whether it
  comes before the command's own error line or after it.\<close>

lemma answer_in_either_order:
  assumes "only_taker name ps rc p t" "\<not> reports_failure name ps p" "pc_correlated p = []" "pc_settled p = None"
  shows "ct_resolved (resolve clid rc None (offerCorrelated name ps t)) =
      ct_resolved (offerCorrelated name ps (resolve clid rc None t)) \<and>
    ct_pending (resolve clid rc None (offerCorrelated name ps t)) =
      ct_pending (offerCorrelated name ps (resolve clid rc None t)) \<and>
    ct_resolved (resolve clid rc None (offerCorrelated name ps t)) =
      ct_resolved t @ [(rc, \<lparr>cr_err = None,
        cr_data = map br_params (filter (answers clid p) (ct_buffer t)) @ [ps]\<rparr>)]"
  by (rule correlated_order[OF assms])

lemma answer_in_either_order_witness:
  "\<exists>t ps. ct_resolved (resolve 0 1 None (offerCorrelated ''n'' ps t)) =
     ct_resolved (offerCorrelated ''n'' ps (resolve 0 1 None t)) \<and>
     ct_resolved (resolve 0 1 None (offerCorrelated ''n'' ps t)) = [(1, \<lparr>cr_err = None, cr_data = [ps]\<rparr>)]"
proof -
  let ?spec = "correlating [''n''] ''k'' None"
  let ?t = "snd (register (Some ?spec) (Some ''7'') None new_tracker)" and ?ps = "[''k'' \<mapsto> ''7'']"
  let ?p = "\<lparr>pc_spec = Some ?spec, pc_correlation = Some ''7'', pc_echo = None, pc_correlated = [], pc_settled = None\<rparr>"
  have t: "ct_pending ?t = [(1, ?p)]" "ct_buffer ?t = []" "ct_resolved ?t = []"
    by (simp_all add: register_def new_tracker_def correlating_def Let_def)
  have "only_taker ''n'' ?ps 1 ?p ?t"
    unfolding only_taker_def t(1) by (simp add: js_keys_distinct_def offered_to_def spec_correlated_def correlating_def)
  moreover have "\<not> reports_failure ''n'' ?ps ?p"
    by (simp add: reports_failure_def spec_correlated_def correlating_def)
  ultimately show ?thesis
    using answer_in_either_order[of "''n''" ?ps 1 ?p ?t 0] t by auto
qed

section \<open>The channel tree\<close>

text \<open>C14. Any sequence of channel events applies to the end, whatever it says, and leaves a tree: every
  channel listed once, under its parent, no channel below itself. Inconsistency, once found, stays.\<close>

theorem channel_events_keep_a_tree:
  assumes "tree_inv {} d"
  shows "\<exists>d'. apply_events base es d = Some d' \<and> tree_inv {} d' \<and> (dr_consistent d' \<longrightarrow> dr_consistent d)"
  by (rule apply_events_total[OF assms])

lemma channel_events_keep_a_tree_witness:
  "\<exists>d'. apply_events Map.empty [Created 1 0 \<lparr>cg_order = Some 0, cg_fields = Map.empty\<rparr>, Deleted 1] empty_tree = Some d'
     \<and> tree_inv {} (d' :: string draft)"
  using channel_events_keep_a_tree[OF tree_inv_empty] by blast

text \<open>A channel moved behind a sibling is listed right there under its new parent, everything else
  stays where it was, and the tree stays as consistent as it was.\<close>

lemma moved_where_told:
  assumes "tree_inv {} d" "chan d i = Some c" "p = TOP \<or> chan d p \<noteq> None" "\<not> below d p i"
    "filter (\<lambda>s. s \<noteq> i) (kid d p) = xs @ ys"
  shows "\<exists>d'. move i p (last_of xs) d = Some d' \<and> kid d' p = xs @ i # ys \<and>
    (\<forall>q. q \<noteq> p \<longrightarrow> kid d' q = filter (\<lambda>s. s \<noteq> i) (kid d q)) \<and> dr_consistent d' = dr_consistent d"
  by (rule move_placed[OF assms])

definition two_channels :: "string draft" where
  "two_channels = \<lparr>dr_channels = [(1, \<lparr>ch_id = 1, ch_parent = TOP, ch_order = TOP, ch_fields = Map.empty\<rparr>),
      (2, \<lparr>ch_id = 2, ch_parent = TOP, ch_order = 1, ch_fields = Map.empty\<rparr>)],
    dr_kids = [(TOP, [1, 2])], dr_consistent = True\<rparr>"

lemma two_channels_tree: "tree_inv {} two_channels"
  by (auto simp: tree_inv_def listed_ok_def channels_ok_def ranked_def two_channels_def kid_def TOP_def
      split: if_splits)

lemma moved_where_told_witness: "\<exists>d'. move 1 TOP 2 two_channels = Some d' \<and> kid d' TOP = [2, 1]"
proof -
  note t = two_channels_tree
  have "\<not> below two_channels TOP 1" by (subst below_iff) (simp add: two_channels_def TOP_def)
  moreover have "filter (\<lambda>s. s \<noteq> 1) (kid two_channels TOP) = [2] @ []" by (simp add: two_channels_def kid_def)
  moreover have "chan two_channels 1 = Some \<lparr>ch_id = 1, ch_parent = TOP, ch_order = TOP, ch_fields = Map.empty\<rparr>"
    by (simp add: two_channels_def)
  ultimately show ?thesis using moved_where_told[OF t, of 1 _ TOP "[2]" "[]"] by (auto simp: last_of_def)
qed

text \<open>C15. A tree can be built from any list of channels, and is one; built from the channels of a tree,
  in whatever order they are listed, it is that tree again, and consistent.\<close>

theorem listing_gives_the_tree_back:
  assumes "tree_inv {} d" "distinct cs" "set cs = {c. \<exists>i. chan d i = Some c}"
  shows "kid (from_channels cs) = kid d \<and> chan (from_channels cs) = chan d \<and>
    dr_consistent (from_channels cs) \<and> tree_inv {} (from_channels es)"
  using from_channels_rebuilds[OF assms(1)] from_channels_total assms(2,3) by (auto simp: listing_of_def)

lemma listing_gives_the_tree_back_witness:
  "kid (from_channels (rev (map snd (dr_channels two_channels)))) TOP = [1, 2] \<and>
   tree_inv {} (from_channels [\<lparr>ch_id = 3, ch_parent = 3, ch_order = 9, ch_fields = Map.empty\<rparr> :: string channel])"
proof -
  let ?cs = "rev (map snd (dr_channels two_channels))"
  have "set ?cs = {c. \<exists>i. chan two_channels i = Some c}"
    by (auto simp: two_channels_def split: if_splits intro: exI[of _ "1 :: nat"] exI[of _ "2 :: nat"])
  moreover have "distinct ?cs" by (simp add: two_channels_def)
  moreover have "kid two_channels TOP = [1, 2]" by (simp add: two_channels_def kid_def)
  ultimately show ?thesis using listing_gives_the_tree_back[OF two_channels_tree, of ?cs
      "[\<lparr>ch_id = 3, ch_parent = 3, ch_order = 9, ch_fields = Map.empty\<rparr> :: string channel]"]
    by (simp only: simp_thms)
qed

section \<open>The line streams of ServerQuery\<close>

text \<open>C16. However the bytes of a ServerQuery stream are cut into chunks, the lines handed over are the
  stream's lines in their order, without the two of the banner, each without the carriage returns
  around it, and the bytes received are counted.\<close>

theorem lines_whatever_the_chunks:
  assumes "\<forall>p\<in>set (split_on 0x0A (concat chunks)). length p \<le> MAX_LINE_BYTES"
  shows "lines_of (qs_events (feed decode chunks (listen (new_transport d)))) =
      drop 2 (map (\<lambda>p. trimCarriageReturns (decode p)) (butlast (split_on 0x0A (concat chunks)))) \<and>
    qs_received (feed decode chunks (listen (new_transport d))) = length (concat chunks)"
  using feed_lines[OF assms] by (simp add: line_text_def[abs_def])

lemma lines_whatever_the_chunks_witness:
  "lines_of (qs_events (feed (map (\<lambda>b. if b = 104 then CHR ''h'' else if b = 105 then CHR ''i'' else CHR 0x0D)) [[10], [10, 104], [105, 13, 10]] (listen (new_transport True)))) = [''hi'']"
proof -
  have "\<forall>p\<in>set (split_on 0x0A (concat [[10], [10, 104], [105, 13, 10 :: byte]])). length p \<le> MAX_LINE_BYTES"
    by (simp add: MAX_LINE_BYTES_def)
  from lines_whatever_the_chunks[OF this] show ?thesis
    by (simp add: trimCarriageReturns_def)
qed

text \<open>C17. A transport reports its end once, when it ends and not before; after its end it hands over,
  writes and reports nothing, and once it is closing it hands over no line, whatever still arrives.\<close>

theorem transport_ends_once:
  assumes "(transport_step decode byteLength)\<^sup>*\<^sup>* (new_transport d) t"
    "(transport_step decode byteLength)\<^sup>*\<^sup>* t t'"
  shows "length (reports (qs_events t)) = (if qs_ended t then 1 else 0) \<and>
    (qs_ended t \<longrightarrow> qs_ended t' \<and> qs_events t' = qs_events t) \<and>
    (qs_closing t \<longrightarrow> lines_of (qs_events t') = lines_of (qs_events t))"
  using transport_runs[OF assms(1)] ended_runs[OF assms(2)] closing_runs[OF assms(2)]
  by (auto simp: transport_ok_def)

lemma transport_ends_once_witness:
  "qs_events (handleData (\<lambda>_. []) [10, 10, 10] (handleClose (new_transport True))) =
     qs_events (handleClose (new_transport True)) \<and> reports (qs_events (handleClose (new_transport True))) = [None]"
proof -
  let ?step = "transport_step (\<lambda>_. []) length" and ?t = "handleClose (new_transport True)"
  have "?step\<^sup>*\<^sup>* (new_transport True) ?t" "?step\<^sup>*\<^sup>* ?t (handleData (\<lambda>_. []) [10, 10, 10] ?t)"
    by (rule r_into_rtranclp, rule transport_step.intros)+
  from transport_ends_once[OF this] show ?thesis
    by (simp add: handleClose_def new_transport_def happen_def)
qed

section \<open>The commands of the query client\<close>

text \<open>C18. Whatever happens to a query client, a connection lost and made again included, its calls are
  settled in the order they were made, each once: those settled, the one running and those waiting are
  all the calls there were, in their order.\<close>

theorem query_calls_in_order:
  assumes "qc = fold (query_step number) evs (new_query_client kind)"
  shows "settled_ids qc @ running_ids qc @ map wa_id (qc_waiting qc) = [0..<qc_next qc]"
  using in_order_runs[OF in_order_new] assms by (simp add: in_order_def call_ids_def)

lemma query_calls_in_order_witness:
  "\<exists>qc. qc = fold (query_step (\<lambda>_. None)) [Ev_Exec ''whoami'', Ev_Exec ''version'', Ev_Turn] (new_query_client Tcp) \<and>
     settled_ids qc @ running_ids qc @ map wa_id (qc_waiting qc) = [0..<qc_next qc]"
  using query_calls_in_order[OF refl] by blast

text \<open>C19. Against a server that answers in order, a command that succeeds gets the rows the server
  wrote for it, all of them and no others, though commands before it timed out, were cancelled or could
  not be sent; and the client knows how many answers it still has to discard. Rows that come after
  their answer's end are allowed in two places only: while the client holds that answer back for them,
  and, once, for a create it stopped holding when its timer ran out, with the key the client remembers,
  which no row of another answer may then have alone. Left out is the late row of a create the caller
  cancelled: for it the claim is false, as \<open>cancelled_create_leaks_row\<close> shows.\<close>

theorem query_answers_its_own:
  assumes "wire_steps number evs (query_connected kind, no_debts) = Some (qc, sv)"
  shows "(\<forall>i rows. Act_Settle i (Inr rows) \<in> set (qc_log qc) \<longrightarrow> rows = sv_answers sv i \<and> i \<notin> set (sv_owed sv)) \<and>
    qc_abandoned qc = int (length (filter (\<lambda>i. i \<in> set (settled_ids qc)) (sv_owed sv)))"
  using own_answers[OF assms] debts_counted[OF assms] by blast

lemma query_answers_its_own_witness:
  "\<exists>qc sv. wire_steps (\<lambda>_. None) late_answer (query_connected Ssh, no_debts) = Some (qc, sv) \<and>
     sv_answers sv 1 = [[''client_id'' \<mapsto> ''3'']]"
proof -
  obtain qc sv where run: "wire_steps (\<lambda>_. None) late_answer (query_connected Ssh, no_debts) = Some (qc, sv)"
    and got: "Act_Settle 1 (Inr [[''client_id'' \<mapsto> ''3'']]) \<in> set (qc_log qc)"
    using late_answer_run by blast
  with query_answers_its_own[OF run] have "sv_answers sv 1 = [[''client_id'' \<mapsto> ''3'']]" by metis
  with run show ?thesis by blast
qed

text \<open>In every state a session reaches, the command that is running is settled and out of the way when
  its time is up.\<close>

lemma query_commands_end:
  assumes "qs = fold (session_step number opt) evs (new_session kind)" "qc_run (qs_client qs) = Some r"
  shows "qc_run (finish_run (timeout (qs_client qs))) = None \<and>
    ru_id r \<in> set (settled_ids (finish_run (timeout (qs_client qs))))"
  using timeout_ends[OF _ assms(2)] session_runs[of number opt evs kind] assms(1)
  by (simp add: session_okD)

lemma query_commands_end_witness:
  "qc_run (finish_run (timeout (qs_client listing_session))) = None"
  using query_commands_end[OF listing_session_def] listing_session_state(5) by blast

text \<open>C20. The row of a create that comes too late is dropped when the client gave up waiting for it,
  but not when the caller cancelled the create: then the next command gets it as a row of its own.\<close>

theorem cancelled_create_leaks_row:
  assumes "qc_pending qc = Some p" "pe_held p = Some h" "la_keys (he_late h) = [k]" "\<not> la_any (he_late h)"
    "pe_rows p = []" "qc_strayKey qc = None" "qc_abandoned qc = 0" "qc_waiting qc = []"
    "qc_run qc = Some r" "ru_id r = pe_id p" "ru_outcome r = None" "ru_gave_up r = None"
    "qc_transport qc" "\<not> qc_closed qc" "\<not> qc_down qc"
    and "is_row_line row" "splitRows (trim_cr row) = [row]" "row_keys row = [k]" "parseCommand row = Some c"
    and "\<forall>late. lateRowsOf (command_name line) = Some late \<longrightarrow> k \<notin> set (la_keys late)"
  shows "then_runs number line row (held_timer qc) = Some [] \<and>
    then_runs number line row (abort_run (Given_Up reason) qc) = Some [cmd_params c]"
  using cancelled_row_leaks[OF assms] by blast

lemma cancelled_create_leaks_row_witness:
  "then_runs (\<lambda>_. None) ''whoami'' ''cid=7'' (abort_run (Given_Up ''no'') held_create) = Some [[''cid'' \<mapsto> ''7'']]"
proof -
  obtain p h r where s: "qc_pending held_create = Some p" "pe_held p = Some h" "la_keys (he_late h) = [''cid'']"
    "\<not> la_any (he_late h)" "pe_rows p = []" "qc_run held_create = Some r" "ru_id r = pe_id p"
    "ru_outcome r = None" "ru_gave_up r = None"
    using held_create_state(1) by blast
  have "row_keys ''cid=7'' = [''cid'']" by (simp add: row_keys_def part_keys_def codec_eval)
  then show ?thesis
    using cancelled_create_leaks_row[OF s(1-5) held_create_state(2-4) s(6-9) held_create_state(5-7)
        sample_row_lines(2) _ _ sample_lines(5), of "''whoami''" "\<lambda>_. None" "''no''"]
    by (simp add: sample_splits sample_late sample_names)
qed

text \<open>C21. An attempt to connect that was given up on ends the one made after it: when its transport
  opens, or fails to, while the newer attempt is connecting, the client is disconnected, and the newer
  attempt fails in its turn when its own transport opens.\<close>

theorem stale_attempt_ends_newer:
  assumes "qs = fold (session_step number opt) evs (new_session kind)" "map_of (qs_attempts qs) old = Some Opening"
    "map_of (qs_attempts qs) g = Some Opening" "g = qc_generation (qs_client qs)" "old \<noteq> g"
    "qc_status (qs_client qs) = Q_Connecting"
    and "qs' = opened opt old notifications qs \<or> qs' = open_failed old reason qs"
  shows "qc_status (qs_client qs') = Q_Disconnected \<and>
    last (qs_results (opened opt g notifications qs')) = (g, Inl (Not_Connected None))"
proof -
  have old: "old \<noteq> qc_generation (qs_client qs)" using assms(4,5) by simp
  have ok: "session_ok qs" unfolding assms(1) by (rule session_runs)
  note k = stale_attempt_kills[OF ok assms(2) old assms(6,7)]
  show ?thesis using k(1) stale_attempt_refuses[OF _ k(1), of g] k(3) assms(3,4) by simp
qed

lemma stale_attempt_ends_newer_witness:
  "qc_status (qs_client (open_failed 1 ''ETIMEDOUT'' two_attempts)) = Q_Disconnected"
  using stale_attempt_ends_newer[OF two_attempts_def two_attempts_state(2,3), of "open_failed 1 ''ETIMEDOUT'' two_attempts"
      True "''ETIMEDOUT''"] two_attempts_state(4,5) by simp

text \<open>C22. When the connection closes while a query client that is connecting lists the clients, its
  last step, the failed listing is passed over and the client ends up connected with no connection,
  and says so to its caller.\<close>

theorem connected_without_connection:
  assumes "qs = fold (session_step number opt) evs (new_session kind)" "map_of (qs_attempts qs) g = Some (Awaiting i Set_List [])"
    "g = qc_generation (qs_client qs)" "qc_status (qs_client qs) = Q_Connecting"
    "qc_run (qs_client qs) = Some r" "ru_id r = i" "ru_outcome r = None" "ru_gave_up r = None"
    "\<not> qc_down (qs_client qs)"
    and "qs' = continue_attempt number g (on_client finish_run (on_client (query_handleClose error) qs))"
  shows "qc_status (qs_client qs') = Q_Connected \<and> \<not> qc_transport (qs_client qs') \<and> qc_closed (qs_client qs') \<and>
    last (qs_results qs') = (g, Inr ())"
proof -
  have "session_ok qs" unfolding assms(1) by (rule session_runs)
  from connected_on_nothing[OF this assms(2-)] show ?thesis by blast
qed

lemma connected_without_connection_witness:
  "\<exists>qs'. qs' = continue_attempt (\<lambda>_. None) 1 (on_client finish_run
       (on_client (query_handleClose (Some ''ECONNRESET'')) listing_session)) \<and>
     qc_status (qs_client qs') = Q_Connected \<and> \<not> qc_transport (qs_client qs')"
proof -
  obtain r where "qc_run (qs_client listing_session) = Some r" "ru_id r = 4" "ru_outcome r = None" "ru_gave_up r = None"
    using listing_session_state(5) by blast
  then show ?thesis
    using connected_without_connection[OF listing_session_def listing_session_state(2) _ listing_session_state(4) _ _ _ _
        listing_session_state(6) refl] listing_session_state(3) by auto
qed

section \<open>Reconnecting\<close>

text \<open>A backoff policy the client accepts gives delays that are never negative, never over its
  ceiling, and within the jitter of the exponential delay, which is never under the first delay.\<close>

lemma delays_within_policy:
  assumes "resolveBackoffPolicy opts = Inr p" "0 \<le> r" "r < 1"
  shows "0 \<le> jitteredDelay p n r \<and> jitteredDelay p n r \<le> round_half_up (maxDelayMs p) \<and>
    round_half_up (capped_delay p n * (1 - max 0 (jitter p))) \<le> jitteredDelay p n r \<and>
    jitteredDelay p n r \<le> round_half_up (capped_delay p n * (1 + max 0 (jitter p))) \<and>
    0 < initialDelayMs p \<and> initialDelayMs p \<le> capped_delay p n \<and> capped_delay p n \<le> maxDelayMs p"
proof -
  have ok: "policy_ok p" using resolved_policy[OF assms(1)] by blast
  show ?thesis using jitteredDelay_bounds[OF ok assms(2,3), of n] capped_delay_bounds[OF ok, of n] ok
    by (simp add: policy_ok_def)
qed

lemma delays_within_policy_witness:
  "\<exists>p. resolveBackoffPolicy [] = Inr p \<and> 0 \<le> jitteredDelay p 3 0 \<and> jitteredDelay p 3 0 \<le> 60000"
proof -
  obtain p where p: "resolveBackoffPolicy [] = Inr p" "maxDelayMs p = 60000"
    by (simp add: resolveBackoffPolicy_def settings_def given_def defaultBackoffPolicy_def requireNumber_def
        bind_result_def)
  from delays_within_policy[OF p(1), of 0 3] p show ?thesis by (auto simp: round_half_up_def)
qed

text \<open>C23. After \<^verbatim>\<open>disconnect()\<close> the client is disconnected and stays so, and its loop makes no further
  attempt and schedules none, until the caller connects again.\<close>

theorem disconnect_is_final:
  assumes "(client_step options)\<^sup>*\<^sup>* new_client c" "(own_step options)\<^sup>*\<^sup>* (disconnect_begins c) c'"
  shows "cl_status c' = Disconnected \<and> attempts c' = attempts c"
proof -
  have "client_step options c (disconnect_begins c)" by (intro client_step.own own_step.disconnect)
  then have "stop_ok (disconnect_begins c)" using stop_runs assms(1) by (meson rtranclp.rtrancl_into_rtrancl)
  moreover have "cl_stopped (disconnect_begins c)" "attempts (disconnect_begins c) = attempts c"
    by (simp_all add: disconnect_begins_def Let_def attempts_def)
  ultimately show ?thesis using stays_down_runs[OF assms(2)] by simp
qed

lemma disconnect_is_final_witness:
  "attempts (markConnected (wait_ends (disconnect_begins (connect_by_hand (new_client :: nat client))))) = []"
proof -
  let ?c = "connect_by_hand (new_client :: nat client)"
  have "(client_step None)\<^sup>*\<^sup>* new_client ?c" by (rule r_into_rtranclp, rule client_step.intros)
  moreover have "(own_step None)\<^sup>*\<^sup>* (disconnect_begins ?c) (markConnected (wait_ends (disconnect_begins ?c)))"
    by (rule converse_rtranclp_into_rtranclp[OF own_step.wait_ends r_into_rtranclp[of "own_step None",
          OF own_step.connected]])
  ultimately have "attempts (markConnected (wait_ends (disconnect_begins ?c))) = attempts ?c"
    using disconnect_is_final by blast
  moreover have "attempts ?c = []" by (simp add: connect_by_hand_def new_client_def begin_attempt_def attempts_def)
  ultimately show ?thesis by (rule trans)
qed

text \<open>C24. What the end of a session announces is what happens: with no reconnect loop running, it says that
  another attempt follows exactly when a loop starts and waits for one; where the loop's own attempt has
  made the session, exactly when the loop, once it resumes, goes on to wait for the next. (It says nothing
  of a session the caller made by hand while the loop was waiting: there the two differ, see
  \<open>hand_made_drop\<close>.)\<close>

theorem drop_announces_what_follows:
  assumes "(client_step options)\<^sup>*\<^sup>* new_client c" "cl_status c = Connected"
  shows "\<exists>will. Announced (Some e) will
        \<in> set (drop (length (cl_events c)) (cl_events (handleConnectionClosed options random e c))) \<and>
    (cl_phase c = No_Loop \<longrightarrow>
       cl_phase (handleConnectionClosed options random e c) = (if will then Waiting 1 else No_Loop)) \<and>
    (\<forall>a. cl_phase c = Attempting a (Some (Inr ())) \<longrightarrow>
       (\<exists>cf. options = Some cf \<and>
          cl_phase (loop_resumes cf random' dropped (handleConnectionClosed options random e c)) =
            (if will then Waiting (a + 1) else No_Loop)))"
  by (rule drop_acts_as_announced[OF client_runs[OF assms(1)] stop_runs[OF assms(1)] assms(2)])

definition sample_policy :: policy where
  "sample_policy = \<lparr>initialDelayMs = 1000, maxDelayMs = 60000, factor = 2, jitter = 0, maxAttempts = 0\<rparr>"

definition connected_client :: "nat client" where
  "connected_client = markConnected (connect_by_hand new_client)"

lemma connected_client_reached: "(client_step options)\<^sup>*\<^sup>* new_client connected_client"
  unfolding connected_client_def
  by (rule converse_rtranclp_into_rtranclp[OF client_step.by_hand r_into_rtranclp[of "client_step options",
        OF client_step.own[OF own_step.connected]]])

lemma drop_announces_what_follows_witness:
  "cl_phase connected_client = No_Loop \<and>
   (\<exists>will. cl_phase (handleConnectionClosed (Some \<lparr>cf_policy = sample_policy, cf_shouldRetry = (\<lambda>_ _ _. Some True)\<rparr>) 0 7
      connected_client) = (if will then Waiting 1 else No_Loop))"
proof -
  have "cl_status connected_client = Connected" "cl_phase connected_client = No_Loop"
    by (simp_all add: connected_client_def markConnected_def connect_by_hand_def begin_attempt_def
        new_client_def settle_attempt_def)
  moreover from this(1)
  have "\<exists>will. cl_phase connected_client = No_Loop \<longrightarrow>
      cl_phase (handleConnectionClosed (Some \<lparr>cf_policy = sample_policy, cf_shouldRetry = (\<lambda>_ _ _. Some True)\<rparr>) 0 7
        connected_client) = (if will then Waiting 1 else No_Loop)"
    using drop_announces_what_follows[OF connected_client_reached] by blast
  ultimately show ?thesis by blast
qed

text \<open>One announcement does not hold: a \<^verbatim>\<open>connect()\<close> of the caller's own that fails while the
  loop waits announces that nothing follows, as the rule was asked, and the loop's attempt follows.\<close>

lemma failed_connect_misannounced:
  assumes "cl_phase c = Waiting a" "cl_reconnecting c" "cl_status c = Disconnected" "\<not> cl_leaving c"
    and "\<forall>k n. cf_shouldRetry cf k e n = Some False"
    and "\<forall>x. cl_retryAnswer c = Some x \<longrightarrow> ra_err x \<noteq> e"
  shows "last (cl_events (failConnection (Some cf) e (connect_by_hand c))) = Announced (Some e) False \<and>
    last (cl_events (wait_ends (failConnection (Some cf) e (connect_by_hand c)))) = Attempt_Made a"
  by (rule by_hand_contradicts_loop[OF assms])

lemma failed_connect_misannounced_witness:
  "\<exists>cf c. (client_step (Some cf))\<^sup>*\<^sup>* new_client c \<and>
     last (cl_events (failConnection (Some cf) (7 :: nat) (connect_by_hand c))) = Announced (Some 7) False \<and>
     last (cl_events (wait_ends (failConnection (Some cf) 7 (connect_by_hand c)))) = Attempt_Made 1"
proof -
  let ?cf = "\<lparr>cf_policy = sample_policy, cf_shouldRetry = \<lambda>k e n. Some (e \<noteq> 7)\<rparr> :: nat reconnect_config"
  let ?c = "handleConnectionClosed (Some ?cf) 0 1 connected_client"
  have run: "(client_step (Some ?cf))\<^sup>*\<^sup>* new_client ?c"
    by (rule rtranclp.rtrancl_into_rtrancl[OF connected_client_reached client_step.own[OF own_step.closed]])
  have c: "cl_phase ?c = Waiting 1" "cl_reconnecting ?c" "cl_status ?c = Disconnected" "\<not> cl_leaving ?c"
      "\<forall>x. cl_retryAnswer ?c = Some x \<longrightarrow> ra_err x \<noteq> 7"
    by (simp_all add: connected_client_def markConnected_def connect_by_hand_def begin_attempt_def
        new_client_def settle_attempt_def handleConnectionClosed_def willReconnect_def sample_policy_def
        scheduleReconnect_def loop_head_def tell_def)
  have "\<forall>k n. cf_shouldRetry ?cf k 7 n = Some False" by simp
  from failed_connect_misannounced[OF c(1-4) this c(5)] run show ?thesis by blast
qed

section \<open>Licenses and the keys derived from them\<close>

text \<open>A license that is accepted covers every byte it was read from: it is the version byte and up
  to eight blocks, each whose hash is over everything behind its kind byte.\<close>

lemma license_covers_its_bytes:
  assumes "parseLicenses decode sha512 data = Inr blocks"
  shows "\<exists>parts. data = 1 # concat parts \<and> length blocks \<le> 8 \<and> list_all2 (block_of_bytes sha512) parts blocks"
  by (rule parseLicenses_covers[OF assms])

lemma license_covers_its_bytes_witness:
  "\<exists>blocks parts. (1 # (replicate 33 0 @ 32 # replicate 8 0) :: bytes) = 1 # concat parts \<and> length blocks = 1 \<and>
     list_all2 (block_of_bytes (\<lambda>m. replicate 64 0)) parts blocks"
proof -
  define data :: bytes where "data = 1 # (replicate 33 0 @ 32 # replicate 8 0)"
  have at: "data ! 34 = 32" "data ! 1 = 0" "length data = 43" by (simp_all add: data_def nth_append)
  have t: "license_time (drop 1 data) 38 = license_time (drop 1 data) 34"
    by (simp add: license_time_def data_def)
  obtain b where b: "parseLicenseBlock (\<lambda>_. []) (\<lambda>m. replicate 64 0) (drop 1 data) = Inr (b, 42)"
    using at t by (simp add: parseLicenseBlock_def MIN_BLOCK_LEN_def parseBlockPayload_def block_type_of_def Let_def)
  have "parseLicenses (\<lambda>_. []) (\<lambda>m. replicate 64 0) data = Inr [b]"
    using at b by (simp add: parseLicenses_def parse_blocks.simps MAX_LICENSE_BLOCKS_def)
      (simp add: data_def)
  from license_covers_its_bytes[OF this] show ?thesis unfolding data_def
    by (metis length_Cons list.size(3) One_nat_def)
qed

text \<open>The key a license gives is the encoding of the root key's point with each block's point times
  its clamped hash added, although the code multiplies negated points and scalars over the order.\<close>

lemma derived_key_is_chain_sum:
  assumes "curve_laws cv" "2 ^ 252 < cv_order cv" "cv_fromBytes cv LICENSE_ROOT_KEY = Some base"
    "list_all (\<lambda>(b, pub). length (lb_hash b) = 32 \<and> cv_fromBytes cv (lb_key b) = Some pub) ps" "ps \<noteq> []"
    "list_all (sign_encodes cv) (chain_sums cv ps base)"
  shows "deriveKey cv (map fst ps) = Some (cv_toBytes cv (last (chain_sums cv ps base)))"
  unfolding deriveKey_def by (rule derive_round_value[OF assms(1-4,6,5)])

lemma derived_key_is_chain_sum_witness:
  "deriveKey z3_curve [z3_block] = Some (replicate 31 0 @ [0x80])"
proof -
  have p: "cv_order z3_curve = 2 ^ 252 + 5" "cv_fromBytes z3_curve = z3_fromBytes"
      "cv_toBytes z3_curve = z3_toBytes" "cv_negate z3_curve = z3_negate" by (simp_all add: z3_curve_def)
  have "cv_fromBytes z3_curve LICENSE_ROOT_KEY = Some Plus_Point"
    by (simp add: p z3_fromBytes_def LICENSE_ROOT_KEY_def)
  moreover have "list_all (\<lambda>(b, pub). length (lb_hash b) = 32 \<and> cv_fromBytes z3_curve (lb_key b) = Some pub)
      [(z3_block, Plus_Point)]" by (simp add: z3_block_def p z3_fromBytes_def)
  moreover have "sign_encodes z3_curve Minus_Point"
    by (simp add: sign_encodes_def p flip_sign_def CURVE25519_KEY_SIZE_def list_update_append nth_append
        SHARED_SIGN_BIT_def)
  ultimately show ?thesis
    using derived_key_is_chain_sum[OF z3_laws, of Plus_Point "[(z3_block, Plus_Point)]"]
    by (simp add: p z3_round)
qed

text \<open>C25. The client and a server that has the scalar of the license's key compute the same secret: the
  client from the server's key and its private key, the server from the public key it was sent.\<close>

theorem both_sides_share_the_secret:
  assumes "curve_laws cv" "2 ^ 252 < cv_order cv" "odd (cv_order cv)"
    "times cv (cv_base cv) (cv_order cv) = cv_zero cv"
    "length random = 32" "generateTemporaryKey cv random = Some (public, private)"
    "cv_fromBytes cv serverKey = Some (times cv (cv_base cv) k)" "length serverKey = 32"
    "sign_encodes cv (times cv (times cv (cv_base cv) k) (bytesToBigIntLE private))"
  shows "\<exists>P. cv_fromBytes cv public = Some P \<and>
    getSharedSecret2 cv sha512 serverKey private = Some (sha512 (cv_toBytes cv (times cv P k)))"
  by (rule secrets_agree[OF assms])

lemma both_sides_share_the_secret_witness:
  "\<exists>public private P. generateTemporaryKey z3_curve (replicate 32 0) = Some (public, private) \<and>
     cv_fromBytes z3_curve public = Some P \<and>
     getSharedSecret2 z3_curve (\<lambda>m. m) (replicate 32 0) private = Some (cv_toBytes z3_curve (times z3_curve P 1))"
proof -
  obtain public where g: "generateTemporaryKey z3_curve (replicate 32 0) = Some (public, clampScalar (replicate 32 0))"
    by (simp add: generateTemporaryKey_def Let_def z3_curve_def)
  have base: "times z3_curve (cv_base z3_curve) (cv_order z3_curve) = cv_zero z3_curve" by (rule z3_base_order)
  have server: "cv_fromBytes z3_curve (replicate 32 0) = Some (times z3_curve (cv_base z3_curve) 1)"
    by (simp add: z3_curve_def z3_fromBytes_def)
  have sign: "sign_encodes z3_curve (times z3_curve (times z3_curve (cv_base z3_curve) 1)
      (bytesToBigIntLE (clampScalar (replicate 32 0))))" by (rule z3_sign)
  have "odd (cv_order z3_curve)" "2 ^ 252 < cv_order z3_curve" by (simp_all add: z3_curve_def)
  from both_sides_share_the_secret[OF z3_laws this(2,1) base _ g server _ sign, of "\<lambda>m. m"] g
  show ?thesis by auto
qed

section \<open>The view of the server\<close>

text \<open>Whatever fields a row of the server has, and whatever they hold, it is read as a client and as
  a channel: no reader throws, and every id read is in the range of its field.\<close>

lemma every_row_is_read:
  "(\<exists>e. parseClient row = Inr e \<and> 0 \<le> en_id e \<and> en_id e \<le> 65535 \<and> fields_ok (en_fields e)) \<and>
   (\<exists>e. parseChannel row = Inr e \<and> 0 \<le> en_id e \<and> en_id e \<le> MAX_UINT64 \<and> fields_ok (en_fields e))"
  using parseClient_total[of row] parseChannel_total[of row] by (rule conjI)

text \<open>C26. The record of a client with the changes of an update applied is the record its whole row would
  give with the update's fields written over it, for every update that names its channel as the row does.\<close>

theorem update_is_reread:
  assumes "channel_key_ok old upd"
  shows "\<exists>e c e'. parseClient old = Inr e \<and> parseClientChanges upd = Inr c \<and>
    parseClient (old ++ upd) = Inr e' \<and> en_fields e' = en_fields (applyClientChanges e c)"
proof -
  obtain c where "parseClientChanges upd = Inr c"
    using readFields_total[OF client_table_ok, of upd True] by (auto simp: parseClientChanges_def)
  with client_change_reread[OF assms] show ?thesis
    using parseClient_total[of old] parseClient_total[of "old ++ upd"] by blast
qed

lemma update_is_reread_witness:
  "\<exists>e c e'. parseClient [''clid'' \<mapsto> ''7'', ''cid'' \<mapsto> ''1''] = Inr e \<and>
     parseClientChanges [''client_nickname'' \<mapsto> ''b'', ''ctid'' \<mapsto> ''2'', ''cid'' \<mapsto> ''3''] = Inr c \<and>
     parseClient ([''clid'' \<mapsto> ''7'', ''cid'' \<mapsto> ''1''] ++
       [''client_nickname'' \<mapsto> ''b'', ''ctid'' \<mapsto> ''2'', ''cid'' \<mapsto> ''3'']) = Inr e' \<and>
     en_fields e' = en_fields (applyClientChanges e c)"
  by (rule update_is_reread) (simp add: channel_key_ok_def)

text \<open>C27. Every notification, whatever it is, is taken without an error, and leaves in the view the
  clients the specification \<open>notified\<close> names.\<close>

theorem notifications_keep_the_roster:
  "\<exists>result v'. handleNotification store_clients cmd self v = Inr (result, v') \<and>
     map_of (vs_roster v') = notified cmd (map_of (vs_roster v))"
  using roster.notification_refines[of cmd self v] by (auto simp: store_clients_def)

text \<open>C28. Along any run of the view's operations the revision never goes back, is another one whenever
  anything its readers can see is, and then the callback was called, unless the view is loading.\<close>

theorem revision_tells_of_changes:
  "\<exists>v v'. view_run ps new_store = Some v \<and> view_run qs v = Some v' \<and> moved v v'"
proof -
  obtain v where v: "view_run ps new_store = Some v" "view_ok v" "roster_ok v"
    using view_run_ok[OF new_store_ok new_store_roster, of ps] by (auto simp: sound_def)
  with view_run_ok[OF v(2,3), of qs] show ?thesis by (auto simp: sound_def)
qed

text \<open>C29. In every state of a view each promise of \<open>whenReady\<close> is waiting or was settled, not both and
  not twice; none waits once the view is live or its connection has ended.\<close>

theorem ready_promises_settle_once:
  "\<exists>v. view_run ps new_store = Some v \<and>
     promises_ok (vs_waiters v) (vs_settled v) (vs_promises v) \<and>
     (vs_waiters v = [] \<or> vs_status v = Empty \<or> vs_status v = Loading)"
  using view_run_ok[OF new_store_ok new_store_roster, of ps] by (auto simp: sound_def view_ok_def)

text \<open>C30. In every state of a view, what \<open>channels\<close> gives, kept from an earlier read or not, lists every
  channel of the tree once, each parent before its children, the children of each in their order; and
  what \<open>clients\<close> gives is the roster.\<close>

theorem reads_show_what_is_there:
  "\<exists>v L. view_run ps new_store = Some v \<and> fst (read_clients v) = vs_roster v \<and>
     fst (read_channels v) = Some L \<and>
     shows_all (vs_tree v) TOP (kid (vs_tree v) TOP) (dom (chan (vs_tree v))) L \<and> map_of L = chan (vs_tree v)"
proof -
  obtain v where v: "view_run ps new_store = Some v" "view_ok v"
    using view_run_ok[OF new_store_ok new_store_roster, of ps] by (auto simp: sound_def)
  then have "tree_inv {} (vs_tree v)" by (simp add: view_ok_def)
  from preorder_shows[OF this] obtain L where
    "preorder (vs_tree v) = Some L" "shows_all (vs_tree v) TOP (kid (vs_tree v) TOP) (dom (chan (vs_tree v))) L"
    by blast
  then show ?thesis using v read_clients_sound(2)[OF v(2)] read_channels_sound(2)[OF v(2)] shows_all_map by auto
qed

section \<open>A session of the voice client\<close>

text \<open>C31. Whatever the server sends, whatever its user does and whatever throws, the view is where the
  connection is: loading or live while it lasts, empty or stale once it is down and no goodbye is
  being said; and the tracker, the roster and the channels keep their invariants.\<close>

theorem view_follows_connection:
  assumes "(voice_step op)\<^sup>*\<^sup>* (new_voice_session nickname) s"
  shows "view_follows s \<and> view_ok (sn_view s) \<and> roster_ok (sn_view s) \<and> tracker_inv (sn_track s)"
  using voice_runs_good[OF assms, of False] by (simp add: session_good_def session_inv_def)

lemma view_follows_connection_witness:
  "vs_status (sn_view live_session) = Live \<and> view_follows live_session"
  using view_follows_connection[OF sample_runs(2)] live_fields by simp

text \<open>C32. Without event middleware no change of the view goes unreported: once the deliveries that are
  scheduled have run, the last report is of the view as it is. The revisions reported go up.\<close>

theorem view_changes_reported:
  assumes "(voice_step op)\<^sup>*\<^sup>* (new_voice_session nickname) s" "\<not> so_middleware op"
  shows "let s' = drain_deliveries (\<lambda>_. False) s
    in \<not> report_due s' \<and> sn_queue s' = [] \<and> \<not> sn_draining s' \<and>
       sorted_wrt (<) (view_reports s') \<and>
       (\<not> report_due s \<or> last (view_reports s') = vs_revision (sn_view s))"
proof -
  have "session_good True s" using voice_runs_good[OF assms(1), of True] assms(2) by simp
  from drain_reports[OF this] show ?thesis by (auto simp: Let_def)
qed

lemma view_changes_reported_witness:
  "last (view_reports (drain_deliveries (\<lambda>_. False) updated_session)) = 3"
  using view_changes_reported[OF plain_run] updated_fields
  by (simp add: Let_def plain_options_def report_due_def)

text \<open>C33. With event middleware a change can go unreported: when it throws on the last delivery of a run,
  the report that would follow is not made, and nothing is left that would make it.\<close>

theorem thrown_event_loses_report:
  "\<exists>op s throws. (voice_step op)\<^sup>*\<^sup>* (new_voice_session ''me'') s \<and> so_middleware op \<and> report_due s \<and>
     (let s' = drain_deliveries throws s
      in vs_status (sn_view s') = Live \<and> report_due s' \<and> sn_queue s' = [] \<and> \<not> sn_draining s' \<and>
         view_reports s' = view_reports s)"
proof (intro exI conjI)
  show "(voice_step sample_options)\<^sup>*\<^sup>* (new_voice_session ''me'') edited_session" by (rule sample_runs)
  show "so_middleware sample_options" by (simp add: sample_options_def)
  show "report_due edited_session" by (simp add: report_due_def edited_fields)
  have r: "view_reports thrown_session = view_reports edited_session"
    unfolding thrown_session_def by (rule thrown_drain(1)[of _ "[]"]) (simp_all add: edited_fields)
  then show "let s' = drain_deliveries (\<lambda>_. True) edited_session
    in vs_status (sn_view s') = Live \<and> report_due s' \<and> sn_queue s' = [] \<and> \<not> sn_draining s' \<and>
       view_reports s' = view_reports edited_session"
    unfolding thrown_session_def[symmetric] Let_def
    by (simp add: thrown_fields edited_fields report_due_def)
qed

text \<open>C34. Before there are keys, when anyone could have sent it, a packet changes nothing of what the client
  knows, takes no place in the session and delivers no event but the end of the attempt, as long as no group
  list was left over from an earlier line. (A line that throws after rows of a group list leaves them,
  through a reconnect, for the next packet to apply: see \<open>leftover_moves\<close>.)\<close>

theorem nothing_before_the_keys:
  assumes "\<not> sn_keys s" "sn_group_line s = None"
  shows "unmoved s (receive_text op text s)"
  using assms by (rule receive_before_keys)

lemma nothing_before_the_keys_witness:
  "unmoved connecting_session
     (receive_text sample_options ''notifycliententerview clid=7'' connecting_session)"
  by (rule nothing_before_the_keys) (simp_all add: session_eval)

text \<open>C35. When the connection of a session that is up closes, every command is settled with an
  error whose cause is the error it closed with, where it had one, every wait for the view with that error or
  the one made up for it, the view keeps what it knew, and the end is announced.\<close>

theorem close_leaves_nothing_waiting:
  assumes "(voice_step op)\<^sup>*\<^sup>* (new_voice_session nickname) s" "sn_status s = Connected"
  shows "let s' = session_closes op err s; e = closed_error s err
    in sn_status s' = Disconnected \<and> vs_status (sn_view s') = Stale \<and>
       ct_pending (sn_track s') = [] \<and> vs_waiters (sn_view s') = [] \<and>
       (\<forall>rc\<in>fst ` set (ct_pending (sn_track s)).
          (rc, \<lparr>cr_err = Some (NotConnectedError err), cr_data = []\<rparr>) \<in> set (ct_resolved (sn_track s'))) \<and>
       (\<forall>w\<in>set (vs_waiters (sn_view s)). (w, Rejected (TheError e)) \<in> set (vs_settled (sn_view s'))) \<and>
       vs_roster (sn_view s') = vs_roster (sn_view s) \<and> vs_tree (sn_view s') = vs_tree (sn_view s) \<and>
       (\<exists>will. D_Disconnected (Some e) will \<in> set (sn_queue s')) \<and> sn_draining s'"
  using close_settles[OF assms(2) voice_runs_good[OF assms(1), of False]] by simp

lemma close_leaves_nothing_waiting_witness:
  "vs_status (sn_view (session_closes sample_options None live_session)) = Stale \<and>
   ct_pending (sn_track (session_closes sample_options None live_session)) = []"
  using close_leaves_nothing_waiting[OF sample_runs(2), of None]
  by (simp add: Let_def sn_status_def live_fields)

text \<open>A refusal that arrives while the goodbye of a \<open>disconnect()\<close> is being said ends the view there
  and then, with the refusal as the reason its waits are given, before the connection has ended.\<close>

lemma refusal_ends_view_early:
  "\<exists>op s text e. (voice_step op)\<^sup>*\<^sup>* (new_voice_session ''me'') s \<and>
     cl_leaving (sn_loop s) \<and> vs_status (sn_view s) = Live \<and>
     (let s' = receive_text op text s
      in sn_goodbye s' = Some False \<and> cl_leaving (sn_loop s') \<and> vs_status (sn_view s') = Stale \<and>
         vs_endedBy (sn_view s') = Some (TheError (ServerRefused e)))"
proof -
  obtain e where e: "vs_status (sn_view refused_session) = Stale"
    "vs_endedBy (sn_view refused_session) = Some (TheError (ServerRefused e))" using refused_fields(1) by blast
  show ?thesis
  proof (intro exI conjI)
    show "(voice_step sample_options)\<^sup>*\<^sup>* (new_voice_session ''me'') leaving_session" by (rule leaving_run)
    show "cl_leaving (sn_loop leaving_session)" "vs_status (sn_view leaving_session) = Live"
      by (simp_all add: leaving_fields live_fields)
    show "let s' = receive_text sample_options ''error id=520 msg=no'' leaving_session
      in sn_goodbye s' = Some False \<and> cl_leaving (sn_loop s') \<and> vs_status (sn_view s') = Stale \<and>
         vs_endedBy (sn_view s') = Some (TheError (ServerRefused e))"
      unfolding refused_session_def[symmetric] Let_def using e by (simp add: refused_fields leaving_fields)
  qed
qed

section \<open>Streams\<close>

text \<open>C36. The requests to watch a published stream are announced in the order they came, however long the
  lookups of their viewers take, and none is left waiting once every lookup has answered.\<close>

theorem requests_keep_their_turn:
  assumes "stream_reachable p"
  shows "sorted_wrt (<) (announced_slots p) \<and>
     ((\<forall>(t, sl)\<in>set (pb_slots p). \<not> sl_looking sl) \<longrightarrow> pb_slots p = [])"
  using announced_sorted waiting_is_looked_up reachable_published[OF assms] by blast

lemma requests_keep_their_turn_witness:
  "sorted_wrt (<) (announced_slots answered_stream) \<and> announced_slots answered_stream = [0, 1]"
  using requests_keep_their_turn[OF answered_reachable] by (simp add: answered_values)

text \<open>C37. Each request is answered, withdrawn or closed exactly once, or still pending; each viewer's peer
  is closed exactly once, or still open; and a stream that has ended has neither left.\<close>

theorem requests_and_peers_end_once:
  assumes "stream_reachable p"
  shows "(\<forall>n<length (pb_requests p). length (filter (settles n) (pb_events p)) =
       (if jr_state (pb_requests p ! n) = RS_Pending then 0 else 1)) \<and>
     (\<forall>k<length (pb_made p). length (filter (closes_peer k) (pb_events p)) =
       (if sp_closed (pb_made p ! k) = None then 0 else 1)) \<and>
     (pb_ended p \<longrightarrow> (\<forall>n<length (pb_requests p). jr_state (pb_requests p ! n) \<noteq> RS_Pending) \<and>
       (\<forall>k<length (pb_made p). sp_closed (pb_made p ! k) \<noteq> None))"
  using ends_once ended_nothing_open reachable_published[OF assms] by (simp add: open_request_def)

lemma requests_and_peers_end_once_witness:
  "length (filter (settles 1) (pb_events ended_stream)) = 1 \<and> length (filter (closes_peer 0) (pb_events ended_stream)) = 1"
proof -
  have f: "jr_state (pb_requests ended_stream ! 1) = RS_Ended" "length (pb_requests ended_stream) = 2"
    using watched_values(3) by (auto simp: map_eq_Cons_conv)
  have e: "sp_closed (pb_made ended_stream ! 0) \<noteq> None"
    using requests_and_peers_end_once[OF ended_reachable] watched_values by simp
  show ?thesis using requests_and_peers_end_once[OF ended_reachable] f e watched_values(4) by simp
qed



text \<open>C39. A call of \<^verbatim>\<open>watch\<close> comes to an end. Until it is settled its publisher's answer settles it, whatever the
  answer says, and so does the end of its stream; once it is settled its caller is given a view or an error;
  and whatever its request or its wait fails with, settled or not, the caller is given one at once.\<close>

theorem watch_is_given_an_end:
  assumes "streams_reachable s" "n < length (ss_watches s)" "wt_over (ss_watches s ! n) = None"
  defines "i \<equiv> wt_id (ss_watches s ! n)"
  shows "(wt_settled (ss_watches s ! n) = None \<longrightarrow>
       (str row ''id'' = i \<longrightarrow> wt_settled (ss_watches (onRespond parse row s) ! n) \<noteq> None) \<and>
       wt_settled (ss_watches (end_stream i reason cause s) ! n) \<noteq> None) \<and>
     (wt_settled (ss_watches s ! n) \<noteq> None \<longrightarrow> wt_over (ss_watches (watch_settles n s) ! n) \<noteq> None) \<and>
     wt_over (ss_watches (watch_catch n e s) ! n) \<noteq> None"
proof -
  note ok = reachable_streams[OF assms(1)]
  show ?thesis
    using waiting_watch_settled[OF unsettled_watch_waits(1)[OF ok assms(2,3)] assms(2) unsettled_watch_waits(2)[OF ok assms(2,3)]]
      watch_catch_ok[OF ok assms(2,3)] watch_settles_ok(2)[OF ok assms(2,3)]
    by (simp add: i_def)
qed

lemma watch_is_given_an_end_witness:
  "wt_over (ss_watches (watch_catch 0 Gave_Up watching_streams) ! 0) \<noteq> None"
  using watch_is_given_an_end[OF watching_reachable, of 0] by (simp add: watching_value(2))

text \<open>C40. When the connection is gone, or the object disposed, nothing is left: no stream is listed, every
  published stream has ended with its requests and viewers, every view is closed, and every call of
  \<^verbatim>\<open>watch\<close> and \<^verbatim>\<open>publish\<close> has its outcome or was given up.\<close>

theorem everything_over_leaves_nothing:
  assumes "streams_reachable s"
  shows "let s' = reset_streams ctx disposed s
    in ss_infos s' = [] \<and> ss_published s' = [] \<and> ss_watching s' = [] \<and>
       (\<forall>p\<in>set (ss_streams s'). pb_ended p \<and> (\<forall>n<length (pb_requests p). jr_state (pb_requests p ! n) \<noteq> RS_Pending) \<and>
          (\<forall>k<length (pb_made p). sp_closed (pb_made p ! k) \<noteq> None)) \<and>
       (\<forall>w\<in>set (ss_watches s'). \<not> view_open w \<and> (wt_settled w \<noteq> None \<or> wt_over w \<noteq> None)) \<and>
       (\<forall>a\<in>set (ss_attempts s'). at_outcome a \<noteq> None \<or> at_over a \<noteq> None)"
  using reset_leaves_nothing[OF reachable_streams[OF assms] refl] by (simp add: Let_def)

lemma everything_over_leaves_nothing_witness:
  "ss_infos own_streams \<noteq> [] \<and> ss_infos (reset_streams streaming_client False own_streams) = []"
  using everything_over_leaves_nothing[OF own_reachable] own_values(1) by (auto simp: Let_def)

end
